(* ===== verification/Batt_Prelude.thy ===== *)
theory Batt_Prelude
  imports Main "HOL-Library.Word" "HOL-Library.Multiset" "HOL-Library.Monad_Syntax"
begin

section \<open>Shared vocabulary of the development\<close>

text \<open>
  This theory holds what every component theory uses and no component owns: the
  collections of rewrite rules (\<open>batt_defs\<close> for definitions that a proof normally unfolds,
  \<open>seq_simps\<close> for the sequence library), the type synonyms for the machine integers of
  \<^verbatim>\<open>src/src/batteries/int_types.hpp\<close>, and generic facts about lists and the option monad.

  A function whose C++ original may fail to return (an unbounded loop, a failed
  \<^verbatim>\<open>BATT_CHECK\<close>, a dereference of an empty optional) has an \<open>option\<close> result; \<open>None\<close> is "does
  not return normally".
\<close>

named_theorems batt_defs
named_theorems seq_simps

type_synonym i32 = int
type_synonym i64 = int
type_synonym usize = nat
type_synonym u8 = "8 word"
type_synonym u32 = "32 word"
type_synonym u64 = "64 word"

subsection \<open>The first item of a list as an optional value\<close>

fun head_opt :: "'a list \<Rightarrow> 'a option" where
  "head_opt [] = None"
| "head_opt (x # xs) = Some x"

lemma head_opt_None_iff [simp]: "head_opt xs = None \<longleftrightarrow> xs = []"
  by (cases xs) auto

lemma head_opt_Some_iff: "head_opt xs = Some x \<longleftrightarrow> (\<exists>ys. xs = x # ys)"
  by (cases xs) auto

lemma head_opt_map [simp]: "head_opt (map f xs) = map_option f (head_opt xs)"
  by (cases xs) auto

lemma head_opt_hd: "xs \<noteq> [] \<Longrightarrow> head_opt xs = Some (hd xs)"
  by (cases xs) auto

lemma tl_map_filter_step: "filter p (x # xs) = (if p x then x # filter p xs else filter p xs)"
  by simp

subsection \<open>Stable merge of two lists by a strict comparison\<close>

text \<open>
  The reference for every merge in the library: an item of the right list is taken only if it
  compares strictly below the head of the left list, so equal items keep left before right.
\<close>

fun merge_list :: "('a \<Rightarrow> 'a \<Rightarrow> bool) \<Rightarrow> 'a list \<Rightarrow> 'a list \<Rightarrow> 'a list" where
  "merge_list lt [] ys = ys"
| "merge_list lt xs [] = xs"
| "merge_list lt (x # xs) (y # ys) =
     (if lt y x then y # merge_list lt (x # xs) ys else x # merge_list lt xs (y # ys))"

lemma merge_list_Nil2 [simp]: "merge_list lt xs [] = xs"
  by (cases xs) auto

lemma merge_list_eq_Nil_iff [simp]: "merge_list lt xs ys = [] \<longleftrightarrow> xs = [] \<and> ys = []"
  by (cases xs; cases ys) auto

lemma mset_merge_list: "mset (merge_list lt xs ys) = mset xs + mset ys"
  by (induction lt xs ys rule: merge_list.induct) auto

lemma set_merge_list: "set (merge_list lt xs ys) = set xs \<union> set ys"
  by (induction lt xs ys rule: merge_list.induct) auto

text \<open>
  Over a strict weak order the merge of two sorted lists is sorted and stable: of the items that are
  equivalent to an item \<open>z\<close>, those of the first list come first, and each list keeps its order.
\<close>

locale strict_weak =
  fixes lt :: "'a \<Rightarrow> 'a \<Rightarrow> bool"
  assumes asym: "lt x y \<Longrightarrow> \<not> lt y x"
    and cotrans: "lt x z \<Longrightarrow> lt x y \<or> lt y z"
begin

abbreviation sorted_lt :: "'a list \<Rightarrow> bool" where
  "sorted_lt \<equiv> sorted_wrt (\<lambda>x y. \<not> lt y x)"

abbreviation equivalent :: "'a \<Rightarrow> 'a \<Rightarrow> bool" where
  "equivalent x y \<equiv> \<not> lt x y \<and> \<not> lt y x"

lemma merge_list_induct [case_names Nil1 Nil2 right left]:
  assumes "\<And>ys. P [] ys" and "\<And>x xs. P (x # xs) []"
    and "\<And>x xs y ys. lt y x \<Longrightarrow> P (x # xs) ys \<Longrightarrow> P (x # xs) (y # ys)"
    and "\<And>x xs y ys. \<not> lt y x \<Longrightarrow> P xs (y # ys) \<Longrightarrow> P (x # xs) (y # ys)"
  shows "P xs ys"
proof (induction "length xs + length ys" arbitrary: xs ys rule: less_induct)
  case less
  show ?case
  proof (cases xs)
    case (Cons x xs')
    show ?thesis
    proof (cases ys)
      case (Cons y ys')
      with less \<open>xs = x # xs'\<close> have "P (x # xs') ys'" "P xs' (y # ys')" by simp_all
      with assms(3,4) [of y x] Cons \<open>xs = x # xs'\<close> show ?thesis by blast
    qed (simp add: assms(2) Cons)
  qed (simp add: assms(1))
qed

lemma sorted_lt_merge_list: "sorted_lt xs \<Longrightarrow> sorted_lt ys \<Longrightarrow> sorted_lt (merge_list lt xs ys)"
proof (induction xs ys rule: merge_list_induct)
  case (right x xs y ys)
  have "\<not> lt z y" if "z \<in> set (x # xs)" for z using that right.hyps right.prems(1) asym [of y x] cotrans [of z y x] asym [of y z] cotrans [of y x z] by auto
  with right show ?case by (auto simp: set_merge_list)
next
  case (left x xs y ys)
  have "\<not> lt z x" if "z \<in> set (y # ys)" for z using that left.hyps left.prems(2) cotrans [of z x y] by auto
  with left show ?case by (auto simp: set_merge_list)
qed auto

lemma merge_list_stable:
  "sorted_lt xs \<Longrightarrow> sorted_lt ys \<Longrightarrow>
     filter (equivalent z) (merge_list lt xs ys) = filter (equivalent z) xs @ filter (equivalent z) ys"
proof (induction xs ys rule: merge_list_induct)
  case (right x xs y ys)
  have "\<not> equivalent z w" if "w \<in> set (x # xs)" "equivalent z y" for w
    using that right.hyps right.prems(1) cotrans [of y x w] cotrans [of y x z] cotrans [of y w z] by auto
  then have "filter (equivalent z) (x # xs) = []" if "equivalent z y" using that by (simp only: filter_empty_conv) blast
  with right show ?case by (cases "equivalent z y") auto
qed auto

end

interpretation less_order: strict_weak "(<) :: 'a::linorder \<Rightarrow> 'a \<Rightarrow> bool"
  by unfold_locales auto

subsection \<open>Runs of related neighbours\<close>

text \<open>
  \<open>take_run r x xs\<close> is the longest prefix of \<open>xs\<close> in which every item is related by \<open>r\<close> to its
  predecessor (the predecessor of the first item is \<open>x\<close>); \<open>drop_run\<close> is the rest.
\<close>

fun take_run :: "('a \<Rightarrow> 'a \<Rightarrow> bool) \<Rightarrow> 'a \<Rightarrow> 'a list \<Rightarrow> 'a list" where
  "take_run r x [] = []"
| "take_run r x (y # ys) = (if r x y then y # take_run r y ys else [])"

fun drop_run :: "('a \<Rightarrow> 'a \<Rightarrow> bool) \<Rightarrow> 'a \<Rightarrow> 'a list \<Rightarrow> 'a list" where
  "drop_run r x [] = []"
| "drop_run r x (y # ys) = (if r x y then drop_run r y ys else y # ys)"

lemma take_drop_run [simp]: "take_run r x xs @ drop_run r x xs = xs"
  by (induction r x xs rule: take_run.induct) auto

lemma length_drop_run: "length (drop_run r x xs) \<le> length xs"
  by (induction r x xs rule: drop_run.induct) auto

function group_list :: "('a \<Rightarrow> 'a \<Rightarrow> bool) \<Rightarrow> 'a list \<Rightarrow> 'a list list" where
  "group_list r [] = []"
| "group_list r (x # xs) = (x # take_run r x xs) # group_list r (drop_run r x xs)"
  by pat_completeness auto
termination
  by (relation "measure (length \<circ> snd)") (auto simp: le_imp_less_Suc length_drop_run)

lemma concat_group_list [simp]: "concat (group_list r xs) = xs"
  by (induction r xs rule: group_list.induct) auto

lemma Nil_notin_group_list: "[] \<notin> set (group_list r xs)"
  by (induction r xs rule: group_list.induct) auto

subsection \<open>Combining neighbours\<close>

fun map_adj :: "('a \<Rightarrow> 'a \<Rightarrow> 'b) \<Rightarrow> 'a list \<Rightarrow> 'b list" where
  "map_adj f (x # y # ys) = f x y # map_adj f (y # ys)"
| "map_adj f xs = []"

lemma map_adj_Cons: "map_adj f (x # xs) = (case xs of [] \<Rightarrow> [] | y # ys \<Rightarrow> f x y # map_adj f xs)"
  by (cases xs) auto

subsection \<open>Indices of a ring\<close>

text \<open>The places of \<open>n\<close> consecutive positions from \<open>start\<close> in a ring of \<open>c\<close> cells.\<close>

definition ring :: "nat \<Rightarrow> nat \<Rightarrow> nat \<Rightarrow> nat list" where
  "ring c start n = map (\<lambda>i. (start + i) mod c) [0..<n]"

lemma length_ring [simp]: "length (ring c s n) = n"
  by (simp add: ring_def)

lemma nth_ring [simp]: "i < n \<Longrightarrow> ring c s n ! i = (s + i) mod c"
  by (simp add: ring_def)

lemma mod_close_inj:
  fixes a b c :: nat
  assumes "a mod c = b mod c" and "a \<le> b" and "b < a + c"
  shows "a = b"
proof -
  have "c dvd b - a" using assms(1,2) mod_eq_dvd_iff_nat [of a b c] by simp
  then show ?thesis using assms(2,3) by (auto dest!: dvd_imp_le)
qed

lemma distinct_ring: "n \<le> c \<Longrightarrow> distinct (ring c s n)"
proof -
  assume n: "n \<le> c"
  have "i = j" if "i < n" "j < n" "(s + i) mod c = (s + j) mod c" for i j
    using that n mod_close_inj [of "s + i" c "s + j"] mod_close_inj [of "s + j" c "s + i"]
    by (cases "i \<le> j") auto
  then show ?thesis by (auto simp: ring_def distinct_map inj_on_def)
qed

lemma ring_append: "ring c s (m + n) = ring c s m @ ring c (s + m) n"
  by (rule nth_equalityI) (auto simp: nth_append)

subsection \<open>Machine words\<close>

lemma unat_u64_less: "unat (w :: u64) < 2 ^ 64"
  using unsigned_less [of w, where ?'a = nat] by simp

lemma unat_of_nat_u64: "n < 2 ^ 64 \<Longrightarrow> unat (of_nat n :: u64) = n"
  by (simp add: unsigned_of_nat take_bit_nat_eq_self)

subsection \<open>Systems of steps with an inductive invariant\<close>

text \<open>
  The contract that a concurrent component meets: an initial state and a step relation for which a
  predicate holds initially and is kept by every step. Its users get the predicate in every state
  of every execution.
\<close>

locale invariant_system =
  fixes init :: 's and step :: "'s \<Rightarrow> 's \<Rightarrow> bool" and invar :: "'s \<Rightarrow> bool"
  assumes init_invar: "invar init"
    and step_invar: "invar s \<Longrightarrow> step s s' \<Longrightarrow> invar s'"
begin

lemma execution_invar: "step\<^sup>*\<^sup>* init s \<Longrightarrow> invar s"
  by (induction rule: rtranclp_induct) (auto intro: init_invar step_invar)

end

lemma length_filter_update: "i < length xs \<Longrightarrow>
  int (length (filter P (xs[i := y]))) = int (length (filter P xs)) + (if P y then 1 else 0) - (if P (xs ! i) then 1 else 0)"
proof (induction xs arbitrary: i)
  case (Cons x xs)
  show ?case
  proof (cases i)
    case (Suc j)
    then show ?thesis using Cons.IH [of j] Cons.prems by (auto split: if_splits)
  qed simp
qed simp

end
