(* ===== verification/Seq_Core.thy ===== *)
theory Seq_Core
  imports Batt_Prelude
begin

section \<open>Sequences: the interface, the sources and the consumers\<close>

text \<open>
  Models \<^verbatim>\<open>src/src/batteries/seq/\<close>: a sequence is any object with \<^verbatim>\<open>next()\<close> and \<^verbatim>\<open>peek()\<close>
  (\<^verbatim>\<open>requirements.hpp\<close>). A method of an object of state type \<open>'s\<close> is a function from the state
  to the returned optional item and the new state; the outer \<open>option\<close> is \<open>None\<close> where the call
  does not return. The template parameter \<^verbatim>\<open>Seq\<close> of an adapter becomes the pair of functions
  \<open>nxt\<close> and \<open>pk\<close> that model the methods of the adapted sequence.

  The locale \<open>seq_laws\<close> is the contract between a sequence and its users: \<open>items s\<close> are the
  items that the object still has to deliver, \<^verbatim>\<open>next()\<close> returns the first and drops it,
  \<^verbatim>\<open>peek()\<close> returns the first and keeps it, and both return. The consumers
  (\<^verbatim>\<open>for_each\<close>, \<^verbatim>\<open>reduce\<close>, \<^verbatim>\<open>collect_vec\<close>, \<dots>) are shown to compute the corresponding list
  functions for every sequence that meets the contract.
\<close>

type_synonym ('s, 'a) seq_fn = "'s \<Rightarrow> ('a option \<times> 's) option"

subsection \<open>The contract\<close>

locale seq_next =
  fixes nxt :: "'s \<Rightarrow> ('a option \<times> 's) option"
    and items :: "'s \<Rightarrow> 'a list"
    and invar :: "'s \<Rightarrow> bool"
  assumes next_law: "invar s \<Longrightarrow>
    \<exists>s'. nxt s = Some (head_opt (items s), s') \<and> invar s' \<and> items s' = tl (items s)"

locale seq_laws = seq_next nxt items invar
  for nxt :: "'s \<Rightarrow> ('a option \<times> 's) option" and items :: "'s \<Rightarrow> 'a list" and invar :: "'s \<Rightarrow> bool" +
  fixes pk :: "'s \<Rightarrow> ('a option \<times> 's) option"
  assumes peek_law: "invar s \<Longrightarrow>
    \<exists>s'. pk s = Some (head_opt (items s), s') \<and> invar s' \<and> items s' = items s"

subsection \<open>Sources: SubRangeSeq, SingleItem, Empty\<close>

text \<open>
  \<^verbatim>\<open>SubRangeSeq<T>\<close> adapts any range type with \<^verbatim>\<open>empty()\<close>, \<^verbatim>\<open>front()\<close> and \<^verbatim>\<open>drop_front()\<close>
  (in practice \<^verbatim>\<open>boost::iterator_range\<close>); those three are parameters. \<open>sub_range_laws\<close> states
  what they do to the list of elements of the range.
\<close>

record 'r SubRangeSeq =
  SubRangeSeq_range :: 'r

definition SubRangeSeq_peek ::
    "('r \<Rightarrow> bool) \<Rightarrow> ('r \<Rightarrow> 'a) \<Rightarrow> ('r SubRangeSeq, 'a) seq_fn" where
  "SubRangeSeq_peek is_empty front q =
     (if is_empty (SubRangeSeq_range q) then Some (None, q)
      else Some (Some (front (SubRangeSeq_range q)), q))"

definition SubRangeSeq_next ::
    "('r \<Rightarrow> bool) \<Rightarrow> ('r \<Rightarrow> 'a) \<Rightarrow> ('r \<Rightarrow> 'r) \<Rightarrow> ('r SubRangeSeq, 'a) seq_fn" where
  "SubRangeSeq_next is_empty front drop_front q =
     do {
       (n, q) \<leftarrow> SubRangeSeq_peek is_empty front q;
       case n of
         None \<Rightarrow> Some (n, q)
       | Some _ \<Rightarrow> Some (n, q\<lparr>SubRangeSeq_range := drop_front (SubRangeSeq_range q)\<rparr>)
     }"

locale sub_range_laws =
  fixes is_empty :: "'r \<Rightarrow> bool" and front :: "'r \<Rightarrow> 'a" and drop_front :: "'r \<Rightarrow> 'r"
    and elems :: "'r \<Rightarrow> 'a list"
  assumes empty_iff: "is_empty r \<longleftrightarrow> elems r = []"
    and front_hd: "elems r \<noteq> [] \<Longrightarrow> front r = hd (elems r)"
    and drop_front_tl: "elems r \<noteq> [] \<Longrightarrow> elems (drop_front r) = tl (elems r)"
begin

lemma SubRangeSeq_seq_laws:
  "seq_laws (SubRangeSeq_next is_empty front drop_front) (\<lambda>q. elems (SubRangeSeq_range q)) (\<lambda>_. True)
     (SubRangeSeq_peek is_empty front)"
  by unfold_locales
    (auto simp: SubRangeSeq_next_def SubRangeSeq_peek_def empty_iff head_opt_hd front_hd
      drop_front_tl)

end

text \<open>The instance used for vectors: the range is the list of the elements it spans.\<close>

interpretation list_range: sub_range_laws "\<lambda>xs. xs = []" hd tl "\<lambda>xs. xs"
  by unfold_locales auto

abbreviation range_next :: "('a list SubRangeSeq, 'a) seq_fn" where
  "range_next \<equiv> SubRangeSeq_next (\<lambda>xs. xs = []) hd tl"

abbreviation range_peek :: "('a list SubRangeSeq, 'a) seq_fn" where
  "range_peek \<equiv> SubRangeSeq_peek (\<lambda>xs. xs = []) hd"

definition as_seq :: "'a list \<Rightarrow> 'a list SubRangeSeq" where
  "as_seq xs = \<lparr>SubRangeSeq_range = xs\<rparr>"

interpretation vec_seq: seq_laws range_next "\<lambda>q. SubRangeSeq_range q" "\<lambda>_. True" range_peek
  by (rule list_range.SubRangeSeq_seq_laws)

lemma sub_range_as_seq [simp]: "SubRangeSeq_range (as_seq xs) = xs"
  by (simp add: as_seq_def)

text \<open>\<^verbatim>\<open>SingleItem\<close> and \<^verbatim>\<open>Empty\<close>.\<close>

record 'a SingleItem =
  SingleItem_item :: "'a option"

definition single_item :: "'a \<Rightarrow> 'a SingleItem" where
  "single_item x = \<lparr>SingleItem_item = Some x\<rparr>"

definition SingleItem_peek :: "('a SingleItem, 'a) seq_fn" where
  "SingleItem_peek q = Some (SingleItem_item q, q)"

definition SingleItem_next :: "('a SingleItem, 'a) seq_fn" where
  "SingleItem_next q = (let n = SingleItem_item q in Some (n, q\<lparr>SingleItem_item := None\<rparr>))"

interpretation single: seq_laws SingleItem_next "\<lambda>q. (case SingleItem_item q of None \<Rightarrow> [] | Some x \<Rightarrow> [x])"
  "\<lambda>_. True" SingleItem_peek
  by unfold_locales (auto simp: SingleItem_next_def SingleItem_peek_def split: option.splits)

definition Empty_peek :: "(unit, 'a) seq_fn" where
  "Empty_peek q = Some (None, q)"

definition Empty_next :: "(unit, 'a) seq_fn" where
  "Empty_next q = Some (None, q)"

interpretation empty_seq: seq_laws Empty_next "\<lambda>_. []" "\<lambda>_. True" Empty_peek
  by unfold_locales (auto simp: Empty_next_def Empty_peek_def)

subsection \<open>for\_each\<close>

text \<open>
  The loop body is a function of the item and of the variables it captures by reference
  (\<open>'c\<close>); \<open>run_loop_fn\<close> has already turned a \<^verbatim>\<open>void\<close> body into one that returns \<open>kContinue\<close>.
\<close>

datatype LoopControl = kContinue | kBreak

definition run_loop_fn_void :: "('a \<Rightarrow> 'c \<Rightarrow> 'c) \<Rightarrow> 'a \<Rightarrow> 'c \<Rightarrow> LoopControl \<times> 'c" where
  [batt_defs]: "run_loop_fn_void fn x c = (kContinue, fn x c)"

partial_function (option) for_each ::
    "('s, 'a) seq_fn \<Rightarrow> ('a \<Rightarrow> 'c \<Rightarrow> LoopControl \<times> 'c) \<Rightarrow> 's \<Rightarrow> 'c \<Rightarrow>
       (LoopControl \<times> 's \<times> 'c) option" where
  "for_each nxt fn s c =
     Option.bind (nxt s) (\<lambda>(n, s').
       case n of
         None \<Rightarrow> Some (kContinue, s', c)
       | Some x \<Rightarrow>
           (case fn x c of (ctl, c') \<Rightarrow>
              if ctl = kBreak then Some (kBreak, s', c') else for_each nxt fn s' c'))"

text \<open>The same loop over a list: the control value, the items not visited, the variables.\<close>

fun for_each_list ::
    "('a \<Rightarrow> 'c \<Rightarrow> LoopControl \<times> 'c) \<Rightarrow> 'a list \<Rightarrow> 'c \<Rightarrow> LoopControl \<times> 'a list \<times> 'c" where
  "for_each_list fn [] c = (kContinue, [], c)"
| "for_each_list fn (x # xs) c =
     (case fn x c of (ctl, c') \<Rightarrow>
        if ctl = kBreak then (kBreak, xs, c') else for_each_list fn xs c')"

lemma for_each_list_void:
  "for_each_list (run_loop_fn_void fn) xs c = (kContinue, [], fold fn xs c)"
  by (induction xs arbitrary: c) (auto simp: run_loop_fn_void_def)

context seq_next
begin

lemma next_Nil: "invar s \<Longrightarrow> items s = [] \<Longrightarrow>
    \<exists>s'. nxt s = Some (None, s') \<and> invar s' \<and> items s' = []"
  using next_law [of s] by simp

lemma next_Cons: "invar s \<Longrightarrow> items s = x # xs \<Longrightarrow>
    \<exists>s'. nxt s = Some (Some x, s') \<and> invar s' \<and> items s' = xs"
  using next_law [of s] by simp

lemma for_each_items:
  "invar s \<Longrightarrow> \<exists>s' ctl c'. for_each nxt fn s c = Some (ctl, s', c') \<and> invar s' \<and>
     for_each_list fn (items s) c = (ctl, items s', c')"
proof (induction "items s" arbitrary: s c)
  case Nil
  then obtain s' where "nxt s = Some (None, s')" "invar s'" "items s' = []"
    using next_Nil [of s] by auto
  with Nil show ?case by (subst for_each.simps) simp
next
  case (Cons x xs)
  then obtain s' where s': "nxt s = Some (Some x, s')" "invar s'" "items s' = xs"
    using next_Cons [of s x xs] by auto
  obtain ctl c' where fn: "fn x c = (ctl, c')" by fastforce
  show ?case
  proof (cases "ctl = kBreak")
    case True
    with s' fn Cons.hyps(2) [symmetric] show ?thesis by (subst for_each.simps) simp
  next
    case False
    with Cons.hyps(1) [of s' c'] s' obtain s'' ctl2 c'' where
      "for_each nxt fn s' c' = Some (ctl2, s'', c'')" "invar s''"
      "for_each_list fn xs c' = (ctl2, items s'', c'')" by auto
    with False s' fn Cons.hyps(2) [symmetric] show ?thesis by (subst for_each.simps) simp
  qed
qed

lemma for_each_void_items:
  assumes "invar s"
  shows "\<exists>s'. for_each nxt (run_loop_fn_void fn) s c = Some (kContinue, s', fold fn (items s) c)
     \<and> invar s' \<and> items s' = []"
  using for_each_items [OF assms, of "run_loop_fn_void fn" c]
  by (auto simp: for_each_list_void)

end

subsection \<open>Consumers\<close>

definition reduce :: "('s, 'a) seq_fn \<Rightarrow> 'b \<Rightarrow> ('b \<Rightarrow> 'a \<Rightarrow> 'b) \<Rightarrow> 's \<Rightarrow> 'b option" where
  "reduce nxt state reduce_fn s =
     do {
       (_, _, state) \<leftarrow> for_each nxt (run_loop_fn_void (\<lambda>item state. reduce_fn state item)) s state;
       Some state
     }"

definition sum_seq :: "('s, 'a::{plus, zero}) seq_fn \<Rightarrow> 's \<Rightarrow> 'a option" where
  "sum_seq nxt s = reduce nxt 0 (\<lambda>a b. a + b) s"

definition product_seq :: "('s, 'a::{times, one}) seq_fn \<Rightarrow> 's \<Rightarrow> 'a option" where
  "product_seq nxt s = reduce nxt 1 (\<lambda>a b. a * b) s"

definition count_seq :: "('s, 'a) seq_fn \<Rightarrow> 's \<Rightarrow> usize option" where
  "count_seq nxt s =
     do {
       (_, _, n) \<leftarrow> for_each nxt (run_loop_fn_void (\<lambda>_ n. n + 1)) s 0;
       Some n
     }"

definition any_true :: "('s, bool) seq_fn \<Rightarrow> 's \<Rightarrow> bool option" where
  "any_true nxt s =
     do {
       (_, _, ans) \<leftarrow> for_each nxt (\<lambda>item ans. if item then (kBreak, True) else (kContinue, ans)) s False;
       Some ans
     }"

definition all_true :: "('s, bool) seq_fn \<Rightarrow> 's \<Rightarrow> bool option" where
  "all_true nxt s =
     do {
       (_, _, ans) \<leftarrow> for_each nxt (\<lambda>item ans. if \<not> item then (kBreak, False) else (kContinue, ans)) s True;
       Some ans
     }"

definition emplace_back :: "('s, 'a) seq_fn \<Rightarrow> 'a list \<Rightarrow> 's \<Rightarrow> 'a list option" where
  "emplace_back nxt dst s =
     do {
       (_, _, dst) \<leftarrow> for_each nxt (run_loop_fn_void (\<lambda>item dst. dst @ [item])) s dst;
       Some dst
     }"

definition collect_vec :: "('s, 'a) seq_fn \<Rightarrow> 's \<Rightarrow> 'a list option" where
  "collect_vec nxt s =
     do {
       (_, _, v) \<leftarrow> for_each nxt (run_loop_fn_void (\<lambda>item v. v @ [item])) s [];
       Some v
     }"

text \<open>
  \<^verbatim>\<open>consume\<close> drops the items; it returns the final state because \<^verbatim>\<open>GroupBy\<close> runs it on an object
  that outlives the call. A loop that ended with \<^verbatim>\<open>kBreak\<close> would fail the \<^verbatim>\<open>BATT_CHECK_EQ\<close>.
\<close>

definition consume :: "('s, 'a) seq_fn \<Rightarrow> 's \<Rightarrow> 's option" where
  "consume nxt s =
     do {
       (result, s, _) \<leftarrow> for_each nxt (run_loop_fn_void (\<lambda>_ u. u)) s ();
       if result = kContinue then Some s else None
     }"

partial_function (option) last_loop ::
    "('s, 'a) seq_fn \<Rightarrow> 'a option \<Rightarrow> 'a option \<Rightarrow> 's \<Rightarrow> 'a option option" where
  "last_loop nxt prev cur s =
     (case cur of
        None \<Rightarrow> Some prev
      | Some x \<Rightarrow> Option.bind (nxt s) (\<lambda>(cur', s'). last_loop nxt (Some x) cur' s'))"

definition last_seq :: "('s, 'a) seq_fn \<Rightarrow> 's \<Rightarrow> 'a option option" where
  "last_seq nxt s = do { (cur, s) \<leftarrow> nxt s; last_loop nxt None cur s }"

definition first_seq :: "('s, 'a) seq_fn \<Rightarrow> 's \<Rightarrow> 'a option option" where
  "first_seq pk s = do { (item, _) \<leftarrow> pk s; Some item }"

definition inner_reduce :: "('s, 'a) seq_fn \<Rightarrow> ('a \<Rightarrow> 'a \<Rightarrow> 'a) \<Rightarrow> 's \<Rightarrow> 'a option option" where
  "inner_reduce nxt reduce_fn s =
     do {
       (state, s) \<leftarrow> nxt s;
       case state of
         None \<Rightarrow> Some None
       | Some x \<Rightarrow> map_option Some (reduce nxt x reduce_fn s)
     }"

lemmas consumer_defs = reduce_def sum_seq_def product_seq_def count_seq_def any_true_def
  all_true_def emplace_back_def collect_vec_def consume_def last_seq_def first_seq_def
  inner_reduce_def

lemma fold_snoc: "fold (\<lambda>x v. v @ [x]) xs v = v @ xs"
  by (induction xs arbitrary: v) auto

lemma fold_Suc_length: "fold (\<lambda>_ n. Suc n) xs n = n + length xs"
  by (induction xs arbitrary: n) auto

lemma for_each_list_any:
  "snd (snd (for_each_list (\<lambda>item ans. if item then (kBreak, True) else (kContinue, ans)) xs b))
     = (b \<or> True \<in> set xs)"
  by (induction xs) auto

lemma for_each_list_all:
  "snd (snd (for_each_list (\<lambda>item ans. if \<not> item then (kBreak, False) else (kContinue, ans)) xs b))
     = (b \<and> False \<notin> set xs)"
  by (induction xs) auto

context seq_next
begin

lemma reduce_items: "invar s \<Longrightarrow> reduce nxt st f s = Some (foldl f st (items s))"
  using for_each_void_items [of s "\<lambda>x st. f st x" st]
  by (auto simp: reduce_def foldl_conv_fold)

lemma count_items: "invar s \<Longrightarrow> count_seq nxt s = Some (length (items s))"
  using for_each_void_items [of s "\<lambda>_ n. n + 1" "0 :: nat"]
  by (auto simp: count_seq_def fold_Suc_length)

lemma emplace_back_items: "invar s \<Longrightarrow> emplace_back nxt dst s = Some (dst @ items s)"
  using for_each_void_items [of s "\<lambda>x v. v @ [x]" dst]
  by (auto simp: emplace_back_def fold_snoc)

lemma collect_items: "invar s \<Longrightarrow> collect_vec nxt s = Some (items s)"
  using for_each_void_items [of s "\<lambda>x v. v @ [x]" "[]"]
  by (auto simp: collect_vec_def fold_snoc)

lemma consume_items: "invar s \<Longrightarrow> \<exists>s'. consume nxt s = Some s' \<and> invar s' \<and> items s' = []"
  using for_each_void_items [of s "\<lambda>_ u. u" "()"]
  by (auto simp: consume_def)

lemma last_loop_items:
  "invar s \<Longrightarrow> last_loop nxt prev (Some x) s = Some (Some (last (x # items s)))"
proof (induction "items s" arbitrary: s prev x)
  case Nil
  then obtain s' where "nxt s = Some (None, s')"
    using next_Nil [of s] by auto
  with Nil show ?case by (simp add: last_loop.simps)
next
  case (Cons y ys)
  then obtain s' where "nxt s = Some (Some y, s')" "invar s'" "items s' = ys"
    using next_Cons [of s y ys] by auto
  with Cons.hyps(1) [of s'] Cons.hyps(2) [symmetric] show ?case
    by (subst last_loop.simps) simp
qed

lemma last_items: "invar s \<Longrightarrow> last_seq nxt s = Some (if items s = [] then None else Some (last (items s)))"
proof (cases "items s")
  case Nil
  assume "invar s"
  with Nil obtain s' where "nxt s = Some (None, s')" using next_Nil [of s] by auto
  with Nil show ?thesis by (simp add: last_seq_def last_loop.simps)
next
  case (Cons x xs)
  assume "invar s"
  with Cons obtain s' where "nxt s = Some (Some x, s')" "invar s'" "items s' = xs"
    using next_Cons [of s x xs] by auto
  with Cons last_loop_items [of s' None x] show ?thesis by (simp add: last_seq_def)
qed

lemma inner_reduce_items:
  "invar s \<Longrightarrow> inner_reduce nxt f s =
     Some (case items s of [] \<Rightarrow> None | x # xs \<Rightarrow> Some (foldl f x xs))"
  using next_law [of s] reduce_items
  by (cases "items s") (auto simp: inner_reduce_def)

lemma for_each_result:
  assumes "invar s"
  shows "map_option (\<lambda>(_, _, c). c) (for_each nxt fn s c) = Some (snd (snd (for_each_list fn (items s) c)))"
  using for_each_items [OF assms, of fn c] by auto

end

lemma sum_items:
  assumes "seq_next nxt items invar" and "invar s"
  shows "sum_seq nxt s = Some (foldl (+) 0 (items s))"
  by (simp add: sum_seq_def seq_next.reduce_items [OF assms])

lemma product_items:
  assumes "seq_next nxt items invar" and "invar s"
  shows "product_seq nxt s = Some (foldl (*) 1 (items s))"
  by (simp add: product_seq_def seq_next.reduce_items [OF assms])

lemma any_true_items:
  assumes "seq_next nxt items invar" and "invar s"
  shows "any_true nxt s = Some (True \<in> set (items s))"
  using seq_next.for_each_items [OF assms, of "\<lambda>item ans. if item then (kBreak, True) else (kContinue, ans)" False]
    for_each_list_any [of "items s" False]
  by (auto simp: any_true_def)

lemma all_true_items:
  assumes "seq_next nxt items invar" and "invar s"
  shows "all_true nxt s = Some (False \<notin> set (items s))"
  using seq_next.for_each_items [OF assms, of "\<lambda>item ans. if \<not> item then (kBreak, False) else (kContinue, ans)" True]
    for_each_list_all [of "items s" True]
  by (auto simp: all_true_def)

context seq_laws
begin

lemma peek_Nil: "invar s \<Longrightarrow> items s = [] \<Longrightarrow>
    \<exists>s'. pk s = Some (None, s') \<and> invar s' \<and> items s' = []"
  using peek_law [of s] by simp

lemma peek_Cons: "invar s \<Longrightarrow> items s = x # xs \<Longrightarrow>
    \<exists>s'. pk s = Some (Some x, s') \<and> invar s' \<and> items s' = x # xs"
  using peek_law [of s] by simp

lemma first_items: "invar s \<Longrightarrow> first_seq pk s = Some (head_opt (items s))"
  using peek_law [of s] by (auto simp: first_seq_def)

end

subsection \<open>Properties\<close>

text \<open>
  For every sequence that meets the contract and every loop body,
  \<^verbatim>\<open>seq | for_each(fn)\<close> returns; it calls the body on exactly the items that the same loop over the
  list of items visits, in order, with the same effect and the same result, and after
  \<^verbatim>\<open>kBreak\<close> the sequence still holds exactly the items that were not visited.
\<close>

theorem for_each_visits_items:
  assumes "seq_next nxt items invar" and "invar s"
  shows "\<exists>s' ctl c'. for_each nxt fn s c = Some (ctl, s', c') \<and> invar s' \<and>
     for_each_list fn (items s) c = (ctl, items s', c')"
  using seq_next.for_each_items [OF assms] .

theorem for_each_visits_items_witness:
  "\<exists>s'. for_each range_next (\<lambda>x n. if x = 3 then (kBreak, n) else (kContinue, n + x)) (as_seq [1, 2, 3, 4])
     (0 :: nat) = Some (kBreak, s', 3) \<and> SubRangeSeq_range s' = [4]"
  using for_each_visits_items [OF vec_seq.seq_next_axioms TrueI,
      of "\<lambda>x n. if x = 3 then (kBreak, n) else (kContinue, n + x)" "as_seq [1, 2, 3, 4 :: nat]" 0]
  by auto

end
