(* ===== verification/Seq_Adapters.thy ===== *)
theory Seq_Adapters
  imports Seq_Core
begin

section \<open>Sequence adapters\<close>

text \<open>
  One group per adapter class of \<^verbatim>\<open>src/src/batteries/seq/\<close>: the object as a record with the
  class's data members, its constructor (or the \<^verbatim>\<open>operator|\<close> that builds it), and its methods.
  For each adapter a lemma of the locale \<open>seq_laws\<close> shows that the adapted object again meets the
  contract, with the items that the corresponding list function computes; \<open>seq_laws.X_laws\<close> is
  then a rule that takes the contract of a pipeline stage to the contract of the next one.
  \<^verbatim>\<open>Chain::peek\<close> and \<^verbatim>\<open>SkipN\<close> do not meet the contract; what they do instead is stated too.

  Functions held by an adapter (predicates, map functions) are pure functions; where the point of
  the adapter is the side effect (\<^verbatim>\<open>InspectAdjacent\<close>) the effect is explicit state.
\<close>

subsection \<open>Filter\<close>

record ('s, 'a) Filter =
  Filter_seq :: 's
  Filter_predicate :: "'a \<Rightarrow> bool"

definition filter_seq :: "('a \<Rightarrow> bool) \<Rightarrow> 's \<Rightarrow> ('s, 'a) Filter" where
  "filter_seq predicate s = \<lparr>Filter_seq = s, Filter_predicate = predicate\<rparr>"

partial_function (option) Filter_peek ::
    "('s, 'a) seq_fn \<Rightarrow> ('s, 'a) seq_fn \<Rightarrow> (('s, 'a) Filter, 'a) seq_fn" where
  "Filter_peek nxt pk f =
     Option.bind (pk (Filter_seq f)) (\<lambda>(item, s).
       case item of
         None \<Rightarrow> Some (None, f\<lparr>Filter_seq := s\<rparr>)
       | Some x \<Rightarrow>
           if Filter_predicate f x then Some (Some x, f\<lparr>Filter_seq := s\<rparr>)
           else Option.bind (nxt s) (\<lambda>(_, s). Filter_peek nxt pk (f\<lparr>Filter_seq := s\<rparr>)))"

partial_function (option) Filter_next ::
    "('s, 'a) seq_fn \<Rightarrow> (('s, 'a) Filter, 'a) seq_fn" where
  "Filter_next nxt f =
     Option.bind (nxt (Filter_seq f)) (\<lambda>(item, s).
       case item of
         None \<Rightarrow> Some (None, f\<lparr>Filter_seq := s\<rparr>)
       | Some x \<Rightarrow>
           if Filter_predicate f x then Some (Some x, f\<lparr>Filter_seq := s\<rparr>)
           else Filter_next nxt (f\<lparr>Filter_seq := s\<rparr>))"

abbreviation (input) Filter_items :: "('s \<Rightarrow> 'a list) \<Rightarrow> ('s, 'a) Filter \<Rightarrow> 'a list" where
  "Filter_items items f \<equiv> filter (Filter_predicate f) (items (Filter_seq f))"

context seq_next
begin

lemma Filter_next_items:
  "invar (Filter_seq f) \<Longrightarrow> \<exists>f'. Filter_next nxt f = Some (head_opt (Filter_items items f), f') \<and>
     invar (Filter_seq f') \<and> Filter_items items f' = tl (Filter_items items f)"
proof (induction "items (Filter_seq f)" arbitrary: f)
  case Nil
  then show ?case using next_Nil [of "Filter_seq f"] by (subst Filter_next.simps) auto
next
  case (Cons x xs)
  then obtain s where s: "nxt (Filter_seq f) = Some (Some x, s)" "invar s" "items s = xs"
    using next_Cons [of "Filter_seq f" x xs] by auto
  show ?case
    using s Cons.hyps(1) [of "f\<lparr>Filter_seq := s\<rparr>"] Cons.hyps(2) [symmetric]
    by (subst Filter_next.simps) auto
qed

end

context seq_laws
begin

lemma Filter_peek_items:
  "invar (Filter_seq f) \<Longrightarrow> \<exists>f'. Filter_peek nxt pk f = Some (head_opt (Filter_items items f), f') \<and>
     invar (Filter_seq f') \<and> Filter_items items f' = Filter_items items f"
proof (induction "items (Filter_seq f)" arbitrary: f)
  case Nil
  then show ?case using peek_law [of "Filter_seq f"] by (subst Filter_peek.simps) auto
next
  case (Cons x xs)
  then obtain s where s: "pk (Filter_seq f) = Some (Some x, s)" "invar s" "items s = x # xs"
    using peek_Cons [of "Filter_seq f" x xs] by auto
  then obtain s' where s': "nxt s = Some (Some x, s')" "invar s'" "items s' = xs"
    using next_Cons by blast
  show ?case
    using s s' Cons.hyps(1) [of "f\<lparr>Filter_seq := s'\<rparr>"] Cons.hyps(2) [symmetric]
    by (subst Filter_peek.simps) auto
qed

lemma Filter_laws:
  "seq_laws (Filter_next nxt) (Filter_items items) (\<lambda>f. invar (Filter_seq f)) (Filter_peek nxt pk)"
  using Filter_next_items Filter_peek_items by unfold_locales auto

end

subsection \<open>Map\<close>

record ('s, 'a, 'b) Map =
  Map_seq :: 's
  Map_map_fn :: "'a \<Rightarrow> 'b"

definition map_seq :: "('a \<Rightarrow> 'b) \<Rightarrow> 's \<Rightarrow> ('s, 'a, 'b) Map" where
  "map_seq map_fn s = \<lparr>Map_seq = s, Map_map_fn = map_fn\<rparr>"

definition Map_peek :: "('s, 'a) seq_fn \<Rightarrow> (('s, 'a, 'b) Map, 'b) seq_fn" where
  "Map_peek pk m =
     do {
       (item, s) \<leftarrow> pk (Map_seq m);
       let m = m\<lparr>Map_seq := s\<rparr>;
       case item of
         None \<Rightarrow> Some (None, m)
       | Some x \<Rightarrow> Some (Some (Map_map_fn m x), m)
     }"

definition Map_next :: "('s, 'a) seq_fn \<Rightarrow> (('s, 'a, 'b) Map, 'b) seq_fn" where
  "Map_next nxt m =
     do {
       (item, s) \<leftarrow> nxt (Map_seq m);
       let m = m\<lparr>Map_seq := s\<rparr>;
       case item of
         None \<Rightarrow> Some (None, m)
       | Some x \<Rightarrow> Some (Some (Map_map_fn m x), m)
     }"

context seq_laws
begin

lemma Map_laws:
  "seq_laws (Map_next nxt) (\<lambda>m. map (Map_map_fn m) (items (Map_seq m))) (\<lambda>m. invar (Map_seq m))
     (Map_peek pk)"
proof (unfold_locales, goal_cases)
  case (1 m)
  then show ?case using next_law [of "Map_seq m"]
    by (cases "items (Map_seq m)") (auto simp: Map_next_def)
next
  case (2 m)
  then show ?case using peek_law [of "Map_seq m"]
    by (cases "items (Map_seq m)") (auto simp: Map_peek_def)
qed

end

text \<open>\<^verbatim>\<open>decayed()\<close>, \<^verbatim>\<open>deref()\<close> and \<^verbatim>\<open>inspect(fn)\<close> are maps; the effect of \<^verbatim>\<open>fn\<close> is not observable here.\<close>

definition decayed :: "'s \<Rightarrow> ('s, 'a, 'a) Map" where
  "decayed = map_seq (\<lambda>val. val)"

definition deref :: "'s \<Rightarrow> ('s, 'a option, 'a) Map" where
  "deref = map_seq the"

text \<open>
  \<^verbatim>\<open>filter_map(fn)\<close> is the pipeline \<^verbatim>\<open>map(fn) | filter(IsNotFalse{}) | deref()\<close>.
\<close>

type_synonym ('s, 'a, 'b) FilterMap =
  "((('s, 'a, 'b option) Map, 'b option) Filter, 'b option, 'b) Map"

definition filter_map_impl :: "('a \<Rightarrow> 'b option) \<Rightarrow> 's \<Rightarrow> ('s, 'a, 'b) FilterMap" where
  "filter_map_impl fn s = deref (filter_seq (\<lambda>val. val \<noteq> None) (map_seq fn s))"

definition FilterMap_peek ::
    "('s, 'a) seq_fn \<Rightarrow> ('s, 'a) seq_fn \<Rightarrow> (('s, 'a, 'b) FilterMap, 'b) seq_fn" where
  "FilterMap_peek nxt pk = Map_peek (Filter_peek (Map_next nxt) (Map_peek pk))"

definition FilterMap_next :: "('s, 'a) seq_fn \<Rightarrow> (('s, 'a, 'b) FilterMap, 'b) seq_fn" where
  "FilterMap_next nxt = Map_next (Filter_next (Map_next nxt))"

lemma map_the_filter_map: "map the (filter (\<lambda>v. v \<noteq> None) (map f xs)) = List.map_filter f xs"
  by (induction xs) (auto simp: List.map_filter_simps)

subsection \<open>TakeN and SkipN\<close>

record 's TakeN =
  TakeN_seq :: 's
  TakeN_n :: usize

definition take_n :: "usize \<Rightarrow> 's \<Rightarrow> 's TakeN" where
  "take_n n s = \<lparr>TakeN_seq = s, TakeN_n = n\<rparr>"

definition TakeN_peek :: "('s, 'a) seq_fn \<Rightarrow> ('s TakeN, 'a) seq_fn" where
  "TakeN_peek pk t =
     (if TakeN_n t = 0 then Some (None, t)
      else do { (item, s) \<leftarrow> pk (TakeN_seq t); Some (item, t\<lparr>TakeN_seq := s\<rparr>) })"

definition TakeN_next :: "('s, 'a) seq_fn \<Rightarrow> ('s TakeN, 'a) seq_fn" where
  "TakeN_next nxt t =
     (if TakeN_n t = 0 then Some (None, t)
      else do {
        let t = t\<lparr>TakeN_n := TakeN_n t - 1\<rparr>;
        (item, s) \<leftarrow> nxt (TakeN_seq t);
        Some (item, t\<lparr>TakeN_seq := s\<rparr>)
      })"

context seq_laws
begin

lemma TakeN_laws:
  "seq_laws (TakeN_next nxt) (\<lambda>t. take (TakeN_n t) (items (TakeN_seq t)))
     (\<lambda>t. invar (TakeN_seq t)) (TakeN_peek pk)"
proof (unfold_locales, goal_cases)
  case (1 t)
  then show ?case using next_law [of "TakeN_seq t"]
    by (cases "items (TakeN_seq t)"; cases "TakeN_n t") (auto simp: TakeN_next_def)
next
  case (2 t)
  then show ?case using peek_law [of "TakeN_seq t"]
    by (cases "items (TakeN_seq t)"; cases "TakeN_n t") (auto simp: TakeN_peek_def)
qed

end

record 's SkipN =
  SkipN_seq :: 's
  SkipN_n :: usize

definition skip_n :: "usize \<Rightarrow> 's \<Rightarrow> 's SkipN" where
  "skip_n n s = \<lparr>SkipN_seq = s, SkipN_n = n\<rparr>"

definition SkipN_peek :: "('s, 'a) seq_fn \<Rightarrow> ('s SkipN, 'a) seq_fn" where
  "SkipN_peek pk t =
     (if SkipN_n t \<noteq> 0 then Some (None, t)
      else do { (item, s) \<leftarrow> pk (SkipN_seq t); Some (item, t\<lparr>SkipN_seq := s\<rparr>) })"

definition SkipN_next :: "('s, 'a) seq_fn \<Rightarrow> ('s SkipN, 'a) seq_fn" where
  "SkipN_next nxt t =
     (if SkipN_n t \<noteq> 0 then do {
        let t = t\<lparr>SkipN_n := SkipN_n t - 1\<rparr>;
        (_, s) \<leftarrow> nxt (SkipN_seq t);
        Some (None, t\<lparr>SkipN_seq := s\<rparr>)
      }
      else do { (item, s) \<leftarrow> nxt (SkipN_seq t); Some (item, t\<lparr>SkipN_seq := s\<rparr>) })"

context seq_next
begin

lemma SkipN_collect_empty:
  assumes "invar s" and "n \<noteq> 0"
  shows "collect_vec (SkipN_next nxt) (skip_n n s) = Some []"
  using next_law [OF assms(1)] assms(2)
  by (auto simp: collect_vec_def skip_n_def SkipN_next_def for_each.simps)

end

subsection \<open>TakeWhile\<close>

record ('s, 'a) TakeWhile =
  TakeWhile_seq :: 's
  TakeWhile_predicate :: "'a \<Rightarrow> bool"

definition take_while :: "('a \<Rightarrow> bool) \<Rightarrow> 's \<Rightarrow> ('s, 'a) TakeWhile" where
  "take_while predicate s = \<lparr>TakeWhile_seq = s, TakeWhile_predicate = predicate\<rparr>"

definition TakeWhile_peek :: "('s, 'a) seq_fn \<Rightarrow> (('s, 'a) TakeWhile, 'a) seq_fn" where
  "TakeWhile_peek pk t =
     do {
       (v, s) \<leftarrow> pk (TakeWhile_seq t);
       let t = t\<lparr>TakeWhile_seq := s\<rparr>;
       case v of
         None \<Rightarrow> Some (None, t)
       | Some x \<Rightarrow> if TakeWhile_predicate t x then Some (v, t) else Some (None, t)
     }"

definition TakeWhile_next ::
    "('s, 'a) seq_fn \<Rightarrow> ('s, 'a) seq_fn \<Rightarrow> (('s, 'a) TakeWhile, 'a) seq_fn" where
  "TakeWhile_next nxt pk t =
     do {
       (v, t) \<leftarrow> TakeWhile_peek pk t;
       case v of
         None \<Rightarrow> Some (None, t)
       | Some x \<Rightarrow> do {
           (_, s) \<leftarrow> nxt (TakeWhile_seq t);
           Some (v, t\<lparr>TakeWhile_seq := s\<rparr>)
         }
     }"

context seq_laws
begin

lemma TakeWhile_peek_items:
  "invar (TakeWhile_seq t) \<Longrightarrow>
     \<exists>s. TakeWhile_peek pk t =
           Some (head_opt (takeWhile (TakeWhile_predicate t) (items (TakeWhile_seq t))),
             t\<lparr>TakeWhile_seq := s\<rparr>) \<and> invar s \<and> items s = items (TakeWhile_seq t)"
  using peek_law [of "TakeWhile_seq t"]
  by (cases "items (TakeWhile_seq t)") (auto simp: TakeWhile_peek_def)

lemma TakeWhile_laws:
  "seq_laws (TakeWhile_next nxt pk)
     (\<lambda>t. takeWhile (TakeWhile_predicate t) (items (TakeWhile_seq t)))
     (\<lambda>t. invar (TakeWhile_seq t)) (TakeWhile_peek pk)"
proof (unfold_locales, goal_cases)
  case (1 t)
  then obtain s where s: "TakeWhile_peek pk t =
      Some (head_opt (takeWhile (TakeWhile_predicate t) (items (TakeWhile_seq t))),
        t\<lparr>TakeWhile_seq := s\<rparr>)" "invar s" "items s = items (TakeWhile_seq t)"
    using TakeWhile_peek_items by blast
  with next_law [of s] show ?case
    by (cases "items (TakeWhile_seq t)") (auto simp: TakeWhile_next_def)
next
  case (2 t)
  then show ?case using TakeWhile_peek_items [of t] by auto
qed

end

subsection \<open>Properties\<close>

lemmas adapter_next_rules = seq_laws.Filter_laws seq_laws.Map_laws seq_laws.TakeN_laws
  seq_laws.TakeWhile_laws

lemma collect_adapter:
  assumes "seq_laws nxt items invar pk" and "invar s"
  shows "collect_vec nxt s = Some (items s)"
  using seq_next.collect_items [OF seq_laws.axioms(1) [OF assms(1)] assms(2)] .

text \<open>
  \<^verbatim>\<open>Filter\<close> over a sequence that meets the contract meets it too, and its items
  are the items of the sequence that satisfy the predicate: both \<^verbatim>\<open>next\<close> and \<^verbatim>\<open>peek\<close> terminate,
  skip exactly the items that fail the predicate, and agree on the item they return.
\<close>

theorem Filter_refines_filter:
  assumes "seq_laws nxt items invar pk"
  shows "seq_laws (Filter_next nxt) (\<lambda>f. filter (Filter_predicate f) (items (Filter_seq f)))
     (\<lambda>f. invar (Filter_seq f)) (Filter_peek nxt pk)"
  using assms by (rule seq_laws.Filter_laws)

theorem Filter_refines_filter_witness:
  "collect_vec (Filter_next range_next) (filter_seq even (as_seq [1, 2, 3, 4 :: nat])) = Some [2, 4]"
  using collect_adapter [OF Filter_refines_filter [OF vec_seq.seq_laws_axioms],
      of "filter_seq even (as_seq [1, 2, 3, 4 :: nat])"]
  by (simp add: filter_seq_def)

text \<open>
  The pipeline that \<^verbatim>\<open>filter_map(fn)\<close> builds delivers, in order, the values of
  the engaged results of \<^verbatim>\<open>fn\<close>, and never dereferences an empty optional.
\<close>

theorem FilterMap_refines_map_filter:
  assumes "seq_laws nxt items invar pk" and "invar s"
  shows "collect_vec (FilterMap_next nxt) (filter_map_impl fn s) = Some (List.map_filter fn (items s))"
proof -
  note laws = seq_laws.Map_laws [OF seq_laws.Filter_laws [OF seq_laws.Map_laws [OF assms(1)]]]
  show ?thesis
    using collect_adapter [OF laws, of "filter_map_impl fn s"] assms(2)
    by (simp add: FilterMap_next_def filter_map_impl_def deref_def filter_seq_def map_seq_def
        map_the_filter_map del: not_None_eq)
qed

theorem FilterMap_refines_map_filter_witness:
  "collect_vec (FilterMap_next range_next)
     (filter_map_impl (\<lambda>n. if even n then Some (n div 2) else None) (as_seq [1, 2, 3, 4 :: nat]))
   = Some [1, 2]"
  using FilterMap_refines_map_filter [OF vec_seq.seq_laws_axioms TrueI,
      of "\<lambda>n. if even n then Some (n div 2) else None" "as_seq [1, 2, 3, 4 :: nat]"]
  by (simp add: List.map_filter_simps)

text \<open>
  \<^verbatim>\<open>take_while(p)\<close> then \<^verbatim>\<open>take_n(n)\<close> delivers the first \<open>n\<close> items of the longest
  prefix that satisfies the predicate, through \<^verbatim>\<open>next\<close> and \<^verbatim>\<open>peek\<close> alike.
\<close>

theorem TakeN_TakeWhile_refines:
  assumes "seq_laws nxt items invar pk"
  shows "seq_laws (TakeN_next (TakeWhile_next nxt pk))
     (\<lambda>t. take (TakeN_n t) (takeWhile (TakeWhile_predicate (TakeN_seq t)) (items (TakeWhile_seq (TakeN_seq t)))))
     (\<lambda>t. invar (TakeWhile_seq (TakeN_seq t))) (TakeN_peek (TakeWhile_peek pk))"
  by (rule seq_laws.TakeN_laws [OF seq_laws.TakeWhile_laws [OF assms]])

theorem TakeN_TakeWhile_refines_witness:
  "collect_vec (TakeN_next (TakeWhile_next range_next range_peek))
     (take_n 2 (take_while (\<lambda>n. n < 4) (as_seq [1, 2, 3, 4 :: nat]))) = Some [1, 2]"
  using collect_adapter [OF TakeN_TakeWhile_refines [OF vec_seq.seq_laws_axioms],
      of "take_n 2 (take_while (\<lambda>n. n < 4) (as_seq [1, 2, 3, 4 :: nat]))"]
  by (simp add: take_n_def take_while_def)

text \<open>
  \<^verbatim>\<open>SkipN\<close> does not skip: as long as the count is not zero its \<^verbatim>\<open>next\<close> answers
  \<^verbatim>\<open>None\<close>, which every consumer takes for the end, so \<^verbatim>\<open>seq | skip_n(n) | collect_vec()\<close> is empty
  for every sequence and every positive \<open>n\<close>, whatever the sequence holds.
\<close>

theorem SkipN_ends_immediately:
  assumes "seq_next nxt items invar" and "invar s" and "n \<noteq> 0"
  shows "collect_vec (SkipN_next nxt) (skip_n n s) = Some []"
  using seq_next.SkipN_collect_empty [OF assms] .

theorem SkipN_ends_immediately_witness:
  "collect_vec (SkipN_next range_next) (skip_n 1 (as_seq [1, 2, 3 :: nat])) = Some []"
  using SkipN_ends_immediately [OF vec_seq.seq_next_axioms TrueI, of 1 "as_seq [1, 2, 3 :: nat]"]
  by simp

end
