(* ===== verification/Batt_Status.thy ===== *)
theory Batt_Status
  imports Batt_Prelude
begin

section \<open>Status codes and status-or-value results\<close>

text \<open>
  Models \<^verbatim>\<open>src/src/batteries/status.hpp\<close> and \<^verbatim>\<open>status_impl.hpp\<close>. Components use the built-in
  codes of the enumeration \<^verbatim>\<open>StatusCode\<close> directly; \<open>'a StatusOr\<close> is a code or a value.
\<close>

datatype StatusCode =
    kOk | kCancelled | kUnknown | kInvalidArgument | kDeadlineExceeded | kNotFound
  | kAlreadyExists | kPermissionDenied | kResourceExhausted | kFailedPrecondition | kAborted
  | kOutOfRange | kUnimplemented | kInternal | kUnavailable | kDataLoss | kUnauthenticated
  | kClosed | kGrantUnavailable | kLoopBreak | kEndOfStream | kClosedBeforeEndOfStream
  | kGrantRevoked

type_synonym 'a StatusOr = "StatusCode + 'a"

text \<open>
  \<^verbatim>\<open>Status::Update\<close>: a new status replaces the old one only while the old one is ok or unknown,
  so that the first definite error is kept.
\<close>

definition Status_Update :: "StatusCode \<Rightarrow> StatusCode \<Rightarrow> StatusCode" where
  "Status_Update self new_status = (if self = kOk \<or> self = kUnknown then new_status else self)"

end
