(* ===== verification/Seq_Stateful.thy ===== *)
theory Seq_Stateful
  imports Seq_Adapters Batt_Status
begin

section \<open>Adapters that buffer or combine\<close>

text \<open>
  The adapters of \<^verbatim>\<open>src/src/batteries/seq/\<close> that keep state of their own between calls
  (\<^verbatim>\<open>CacheNext\<close>, \<^verbatim>\<open>Fuse\<close>, \<^verbatim>\<open>MapFold\<close>, \<^verbatim>\<open>InspectAdjacent\<close>, \<^verbatim>\<open>MapAdjacent\<close>, \<^verbatim>\<open>StatusOk\<close>) or that
  combine two sequences (\<^verbatim>\<open>Chain\<close>, \<^verbatim>\<open>Splice\<close>, \<^verbatim>\<open>MapPairwise\<close>), and the forwarding wrappers
  \<^verbatim>\<open>Attach\<close> and \<^verbatim>\<open>BoxedSeq\<close>.
\<close>

subsection \<open>CacheNext\<close>

record ('s, 'a) CacheNext =
  CacheNext_seq :: 's
  CacheNext_cached :: "'a option option"

definition cache_next :: "'s \<Rightarrow> ('s, 'a) CacheNext" where
  "cache_next s = \<lparr>CacheNext_seq = s, CacheNext_cached = None\<rparr>"

definition CacheNext_peek :: "('s, 'a) seq_fn \<Rightarrow> (('s, 'a) CacheNext, 'a) seq_fn" where
  "CacheNext_peek nxt c =
     (case CacheNext_cached c of
        None \<Rightarrow> do {
          (item, s) \<leftarrow> nxt (CacheNext_seq c);
          Some (item, c\<lparr>CacheNext_seq := s, CacheNext_cached := Some item\<rparr>)
        }
      | Some item \<Rightarrow> Some (item, c))"

definition CacheNext_next :: "('s, 'a) seq_fn \<Rightarrow> (('s, 'a) CacheNext, 'a) seq_fn" where
  "CacheNext_next nxt c =
     (case CacheNext_cached c of
        Some item \<Rightarrow> Some (item, c\<lparr>CacheNext_cached := None\<rparr>)
      | None \<Rightarrow> do {
          (item, s) \<leftarrow> nxt (CacheNext_seq c);
          Some (item, c\<lparr>CacheNext_seq := s, CacheNext_cached := None\<rparr>)
        })"

definition CacheNext_items :: "('s \<Rightarrow> 'a list) \<Rightarrow> ('s, 'a) CacheNext \<Rightarrow> 'a list" where
  "CacheNext_items items c =
     (case CacheNext_cached c of
        Some (Some x) \<Rightarrow> x # items (CacheNext_seq c)
      | _ \<Rightarrow> items (CacheNext_seq c))"

definition CacheNext_inv :: "('s \<Rightarrow> 'a list) \<Rightarrow> ('s \<Rightarrow> bool) \<Rightarrow> ('s, 'a) CacheNext \<Rightarrow> bool" where
  "CacheNext_inv items invar c \<longleftrightarrow> invar (CacheNext_seq c) \<and>
     (CacheNext_cached c = Some None \<longrightarrow> items (CacheNext_seq c) = [])"

context seq_next
begin

lemma CacheNext_laws:
  "seq_laws (CacheNext_next nxt) (CacheNext_items items) (CacheNext_inv items invar)
     (CacheNext_peek nxt)"
proof (unfold_locales, goal_cases)
  case (1 c)
  then show ?case using next_law [of "CacheNext_seq c"]
    by (cases "items (CacheNext_seq c)")
      (auto simp: CacheNext_next_def CacheNext_items_def CacheNext_inv_def split: option.splits)
next
  case (2 c)
  then show ?case using next_law [of "CacheNext_seq c"]
    by (cases "items (CacheNext_seq c)")
      (auto simp: CacheNext_peek_def CacheNext_items_def CacheNext_inv_def split: option.splits)
qed

end

subsection \<open>Fuse\<close>

record 's Fuse =
  Fuse_fused :: bool
  Fuse_seq :: 's

definition fuse :: "'s \<Rightarrow> 's Fuse" where
  "fuse s = \<lparr>Fuse_fused = False, Fuse_seq = s\<rparr>"

text \<open>\<^verbatim>\<open>*seq_.peek()\<close> dereferences an empty optional when the adapted sequence is at its end.\<close>

definition Fuse_peek :: "('s, 'a option) seq_fn \<Rightarrow> ('s Fuse, 'a) seq_fn" where
  "Fuse_peek pk f =
     (if Fuse_fused f then Some (None, f)
      else do {
        (opt_item, s) \<leftarrow> pk (Fuse_seq f);
        item \<leftarrow> opt_item;
        Some (item, f\<lparr>Fuse_seq := s\<rparr>)
      })"

definition Fuse_next :: "('s, 'a option) seq_fn \<Rightarrow> ('s Fuse, 'a) seq_fn" where
  "Fuse_next nxt f =
     (if Fuse_fused f then Some (None, f)
      else do {
        (opt_item, s) \<leftarrow> nxt (Fuse_seq f);
        let f = f\<lparr>Fuse_seq := s\<rparr>;
        case opt_item of
          None \<Rightarrow> Some (None, f\<lparr>Fuse_fused := True\<rparr>)
        | Some None \<Rightarrow> Some (None, f\<lparr>Fuse_fused := True\<rparr>)
        | Some (Some x) \<Rightarrow> Some (Some x, f)
      })"

definition Fuse_items :: "('s \<Rightarrow> 'a option list) \<Rightarrow> 's Fuse \<Rightarrow> 'a list" where
  "Fuse_items items f =
     (if Fuse_fused f then [] else map the (takeWhile (\<lambda>v. v \<noteq> None) (items (Fuse_seq f))))"

lemma Fuse_next_laws:
  assumes "seq_next nxt items invar"
  shows "seq_next (Fuse_next nxt) (Fuse_items items) (\<lambda>f. invar (Fuse_seq f))"
proof (unfold_locales, goal_cases)
  case (1 f)
  show ?case using 1 seq_next.next_law [OF assms, of "Fuse_seq f"]
    by (cases "items (Fuse_seq f)"; cases "Fuse_fused f")
      (auto simp: Fuse_next_def Fuse_items_def split: option.splits)
qed

lemma Fuse_peek_at_end:
  assumes "seq_laws nxt items invar pk" and "invar (Fuse_seq f)" and "\<not> Fuse_fused f"
  shows "Fuse_peek pk f = None \<longleftrightarrow> items (Fuse_seq f) = []"
  using seq_laws.peek_law [OF assms(1,2)] assms(3)
  by (cases "items (Fuse_seq f)") (auto simp: Fuse_peek_def)

subsection \<open>Attach and BoxedSeq\<close>

record ('s, 'd) Attach =
  Attach_seq :: 's
  Attach_data :: 'd

definition attach :: "'d \<Rightarrow> 's \<Rightarrow> ('s, 'd) Attach" where
  "attach d s = \<lparr>Attach_seq = s, Attach_data = d\<rparr>"

definition Attach_peek :: "('s, 'a) seq_fn \<Rightarrow> (('s, 'd) Attach, 'a) seq_fn" where
  "Attach_peek pk a = do { (item, s) \<leftarrow> pk (Attach_seq a); Some (item, a\<lparr>Attach_seq := s\<rparr>) }"

definition Attach_next :: "('s, 'a) seq_fn \<Rightarrow> (('s, 'd) Attach, 'a) seq_fn" where
  "Attach_next nxt a = do { (item, s) \<leftarrow> nxt (Attach_seq a); Some (item, a\<lparr>Attach_seq := s\<rparr>) }"

text \<open>
  \<^verbatim>\<open>BoxedSeq\<close> forwards through a type-erased pointer; a default-constructed box has no object and
  its methods dereference null.
\<close>

record 's BoxedSeq =
  BoxedSeq_storage :: "'s option"

definition boxed :: "'s \<Rightarrow> 's BoxedSeq" where
  "boxed s = \<lparr>BoxedSeq_storage = Some s\<rparr>"

definition BoxedSeq_peek :: "('s, 'a) seq_fn \<Rightarrow> ('s BoxedSeq, 'a) seq_fn" where
  "BoxedSeq_peek pk b =
     do {
       obj \<leftarrow> BoxedSeq_storage b;
       (item, obj) \<leftarrow> pk obj;
       Some (item, b\<lparr>BoxedSeq_storage := Some obj\<rparr>)
     }"

definition BoxedSeq_next :: "('s, 'a) seq_fn \<Rightarrow> ('s BoxedSeq, 'a) seq_fn" where
  "BoxedSeq_next nxt b =
     do {
       obj \<leftarrow> BoxedSeq_storage b;
       (item, obj) \<leftarrow> nxt obj;
       Some (item, b\<lparr>BoxedSeq_storage := Some obj\<rparr>)
     }"

definition BoxedSeq_is_valid :: "'s BoxedSeq \<Rightarrow> bool" where
  "BoxedSeq_is_valid b \<longleftrightarrow> BoxedSeq_storage b \<noteq> None"

context seq_laws
begin

lemma Attach_laws:
  "seq_laws (Attach_next nxt) (\<lambda>a. items (Attach_seq a)) (\<lambda>a. invar (Attach_seq a))
     (Attach_peek pk)"
proof (unfold_locales, goal_cases)
  case (1 a)
  then show ?case using next_law [of "Attach_seq a"] by (auto simp: Attach_next_def)
next
  case (2 a)
  then show ?case using peek_law [of "Attach_seq a"] by (auto simp: Attach_peek_def)
qed

lemma BoxedSeq_laws:
  "seq_laws (BoxedSeq_next nxt) (\<lambda>b. items (the (BoxedSeq_storage b)))
     (\<lambda>b. BoxedSeq_is_valid b \<and> invar (the (BoxedSeq_storage b))) (BoxedSeq_peek pk)"
proof (unfold_locales, goal_cases)
  case (1 b)
  then show ?case using next_law [of "the (BoxedSeq_storage b)"]
    by (auto simp: BoxedSeq_next_def BoxedSeq_is_valid_def)
next
  case (2 b)
  then show ?case using peek_law [of "the (BoxedSeq_storage b)"]
    by (auto simp: BoxedSeq_peek_def BoxedSeq_is_valid_def)
qed

end

subsection \<open>MapFold, rolling, rolling\_sum\<close>

record ('s, 'st, 'a, 'b) MapFold =
  MapFold_seq :: 's
  MapFold_state :: 'st
  MapFold_map_fn :: "'st \<Rightarrow> 'a \<Rightarrow> 'st \<times> 'b"

definition map_fold :: "'st \<Rightarrow> ('st \<Rightarrow> 'a \<Rightarrow> 'st \<times> 'b) \<Rightarrow> 's \<Rightarrow> ('s, 'st, 'a, 'b) MapFold" where
  "map_fold state map_fn s = \<lparr>MapFold_seq = s, MapFold_state = state, MapFold_map_fn = map_fn\<rparr>"

definition MapFold_peek :: "('s, 'a) seq_fn \<Rightarrow> (('s, 'st, 'a, 'b) MapFold, 'b) seq_fn" where
  "MapFold_peek pk m =
     do {
       (item, s) \<leftarrow> pk (MapFold_seq m);
       let m = m\<lparr>MapFold_seq := s\<rparr>;
       case map_option (MapFold_map_fn m (MapFold_state m)) item of
         None \<Rightarrow> Some (None, m)
       | Some tr \<Rightarrow> Some (Some (snd tr), m)
     }"

definition MapFold_next :: "('s, 'a) seq_fn \<Rightarrow> (('s, 'st, 'a, 'b) MapFold, 'b) seq_fn" where
  "MapFold_next nxt m =
     do {
       (item, s) \<leftarrow> nxt (MapFold_seq m);
       let m = m\<lparr>MapFold_seq := s\<rparr>;
       case map_option (MapFold_map_fn m (MapFold_state m)) item of
         None \<Rightarrow> Some (None, m)
       | Some tr \<Rightarrow> Some (Some (snd tr), m\<lparr>MapFold_state := fst tr\<rparr>)
     }"

fun map_fold_list :: "('st \<Rightarrow> 'a \<Rightarrow> 'st \<times> 'b) \<Rightarrow> 'st \<Rightarrow> 'a list \<Rightarrow> 'b list" where
  "map_fold_list f st [] = []"
| "map_fold_list f st (x # xs) = snd (f st x) # map_fold_list f (fst (f st x)) xs"

definition rolling :: "('st \<Rightarrow> 'a \<Rightarrow> 'st) \<Rightarrow> 'st \<Rightarrow> 's \<Rightarrow> ('s, 'st, 'a, 'st) MapFold" where
  "rolling binary_fn initial = map_fold initial (\<lambda>a b. let c = binary_fn a b in (c, c))"

definition rolling_sum :: "'s \<Rightarrow> ('s, 'a::{plus, zero}, 'a, 'a) MapFold" where
  "rolling_sum = rolling (\<lambda>l r. l + r) 0"

context seq_laws
begin

lemma MapFold_laws:
  "seq_laws (MapFold_next nxt)
     (\<lambda>m. map_fold_list (MapFold_map_fn m) (MapFold_state m) (items (MapFold_seq m)))
     (\<lambda>m. invar (MapFold_seq m)) (MapFold_peek pk)"
proof (unfold_locales, goal_cases)
  case (1 m)
  then show ?case using next_law [of "MapFold_seq m"]
    by (cases "items (MapFold_seq m)") (auto simp: MapFold_next_def)
next
  case (2 m)
  then show ?case using peek_law [of "MapFold_seq m"]
    by (cases "items (MapFold_seq m)") (auto simp: MapFold_peek_def)
qed

end

lemma nth_map_fold_rolling:
  "i < length xs \<Longrightarrow>
     map_fold_list (\<lambda>a b. let c = f a b in (c, c)) st xs ! i = foldl f st (take (Suc i) xs)"
proof (induction xs arbitrary: st i)
  case (Cons x xs)
  then show ?case by (cases i) (auto simp: Let_def)
qed simp

lemma length_map_fold_list [simp]: "length (map_fold_list f st xs) = length xs"
  by (induction xs arbitrary: st) auto

subsection \<open>InspectAdjacent\<close>

text \<open>
  The inspected pairs are the observable effect: \<open>fn\<close> updates the variables \<open>'c\<close> it captures.
  The member initialiser \<^verbatim>\<open>next_{seq_.next()}\<close> runs when the object is constructed.
\<close>

record ('s, 'a, 'c) InspectAdjacent =
  InspectAdjacent_seq :: 's
  InspectAdjacent_fn :: "'a \<Rightarrow> 'a \<Rightarrow> 'c \<Rightarrow> 'c"
  InspectAdjacent_next_item :: "'a option"
  InspectAdjacent_env :: 'c

definition inspect_adjacent ::
    "('s, 'a) seq_fn \<Rightarrow> ('a \<Rightarrow> 'a \<Rightarrow> 'c \<Rightarrow> 'c) \<Rightarrow> 'c \<Rightarrow> 's \<Rightarrow> ('s, 'a, 'c) InspectAdjacent option" where
  "inspect_adjacent nxt fn c s =
     do {
       (n, s) \<leftarrow> nxt s;
       Some \<lparr>InspectAdjacent_seq = s, InspectAdjacent_fn = fn, InspectAdjacent_next_item = n,
         InspectAdjacent_env = c\<rparr>
     }"

definition InspectAdjacent_peek :: "(('s, 'a, 'c) InspectAdjacent, 'a) seq_fn" where
  "InspectAdjacent_peek i = Some (InspectAdjacent_next_item i, i)"

definition InspectAdjacent_next ::
    "('s, 'a) seq_fn \<Rightarrow> (('s, 'a, 'c) InspectAdjacent, 'a) seq_fn" where
  "InspectAdjacent_next nxt i =
     do {
       let item = InspectAdjacent_next_item i;
       (n, s) \<leftarrow> nxt (InspectAdjacent_seq i);
       let i = i\<lparr>InspectAdjacent_seq := s, InspectAdjacent_next_item := n\<rparr>;
       case (item, n) of
         (Some x, Some y) \<Rightarrow>
           Some (item, i\<lparr>InspectAdjacent_env :=
             InspectAdjacent_fn i x y (InspectAdjacent_env i)\<rparr>)
       | _ \<Rightarrow> Some (item, i)
     }"

definition InspectAdjacent_items :: "('s \<Rightarrow> 'a list) \<Rightarrow> ('s, 'a, 'c) InspectAdjacent \<Rightarrow> 'a list" where
  "InspectAdjacent_items items i =
     (case InspectAdjacent_next_item i of
        None \<Rightarrow> []
      | Some x \<Rightarrow> x # items (InspectAdjacent_seq i))"

definition InspectAdjacent_inv ::
    "('s \<Rightarrow> 'a list) \<Rightarrow> ('s \<Rightarrow> bool) \<Rightarrow> ('s, 'a, 'c) InspectAdjacent \<Rightarrow> bool" where
  "InspectAdjacent_inv items invar i \<longleftrightarrow> invar (InspectAdjacent_seq i) \<and>
     (InspectAdjacent_next_item i = None \<longrightarrow> items (InspectAdjacent_seq i) = [])"

context seq_next
begin

lemma InspectAdjacent_laws:
  "seq_laws (InspectAdjacent_next nxt) (InspectAdjacent_items items)
     (InspectAdjacent_inv items invar) InspectAdjacent_peek"
proof (unfold_locales, goal_cases)
  case (1 i)
  then show ?case using next_law [of "InspectAdjacent_seq i"]
    by (cases "items (InspectAdjacent_seq i)"; cases "InspectAdjacent_next_item i")
      (auto simp: InspectAdjacent_next_def InspectAdjacent_items_def InspectAdjacent_inv_def)
next
  case (2 i)
  then show ?case
    by (auto simp: InspectAdjacent_peek_def InspectAdjacent_items_def split: option.splits)
qed

lemma inspect_adjacent_init:
  assumes "invar s"
  shows "\<exists>i. inspect_adjacent nxt fn c s = Some i \<and> InspectAdjacent_inv items invar i \<and>
     InspectAdjacent_items items i = items s \<and> InspectAdjacent_env i = c \<and>
     InspectAdjacent_fn i = fn"
  using next_law [OF assms]
  by (cases "items s")
    (auto simp: inspect_adjacent_def InspectAdjacent_inv_def InspectAdjacent_items_def)

end

subsection \<open>MapAdjacent and is\_sorted\<close>

record ('s, 'a, 'b) MapAdjacent =
  MapAdjacent_seq :: 's
  MapAdjacent_fn :: "'a \<Rightarrow> 'a \<Rightarrow> 'b"
  MapAdjacent_item :: "'a option"

definition map_adjacent ::
    "('s, 'a) seq_fn \<Rightarrow> ('a \<Rightarrow> 'a \<Rightarrow> 'b) \<Rightarrow> 's \<Rightarrow> ('s, 'a, 'b) MapAdjacent option" where
  "map_adjacent nxt fn s =
     do {
       (item, s) \<leftarrow> nxt s;
       Some \<lparr>MapAdjacent_seq = s, MapAdjacent_fn = fn, MapAdjacent_item = item\<rparr>
     }"

definition MapAdjacent_next :: "('s, 'a) seq_fn \<Rightarrow> (('s, 'a, 'b) MapAdjacent, 'b) seq_fn" where
  "MapAdjacent_next nxt m =
     (case MapAdjacent_item m of
        None \<Rightarrow> Some (None, m)
      | Some first \<Rightarrow> do {
          (item, s) \<leftarrow> nxt (MapAdjacent_seq m);
          let m = m\<lparr>MapAdjacent_seq := s, MapAdjacent_item := item\<rparr>;
          Some (map_option (\<lambda>second. MapAdjacent_fn m first second) item, m)
        })"

definition is_sorted_by :: "('s, 'a) seq_fn \<Rightarrow> ('a \<Rightarrow> 'a \<Rightarrow> bool) \<Rightarrow> 's \<Rightarrow> bool option" where
  "is_sorted_by nxt compare s =
     do { m \<leftarrow> map_adjacent nxt compare s; all_true (MapAdjacent_next nxt) m }"

definition is_sorted :: "('s, 'a::ord) seq_fn \<Rightarrow> 's \<Rightarrow> bool option" where
  "is_sorted nxt s = is_sorted_by nxt (\<lambda>left right. left < right \<or> \<not> right < left) s"

definition MapAdjacent_items :: "('s \<Rightarrow> 'a list) \<Rightarrow> ('s, 'a, 'b) MapAdjacent \<Rightarrow> 'b list" where
  "MapAdjacent_items items m =
     (case MapAdjacent_item m of
        None \<Rightarrow> []
      | Some x \<Rightarrow> map_adj (MapAdjacent_fn m) (x # items (MapAdjacent_seq m)))"

context seq_next
begin

lemma MapAdjacent_next_laws:
  "seq_next (MapAdjacent_next nxt) (MapAdjacent_items items) (\<lambda>m. invar (MapAdjacent_seq m))"
proof (unfold_locales, goal_cases)
  case (1 m)
  then show ?case using next_law [of "MapAdjacent_seq m"]
    by (cases "items (MapAdjacent_seq m)"; cases "MapAdjacent_item m")
      (auto simp: MapAdjacent_next_def MapAdjacent_items_def)
qed

lemma map_adjacent_init:
  assumes "invar s"
  shows "\<exists>m. map_adjacent nxt fn s = Some m \<and> invar (MapAdjacent_seq m) \<and>
     MapAdjacent_items items m = map_adj fn (items s)"
  using next_law [OF assms]
  by (cases "items s") (auto simp: map_adjacent_def MapAdjacent_items_def)

lemma is_sorted_by_items:
  assumes "invar s"
  shows "is_sorted_by nxt compare s = Some (False \<notin> set (map_adj compare (items s)))"
proof -
  obtain m where m: "map_adjacent nxt compare s = Some m" "invar (MapAdjacent_seq m)"
      "MapAdjacent_items items m = map_adj compare (items s)"
    using map_adjacent_init [OF assms] by blast
  then show ?thesis
    using all_true_items [OF MapAdjacent_next_laws, of m] by (simp add: is_sorted_by_def)
qed

end

lemma False_notin_map_adj:
  "transp r \<Longrightarrow> False \<notin> set (map_adj r xs) \<longleftrightarrow> sorted_wrt r xs"
proof (induction r xs rule: map_adj.induct)
  case (1 r x y ys)
  then have "False \<notin> set (map_adj r (y # ys)) \<longleftrightarrow> sorted_wrt r (y # ys)" by simp
  with \<open>transp r\<close> show ?case by (auto dest: transpD)
qed auto

subsection \<open>Chain\<close>

record ('s, 't) Chain =
  Chain_seq1 :: "'s option"
  Chain_seq2 :: 't

definition chain :: "'t \<Rightarrow> 's \<Rightarrow> ('s, 't) Chain" where
  "chain seq2 seq1 = \<lparr>Chain_seq1 = Some seq1, Chain_seq2 = seq2\<rparr>"

definition Chain_peek ::
    "('s, 'a) seq_fn \<Rightarrow> ('t, 'a) seq_fn \<Rightarrow> (('s, 't) Chain, 'a) seq_fn" where
  "Chain_peek pk1 pk2 c =
     (case Chain_seq1 c of
        Some s1 \<Rightarrow> do { (item, s1) \<leftarrow> pk1 s1; Some (item, c\<lparr>Chain_seq1 := Some s1\<rparr>) }
      | None \<Rightarrow> do { (item, s2) \<leftarrow> pk2 (Chain_seq2 c); Some (item, c\<lparr>Chain_seq2 := s2\<rparr>) })"

definition Chain_next ::
    "('s, 'a) seq_fn \<Rightarrow> ('t, 'a) seq_fn \<Rightarrow> (('s, 't) Chain, 'a) seq_fn" where
  "Chain_next nxt1 nxt2 c =
     (case Chain_seq1 c of
        Some s1 \<Rightarrow> do {
          (item, s1) \<leftarrow> nxt1 s1;
          case item of
            Some x \<Rightarrow> Some (item, c\<lparr>Chain_seq1 := Some s1\<rparr>)
          | None \<Rightarrow> do {
              let c = c\<lparr>Chain_seq1 := None\<rparr>;
              (item, s2) \<leftarrow> nxt2 (Chain_seq2 c);
              Some (item, c\<lparr>Chain_seq2 := s2\<rparr>)
            }
        }
      | None \<Rightarrow> do { (item, s2) \<leftarrow> nxt2 (Chain_seq2 c); Some (item, c\<lparr>Chain_seq2 := s2\<rparr>) })"

definition Chain_items ::
    "('s \<Rightarrow> 'a list) \<Rightarrow> ('t \<Rightarrow> 'a list) \<Rightarrow> ('s, 't) Chain \<Rightarrow> 'a list" where
  "Chain_items items1 items2 c =
     (case Chain_seq1 c of None \<Rightarrow> [] | Some s1 \<Rightarrow> items1 s1) @ items2 (Chain_seq2 c)"

definition Chain_inv :: "('s \<Rightarrow> bool) \<Rightarrow> ('t \<Rightarrow> bool) \<Rightarrow> ('s, 't) Chain \<Rightarrow> bool" where
  "Chain_inv inv1 inv2 c \<longleftrightarrow>
     (case Chain_seq1 c of None \<Rightarrow> True | Some s1 \<Rightarrow> inv1 s1) \<and> inv2 (Chain_seq2 c)"

lemmas Chain_defs = Chain_items_def Chain_inv_def

text \<open>Two sequences side by side: what the two-operand adapters rely on.\<close>

locale two_seqs = l: seq_laws nxt1 items1 inv1 pk1 + r: seq_laws nxt2 items2 inv2 pk2
  for nxt1 :: "'s \<Rightarrow> ('a option \<times> 's) option" and items1 inv1 pk1
    and nxt2 :: "'t \<Rightarrow> ('b option \<times> 't) option" and items2 inv2 pk2

interpretation two_ranges: two_seqs range_next SubRangeSeq_range "\<lambda>_. True" range_peek
  range_next SubRangeSeq_range "\<lambda>_. True" range_peek
  by unfold_locales

lemma Chain_next_laws:
  assumes "seq_next nxt1 items1 inv1" and "seq_next nxt2 items2 inv2"
  shows "seq_next (Chain_next nxt1 nxt2) (Chain_items items1 items2) (Chain_inv inv1 inv2)"
proof (unfold_locales, goal_cases)
  case (1 c)
  show ?case
  proof (cases "Chain_seq1 c")
    case None
    with 1 seq_next.next_law [OF assms(2), of "Chain_seq2 c"] show ?thesis
      by (auto simp: Chain_next_def Chain_defs)
  next
    case (Some s1)
    with 1 seq_next.next_law [OF assms(1), of s1] seq_next.next_law [OF assms(2), of "Chain_seq2 c"]
    show ?thesis by (cases "items1 s1") (auto simp: Chain_next_def Chain_defs)
  qed
qed

lemma Chain_peek_items:
  assumes "seq_laws nxt1 items1 inv1 pk1" and "seq_laws nxt2 items2 inv2 pk2"
    and "Chain_inv inv1 inv2 c"
  shows "map_option fst (Chain_peek pk1 pk2 c) =
     Some (case Chain_seq1 c of
             Some s1 \<Rightarrow> head_opt (items1 s1)
           | None \<Rightarrow> head_opt (items2 (Chain_seq2 c)))"
  using assms(3) seq_laws.peek_law [OF assms(1), of "the (Chain_seq1 c)"]
    seq_laws.peek_law [OF assms(2), of "Chain_seq2 c"]
  by (auto simp: Chain_peek_def Chain_inv_def split: option.splits)

subsection \<open>MapPairwise\<close>

record ('s, 't, 'a, 'b, 'c) MapPairwise =
  MapPairwise_left :: 's
  MapPairwise_right :: 't
  MapPairwise_map_fn :: "'a \<Rightarrow> 'b \<Rightarrow> 'c"

definition map_pairwise ::
    "'t \<Rightarrow> ('a \<Rightarrow> 'b \<Rightarrow> 'c) \<Rightarrow> 's \<Rightarrow> ('s, 't, 'a, 'b, 'c) MapPairwise" where
  "map_pairwise right map_fn left =
     \<lparr>MapPairwise_left = left, MapPairwise_right = right, MapPairwise_map_fn = map_fn\<rparr>"

text \<open>Both methods touch the right sequence only if the left one delivered an item.\<close>

definition MapPairwise_impl ::
    "('s, 'a) seq_fn \<Rightarrow> ('t, 'b) seq_fn \<Rightarrow> (('s, 't, 'a, 'b, 'c) MapPairwise, 'c) seq_fn" where
  "MapPairwise_impl left_fn right_fn m =
     do {
       (left_item, l) \<leftarrow> left_fn (MapPairwise_left m);
       let m = m\<lparr>MapPairwise_left := l\<rparr>;
       case left_item of
         None \<Rightarrow> Some (None, m)
       | Some x \<Rightarrow> do {
           (right_item, r) \<leftarrow> right_fn (MapPairwise_right m);
           Some (map_option (\<lambda>y. MapPairwise_map_fn m x y) right_item,
             m\<lparr>MapPairwise_right := r\<rparr>)
         }
     }"

definition MapPairwise_peek ::
    "('s, 'a) seq_fn \<Rightarrow> ('t, 'b) seq_fn \<Rightarrow> (('s, 't, 'a, 'b, 'c) MapPairwise, 'c) seq_fn" where
  "MapPairwise_peek pk1 pk2 = MapPairwise_impl pk1 pk2"

definition MapPairwise_next ::
    "('s, 'a) seq_fn \<Rightarrow> ('t, 'b) seq_fn \<Rightarrow> (('s, 't, 'a, 'b, 'c) MapPairwise, 'c) seq_fn" where
  "MapPairwise_next nxt1 nxt2 = MapPairwise_impl nxt1 nxt2"

lemmas MapPairwise_defs = MapPairwise_peek_def MapPairwise_next_def MapPairwise_impl_def

context two_seqs
begin

lemma MapPairwise_laws:
  "seq_laws (MapPairwise_next nxt1 nxt2)
     (\<lambda>m. map2 (MapPairwise_map_fn m) (items1 (MapPairwise_left m)) (items2 (MapPairwise_right m)))
     (\<lambda>m. inv1 (MapPairwise_left m) \<and> inv2 (MapPairwise_right m))
     (MapPairwise_peek pk1 pk2)"
proof (unfold_locales, goal_cases)
  case (1 m)
  then show ?case
    using l.next_law [of "MapPairwise_left m"] r.next_law [of "MapPairwise_right m"]
    by (cases "items1 (MapPairwise_left m)"; cases "items2 (MapPairwise_right m)")
      (auto simp: MapPairwise_defs)
next
  case (2 m)
  then show ?case
    using l.peek_law [of "MapPairwise_left m"] r.peek_law [of "MapPairwise_right m"]
    by (cases "items1 (MapPairwise_left m)"; cases "items2 (MapPairwise_right m)")
      (auto simp: MapPairwise_defs)
qed

end

subsection \<open>Splice\<close>

text \<open>
  \<^verbatim>\<open>Splice\<close> is \<^verbatim>\<open>Chain<TakeN<Outer&>, Chain<Inner, Outer&>>\<close>. Both references are to the one
  member \<^verbatim>\<open>outer_seq_\<close>, so the model keeps that object once and the two chains' own state beside
  it: whether the outer chain still has its \<^verbatim>\<open>TakeN\<close>, the count left in it, and the inner
  sequence while the inner chain still has it.
\<close>

record ('o, 'i) Splice =
  Splice_outer_seq :: 'o
  Splice_taking :: bool
  Splice_n :: usize
  Splice_inner :: "'i option"

definition splice :: "usize \<Rightarrow> 'i \<Rightarrow> 'o \<Rightarrow> ('o, 'i) Splice" where
  "splice n inner_seq outer_seq =
     \<lparr>Splice_outer_seq = outer_seq, Splice_taking = True, Splice_n = n,
      Splice_inner = Some inner_seq\<rparr>"

definition Splice_tail_next ::
    "('o, 'a) seq_fn \<Rightarrow> ('i, 'a) seq_fn \<Rightarrow> (('o, 'i) Splice, 'a) seq_fn" where
  "Splice_tail_next nxt_o nxt_i p =
     do {
       (item, c) \<leftarrow> Chain_next nxt_i nxt_o
          \<lparr>Chain_seq1 = Splice_inner p, Chain_seq2 = Splice_outer_seq p\<rparr>;
       Some (item, p\<lparr>Splice_inner := Chain_seq1 c, Splice_outer_seq := Chain_seq2 c\<rparr>)
     }"

definition Splice_next ::
    "('o, 'a) seq_fn \<Rightarrow> ('i, 'a) seq_fn \<Rightarrow> (('o, 'i) Splice, 'a) seq_fn" where
  "Splice_next nxt_o nxt_i p =
     (if Splice_taking p then do {
        (item, t) \<leftarrow> TakeN_next nxt_o (take_n (Splice_n p) (Splice_outer_seq p));
        let p = p\<lparr>Splice_outer_seq := TakeN_seq t, Splice_n := TakeN_n t\<rparr>;
        case item of
          Some x \<Rightarrow> Some (item, p)
        | None \<Rightarrow> Splice_tail_next nxt_o nxt_i (p\<lparr>Splice_taking := False\<rparr>)
      }
      else Splice_tail_next nxt_o nxt_i p)"

definition Splice_peek ::
    "('o, 'a) seq_fn \<Rightarrow> ('i, 'a) seq_fn \<Rightarrow> (('o, 'i) Splice, 'a) seq_fn" where
  "Splice_peek pk_o pk_i p =
     (if Splice_taking p then do {
        (item, t) \<leftarrow> TakeN_peek pk_o (take_n (Splice_n p) (Splice_outer_seq p));
        Some (item, p\<lparr>Splice_outer_seq := TakeN_seq t\<rparr>)
      }
      else do {
        (item, c) \<leftarrow> Chain_peek pk_i pk_o
           \<lparr>Chain_seq1 = Splice_inner p, Chain_seq2 = Splice_outer_seq p\<rparr>;
        Some (item, p\<lparr>Splice_inner := Chain_seq1 c, Splice_outer_seq := Chain_seq2 c\<rparr>)
      })"

definition Splice_items ::
    "('o \<Rightarrow> 'a list) \<Rightarrow> ('i \<Rightarrow> 'a list) \<Rightarrow> ('o, 'i) Splice \<Rightarrow> 'a list" where
  "Splice_items items_o items_i p =
     (let outer = items_o (Splice_outer_seq p);
          inner = (case Splice_inner p of None \<Rightarrow> [] | Some i \<Rightarrow> items_i i);
          n = (if Splice_taking p then Splice_n p else 0)
      in take n outer @ inner @ drop n outer)"

definition Splice_inv :: "('o \<Rightarrow> bool) \<Rightarrow> ('i \<Rightarrow> bool) \<Rightarrow> ('o, 'i) Splice \<Rightarrow> bool" where
  "Splice_inv inv_o inv_i p \<longleftrightarrow> inv_o (Splice_outer_seq p) \<and>
     (case Splice_inner p of None \<Rightarrow> True | Some i \<Rightarrow> inv_i i)"

lemma Splice_tail_items:
  assumes "seq_next nxt_o items_o inv_o" and "seq_next nxt_i items_i inv_i"
    and "Splice_inv inv_o inv_i p" and "\<not> Splice_taking p"
  shows "\<exists>p'. Splice_tail_next nxt_o nxt_i p = Some (head_opt (Splice_items items_o items_i p), p') \<and>
     Splice_inv inv_o inv_i p' \<and> Splice_items items_o items_i p' = tl (Splice_items items_o items_i p)"
proof -
  let ?c = "\<lparr>Chain_seq1 = Splice_inner p, Chain_seq2 = Splice_outer_seq p\<rparr>"
  have "Chain_inv inv_i inv_o ?c"
    using assms(3) by (simp add: Chain_inv_def Splice_inv_def)
  from seq_next.next_law [OF Chain_next_laws [OF assms(2,1)] this] assms(4) show ?thesis
    by (auto simp: Splice_tail_next_def Splice_items_def Splice_inv_def Chain_defs)
qed

lemma Splice_next_laws:
  assumes o: "seq_next nxt_o items_o inv_o" and i: "seq_next nxt_i items_i inv_i"
  shows "seq_next (Splice_next nxt_o nxt_i) (Splice_items items_o items_i) (Splice_inv inv_o inv_i)"
proof (unfold_locales, goal_cases)
  case (1 p)
  show ?case
  proof (cases "Splice_taking p \<and> Splice_n p \<noteq> 0 \<and> items_o (Splice_outer_seq p) \<noteq> []")
    case True
    then obtain n x xs where x: "Splice_taking p" "Splice_n p = Suc n"
        "items_o (Splice_outer_seq p) = x # xs"
      by (cases "Splice_n p"; cases "items_o (Splice_outer_seq p)") auto
    then obtain s where s: "nxt_o (Splice_outer_seq p) = Some (Some x, s)" "inv_o s" "items_o s = xs"
      using 1 seq_next.next_Cons [OF o, of "Splice_outer_seq p" x xs] by (auto simp: Splice_inv_def)
    then show ?thesis using 1 x
      by (intro exI [of _ "p\<lparr>Splice_outer_seq := s, Splice_n := n\<rparr>"])
        (simp add: Splice_next_def TakeN_next_def take_n_def Splice_items_def Splice_inv_def)
  next
    case False
    show ?thesis
    proof (cases "Splice_taking p")
      case taking: True
      obtain t where t: "TakeN_next nxt_o (take_n (Splice_n p) (Splice_outer_seq p)) = Some (None, t)"
          "inv_o (TakeN_seq t)" "items_o (TakeN_seq t) = items_o (Splice_outer_seq p)"
        using False taking 1 seq_next.next_law [OF o, of "Splice_outer_seq p"]
        by (cases "Splice_n p = 0") (auto simp: TakeN_next_def take_n_def Splice_inv_def)
      let ?p = "p\<lparr>Splice_outer_seq := TakeN_seq t, Splice_n := TakeN_n t, Splice_taking := False\<rparr>"
      have "Splice_inv inv_o inv_i ?p" "Splice_items items_o items_i ?p = Splice_items items_o items_i p"
        using 1 t taking False by (auto simp: Splice_inv_def Splice_items_def Let_def)
      then show ?thesis using Splice_tail_items [OF o i, of ?p] t taking
        by (simp add: Splice_next_def)
    next
      case False
      then show ?thesis using Splice_tail_items [OF o i 1] by (simp add: Splice_next_def)
    qed
  qed
qed

subsection \<open>StatusOk\<close>

record 's StatusOk =
  StatusOk_seq :: 's
  StatusOk_status :: StatusCode

definition status_ok :: "'s \<Rightarrow> 's StatusOk" where
  "status_ok s = \<lparr>StatusOk_seq = s, StatusOk_status = kOk\<rparr>"

definition StatusOk_unwrap_item ::
    "'a StatusOr option \<Rightarrow> 's StatusOk \<Rightarrow> 'a option \<times> 's StatusOk" where
  "StatusOk_unwrap_item item q =
     (case item of
        None \<Rightarrow> (None, q)
      | Some (Inl e) \<Rightarrow> (None, q\<lparr>StatusOk_status := Status_Update (StatusOk_status q) e\<rparr>)
      | Some (Inr x) \<Rightarrow> (Some x, q))"

definition StatusOk_peek :: "('s, 'a StatusOr) seq_fn \<Rightarrow> ('s StatusOk, 'a) seq_fn" where
  "StatusOk_peek pk q =
     do {
       (item, s) \<leftarrow> pk (StatusOk_seq q);
       Some (StatusOk_unwrap_item item (q\<lparr>StatusOk_seq := s\<rparr>))
     }"

definition StatusOk_next :: "('s, 'a StatusOr) seq_fn \<Rightarrow> ('s StatusOk, 'a) seq_fn" where
  "StatusOk_next nxt q =
     do {
       (item, s) \<leftarrow> nxt (StatusOk_seq q);
       Some (StatusOk_unwrap_item item (q\<lparr>StatusOk_seq := s\<rparr>))
     }"

text \<open>
  An exhausted \<^verbatim>\<open>StatusOk\<close> is one that returned \<^verbatim>\<open>None\<close>: because the adapted sequence ended, or
  because it delivered an error, which is then the status. A loop stops there.
\<close>

fun first_error :: "'a StatusOr list \<Rightarrow> StatusCode option" where
  "first_error [] = None"
| "first_error (Inl e # _) = Some e"
| "first_error (Inr _ # xs) = first_error xs"

fun ok_prefix :: "'a StatusOr list \<Rightarrow> 'a list" where
  "ok_prefix [] = []"
| "ok_prefix (Inl _ # _) = []"
| "ok_prefix (Inr x # xs) = x # ok_prefix xs"

lemma StatusOk_for_each:
  assumes "seq_next nxt items invar" and "invar (StatusOk_seq q)"
  shows "\<exists>q'. for_each (StatusOk_next nxt) (run_loop_fn_void fn) q c =
     Some (kContinue, q', fold fn (ok_prefix (items (StatusOk_seq q))) c) \<and>
     StatusOk_status q' = (case first_error (items (StatusOk_seq q)) of
        None \<Rightarrow> StatusOk_status q
      | Some e \<Rightarrow> Status_Update (StatusOk_status q) e)"
  using assms(2)
proof (induction "items (StatusOk_seq q)" arbitrary: q c)
  case Nil
  then show ?case using seq_next.next_Nil [OF assms(1), of "StatusOk_seq q"]
    by (subst for_each.simps) (auto simp: StatusOk_next_def StatusOk_unwrap_item_def)
next
  case (Cons y ys)
  then obtain s where s: "nxt (StatusOk_seq q) = Some (Some y, s)" "invar s" "items s = ys"
    using seq_next.next_Cons [OF assms(1), of "StatusOk_seq q" y ys] by auto
  show ?case
  proof (cases y)
    case (Inl e)
    then show ?thesis using s Cons.hyps(2) [symmetric]
      by (subst for_each.simps) (auto simp: StatusOk_next_def StatusOk_unwrap_item_def)
  next
    case (Inr x)
    then show ?thesis
      using s Cons.hyps(1) [of "q\<lparr>StatusOk_seq := s\<rparr>" "fn x c"] Cons.hyps(2) [symmetric]
      by (subst for_each.simps)
        (auto simp: StatusOk_next_def StatusOk_unwrap_item_def run_loop_fn_void_def
          split: option.splits)
  qed
qed

subsection \<open>Properties\<close>

text \<open>
  \<^verbatim>\<open>cache_next()\<close> is transparent: it needs only \<^verbatim>\<open>next\<close> of the adapted sequence,
  delivers the same items, and any number of \<^verbatim>\<open>peek\<close> calls in between does not lose, repeat or
  reorder one.
\<close>

theorem CacheNext_transparent:
  assumes "seq_next nxt items invar" and "invar s"
  shows "seq_laws (CacheNext_next nxt) (CacheNext_items items) (CacheNext_inv items invar)
       (CacheNext_peek nxt) \<and>
     CacheNext_inv items invar (cache_next s) \<and> CacheNext_items items (cache_next s) = items s"
  using seq_next.CacheNext_laws [OF assms(1)] assms(2)
  by (simp add: cache_next_def CacheNext_items_def CacheNext_inv_def)

theorem CacheNext_transparent_witness:
  "collect_vec (CacheNext_next range_next) (cache_next (as_seq [1, 2, 3 :: nat])) = Some [1, 2, 3]"
  using CacheNext_transparent [OF vec_seq.seq_next_axioms TrueI, of "as_seq [1, 2, 3 :: nat]"]
    collect_adapter by fastforce

text \<open>
  Read through \<^verbatim>\<open>next\<close>, \<^verbatim>\<open>seq1 | chain(seq2)\<close> delivers the items of the first
  sequence and then those of the second.
\<close>

theorem Chain_next_refines_append:
  assumes "seq_next nxt1 items1 inv1" and "seq_next nxt2 items2 inv2" and "inv1 s1" and "inv2 s2"
  shows "collect_vec (Chain_next nxt1 nxt2) (chain s2 s1) = Some (items1 s1 @ items2 s2)"
  using seq_next.collect_items [OF Chain_next_laws [OF assms(1,2)], of "chain s2 s1"] assms(3,4)
  by (simp add: chain_def Chain_defs)

theorem Chain_next_refines_append_witness:
  "collect_vec (Chain_next range_next range_next) (chain (as_seq [3]) (as_seq [1, 2 :: nat])) = Some [1, 2, 3]"
  using Chain_next_refines_append [OF vec_seq.seq_next_axioms vec_seq.seq_next_axioms TrueI TrueI,
      of "as_seq [3]" "as_seq [1, 2 :: nat]"]
  by simp

text \<open>
  \<^verbatim>\<open>Chain::peek\<close> does not agree with \<^verbatim>\<open>Chain::next\<close>: once the first sequence has no
  items left but has not yet been dropped (which only \<^verbatim>\<open>next\<close> does), \<^verbatim>\<open>peek\<close> says that the chain is
  at its end although \<^verbatim>\<open>next\<close> would return the first item of the second sequence.
\<close>

theorem Chain_peek_hides_second:
  assumes "seq_laws nxt1 items1 inv1 pk1" and "seq_laws nxt2 items2 inv2 pk2"
    and "Chain_inv inv1 inv2 c" and "Chain_seq1 c = Some s1" and "items1 s1 = []"
    and "items2 (Chain_seq2 c) = x # xs"
  shows "map_option fst (Chain_peek pk1 pk2 c) = Some None \<and>
     map_option fst (Chain_next nxt1 nxt2 c) = Some (Some x)"
proof -
  have "Chain_items items1 items2 c = x # xs"
    using assms(4-6) by (simp add: Chain_items_def)
  then show ?thesis
    using Chain_peek_items [OF assms(1-3)] assms(4,5)
      seq_next.next_law [OF Chain_next_laws [OF seq_laws.axioms(1) [OF assms(1)]
        seq_laws.axioms(1) [OF assms(2)]] assms(3)]
    by auto
qed

theorem Chain_peek_hides_second_witness:
  "map_option fst (Chain_peek range_peek range_peek (chain (as_seq [7]) (as_seq ([] :: nat list)))) = Some None \<and>
   map_option fst (Chain_next range_next range_next (chain (as_seq [7]) (as_seq ([] :: nat list)))) = Some (Some 7)"
  using Chain_peek_hides_second [OF vec_seq.seq_laws_axioms vec_seq.seq_laws_axioms,
      of "chain (as_seq [7]) (as_seq ([] :: nat list))" "as_seq []" 7 "[]"]
  by (simp add: chain_def Chain_inv_def)

text \<open>
  \<^verbatim>\<open>outer | splice(n, inner)\<close> delivers the first \<open>n\<close> items of the outer sequence,
  all of the inner one, and the rest of the outer one, although both parts of the outer sequence
  are read through references to one object.
\<close>

theorem Splice_inserts_inner:
  assumes "seq_next nxt_o items_o inv_o" and "seq_next nxt_i items_i inv_i"
    and "inv_o outer" and "inv_i inner"
  shows "collect_vec (Splice_next nxt_o nxt_i) (splice n inner outer) =
     Some (take n (items_o outer) @ items_i inner @ drop n (items_o outer))"
  using seq_next.collect_items [OF Splice_next_laws [OF assms(1,2)], of "splice n inner outer"] assms(3,4)
  by (simp add: splice_def Splice_inv_def Splice_items_def Let_def)

theorem Splice_inserts_inner_witness:
  "collect_vec (Splice_next range_next range_next) (splice 1 (as_seq [8, 9]) (as_seq [1, 2 :: nat])) =
     Some [1, 8, 9, 2]"
  using Splice_inserts_inner [OF vec_seq.seq_next_axioms vec_seq.seq_next_axioms TrueI TrueI,
      of 1 "as_seq [8, 9]" "as_seq [1, 2 :: nat]"]
  by simp

text \<open>
  \<^verbatim>\<open>seq | is_sorted()\<close>, which maps a comparison over adjacent items and stops at
  the first failure, decides whether the whole sequence is sorted.
\<close>

theorem is_sorted_decides_sorted:
  fixes items :: "'s \<Rightarrow> 'a::linorder list"
  assumes "seq_next nxt items invar" and "invar s"
  shows "is_sorted nxt s = Some (sorted (items s))"
proof -
  have le: "(\<lambda>left right :: 'a. left < right \<or> \<not> right < left) = (\<le>)"
    by (auto simp: fun_eq_iff)
  show ?thesis
    using seq_next.is_sorted_by_items [OF assms, of "(\<le>)"] False_notin_map_adj [of "(\<le>)" "items s"]
    by (simp add: is_sorted_def le transp_on_le)
qed

theorem is_sorted_decides_sorted_witness:
  "is_sorted range_next (as_seq [1, 2, 2 :: nat]) = Some True \<and>
   is_sorted range_next (as_seq [1, 3, 2 :: nat]) = Some False"
  using is_sorted_decides_sorted [OF vec_seq.seq_next_axioms TrueI, of "as_seq [1, 2, 2 :: nat]"]
    is_sorted_decides_sorted [OF vec_seq.seq_next_axioms TrueI, of "as_seq [1, 3, 2 :: nat]"]
  by simp

text \<open>
  \<^verbatim>\<open>rolling_sum()\<close> delivers as many items as the sequence has, and its \<open>i\<close>-th item
  is the sum of the first \<open>i + 1\<close> items.
\<close>

theorem rolling_sum_prefix_sums:
  fixes items :: "'s \<Rightarrow> 'a::comm_monoid_add list"
  assumes "seq_laws nxt items invar pk" and "invar s"
  shows "\<exists>v. collect_vec (MapFold_next nxt) (rolling_sum s) = Some v \<and> length v = length (items s) \<and>
     (\<forall>i < length (items s). v ! i = sum_list (take (Suc i) (items s)))"
proof -
  have "collect_vec (MapFold_next nxt) (rolling_sum s) =
      Some (map_fold_list (\<lambda>a b. let c = a + b in (c, c)) 0 (items s))"
    using collect_adapter [OF seq_laws.MapFold_laws [OF assms(1)], of "rolling_sum s"] assms(2)
    by (simp add: rolling_sum_def rolling_def map_fold_def)
  moreover have "foldl (+) 0 xs = sum_list xs" for xs :: "'a list"
    by (simp add: foldl_conv_fold fold_plus_sum_list_rev add.commute)
  ultimately show ?thesis
    by (auto simp: nth_map_fold_rolling)
qed

theorem rolling_sum_prefix_sums_witness:
  "\<exists>v. collect_vec (MapFold_next range_next) (rolling_sum (as_seq [1, 2, 3 :: nat])) = Some v \<and>
     length v = 3 \<and> v ! 2 = 6"
  using rolling_sum_prefix_sums [OF vec_seq.seq_laws_axioms TrueI, of "as_seq [1, 2, 3 :: nat]"]
  by fastforce

text \<open>
  A loop over \<^verbatim>\<open>seq | status_ok()\<close> sees the values up to the first item that is an
  error, and afterwards the status of the adapter is that error; without an error it sees every
  value and the status stays ok.
\<close>

theorem StatusOk_stops_at_first_error:
  assumes "seq_next nxt items invar" and "invar s"
  shows "\<exists>q'. for_each (StatusOk_next nxt) (run_loop_fn_void fn) (status_ok s) c =
       Some (kContinue, q', fold fn (ok_prefix (items s)) c) \<and>
     StatusOk_status q' = (case first_error (items s) of None \<Rightarrow> kOk | Some e \<Rightarrow> e)"
  using StatusOk_for_each [OF assms(1), of "status_ok s" fn c] assms(2)
  by (auto simp: status_ok_def Status_Update_def split: option.splits)

theorem StatusOk_stops_at_first_error_witness:
  "\<exists>q'. for_each (StatusOk_next range_next) (run_loop_fn_void (\<lambda>x v. v @ [x]))
       (status_ok (as_seq [Inr 1, Inl kNotFound, Inr (2 :: nat)])) [] = Some (kContinue, q', [1]) \<and>
     StatusOk_status q' = kNotFound"
  using StatusOk_stops_at_first_error [OF vec_seq.seq_next_axioms TrueI,
      of "\<lambda>x v. v @ [x]" "as_seq [Inr 1, Inl kNotFound, Inr (2 :: nat)]" "[]"]
  by simp

end
