(* ===== verification/Seq_Merge.thy ===== *)
theory Seq_Merge
  imports Seq_Stateful
begin

section \<open>Merging, flattening and grouping\<close>

text \<open>
  \<^verbatim>\<open>MergeBy\<close> (\<^verbatim>\<open>seq/merge_by.hpp\<close>) with its specialised \<^verbatim>\<open>for_each\<close>, and \<^verbatim>\<open>Flatten\<close>
  (\<^verbatim>\<open>seq/flatten.hpp\<close>).
\<close>

subsection \<open>MergeBy\<close>

record ('s, 't, 'a) MergeBy =
  MergeBy_left :: 's
  MergeBy_right :: 't
  MergeBy_compare :: "'a \<Rightarrow> 'a \<Rightarrow> bool"

definition merge_by :: "('a \<Rightarrow> 'a \<Rightarrow> bool) \<Rightarrow> 't \<Rightarrow> 's \<Rightarrow> ('s, 't, 'a) MergeBy" where
  "merge_by compare right left =
     \<lparr>MergeBy_left = left, MergeBy_right = right, MergeBy_compare = compare\<rparr>"

definition merge_natural :: "'t \<Rightarrow> 's \<Rightarrow> ('s, 't, 'a::ord) MergeBy" where
  "merge_natural right left = merge_by (\<lambda>l r. l < r) right left"

definition MergeBy_impl ::
    "('s, 'a) seq_fn \<Rightarrow> ('s, 'a) seq_fn \<Rightarrow> ('t, 'a) seq_fn \<Rightarrow> ('t, 'a) seq_fn \<Rightarrow> bool \<Rightarrow>
       (('s, 't, 'a) MergeBy, 'a) seq_fn" where
  "MergeBy_impl nxt1 pk1 nxt2 pk2 consume_item m =
     do {
       (l, sl) \<leftarrow> pk1 (MergeBy_left m);
       (r, sr) \<leftarrow> pk2 (MergeBy_right m);
       let m = m\<lparr>MergeBy_left := sl, MergeBy_right := sr\<rparr>;
       let take_left = (if consume_item
           then do { (v, s) \<leftarrow> nxt1 (MergeBy_left m); Some (v, m\<lparr>MergeBy_left := s\<rparr>) }
           else Some (l, m));
       let take_right = (if consume_item
           then do { (v, s) \<leftarrow> nxt2 (MergeBy_right m); Some (v, m\<lparr>MergeBy_right := s\<rparr>) }
           else Some (r, m));
       case l of
         Some x \<Rightarrow> (case r of
             Some y \<Rightarrow> if MergeBy_compare m y x then take_right else take_left
           | None \<Rightarrow> take_left)
       | None \<Rightarrow> (case r of
             Some y \<Rightarrow> take_right
           | None \<Rightarrow> Some (None, m))
     }"

definition MergeBy_peek ::
    "('s, 'a) seq_fn \<Rightarrow> ('s, 'a) seq_fn \<Rightarrow> ('t, 'a) seq_fn \<Rightarrow> ('t, 'a) seq_fn \<Rightarrow>
       (('s, 't, 'a) MergeBy, 'a) seq_fn" where
  "MergeBy_peek nxt1 pk1 nxt2 pk2 = MergeBy_impl nxt1 pk1 nxt2 pk2 False"

definition MergeBy_next ::
    "('s, 'a) seq_fn \<Rightarrow> ('s, 'a) seq_fn \<Rightarrow> ('t, 'a) seq_fn \<Rightarrow> ('t, 'a) seq_fn \<Rightarrow>
       (('s, 't, 'a) MergeBy, 'a) seq_fn" where
  "MergeBy_next nxt1 pk1 nxt2 pk2 = MergeBy_impl nxt1 pk1 nxt2 pk2 True"

definition MergeBy_items ::
    "('s \<Rightarrow> 'a list) \<Rightarrow> ('t \<Rightarrow> 'a list) \<Rightarrow> ('s, 't, 'a) MergeBy \<Rightarrow> 'a list" where
  "MergeBy_items items1 items2 m =
     merge_list (MergeBy_compare m) (items1 (MergeBy_left m)) (items2 (MergeBy_right m))"

lemmas MergeBy_defs = MergeBy_peek_def MergeBy_next_def MergeBy_impl_def MergeBy_items_def

lemma MergeBy_laws:
  fixes nxt1 :: "('s, 'a) seq_fn" and nxt2 :: "('t, 'a) seq_fn"
  assumes l: "seq_laws nxt1 items1 inv1 pk1" and r: "seq_laws nxt2 items2 inv2 pk2"
  shows "seq_laws (MergeBy_next nxt1 pk1 nxt2 pk2) (MergeBy_items items1 items2)
     (\<lambda>m. inv1 (MergeBy_left m) \<and> inv2 (MergeBy_right m)) (MergeBy_peek nxt1 pk1 nxt2 pk2)"
proof -
  note nl = seq_laws.axioms(1) [OF l] and nr = seq_laws.axioms(1) [OF r]
  have peeked: "\<exists>sl sr. pk1 (MergeBy_left m) = Some (head_opt (items1 (MergeBy_left m)), sl) \<and>
      inv1 sl \<and> items1 sl = items1 (MergeBy_left m) \<and>
      pk2 (MergeBy_right m) = Some (head_opt (items2 (MergeBy_right m)), sr) \<and>
      inv2 sr \<and> items2 sr = items2 (MergeBy_right m)"
    if "inv1 (MergeBy_left m) \<and> inv2 (MergeBy_right m)" for m :: "('s, 't, 'a) MergeBy"
    using that seq_laws.peek_law [OF l] seq_laws.peek_law [OF r] by blast
  show ?thesis
  proof (unfold_locales, goal_cases)
    case (1 m)
    with peeked obtain sl sr where s: "pk1 (MergeBy_left m) = Some (head_opt (items1 (MergeBy_left m)), sl)"
        "inv1 sl" "items1 sl = items1 (MergeBy_left m)"
        "pk2 (MergeBy_right m) = Some (head_opt (items2 (MergeBy_right m)), sr)"
        "inv2 sr" "items2 sr = items2 (MergeBy_right m)" by blast
    then show ?case
      using seq_next.next_law [OF nl s(2)] seq_next.next_law [OF nr s(5)]
      by (cases "items1 (MergeBy_left m)"; cases "items2 (MergeBy_right m)")
        (auto simp: MergeBy_defs Let_def)
  next
    case (2 m)
    with peeked obtain sl sr where "pk1 (MergeBy_left m) = Some (head_opt (items1 (MergeBy_left m)), sl)"
        "inv1 sl" "items1 sl = items1 (MergeBy_left m)"
        "pk2 (MergeBy_right m) = Some (head_opt (items2 (MergeBy_right m)), sr)"
        "inv2 sr" "items2 sr = items2 (MergeBy_right m)" by blast
    then show ?case
      by (cases "items1 (MergeBy_left m)"; cases "items2 (MergeBy_right m)")
        (auto simp: MergeBy_defs Let_def)
  qed
qed

text \<open>
  The specialised \<^verbatim>\<open>MergeBy | for_each\<close> first copies the whole left sequence into a vector and
  then walks the right one. \<open>merge_left_while\<close> is the inner \<^verbatim>\<open>while\<close>; the pair of the remaining
  left items (\<^verbatim>\<open>left_next\<close> to \<^verbatim>\<open>left_end\<close>) and the user's variables is the state of the loop.
\<close>

fun merge_left_while ::
    "('a \<Rightarrow> bool) \<Rightarrow> ('a \<Rightarrow> 'c \<Rightarrow> LoopControl \<times> 'c) \<Rightarrow> 'a list \<times> 'c \<Rightarrow> LoopControl \<times> 'a list \<times> 'c" where
  "merge_left_while guard fn ([], c) = (kContinue, [], c)"
| "merge_left_while guard fn (x # xs, c) =
     (if guard x then
        (case fn x c of (ctl, c') \<Rightarrow>
           if ctl = kBreak then (kBreak, x # xs, c') else merge_left_while guard fn (xs, c'))
      else (kContinue, x # xs, c))"

definition MergeBy_loop_body ::
    "('a \<Rightarrow> 'a \<Rightarrow> bool) \<Rightarrow> ('a \<Rightarrow> 'c \<Rightarrow> LoopControl \<times> 'c) \<Rightarrow> 'a \<Rightarrow> 'a list \<times> 'c \<Rightarrow>
       LoopControl \<times> 'a list \<times> 'c" where
  "MergeBy_loop_body compare fn right_item st =
     (case merge_left_while (\<lambda>x. \<not> compare right_item x) fn st of (ctl, lefts, c) \<Rightarrow>
        if ctl = kBreak then (kBreak, lefts, c)
        else (case fn right_item c of (ctl, c) \<Rightarrow> (ctl, lefts, c)))"

definition MergeBy_for_each ::
    "('s, 'a) seq_fn \<Rightarrow> ('t, 'a) seq_fn \<Rightarrow> ('a \<Rightarrow> 'c \<Rightarrow> LoopControl \<times> 'c) \<Rightarrow>
       ('s, 't, 'a) MergeBy \<Rightarrow> 'c \<Rightarrow> (LoopControl \<times> 'c) option" where
  "MergeBy_for_each nxt1 nxt2 fn m c =
     do {
       left_items \<leftarrow> emplace_back nxt1 [] (MergeBy_left m);
       (control, _, lefts, c) \<leftarrow>
          for_each nxt2 (MergeBy_loop_body (MergeBy_compare m) fn) (MergeBy_right m) (left_items, c);
       if control = kBreak then Some (kBreak, c)
       else (case merge_left_while (\<lambda>_. True) fn (lefts, c) of (ctl, _, c) \<Rightarrow> Some (ctl, c))
     }"

abbreviation (input) loop_outcome :: "LoopControl \<times> 'x \<times> 'c \<Rightarrow> LoopControl \<times> 'c" where
  "loop_outcome r \<equiv> (fst r, snd (snd r))"

lemma merge_left_while_all:
  "loop_outcome (merge_left_while (\<lambda>_. True) fn (xs, c)) = loop_outcome (for_each_list fn xs c)"
  by (induction xs arbitrary: c) (auto split: prod.splits)

lemma LoopControl_not_break [simp]: "ctl \<noteq> kBreak \<longleftrightarrow> ctl = kContinue"
  by (cases ctl) auto

lemma merge_left_while_merge_list:
  "(case merge_left_while (\<lambda>x. \<not> lt y x) fn (xs, c) of (ctl, rest, c') \<Rightarrow>
      if ctl = kBreak then (kBreak, c') else loop_outcome (for_each_list fn (merge_list lt rest (y # ys)) c'))
   = loop_outcome (for_each_list fn (merge_list lt xs (y # ys)) c)"
proof (induction xs arbitrary: c)
  case (Cons x xs)
  obtain ctl c' where "fn x c = (ctl, c')" by fastforce
  with Cons.IH [of c'] show ?case by (cases "lt y x"; cases ctl) simp_all
qed simp

lemma merge_left_while_stops:
  "merge_left_while (\<lambda>x. \<not> lt y x) fn (xs, c) = (kContinue, rest, c') \<Longrightarrow>
     merge_list lt rest (y # ys) = y # merge_list lt rest ys"
  by (induction xs arbitrary: c) (auto split: prod.splits if_splits)

lemma MergeBy_loop_list:
  "(case for_each_list (MergeBy_loop_body lt fn) ys (xs, c) of (ctl, _, rest, c') \<Rightarrow>
      if ctl = kBreak then (kBreak, c')
      else loop_outcome (merge_left_while (\<lambda>_. True) fn (rest, c')))
   = loop_outcome (for_each_list fn (merge_list lt xs ys) c)"
proof (induction ys arbitrary: xs c)
  case Nil
  then show ?case using merge_left_while_all [of fn xs c] by simp
next
  case (Cons y ys)
  obtain ctl rest c' where w: "merge_left_while (\<lambda>x. \<not> lt y x) fn (xs, c) = (ctl, rest, c')"
    by (cases "merge_left_while (\<lambda>x. \<not> lt y x) fn (xs, c)") auto
  show ?case
  proof (cases "ctl = kBreak")
    case True
    with w show ?thesis using merge_left_while_merge_list [where lt = lt and y = y and fn = fn and xs = xs and c = c and ys = ys]
      by (simp add: MergeBy_loop_body_def)
  next
    case False
    obtain ctl2 c2 where f: "fn y c' = (ctl2, c2)" by fastforce
    with w False show ?thesis
      using merge_left_while_merge_list [where lt = lt and y = y and fn = fn and xs = xs and c = c and ys = ys]
        merge_left_while_stops [of lt y fn xs c rest c' ys] Cons.IH [of rest c2]
      by (auto simp: MergeBy_loop_body_def)
  qed
qed

lemma MergeBy_for_each_items:
  assumes l: "seq_next nxt1 items1 inv1" and r: "seq_next nxt2 items2 inv2"
    and "inv1 (MergeBy_left m)" and "inv2 (MergeBy_right m)"
  shows "MergeBy_for_each nxt1 nxt2 fn m c =
     Some (loop_outcome (for_each_list fn (MergeBy_items items1 items2 m) c))"
proof -
  let ?L = "items1 (MergeBy_left m)" and ?R = "items2 (MergeBy_right m)"
    and ?lt = "MergeBy_compare m"
  obtain s' ctl c' where
    "for_each nxt2 (MergeBy_loop_body ?lt fn) (MergeBy_right m) (?L, c) = Some (ctl, s', c')"
    "for_each_list (MergeBy_loop_body ?lt fn) ?R (?L, c) = (ctl, items2 s', c')"
    using seq_next.for_each_items [OF r assms(4), of "MergeBy_loop_body ?lt fn" "(?L, c)"] by blast
  with MergeBy_loop_list [where lt = ?lt and fn = fn and xs = ?L and ys = ?R and c = c] show ?thesis
    by (auto simp: MergeBy_for_each_def seq_next.emplace_back_items [OF l assms(3)]
        MergeBy_items_def split: prod.splits)
qed

subsection \<open>Flatten\<close>

text \<open>
  The items of the outer sequence are themselves sequence objects; the constructor fetches the
  first of them.
\<close>

record ('o, 'i) Flatten =
  Flatten_outer :: 'o
  Flatten_inner :: "'i option"

definition flatten :: "('o, 'i) seq_fn \<Rightarrow> 'o \<Rightarrow> ('o, 'i) Flatten option" where
  "flatten nxt_o outer =
     do {
       (inner, outer) \<leftarrow> nxt_o outer;
       Some \<lparr>Flatten_outer = outer, Flatten_inner = inner\<rparr>
     }"

partial_function (option) Flatten_impl ::
    "('o, 'i) seq_fn \<Rightarrow> ('i, 'a) seq_fn \<Rightarrow> (('o, 'i) Flatten, 'a) seq_fn" where
  "Flatten_impl nxt_o op_i f =
     (case Flatten_inner f of
        None \<Rightarrow> Some (None, f)
      | Some inner \<Rightarrow>
          Option.bind (op_i inner) (\<lambda>(v, inner).
            case v of
              Some x \<Rightarrow> Some (Some x, f\<lparr>Flatten_inner := Some inner\<rparr>)
            | None \<Rightarrow>
                Option.bind (nxt_o (Flatten_outer f)) (\<lambda>(next_inner, outer).
                  case next_inner of
                    Some i \<Rightarrow> Flatten_impl nxt_o op_i
                                (f\<lparr>Flatten_outer := outer, Flatten_inner := Some i\<rparr>)
                  | None \<Rightarrow> Some (None, f\<lparr>Flatten_outer := outer, Flatten_inner := None\<rparr>))))"

definition Flatten_peek ::
    "('o, 'i) seq_fn \<Rightarrow> ('i, 'a) seq_fn \<Rightarrow> (('o, 'i) Flatten, 'a) seq_fn" where
  "Flatten_peek nxt_o pk_i = Flatten_impl nxt_o pk_i"

definition Flatten_next ::
    "('o, 'i) seq_fn \<Rightarrow> ('i, 'a) seq_fn \<Rightarrow> (('o, 'i) Flatten, 'a) seq_fn" where
  "Flatten_next nxt_o nxt_i = Flatten_impl nxt_o nxt_i"

definition Flatten_items ::
    "('o \<Rightarrow> 'i list) \<Rightarrow> ('i \<Rightarrow> 'a list) \<Rightarrow> ('o, 'i) Flatten \<Rightarrow> 'a list" where
  "Flatten_items items_o items_i f =
     (case Flatten_inner f of
        None \<Rightarrow> []
      | Some i \<Rightarrow> items_i i @ concat (map items_i (items_o (Flatten_outer f))))"

definition Flatten_inv ::
    "('o \<Rightarrow> 'i list) \<Rightarrow> ('o \<Rightarrow> bool) \<Rightarrow> ('i \<Rightarrow> bool) \<Rightarrow> ('o, 'i) Flatten \<Rightarrow> bool" where
  "Flatten_inv items_o inv_o inv_i f \<longleftrightarrow> inv_o (Flatten_outer f) \<and>
     (case Flatten_inner f of None \<Rightarrow> items_o (Flatten_outer f) = [] | Some i \<Rightarrow> inv_i i) \<and>
     (\<forall>i \<in> set (items_o (Flatten_outer f)). inv_i i)"

lemmas Flatten_defs = Flatten_items_def Flatten_inv_def

text \<open>
  One lemma for both methods: \<open>op_i\<close> returns the first item of the inner sequence and leaves
  \<open>rest\<close> of it, where \<open>rest\<close> is \<open>tl\<close> for \<^verbatim>\<open>next\<close> and the identity for \<^verbatim>\<open>peek\<close>.
\<close>

lemma Flatten_impl_items:
  assumes o: "seq_next nxt_o items_o inv_o"
    and i: "\<And>s. inv_i s \<Longrightarrow> \<exists>s'. op_i s = Some (head_opt (items_i s), s') \<and> inv_i s' \<and>
       items_i s' = rest (items_i s)"
    and rest: "\<And>x xs ys. rest ((x # xs) @ ys) = rest (x # xs) @ ys" "rest [] = []"
  shows "Flatten_inv items_o inv_o inv_i f \<Longrightarrow>
     \<exists>f'. Flatten_impl nxt_o op_i f = Some (head_opt (Flatten_items items_o items_i f), f') \<and>
       Flatten_inv items_o inv_o inv_i f' \<and>
       Flatten_items items_o items_i f' = rest (Flatten_items items_o items_i f)"
proof (induction "items_o (Flatten_outer f)" arbitrary: f)
  case Nil
  show ?case
  proof (cases "Flatten_inner f")
    case None
    with Nil rest(2) show ?thesis by (subst Flatten_impl.simps) (auto simp: Flatten_defs)
  next
    case (Some inn)
    with Nil have "inv_i inn" by (simp add: Flatten_inv_def)
    with Some Nil i [of inn] seq_next.next_Nil [OF o, of "Flatten_outer f"] rest(2) show ?thesis
      by (cases "items_i inn"; subst Flatten_impl.simps) (auto simp: Flatten_defs)
  qed
next
  case (Cons i0 ins)
  then obtain inn where inn: "Flatten_inner f = Some inn" "inv_i inn"
    by (cases "Flatten_inner f") (auto simp: Flatten_inv_def)
  obtain outer where outer: "nxt_o (Flatten_outer f) = Some (Some i0, outer)" "inv_o outer"
      "items_o outer = ins"
    using seq_next.next_Cons [OF o, of "Flatten_outer f" i0 ins] Cons by (auto simp: Flatten_inv_def)
  obtain inn' where inn': "op_i inn = Some (head_opt (items_i inn), inn')" "inv_i inn'"
      "items_i inn' = rest (items_i inn)"
    using i [OF inn(2)] by auto
  show ?case
  proof (cases "items_i inn")
    case Nil
    let ?f = "f\<lparr>Flatten_outer := outer, Flatten_inner := Some i0\<rparr>"
    have "Flatten_inv items_o inv_o inv_i ?f"
        "Flatten_items items_o items_i ?f = Flatten_items items_o items_i f"
      using Cons.hyps(2) [symmetric] Cons.prems outer inn Nil by (auto simp: Flatten_defs)
    then show ?thesis using Cons.hyps(1) [of ?f] Nil inn inn' outer
      by (subst Flatten_impl.simps) simp
  next
    case (Cons x xs)
    with inn inn' Cons.prems rest(1) [of x xs] show ?thesis
      by (intro exI [of _ "f\<lparr>Flatten_inner := Some inn'\<rparr>"], subst Flatten_impl.simps)
        (auto simp: Flatten_defs)
  qed
qed

lemma Flatten_laws:
  assumes o: "seq_next nxt_o items_o inv_o" and i: "seq_laws nxt_i items_i inv_i pk_i"
  shows "seq_laws (Flatten_next nxt_o nxt_i) (Flatten_items items_o items_i)
     (Flatten_inv items_o inv_o inv_i) (Flatten_peek nxt_o pk_i)"
proof (unfold_locales, goal_cases)
  case (1 f)
  show ?case unfolding Flatten_next_def
    by (rule Flatten_impl_items [OF o seq_next.next_law [OF seq_laws.axioms(1) [OF i]] _ _ 1]) auto
next
  case (2 f)
  show ?case unfolding Flatten_peek_def
    by (rule Flatten_impl_items [where rest = "\<lambda>xs. xs", OF o seq_laws.peek_law [OF i] _ _ 2]) auto
qed

lemma flatten_init:
  assumes o: "seq_next nxt_o items_o inv_o" and "inv_o s" and "\<forall>i \<in> set (items_o s). inv_i i"
  shows "\<exists>f. flatten nxt_o s = Some f \<and> Flatten_inv items_o inv_o inv_i f \<and>
     Flatten_items items_o items_i f = concat (map items_i (items_o s))"
  using seq_next.next_law [OF o assms(2)] assms(3)
  by (cases "items_o s") (auto simp: flatten_def Flatten_defs)

subsection \<open>Properties\<close>

text \<open>
  C12 (refinement). \<^verbatim>\<open>left | merge_by(compare, right)\<close>, for a comparison that is a strict weak order and
  two sequences that are sorted by it, delivers every item of both exactly as often as they hold it, in
  sorted order, and it is the stable merge: of the items that are equivalent to a given one under the
  comparison, all those of the left sequence come first, in their order, and then those of the right one, in theirs.
\<close>

theorem MergeBy_stable_sorted_merge:
  fixes items1 :: "'s \<Rightarrow> 'a list" and items2 :: "'t \<Rightarrow> 'a list"
  assumes "strict_weak lt" and "seq_laws nxt1 items1 inv1 pk1" and "seq_laws nxt2 items2 inv2 pk2"
    and "inv1 l" and "inv2 r"
    and "sorted_wrt (\<lambda>x y. \<not> lt y x) (items1 l)" and "sorted_wrt (\<lambda>x y. \<not> lt y x) (items2 r)"
  shows "\<exists>v. collect_vec (MergeBy_next nxt1 pk1 nxt2 pk2) (merge_by lt r l) = Some v \<and>
     sorted_wrt (\<lambda>x y. \<not> lt y x) v \<and> mset v = mset (items1 l) + mset (items2 r) \<and>
     (\<forall>z. let same = (\<lambda>x. \<not> lt z x \<and> \<not> lt x z)
          in filter same v = filter same (items1 l) @ filter same (items2 r))"
  using collect_adapter [OF MergeBy_laws [OF assms(2,3)], of "merge_by lt r l"] assms(4-7)
  by (simp add: merge_by_def MergeBy_items_def mset_merge_list strict_weak.sorted_lt_merge_list [OF assms(1)]
      strict_weak.merge_list_stable [OF assms(1)])

text \<open>Pairs compared by their first components: of the two items 2, the left one is delivered first.\<close>

lemma fst_less_strict_weak: "strict_weak (\<lambda>(x :: nat \<times> string) y. fst x < fst y)"
  by unfold_locales auto

theorem MergeBy_stable_sorted_merge_witness:
  "\<exists>v. collect_vec (MergeBy_next range_next range_peek range_next range_peek)
      (merge_by (\<lambda>x y. fst x < fst y) (as_seq [(2, ''r''), (4, ''r'')]) (as_seq [(1, ''l''), (2, ''l''), (5 :: nat, ''l'')])) = Some v \<and>
    filter (\<lambda>x. \<not> 2 < fst x \<and> \<not> fst x < 2) v = [(2, ''l''), (2, ''r'')]"
proof -
  let ?ls = "[(1, ''l''), (2, ''l''), (5 :: nat, ''l'')]" and ?rs = "[(2, ''r''), (4 :: nat, ''r'')]"
  have sorted: "sorted_wrt (\<lambda>x y. \<not> fst y < fst x) ?ls" "sorted_wrt (\<lambda>x y. \<not> fst y < fst x) ?rs" by simp_all
  from MergeBy_stable_sorted_merge [OF fst_less_strict_weak vec_seq.seq_laws_axioms vec_seq.seq_laws_axioms TrueI TrueI,
      of "as_seq ?ls" "as_seq ?rs"] sorted
  obtain v where v: "collect_vec (MergeBy_next range_next range_peek range_next range_peek)
        (merge_by (\<lambda>x y. fst x < fst y) (as_seq ?rs) (as_seq ?ls)) = Some v"
    and same: "\<forall>z :: nat \<times> string. let same = (\<lambda>x. \<not> fst z < fst x \<and> \<not> fst x < fst z) in filter same v = filter same ?ls @ filter same ?rs"
    by auto
  from v same [rule_format, of "(2, ''l'')"] show ?thesis by simp
qed

text \<open>
  The specialised \<^verbatim>\<open>merge_by(\<dots>) | for_each(fn)\<close>, which copies the left sequence
  into a vector and walks the right one, has the outcome of the generic loop over
  \<^verbatim>\<open>MergeBy::next\<close>: the same calls of the body in the same order, the same early exit.
\<close>

theorem MergeBy_for_each_equals_generic:
  assumes "seq_laws nxt1 items1 inv1 pk1" and "seq_laws nxt2 items2 inv2 pk2"
    and "inv1 (MergeBy_left m)" and "inv2 (MergeBy_right m)"
  shows "MergeBy_for_each nxt1 nxt2 fn m c =
     map_option (\<lambda>(ctl, _, c). (ctl, c)) (for_each (MergeBy_next nxt1 pk1 nxt2 pk2) fn m c)"
  using seq_next.for_each_items [OF seq_laws.axioms(1) [OF MergeBy_laws [OF assms(1,2)]], of m fn c]
    MergeBy_for_each_items [OF seq_laws.axioms(1) [OF assms(1)] seq_laws.axioms(1) [OF assms(2)] assms(3,4),
      of fn c] assms(3,4)
  by auto

theorem MergeBy_for_each_equals_generic_witness:
  "MergeBy_for_each range_next range_next (\<lambda>x v. (if x = 4 then kBreak else kContinue, v @ [x]))
       (merge_natural (as_seq [2, 4]) (as_seq [1, 2, 5 :: nat])) [] =
     map_option (\<lambda>(ctl, _, c). (ctl, c))
       (for_each (MergeBy_next range_next range_peek range_next range_peek)
         (\<lambda>x v. (if x = 4 then kBreak else kContinue, v @ [x]))
         (merge_natural (as_seq [2, 4]) (as_seq [1, 2, 5 :: nat])) [])"
  by (rule MergeBy_for_each_equals_generic [OF vec_seq.seq_laws_axioms vec_seq.seq_laws_axioms TrueI TrueI])

text \<open>
  \<^verbatim>\<open>flatten()\<close> over a sequence of sequences delivers the concatenation of the inner
  sequences, skipping any number of empty ones, and terminates.
\<close>

theorem Flatten_refines_concat:
  assumes "seq_next nxt_o items_o inv_o" and "seq_laws nxt_i items_i inv_i pk_i"
    and "inv_o s" and "\<forall>i \<in> set (items_o s). inv_i i"
  shows "Option.bind (flatten nxt_o s) (collect_vec (Flatten_next nxt_o nxt_i)) =
     Some (concat (map items_i (items_o s)))"
proof -
  obtain f where "flatten nxt_o s = Some f" "Flatten_inv items_o inv_o inv_i f"
      "Flatten_items items_o items_i f = concat (map items_i (items_o s))"
    using flatten_init [OF assms(1,3,4)] by blast
  then show ?thesis using collect_adapter [OF Flatten_laws [OF assms(1,2)], of f] by simp
qed

theorem Flatten_refines_concat_witness:
  "Option.bind (flatten range_next (as_seq [as_seq [1], as_seq [], as_seq [2, 3 :: nat]]))
     (collect_vec (Flatten_next range_next range_next)) = Some [1, 2, 3]"
  using Flatten_refines_concat [OF vec_seq.seq_next_axioms vec_seq.seq_laws_axioms TrueI,
      of "as_seq [as_seq [1], as_seq [], as_seq [2, 3 :: nat]]"]
  by simp

end
