(* ===== verification/Seq_Group.thy ===== *)
theory Seq_Group
  imports Seq_Merge
begin

section \<open>GroupBy and its sub-groups\<close>

text \<open>
  \<^verbatim>\<open>seq/group_by.hpp\<close>. A \<^verbatim>\<open>GroupBy\<close> and the sub-group it handed out last share the position in
  the underlying sequence: the sub-group holds a pointer to the \<^verbatim>\<open>GroupBy\<close> (\<^verbatim>\<open>group_by_\<close>) and the
  \<^verbatim>\<open>GroupBy\<close> a pointer back (\<^verbatim>\<open>sub_group_\<close>). The two pointers are set and cleared together, so the
  pair is one record with a flag \<open>GroupBy_attached\<close> (\<^verbatim>\<open>sub_group_ != nullptr\<close>): the methods of the
  attached sub-group are functions on that record, and they see an end as soon as the flag is
  cleared (\<^verbatim>\<open>group_by_ == nullptr\<close>). A detached sub-group owns a private copy
  (\<^verbatim>\<open>private_group_by_\<close>), which is again such a record, with the flag set.
\<close>

record ('s, 'a) GroupBy =
  GroupBy_attached :: bool
  GroupBy_seq :: 's
  GroupBy_group_eq :: "'a \<Rightarrow> 'a \<Rightarrow> bool"
  GroupBy_next_item :: "'a option"

definition group_by ::
    "('s, 'a) seq_fn \<Rightarrow> ('a \<Rightarrow> 'a \<Rightarrow> bool) \<Rightarrow> 's \<Rightarrow> ('s, 'a) GroupBy option" where
  "group_by nxt group_eq s =
     do {
       (n, s) \<leftarrow> nxt s;
       Some \<lparr>GroupBy_attached = False, GroupBy_seq = s, GroupBy_group_eq = group_eq,
         GroupBy_next_item = n\<rparr>
     }"

definition sub_group_peek :: "('s, 'a) GroupBy \<Rightarrow> 'a option" where
  "sub_group_peek g = GroupBy_next_item g"

definition sub_group_next :: "('s, 'a) seq_fn \<Rightarrow> (('s, 'a) GroupBy, 'a) seq_fn" where
  "sub_group_next nxt g =
     (case GroupBy_next_item g of
        None \<Rightarrow> Some (None, g)
      | Some item \<Rightarrow> do {
          (n, s) \<leftarrow> nxt (GroupBy_seq g);
          let g = g\<lparr>GroupBy_seq := s, GroupBy_next_item := n\<rparr>;
          Some (Some item,
            (case n of
               None \<Rightarrow> g\<lparr>GroupBy_attached := False\<rparr>
             | Some y \<Rightarrow>
                 if \<not> GroupBy_group_eq g item y then g\<lparr>GroupBy_attached := False\<rparr> else g))
        })"

definition SubGroup_peek :: "(('s, 'a) GroupBy, 'a) seq_fn" where
  "SubGroup_peek g = (if \<not> GroupBy_attached g then Some (None, g) else Some (sub_group_peek g, g))"

definition SubGroup_next :: "('s, 'a) seq_fn \<Rightarrow> (('s, 'a) GroupBy, 'a) seq_fn" where
  "SubGroup_next nxt g =
     (if \<not> GroupBy_attached g then Some (None, g) else sub_group_next nxt g)"

text \<open>
  \<^verbatim>\<open>detach(sub_group, skip_advance)\<close> on an attached sub-group: the private copy that the
  sub-group keeps, and the \<^verbatim>\<open>GroupBy\<close> afterwards (advanced past the group, by a temporary
  sub-group that is consumed, unless \<open>skip_advance\<close>).
\<close>

definition GroupBy_detach ::
    "('s, 'a) seq_fn \<Rightarrow> bool \<Rightarrow> ('s, 'a) GroupBy \<Rightarrow>
       (('s, 'a) GroupBy option \<times> ('s, 'a) GroupBy) option" where
  "GroupBy_detach nxt skip_advance g =
     (if \<not> GroupBy_attached g then Some (None, g)
      else if skip_advance then Some (Some g, g\<lparr>GroupBy_attached := False\<rparr>)
      else do { g' \<leftarrow> consume (SubGroup_next nxt) g; Some (Some g, g') })"

text \<open>
  \<^verbatim>\<open>GroupBy::next()\<close>: the sub-group handed out before, if it is still attached, is detached
  first (the second component is what it keeps); the result is whether a new sub-group was
  returned, and that sub-group is the attached view of the new state.
\<close>

definition GroupBy_next ::
    "('s, 'a) seq_fn \<Rightarrow> ('s, 'a) GroupBy \<Rightarrow>
       (bool \<times> ('s, 'a) GroupBy option \<times> ('s, 'a) GroupBy) option" where
  "GroupBy_next nxt g =
     do {
       (detached, g) \<leftarrow> GroupBy_detach nxt False g;
       if GroupBy_next_item g = None then Some (False, detached, g)
       else Some (True, detached, g\<lparr>GroupBy_attached := True\<rparr>)
     }"

text \<open>
  The specialised \<^verbatim>\<open>GroupBy | for_each(fn)\<close>; \<open>fn\<close> gets the attached sub-group, may read any part
  of it (the state it returns), and destroying the sub-group after the call detaches it, which
  advances the \<^verbatim>\<open>GroupBy\<close> past the rest of the group.
\<close>

partial_function (option) GroupBy_for_each ::
    "('s, 'a) seq_fn \<Rightarrow> (('s, 'a) GroupBy \<Rightarrow> 'c \<Rightarrow> (LoopControl \<times> ('s, 'a) GroupBy \<times> 'c) option) \<Rightarrow>
       ('s, 'a) GroupBy \<Rightarrow> 'c \<Rightarrow> (LoopControl \<times> ('s, 'a) GroupBy \<times> 'c) option" where
  "GroupBy_for_each nxt fn g c =
     (if GroupBy_next_item g = None then Some (kContinue, g, c)
      else Option.bind (GroupBy_detach nxt False g) (\<lambda>(_, g).
        Option.bind (fn (g\<lparr>GroupBy_attached := True\<rparr>) c) (\<lambda>(ctl, g, c).
          Option.bind (GroupBy_detach nxt False g) (\<lambda>(_, g).
            if ctl = kBreak then Some (kBreak, g, c) else GroupBy_for_each nxt fn g c))))"

subsection \<open>What is left of the sequence, the current group, the groups to come\<close>

definition GroupBy_all :: "('s \<Rightarrow> 'a list) \<Rightarrow> ('s, 'a) GroupBy \<Rightarrow> 'a list" where
  "GroupBy_all items g =
     (case GroupBy_next_item g of None \<Rightarrow> [] | Some x \<Rightarrow> x # items (GroupBy_seq g))"

definition SubGroup_items :: "('s \<Rightarrow> 'a list) \<Rightarrow> ('s, 'a) GroupBy \<Rightarrow> 'a list" where
  "SubGroup_items items g =
     (if \<not> GroupBy_attached g then []
      else case GroupBy_all items g of
        [] \<Rightarrow> []
      | x # xs \<Rightarrow> x # take_run (GroupBy_group_eq g) x xs)"

definition GroupBy_rest :: "('s \<Rightarrow> 'a list) \<Rightarrow> ('s, 'a) GroupBy \<Rightarrow> 'a list" where
  "GroupBy_rest items g =
     (if \<not> GroupBy_attached g then GroupBy_all items g
      else case GroupBy_all items g of
        [] \<Rightarrow> []
      | x # xs \<Rightarrow> drop_run (GroupBy_group_eq g) x xs)"

definition GroupBy_inv :: "('s \<Rightarrow> 'a list) \<Rightarrow> ('s \<Rightarrow> bool) \<Rightarrow> ('s, 'a) GroupBy \<Rightarrow> bool" where
  "GroupBy_inv items invar g \<longleftrightarrow> invar (GroupBy_seq g) \<and>
     (GroupBy_next_item g = None \<longrightarrow> items (GroupBy_seq g) = [] \<and> \<not> GroupBy_attached g)"

lemmas GroupBy_defs = GroupBy_all_def SubGroup_items_def GroupBy_rest_def GroupBy_inv_def

lemma SubGroup_items_append_rest: "SubGroup_items items g @ GroupBy_rest items g = GroupBy_all items g"
  by (auto simp: SubGroup_items_def GroupBy_rest_def split: list.splits)

context seq_next
begin

lemma SubGroup_next_step:
  assumes "GroupBy_inv items invar g"
  shows "\<exists>g'. SubGroup_next nxt g = Some (head_opt (SubGroup_items items g), g') \<and>
     GroupBy_inv items invar g' \<and> SubGroup_items items g' = tl (SubGroup_items items g) \<and>
     GroupBy_rest items g' = GroupBy_rest items g \<and> GroupBy_group_eq g' = GroupBy_group_eq g"
proof (cases "GroupBy_attached g")
  case False
  with assms show ?thesis by (auto simp: SubGroup_next_def GroupBy_defs)
next
  case True
  with assms obtain x where x: "GroupBy_next_item g = Some x" "invar (GroupBy_seq g)"
    by (auto simp: GroupBy_inv_def)
  show ?thesis
  proof (cases "items (GroupBy_seq g)")
    case Nil
    with x next_Nil obtain s where "nxt (GroupBy_seq g) = Some (None, s)" "invar s" "items s = []"
      by blast
    with x True Nil show ?thesis
      by (simp add: SubGroup_next_def sub_group_next_def GroupBy_defs Let_def)
  next
    case (Cons y ys)
    with x next_Cons obtain s where "nxt (GroupBy_seq g) = Some (Some y, s)" "invar s" "items s = ys"
      by blast
    with x True Cons show ?thesis
      by (cases "GroupBy_group_eq g x y")
        (simp_all add: SubGroup_next_def sub_group_next_def GroupBy_defs Let_def)
  qed
qed

lemma SubGroup_next_laws:
  "seq_laws (SubGroup_next nxt) (SubGroup_items items) (GroupBy_inv items invar) SubGroup_peek"
proof (unfold_locales, goal_cases)
  case (1 g)
  then show ?case using SubGroup_next_step by blast
next
  case (2 g)
  then show ?case
    by (auto simp: SubGroup_peek_def sub_group_peek_def GroupBy_defs split: option.splits)
qed

lemma SubGroup_keeps_rest:
  "seq_next (SubGroup_next nxt) (SubGroup_items items)
     (\<lambda>g. GroupBy_inv items invar g \<and> GroupBy_rest items g = r \<and> GroupBy_group_eq g = eq)"
proof (unfold_locales, goal_cases)
  case (1 g)
  then show ?case using SubGroup_next_step [of g] by auto
qed

lemma SubGroup_items_Nil: "GroupBy_inv items invar g \<Longrightarrow> SubGroup_items items g = [] \<Longrightarrow> \<not> GroupBy_attached g"
  by (auto simp: GroupBy_defs split: option.splits)

lemma GroupBy_detach_items:
  assumes "GroupBy_inv items invar g"
  shows "\<exists>d g'. GroupBy_detach nxt False g = Some (d, g') \<and> GroupBy_inv items invar g' \<and>
     \<not> GroupBy_attached g' \<and> GroupBy_all items g' = GroupBy_rest items g \<and>
     GroupBy_group_eq g' = GroupBy_group_eq g \<and> d = (if GroupBy_attached g then Some g else None)"
proof (cases "GroupBy_attached g")
  case False
  with assms show ?thesis by (auto simp: GroupBy_detach_def GroupBy_defs)
next
  case True
  obtain g' where g': "consume (SubGroup_next nxt) g = Some g'" "GroupBy_inv items invar g'"
      "GroupBy_rest items g' = GroupBy_rest items g" "GroupBy_group_eq g' = GroupBy_group_eq g"
      "SubGroup_items items g' = []"
    using seq_next.consume_items [OF SubGroup_keeps_rest, of g "GroupBy_rest items g" "GroupBy_group_eq g"]
      assms by auto
  then have "\<not> GroupBy_attached g'" using SubGroup_items_Nil by blast
  with g' True show ?thesis by (auto simp: GroupBy_detach_def GroupBy_rest_def)
qed

lemma GroupBy_next_items:
  assumes "GroupBy_inv items invar g"
  shows "\<exists>b d g'. GroupBy_next nxt g = Some (b, d, g') \<and> GroupBy_inv items invar g' \<and>
     b = (GroupBy_rest items g \<noteq> []) \<and>
     (if b then SubGroup_items items g' # group_list (GroupBy_group_eq g) (GroupBy_rest items g')
      else []) = group_list (GroupBy_group_eq g) (GroupBy_rest items g) \<and>
     GroupBy_group_eq g' = GroupBy_group_eq g \<and> d = (if GroupBy_attached g then Some g else None)"
proof -
  obtain d g1 where g1: "GroupBy_detach nxt False g = Some (d, g1)" "GroupBy_inv items invar g1"
      "\<not> GroupBy_attached g1" "GroupBy_all items g1 = GroupBy_rest items g"
      "GroupBy_group_eq g1 = GroupBy_group_eq g" "d = (if GroupBy_attached g then Some g else None)"
    using GroupBy_detach_items [OF assms] by blast
  show ?thesis
  proof (cases "GroupBy_next_item g1")
    case None
    with g1 have "GroupBy_rest items g = []" by (simp add: GroupBy_all_def)
    with None g1 show ?thesis by (auto simp: GroupBy_next_def)
  next
    case (Some x)
    then have all: "GroupBy_rest items g = x # items (GroupBy_seq g1)"
      using g1(4) by (simp add: GroupBy_all_def)
    let ?g = "g1\<lparr>GroupBy_attached := True\<rparr>"
    have "GroupBy_next nxt g = Some (True, d, ?g)" "GroupBy_inv items invar ?g"
        "SubGroup_items items ?g = x # take_run (GroupBy_group_eq g) x (items (GroupBy_seq g1))"
        "GroupBy_rest items ?g = drop_run (GroupBy_group_eq g) x (items (GroupBy_seq g1))"
      using Some g1(1,2,3,5) by (simp_all add: GroupBy_next_def GroupBy_defs)
    with all g1 show ?thesis by auto
  qed
qed

lemma group_by_init:
  assumes "invar s"
  shows "\<exists>g. group_by nxt eq s = Some g \<and> GroupBy_inv items invar g \<and> GroupBy_rest items g = items s \<and>
     GroupBy_group_eq g = eq"
  using next_law [OF assms] by (cases "items s") (auto simp: group_by_def GroupBy_defs)

end

subsection \<open>Properties\<close>

text \<open>
  C40 (refinement). \<^verbatim>\<open>GroupBy::next\<close> delivers the groups of the list function: however much of the
  current sub-group was read, the next call returns a sub-group exactly if items are left, that
  sub-group holds the longest run of adjacent related items, and the groups after it are those of
  the remaining items. A sub-group that was still attached is detached with its unread items.
\<close>

theorem GroupBy_refines_group_list:
  assumes "seq_next nxt items invar" and "GroupBy_inv items invar g"
  shows "\<exists>b d g'. GroupBy_next nxt g = Some (b, d, g') \<and> GroupBy_inv items invar g' \<and>
     b = (GroupBy_rest items g \<noteq> []) \<and>
     (if b then SubGroup_items items g' # group_list (GroupBy_group_eq g) (GroupBy_rest items g')
      else []) = group_list (GroupBy_group_eq g) (GroupBy_rest items g) \<and>
     GroupBy_group_eq g' = GroupBy_group_eq g \<and> d = (if GroupBy_attached g then Some g else None)"
  using seq_next.GroupBy_next_items [OF assms] .

theorem GroupBy_refines_group_list_witness:
  "\<exists>g g'. group_by range_next (=) (as_seq [1, 1, 2 :: nat]) = Some g \<and>
     GroupBy_next range_next g = Some (True, None, g') \<and>
     SubGroup_items SubRangeSeq_range g' = [1, 1] \<and> GroupBy_rest SubRangeSeq_range g' = [2]"
proof -
  obtain g where g: "group_by range_next (=) (as_seq [1, 1, 2 :: nat]) = Some g"
      "GroupBy_inv SubRangeSeq_range (\<lambda>_. True) g" "GroupBy_rest SubRangeSeq_range g = [1, 1, 2]"
      "GroupBy_group_eq g = (=)" "\<not> GroupBy_attached g"
    by (auto simp: group_by_def SubRangeSeq_next_def SubRangeSeq_peek_def as_seq_def GroupBy_defs)
  obtain g' where g': "GroupBy_next range_next g = Some (True, None, g')"
      "SubGroup_items SubRangeSeq_range g' # group_list (=) (GroupBy_rest SubRangeSeq_range g') = [[1, 1], [2]]"
    using GroupBy_refines_group_list [OF vec_seq.seq_next_axioms g(2)] g by auto
  then have "concat (group_list (=) (GroupBy_rest SubRangeSeq_range g')) = [2]" by simp
  then have "GroupBy_rest SubRangeSeq_range g' = [2]" by (simp add: concat_group_list)
  with g g' show ?thesis by auto
qed

text \<open>
  Reading an item of a sub-group never changes which items come after the group,
  and the sub-group followed by the rest is always the whole remaining sequence; so reading a
  group partly, fully or not at all leaves the following groups unchanged.
\<close>

theorem SubGroup_next_keeps_rest:
  assumes "seq_next nxt items invar" and "GroupBy_inv items invar g"
  shows "\<exists>g'. SubGroup_next nxt g = Some (head_opt (SubGroup_items items g), g') \<and>
     GroupBy_inv items invar g' \<and> SubGroup_items items g' = tl (SubGroup_items items g) \<and>
     GroupBy_rest items g' = GroupBy_rest items g"
  using seq_next.SubGroup_next_step [OF assms] by blast

theorem SubGroup_next_keeps_rest_witness:
  "\<exists>g'. SubGroup_next range_next \<lparr>GroupBy_attached = True, GroupBy_seq = as_seq [1, 2 :: nat],
       GroupBy_group_eq = (=), GroupBy_next_item = Some 1\<rparr> = Some (Some 1, g') \<and>
     GroupBy_rest SubRangeSeq_range g' = [2]"
  using SubGroup_next_keeps_rest [OF vec_seq.seq_next_axioms,
      of "\<lparr>GroupBy_attached = True, GroupBy_seq = as_seq [1, 2 :: nat],
       GroupBy_group_eq = (=), GroupBy_next_item = Some 1\<rparr>"]
  by (auto simp: GroupBy_defs)

end
