(* ===== verification/Batt_Watch.thy ===== *)
theory Batt_Watch
  imports Batt_Status
begin

section \<open>Watch: a value whose changes can be awaited\<close>

text \<open>
  Models the general class \<^verbatim>\<open>Watch<T>\<close> of \<^verbatim>\<open>src/src/batteries/async/watch_decl.hpp\<close>, which guards
  its state with a mutex. Each method has one critical section, followed by the invocation of the
  handlers it took out of the object, so a method is a function from the state to the handler
  invocations it makes and the new state, and a history is a list of calls. The lock-free variant
  for integers is modelled in \<open>Watch_Atomic\<close>.

  A handler is a number and, for the specification only, the \<^verbatim>\<open>last_seen\<close> argument of the
  \<^verbatim>\<open>async_wait\<close> call that registered it.
\<close>

datatype 'v handler = Handler (handler_id: nat) (last_seen: 'v)
type_synonym 'v invocation = "'v handler \<times> 'v StatusOr"

definition invoke_all_handlers :: "'v handler list \<Rightarrow> 'v StatusOr \<Rightarrow> 'v invocation list" where
  "invoke_all_handlers hs r = map (\<lambda>h. (h, r)) hs"

lemma invoke_all_handlers_simps [simp]:
  "invoke_all_handlers [] r = []"
  "map fst (invoke_all_handlers hs r) = hs"
  "image_mset fst (mset (invoke_all_handlers hs r)) = mset hs"
  "set (invoke_all_handlers hs r) = (\<lambda>h. (h, r)) ` set hs"
  by (simp_all add: invoke_all_handlers_def comp_def image_mset.compositionality)

subsection \<open>Watch with a mutex\<close>

record 'v Watch =
  Watch_closed :: bool
  Watch_value :: 'v
  Watch_observers :: "'v handler list"

definition Watch_init :: "'v \<Rightarrow> 'v Watch" where
  "Watch_init init_value = \<lparr>Watch_closed = False, Watch_value = init_value, Watch_observers = []\<rparr>"

definition Watch_close :: "'v Watch \<Rightarrow> 'v invocation list \<times> 'v Watch" where
  "Watch_close w =
     (let local_observers = Watch_observers w;
          w = w\<lparr>Watch_closed := True, Watch_observers := []\<rparr>
      in (invoke_all_handlers local_observers (Inl kClosed), w))"

definition Watch_set_value :: "'v \<Rightarrow> 'v Watch \<Rightarrow> 'v invocation list \<times> 'v Watch" where
  "Watch_set_value new_value w =
     (if new_value \<noteq> Watch_value w
      then (invoke_all_handlers (Watch_observers w) (Inr new_value),
            w\<lparr>Watch_value := new_value, Watch_observers := []\<rparr>)
      else ([], w))"

definition Watch_modify :: "('v \<Rightarrow> 'v) \<Rightarrow> 'v Watch \<Rightarrow> 'v \<times> 'v invocation list \<times> 'v Watch" where
  "Watch_modify fn w =
     (let new_value = fn (Watch_value w)
      in (if new_value \<noteq> Watch_value w
          then (new_value, invoke_all_handlers (Watch_observers w) (Inr new_value),
                w\<lparr>Watch_value := new_value, Watch_observers := []\<rparr>)
          else (new_value, [], w)))"

definition Watch_async_wait :: "'v handler \<Rightarrow> 'v Watch \<Rightarrow> 'v invocation list \<times> 'v Watch" where
  "Watch_async_wait h w =
     (if Watch_closed w then ([(h, Inl kClosed)], w)
      else if Watch_value w = last_seen h \<and> \<not> Watch_closed w
      then ([], w\<lparr>Watch_observers := Watch_observers w @ [h]\<rparr>)
      else ([(h, Inr (Watch_value w))], w))"

definition Watch_clamp_min_value ::
    "('v \<Rightarrow> 'v \<Rightarrow> bool) \<Rightarrow> 'v \<Rightarrow> 'v Watch \<Rightarrow> 'v invocation list \<times> 'v Watch" where
  "Watch_clamp_min_value order_fn lower_bound w =
     snd (Watch_modify (\<lambda>observed. if order_fn observed lower_bound then lower_bound else observed) w)"

definition Watch_clamp_max_value ::
    "('v \<Rightarrow> 'v \<Rightarrow> bool) \<Rightarrow> 'v \<Rightarrow> 'v Watch \<Rightarrow> 'v invocation list \<times> 'v Watch" where
  "Watch_clamp_max_value order_fn upper_bound w =
     snd (Watch_modify (\<lambda>observed. if order_fn upper_bound observed then upper_bound else observed) w)"

text \<open>A history of calls on one object, with all the handler invocations in order.\<close>

datatype 'v Watch_call =
    Watch_Close | Watch_Set 'v | Watch_Modify "'v \<Rightarrow> 'v" | Watch_Wait "'v handler"
  | Watch_Clamp_min "'v \<Rightarrow> 'v \<Rightarrow> bool" 'v | Watch_Clamp_max "'v \<Rightarrow> 'v \<Rightarrow> bool" 'v

fun Watch_exec :: "'v Watch_call \<Rightarrow> 'v Watch \<Rightarrow> 'v invocation list \<times> 'v Watch" where
  "Watch_exec Watch_Close w = Watch_close w"
| "Watch_exec (Watch_Set v) w = Watch_set_value v w"
| "Watch_exec (Watch_Modify fn) w = snd (Watch_modify fn w)"
| "Watch_exec (Watch_Wait h) w = Watch_async_wait h w"
| "Watch_exec (Watch_Clamp_min lt b) w = Watch_clamp_min_value lt b w"
| "Watch_exec (Watch_Clamp_max lt b) w = Watch_clamp_max_value lt b w"

fun Watch_run :: "'v Watch_call list \<Rightarrow> 'v Watch \<Rightarrow> 'v invocation list \<times> 'v Watch" where
  "Watch_run [] w = ([], w)"
| "Watch_run (c # cs) w =
     (case Watch_exec c w of (inv1, w1) \<Rightarrow>
        case Watch_run cs w1 of (inv2, w2) \<Rightarrow> (inv1 @ inv2, w2))"

fun waits_of :: "'v Watch_call list \<Rightarrow> 'v handler list" where
  "waits_of [] = []"
| "waits_of (Watch_Wait h # cs) = h # waits_of cs"
| "waits_of (_ # cs) = waits_of cs"

definition Watch_inv :: "'v Watch \<Rightarrow> bool" where
  "Watch_inv w \<longleftrightarrow> (\<forall>h \<in> set (Watch_observers w). last_seen h = Watch_value w) \<and>
     (Watch_closed w \<longrightarrow> Watch_observers w = [])"

definition fresh_value :: "'v invocation \<Rightarrow> bool" where
  "fresh_value i \<longleftrightarrow> (case snd i of Inl e \<Rightarrow> e = kClosed | Inr v \<Rightarrow> v \<noteq> last_seen (fst i))"

lemmas Watch_defs = Watch_close_def Watch_set_value_def Watch_modify_def Watch_async_wait_def
  Watch_clamp_min_value_def Watch_clamp_max_value_def Let_def

lemma Watch_exec_inv:
  assumes "Watch_inv w" and "Watch_exec c w = (invs, w')"
  shows "Watch_inv w' \<and> (\<forall>i \<in> set invs. fresh_value i)"
  using assms
  by (cases c) (fastforce simp: Watch_defs Watch_inv_def fresh_value_def split: if_splits)+

lemma Watch_exec_handlers:
  assumes "Watch_exec c w = (invs, w')"
  shows "mset (map fst invs) + mset (Watch_observers w') =
     mset (Watch_observers w) + mset (waits_of [c])"
  using assms by (cases c) (auto simp: Watch_defs split: if_splits)

lemma Watch_run_inv:
  assumes "Watch_inv w" and "Watch_run cs w = (invs, w')"
  shows "Watch_inv w' \<and> (\<forall>i \<in> set invs. fresh_value i)"
  using assms
  by (induction cs arbitrary: w invs w') (fastforce dest: Watch_exec_inv split: prod.splits)+

lemma waits_of_Cons: "waits_of (c # cs) = waits_of [c] @ waits_of cs"
  by (cases c) auto

lemma Watch_run_handlers:
  assumes "Watch_run cs w = (invs, w')"
  shows "mset (map fst invs) + mset (Watch_observers w') =
     mset (Watch_observers w) + mset (waits_of cs)"
  using assms
proof (induction cs arbitrary: w invs w')
  case (Cons c cs)
  obtain i1 w1 where 1: "Watch_exec c w = (i1, w1)" by fastforce
  obtain i2 w2 where 2: "Watch_run cs w1 = (i2, w2)" by fastforce
  from Cons.prems 1 2 have "invs = i1 @ i2" "w' = w2" by auto
  with Cons.IH [OF 2] Watch_exec_handlers [OF 1] waits_of_Cons [of c cs] show ?case
    by (simp add: add.assoc)
qed simp

subsection \<open>Properties\<close>

text \<open>
  For every history of calls on a \<^verbatim>\<open>Watch<T>\<close>: each handler that is invoked with a
  value gets one that differs from the \<^verbatim>\<open>last_seen\<close> it was registered with, and the only error is
  \<^verbatim>\<open>kClosed\<close>; each handler passed to \<^verbatim>\<open>async_wait\<close> was invoked once or is still waiting; the waiting
  ones have all seen the current value; and none waits on a closed watch.
\<close>

theorem Watch_history:
  assumes "Watch_run cs (Watch_init v) = (invs, w)"
  shows "(\<forall>i \<in> set invs. fresh_value i) \<and>
     mset (map fst invs) + mset (Watch_observers w) = mset (waits_of cs) \<and>
     (\<forall>h \<in> set (Watch_observers w). last_seen h = Watch_value w) \<and>
     (Watch_closed w \<longrightarrow> Watch_observers w = [])"
  using Watch_run_inv [OF _ assms] Watch_run_handlers [OF assms]
  by (simp add: Watch_inv_def Watch_init_def)

theorem Watch_history_witness:
  "Watch_run [Watch_Wait (Handler 1 (0::nat)), Watch_Set 5, Watch_Wait (Handler 2 5), Watch_Close] (Watch_init 0) =
     ([(Handler 1 0, Inr 5), (Handler 2 5, Inl kClosed)],
      \<lparr>Watch_closed = True, Watch_value = 5, Watch_observers = []\<rparr>) \<and>
   fresh_value (Handler 1 (0::nat), Inr 5) \<and> fresh_value (Handler 2 (5::nat), Inl kClosed)"
proof -
  have run: "Watch_run [Watch_Wait (Handler 1 (0::nat)), Watch_Set 5, Watch_Wait (Handler 2 5), Watch_Close] (Watch_init 0) =
     ([(Handler 1 0, Inr 5), (Handler 2 5, Inl kClosed)],
      \<lparr>Watch_closed = True, Watch_value = 5, Watch_observers = []\<rparr>)"
    by (simp add: Watch_defs Watch_init_def invoke_all_handlers_def)
  from Watch_history [OF this] run show ?thesis by simp
qed

end
