(* ===== verification/Watch_Atomic.thy ===== *)
theory Watch_Atomic
  imports Batt_Watch
begin

section \<open>WatchAtomic: the lock-free Watch of an integer\<close>

text \<open>
  Models class \<^verbatim>\<open>WatchAtomic\<close> of \<^verbatim>\<open>src/src/batteries/async/watch_decl.hpp\<close> by small steps, one for
  each access to an atomic variable or to the handler list, for any number of threads that run
  calls on one object in any interleaving. The invariant \<open>watch_system_inv\<close> says that the spin bit
  gives mutual exclusion, that a state word captured under the lock is still current when it is
  written back, and that a waiting handler whose \<^verbatim>\<open>last_seen\<close> is no longer the value has a
  notifier on its way. The memory model is sequential consistency, which is what the default
  ordering of \<^verbatim>\<open>std::atomic\<close> gives.
\<close>

subsection \<open>WatchAtomic: state word and thread-local control points\<close>

unbundle bit_operations_syntax

definition kLocked :: u32 where "kLocked = 0x01"
definition kOpen :: u32 where "kOpen = 0x02"
definition kWaiting :: u32 where "kWaiting = 0x04"
definition kClosedAtEnd :: u32 where "kClosedAtEnd = 0x08"
definition kClosedBeforeEnd :: u32 where "kClosedBeforeEnd = 0x10"

lemmas spin_bits = kLocked_def kOpen_def kWaiting_def kClosedAtEnd_def kClosedBeforeEnd_def

record 'v WatchAtomic =
  WatchAtomic_value :: "'v"
  WatchAtomic_spin_state :: u32
  WatchAtomic_observers :: "'v handler list"

definition WatchAtomic_init :: "'v \<Rightarrow> 'v WatchAtomic" where
  "WatchAtomic_init init_value =
     \<lparr>WatchAtomic_value = init_value, WatchAtomic_spin_state = kOpen, WatchAtomic_observers = []\<rparr>"

definition WatchAtomic_is_closed :: "'v WatchAtomic \<Rightarrow> bool" where
  "WatchAtomic_is_closed w \<longleftrightarrow> WatchAtomic_spin_state w AND kOpen = 0"

definition get_final_status :: "u32 \<Rightarrow> StatusCode" where
  "get_final_status spin_state =
     (let m = spin_state AND (kClosedAtEnd OR kClosedBeforeEnd)
      in if m = kClosedBeforeEnd then kClosedBeforeEndOfStream
         else if m = kClosedAtEnd then kEndOfStream
         else kClosed)"

definition close_desired_state :: "StatusCode \<Rightarrow> u32 \<Rightarrow> u32" where
  "close_desired_state final_status_code prior_state =
     (prior_state AND NOT (kOpen OR kWaiting)) OR
     (if prior_state AND kOpen \<noteq> kOpen then 0
      else if final_status_code = kEndOfStream then kClosedAtEnd
      else if final_status_code = kClosedBeforeEndOfStream then kClosedBeforeEnd
      else 0)"

text \<open>
  The control points of a thread inside a call. \<open>Done r\<close> is a thread whose last call returned
  \<open>r\<close>. The points named after \<^verbatim>\<open>notify\<close>, \<^verbatim>\<open>async_wait\<close> and \<^verbatim>\<open>close\<close> carry the local variables
  that are still needed: the observed \<^verbatim>\<open>prior_state\<close>, the handlers moved to a local list, the
  value to return.
\<close>

datatype 'v pc =
    Done "'v option"
  | Fetch "'v \<Rightarrow> 'v"
  | Modify_load "'v \<Rightarrow> 'v"
  | Modify_cas "'v \<Rightarrow> 'v" "'v" bool
  | ModifyIf_load "'v \<Rightarrow> 'v option"
  | ModifyIf_cas "'v \<Rightarrow> 'v option" "'v" bool
  | Notify_load "'v" "'v option"
  | Notify_lock "'v" "'v option"
  | Notify_locked "'v" "'v option" u32
  | Notify_unlock "'v" "'v option" u32 "'v handler list"
  | Wait_load "'v handler"
  | Wait_lock "'v handler"
  | Wait_locked "'v handler" u32
  | Wait_unlock_closed "'v handler" u32
  | Wait_final "'v handler"
  | Wait_load2 "'v handler" u32
  | Wait_push "'v handler" u32
  | Wait_unlock u32 "('v handler \<times> 'v) option"
  | Close_lock StatusCode
  | Close_locked StatusCode u32
  | Close_unlock u32 "'v handler list"
  | Close_final "'v handler list"
  | Invoke "'v handler list" "'v StatusOr" "'v option"

text \<open>\<^verbatim>\<open>lock_observers\<close>: one iteration of the spin loop; \<open>Some\<close> is the value it returns.\<close>

definition lock_observers :: "'v WatchAtomic \<Rightarrow> u32 option \<times> 'v WatchAtomic" where
  "lock_observers w =
     (let prior_state = WatchAtomic_spin_state w;
          w = w\<lparr>WatchAtomic_spin_state := prior_state OR kLocked\<rparr>
      in (if prior_state AND kLocked = 0 then Some prior_state else None, w))"

definition unlock_observers :: "u32 \<Rightarrow> 'v WatchAtomic \<Rightarrow> 'v WatchAtomic" where
  "unlock_observers desired_state w = w\<lparr>WatchAtomic_spin_state := desired_state AND NOT kLocked\<rparr>"

text \<open>
  One atomic step of a thread. \<open>spurious\<close> lets \<^verbatim>\<open>compare_exchange_weak\<close> fail although the value
  matches.
\<close>

fun thread_step :: "bool \<Rightarrow> 'v pc \<Rightarrow> 'v WatchAtomic \<Rightarrow>
    'v pc \<times> 'v WatchAtomic \<times> 'v invocation list" where
  "thread_step spurious (Done r) w = (Done r, w, [])"
| "thread_step spurious (Fetch f) w =
     (let old_value = WatchAtomic_value w; new_value = f old_value;
          w = w\<lparr>WatchAtomic_value := new_value\<rparr>
      in (if old_value \<noteq> new_value then Notify_load new_value (Some old_value)
          else Done (Some old_value), w, []))"
| "thread_step spurious (Modify_load fn) w = (Modify_cas fn (WatchAtomic_value w) False, w, [])"
| "thread_step spurious (Modify_cas fn old_value changed) w =
     (let modified_value = fn old_value; changed = (changed \<or> modified_value \<noteq> old_value)
      in if WatchAtomic_value w = old_value \<and> \<not> spurious
         then (if changed then Notify_load modified_value (Some old_value) else Done (Some old_value),
               w\<lparr>WatchAtomic_value := modified_value\<rparr>, [])
         else (Modify_cas fn (WatchAtomic_value w) changed, w, []))"
| "thread_step spurious (ModifyIf_load fn) w = (ModifyIf_cas fn (WatchAtomic_value w) False, w, [])"
| "thread_step spurious (ModifyIf_cas fn old_value changed) w =
     (case fn old_value of
        None \<Rightarrow> (Done None, w, [])
      | Some modified_value \<Rightarrow>
          (let changed = (changed \<or> modified_value \<noteq> old_value)
           in if WatchAtomic_value w = old_value \<and> \<not> spurious
              then (if changed then Notify_load modified_value (Some old_value) else Done (Some old_value),
                    w\<lparr>WatchAtomic_value := modified_value\<rparr>, [])
              else (ModifyIf_cas fn (WatchAtomic_value w) changed, w, [])))"
| "thread_step spurious (Notify_load v r) w =
     (if WatchAtomic_spin_state w AND (kLocked OR kWaiting) = 0 then (Done r, w, [])
      else (Notify_lock v r, w, []))"
| "thread_step spurious (Notify_lock v r) w =
     (case lock_observers w of
        (Some pre_lock_state, w) \<Rightarrow> (Notify_locked v r pre_lock_state, w, [])
      | (None, w) \<Rightarrow> (Notify_lock v r, w, []))"
| "thread_step spurious (Notify_locked v r pre_lock_state) w =
     (Notify_unlock v r pre_lock_state (WatchAtomic_observers w), w\<lparr>WatchAtomic_observers := []\<rparr>, [])"
| "thread_step spurious (Notify_unlock v r pre_lock_state hs) w =
     (Invoke hs (Inr v) r, unlock_observers (pre_lock_state AND NOT kWaiting) w, [])"
| "thread_step spurious (Wait_load h) w =
     (if WatchAtomic_value w \<noteq> last_seen h then (Invoke [h] (Inr (WatchAtomic_value w)) None, w, [])
      else (Wait_lock h, w, []))"
| "thread_step spurious (Wait_lock h) w =
     (case lock_observers w of
        (Some prior_state, w) \<Rightarrow> (Wait_locked h prior_state, w, [])
      | (None, w) \<Rightarrow> (Wait_lock h, w, []))"
| "thread_step spurious (Wait_locked h prior_state) w =
     (if prior_state AND kOpen = 0 then (Wait_unlock_closed h prior_state, w, [])
      else (Wait_load2 h prior_state, w, []))"
| "thread_step spurious (Wait_unlock_closed h prior_state) w =
     (Wait_final h, unlock_observers prior_state w, [])"
| "thread_step spurious (Wait_final h) w =
     (Invoke [h] (Inl (get_final_status (WatchAtomic_spin_state w))) None, w, [])"
| "thread_step spurious (Wait_load2 h prior_state) w =
     (if WatchAtomic_value w \<noteq> last_seen h
      then (Wait_unlock prior_state (Some (h, WatchAtomic_value w)), w, [])
      else (Wait_push h prior_state, w, []))"
| "thread_step spurious (Wait_push h prior_state) w =
     (Wait_unlock (prior_state OR kWaiting) None,
      w\<lparr>WatchAtomic_observers := WatchAtomic_observers w @ [h]\<rparr>, [])"
| "thread_step spurious (Wait_unlock state now_seen) w =
     (case now_seen of None \<Rightarrow> Done None | Some (h, v) \<Rightarrow> Invoke [h] (Inr v) None,
      unlock_observers state w, [])"
| "thread_step spurious (Close_lock code) w =
     (case lock_observers w of
        (Some prior_state, w) \<Rightarrow> (Close_locked code prior_state, w, [])
      | (None, w) \<Rightarrow> (Close_lock code, w, []))"
| "thread_step spurious (Close_locked code prior_state) w =
     (Close_unlock (close_desired_state code prior_state) (WatchAtomic_observers w),
      w\<lparr>WatchAtomic_observers := []\<rparr>, [])"
| "thread_step spurious (Close_unlock desired_state hs) w =
     (Close_final hs, unlock_observers desired_state w, [])"
| "thread_step spurious (Close_final hs) w =
     (Invoke hs (Inl (get_final_status (WatchAtomic_spin_state w))) None, w, [])"
| "thread_step spurious (Invoke [] res r) w = (Done r, w, [])"
| "thread_step spurious (Invoke (h # hs) res r) w = (Invoke hs res r, w, [(h, res)])"

text \<open>The public calls and the control point at which each begins.\<close>

datatype 'v call =
    Call_set_value "'v" | Call_fetch_add "'v" | Call_fetch_or "'v"
  | Call_fetch_sub "'v" | Call_fetch_and "'v"
  | Call_modify "'v \<Rightarrow> 'v" | Call_modify_if "'v \<Rightarrow> 'v option"
  | Call_clamp_min_value "'v" | Call_clamp_max_value "'v"
  | Call_async_wait "'v handler" | Call_close StatusCode

fun call_entry :: "'w::len word call \<Rightarrow> 'w word pc" where
  "call_entry (Call_set_value new_value) = Fetch (\<lambda>_. new_value)"
| "call_entry (Call_fetch_add arg) = Fetch (\<lambda>v. v + arg)"
| "call_entry (Call_fetch_or arg) = Fetch (\<lambda>v. v OR arg)"
| "call_entry (Call_fetch_sub arg) = Fetch (\<lambda>v. v - arg)"
| "call_entry (Call_fetch_and arg) = Fetch (\<lambda>v. v AND arg)"
| "call_entry (Call_modify fn) = Modify_load fn"
| "call_entry (Call_modify_if fn) = ModifyIf_load fn"
| "call_entry (Call_clamp_min_value lower_bound) =
     Modify_load (\<lambda>observed. if observed < lower_bound then lower_bound else observed)"
| "call_entry (Call_clamp_max_value upper_bound) =
     Modify_load (\<lambda>observed. if upper_bound < observed then upper_bound else observed)"
| "call_entry (Call_async_wait h) = Wait_load h"
| "call_entry (Call_close code) = Close_lock code"

subsection \<open>Any number of threads on one WatchAtomic\<close>

text \<open>
  The log holds the handler invocations in the order in which they happen; \<open>sys_waits\<close> records
  the handlers that were passed to \<^verbatim>\<open>async_wait\<close>.
\<close>

record 'v watch_system =
  sys_watch :: "'v WatchAtomic"
  sys_threads :: "'v pc list"
  sys_log :: "'v invocation list"
  sys_waits :: "'v handler list"

fun wait_of_call :: "'v call \<Rightarrow> 'v handler list" where
  "wait_of_call (Call_async_wait h) = [h]"
| "wait_of_call _ = []"

definition sys_begin :: "nat \<Rightarrow> 'w::len word call \<Rightarrow> 'w word watch_system \<Rightarrow> 'w word watch_system" where
  "sys_begin i c s =
     s\<lparr>sys_threads := (sys_threads s)[i := call_entry c], sys_waits := sys_waits s @ wait_of_call c\<rparr>"

definition sys_run :: "nat \<Rightarrow> bool \<Rightarrow> 'v watch_system \<Rightarrow> 'v watch_system" where
  "sys_run i spurious s =
     (case thread_step spurious (sys_threads s ! i) (sys_watch s) of (p, w, invs) \<Rightarrow>
        s\<lparr>sys_watch := w, sys_threads := (sys_threads s)[i := p], sys_log := sys_log s @ invs\<rparr>)"

definition sys_init :: "'v \<Rightarrow> nat \<Rightarrow> 'v watch_system" where
  "sys_init init_value n =
     \<lparr>sys_watch = WatchAtomic_init init_value, sys_threads = replicate n (Done None),
      sys_log = [], sys_waits = []\<rparr>"

inductive watch_step :: "'w::len word watch_system \<Rightarrow> 'w word watch_system \<Rightarrow> bool" where
  begin_call: "i < length (sys_threads s) \<Longrightarrow> sys_threads s ! i = Done r \<Longrightarrow>
     watch_step s (sys_begin i c s)"
| run_thread: "i < length (sys_threads s) \<Longrightarrow> watch_step s (sys_run i spurious s)"

inductive watch_reachable :: "'w::len word \<Rightarrow> nat \<Rightarrow> 'w word watch_system \<Rightarrow> bool"
  for init_value n where
  reach_init: "watch_reachable init_value n (sys_init init_value n)"
| reach_step: "watch_reachable init_value n s \<Longrightarrow> watch_step s s' \<Longrightarrow> watch_reachable init_value n s'"

fun is_Done :: "'v pc \<Rightarrow> bool" where
  "is_Done (Done _) = True"
| "is_Done _ = False"

definition all_done :: "'v watch_system \<Rightarrow> bool" where
  "all_done s \<longleftrightarrow> (\<forall>p \<in> set (sys_threads s). is_Done p)"

subsubsection \<open>The invariant\<close>

fun holds_lock :: "'v pc \<Rightarrow> bool" where
  "holds_lock (Notify_locked _ _ _) = True"
| "holds_lock (Notify_unlock _ _ _ _) = True"
| "holds_lock (Wait_locked _ _) = True"
| "holds_lock (Wait_unlock_closed _ _) = True"
| "holds_lock (Wait_load2 _ _) = True"
| "holds_lock (Wait_push _ _) = True"
| "holds_lock (Wait_unlock _ _) = True"
| "holds_lock (Close_locked _ _) = True"
| "holds_lock (Close_unlock _ _) = True"
| "holds_lock _ = False"

text \<open>A thread that has changed the value and will still look at the handler list.\<close>

fun notify_pending :: "'v pc \<Rightarrow> bool" where
  "notify_pending (Notify_load _ _) = True"
| "notify_pending (Notify_lock _ _) = True"
| "notify_pending (Notify_locked _ _ _) = True"
| "notify_pending _ = False"

definition captured :: "u32 \<Rightarrow> 'v WatchAtomic \<Rightarrow> bool" where
  "captured prior_state w \<longleftrightarrow> WatchAtomic_spin_state w = prior_state OR kLocked \<and>
     (WatchAtomic_observers w \<noteq> [] \<longrightarrow> bit prior_state 2)"

fun local_ok :: "'v WatchAtomic \<Rightarrow> bool \<Rightarrow> 'v pc \<Rightarrow> bool" where
  "local_ok w pending (Notify_locked _ _ p) = captured p w"
| "local_ok w pending (Notify_unlock _ _ p _) = (captured p w \<and> WatchAtomic_observers w = [])"
| "local_ok w pending (Wait_locked _ p) = captured p w"
| "local_ok w pending (Wait_unlock_closed _ p) = captured p w"
| "local_ok w pending (Wait_load2 _ p) = (captured p w \<and> bit p 1)"
| "local_ok w pending (Wait_push h p) =
     (captured p w \<and> bit p 1 \<and> (last_seen h = WatchAtomic_value w \<or> pending))"
| "local_ok w pending (Wait_unlock p None) =
     (bit p 1 \<and> bit p 2 \<and> WatchAtomic_spin_state w OR kWaiting = p OR kLocked)"
| "local_ok w pending (Wait_unlock p (Some _)) = captured p w"
| "local_ok w pending (Close_locked _ p) = captured p w"
| "local_ok w pending (Close_unlock d _) =
     (WatchAtomic_observers w = [] \<and> \<not> bit d 1 \<and>
      (\<not> bit (WatchAtomic_spin_state w) 1 \<longrightarrow>
         d AND (kClosedAtEnd OR kClosedBeforeEnd) =
         WatchAtomic_spin_state w AND (kClosedAtEnd OR kClosedBeforeEnd)))"
| "local_ok w pending _ = True"

definition any_pending :: "'v pc list \<Rightarrow> bool" where
  "any_pending ts \<longleftrightarrow> (\<exists>p \<in> set ts. notify_pending p)"

definition watch_ok :: "'v WatchAtomic \<Rightarrow> bool \<Rightarrow> bool" where
  "watch_ok w pending \<longleftrightarrow>
     (\<forall>h \<in> set (WatchAtomic_observers w). last_seen h = WatchAtomic_value w \<or> pending) \<and>
     (WatchAtomic_observers w \<noteq> [] \<longrightarrow>
        bit (WatchAtomic_spin_state w) 1 \<and>
        (bit (WatchAtomic_spin_state w) 0 \<or> bit (WatchAtomic_spin_state w) 2))"

definition watch_system_inv :: "'v watch_system \<Rightarrow> bool" where
  "watch_system_inv s \<longleftrightarrow>
     (let ts = sys_threads s; w = sys_watch s in
      (\<forall>i < length ts. \<forall>j < length ts. holds_lock (ts ! i) \<longrightarrow> holds_lock (ts ! j) \<longrightarrow> i = j) \<and>
      (bit (WatchAtomic_spin_state w) 0 \<longleftrightarrow> (\<exists>i < length ts. holds_lock (ts ! i))) \<and>
      (\<forall>i < length ts. local_ok w (any_pending ts) (ts ! i)) \<and>
      watch_ok w (any_pending ts))"

subsubsection \<open>The bits of the state word\<close>

lemma word_eq_iff_bits: "(a::'w::len word) = b \<longleftrightarrow> (\<forall>n < LENGTH('w). bit a n = bit b n)"
  by (auto intro: bit_word_eqI)

lemma bit_one_two_four [simp]:
  "bit kLocked n \<longleftrightarrow> n = 0" "bit kOpen n \<longleftrightarrow> n = 1" "bit kWaiting n \<longleftrightarrow> n = 2"
  "bit kClosedAtEnd n \<longleftrightarrow> n = 3" "bit kClosedBeforeEnd n \<longleftrightarrow> n = 4"
proof -
  have "bit ((2::u32) ^ m) n \<longleftrightarrow> n = m" if "m < 32" for m
    using that by (auto simp: bit_exp_iff)
  from this [of 0] this [of 1] this [of 2] this [of 3] this [of 4]
  show "bit kLocked n \<longleftrightarrow> n = 0" "bit kOpen n \<longleftrightarrow> n = 1" "bit kWaiting n \<longleftrightarrow> n = 2"
    "bit kClosedAtEnd n \<longleftrightarrow> n = 3" "bit kClosedBeforeEnd n \<longleftrightarrow> n = 4"
    by (simp_all add: spin_bits)
qed

lemma spin_bit [simp]:
  fixes s :: u32
  shows "bit (s OR kLocked) n \<longleftrightarrow> bit s n \<or> n = 0"
  and "bit (s OR kWaiting) n \<longleftrightarrow> bit s n \<or> n = 2"
  and "bit (s AND NOT kLocked) n \<longleftrightarrow> bit s n \<and> n \<noteq> 0"
  and "bit (s AND NOT kWaiting) n \<longleftrightarrow> bit s n \<and> n \<noteq> 2"
  by (auto simp: bit_or_iff bit_and_iff bit_not_iff dest: bit_imp_le_length)

lemma and_single_bit:
  fixes s k :: u32
  assumes "\<And>n. bit k n \<longleftrightarrow> n = m" and "m < 32"
  shows "s AND k = (if bit s m then k else 0)"
  using assms by (auto simp: word_eq_iff_bits bit_and_iff)

lemma kConst_nonzero [simp]: "kLocked \<noteq> 0" "kOpen \<noteq> 0" "kWaiting \<noteq> 0" "kLocked OR kWaiting \<noteq> 0"
  by (simp_all add: spin_bits)

lemma and_pow: "(s AND kLocked = 0) \<longleftrightarrow> \<not> bit s 0" "(s AND kOpen = 0) \<longleftrightarrow> \<not> bit s 1"
  "(s AND kOpen = kOpen) \<longleftrightarrow> bit s 1"
  "(s AND (kLocked OR kWaiting) = 0) \<longleftrightarrow> \<not> bit s 0 \<and> \<not> bit s 2"
  using and_single_bit [of kLocked 0 s] and_single_bit [of kOpen 1 s] and_single_bit [of kWaiting 2 s]
  by (auto simp: bit.conj_disj_distrib)

lemma lock_idem [simp]: "bit s 0 \<Longrightarrow> s OR kLocked = s"
  by (auto simp: word_eq_iff_bits)

lemma lock_observers_eq: "lock_observers w =
   (if bit (WatchAtomic_spin_state w) 0 then (None, w)
    else (Some (WatchAtomic_spin_state w), w\<lparr>WatchAtomic_spin_state := WatchAtomic_spin_state w OR kLocked\<rparr>))"
  by (simp add: lock_observers_def and_pow Let_def)

subsubsection \<open>Steps preserve the invariant\<close>

text \<open>A thread that does not own the lock, while another one does, changes neither word nor list.\<close>

lemma step_outside_lock:
  assumes "thread_step sp p w = (p', w', invs)" and "\<not> holds_lock p"
    and "bit (WatchAtomic_spin_state w) 0"
  shows "\<not> holds_lock p' \<and> WatchAtomic_spin_state w' = WatchAtomic_spin_state w \<and>
    WatchAtomic_observers w' = WatchAtomic_observers w \<and>
    (WatchAtomic_value w' = WatchAtomic_value w \<or> notify_pending p') \<and>
    (notify_pending p \<longrightarrow> notify_pending p')"
proof (cases p)
  case (Invoke hs r x)
  with assms show ?thesis by (cases hs) auto
qed (use assms in \<open>auto simp: lock_observers_eq and_pow Let_def split: if_splits option.splits\<close>)


lemma step_free:
  assumes "thread_step sp p w = (p', w', invs)" and "\<not> holds_lock p"
    and "\<not> bit (WatchAtomic_spin_state w) 0" and "watch_ok w pending"
  shows "WatchAtomic_observers w' = WatchAtomic_observers w \<and>
    (WatchAtomic_value w' = WatchAtomic_value w \<or> notify_pending p') \<and>
    (if holds_lock p' then WatchAtomic_spin_state w' = WatchAtomic_spin_state w OR kLocked \<and>
       notify_pending p' = notify_pending p \<and> local_ok w' pending' p'
     else WatchAtomic_spin_state w' = WatchAtomic_spin_state w \<and> local_ok w' pending' p' \<and>
       (notify_pending p \<longrightarrow> notify_pending p' \<or> WatchAtomic_observers w = []))"
proof (cases p)
  case (Invoke hs r x)
  with assms show ?thesis by (cases hs) auto
qed (use assms in \<open>auto simp: lock_observers_eq and_pow Let_def watch_ok_def captured_def
      split: if_splits option.splits\<close>)

lemma final_bits [simp]:
  "(s OR kLocked) AND (kClosedAtEnd OR kClosedBeforeEnd) = s AND (kClosedAtEnd OR kClosedBeforeEnd)"
  "(s OR kWaiting) AND (kClosedAtEnd OR kClosedBeforeEnd) = s AND (kClosedAtEnd OR kClosedBeforeEnd)"
  "(s AND NOT kLocked) AND (kClosedAtEnd OR kClosedBeforeEnd) = s AND (kClosedAtEnd OR kClosedBeforeEnd)"
  "(s AND NOT kWaiting) AND (kClosedAtEnd OR kClosedBeforeEnd) = s AND (kClosedAtEnd OR kClosedBeforeEnd)"
  by (auto simp: word_eq_iff_bits bit_and_iff bit_or_iff bit_not_iff)

lemma close_desired_state_bits:
  "\<not> bit (close_desired_state code prior) (Suc 0)"
  "\<not> bit prior (Suc 0) \<Longrightarrow> close_desired_state code prior AND (kClosedAtEnd OR kClosedBeforeEnd) =
     prior AND (kClosedAtEnd OR kClosedBeforeEnd)"
  unfolding close_desired_state_def and_pow
  by (auto simp: word_eq_iff_bits bit_and_iff bit_or_iff bit_not_iff)

lemma step_holder:
  assumes "thread_step sp p w = (p', w', invs)" and "holds_lock p"
    and "bit (WatchAtomic_spin_state w) 0" and "watch_ok w (q \<or> notify_pending p)"
    and "local_ok w (q \<or> notify_pending p) p"
  shows "WatchAtomic_value w' = WatchAtomic_value w \<and>
    (bit (WatchAtomic_spin_state w') 0 \<longleftrightarrow> holds_lock p') \<and>
    local_ok w' (q \<or> notify_pending p') p' \<and> watch_ok w' (q \<or> notify_pending p')"
proof (cases p)
  case (Wait_unlock st r)
  have st: "bit st n \<longleftrightarrow> bit (WatchAtomic_spin_state w) n" if "r = None" "n \<noteq> 0" "n \<noteq> 2" for n
  proof -
    have "WatchAtomic_spin_state w OR kWaiting = st OR kLocked"
      using assms(5) Wait_unlock that by simp
    then have "bit (WatchAtomic_spin_state w OR kWaiting) n = bit (st OR kLocked) n" by simp
    with that show ?thesis by simp
  qed
  show ?thesis using assms Wait_unlock st [of 1]
    by (cases r) (auto simp: watch_ok_def captured_def unlock_observers_def)
next
  case (Wait_push h prior)
  then show ?thesis using assms
    by (auto simp: watch_ok_def captured_def or.assoc or.commute [of kLocked])
qed (use assms in \<open>auto simp: and_pow Let_def watch_ok_def captured_def unlock_observers_def
      close_desired_state_bits split: if_splits option.splits\<close>)


definition others_pending :: "nat \<Rightarrow> 'v pc list \<Rightarrow> bool" where
  "others_pending i ts \<longleftrightarrow> (\<exists>j < length ts. j \<noteq> i \<and> notify_pending (ts ! j))"

lemma any_pending_others:
  assumes "i < length ts"
  shows "any_pending ts \<longleftrightarrow> others_pending i ts \<or> notify_pending (ts ! i)"
    and "any_pending (ts[i := p]) \<longleftrightarrow> others_pending i ts \<or> notify_pending p"
  using assms unfolding any_pending_def others_pending_def Bex_def in_set_conv_nth
  by (auto simp: nth_list_update)

lemma local_ok_free [simp]: "\<not> holds_lock p \<Longrightarrow> local_ok w q p"
  by (cases p) auto

lemma local_ok_mono:
  assumes "local_ok w q p" and "WatchAtomic_spin_state w' = WatchAtomic_spin_state w"
    and "WatchAtomic_observers w' = WatchAtomic_observers w"
    and "WatchAtomic_value w' = WatchAtomic_value w \<or> q'" and "q \<longrightarrow> q'"
  shows "local_ok w' q' p"
proof (cases p)
  case (Wait_unlock st r)
  with assms show ?thesis by (cases r) (auto simp: captured_def)
qed (use assms in \<open>auto simp: captured_def\<close>)

lemma watch_ok_mono:
  assumes "watch_ok w q" and "WatchAtomic_spin_state w' = WatchAtomic_spin_state w"
    and "WatchAtomic_observers w' = WatchAtomic_observers w"
    and "WatchAtomic_value w' = WatchAtomic_value w \<or> q'" and "q \<longrightarrow> q' \<or> WatchAtomic_observers w = []"
  shows "watch_ok w' q'"
  using assms by (auto simp: watch_ok_def)

lemma sys_run_inv:
  assumes inv: "watch_system_inv s" and i: "i < length (sys_threads s)"
  shows "watch_system_inv (sys_run i sp s)"
proof -
  let ?ts = "sys_threads s" and ?w = "sys_watch s"
  let ?p = "?ts ! i" and ?q = "others_pending i ?ts"
  obtain p' w' invs where st: "thread_step sp ?p ?w = (p', w', invs)"
    using prod_cases3 by blast
  note q = any_pending_others [OF i]
  from inv have mutex: "\<And>j k. j < length ?ts \<Longrightarrow> k < length ?ts \<Longrightarrow> holds_lock (?ts ! j) \<Longrightarrow> holds_lock (?ts ! k) \<Longrightarrow> j = k"
    and lockbit: "bit (WatchAtomic_spin_state ?w) 0 \<longleftrightarrow> (\<exists>j < length ?ts. holds_lock (?ts ! j))"
    and loc: "\<And>j. j < length ?ts \<Longrightarrow> local_ok ?w (?q \<or> notify_pending ?p) (?ts ! j)"
    and ok: "watch_ok ?w (?q \<or> notify_pending ?p)"
    by (auto simp: watch_system_inv_def Let_def q)
  have goal: ?thesis
    if "\<And>j. j < length ?ts \<Longrightarrow> j \<noteq> i \<Longrightarrow> holds_lock (?ts ! j) \<Longrightarrow> \<not> holds_lock p'"
      and "bit (WatchAtomic_spin_state w') 0 \<longleftrightarrow> holds_lock p' \<or> (\<exists>j < length ?ts. j \<noteq> i \<and> holds_lock (?ts ! j))"
      and "\<And>j. j < length ?ts \<Longrightarrow> j \<noteq> i \<Longrightarrow> holds_lock (?ts ! j) \<Longrightarrow> local_ok w' (?q \<or> notify_pending p') (?ts ! j)"
      and "local_ok w' (?q \<or> notify_pending p') p'"
      and "watch_ok w' (?q \<or> notify_pending p')"
  proof -
    have "local_ok w' (?q \<or> notify_pending p') (?ts ! j)" if "j < length ?ts" "j \<noteq> i" for j
      using \<open>\<And>j. j < length ?ts \<Longrightarrow> j \<noteq> i \<Longrightarrow> holds_lock (?ts ! j) \<Longrightarrow> local_ok w' (?q \<or> notify_pending p') (?ts ! j)\<close> [of j] that
      by (cases "holds_lock (?ts ! j)") auto
    moreover have "(\<exists>j < length ?ts. holds_lock (?ts[i := p'] ! j)) \<longleftrightarrow>
        holds_lock p' \<or> (\<exists>j < length ?ts. j \<noteq> i \<and> holds_lock (?ts ! j))"
      using i by (auto simp: nth_list_update)
    ultimately show ?thesis using that mutex i
      by (simp add: watch_system_inv_def sys_run_def st Let_def q) (auto simp: nth_list_update)
  qed
  show ?thesis
  proof (cases "holds_lock ?p")
    case True
    then have alone: "\<not> holds_lock (?ts ! j)" if "j < length ?ts" "j \<noteq> i" for j
      using mutex i that by blast
    from True i lockbit have "bit (WatchAtomic_spin_state ?w) 0" by auto
    from step_holder [OF st True this ok loc [OF i]] alone show ?thesis
      by (intro goal) auto
  next
    case False
    show ?thesis
    proof (cases "bit (WatchAtomic_spin_state ?w) 0")
      case True
      note so = step_outside_lock [OF st False True]
      from True lockbit False obtain j where "j < length ?ts" "j \<noteq> i" "holds_lock (?ts ! j)" by blast
      with so True loc ok show ?thesis
        by (intro goal) (auto intro: local_ok_mono watch_ok_mono)
    next
      case unlocked: False
      then have none: "\<not> holds_lock (?ts ! j)" if "j < length ?ts" for j
        using lockbit that by blast
      note sf = step_free [OF st False unlocked ok]
      show ?thesis
      proof (rule goal)
        show "watch_ok w' (?q \<or> notify_pending p')"
          using sf [of True] ok by (auto simp: watch_ok_def split: if_splits)
      qed (use sf [of "?q \<or> notify_pending p'"] none unlocked in \<open>auto split: if_splits\<close>)
    qed
  qed
qed


lemma sys_begin_inv:
  assumes inv: "watch_system_inv s" and i: "i < length (sys_threads s)" "sys_threads s ! i = Done r"
  shows "watch_system_inv (sys_begin i c s)"
proof -
  let ?ts = "sys_threads s" and ?p = "call_entry c"
  have p: "\<not> holds_lock ?p" "\<not> notify_pending ?p" by (cases c; simp)+
  have q: "any_pending (?ts[i := ?p]) = any_pending ?ts"
    using any_pending_others [OF i(1)] i(2) p by simp
  have "(\<exists>j < length ?ts. holds_lock (?ts[i := ?p] ! j)) \<longleftrightarrow> (\<exists>j < length ?ts. holds_lock (?ts ! j))"
    using i p by (auto simp: nth_list_update) (metis holds_lock.simps(10))
  with inv i p q show ?thesis
    by (simp add: watch_system_inv_def sys_begin_def Let_def) (auto simp: nth_list_update)
qed

lemma watch_step_inv: "watch_step s s' \<Longrightarrow> watch_system_inv s \<Longrightarrow> watch_system_inv s'"
  by (induction rule: watch_step.induct) (auto intro: sys_begin_inv sys_run_inv)

lemma sys_init_inv: "watch_system_inv (sys_init v n)"
  by (auto simp: watch_system_inv_def sys_init_def WatchAtomic_init_def watch_ok_def)

interpretation watch_lock: invariant_system "sys_init v n" watch_step watch_system_inv for v n
  by unfold_locales (auto intro: sys_init_inv watch_step_inv)

lemma watch_reachable_steps: "watch_reachable v n s \<Longrightarrow> watch_step\<^sup>*\<^sup>* (sys_init v n) s"
  by (induction rule: watch_reachable.induct) (auto intro: rtranclp.rtrancl_into_rtrancl)

lemma watch_reachable_inv: "watch_reachable v n s \<Longrightarrow> watch_system_inv s"
  by (rule watch_lock.execution_invar [OF watch_reachable_steps])

subsubsection \<open>Every handler is accounted for\<close>

fun in_flight :: "'v pc \<Rightarrow> 'v handler list" where
  "in_flight (Notify_unlock _ _ _ hs) = hs"
| "in_flight (Wait_load h) = [h]"
| "in_flight (Wait_lock h) = [h]"
| "in_flight (Wait_locked h _) = [h]"
| "in_flight (Wait_unlock_closed h _) = [h]"
| "in_flight (Wait_final h) = [h]"
| "in_flight (Wait_load2 h _) = [h]"
| "in_flight (Wait_push h _) = [h]"
| "in_flight (Wait_unlock _ (Some (h, _))) = [h]"
| "in_flight (Close_unlock _ hs) = hs"
| "in_flight (Close_final hs) = hs"
| "in_flight (Invoke hs _ _) = hs"
| "in_flight _ = []"

definition handlers_conserved :: "'v watch_system \<Rightarrow> bool" where
  "handlers_conserved s \<longleftrightarrow> mset (sys_waits s) =
     mset (map fst (sys_log s)) + mset (WatchAtomic_observers (sys_watch s)) +
     mset (concat (map in_flight (sys_threads s)))"

lemma mset_concat_update:
  "i < length ts \<Longrightarrow>
     mset (concat (map f (ts[i := p]))) + mset (f (ts ! i)) = mset (concat (map f ts)) + mset (f p)"
proof (induction ts arbitrary: i)
  case (Cons t ts)
  then show ?case by (cases i) (auto simp: ac_simps)
qed simp

lemma thread_step_handlers:
  assumes "thread_step sp p w = (p', w', invs)"
  shows "mset (in_flight p) + mset (WatchAtomic_observers w) =
    mset (in_flight p') + mset (WatchAtomic_observers w') + mset (map fst invs)"
proof (cases p)
  case (Invoke hs res r)
  with assms show ?thesis by (cases hs) auto
qed (use assms in \<open>auto simp: lock_observers_eq Let_def unlock_observers_def
      split: if_splits option.splits\<close>)

lemma watch_step_handlers:
  assumes "watch_step s s'" and "handlers_conserved s"
  shows "handlers_conserved s'"
  using assms(1)
proof cases
  case (begin_call i r c)
  moreover have "in_flight (call_entry c) = wait_of_call c" by (cases c) auto
  ultimately show ?thesis
    using mset_concat_update [of i "sys_threads s" in_flight "call_entry c"] assms(2)
    by (simp add: handlers_conserved_def sys_begin_def)
next
  case (run_thread i sp)
  obtain p' w' invs where st: "thread_step sp (sys_threads s ! i) (sys_watch s) = (p', w', invs)"
    using prod_cases3 by blast
  with run_thread assms(2) show ?thesis
    using mset_concat_update [of i "sys_threads s" in_flight p'] thread_step_handlers [OF st]
    by (simp add: handlers_conserved_def sys_run_def) (smt (verit) add.assoc add.commute add_left_cancel)
qed

lemma sys_init_handlers: "handlers_conserved (sys_init v n)"
  by (simp add: handlers_conserved_def sys_init_def WatchAtomic_init_def map_replicate)

interpretation watch_handlers: invariant_system "sys_init v n" watch_step handlers_conserved for v n
  by unfold_locales (auto intro: sys_init_handlers watch_step_handlers)

lemma watch_reachable_handlers: "watch_reachable v n s \<Longrightarrow> handlers_conserved s"
  by (rule watch_handlers.execution_invar [OF watch_reachable_steps])

abbreviation (input) final_bits_of :: "u32 \<Rightarrow> u32" where
  "final_bits_of st \<equiv> st AND (kClosedAtEnd OR kClosedBeforeEnd)"

lemma thread_step_closed:
  assumes "thread_step sp p w = (p', w', invs)" and "local_ok w q p"
    and "\<not> bit (WatchAtomic_spin_state w) 1"
  shows "\<not> bit (WatchAtomic_spin_state w') 1 \<and>
     final_bits_of (WatchAtomic_spin_state w') = final_bits_of (WatchAtomic_spin_state w)"
proof (cases p)
  case (Invoke hs res r)
  with assms show ?thesis by (cases hs) auto
next
  case (Wait_unlock st r)
  have "bit (WatchAtomic_spin_state w) (Suc 0)" if "r = None"
  proof -
    have "WatchAtomic_spin_state w OR kWaiting = st OR kLocked" and "bit st (Suc 0)"
      using assms(2) Wait_unlock that by simp_all
    then have "bit (WatchAtomic_spin_state w OR kWaiting) (Suc 0)" by simp
    then show ?thesis by simp
  qed
  with assms Wait_unlock show ?thesis
    by (cases r) (auto simp: captured_def unlock_observers_def)
qed (use assms in \<open>auto simp: lock_observers_eq Let_def unlock_observers_def captured_def
      split: if_splits option.splits\<close>)


lemma watch_step_closed:
  assumes "watch_step s s'" and "watch_system_inv s" and "WatchAtomic_is_closed (sys_watch s)"
  shows "WatchAtomic_is_closed (sys_watch s') \<and>
    get_final_status (WatchAtomic_spin_state (sys_watch s')) =
    get_final_status (WatchAtomic_spin_state (sys_watch s))"
  using assms(1)
proof cases
  case (run_thread i sp)
  obtain p' w' invs where st: "thread_step sp (sys_threads s ! i) (sys_watch s) = (p', w', invs)"
    using prod_cases3 by blast
  have "local_ok (sys_watch s) (any_pending (sys_threads s)) (sys_threads s ! i)"
    using assms(2) run_thread(2) by (simp add: watch_system_inv_def Let_def)
  from thread_step_closed [OF st this] assms(3) run_thread(1) st show ?thesis
    by (simp add: WatchAtomic_is_closed_def and_pow sys_run_def get_final_status_def)
qed (use assms in \<open>simp add: sys_begin_def\<close>)

lemma watch_steps_closed:
  assumes "watch_step\<^sup>*\<^sup>* s s'" and "watch_system_inv s" and "WatchAtomic_is_closed (sys_watch s)"
  shows "WatchAtomic_is_closed (sys_watch s') \<and>
    get_final_status (WatchAtomic_spin_state (sys_watch s')) =
    get_final_status (WatchAtomic_spin_state (sys_watch s))"
proof -
  have "watch_system_inv s' \<and> WatchAtomic_is_closed (sys_watch s') \<and>
    get_final_status (WatchAtomic_spin_state (sys_watch s')) =
    get_final_status (WatchAtomic_spin_state (sys_watch s))"
    using assms by (induction rule: rtranclp_induct) (auto simp: watch_step_inv watch_step_closed)
  then show ?thesis by simp
qed

text \<open>Executable schedules, to exhibit reachable states.\<close>

datatype 'v watch_action = Begin nat "'v call" | Run nat

fun sys_act :: "'w::len word watch_action \<Rightarrow> 'w word watch_system \<Rightarrow> 'w word watch_system" where
  "sys_act (Begin i c) s =
     (if i < length (sys_threads s) \<and> is_Done (sys_threads s ! i) then sys_begin i c s else s)"
| "sys_act (Run i) s = (if i < length (sys_threads s) then sys_run i False s else s)"

lemma is_DoneE: "is_Done p \<Longrightarrow> \<exists>r. p = Done r"
  by (cases p) auto

lemma sys_act_reachable:
  "watch_reachable v n s \<Longrightarrow> watch_reachable v n (sys_act a s)"
  by (cases a) (auto dest: is_DoneE intro: watch_reachable.reach_step watch_step.intros)

lemma schedule_reachable: "watch_reachable v n (fold sys_act as (sys_init v n))"
proof -
  have "watch_reachable v n (fold sys_act as s)" if "watch_reachable v n s" for s
    using that by (induction as arbitrary: s) (auto intro: sys_act_reachable)
  then show ?thesis by (simp add: watch_reachable.reach_init)
qed

subsection \<open>Properties\<close>

text \<open>
  C1 (safety). No lost wake-up. In every reachable state of any number of threads, a handler that
  waits although the value differs from its \<^verbatim>\<open>last_seen\<close> has a thread inside \<^verbatim>\<open>notify\<close> that has not
  yet taken the handler list; once all calls have returned, every waiting handler waits for the
  current value to change, the watch is open and the spin lock is free.
\<close>

theorem WatchAtomic_no_lost_wakeup:
  assumes "watch_reachable init_value n s"
  shows "\<forall>h \<in> set (WatchAtomic_observers (sys_watch s)).
       (last_seen h = WatchAtomic_value (sys_watch s) \<or> (\<exists>p \<in> set (sys_threads s). notify_pending p)) \<and>
       \<not> WatchAtomic_is_closed (sys_watch s) \<and>
       (all_done s \<longrightarrow> last_seen h = WatchAtomic_value (sys_watch s) \<and>
          \<not> bit (WatchAtomic_spin_state (sys_watch s)) 0)"
proof -
  note inv = watch_reachable_inv [OF assms, unfolded watch_system_inv_def Let_def]
  have "\<not> any_pending (sys_threads s) \<and> \<not> bit (WatchAtomic_spin_state (sys_watch s)) 0" if "all_done s"
  proof -
    have "\<not> notify_pending p \<and> \<not> holds_lock p" if "p \<in> set (sys_threads s)" for p
      using \<open>all_done s\<close> that is_DoneE [of p] by (auto simp: all_done_def)
    with inv show ?thesis by (auto simp: any_pending_def)
  qed
  with inv show ?thesis
    unfolding watch_ok_def WatchAtomic_is_closed_def and_pow any_pending_def
    by (auto simp: length_greater_0_conv [symmetric] simp del: length_greater_0_conv)
qed

text \<open>One thread registers a handler and returns; the handler waits.\<close>

definition wait_schedule :: "8 word watch_action list" where
  "wait_schedule = Begin 0 (Call_async_wait (Handler 7 0)) # replicate 6 (Run 0)"

theorem WatchAtomic_no_lost_wakeup_witness:
  "let s = fold sys_act wait_schedule (sys_init 0 2) in
     WatchAtomic_observers (sys_watch s) = [Handler 7 0] \<and> all_done s \<and>
     WatchAtomic_value (sys_watch s) = 0 \<and> \<not> WatchAtomic_is_closed (sys_watch s)"
proof -
  let ?s = "fold sys_act wait_schedule (sys_init 0 2)"
  have "WatchAtomic_observers (sys_watch ?s) = [Handler 7 0]" "all_done ?s" by code_simp+
  with WatchAtomic_no_lost_wakeup [OF schedule_reachable [where as = wait_schedule and v = 0 and n = 2]]
  show ?thesis by (simp add: Let_def)
qed

text \<open>
  C38 (invariant). Every handler passed to \<^verbatim>\<open>async_wait\<close> is, at every moment, in exactly one place:
  already invoked, in the handler list, or in the hands of one thread. Once all calls have
  returned it was invoked exactly once or is still waiting, and after a close it was invoked.
\<close>

theorem WatchAtomic_handlers_once:
  assumes "watch_reachable init_value n s"
  shows "mset (sys_waits s) = mset (map fst (sys_log s)) + mset (WatchAtomic_observers (sys_watch s)) +
       mset (concat (map in_flight (sys_threads s))) \<and>
     (all_done s \<longrightarrow> mset (sys_waits s) =
        mset (map fst (sys_log s)) + mset (WatchAtomic_observers (sys_watch s))) \<and>
     (all_done s \<longrightarrow> WatchAtomic_is_closed (sys_watch s) \<longrightarrow> mset (sys_waits s) = mset (map fst (sys_log s)))"
proof -
  note cons = watch_reachable_handlers [OF assms, unfolded handlers_conserved_def]
  have "concat (map in_flight (sys_threads s)) = []" if "all_done s"
    using that is_DoneE by (fastforce simp: all_done_def)
  moreover have "WatchAtomic_observers (sys_watch s) = []" if "WatchAtomic_is_closed (sys_watch s)"
    using watch_reachable_inv [OF assms] that
    by (auto simp: watch_system_inv_def Let_def watch_ok_def WatchAtomic_is_closed_def and_pow)
  ultimately show ?thesis using cons by auto
qed

definition close_schedule :: "8 word watch_action list" where
  "close_schedule = wait_schedule @ Begin 1 (Call_close kEndOfStream) # replicate 6 (Run 1)"

theorem WatchAtomic_handlers_once_witness:
  "let s = fold sys_act close_schedule (sys_init 0 2) in
     WatchAtomic_is_closed (sys_watch s) \<and> all_done s \<and> sys_waits s = [Handler 7 0] \<and>
     mset (map fst (sys_log s)) = {#Handler 7 0#}"
proof -
  let ?s = "fold sys_act close_schedule (sys_init 0 2)"
  have s: "WatchAtomic_is_closed (sys_watch ?s)" "all_done ?s" "sys_waits ?s = [Handler 7 0]" by code_simp+
  then have "mset (sys_waits ?s) = mset (map fst (sys_log ?s))"
    using WatchAtomic_handlers_once [OF schedule_reachable [where as = close_schedule and v = 0 and n = 2]]
    by blast
  with s show ?thesis by (simp add: Let_def del: mset_map)
qed

text \<open>
  Closing is final: once a watch is closed, whatever any thread does, it stays
  closed and the final status reported to waiters is the one that the first \<^verbatim>\<open>close\<close> recorded.
\<close>

theorem WatchAtomic_close_is_final:
  assumes "watch_reachable init_value n s" and "WatchAtomic_is_closed (sys_watch s)"
    and "watch_step\<^sup>*\<^sup>* s s'"
  shows "WatchAtomic_is_closed (sys_watch s') \<and>
    get_final_status (WatchAtomic_spin_state (sys_watch s')) =
    get_final_status (WatchAtomic_spin_state (sys_watch s))"
  using watch_steps_closed [OF assms(3) watch_reachable_inv [OF assms(1)] assms(2)] .

theorem WatchAtomic_close_is_final_witness:
  "let s = fold sys_act close_schedule (sys_init 0 2); s' = sys_begin 0 (Call_close kClosed) s in
     WatchAtomic_is_closed (sys_watch s') \<and>
     get_final_status (WatchAtomic_spin_state (sys_watch s')) = kEndOfStream"
proof -
  let ?s = "fold sys_act close_schedule (sys_init 0 2)"
  have c: "WatchAtomic_is_closed (sys_watch ?s)" by code_simp
  have f: "get_final_status (WatchAtomic_spin_state (sys_watch ?s)) = kEndOfStream" by code_simp
  have d: "0 < length (sys_threads ?s)" "is_Done (sys_threads ?s ! 0)" by code_simp+
  then obtain r where "sys_threads ?s ! 0 = Done r" using is_DoneE by blast
  with d(1) have "watch_step\<^sup>*\<^sup>* ?s (sys_begin 0 (Call_close kClosed) ?s)"
    by (blast intro: watch_step.begin_call)
  from WatchAtomic_close_is_final [OF schedule_reachable c this] f show ?thesis by (simp add: Let_def)
qed

definition race_schedule :: "8 word watch_action list" where
  "race_schedule = [Begin 0 (Call_set_value 1), Run 0, Begin 1 (Call_async_wait (Handler 7 1))] @
     replicate 6 (Run 1) @ replicate 6 (Run 0)"

text \<open>
  The documented guarantee of \<^verbatim>\<open>await_not_equal\<close> fails for the atomic watch: there is
  an execution of two threads in which a handler that was registered with \<^verbatim>\<open>last_seen\<close> \<open>1\<close> is
  invoked with the value \<open>1\<close>. The setter has already stored the value when the handler is
  registered and delivers it afterwards.
\<close>

theorem WatchAtomic_stale_notification:
  "\<exists>s :: 8 word watch_system. watch_reachable 0 2 s \<and> all_done s \<and>
     (\<exists>h v. (h, Inr v) \<in> set (sys_log s) \<and> v = last_seen h)"
proof -
  let ?s = "fold sys_act race_schedule (sys_init 0 2)"
  have "all_done ?s" "sys_log ?s = [(Handler 7 1, Inr 1)]" by code_simp+
  with schedule_reachable [where as = race_schedule and v = 0 and n = 2] show ?thesis
    by (intro exI [of _ ?s]) simp
qed

end
