(* ===== verification/Batt_Grant.thy ===== *)
theory Batt_Grant
  imports Batt_Status
begin

section \<open>Grant and Grant::Issuer: a counted resource\<close>

text \<open>
  Models \<^verbatim>\<open>src/src/batteries/async/grant_decl.hpp\<close> and \<^verbatim>\<open>grant_impl.hpp\<close>: a pool (\<^verbatim>\<open>Issuer\<close>) from
  which grants are issued, spent into new grants, merged, moved and released, by any number of
  threads. One step of a thread is one atomic operation on one of the \<^verbatim>\<open>Watch<u64>\<close> counters (or on
  \<^verbatim>\<open>total_size_\<close>); between two steps the amount that a thread has taken out of one counter and not
  yet put into another is a local variable of that thread. \<^verbatim>\<open>modify_if\<close> is one step: its loop has
  one successful \<^verbatim>\<open>compare_exchange\<close>, or ends with the load whose value it rejects.

  The counters are 64-bit words and wrap around; the invariant is stated over the natural numbers
  they denote, so it includes that none of the additions overflows. A failed \<^verbatim>\<open>BATT_CHECK\<close> or
  \<^verbatim>\<open>BATT_ASSERT\<close> ends the program and is \<open>None\<close>; the latter as in a debug build, since a build with \<^verbatim>\<open>NDEBUG\<close>
  leaves it out.
\<close>

record grant =
  grant_issuer :: bool
  grant_size :: u64
  grant_revoked :: bool

datatype grant_result = No_result | New_grant nat | Count u64 | Failed StatusCode

datatype grant_source = Issuer_available | Grant_size nat

datatype grant_pc =
    G_Done grant_result
  | G_Transfer grant_source u64 bool
  | G_Unavailable grant_source
  | G_Await grant_source u64
  | G_Create u64
  | G_Spend_all nat bool
  | G_Recycle u64 "nat option" grant_result
  | G_Close nat grant_result
  | G_Subsume nat nat
  | G_Subsume_add nat u64
  | G_Grow u64
  | G_Close_issuer
  | G_Swap nat nat
  | G_Swap_this nat nat u64
  | G_Swap_that nat u64

record issuer_system =
  available :: u64
  available_closed :: bool
  total_size :: u64
  grants :: "grant list"

definition Issuer_init :: "u64 \<Rightarrow> issuer_system" where
  "Issuer_init initial_count =
     \<lparr>available = initial_count, available_closed = False, total_size = initial_count, grants = []\<rparr>"

fun source_value :: "grant_source \<Rightarrow> issuer_system \<Rightarrow> u64" where
  "source_value Issuer_available s = available s"
| "source_value (Grant_size i) s = grant_size (grants s ! i)"

fun source_closed :: "grant_source \<Rightarrow> issuer_system \<Rightarrow> bool" where
  "source_closed Issuer_available s = available_closed s"
| "source_closed (Grant_size i) s = grant_revoked (grants s ! i)"

definition set_size :: "nat \<Rightarrow> u64 \<Rightarrow> issuer_system \<Rightarrow> issuer_system" where
  "set_size i n s = s\<lparr>grants := (grants s)[i := (grants s ! i)\<lparr>grant_size := n\<rparr>]\<rparr>"

definition swap_issuers :: "nat \<Rightarrow> nat \<Rightarrow> issuer_system \<Rightarrow> issuer_system" where
  "swap_issuers i j s = s\<lparr>grants := (grants s)
     [i := (grants s ! i)\<lparr>grant_issuer := grant_issuer (grants s ! j)\<rparr>,
      j := (grants s ! j)\<lparr>grant_issuer := grant_issuer (grants s ! i)\<rparr>]\<rparr>"

fun source_set :: "grant_source \<Rightarrow> u64 \<Rightarrow> issuer_system \<Rightarrow> issuer_system" where
  "source_set Issuer_available n s = s\<lparr>available := n\<rparr>"
| "source_set (Grant_size i) n s = set_size i n s"

fun source_issuer :: "grant_source \<Rightarrow> issuer_system \<Rightarrow> bool" where
  "source_issuer Issuer_available s = True"
| "source_issuer (Grant_size i) s = grant_issuer (grants s ! i)"

text \<open>
  One atomic step. \<open>stale\<close> lets \<^verbatim>\<open>await_true\<close> return on a value that is no longer current.
\<close>

fun grant_step :: "bool \<Rightarrow> grant_pc \<Rightarrow> issuer_system \<Rightarrow> (grant_pc \<times> issuer_system) option" where
  "grant_step stale (G_Done r) s = Some (G_Done r, s)"
| "grant_step stale (G_Transfer src cnt wait) s =
     (if \<not> source_issuer src s then Some (G_Done (Failed kFailedPrecondition), s)
      else let observed = source_value src s in
        if observed \<ge> cnt then Some (G_Create cnt, source_set src (observed - cnt) s)
        else if \<not> wait then Some (G_Unavailable src, s)
        else Some (G_Await src cnt, s))"
| "grant_step stale (G_Unavailable src) s =
     Some (G_Done (Failed (if source_closed src s then kGrantRevoked else kGrantUnavailable)), s)"
| "grant_step stale (G_Await src cnt) s =
     (if source_value src s \<ge> cnt \<or> stale then Some (G_Transfer src cnt True, s)
      else if source_closed src s then Some (G_Done (Failed kClosed), s)
      else Some (G_Await src cnt, s))"
| "grant_step stale (G_Create cnt) s =
     Some (G_Done (New_grant (length (grants s))),
       s\<lparr>grants := grants s @ [\<lparr>grant_issuer = True, grant_size = cnt, grant_revoked = False\<rparr>]\<rparr>)"
| "grant_step stale (G_Spend_all i revoke) s =
     (let next_pc = (\<lambda>n. if revoke then G_Close i No_result else G_Done (Count n)) in
      if \<not> grant_issuer (grants s ! i) then Some (next_pc 0, s)
      else let previous_size = grant_size (grants s ! i) in
        Some (G_Recycle previous_size (if revoke then Some i else None)
                (if revoke then No_result else Count previous_size), set_size i 0 s))"
| "grant_step stale (G_Recycle cnt close r) s =
     Some (case close of None \<Rightarrow> G_Done r | Some i \<Rightarrow> G_Close i r, s\<lparr>available := available s + cnt\<rparr>)"
| "grant_step stale (G_Close i r) s =
     Some (G_Done r, s\<lparr>grants := (grants s)[i := (grants s ! i)\<lparr>grant_revoked := True\<rparr>]\<rparr>)"
| "grant_step stale (G_Subsume i j) s =
     (if \<not> grant_issuer (grants s ! j) then Some (G_Done No_result, s)
      else if \<not> grant_issuer (grants s ! i) then None
      else Some (G_Subsume_add i (grant_size (grants s ! j)), set_size j 0 s))"
| "grant_step stale (G_Subsume_add i cnt) s =
     Some (G_Done No_result, set_size i (grant_size (grants s ! i) + cnt) s)"
| "grant_step stale (G_Grow cnt) s =
     (let old_size = total_size s in
      if old_size + cnt > old_size
      then Some (G_Recycle cnt None No_result, s\<lparr>total_size := old_size + cnt\<rparr>)
      else None)"
| "grant_step stale G_Close_issuer s = Some (G_Done No_result, s\<lparr>available_closed := True\<rparr>)"
| "grant_step stale (G_Swap i j) s =
     Some (G_Swap_this i j (grant_size (grants s ! j)), set_size j 0 (swap_issuers i j s))"
| "grant_step stale (G_Swap_this i j n) s =
     Some (G_Swap_that j (grant_size (grants s ! i)), set_size i n s)"
| "grant_step stale (G_Swap_that j n) s = Some (G_Done No_result, set_size j n s)"

text \<open>The public calls. A destructor runs \<^verbatim>\<open>revoke\<close>; \<^verbatim>\<open>swap\<close> here is between grants of one issuer.\<close>

datatype grant_call =
    Issue_grant u64 bool | Spend nat u64 bool | Spend_all nat | Revoke nat | Subsume nat nat
  | Grow u64 | Close_issuer | Swap nat nat

fun grant_entry :: "grant_call \<Rightarrow> grant_pc" where
  "grant_entry (Issue_grant cnt wait) = G_Transfer Issuer_available cnt wait"
| "grant_entry (Spend i cnt wait) = G_Transfer (Grant_size i) cnt wait"
| "grant_entry (Spend_all i) = G_Spend_all i False"
| "grant_entry (Revoke i) = G_Spend_all i True"
| "grant_entry (Subsume i j) = G_Subsume i j"
| "grant_entry (Grow cnt) = G_Grow cnt"
| "grant_entry Close_issuer = G_Close_issuer"
| "grant_entry (Swap i j) = G_Swap i j"

text \<open>Move construction, which must not run concurrently with anything on the same grant.\<close>

definition Grant_move :: "nat \<Rightarrow> issuer_system \<Rightarrow> issuer_system" where
  "Grant_move i s =
     (let g = grants s ! i in
      s\<lparr>grants := (grants s)[i := g\<lparr>grant_issuer := False, grant_size := 0\<rparr>] @
          [\<lparr>grant_issuer = grant_issuer g, grant_size = grant_size g, grant_revoked = False\<rparr>]\<rparr>)"

record grant_system =
  g_pool :: issuer_system
  g_threads :: "grant_pc list"

definition grant_system_init :: "u64 \<Rightarrow> nat \<Rightarrow> grant_system" where
  "grant_system_init initial_count n =
     \<lparr>g_pool = Issuer_init initial_count, g_threads = replicate n (G_Done No_result)\<rparr>"

fun valid_pc :: "nat \<Rightarrow> grant_pc \<Rightarrow> bool" where
  "valid_pc n (G_Transfer (Grant_size i) _ _) = (i < n)"
| "valid_pc n (G_Unavailable (Grant_size i)) = (i < n)"
| "valid_pc n (G_Await (Grant_size i) _) = (i < n)"
| "valid_pc n (G_Spend_all i _) = (i < n)"
| "valid_pc n (G_Recycle _ (Some i) _) = (i < n)"
| "valid_pc n (G_Close i _) = (i < n)"
| "valid_pc n (G_Subsume i j) = (i < n \<and> j < n)"
| "valid_pc n (G_Subsume_add i _) = (i < n)"
| "valid_pc n (G_Swap i j) = (i < n \<and> j < n)"
| "valid_pc n (G_Swap_this i j _) = (i < n \<and> j < n)"
| "valid_pc n (G_Swap_that j _) = (j < n)"
| "valid_pc n _ = True"

fun touches :: "grant_pc \<Rightarrow> nat set" where
  "touches (G_Transfer (Grant_size i) _ _) = {i}"
| "touches (G_Unavailable (Grant_size i)) = {i}"
| "touches (G_Await (Grant_size i) _) = {i}"
| "touches (G_Spend_all i _) = {i}"
| "touches (G_Recycle _ (Some i) _) = {i}"
| "touches (G_Close i _) = {i}"
| "touches (G_Subsume i j) = {i, j}"
| "touches (G_Subsume_add i _) = {i}"
| "touches (G_Swap i j) = {i, j}"
| "touches (G_Swap_this i j _) = {i, j}"
| "touches (G_Swap_that j _) = {j}"
| "touches _ = {}"

fun is_swap :: "grant_call \<Rightarrow> bool" where
  "is_swap (Swap _ _) = True"
| "is_swap _ = False"

text \<open>
  The steps of the system; \<open>swaps\<close> says whether \<^verbatim>\<open>swap\<close> may be called.
\<close>

inductive grant_sys_step :: "bool \<Rightarrow> grant_system \<Rightarrow> grant_system \<Rightarrow> bool" for swaps where
  begin_call: "k < length (g_threads s) \<Longrightarrow> g_threads s ! k = G_Done r \<Longrightarrow>
     valid_pc (length (grants (g_pool s))) (grant_entry c) \<Longrightarrow> (is_swap c \<Longrightarrow> swaps) \<Longrightarrow>
     grant_sys_step swaps s (s\<lparr>g_threads := (g_threads s)[k := grant_entry c]\<rparr>)"
| run_thread: "k < length (g_threads s) \<Longrightarrow>
     grant_step stale (g_threads s ! k) (g_pool s) = Some (p, pool) \<Longrightarrow>
     grant_sys_step swaps s (s\<lparr>g_pool := pool, g_threads := (g_threads s)[k := p]\<rparr>)"
| move_grant: "i < length (grants (g_pool s)) \<Longrightarrow> i \<notin> \<Union> (touches ` set (g_threads s)) \<Longrightarrow>
     grant_sys_step swaps s (s\<lparr>g_pool := Grant_move i (g_pool s)\<rparr>)"

inductive grant_reachable :: "bool \<Rightarrow> u64 \<Rightarrow> nat \<Rightarrow> grant_system \<Rightarrow> bool" for swaps initial_count n where
  grant_init: "grant_reachable swaps initial_count n (grant_system_init initial_count n)"
| grant_next: "grant_reachable swaps initial_count n s \<Longrightarrow> grant_sys_step swaps s s' \<Longrightarrow>
     grant_reachable swaps initial_count n s'"

text \<open>What a thread holds in a local variable.\<close>

fun in_hand :: "grant_pc \<Rightarrow> u64" where
  "in_hand (G_Create cnt) = cnt"
| "in_hand (G_Recycle cnt _ _) = cnt"
| "in_hand (G_Subsume_add _ cnt) = cnt"
| "in_hand (G_Swap_this _ _ n) = n"
| "in_hand (G_Swap_that _ n) = n"
| "in_hand _ = 0"

definition outstanding :: "issuer_system \<Rightarrow> nat" where
  "outstanding s = sum_list (map (\<lambda>g. unat (grant_size g)) (grants s))"

definition held :: "grant_pc list \<Rightarrow> nat" where
  "held ts = sum_list (map (\<lambda>p. unat (in_hand p)) ts)"

definition grant_conserved :: "grant_system \<Rightarrow> bool" where
  "grant_conserved s \<longleftrightarrow>
     unat (total_size (g_pool s)) = unat (available (g_pool s)) + outstanding (g_pool s) + held (g_threads s)"

fun swapping :: "grant_pc \<Rightarrow> bool" where
  "swapping (G_Swap _ _) = True"
| "swapping (G_Swap_this _ _ _) = True"
| "swapping (G_Swap_that _ _) = True"
| "swapping _ = False"

lemma unat_add_no_wrap:
  fixes a b :: u64
  assumes "a < a + b"
  shows "unat (a + b) = unat a + unat b"
  using assms unat_u64_less [of b]
  by (cases "unat a + unat b < 2 ^ 64") (auto simp: word_less_nat_alt unat_plus_if')

lemma sum_list_map_update:
  fixes f :: "'a \<Rightarrow> nat"
  shows "i < length xs \<Longrightarrow> sum_list (map f (xs[i := x])) + f (xs ! i) = sum_list (map f xs) + f x"
proof (induction xs arbitrary: i)
  case (Cons a xs)
  then show ?case by (cases i) auto
qed simp

lemma sum_list_map_ge: "i < length xs \<Longrightarrow> (f (xs ! i) :: nat) \<le> sum_list (map f xs)"
  by (simp add: member_le_sum_list)

lemma outstanding_set_size:
  "i < length (grants s) \<Longrightarrow>
     outstanding (set_size i n s) + unat (grant_size (grants s ! i)) = outstanding s + unat n"
  using sum_list_map_update [of i "grants s" "\<lambda>g. unat (grant_size g)"]
  by (simp add: outstanding_def set_size_def)

lemma set_size_simps [simp]:
  "available (set_size i n s) = available s" "total_size (set_size i n s) = total_size s"
  "available_closed (set_size i n s) = available_closed s"
  "length (grants (set_size i n s)) = length (grants s)"
  by (simp_all add: set_size_def)

lemma outstanding_simps [simp]:
  "outstanding (s\<lparr>available := a\<rparr>) = outstanding s"
  "outstanding (s\<lparr>total_size := t\<rparr>) = outstanding s"
  "outstanding (s\<lparr>available_closed := b\<rparr>) = outstanding s"
  "outstanding (s\<lparr>grants := grants s @ [g]\<rparr>) = outstanding s + unat (grant_size g)"
  by (simp_all add: outstanding_def)

lemma outstanding_revoked [simp]:
  "i < length (grants s) \<Longrightarrow>
   outstanding (s\<lparr>grants := (grants s)[i := (grants s ! i)\<lparr>grant_revoked := b\<rparr>]\<rparr>) = outstanding s"
  using sum_list_map_update [of i "grants s" "\<lambda>g. unat (grant_size g)" "(grants s ! i)\<lparr>grant_revoked := b\<rparr>"]
  by (simp add: outstanding_def)

text \<open>
  The step lemma: in a pool whose total is what is available, outstanding, in the hand of this
  thread and elsewhere (\<open>rest\<close>), the sum is still the total afterwards, and no addition wraps.
\<close>

lemma grant_step_conserved:
  assumes "grant_step stale p s = Some (p', s')" and "valid_pc (length (grants s)) p" and "\<not> swapping p"
    and "unat (total_size s) = unat (available s) + outstanding s + unat (in_hand p) + rest"
  shows "unat (total_size s') = unat (available s') + outstanding s' + unat (in_hand p') + rest \<and>
    valid_pc (length (grants s')) p' \<and> length (grants s) \<le> length (grants s') \<and> \<not> swapping p'"
proof (cases p)
  case (G_Transfer src cnt wait)
  show ?thesis
  proof (cases src)
    case Issuer_available
    with G_Transfer assms show ?thesis
      by (auto simp: Let_def unat_sub word_le_nat_alt split: if_splits)
  next
    case (Grant_size i)
    with G_Transfer assms outstanding_set_size [of i s "grant_size (grants s ! i) - cnt"] show ?thesis
      by (auto simp: Let_def unat_sub word_le_nat_alt split: if_splits)
  qed
next
  case (G_Unavailable src)
  with assms show ?thesis by auto
next
  case (G_Await src cnt)
  with assms show ?thesis by (cases src) (auto split: if_splits)
next
  case (G_Spend_all i revoke)
  with assms outstanding_set_size [of i s 0] show ?thesis
    by (auto simp: Let_def split: if_splits)
next
  case (G_Recycle cnt close r)
  have "unat (available s) + unat cnt < 2 ^ 64"
    using assms(4) G_Recycle unat_u64_less [of "total_size s"] by simp
  then have "unat (available s + cnt) = unat (available s) + unat cnt"
    by (simp add: unat_plus_if')
  with G_Recycle assms show ?thesis by (cases close) auto
next
  case (G_Subsume i j)
  with assms outstanding_set_size [of j s 0] show ?thesis
    by (auto split: if_splits)
next
  case (G_Subsume_add i cnt)
  then have i: "i < length (grants s)" using assms(2) by simp
  have "unat (grant_size (grants s ! i)) \<le> outstanding s"
    using sum_list_map_ge [OF i, of "\<lambda>g. unat (grant_size g)"] by (simp add: outstanding_def)
  then have "unat (grant_size (grants s ! i)) + unat cnt < 2 ^ 64"
    using assms(4) G_Subsume_add unat_u64_less [of "total_size s"] by simp
  then have "unat (grant_size (grants s ! i) + cnt) = unat (grant_size (grants s ! i)) + unat cnt"
    by (simp add: unat_plus_if')
  with G_Subsume_add assms outstanding_set_size [OF i, of "grant_size (grants s ! i) + cnt"] show ?thesis
    by auto
next
  case (G_Grow cnt)
  with assms show ?thesis
    by (auto simp: Let_def unat_add_no_wrap split: if_splits)
qed (use assms in auto)


text \<open>Threads beside the running one keep their indices valid and what they hold.\<close>

lemma valid_pc_mono: "valid_pc n p \<Longrightarrow> n \<le> m \<Longrightarrow> valid_pc m p"
  by (induction n p rule: valid_pc.induct) auto

lemma grant_entry_props:
  "unat (in_hand (grant_entry c)) = 0" "swapping (grant_entry c) = is_swap c"
  by (cases c; simp)+

lemma held_update: "k < length ts \<Longrightarrow> held (ts[k := p]) + unat (in_hand (ts ! k)) = held ts + unat (in_hand p)"
  using sum_list_map_update [of k ts "\<lambda>p. unat (in_hand p)" p] by (simp add: held_def)

lemma outstanding_move:
  assumes "i < length (grants s)"
  shows "outstanding (Grant_move i s) = outstanding s"
  using sum_list_map_update [OF assms, of "\<lambda>g. unat (grant_size g)" "(grants s ! i)\<lparr>grant_issuer := False, grant_size := 0\<rparr>"]
  by (simp add: Grant_move_def outstanding_def Let_def)

definition grant_inv :: "grant_system \<Rightarrow> bool" where
  "grant_inv s \<longleftrightarrow> grant_conserved s \<and>
     (\<forall>p \<in> set (g_threads s). valid_pc (length (grants (g_pool s))) p \<and> \<not> swapping p)"

lemma grant_sys_step_inv:
  assumes "grant_sys_step False s s'" and "grant_inv s"
  shows "grant_inv s'"
  using assms(1)
proof cases
  case (begin_call k r c)
  with assms(2) held_update [OF begin_call(2), of "grant_entry c"] show ?thesis
    by (auto simp: grant_inv_def grant_conserved_def grant_entry_props
        dest!: set_update_subset_insert [THEN subsetD])
next
  case (run_thread k stale p pool)
  have k: "g_threads s ! k \<in> set (g_threads s)" using run_thread by simp
  have le: "unat (in_hand (g_threads s ! k)) \<le> held (g_threads s)"
    using sum_list_map_ge [OF run_thread(2), of "\<lambda>p. unat (in_hand p)"] by (simp add: held_def)
  then obtain rest where rest: "held (g_threads s) = unat (in_hand (g_threads s ! k)) + rest"
    using le_Suc_ex by blast
  have st: "unat (total_size pool) = unat (available pool) + outstanding pool + unat (in_hand p) + rest \<and>
      valid_pc (length (grants pool)) p \<and> length (grants (g_pool s)) \<le> length (grants pool) \<and> \<not> swapping p"
    using grant_step_conserved [OF run_thread(3), of rest] assms(2) k rest
    by (simp add: grant_inv_def grant_conserved_def)
  moreover have "held ((g_threads s)[k := p]) = unat (in_hand p) + rest"
    using held_update [OF run_thread(2), of p] rest by simp
  ultimately show ?thesis using assms(2) run_thread(1)
    by (auto simp: grant_inv_def grant_conserved_def intro: valid_pc_mono
        dest!: set_update_subset_insert [THEN subsetD])
next
  case (move_grant i)
  moreover have "length (grants (g_pool s)) \<le> length (grants (Grant_move i (g_pool s)))"
    by (simp add: Grant_move_def Let_def)
  ultimately show ?thesis using assms(2) outstanding_move [OF move_grant(2)]
    by (auto simp: grant_inv_def grant_conserved_def Grant_move_def Let_def intro: valid_pc_mono)
qed

lemma grant_init_inv: "grant_inv (grant_system_init m n)"
  by (auto simp: grant_inv_def grant_conserved_def grant_system_init_def Issuer_init_def
      outstanding_def held_def sum_list_replicate)

interpretation grant_pool: invariant_system "grant_system_init m n" "grant_sys_step False" grant_inv for m n
  by unfold_locales (auto intro: grant_init_inv grant_sys_step_inv)

lemma grant_reachable_steps:
  "grant_reachable swaps m n s \<Longrightarrow> (grant_sys_step swaps)\<^sup>*\<^sup>* (grant_system_init m n) s"
  by (induction rule: grant_reachable.induct) (auto intro: rtranclp.rtrancl_into_rtrancl)

lemma grant_reachable_inv: "grant_reachable False m n s \<Longrightarrow> grant_inv s"
  by (rule grant_pool.execution_invar [OF grant_reachable_steps])


subsection \<open>Executable schedules and calls that run alone\<close>

fun is_G_Done :: "grant_pc \<Rightarrow> bool" where
  "is_G_Done (G_Done _) = True"
| "is_G_Done _ = False"

definition grants_idle :: "grant_system \<Rightarrow> bool" where
  "grants_idle s \<longleftrightarrow> (\<forall>p \<in> set (g_threads s). is_G_Done p)"

datatype grant_action = G_Begin nat grant_call | G_Run nat

fun grant_act :: "bool \<Rightarrow> grant_action \<Rightarrow> grant_system \<Rightarrow> grant_system" where
  "grant_act swaps (G_Begin k c) s =
     (if k < length (g_threads s) \<and> is_G_Done (g_threads s ! k) \<and>
         valid_pc (length (grants (g_pool s))) (grant_entry c) \<and> (is_swap c \<longrightarrow> swaps)
      then s\<lparr>g_threads := (g_threads s)[k := grant_entry c]\<rparr> else s)"
| "grant_act swaps (G_Run k) s =
     (if k < length (g_threads s) then
        (case grant_step False (g_threads s ! k) (g_pool s) of
           None \<Rightarrow> s
         | Some (p, pool) \<Rightarrow> s\<lparr>g_pool := pool, g_threads := (g_threads s)[k := p]\<rparr>)
      else s)"

lemma is_G_DoneE: "is_G_Done p \<Longrightarrow> \<exists>r. p = G_Done r"
  by (cases p) auto

lemma grant_act_reachable:
  "grant_reachable swaps m n s \<Longrightarrow> grant_reachable swaps m n (grant_act swaps a s)"
  by (cases a) (auto dest!: is_G_DoneE split: option.splits
      intro: grant_reachable.grant_next grant_sys_step.intros)

lemma grant_schedule_reachable:
  "grant_reachable swaps m n (fold (grant_act swaps) as (grant_system_init m n))"
proof -
  have "grant_reachable swaps m n (fold (grant_act swaps) as s)" if "grant_reachable swaps m n s" for s
    using that by (induction as arbitrary: s) (auto intro: grant_act_reachable)
  then show ?thesis by (simp add: grant_reachable.grant_init)
qed

text \<open>\<open>run_alone fuel\<close> runs a call with no other thread; \<open>None\<close> is a failed check or too little fuel.\<close>

fun run_alone :: "nat \<Rightarrow> grant_pc \<Rightarrow> issuer_system \<Rightarrow> (grant_result \<times> issuer_system) option" where
  "run_alone fuel (G_Done r) s = Some (r, s)"
| "run_alone 0 p s = None"
| "run_alone (Suc fuel) p s =
     (case grant_step False p s of None \<Rightarrow> None | Some (p, s) \<Rightarrow> run_alone fuel p s)"

lemma list_update_swap_back: "i \<noteq> j \<Longrightarrow> xs[i := a, j := c, i := d, j := e] = xs[i := d, j := e]"
  by (metis list_update_overwrite list_update_swap)

lemma grant_exchange:
  "(g :: grant)\<lparr>grant_issuer := grant_issuer h, grant_size := grant_size h\<rparr> = h\<lparr>grant_revoked := grant_revoked g\<rparr>"
  by (cases g; cases h) simp

subsection \<open>Properties\<close>

text \<open>
  C3 (invariant). Nothing is created or lost: under every interleaving of \<^verbatim>\<open>issue_grant\<close>, \<^verbatim>\<open>spend\<close>,
  \<^verbatim>\<open>spend_all\<close>, \<^verbatim>\<open>revoke\<close>, \<^verbatim>\<open>subsume\<close>, \<^verbatim>\<open>grow\<close>, \<^verbatim>\<open>close\<close> and moves, the size of the pool is what is
  available plus the sizes of all grants plus what threads hold between two atomic operations,
  as natural numbers, so no 64-bit counter ever wraps around.
\<close>

theorem Grant_conservation:
  assumes "grant_reachable False initial_count n s"
  shows "unat (total_size (g_pool s)) =
     unat (available (g_pool s)) + outstanding (g_pool s) + held (g_threads s)"
  using grant_reachable_inv [OF assms] by (simp add: grant_inv_def grant_conserved_def)

definition grant_schedule :: "grant_action list" where
  "grant_schedule = [G_Begin 0 (Issue_grant 10 False), G_Run 0, G_Run 0, G_Begin 0 (Spend 0 4 False),
     G_Begin 1 (Grow 5), G_Run 0, G_Run 1]"

theorem Grant_conservation_witness:
  "let s = fold (grant_act False) grant_schedule (grant_system_init 16 2) in
     unat (total_size (g_pool s)) = unat (available (g_pool s)) + outstanding (g_pool s) + held (g_threads s) \<and>
     total_size (g_pool s) = 21 \<and> held (g_threads s) = 9"
proof -
  let ?s = "fold (grant_act False) grant_schedule (grant_system_init 16 2)"
  have "total_size (g_pool ?s) = 21" "held (g_threads ?s) = 9" by code_simp+
  with Grant_conservation [OF grant_schedule_reachable [where as = grant_schedule and m = 16 and n = 2]]
  show ?thesis by (simp add: Let_def)
qed

text \<open>
  The check in \<^verbatim>\<open>~Issuer\<close> holds whenever it should: when no call is in progress and
  every grant that was ever handed out is empty (spent, revoked, moved from or destroyed), the pool
  has its whole size available again, however the pool grew.
\<close>

theorem Issuer_destructor_check:
  assumes "grant_reachable False initial_count n s" and "grants_idle s"
    and "\<forall>g \<in> set (grants (g_pool s)). grant_size g = 0"
  shows "total_size (g_pool s) = available (g_pool s)"
proof -
  have "held (g_threads s) = 0"
    using assms(2) is_G_DoneE by (fastforce simp: held_def grants_idle_def sum_list_eq_0_iff)
  moreover have "outstanding (g_pool s) = 0"
    using assms(3) by (auto simp: outstanding_def sum_list_eq_0_iff)
  ultimately show ?thesis
    using grant_reachable_inv [OF assms(1)] by (simp add: grant_inv_def grant_conserved_def word_unat_eq_iff)
qed

definition release_schedule :: "grant_action list" where
  "release_schedule = [G_Begin 0 (Issue_grant 10 False), G_Run 0, G_Run 0, G_Begin 0 (Spend 0 4 False),
     G_Run 0, G_Run 0, G_Begin 1 (Grow 5), G_Run 1, G_Begin 0 (Revoke 0), G_Run 0, G_Run 1, G_Run 0, G_Run 0,
     G_Begin 0 (Spend_all 1), G_Run 0, G_Run 0]"

theorem Issuer_destructor_check_witness:
  "let s = fold (grant_act False) release_schedule (grant_system_init 16 2) in
     length (grants (g_pool s)) = 2 \<and> total_size (g_pool s) = available (g_pool s) \<and> available (g_pool s) = 21"
proof -
  let ?s = "fold (grant_act False) release_schedule (grant_system_init 16 2)"
  have "grants_idle ?s" "\<forall>g \<in> set (grants (g_pool ?s)). grant_size g = 0"
    "length (grants (g_pool ?s)) = 2" "total_size (g_pool ?s) = 21" by code_simp+
  with Issuer_destructor_check [OF grant_schedule_reachable [where as = release_schedule and m = 16 and n = 2]]
  show ?thesis by (simp add: Let_def)
qed

text \<open>
  The outcomes of a non-blocking \<^verbatim>\<open>spend\<close> that runs alone: on a moved-from grant
  \<^verbatim>\<open>kFailedPrecondition\<close>; otherwise a new grant of exactly the requested amount, which this grant
  loses, if the amount is there (even on a revoked grant, for the amount zero); otherwise
  \<^verbatim>\<open>kGrantRevoked\<close> or \<^verbatim>\<open>kGrantUnavailable\<close> and no change.
\<close>

theorem Grant_spend_outcome:
  assumes "i < length (grants s)"
  shows "run_alone 2 (grant_entry (Spend i cnt False)) s = Some (let g = grants s ! i in
     if \<not> grant_issuer g then (Failed kFailedPrecondition, s)
     else if cnt \<le> grant_size g
     then (New_grant (length (grants s)), s\<lparr>grants := (grants s)[i := g\<lparr>grant_size := grant_size g - cnt\<rparr>] @
            [\<lparr>grant_issuer = True, grant_size = cnt, grant_revoked = False\<rparr>]\<rparr>)
     else (Failed (if grant_revoked g then kGrantRevoked else kGrantUnavailable), s))"
  using assms by (simp add: numeral_2_eq_2 Let_def set_size_def)

theorem Grant_spend_outcome_witness:
  "run_alone 2 (grant_entry (Spend 0 4 False))
     (Issuer_init 6 \<lparr>grants := [\<lparr>grant_issuer = True, grant_size = 3, grant_revoked = True\<rparr>]\<rparr>) =
   Some (Failed kGrantRevoked,
     Issuer_init 6 \<lparr>grants := [\<lparr>grant_issuer = True, grant_size = 3, grant_revoked = True\<rparr>]\<rparr>)"
  by (subst Grant_spend_outcome) (simp_all add: Let_def)

definition swap_race :: "grant_action list" where
  "swap_race = concat (replicate 3 [G_Begin 0 (Issue_grant 5 False), G_Run 0, G_Run 0]) @
     [G_Begin 0 (Swap 0 1), G_Begin 1 (Subsume 1 2), G_Run 0, G_Run 1, G_Run 1, G_Run 0, G_Run 0]"

text \<open>
  \<^verbatim>\<open>swap\<close> is not safe against concurrent calls on the same grants, although the class
  documents its public methods as thread-safe with respect to each other: there is an interleaving
  of \<^verbatim>\<open>swap\<close> and \<^verbatim>\<open>subsume\<close> after which part of the pool is in no grant and not available, so the
  check in \<^verbatim>\<open>~Issuer\<close> can never succeed again.
\<close>

theorem Grant_swap_race_loses:
  "\<exists>s. grant_reachable True 15 2 s \<and> grants_idle s \<and>
     unat (available (g_pool s)) + outstanding (g_pool s) < unat (total_size (g_pool s))"
proof -
  let ?s = "fold (grant_act True) swap_race (grant_system_init 15 2)"
  have "grants_idle ?s" "unat (available (g_pool ?s)) + outstanding (g_pool ?s) < unat (total_size (g_pool ?s))"
    by code_simp+
  with grant_schedule_reachable show ?thesis by blast
qed

text \<open>
  A \<^verbatim>\<open>swap\<close> of two different grants that runs alone exchanges their sizes and
  issuers and changes nothing else.
\<close>

theorem Grant_swap_alone:
  assumes "i < length (grants s)" and "j < length (grants s)" and "i \<noteq> j"
  shows "run_alone 3 (grant_entry (Swap i j)) s = Some (No_result, s\<lparr>grants := (grants s)
     [i := (grants s ! j)\<lparr>grant_revoked := grant_revoked (grants s ! i)\<rparr>,
      j := (grants s ! i)\<lparr>grant_revoked := grant_revoked (grants s ! j)\<rparr>]\<rparr>)"
  using assms
  by (simp add: numeral_3_eq_3 set_size_def swap_issuers_def list_update_swap_back grant_exchange)

theorem Grant_swap_alone_witness:
  "run_alone 3 (grant_entry (Swap 0 1))
     (Issuer_init 6 \<lparr>grants := [\<lparr>grant_issuer = True, grant_size = 3, grant_revoked = False\<rparr>,
                               \<lparr>grant_issuer = False, grant_size = 0, grant_revoked = False\<rparr>]\<rparr>) =
   Some (No_result, Issuer_init 6 \<lparr>grants := [\<lparr>grant_issuer = False, grant_size = 0, grant_revoked = False\<rparr>,
                               \<lparr>grant_issuer = True, grant_size = 3, grant_revoked = False\<rparr>]\<rparr>)"
  by (subst Grant_swap_alone) simp_all

end
