(* ===== verification/Stream_Buffer.thy ===== *)
theory Stream_Buffer
  imports Batt_Status
begin

section \<open>StreamBuffer: a byte stream through a ring buffer\<close>

text \<open>
  Models \<^verbatim>\<open>src/src/batteries/async/stream_buffer.hpp\<close>, \<^verbatim>\<open>stream_buffer_impl.hpp\<close> and
  \<^verbatim>\<open>stream_buffer.ipp\<close>. The two stream positions grow without bound (they are \<^verbatim>\<open>i64\<close> in the code,
  which a stream of less than \<open>2 ^ 63\<close> bytes does not exhaust, and unbounded integers here); the
  place of a byte in the buffer is its position modulo the capacity. A buffer descriptor
  (\<^verbatim>\<open>MutableBuffer\<close>, \<^verbatim>\<open>ConstBuffer\<close>) into the ring is a start index and a length.

  A call that would wait for the other side returns \<open>Blocked\<close>; a failed \<^verbatim>\<open>BATT_CHECK\<close> or
  \<^verbatim>\<open>BATT_CHECKED_CAST\<close> is \<open>None\<close>. The specification of the component is the list of the bytes between
  the two positions, \<open>contents\<close>.
\<close>

record StreamBuffer =
  sb_capacity :: i64
  sb_buffer :: "u8 list"
  sb_consume_pos :: i64
  sb_commit_pos :: i64
  sb_consume_closed :: "StatusCode option"
  sb_commit_closed :: "StatusCode option"

datatype 'a awaited = Blocked | Ready "'a StatusOr"

type_synonym region = "nat \<times> nat"

definition StreamBuffer_init :: "nat \<Rightarrow> u8 list \<Rightarrow> StreamBuffer" where
  "StreamBuffer_init capacity mem =
     \<lparr>sb_capacity = int capacity, sb_buffer = mem, sb_consume_pos = 0, sb_commit_pos = 0,
      sb_consume_closed = None, sb_commit_closed = None\<rparr>"

definition sb_size :: "StreamBuffer \<Rightarrow> i64 option" where
  "sb_size sb = (let n = sb_commit_pos sb - sb_consume_pos sb in if n < 0 then None else Some n)"

definition sb_space :: "StreamBuffer \<Rightarrow> i64 option" where
  "sb_space sb = map_option (\<lambda>n. sb_capacity sb - n) (sb_size sb)"

definition get_buffers :: "StreamBuffer \<Rightarrow> i64 \<Rightarrow> i64 \<Rightarrow> region list option" where
  "get_buffers sb offset cnt =
     (if offset < 0 \<or> sb_capacity sb \<le> 0 \<or> cnt < 0 then None
      else let first_begin = offset mod sb_capacity sb; first_to_end = sb_capacity sb - first_begin in
        if cnt \<le> first_to_end then Some [(nat first_begin, nat cnt)]
        else Some [(nat first_begin, nat first_to_end), (0, nat (cnt - first_to_end))])"

text \<open>
  \<^verbatim>\<open>Watch::await_true\<close> on a position: the current value if it satisfies the predicate, the final
  status if the watch is closed, otherwise the caller waits.
\<close>

definition await_pos :: "i64 \<Rightarrow> i64 \<Rightarrow> StatusCode option \<Rightarrow> i64 awaited" where
  "await_pos min_target pos closed =
     (if pos \<ge> min_target then Ready (Inr pos)
      else case closed of Some st \<Rightarrow> Ready (Inl st) | None \<Rightarrow> Blocked)"

definition pre_transfer ::
    "StreamBuffer \<Rightarrow> i64 \<Rightarrow> i64 \<Rightarrow> i64 \<Rightarrow> StatusCode option \<Rightarrow> i64 \<Rightarrow> i64 option \<Rightarrow> bool \<Rightarrow>
       region list awaited option" where
  "pre_transfer sb min_count fixed_pos moving_pos moving_closed min_delta get_max_count wait_for_resource =
     (if min_count > sb_capacity sb then Some (Ready (Inl kInvalidArgument))
      else let min_target = fixed_pos + min_delta;
               buffers = do { n \<leftarrow> get_max_count; bs \<leftarrow> get_buffers sb fixed_pos n; Some (Ready (Inr bs)) } in
        if \<not> wait_for_resource then
          (if moving_pos < min_target then Some (Ready (Inl kUnavailable)) else buffers)
        else
          (case await_pos min_target moving_pos moving_closed of
             Blocked \<Rightarrow> Some Blocked
           | Ready (Inl st) \<Rightarrow>
               if st \<noteq> kEndOfStream \<or> moving_pos < min_target then Some (Ready (Inl st)) else buffers
           | Ready (Inr _) \<Rightarrow> buffers))"

definition prepare_exactly :: "i64 \<Rightarrow> StreamBuffer \<Rightarrow> region list awaited option" where
  "prepare_exactly exact_count sb =
     pre_transfer sb exact_count (sb_commit_pos sb) (sb_consume_pos sb) (sb_consume_closed sb)
       (exact_count - sb_capacity sb) (Some exact_count) True"

definition prepare_at_least :: "i64 \<Rightarrow> StreamBuffer \<Rightarrow> region list awaited option" where
  "prepare_at_least min_count sb =
     pre_transfer sb min_count (sb_commit_pos sb) (sb_consume_pos sb) (sb_consume_closed sb)
       (min_count - sb_capacity sb) (sb_space sb) True"

definition commit :: "i64 \<Rightarrow> StreamBuffer \<Rightarrow> StreamBuffer" where
  "commit cnt sb = sb\<lparr>sb_commit_pos := sb_commit_pos sb + cnt\<rparr>"

definition consume_bytes :: "i64 \<Rightarrow> StreamBuffer \<Rightarrow> StreamBuffer" where
  "consume_bytes cnt sb = sb\<lparr>sb_consume_pos := sb_consume_pos sb + cnt\<rparr>"

text \<open>\<^verbatim>\<open>boost::asio::buffer_copy\<close> into regions of the ring, and out of them.\<close>

fun buffer_copy :: "region list \<Rightarrow> u8 list \<Rightarrow> u8 list \<Rightarrow> nat \<times> u8 list" where
  "buffer_copy [] src mem = (0, mem)"
| "buffer_copy ((b, n) # rs) src mem =
     (let k = min n (length src);
          mem = take b mem @ take k src @ drop (b + k) mem;
          (m, mem) = buffer_copy rs (drop k src) mem
      in (k + m, mem))"

definition region_bytes :: "u8 list \<Rightarrow> region \<Rightarrow> u8 list" where
  "region_bytes mem r = take (snd r) (drop (fst r) mem)"

text \<open>
  One iteration of the loop of \<^verbatim>\<open>write_all\<close>: the number of bytes copied, or the status it returns.
\<close>

definition write_some :: "u8 list \<Rightarrow> StreamBuffer \<Rightarrow> (nat awaited \<times> StreamBuffer) option" where
  "write_some src sb =
     do {
       prepared \<leftarrow> prepare_at_least 1 sb;
       case prepared of
         Blocked \<Rightarrow> Some (Blocked, sb)
       | Ready (Inl st) \<Rightarrow> Some (Ready (Inl st), sb)
       | Ready (Inr regions) \<Rightarrow>
           (case buffer_copy regions src (sb_buffer sb) of (n_copied, mem) \<Rightarrow>
              Some (Ready (Inr n_copied), commit (int n_copied) (sb\<lparr>sb_buffer := mem\<rparr>)))
     }"

text \<open>
  \<^verbatim>\<open>write_all\<close>: returns the bytes not yet written with \<open>Blocked\<close> if it has to wait for the reader.
\<close>

partial_function (option) write_all ::
    "u8 list \<Rightarrow> StreamBuffer \<Rightarrow> (unit awaited \<times> u8 list \<times> StreamBuffer) option" where
  "write_all src sb =
     (if src = [] then Some (Ready (Inr ()), [], sb)
      else Option.bind (write_some src sb) (\<lambda>(r, sb').
        case r of
          Blocked \<Rightarrow> Some (Blocked, src, sb')
        | Ready (Inl st) \<Rightarrow> Some (Ready (Inl st), src, sb')
        | Ready (Inr n_copied) \<Rightarrow> write_all (drop n_copied src) sb'))"

text \<open>
  \<^verbatim>\<open>fetch_at_least\<close>: the bytes of the returned buffers. If the first one is too short the first
  \<^verbatim>\<open>min_count\<close> bytes are copied to the temporary buffer, which replaces it.
\<close>

definition fetch_at_least :: "i64 \<Rightarrow> StreamBuffer \<Rightarrow> u8 list list awaited option" where
  "fetch_at_least min_count sb =
     (if min_count < 0 then None
      else do {
        buffers \<leftarrow> pre_transfer sb min_count (sb_consume_pos sb) (sb_commit_pos sb) (sb_commit_closed sb)
          min_count (sb_size sb) True;
        case buffers of
          Blocked \<Rightarrow> Some Blocked
        | Ready (Inl st) \<Rightarrow> Some (Ready (Inl st))
        | Ready (Inr regions) \<Rightarrow>
            (let min_count_z = nat min_count; bs = map (region_bytes (sb_buffer sb)) regions in
             if length bs > 1 \<and> length (hd bs) < min_count_z then
               let tmp = take min_count_z (concat bs);
                   back = drop (min_count_z - length (hd bs)) (last bs) in
               if length tmp \<noteq> min_count_z \<or> length bs \<noteq> 2 then None
               else Some (Ready (Inr (if back = [] then [tmp] else [tmp, back])))
             else Some (Ready (Inr bs)))
      })"

definition close_for_write :: "StreamBuffer \<Rightarrow> StreamBuffer" where
  "close_for_write sb =
     (case sb_commit_closed sb of None \<Rightarrow> sb\<lparr>sb_commit_closed := Some kEndOfStream\<rparr> | Some _ \<Rightarrow> sb)"

definition close_for_read :: "StreamBuffer \<Rightarrow> StreamBuffer" where
  "close_for_read sb =
     (case sb_consume_closed sb of None \<Rightarrow> sb\<lparr>sb_consume_closed := Some kClosed\<rparr> | Some _ \<Rightarrow> sb)"

definition sb_close :: "StreamBuffer \<Rightarrow> StreamBuffer" where
  "sb_close sb = close_for_write (close_for_read sb)"

text \<open>
  \<^verbatim>\<open>async_write_some\<close> on the path that does not wait (\<^verbatim>\<open>WaitForResource::kFalse\<close>), for an
  uninterrupted call.
\<close>

definition try_write_some :: "u8 list \<Rightarrow> StreamBuffer \<Rightarrow> (nat StatusOr \<times> StreamBuffer) option" where
  "try_write_some src sb =
     do {
       prepared \<leftarrow> pre_transfer sb 1 (sb_commit_pos sb) (sb_consume_pos sb) (sb_consume_closed sb)
         (1 - sb_capacity sb) (sb_space sb) False;
       case prepared of
         Blocked \<Rightarrow> None
       | Ready (Inl st) \<Rightarrow> Some (Inl st, sb)
       | Ready (Inr regions) \<Rightarrow>
           (case buffer_copy regions src (sb_buffer sb) of (bytes_transferred, mem) \<Rightarrow>
              if bytes_transferred = 0 then None
              else Some (Inr bytes_transferred, commit (int bytes_transferred) (sb\<lparr>sb_buffer := mem\<rparr>)))
     }"

subsection \<open>The bytes in the stream and the invariant\<close>

definition contents :: "StreamBuffer \<Rightarrow> u8 list" where
  "contents sb = map ((!) (sb_buffer sb)) (ring (nat (sb_capacity sb)) (nat (sb_consume_pos sb))
     (nat (sb_commit_pos sb - sb_consume_pos sb)))"

definition sb_inv :: "StreamBuffer \<Rightarrow> bool" where
  "sb_inv sb \<longleftrightarrow> 0 < sb_capacity sb \<and> int (length (sb_buffer sb)) = sb_capacity sb \<and>
     0 \<le> sb_consume_pos sb \<and> sb_consume_pos sb \<le> sb_commit_pos sb \<and>
     sb_commit_pos sb - sb_consume_pos sb \<le> sb_capacity sb"

lemma ring_bound:
  assumes "sb_inv sb"
  shows "\<forall>j \<in> set (ring (nat (sb_capacity sb)) s n). j < length (sb_buffer sb)"
proof -
  have "0 < nat (sb_capacity sb)" "nat (sb_capacity sb) = length (sb_buffer sb)"
    using assms by (auto simp: sb_inv_def)
  then show ?thesis by (auto simp: ring_def)
qed

definition region_indices :: "region list \<Rightarrow> nat list" where
  "region_indices rs = concat (map (\<lambda>r. [fst r..<fst r + snd r]) rs)"

lemma get_buffers_indices:
  assumes "sb_inv sb" and "0 \<le> offset" and "0 \<le> cnt" and "cnt \<le> sb_capacity sb"
  shows "\<exists>rs. get_buffers sb offset cnt = Some rs \<and>
    region_indices rs = ring (nat (sb_capacity sb)) (nat offset) (nat cnt) \<and> length rs \<le> 2 \<and> rs \<noteq> []"
proof -
  define c where "c = nat (sb_capacity sb)"
  define s where "s = nat offset"
  define n where "n = nat cnt"
  have eqs: "sb_capacity sb = int c" "offset = int s" "cnt = int n" "0 < c" "n \<le> c"
    using assms by (auto simp: c_def s_def n_def sb_inv_def)
  define f where "f = s mod c"
  have f: "f < c" using eqs by (simp add: f_def)
  have one: "(s + i) mod c = f + i" if "i < c - f" for i
    using that f by (simp add: f_def) (metis less_diff_conv mod_add_left_eq mod_less add.commute)
  have two: "(s + i) mod c = i - (c - f)" if "c - f \<le> i" "i < c" for i
  proof -
    have "(s + i) mod c = (f + i) mod c" by (simp add: f_def mod_add_left_eq)
    moreover have "f + i = c + (i - (c - f))" using that f by simp
    moreover have "(c + (i - (c - f))) mod c = i - (c - f)"
      using that f by (simp only: mod_add_self1) simp
    ultimately show ?thesis by simp
  qed
  have "nat (offset mod sb_capacity sb) = f" "nat (sb_capacity sb - offset mod sb_capacity sb) = c - f"
    using eqs f by (simp_all add: f_def zmod_int [symmetric] nat_diff_distrib of_nat_diff)
  moreover have "cnt \<le> sb_capacity sb - offset mod sb_capacity sb \<longleftrightarrow> n \<le> c - f"
    using eqs f by (simp add: f_def zmod_int [symmetric]) linarith
  moreover have "nat (cnt - (sb_capacity sb - offset mod sb_capacity sb)) = n - (c - f)"
    using eqs f by (simp add: f_def zmod_int [symmetric])
  moreover have "[f..<f + n] = ring c s n" if "n \<le> c - f"
    using that by (intro nth_equalityI) (auto simp: one)
  moreover have "[f..<f + (c - f)] @ [0..<n - (c - f)] = ring c s n" if "\<not> n \<le> c - f"
    using that eqs f by (intro nth_equalityI) (auto simp: nth_append one two)
  ultimately show ?thesis
    using eqs unfolding c_def [symmetric] s_def [symmetric] n_def [symmetric]
    by (auto simp: get_buffers_def Let_def region_indices_def)
qed


lemma map_nth_upt: "b + n \<le> length xs \<Longrightarrow> map ((!) xs) [b..<b + n] = take n (drop b xs)"
  by (rule nth_equalityI) auto

lemma region_bytes_indices:
  assumes "\<forall>j \<in> set (region_indices rs). j < length mem"
  shows "concat (map (region_bytes mem) rs) = map ((!) mem) (region_indices rs)"
  using assms
proof (induction rs)
  case (Cons r rs)
  have "fst r + snd r \<le> length mem \<or> snd r = 0"
    using Cons.prems by (cases "snd r") (auto simp: region_indices_def)
  then have "map ((!) mem) [fst r..<fst r + snd r] = region_bytes mem r"
    by (auto simp: region_bytes_def map_nth_upt)
  with Cons show ?case by (simp add: region_indices_def)
qed (simp add: region_indices_def)

text \<open>\<open>buffer_copy\<close> writes the source to the indices of the regions, in order, and nothing else.\<close>

lemma buffer_copy_spec:
  assumes "distinct (region_indices rs)" and "\<forall>j \<in> set (region_indices rs). j < length mem"
    and "buffer_copy rs src mem = (k, mem')"
  shows "k = min (length (region_indices rs)) (length src) \<and> length mem' = length mem \<and>
    (\<forall>i < k. mem' ! (region_indices rs ! i) = src ! i) \<and>
    (\<forall>j < length mem. j \<notin> set (take k (region_indices rs)) \<longrightarrow> mem' ! j = mem ! j)"
  using assms
proof (induction rs arbitrary: src mem k mem')
  case (Cons r rs)
  obtain b n where r: "r = (b, n)" by fastforce
  define m where "m = min n (length src)"
  define mem1 where "mem1 = take b mem @ take m src @ drop (b + m) mem"
  obtain l mem2 where rec: "buffer_copy rs (drop m src) mem1 = (l, mem2)" by fastforce
  have k: "k = m + l" and mem': "mem' = mem2"
    using Cons.prems(3) rec by (simp_all add: r m_def mem1_def Let_def)
  let ?I = "region_indices rs"
  have ri: "region_indices (r # rs) = [b..<b + n] @ ?I" by (simp add: r region_indices_def)
  have bn: "b + n \<le> length mem \<or> n = 0"
    using bspec [OF Cons.prems(2), of "b + n - 1"] by (cases n) (auto simp: ri)
  have inner: "distinct ?I" "\<forall>j \<in> set ?I. j < length mem"
    and disj: "set ?I \<inter> {b..<b + n} = {}"
    using Cons.prems(1,2) by (auto simp: ri)
  have len1: "length mem1 = length mem" using bn by (auto simp: mem1_def m_def)
  have nth1: "mem1 ! j = (if b \<le> j \<and> j < b + m then src ! (j - b) else mem ! j)" if "j < length mem" for j
    using that bn by (auto simp: mem1_def m_def nth_append min_def)
  from Cons.IH [OF inner(1) _ rec] inner(2) len1
  have IH: "l = min (length ?I) (length (drop m src))" "length mem2 = length mem"
    "\<And>i. i < l \<Longrightarrow> mem2 ! (?I ! i) = src ! (m + i)"
    "\<And>j. j < length mem \<Longrightarrow> j \<notin> set (take l ?I) \<Longrightarrow> mem2 ! j = mem1 ! j"
    by (auto simp: m_def)
  have "m < n \<Longrightarrow> l = 0" using IH(1) by (simp add: m_def min_def split: if_splits)
  then have idx: "(region_indices (r # rs)) ! i = (if i < m then b + i else ?I ! (i - m))" if "i < k" for i
    using that k by (cases "m < n") (auto simp: ri nth_append m_def)
  have tk: "set (take k (region_indices (r # rs))) = {b..<b + m} \<union> set (take l ?I)"
    using \<open>m < n \<Longrightarrow> l = 0\<close> k by (cases "m < n") (auto simp: ri m_def)
  have keep: "mem2 ! (b + i) = src ! i" if "i < m" for i
  proof -
    have "i < n" "b + i < length mem" using that bn by (auto simp: m_def)
    moreover from \<open>i < n\<close> have "b + i \<notin> set ?I" using disj by force
    then have "b + i \<notin> set (take l ?I)" using in_set_takeD by fastforce
    ultimately show ?thesis using IH(4) [of "b + i"] nth1 [of "b + i"] that by simp
  qed
  show ?case unfolding mem'
  proof (intro conjI allI impI)
    show "k = min (length (region_indices (r # rs))) (length src)"
      using k IH(1) by (auto simp: ri m_def min_def)
    show "mem2 ! (region_indices (r # rs) ! i) = src ! i" if "i < k" for i
      using that idx [OF that] keep [of i] IH(3) [of "i - m"] k by auto
    show "mem2 ! j = mem ! j" if "j < length mem" "j \<notin> set (take k (region_indices (r # rs)))" for j
      using that IH(4) [of j] nth1 [of j] by (auto simp: tk)
  qed (use IH(2) in simp)
qed (simp add: region_indices_def)


subsection \<open>Each operation on the contents\<close>

abbreviation sb_len :: "StreamBuffer \<Rightarrow> nat" where
  "sb_len sb \<equiv> nat (sb_commit_pos sb - sb_consume_pos sb)"

abbreviation sb_free :: "StreamBuffer \<Rightarrow> nat" where
  "sb_free sb \<equiv> nat (sb_capacity sb - (sb_commit_pos sb - sb_consume_pos sb))"

lemma length_contents [simp]: "length (contents sb) = sb_len sb"
  by (simp add: contents_def)

lemma contents_consume:
  assumes "sb_inv sb" and "n \<le> sb_len sb"
  shows "contents (consume_bytes (int n) sb) = drop n (contents sb)" and "sb_inv (consume_bytes (int n) sb)"
proof -
  have "nat (sb_consume_pos sb + int n) = nat (sb_consume_pos sb) + n"
    using assms by (simp add: sb_inv_def nat_add_distrib)
  with assms show "contents (consume_bytes (int n) sb) = drop n (contents sb)"
    by (intro nth_equalityI) (auto simp: contents_def consume_bytes_def sb_inv_def add.assoc)
  show "sb_inv (consume_bytes (int n) sb)"
    using assms by (auto simp: sb_inv_def consume_bytes_def)
qed

lemma contents_write:
  assumes inv: "sb_inv sb" and cp: "buffer_copy rs src (sb_buffer sb) = (k, mem')"
    and rs: "region_indices rs = ring (nat (sb_capacity sb)) (nat (sb_commit_pos sb)) (sb_free sb)"
  shows "k = min (sb_free sb) (length src)"
    and "contents (commit (int k) (sb\<lparr>sb_buffer := mem'\<rparr>)) = contents sb @ take k src"
    and "sb_inv (commit (int k) (sb\<lparr>sb_buffer := mem'\<rparr>))"
proof -
  define c where "c = nat (sb_capacity sb)"
  define a where "a = nat (sb_consume_pos sb)"
  define l where "l = sb_len sb"
  have eqs: "sb_capacity sb = int c" "sb_consume_pos sb = int a" "sb_commit_pos sb = int (a + l)"
    "0 < c" "l \<le> c" "length (sb_buffer sb) = c" "sb_free sb = c - l" "nat (sb_commit_pos sb) = a + l"
    using inv by (auto simp: c_def a_def l_def sb_inv_def)
  have idx: "region_indices rs = ring c (a + l) (c - l)" using rs eqs by simp
  have all: "\<forall>j \<in> set (ring c (a + l) (c - l)). j < length (sb_buffer sb)"
    using eqs by (auto simp: ring_def)
  from buffer_copy_spec [OF _ _ cp] distinct_ring [of "c - l" c "a + l"] all idx
  have k: "k = min (c - l) (length src)" and len: "length mem' = c"
    and new: "\<And>i. i < k \<Longrightarrow> mem' ! ((a + l + i) mod c) = src ! i"
    and old: "\<And>j. j < c \<Longrightarrow> j \<notin> set (take k (ring c (a + l) (c - l))) \<Longrightarrow> mem' ! j = sb_buffer sb ! j"
    using eqs by auto
  show "k = min (sb_free sb) (length src)" using k eqs by simp
  have keep: "mem' ! ((a + i) mod c) = sb_buffer sb ! ((a + i) mod c)" if "i < l" for i
  proof (rule old)
    show "(a + i) mod c \<notin> set (take k (ring c (a + l) (c - l)))"
    proof
      assume "(a + i) mod c \<in> set (take k (ring c (a + l) (c - l)))"
      then obtain j where "j < c - l" "(a + i) mod c = (a + l + j) mod c"
        by (auto dest!: in_set_takeD simp: ring_def)
      moreover from this have "a + i \<le> a + l + j" "a + l + j < a + i + c" using that eqs by linarith+
      ultimately have "a + i = a + l + j" using mod_close_inj by blast
      then show False using that by simp
    qed
  qed (use eqs in simp)
  have sum: "nat (int (a + l) + int k - int a) = l + k" "nat (int (a + l) - int a) = l" by simp_all
  have "contents (commit (int k) (sb\<lparr>sb_buffer := mem'\<rparr>)) = map ((!) mem') (ring c a (l + k))"
    using eqs(1-3) sum by (simp add: contents_def commit_def del: of_nat_add)
  also have "\<dots> = map ((!) mem') (ring c a l) @ map ((!) mem') (ring c (a + l) k)"
    by (simp add: ring_append)
  also have "map ((!) mem') (ring c a l) = contents sb"
    using eqs(1-3) sum keep by (simp add: contents_def ring_def del: of_nat_add)
  also have "map ((!) mem') (ring c (a + l) k) = take k src"
    using new k by (intro nth_equalityI) auto
  finally show "contents (commit (int k) (sb\<lparr>sb_buffer := mem'\<rparr>)) = contents sb @ take k src" .
  show "sb_inv (commit (int k) (sb\<lparr>sb_buffer := mem'\<rparr>))"
    using inv eqs len k by (auto simp: sb_inv_def commit_def)
qed

lemma write_some_spec:
  assumes inv: "sb_inv sb"
  shows "if sb_free sb = 0
    then write_some src sb = Some (case sb_consume_closed sb of None \<Rightarrow> Blocked | Some st \<Rightarrow> Ready (Inl st), sb)
    else \<exists>k sb'. write_some src sb = Some (Ready (Inr k), sb') \<and> k = min (sb_free sb) (length src) \<and>
      sb_inv sb' \<and> contents sb' = contents sb @ take k src \<and> sb_capacity sb' = sb_capacity sb \<and>
      sb_consume_closed sb' = sb_consume_closed sb \<and> sb_commit_closed sb' = sb_commit_closed sb"
proof (cases "sb_free sb = 0")
  case True
  with inv show ?thesis
    by (auto simp: write_some_def prepare_at_least_def pre_transfer_def await_pos_def sb_inv_def Let_def
        split: option.splits)
next
  case False
  have sp: "sb_space sb = Some (int (sb_free sb))"
    using inv by (auto simp: sb_space_def sb_size_def sb_inv_def Let_def)
  obtain rs where rs: "get_buffers sb (sb_commit_pos sb) (int (sb_free sb)) = Some rs"
    "region_indices rs = ring (nat (sb_capacity sb)) (nat (sb_commit_pos sb)) (sb_free sb)"
    using get_buffers_indices [OF inv, of "sb_commit_pos sb" "int (sb_free sb)"] inv
    by (auto simp: sb_inv_def)
  obtain k mem' where cp: "buffer_copy rs src (sb_buffer sb) = (k, mem')" by fastforce
  have "\<not> 1 > sb_capacity sb" "sb_consume_pos sb \<ge> sb_commit_pos sb + (1 - sb_capacity sb)"
    using False inv by (auto simp: sb_inv_def)
  then have "prepare_at_least 1 sb = Some (Ready (Inr rs))"
    using sp rs(1) by (simp add: prepare_at_least_def pre_transfer_def await_pos_def Let_def)
  with cp have "write_some src sb = Some (Ready (Inr k), commit (int k) (sb\<lparr>sb_buffer := mem'\<rparr>))"
    by (simp add: write_some_def)
  with False contents_write [OF inv cp rs(2)] show ?thesis by (auto simp: commit_def)
qed


lemma write_all_spec:
  assumes "sb_inv sb"
  shows "\<exists>r rest sb' w. write_all src sb = Some (r, rest, sb') \<and> sb_inv sb' \<and> src = w @ rest \<and>
    contents sb' = contents sb @ w \<and> sb_capacity sb' = sb_capacity sb \<and>
    sb_consume_closed sb' = sb_consume_closed sb \<and> sb_commit_closed sb' = sb_commit_closed sb \<and>
    r = (if rest = [] then Ready (Inr ())
         else case sb_consume_closed sb of None \<Rightarrow> Blocked | Some st \<Rightarrow> Ready (Inl st)) \<and>
    (rest \<noteq> [] \<longrightarrow> sb_free sb' = 0)"
  using assms
proof (induction "length src" arbitrary: src sb rule: less_induct)
  case less
  show ?case
  proof (cases "src = []")
    case True
    with less.prems show ?thesis by (subst write_all.simps) simp
  next
    case ne: False
    note ws = write_some_spec [OF less.prems, of src]
    show ?thesis
    proof (cases "sb_free sb = 0")
      case True
      with ws ne less.prems show ?thesis
        by (subst write_all.simps) (auto split: option.splits)
    next
      case False
      then obtain k sb1 where w1: "write_some src sb = Some (Ready (Inr k), sb1)"
        "k = min (sb_free sb) (length src)" "sb_inv sb1" "contents sb1 = contents sb @ take k src"
        "sb_capacity sb1 = sb_capacity sb" "sb_consume_closed sb1 = sb_consume_closed sb"
        "sb_commit_closed sb1 = sb_commit_closed sb"
        using ws by auto
      have "length (drop k src) < length src" using w1(2) False ne by (cases src) auto
      from less.hyps [OF this w1(3)] obtain r rest sb2 w where
        "write_all (drop k src) sb1 = Some (r, rest, sb2)" "sb_inv sb2" "drop k src = w @ rest"
        "contents sb2 = contents sb1 @ w" "sb_capacity sb2 = sb_capacity sb1"
        "sb_consume_closed sb2 = sb_consume_closed sb1" "sb_commit_closed sb2 = sb_commit_closed sb1"
        "r = (if rest = [] then Ready (Inr ())
         else case sb_consume_closed sb1 of None \<Rightarrow> Blocked | Some st \<Rightarrow> Ready (Inl st))"
        "rest \<noteq> [] \<longrightarrow> sb_free sb2 = 0"
        by blast
      moreover from \<open>drop k src = w @ rest\<close> have "src = (take k src @ w) @ rest"
        by (metis append.assoc append_take_drop_id)
      ultimately show ?thesis using w1 ne
        by (subst write_all.simps) (auto intro!: exI [of _ "take k src @ w"])
    qed
  qed
qed

text \<open>\<open>fetch_at_least\<close> shows all bytes, with the first buffer at least as long as asked for.\<close>

lemma fetch_spec:
  assumes inv: "sb_inv sb" and m: "m \<le> sb_len sb"
  shows "\<exists>bs. fetch_at_least (int m) sb = Some (Ready (Inr bs)) \<and> concat bs = contents sb \<and>
    bs \<noteq> [] \<and> m \<le> length (hd bs)"
proof -
  obtain rs where rs: "get_buffers sb (sb_consume_pos sb) (int (sb_len sb)) = Some rs"
    "region_indices rs = ring (nat (sb_capacity sb)) (nat (sb_consume_pos sb)) (sb_len sb)"
    "length rs \<le> 2" "rs \<noteq> []"
    using get_buffers_indices [OF inv, of "sb_consume_pos sb" "int (sb_len sb)"] inv
    by (auto simp: sb_inv_def)
  have "int m \<le> sb_capacity sb" "sb_size sb = Some (int (sb_len sb))"
    "sb_commit_pos sb \<ge> sb_consume_pos sb + int m"
    using inv m by (auto simp: sb_inv_def sb_size_def Let_def)
  then have pre: "pre_transfer sb (int m) (sb_consume_pos sb) (sb_commit_pos sb) (sb_commit_closed sb)
      (int m) (sb_size sb) True = Some (Ready (Inr rs))"
    using rs(1) by (simp add: pre_transfer_def await_pos_def Let_def)
  define bs where "bs = map (region_bytes (sb_buffer sb)) rs"
  have "\<forall>j \<in> set (region_indices rs). j < length (sb_buffer sb)"
    using ring_bound [OF inv] rs(2) by metis
  then have cc: "concat bs = contents sb"
    by (simp add: bs_def contents_def region_bytes_indices rs(2))
  show ?thesis
  proof (cases "length bs > 1 \<and> length (hd bs) < m")
    case False
    have "m \<le> length (hd bs)"
    proof (cases "length bs > 1")
      case True
      with False show ?thesis by simp
    next
      case nb: False
      with rs(4) obtain b where "bs = [b]" by (cases rs) (auto simp: bs_def)
      then show ?thesis using cc m by (metis concat.simps append_Nil2 length_contents list.sel(1))
    qed
    with False pre cc rs(4) show ?thesis by (auto simp: fetch_at_least_def Let_def bs_def [symmetric]) (simp_all add: bs_def)
  next
    case True
    with rs(3,4) obtain b1 b2 where b: "bs = [b1, b2]"
      by (cases rs; cases "tl rs") (auto simp: bs_def)
    have len: "m \<le> length (b1 @ b2)" using cc m b by (metis append_Nil2 concat.simps length_contents)
    have "length rs = 2" using b by (metis bs_def length_map length_Cons list.size(3) numeral_2_eq_2)
    moreover have "concat bs = b1 @ b2" using b by simp
    moreover have "take m (b1 @ b2) @ drop (m - length b1) b2 = b1 @ b2" using True b by simp
    ultimately show ?thesis using True pre len cc b
      by (auto simp: fetch_at_least_def Let_def bs_def [symmetric] simp del: length_contents simp flip: cc)
  qed
qed


lemma fetch_short:
  assumes inv: "sb_inv sb" and m: "sb_len sb < m"
  shows "fetch_at_least (int m) sb = Some (if sb_capacity sb < int m then Ready (Inl kInvalidArgument)
    else case sb_commit_closed sb of None \<Rightarrow> Blocked | Some st \<Rightarrow> Ready (Inl st))"
  using assms
  by (auto simp: fetch_at_least_def pre_transfer_def await_pos_def sb_inv_def Let_def split: option.splits)

subsection \<open>Histories of one writer and one reader\<close>

text \<open>
  The writer calls \<^verbatim>\<open>write_all\<close> (and, when it had to wait, goes on later with the rest as a new
  operation); the reader fetches at least \<open>n\<close> bytes, takes the first \<open>n\<close> and consumes them.
\<close>

datatype sb_op = Sb_write "u8 list" | Sb_read nat | Sb_close_write | Sb_close_read

definition read_exactly :: "nat \<Rightarrow> StreamBuffer \<Rightarrow> (u8 list \<times> StreamBuffer) option" where
  "read_exactly n sb =
     do {
       fetched \<leftarrow> fetch_at_least (int n) sb;
       case fetched of
         Ready (Inr bs) \<Rightarrow> Some (take n (concat bs), consume_bytes (int n) sb)
       | _ \<Rightarrow> Some ([], sb)
     }"

fun sb_exec :: "sb_op \<Rightarrow> StreamBuffer \<Rightarrow> (u8 list \<times> u8 list \<times> StreamBuffer) option" where
  "sb_exec (Sb_write src) sb =
     do {
       (_, rest, sb) \<leftarrow> write_all src sb;
       Some (take (length src - length rest) src, [], sb)
     }"
| "sb_exec (Sb_read n) sb = do { (bytes, sb) \<leftarrow> read_exactly n sb; Some ([], bytes, sb) }"
| "sb_exec Sb_close_write sb = Some ([], [], close_for_write sb)"
| "sb_exec Sb_close_read sb = Some ([], [], close_for_read sb)"

fun sb_run :: "sb_op list \<Rightarrow> StreamBuffer \<Rightarrow> (u8 list \<times> u8 list \<times> StreamBuffer) option" where
  "sb_run [] sb = Some ([], [], sb)"
| "sb_run (op # ops) sb =
     do {
       (written, bytes_read, sb) \<leftarrow> sb_exec op sb;
       (written', bytes_read', sb) \<leftarrow> sb_run ops sb;
       Some (written @ written', bytes_read @ bytes_read', sb)
     }"

lemma read_exactly_spec:
  assumes "sb_inv sb"
  shows "\<exists>sb'. read_exactly n sb = Some (if n \<le> sb_len sb then take n (contents sb) else [], sb') \<and> sb_inv sb' \<and>
     contents sb' = (if n \<le> sb_len sb then drop n (contents sb) else contents sb)"
proof (cases "n \<le> sb_len sb")
  case True
  with fetch_spec [OF assms True] contents_consume [OF assms True] show ?thesis
    by (auto simp: read_exactly_def)
next
  case False
  with fetch_short [OF assms, of n] assms show ?thesis
    by (auto simp: read_exactly_def split: option.splits)
qed

lemma close_contents [simp]:
  "contents (close_for_write sb) = contents sb" "contents (close_for_read sb) = contents sb"
  "sb_inv (close_for_write sb) = sb_inv sb" "sb_inv (close_for_read sb) = sb_inv sb"
  by (auto simp: close_for_write_def close_for_read_def contents_def sb_inv_def split: option.splits)

lemma sb_exec_spec:
  assumes "sb_inv sb"
  shows "\<exists>w r sb'. sb_exec op sb = Some (w, r, sb') \<and> sb_inv sb' \<and> contents sb @ w = r @ contents sb'"
proof (cases op)
  case (Sb_write src)
  from write_all_spec [OF assms, of src] obtain r rest sb' w where
    "write_all src sb = Some (r, rest, sb')" "sb_inv sb'" "src = w @ rest" "contents sb' = contents sb @ w"
    by blast
  with Sb_write show ?thesis by simp
next
  case (Sb_read n)
  with read_exactly_spec [OF assms, of n] show ?thesis by auto
qed (use assms in simp_all)

lemma sb_run_spec:
  assumes "sb_inv sb"
  shows "\<exists>w r sb'. sb_run ops sb = Some (w, r, sb') \<and> sb_inv sb' \<and> contents sb @ w = r @ contents sb'"
  using assms
proof (induction ops arbitrary: sb)
  case (Cons op ops)
  from sb_exec_spec [OF Cons.prems, of op] obtain w r sb1 where
    1: "sb_exec op sb = Some (w, r, sb1)" "sb_inv sb1" "contents sb @ w = r @ contents sb1" by blast
  from Cons.IH [OF 1(2)] obtain w2 r2 sb2 where
    "sb_run ops sb1 = Some (w2, r2, sb2)" "sb_inv sb2" "contents sb1 @ w2 = r2 @ contents sb2" by blast
  with 1 show ?case by (simp flip: append_assoc) (metis append_assoc)
qed simp

lemma StreamBuffer_init_props:
  "0 < c \<Longrightarrow> length mem = c \<Longrightarrow> sb_inv (StreamBuffer_init c mem)"
  "contents (StreamBuffer_init c mem) = []"
  by (auto simp: sb_inv_def StreamBuffer_init_def contents_def ring_def)

subsection \<open>Properties\<close>

text \<open>
  C6 (refinement). The ring buffer is a FIFO byte stream: for every history of writes, reads and
  closes on a new buffer, no check fails, \<^verbatim>\<open>write_all\<close> terminates, and the bytes accepted from the
  writer are exactly the bytes delivered to the reader, in order, followed by the bytes still in
  the buffer, whose number never exceeds the capacity.
\<close>

theorem StreamBuffer_fifo:
  assumes "0 < capacity" and "length mem = capacity"
  shows "\<exists>written bytes_read sb. sb_run ops (StreamBuffer_init capacity mem) = Some (written, bytes_read, sb) \<and>
     written = bytes_read @ contents sb \<and> sb_inv sb"
  using sb_run_spec [OF StreamBuffer_init_props(1) [OF assms], of ops]
  by (simp add: StreamBuffer_init_props(2))

theorem StreamBuffer_fifo_witness:
  "\<exists>written bytes_read sb. sb_run [Sb_write [1, 2, 3, 4, 5], Sb_read 2, Sb_write [5, 6], Sb_read 3]
       (StreamBuffer_init 4 [0, 0, 0, 0]) = Some (written, bytes_read, sb) \<and>
     written = bytes_read @ contents sb \<and> sb_inv sb"
  by (rule StreamBuffer_fifo) simp_all

text \<open>
  \<^verbatim>\<open>fetch_at_least(n)\<close>: with enough bytes in the buffer it returns all of them, and
  its first buffer holds at least \<open>n\<close> even where the bytes wrap around the end of the ring (also
  after the writer closed); with too few it waits, or returns \<^verbatim>\<open>kEndOfStream\<close> once the writer closed,
  and a request beyond the capacity is refused with \<^verbatim>\<open>kInvalidArgument\<close>.
\<close>

theorem fetch_at_least_outcome:
  assumes "sb_inv sb"
  shows "if n \<le> length (contents sb)
     then \<exists>bs. fetch_at_least (int n) sb = Some (Ready (Inr bs)) \<and> concat bs = contents sb \<and>
        bs \<noteq> [] \<and> n \<le> length (hd bs)
     else fetch_at_least (int n) sb = Some (if sb_capacity sb < int n then Ready (Inl kInvalidArgument)
        else case sb_commit_closed sb of None \<Rightarrow> Blocked | Some st \<Rightarrow> Ready (Inl st))"
  using fetch_spec [OF assms, of n] fetch_short [OF assms, of n] by auto

theorem fetch_at_least_outcome_witness:
  "let sb = \<lparr>sb_capacity = 4, sb_buffer = [5, 6, 3, 4], sb_consume_pos = 2, sb_commit_pos = 6,
       sb_consume_closed = None, sb_commit_closed = Some kEndOfStream\<rparr> in
   \<exists>bs. fetch_at_least 3 sb = Some (Ready (Inr bs)) \<and> concat bs = [3, 4, 5, 6] \<and> 3 \<le> length (hd bs)"
proof -
  let ?sb = "\<lparr>sb_capacity = 4, sb_buffer = [5, 6, 3, 4], sb_consume_pos = 2, sb_commit_pos = 6,
       sb_consume_closed = None, sb_commit_closed = Some kEndOfStream\<rparr> :: StreamBuffer"
  have "sb_inv ?sb" "contents ?sb = [3, 4, 5, 6]" by code_simp+
  with fetch_at_least_outcome [of ?sb 3] show ?thesis by auto
qed

end
