(* ===== verification/Radix_Queue.thy ===== *)
theory Radix_Queue
  imports Batt_Prelude
begin

section \<open>RadixQueue: a FIFO queue of digits packed into 64-bit words\<close>

text \<open>
  Models \<^verbatim>\<open>src/src/batteries/radix_queue.hpp\<close>. Each segment packs a sequence of digits, each below
  its own radix, into one 64-bit value with the product of the radixes beside it; the segments form
  a ring of \<^verbatim>\<open>kQueueSize\<close> (here the length of the array), one for every 64 bits of the capacity that is the
  template argument. A failed \<^verbatim>\<open>BATT_CHECK\<close> is \<open>None\<close>. The
  specification is the list of the (radix, digit) pairs in the queue.
\<close>

record Segment =
  seg_radix :: u64
  seg_value :: u64

record RadixQueue =
  rq_front :: nat
  rq_back :: nat
  rq_queue :: "Segment list"

abbreviation kQueueSize :: "RadixQueue \<Rightarrow> nat" where
  "kQueueSize q \<equiv> length (rq_queue q)"

definition empty_segment :: Segment where
  "empty_segment = \<lparr>seg_radix = 1, seg_value = 0\<rparr>"

definition RadixQueue_init :: "nat \<Rightarrow> RadixQueue" where
  "RadixQueue_init kCapacityInBits =
     \<lparr>rq_front = 0, rq_back = 0, rq_queue = replicate (kCapacityInBits div 64) empty_segment\<rparr>"

definition advance_index :: "nat \<Rightarrow> nat \<Rightarrow> nat" where
  "advance_index n i = (i + 1) mod n"

definition queue_size :: "RadixQueue \<Rightarrow> nat" where
  "queue_size q =
     (let upper_bound = (if rq_front q \<le> rq_back q then rq_back q + 1 else kQueueSize q + rq_back q + 1)
      in upper_bound - rq_front q)"

definition rq_full :: "RadixQueue \<Rightarrow> bool" where
  "rq_full q \<longleftrightarrow> rq_front q = (rq_back q + 1) mod kQueueSize q"

definition rq_empty :: "RadixQueue \<Rightarrow> bool" where
  "rq_empty q \<longleftrightarrow> queue_size q = 1 \<and> seg_radix (rq_queue q ! rq_front q) = 1"

definition rq_clear :: "RadixQueue \<Rightarrow> RadixQueue" where
  "rq_clear q = q\<lparr>rq_front := 0, rq_back := 0, rq_queue := (rq_queue q)[0 := empty_segment]\<rparr>"

definition push_back :: "RadixQueue \<Rightarrow> RadixQueue option" where
  "push_back q =
     (if rq_full q then None
      else let b = advance_index (kQueueSize q) (rq_back q)
           in Some (q\<lparr>rq_back := b, rq_queue := (rq_queue q)[b := empty_segment]\<rparr>))"

definition pop_front :: "RadixQueue \<Rightarrow> RadixQueue option" where
  "pop_front q =
     (if rq_front q = rq_back q then None
      else Some (q\<lparr>rq_front := advance_index (kQueueSize q) (rq_front q)\<rparr>))"

definition rq_push :: "u64 \<Rightarrow> u64 \<Rightarrow> RadixQueue \<Rightarrow> RadixQueue option" where
  "rq_push radix val q =
     (if \<not> radix > val then None
      else do {
        q \<leftarrow> (if (- 1) div seg_radix (rq_queue q ! rq_back q) < radix then push_back q else Some q);
        let s = rq_queue q ! rq_back q;
        let s = s\<lparr>seg_value := seg_value s + val * seg_radix s\<rparr>;
        let s = s\<lparr>seg_radix := seg_radix s * radix\<rparr>;
        Some (q\<lparr>rq_queue := (rq_queue q)[rq_back q := s]\<rparr>)
      })"

definition rq_pop :: "u64 \<Rightarrow> RadixQueue \<Rightarrow> (u64 \<times> RadixQueue) option" where
  "rq_pop radix q =
     (let s = rq_queue q ! rq_front q in
      if \<not> radix \<le> seg_radix s \<or> radix = 0 then None
      else let val = seg_value s mod radix;
               s = s\<lparr>seg_radix := seg_radix s div radix, seg_value := seg_value s div radix\<rparr>;
               q = q\<lparr>rq_queue := (rq_queue q)[rq_front q := s]\<rparr> in
        if \<not> seg_value s < seg_radix s then None
        else do {
          q \<leftarrow> (if seg_radix s = 1 \<and> queue_size q > 1 then pop_front q else Some q);
          Some (val, q)
        })"

text \<open>Equality compares the segments in queue order.\<close>

definition segments :: "RadixQueue \<Rightarrow> Segment list" where
  "segments q = map ((!) (rq_queue q)) (ring (kQueueSize q) (rq_front q) (queue_size q))"

definition rq_equals :: "RadixQueue \<Rightarrow> RadixQueue \<Rightarrow> bool" where
  "rq_equals q other \<longleftrightarrow> queue_size q = queue_size other \<and>
     (\<forall>i < queue_size q.
        seg_radix (rq_queue q ! ((rq_front q + i) mod kQueueSize q)) =
          seg_radix (rq_queue other ! ((rq_front other + i) mod kQueueSize other)) \<and>
        seg_value (rq_queue q ! ((rq_front q + i) mod kQueueSize q)) =
          seg_value (rq_queue other ! ((rq_front other + i) mod kQueueSize other)))"

subsection \<open>What a segment and a queue denote\<close>

fun enc_radix :: "(nat \<times> nat) list \<Rightarrow> nat" where
  "enc_radix [] = 1"
| "enc_radix ((r, v) # ds) = r * enc_radix ds"

fun enc_value :: "(nat \<times> nat) list \<Rightarrow> nat" where
  "enc_value [] = 0"
| "enc_value ((r, v) # ds) = v + r * enc_value ds"

abbreviation digits_ok :: "(nat \<times> nat) list \<Rightarrow> bool" where
  "digits_ok ds \<equiv> \<forall>(r, v) \<in> set ds. v < r"

definition encodes :: "(nat \<times> nat) list \<Rightarrow> Segment \<Rightarrow> bool" where
  "encodes ds s \<longleftrightarrow> digits_ok ds \<and> unat (seg_radix s) = enc_radix ds \<and> unat (seg_value s) = enc_value ds"

definition rq_inv :: "RadixQueue \<Rightarrow> bool" where
  "rq_inv q \<longleftrightarrow> rq_front q < kQueueSize q \<and> rq_back q < kQueueSize q"

definition represents :: "RadixQueue \<Rightarrow> (nat \<times> nat) list \<Rightarrow> bool" where
  "represents q ds \<longleftrightarrow> rq_inv q \<and>
     (\<exists>dss. ds = concat dss \<and> list_all2 encodes dss (segments q) \<and>
        (length dss > 1 \<longrightarrow> (\<forall>d \<in> set dss. enc_radix d > 1)))"

lemma enc_append:
  "enc_radix (ds @ es) = enc_radix ds * enc_radix es"
  "enc_value (ds @ es) = enc_value ds + enc_radix ds * enc_value es"
  by (induction ds) (auto simp: algebra_simps)

lemma enc_value_less: "digits_ok ds \<Longrightarrow> enc_value ds < enc_radix ds"
proof (induction ds)
  case (Cons d ds)
  obtain r v where d: "d = (r, v)" by fastforce
  with Cons have "v < r" "Suc (enc_value ds) \<le> enc_radix ds" by auto
  then have "v + r * enc_value ds < r * Suc (enc_value ds)" by simp
  also have "\<dots> \<le> r * enc_radix ds" using \<open>Suc (enc_value ds) \<le> enc_radix ds\<close> by (rule mult_le_mono2)
  finally show ?case by (simp add: d)
qed simp

lemma enc_radix_one: "digits_ok ds \<Longrightarrow> enc_radix ds = 1 \<Longrightarrow> enc_value ds = 0"
  using enc_value_less [of ds] by simp

subsection \<open>The ring of segments\<close>

lemma queue_size_bounds:
  assumes "rq_inv q"
  shows "1 \<le> queue_size q" "queue_size q \<le> kQueueSize q"
    and "rq_back q = (rq_front q + (queue_size q - 1)) mod kQueueSize q"
proof -
  show "1 \<le> queue_size q" "queue_size q \<le> kQueueSize q"
    using assms by (auto simp: rq_inv_def queue_size_def Let_def)
  show "rq_back q = (rq_front q + (queue_size q - 1)) mod kQueueSize q"
    using assms by (auto simp: rq_inv_def queue_size_def Let_def)
qed

lemma queue_size_unique:
  assumes "rq_inv q" and "1 \<le> n" and "n \<le> kQueueSize q"
    and "rq_back q = (rq_front q + (n - 1)) mod kQueueSize q"
  shows "queue_size q = n"
proof -
  note b = queue_size_bounds [OF assms(1)]
  obtain m k where mk: "n = Suc m" "queue_size q = Suc k"
    using assms(2) b(1) by (metis One_nat_def Suc_le_D)
  have "rq_front q + k = rq_front q + m"
    using assms(3,4) b(2,3) mk mod_close_inj [of "rq_front q + k" "kQueueSize q" "rq_front q + m"]
      mod_close_inj [of "rq_front q + m" "kQueueSize q" "rq_front q + k"]
    by (cases "k \<le> m") auto
  then show ?thesis using mk by simp
qed

lemma rq_full_iff: "rq_inv q \<Longrightarrow> rq_full q \<longleftrightarrow> queue_size q = kQueueSize q"
proof -
  assume inv: "rq_inv q"
  note b = queue_size_bounds [OF inv]
  have e: "(rq_back q + 1) mod kQueueSize q = (rq_front q + queue_size q) mod kQueueSize q"
    using b(1,3) by (metis Suc_eq_plus1 add_Suc_right mod_Suc_eq ordered_cancel_comm_monoid_diff_class.add_diff_inverse plus_1_eq_Suc)
  have f: "rq_front q = rq_front q mod kQueueSize q" using inv by (simp add: rq_inv_def)
  show ?thesis
  proof
    assume "rq_full q"
    then have "rq_front q mod kQueueSize q = (rq_front q + queue_size q) mod kQueueSize q"
      using e f by (simp add: rq_full_def)
    then have "\<not> queue_size q < kQueueSize q"
      using b(1) mod_close_inj [of "rq_front q" "kQueueSize q" "rq_front q + queue_size q"] by auto
    with b(2) show "queue_size q = kQueueSize q" by simp
  next
    assume "queue_size q = kQueueSize q"
    with e f show "rq_full q" by (simp add: rq_full_def)
  qed
qed


lemma length_segments [simp]: "length (segments q) = queue_size q"
  by (simp add: segments_def)

lemma nth_segments: "i < queue_size q \<Longrightarrow> segments q ! i = rq_queue q ! ((rq_front q + i) mod kQueueSize q)"
  by (simp add: segments_def)

text \<open>Writing a cell of the ring changes the segment that lives there and no other.\<close>

lemma segments_update:
  assumes "rq_inv q" and "k < queue_size q"
  shows "segments (q\<lparr>rq_queue := (rq_queue q)[(rq_front q + k) mod kQueueSize q := s]\<rparr>) = (segments q)[k := s]"
proof -
  note b = queue_size_bounds [OF assms(1)]
  let ?j = "(rq_front q + k) mod kQueueSize q"
  have pos: "0 < kQueueSize q" using assms(1) by (auto simp: rq_inv_def)
  have "?j = (rq_front q + i) mod kQueueSize q \<longleftrightarrow> i = k" if "i < queue_size q" for i
    using that assms(2) b mod_close_inj [of "rq_front q + i" "kQueueSize q" "rq_front q + k"]
      mod_close_inj [of "rq_front q + k" "kQueueSize q" "rq_front q + i"]
    by (cases "i \<le> k") auto
  moreover have "queue_size (q\<lparr>rq_queue := (rq_queue q)[?j := s]\<rparr>) = queue_size q"
    by (simp add: queue_size_def)
  moreover have "?j < kQueueSize q" using pos by (rule mod_less_divisor)
  ultimately have "segments (q\<lparr>rq_queue := (rq_queue q)[?j := s]\<rparr>) ! i = (segments q)[k := s] ! i"
    if "i < queue_size q" for i
    using that assms(2) by (cases "i = k") (auto simp: nth_segments nth_list_update)
  with \<open>queue_size (q\<lparr>rq_queue := (rq_queue q)[?j := s]\<rparr>) = queue_size q\<close> show ?thesis
    by (intro nth_equalityI) auto
qed

lemma segments_set_back:
  assumes "rq_inv q"
  shows "segments (q\<lparr>rq_queue := (rq_queue q)[rq_back q := s]\<rparr>) = butlast (segments q) @ [s]"
proof -
  note b = queue_size_bounds [OF assms]
  have "segments (q\<lparr>rq_queue := (rq_queue q)[rq_back q := s]\<rparr>) = (segments q)[queue_size q - 1 := s]"
    using segments_update [OF assms, of "queue_size q - 1" s] b by simp
  also have "\<dots> = butlast (segments q) @ [s]"
    using b(1) by (metis One_nat_def Suc_le_lessD butlast_list_update last_list_update
        length_0_conv length_greater_0_conv length_list_update length_segments append_butlast_last_id)
  finally show ?thesis .
qed

lemma segments_set_front:
  assumes "rq_inv q"
  shows "segments (q\<lparr>rq_queue := (rq_queue q)[rq_front q := s]\<rparr>) = s # tl (segments q)"
proof -
  note b = queue_size_bounds [OF assms]
  have f: "(rq_front q + 0) mod kQueueSize q = rq_front q" using assms by (simp add: rq_inv_def)
  from b(1) obtain x xs where "segments q = x # xs" by (cases "segments q") (auto dest: arg_cong [of _ _ length])
  with segments_update [OF assms, of 0 s] f b(1) show ?thesis by simp
qed

lemma segments_ends:
  assumes "rq_inv q"
  shows "segments q \<noteq> []" "hd (segments q) = rq_queue q ! rq_front q" "last (segments q) = rq_queue q ! rq_back q"
proof -
  note b = queue_size_bounds [OF assms]
  show ne: "segments q \<noteq> []" using b(1) by (metis length_0_conv length_segments not_one_le_zero)
  show "hd (segments q) = rq_queue q ! rq_front q"
    using ne b(1) assms by (simp add: hd_conv_nth nth_segments rq_inv_def)
  show "last (segments q) = rq_queue q ! rq_back q"
    using ne b by (simp add: last_conv_nth nth_segments)
qed

lemma push_back_segments:
  assumes inv: "rq_inv q" and "queue_size q < kQueueSize q"
  shows "\<exists>q'. push_back q = Some q' \<and> rq_inv q' \<and> segments q' = segments q @ [empty_segment] \<and>
    kQueueSize q' = kQueueSize q \<and> queue_size q' = Suc (queue_size q)"
proof -
  note b = queue_size_bounds [OF inv]
  let ?n = "queue_size q" and ?N = "kQueueSize q"
  let ?b = "advance_index ?N (rq_back q)"
  let ?q1 = "q\<lparr>rq_back := ?b\<rparr>"
  let ?q' = "q\<lparr>rq_back := ?b, rq_queue := (rq_queue q)[?b := empty_segment]\<rparr>"
  have bb: "?b = (rq_front q + ?n) mod ?N"
  proof -
    have "(rq_back q + 1) mod ?N = (rq_front q + (?n - 1) + 1) mod ?N"
      using b(3) by (metis mod_add_left_eq)
    then show ?thesis using b(1) by (simp add: advance_index_def)
  qed
  have pos: "0 < ?N" using assms(2) by linarith
  have inv1: "rq_inv ?q1" "rq_inv ?q'"
    using inv mod_less_divisor [OF pos, of "rq_front q + ?n"] by (auto simp: rq_inv_def bb)
  have n1: "queue_size ?q1 = Suc ?n"
    by (rule queue_size_unique) (use inv1 assms(2) bb in auto)
  have "segments ?q1 = map ((!) (rq_queue q)) (ring ?N (rq_front q) (?n + 1))"
    using n1 by (simp add: segments_def)
  also have "\<dots> = segments q @ [rq_queue q ! ?b]"
    by (simp only: ring_append map_append) (simp add: segments_def ring_def bb)
  finally have "segments ?q' = segments q @ [empty_segment]"
    using segments_update [OF inv1(1), of ?n empty_segment] n1 bb by (simp add: list_update_append)
  moreover have "push_back q = Some ?q'"
    using assms(2) rq_full_iff [OF inv] by (simp add: push_back_def Let_def)
  moreover have "queue_size ?q' = Suc ?n"
    by (rule queue_size_unique) (use inv1 assms(2) bb in auto)
  ultimately show ?thesis using inv1(2) by auto
qed

lemma pop_front_segments:
  assumes inv: "rq_inv q" and "1 < queue_size q"
  shows "\<exists>q'. pop_front q = Some q' \<and> rq_inv q' \<and> segments q' = tl (segments q) \<and> kQueueSize q' = kQueueSize q"
proof -
  note b = queue_size_bounds [OF inv]
  let ?n = "queue_size q" and ?N = "kQueueSize q"
  let ?q' = "q\<lparr>rq_front := advance_index ?N (rq_front q)\<rparr>"
  have ne: "rq_front q \<noteq> rq_back q"
  proof
    assume "rq_front q = rq_back q"
    then have "queue_size q = 1" by (simp add: queue_size_def)
    with assms(2) show False by simp
  qed
  have pos: "0 < ?N" using inv by (auto simp: rq_inv_def)
  have inv': "rq_inv ?q'"
    using inv mod_less_divisor [OF pos, of "rq_front q + 1"] by (auto simp: rq_inv_def advance_index_def)
  have n': "queue_size ?q' = ?n - 1"
  proof (rule queue_size_unique [OF inv'])
    obtain m where "?n = Suc (Suc m)" using assms(2) by (metis Suc_le_D Suc_le_eq Suc_le_mono One_nat_def)
    then have "(rq_front q + (?n - 1)) mod ?N = ((rq_front q + 1) mod ?N + (?n - 1 - 1)) mod ?N"
      by (simp add: mod_add_left_eq)
    then show "rq_back ?q' = (rq_front ?q' + (?n - 1 - 1)) mod kQueueSize ?q'"
      using b(3) by (simp add: advance_index_def)
  qed (use assms(2) b in auto)
  have "segments ?q' = tl (segments q)"
  proof (rule nth_equalityI)
    fix i assume "i < length (segments ?q')"
    then have i: "i < ?n - 1" using n' by simp
    then show "segments ?q' ! i = tl (segments q) ! i"
      using n' by (simp add: nth_segments nth_tl advance_index_def mod_add_left_eq)
  qed (simp add: n')
  with ne inv' show ?thesis by (simp add: pop_front_def)
qed


subsection \<open>Push and pop on the denoted digits\<close>

lemma radix_mult_fits:
  fixes a b :: u64
  assumes "\<not> (- 1) div a < b" and "0 < a"
  shows "unat a * unat b < 2 ^ 64"
proof -
  have "unat b \<le> unat ((- 1 :: u64) div a)" using assms(1) by (simp add: word_le_nat_alt not_less)
  also have "\<dots> = (2 ^ 64 - 1) div unat a" by (simp add: unat_div unsigned_minus_1_eq_mask mask_eq_exp_minus_1)
  finally have "unat b * unat a \<le> (2 ^ 64 - 1) div unat a * unat a" by (rule mult_le_mono1)
  also have "\<dots> \<le> 2 ^ 64 - 1" by (rule div_times_less_eq_dividend)
  finally show ?thesis by (simp add: mult.commute)
qed

lemma encodes_snoc:
  fixes radix val :: u64
  assumes "encodes ds s" and "val < radix" and "unat (seg_radix s) * unat radix < 2 ^ 64"
  shows "encodes (ds @ [(unat radix, unat val)])
    (s\<lparr>seg_value := seg_value s + val * seg_radix s, seg_radix := seg_radix s * radix\<rparr>)"
proof -
  let ?R = "enc_radix ds" and ?V = "enc_value ds"
  have e: "unat (seg_radix s) = ?R" "unat (seg_value s) = ?V" "digits_ok ds"
    using assms(1) by (auto simp: encodes_def)
  have v: "unat val < unat radix" using assms(2) by (simp add: word_less_nat_alt)
  have "?V < ?R" using enc_value_less [OF e(3)] .
  then have le: "?V + unat val * ?R < ?R * unat radix"
    using mult_le_mono2 [of "Suc (unat val)" "unat radix" ?R] v by (simp add: algebra_simps)
  then have small: "?V + unat val * ?R < 2 ^ 64" using assms(3) e(1) by simp
  then have "unat (val * seg_radix s) = unat val * ?R"
    using e(1) by (simp add: unat_word_ariths)
  then have "unat (seg_value s + val * seg_radix s) = ?V + unat val * ?R"
    using e(2) small by (simp add: unat_word_ariths)
  moreover have "unat (seg_radix s * radix) = ?R * unat radix"
    using e(1) assms(3) by (simp add: unat_word_ariths)
  ultimately show ?thesis using e v by (auto simp: encodes_def enc_append mult.commute)
qed

lemma encodes_tl:
  assumes "encodes ((r, v) # ds) s" and "unat radix = r"
  shows "unat (seg_value s mod radix) = v" and "radix \<le> seg_radix s" and "radix \<noteq> 0"
    and "encodes ds (s\<lparr>seg_radix := seg_radix s div radix, seg_value := seg_value s div radix\<rparr>)"
    and "seg_value s div radix < seg_radix s div radix"
proof -
  have e: "unat (seg_radix s) = r * enc_radix ds" "unat (seg_value s) = v + r * enc_value ds"
    "v < r" "digits_ok ds"
    using assms(1) by (auto simp: encodes_def)
  have pos: "0 < enc_radix ds" using enc_value_less [OF e(4)] by simp
  show "unat (seg_value s mod radix) = v" using e assms(2) by (simp add: unat_mod)
  show "radix \<le> seg_radix s" using e assms(2) pos by (simp add: word_le_nat_alt)
  show "radix \<noteq> 0" using e(3) assms(2) by auto
  have d: "unat (seg_radix s div radix) = enc_radix ds" "unat (seg_value s div radix) = enc_value ds"
    using e assms(2) by (simp_all add: unat_div)
  then show "encodes ds (s\<lparr>seg_radix := seg_radix s div radix, seg_value := seg_value s div radix\<rparr>)"
    using e(4) by (simp add: encodes_def)
  show "seg_value s div radix < seg_radix s div radix"
    using d enc_value_less [OF e(4)] by (simp add: word_less_nat_alt)
qed


lemma encodes_empty [simp]: "encodes [] empty_segment"
  by (simp add: encodes_def empty_segment_def)

lemma encodes_pos: "encodes ds s \<Longrightarrow> 0 < enc_radix ds"
  using enc_value_less [of ds] by (auto simp: encodes_def)

lemma list_all2_snoc: "list_all2 P (xs @ [x]) (ys @ [y]) \<longleftrightarrow> list_all2 P xs ys \<and> P x y"
  by (cases "length xs = length ys") (auto simp: list_all2_append dest!: list_all2_lengthD)

lemma push_into_back:
  assumes inv: "rq_inv q" and enc: "list_all2 encodes (dss @ [d]) (segments q)"
    and big: "dss \<noteq> [] \<longrightarrow> (\<forall>e \<in> set dss. enc_radix e > 1) \<and> enc_radix d * unat radix > 1"
    and v: "val < radix" and fits: "unat (seg_radix (rq_queue q ! rq_back q)) * unat radix < 2 ^ 64"
  shows "represents (let s = rq_queue q ! rq_back q in
      q\<lparr>rq_queue := (rq_queue q)[rq_back q := s\<lparr>seg_value := seg_value s + val * seg_radix s,
         seg_radix := seg_radix s * radix\<rparr>]\<rparr>) (concat (dss @ [d]) @ [(unat radix, unat val)])"
proof -
  let ?s = "rq_queue q ! rq_back q"
  let ?s' = "?s\<lparr>seg_value := seg_value ?s + val * seg_radix ?s, seg_radix := seg_radix ?s * radix\<rparr>"
  let ?q' = "q\<lparr>rq_queue := (rq_queue q)[rq_back q := ?s']\<rparr>"
  let ?dss = "dss @ [d @ [(unat radix, unat val)]]"
  obtain ss where ss: "segments q = ss @ [?s]"
    using segments_ends [OF inv] by (metis append_butlast_last_id)
  with enc have e: "list_all2 encodes dss ss" "encodes d ?s" by (simp_all add: list_all2_snoc)
  have "list_all2 encodes ?dss (segments ?q')"
    using e(1) encodes_snoc [OF e(2) v fits] segments_set_back [OF inv] ss
    by (simp add: list_all2_snoc)
  moreover have "length ?dss > 1 \<longrightarrow> (\<forall>e \<in> set ?dss. enc_radix e > 1)"
    using big by (auto simp: enc_append)
  moreover have "rq_inv ?q'" using inv by (simp add: rq_inv_def)
  ultimately show ?thesis unfolding represents_def Let_def
    by (intro conjI exI [of _ ?dss]) simp_all
qed

lemma overflow_test:
  fixes a b :: u64
  assumes "(- 1) div a < b" and "0 < a"
  shows "2 ^ 64 \<le> unat a * unat b"
proof -
  have "0 < unat a" using assms(2) by (simp add: word_less_nat_alt)
  moreover have "(2 ^ 64 - 1) div unat a < unat b"
    using assms(1) by (simp add: word_less_nat_alt unat_div unsigned_minus_1_eq_mask mask_eq_exp_minus_1)
  ultimately have "2 ^ 64 - 1 < unat b * unat a" by (simp add: div_less_iff_less_mult)
  then show ?thesis by (simp add: mult.commute)
qed

lemma rq_push_represents:
  assumes rep: "represents q ds" and v: "val < radix"
    and room: "queue_size q < kQueueSize q \<or> unat (seg_radix (rq_queue q ! rq_back q)) * unat radix < 2 ^ 64"
  shows "\<exists>q'. rq_push radix val q = Some q' \<and> represents q' (ds @ [(unat radix, unat val)])"
proof -
  let ?s = "rq_queue q ! rq_back q"
  from rep obtain dss0 where inv: "rq_inv q" and ds0: "ds = concat dss0"
    and enc0: "list_all2 encodes dss0 (segments q)" and big0: "length dss0 > 1 \<longrightarrow> (\<forall>d \<in> set dss0. enc_radix d > 1)"
    by (auto simp: represents_def)
  have "dss0 \<noteq> []" using enc0 segments_ends(1) [OF inv] by auto
  then obtain dss d where dd: "dss0 = dss @ [d]" by (metis append_butlast_last_id)
  with ds0 enc0 big0 have ds: "ds = concat (dss @ [d])" and enc: "list_all2 encodes (dss @ [d]) (segments q)"
    and big: "dss \<noteq> [] \<longrightarrow> (\<forall>e \<in> set dss. enc_radix e > 1) \<and> enc_radix d > 1" by auto
  obtain ss where ss: "segments q = ss @ [?s]"
    using segments_ends [OF inv] by (metis append_butlast_last_id)
  with enc have last_enc: "encodes d ?s" by (simp add: list_all2_snoc)
  have rpos: "0 < unat radix" using v by (simp add: word_less_nat_alt)
  have srad: "unat (seg_radix ?s) = enc_radix d" using last_enc by (simp add: encodes_def)
  have spos: "0 < seg_radix ?s" using encodes_pos [OF last_enc] srad by (simp add: word_less_nat_alt)
  show ?thesis
  proof (cases "(- 1) div seg_radix ?s < radix")
    case False
    have "enc_radix d * unat radix > 1" if "dss \<noteq> []"
      using big that rpos less_le_trans [of 1 "enc_radix d" "enc_radix d * unat radix"] by simp
    with push_into_back [OF inv enc _ v radix_mult_fits [OF False spos]] big
    have "represents (let s = ?s in q\<lparr>rq_queue := (rq_queue q)[rq_back q := s\<lparr>seg_value := seg_value s + val * seg_radix s,
         seg_radix := seg_radix s * radix\<rparr>]\<rparr>) (ds @ [(unat radix, unat val)])" by (simp add: ds)
    with False v show ?thesis by (simp add: rq_push_def Let_def)
  next
    case True
    have over: "2 ^ 64 \<le> enc_radix d * unat radix" using overflow_test [OF True spos] srad by simp
    have small: "enc_radix d < 2 ^ 64" "unat radix < 2 ^ 64"
      using srad unat_u64_less [of "seg_radix ?s"] unat_u64_less [of radix] by simp_all
    have dgt: "enc_radix d > 1" and rgt: "unat radix > 1"
      using over small by (cases "enc_radix d \<le> 1"; cases "unat radix \<le> 1"; auto simp: le_Suc_eq)+
    from over room srad have "queue_size q < kQueueSize q" by simp
    from push_back_segments [OF inv this] obtain q1 where q1: "push_back q = Some q1" "rq_inv q1"
      "segments q1 = segments q @ [empty_segment]" by blast
    have s1: "rq_queue q1 ! rq_back q1 = empty_segment" using segments_ends(3) [OF q1(2)] q1(3) by simp
    have "represents (let s = rq_queue q1 ! rq_back q1 in q1\<lparr>rq_queue := (rq_queue q1)[rq_back q1 := s\<lparr>seg_value := seg_value s + val * seg_radix s,
         seg_radix := seg_radix s * radix\<rparr>]\<rparr>) (concat ((dss @ [d]) @ [[]]) @ [(unat radix, unat val)])"
    proof (rule push_into_back [OF q1(2) _ _ v])
      show "list_all2 encodes ((dss @ [d]) @ [[]]) (segments q1)"
        unfolding q1(3) list_all2_snoc using enc by simp
    qed (use big dgt rgt s1 small in \<open>auto simp: empty_segment_def\<close>)
    with True v q1(1) ds show ?thesis by (simp add: rq_push_def Let_def)
  qed
qed


lemma rq_pop_represents:
  assumes rep: "represents q ((r, v) # ds)" and radix: "unat radix = r"
  shows "\<exists>x q'. rq_pop radix q = Some (x, q') \<and> unat x = v \<and> represents q' ds"
proof -
  let ?s = "rq_queue q ! rq_front q"
  let ?s' = "?s\<lparr>seg_radix := seg_radix ?s div radix, seg_value := seg_value ?s div radix\<rparr>"
  let ?q1 = "q\<lparr>rq_queue := (rq_queue q)[rq_front q := ?s']\<rparr>"
  from rep obtain dss0 where inv: "rq_inv q" and ds0: "(r, v) # ds = concat dss0"
    and enc0: "list_all2 encodes dss0 (segments q)" and big0: "length dss0 > 1 \<longrightarrow> (\<forall>d \<in> set dss0. enc_radix d > 1)"
    by (auto simp: represents_def)
  obtain ss where ss: "segments q = ?s # ss"
    using segments_ends [OF inv] by (metis list.collapse)
  with enc0 obtain d0 dss where dd: "dss0 = d0 # dss" "encodes d0 ?s" "list_all2 encodes dss ss"
    by (auto simp: list_all2_Cons2)
  have "d0 \<noteq> []" using ds0 big0 dd(1) by (cases dss) auto
  with ds0 dd(1) obtain d where d: "d0 = (r, v) # d" "ds = d @ concat dss" by (cases d0) auto
  note tl = encodes_tl [OF dd(2) [unfolded d(1)] radix]
  have inv1: "rq_inv ?q1" using inv by (simp add: rq_inv_def)
  have seg1: "segments ?q1 = ?s' # ss" using segments_set_front [OF inv] ss by simp
  have n1: "queue_size ?q1 = Suc (length dss)"
    using seg1 list_all2_lengthD [OF dd(3)] length_segments [of ?q1] by simp
  have rad': "seg_radix ?s' = 1 \<longleftrightarrow> enc_radix d = 1"
    using tl(4) by (simp add: encodes_def word_unat_eq_iff)
  show ?thesis
  proof (cases "seg_radix ?s' = 1 \<and> queue_size ?q1 > 1")
    case False
    have "represents ?q1 ds" unfolding represents_def
    proof (intro conjI exI [of _ "d # dss"])
      show "length (d # dss) > 1 \<longrightarrow> (\<forall>e \<in> set (d # dss). enc_radix e > 1)"
        using False rad' n1 big0 dd(1) encodes_pos [OF tl(4)] by (cases dss) auto
    qed (use inv1 d(2) tl(4) dd(3) seg1 in auto)
    with False tl show ?thesis by (auto simp: rq_pop_def Let_def)
  next
    case True
    from pop_front_segments [OF inv1] True obtain q2 where q2: "pop_front ?q1 = Some q2" "rq_inv q2"
      "segments q2 = ss" using seg1 by auto
    have "dss \<noteq> []" using True n1 by auto
    then obtain e es where e: "dss = e # es" by (cases dss) auto
    from dd(3) e obtain s2 ss2 where s2: "ss = s2 # ss2" "encodes e s2" "list_all2 encodes es ss2"
      by (auto simp: list_all2_Cons1)
    have one: "enc_radix d = 1" "enc_value d = 0" "digits_ok d"
      using True rad' tl(4) enc_radix_one [of d] by (auto simp: encodes_def)
    then have "encodes (d @ e) s2" using s2(2) by (auto simp: encodes_def enc_append)
    then have "represents q2 ds" unfolding represents_def
      using q2 s2 d(2) e big0 dd(1) one
      by (intro conjI exI [of _ "(d @ e) # es"]) (auto simp: enc_append)
    with True tl q2(1) show ?thesis by (auto simp: rq_pop_def Let_def)
  qed
qed

lemma represents_init: "64 \<le> n \<Longrightarrow> represents (RadixQueue_init n) []"
  unfolding represents_def
  by (intro conjI exI [of _ "[[]]"])
    (auto simp: rq_inv_def RadixQueue_init_def segments_def queue_size_def ring_def div_greater_zero_iff)

subsection \<open>Properties\<close>

text \<open>
  \<^verbatim>\<open>push\<close> appends a digit: it fails no check as long as the digit is below its radix
  and either the last 64-bit segment has room for the radix or the ring has a free segment, and it
  never overflows a segment.
\<close>

theorem RadixQueue_push_refines:
  assumes "represents q ds" and "val < radix"
    and "queue_size q < kQueueSize q \<or> unat (seg_radix (rq_queue q ! rq_back q)) * unat radix < 2 ^ 64"
  shows "\<exists>q'. rq_push radix val q = Some q' \<and> represents q' (ds @ [(unat radix, unat val)])"
  using rq_push_represents [OF assms] .

theorem RadixQueue_push_refines_witness:
  "\<exists>q'. rq_push 10 7 (RadixQueue_init 128) = Some q' \<and> represents q' [(10, 7)]"
  using RadixQueue_push_refines [OF represents_init [of 128], of 7 10]
  by (simp add: RadixQueue_init_def queue_size_def)

text \<open>
  C39 (roundtrip). \<^verbatim>\<open>pop\<close> with the radix of the oldest digit fails no check, returns that digit and
  leaves the younger ones, also where it empties a segment and moves to the next one, so digits
  come out in the order and with the values they went in.
\<close>

theorem RadixQueue_pop_refines:
  assumes "represents q ((r, v) # ds)" and "unat radix = r"
  shows "\<exists>x q'. rq_pop radix q = Some (x, q') \<and> unat x = v \<and> represents q' ds"
  using rq_pop_represents [OF assms] .

theorem RadixQueue_pop_refines_witness:
  "\<exists>q x q'. rq_push 10 7 (RadixQueue_init 128) = Some q \<and> rq_pop 10 q = Some (x, q') \<and> unat x = 7 \<and> represents q' []"
proof -
  obtain q where "rq_push 10 7 (RadixQueue_init 128) = Some q" "represents q [(10, 7)]"
    using rq_push_represents [OF represents_init [of 128], of 7 10]
    by (auto simp: RadixQueue_init_def queue_size_def)
  moreover from RadixQueue_pop_refines [OF this(2), of 10] obtain x q' where
    "rq_pop 10 q = Some (x, q')" "unat x = 7" "represents q' []" by auto
  ultimately show ?thesis by blast
qed

end
