(* ===== verification/Batt_Mutex.thy ===== *)
theory Batt_Mutex
  imports Batt_Status
begin

section \<open>Mutex: a ticket lock on a Watch\<close>

text \<open>
  Models \<^verbatim>\<open>acquire\<close> and \<^verbatim>\<open>release\<close> of \<^verbatim>\<open>src/src/batteries/async/mutex.hpp\<close> (the modified bakery
  algorithm): a thread takes a number from \<^verbatim>\<open>next_ticket_\<close>, waits until \<^verbatim>\<open>current_ticket_\<close> shows it, and
  increments \<^verbatim>\<open>current_ticket_\<close> when it leaves. Tickets are natural numbers; the code's 64-bit tickets
  agree with them for the first \<open>2 ^ 64\<close> acquisitions.

  \<^verbatim>\<open>await_not_equal\<close> may return any value that \<^verbatim>\<open>current_ticket_\<close> has held, since a notifier can be
  overtaken by later ones (\<open>Watch_Atomic\<close>). A failed \<^verbatim>\<open>BATT_CHECK\<close> is \<open>None\<close>.
\<close>

datatype mutex_pc =
    M_Idle
  | M_Ticket nat
  | M_Check nat nat
  | M_Locked nat

record mutex =
  next_ticket :: nat
  current_ticket :: nat
  mutex_threads :: "mutex_pc list"

definition mutex_init :: "nat \<Rightarrow> mutex" where
  "mutex_init n = \<lparr>next_ticket = 0, current_ticket = 0, mutex_threads = replicate n M_Idle\<rparr>"

definition mutex_set :: "nat \<Rightarrow> mutex_pc \<Rightarrow> mutex \<Rightarrow> mutex" where
  "mutex_set i p m = m\<lparr>mutex_threads := (mutex_threads m)[i := p]\<rparr>"

text \<open>One step of thread \<open>i\<close>; \<open>observed\<close> is what \<^verbatim>\<open>await_not_equal\<close> returns, if the step waits.\<close>

definition mutex_thread_step :: "nat \<Rightarrow> nat \<Rightarrow> mutex \<Rightarrow> mutex option" where
  "mutex_thread_step observed i m =
     (case mutex_threads m ! i of
        M_Idle \<Rightarrow> Some (mutex_set i (M_Ticket (next_ticket m)) (m\<lparr>next_ticket := next_ticket m + 1\<rparr>))
      | M_Ticket my_ticket \<Rightarrow> Some (mutex_set i (M_Check my_ticket (current_ticket m)) m)
      | M_Check my_ticket latest_ticket \<Rightarrow>
          if latest_ticket < my_ticket then Some (mutex_set i (M_Check my_ticket observed) m)
          else if latest_ticket = my_ticket then Some (mutex_set i (M_Locked my_ticket) m)
          else None
      | M_Locked my_ticket \<Rightarrow>
          Some (mutex_set i M_Idle (m\<lparr>current_ticket := current_ticket m + 1\<rparr>)))"

inductive mutex_step :: "mutex \<Rightarrow> mutex \<Rightarrow> bool" where
  "i < length (mutex_threads m) \<Longrightarrow> observed \<le> current_ticket m \<Longrightarrow>
     mutex_thread_step observed i m = Some m' \<Longrightarrow> mutex_step m m'"

fun ticket_of :: "mutex_pc \<Rightarrow> nat option" where
  "ticket_of M_Idle = None"
| "ticket_of (M_Ticket t) = Some t"
| "ticket_of (M_Check t _) = Some t"
| "ticket_of (M_Locked t) = Some t"

fun mutex_local_ok :: "nat \<Rightarrow> mutex_pc \<Rightarrow> bool" where
  "mutex_local_ok current (M_Check _ latest) = (latest \<le> current)"
| "mutex_local_ok current (M_Locked t) = (t = current)"
| "mutex_local_ok current _ = True"

definition mutex_inv :: "mutex \<Rightarrow> bool" where
  "mutex_inv m \<longleftrightarrow>
     (let ts = mutex_threads m in
      current_ticket m \<le> next_ticket m \<and>
      (\<forall>i < length ts. \<forall>t. ticket_of (ts ! i) = Some t \<longrightarrow> current_ticket m \<le> t \<and> t < next_ticket m) \<and>
      (\<forall>i < length ts. \<forall>j < length ts. \<forall>t. ticket_of (ts ! i) = Some t \<longrightarrow> ticket_of (ts ! j) = Some t \<longrightarrow> i = j) \<and>
      (\<forall>t. current_ticket m \<le> t \<longrightarrow> t < next_ticket m \<longrightarrow> (\<exists>i < length ts. ticket_of (ts ! i) = Some t)) \<and>
      (\<forall>i < length ts. mutex_local_ok (current_ticket m) (ts ! i)))"

lemma mutex_init_inv: "mutex_inv (mutex_init n)"
  by (auto simp: mutex_inv_def mutex_init_def)

lemma mutex_invD:
  assumes "mutex_inv m"
  shows "current_ticket m \<le> next_ticket m"
    and "i < length (mutex_threads m) \<Longrightarrow> ticket_of (mutex_threads m ! i) = Some t \<Longrightarrow>
      current_ticket m \<le> t \<and> t < next_ticket m"
    and "i < length (mutex_threads m) \<Longrightarrow> j < length (mutex_threads m) \<Longrightarrow>
      ticket_of (mutex_threads m ! i) = Some t \<Longrightarrow> ticket_of (mutex_threads m ! j) = Some t \<Longrightarrow> i = j"
    and "current_ticket m \<le> t \<Longrightarrow> t < next_ticket m \<Longrightarrow>
      \<exists>i < length (mutex_threads m). ticket_of (mutex_threads m ! i) = Some t"
    and "i < length (mutex_threads m) \<Longrightarrow> mutex_local_ok (current_ticket m) (mutex_threads m ! i)"
  using assms unfolding mutex_inv_def Let_def by blast+

lemma mutex_invI:
  assumes "current_ticket m \<le> next_ticket m"
    and "\<And>i t. i < length (mutex_threads m) \<Longrightarrow> ticket_of (mutex_threads m ! i) = Some t \<Longrightarrow>
      current_ticket m \<le> t \<and> t < next_ticket m"
    and "\<And>i j t. i < length (mutex_threads m) \<Longrightarrow> j < length (mutex_threads m) \<Longrightarrow>
      ticket_of (mutex_threads m ! i) = Some t \<Longrightarrow> ticket_of (mutex_threads m ! j) = Some t \<Longrightarrow> i = j"
    and "\<And>t. current_ticket m \<le> t \<Longrightarrow> t < next_ticket m \<Longrightarrow>
      \<exists>i < length (mutex_threads m). ticket_of (mutex_threads m ! i) = Some t"
    and "\<And>i. i < length (mutex_threads m) \<Longrightarrow> mutex_local_ok (current_ticket m) (mutex_threads m ! i)"
  shows "mutex_inv m"
  using assms unfolding mutex_inv_def Let_def by blast

lemma mutex_set_simps [simp]:
  "next_ticket (mutex_set i p m) = next_ticket m" "current_ticket (mutex_set i p m) = current_ticket m"
  "mutex_threads (mutex_set i p m) = (mutex_threads m)[i := p]"
  by (simp_all add: mutex_set_def)

text \<open>A step that keeps the thread's ticket and both counters only has to keep the local condition.\<close>

lemma mutex_inv_same_ticket:
  assumes "mutex_inv m" and "i < length (mutex_threads m)"
    and "ticket_of p = ticket_of (mutex_threads m ! i)" and "mutex_local_ok (current_ticket m) p"
  shows "mutex_inv (mutex_set i p m)"
proof -
  have t: "ticket_of ((mutex_threads m)[i := p] ! j) = ticket_of (mutex_threads m ! j)"
    if "j < length (mutex_threads m)" for j
    using that assms(3) by (cases "i = j") auto
  have l: "mutex_local_ok (current_ticket m) ((mutex_threads m)[i := p] ! j)"
    if "j < length (mutex_threads m)" for j
    using that assms(4) mutex_invD(5) [OF assms(1)] by (cases "i = j") auto
  show ?thesis
    unfolding mutex_inv_def mutex_set_def Let_def
    using mutex_invD [OF assms(1)] t l by (simp del: nth_list_update_neq) metis
qed

lemma mutex_inv_take:
  assumes inv: "mutex_inv m" and i: "i < length (mutex_threads m)" and idle: "mutex_threads m ! i = M_Idle"
  shows "mutex_inv (mutex_set i (M_Ticket (next_ticket m)) (m\<lparr>next_ticket := next_ticket m + 1\<rparr>))"
proof -
  let ?ts = "mutex_threads m" and ?p = "M_Ticket (next_ticket m)"
  note d = mutex_invD [OF inv]
  have t: "ticket_of (?ts[i := ?p] ! j) = (if j = i then Some (next_ticket m) else ticket_of (?ts ! j))"
    if "j < length ?ts" for j
    using that by (cases "i = j") auto
  have l: "mutex_local_ok (current_ticket m) (?ts[i := ?p] ! j)" if "j < length ?ts" for j
    using that d(5) by (cases "i = j") auto
  show ?thesis
  proof (rule mutex_invI, goal_cases)
    case 1
    then show ?case using d(1) by simp
  next
    case (2 j u)
    then show ?case using t [of j] d(1) d(2) [of j u] by (auto split: if_splits)
  next
    case (3 j k u)
    then show ?case
      using t [of j] t [of k] d(2) [of j u] d(2) [of k u] d(3) [of j k u] by (auto split: if_splits)
  next
    case (4 u)
    show ?case
    proof (cases "u = next_ticket m")
      case True
      then show ?thesis using t [of i] i by auto
    next
      case False
      with 4 d(4) [of u] obtain j where "j < length ?ts" "ticket_of (?ts ! j) = Some u" by auto
      with t [of j] idle show ?thesis by (auto split: if_splits)
    qed
  next
    case (5 j)
    then show ?case using l [of j] by simp
  qed
qed

lemma mutex_inv_release:
  assumes inv: "mutex_inv m" and i: "i < length (mutex_threads m)" and lk: "mutex_threads m ! i = M_Locked my"
  shows "mutex_inv (mutex_set i M_Idle (m\<lparr>current_ticket := current_ticket m + 1\<rparr>))"
proof -
  let ?ts = "mutex_threads m"
  note d = mutex_invD [OF inv]
  have my: "my = current_ticket m" "my < next_ticket m" using d(5) [OF i] d(2) [OF i] lk by auto
  have t: "ticket_of (?ts[i := M_Idle] ! j) = (if j = i then None else ticket_of (?ts ! j))"
    if "j < length ?ts" for j
    using that by (cases "i = j") auto
  have other: "u \<noteq> my" if "j < length ?ts" "j \<noteq> i" "ticket_of (?ts ! j) = Some u" for j u
    using d(3) [OF i that(1), of my] that lk by auto
  show ?thesis
  proof (rule mutex_invI, goal_cases)
    case 1
    then show ?case using my by simp
  next
    case (2 j u)
    then show ?case using t [of j] other [of j u] d(2) [of j u] my by (auto split: if_splits)
  next
    case (3 j k u)
    then show ?case using t [of j] t [of k] d(3) [of j k u] by (auto split: if_splits)
  next
    case (4 u)
    then obtain j where "j < length ?ts" "ticket_of (?ts ! j) = Some u" using d(4) [of u] by auto
    with 4 my lk t [of j] show ?case by (auto split: if_splits)
  next
    case (5 j)
    then have j: "j < length ?ts" by simp
    show ?case
    proof (cases "j = i")
      case False
      with j other [OF j False] d(5) [OF j] my show ?thesis by (cases "?ts ! j") auto
    qed (use j in simp)
  qed
qed

lemma mutex_step_inv:
  assumes "mutex_inv m" and "mutex_step m m'"
  shows "mutex_inv m'"
  using assms(2)
proof cases
  case (1 i observed)
  note d5 = mutex_invD(5) [OF assms(1) 1(1)]
  show ?thesis
  proof (cases "mutex_threads m ! i")
    case M_Idle
    with mutex_inv_take [OF assms(1) 1(1)] 1(3) show ?thesis by (simp add: mutex_thread_step_def)
  next
    case (M_Ticket t)
    with 1 show ?thesis by (auto simp: mutex_thread_step_def intro!: mutex_inv_same_ticket [OF assms(1)])
  next
    case (M_Check t l)
    with 1 mutex_invD(2) [OF assms(1) 1(1), of t] d5 show ?thesis
      by (auto simp: mutex_thread_step_def intro!: mutex_inv_same_ticket [OF assms(1)] split: if_splits)
  next
    case (M_Locked t)
    with mutex_inv_release [OF assms(1) 1(1)] 1(3) show ?thesis by (simp add: mutex_thread_step_def)
  qed
qed

interpretation ticket_lock: invariant_system "mutex_init n" mutex_step mutex_inv for n
  by unfold_locales (auto intro: mutex_init_inv mutex_step_inv)

lemma mutex_thread_step_length:
  "mutex_thread_step v i m = Some m' \<Longrightarrow> length (mutex_threads m') = length (mutex_threads m)"
  by (auto simp: mutex_thread_step_def split: mutex_pc.splits if_splits)

text \<open>A schedule of threads in which every wait returns \<open>0\<close> is an execution.\<close>

lemma mutex_run_steps:
  "foldl (\<lambda>m i. Option.bind m (mutex_thread_step 0 i)) (Some m) is = Some m' \<Longrightarrow>
     \<forall>i \<in> set is. i < length (mutex_threads m) \<Longrightarrow> mutex_step\<^sup>*\<^sup>* m m'"
proof (induction "is" arbitrary: m)
  case (Cons i "is")
  have none: "foldl (\<lambda>m i. Option.bind m (mutex_thread_step 0 i)) None is = None" by (induction "is") auto
  from Cons.prems(1) none obtain m1 where m1: "mutex_thread_step 0 i m = Some m1"
    "foldl (\<lambda>m i. Option.bind m (mutex_thread_step 0 i)) (Some m1) is = Some m'"
    by (cases "mutex_thread_step 0 i m") auto
  with Cons mutex_thread_step_length [OF m1(1)] have "mutex_step\<^sup>*\<^sup>* m1 m'" by simp
  moreover have "mutex_step m m1" using Cons.prems(2) m1(1) by (auto intro: mutex_step.intros)
  ultimately show ?case by (rule converse_rtranclp_into_rtranclp [rotated])
qed simp

definition mutex_advance :: "nat \<Rightarrow> mutex \<Rightarrow> mutex option" where
  "mutex_advance i m = mutex_thread_step (current_ticket m) i m"

subsection \<open>Properties\<close>

text \<open>
  C11 (safety). Mutual exclusion in ticket order: in every execution of any number of threads at most
  one thread is between \<^verbatim>\<open>acquire\<close> and \<^verbatim>\<open>release\<close>, it owns the smallest ticket of all that compete, and
  the check at the end of \<^verbatim>\<open>acquire\<close> never fails, whatever stale values the watch delivers.
\<close>

theorem Mutex_mutual_exclusion:
  assumes "mutex_step\<^sup>*\<^sup>* (mutex_init n) m" and "i < length (mutex_threads m)"
  shows "(\<forall>my. mutex_threads m ! i = M_Locked my \<longrightarrow>
      (\<forall>j < length (mutex_threads m). j \<noteq> i \<longrightarrow>
        (\<forall>t. ticket_of (mutex_threads m ! j) = Some t \<longrightarrow> my < t) \<and> \<not> (\<exists>t. mutex_threads m ! j = M_Locked t))) \<and>
     (\<forall>observed. mutex_thread_step observed i m \<noteq> None)"
proof -
  note inv = ticket_lock.execution_invar [OF assms(1)]
  note d = mutex_invD [OF inv]
  have "my < t" if "mutex_threads m ! i = M_Locked my" "j < length (mutex_threads m)" "j \<noteq> i"
      "ticket_of (mutex_threads m ! j) = Some t" for my j t
    using that d(5) [OF assms(2)] d(2) [OF that(2,4)] d(3) [OF assms(2) that(2), of my]
    by (cases "t = my") auto
  moreover have "\<not> mutex_threads m ! j = M_Locked t"
    if "mutex_threads m ! i = M_Locked my" "j < length (mutex_threads m)" "j \<noteq> i" for my j t
    using that d(5) [OF assms(2)] d(5) [OF that(2)] d(3) [OF assms(2) that(2), of my] by auto
  moreover have "mutex_thread_step observed i m \<noteq> None" for observed
    using d(5) [OF assms(2)] d(2) [OF assms(2)]
    by (auto simp: mutex_thread_step_def split: mutex_pc.splits)
  ultimately show ?thesis by blast
qed

theorem Mutex_mutual_exclusion_witness:
  "\<exists>m. mutex_step\<^sup>*\<^sup>* (mutex_init 2) m \<and> mutex_threads m ! 0 = M_Locked 0 \<and>
     \<not> (\<exists>t. mutex_threads m ! 1 = M_Locked t)"
proof -
  let ?m = "\<lparr>next_ticket = 2, current_ticket = 0, mutex_threads = [M_Locked 0, M_Check 1 0]\<rparr>"
  have "foldl (\<lambda>m i. Option.bind m (mutex_thread_step 0 i)) (Some (mutex_init 2)) [0, 1, 0, 1, 0] = Some ?m"
    by code_simp
  then have reach: "mutex_step\<^sup>*\<^sup>* (mutex_init 2) ?m"
    using mutex_run_steps [of "mutex_init 2" "[0, 1, 0, 1, 0]" ?m] by (simp add: mutex_init_def)
  from Mutex_mutual_exclusion [OF reach, of 0] show ?thesis
    using reach by (intro exI [of _ ?m]) auto
qed

text \<open>
  The lock is never stuck: while any thread competes for it, the thread whose turn it
  is exists, and it holds the lock or can enter by steps of its own as soon as it reads the current
  ticket.
\<close>

theorem Mutex_not_stuck:
  assumes "mutex_step\<^sup>*\<^sup>* (mutex_init n) m" and "i < length (mutex_threads m)"
    and "mutex_threads m ! i \<noteq> M_Idle"
  shows "\<exists>j < length (mutex_threads m). ticket_of (mutex_threads m ! j) = Some (current_ticket m) \<and>
     (\<exists>k \<le> 2. \<exists>m'. ((\<lambda>x. Option.bind x (mutex_advance j)) ^^ k) (Some m) = Some m' \<and>
        mutex_threads m' ! j = M_Locked (current_ticket m))"
proof -
  note inv = ticket_lock.execution_invar [OF assms(1)]
  note d = mutex_invD [OF inv]
  obtain t where "ticket_of (mutex_threads m ! i) = Some t"
    using assms(3) by (cases "mutex_threads m ! i") auto
  with d(2) [OF assms(2)] d(4) [of "current_ticket m"] obtain j where
    j: "j < length (mutex_threads m)" "ticket_of (mutex_threads m ! j) = Some (current_ticket m)"
    by fastforce
  let ?adv = "\<lambda>x. Option.bind x (mutex_advance j)"
  have "\<exists>k \<le> 2. \<exists>m'. (?adv ^^ k) (Some m) = Some m' \<and> mutex_threads m' ! j = M_Locked (current_ticket m)"
  proof (cases "mutex_threads m ! j")
    case (M_Ticket t)
    with j show ?thesis
      by (intro exI [of _ 2]) (simp add: numeral_2_eq_2 mutex_advance_def mutex_thread_step_def)
  next
    case (M_Check t l)
    with j d(5) [OF j(1)] have "l \<le> t" "t = current_ticket m" by auto
    then show ?thesis
    proof (cases "l = t")
      case True
      with M_Check j show ?thesis
        by (intro exI [of _ 1]) (auto simp: mutex_advance_def mutex_thread_step_def)
    next
      case False
      with M_Check j \<open>l \<le> t\<close> show ?thesis
        by (intro exI [of _ 2]) (auto simp: numeral_2_eq_2 mutex_advance_def mutex_thread_step_def)
    qed
  qed (use j in \<open>auto intro: exI [of _ 0]\<close>)
  with j show ?thesis by blast
qed

theorem Mutex_not_stuck_witness:
  "let m = \<lparr>next_ticket = 2, current_ticket = 0, mutex_threads = [M_Ticket 0, M_Ticket 1]\<rparr> in
   \<exists>j < length (mutex_threads m). ticket_of (mutex_threads m ! j) = Some 0 \<and>
     (\<exists>k \<le> 2. \<exists>m'. ((\<lambda>x. Option.bind x (mutex_advance j)) ^^ k) (Some m) = Some m' \<and>
        mutex_threads m' ! j = M_Locked 0)"
proof -
  let ?m = "\<lparr>next_ticket = 2, current_ticket = 0, mutex_threads = [M_Ticket 0, M_Ticket 1]\<rparr>"
  have "foldl (\<lambda>m i. Option.bind m (mutex_thread_step 0 i)) (Some (mutex_init 2)) [0, 1] = Some ?m"
    by code_simp
  then have reach: "mutex_step\<^sup>*\<^sup>* (mutex_init 2) ?m"
    using mutex_run_steps [of "mutex_init 2" "[0, 1]" ?m] by (simp add: mutex_init_def)
  from Mutex_not_stuck [OF reach, of 0] show ?thesis by (simp add: Let_def)
qed

end
