(* ===== verification/Batt_Queue.thy ===== *)
theory Batt_Queue
  imports Batt_Mutex
begin

section \<open>Queue: a multi-producer, multi-consumer FIFO queue\<close>

text \<open>
  Models \<^verbatim>\<open>QueueBase\<close> and \<^verbatim>\<open>Queue\<close> of \<^verbatim>\<open>src/src/batteries/async/queue.hpp\<close>: a deque behind a
  \<^verbatim>\<open>Mutex\<close> and a counter \<^verbatim>\<open>pending_count_\<close> (a \<^verbatim>\<open>Watch\<close>) of the items that readers may still claim.
  A step is one operation on the counter or one critical section of the mutex, which is atomic
  because at most one thread is inside it (\<open>Batt_Mutex\<close>). \<open>q_pushed\<close> and \<open>q_popped\<close> record the items in
  the order in which they entered and left the deque. A failed \<^verbatim>\<open>BATT_CHECK\<close> is \<open>None\<close>.
\<close>

datatype 'a queue_result = Q_Nothing | Q_Bool bool | Q_Item 'a | Q_Empty | Q_Error StatusCode

datatype 'a queue_pc =
    Q_Done "'a queue_result"
  | Q_Push "'a list"
  | Q_Insert "'a list"
  | Q_Notify nat
  | Q_Await
  | Q_Try
  | Q_Pop
  | Q_Close

record 'a queue =
  q_pending_count :: int
  q_closed :: bool
  q_items :: "'a list"
  q_pushed :: "'a list"
  q_popped :: "'a list"

definition decrement_if_positive :: "int \<Rightarrow> int option" where
  "decrement_if_positive n = (if n > 0 then Some (n - 1) else None)"

fun queue_step :: "'a queue_pc \<Rightarrow> 'a queue \<Rightarrow> ('a queue_pc \<times> 'a queue) option" where
  "queue_step (Q_Done r) q = Some (Q_Done r, q)"
| "queue_step (Q_Push xs) q = Some (if q_closed q then Q_Done (Q_Bool False) else Q_Insert xs, q)"
| "queue_step (Q_Insert xs) q =
     Some (Q_Notify (length xs), q\<lparr>q_items := q_items q @ xs, q_pushed := q_pushed q @ xs\<rparr>)"
| "queue_step (Q_Notify n) q =
     Some (Q_Done (Q_Bool True), q\<lparr>q_pending_count := q_pending_count q + int n\<rparr>)"
| "queue_step Q_Await q =
     (case decrement_if_positive (q_pending_count q) of
        Some n \<Rightarrow> Some (Q_Pop, q\<lparr>q_pending_count := n\<rparr>)
      | None \<Rightarrow> Some (if q_closed q then Q_Done (Q_Error kClosed) else Q_Await, q))"
| "queue_step Q_Try q =
     (case decrement_if_positive (q_pending_count q) of
        Some n \<Rightarrow> Some (Q_Pop, q\<lparr>q_pending_count := n\<rparr>)
      | None \<Rightarrow> Some (Q_Done Q_Empty, q))"
| "queue_step Q_Pop q =
     (case q_items q of
        [] \<Rightarrow> None
      | x # xs \<Rightarrow> Some (Q_Done (Q_Item x), q\<lparr>q_items := xs, q_popped := q_popped q @ [x]\<rparr>))"
| "queue_step Q_Close q = Some (Q_Done Q_Nothing, q\<lparr>q_closed := True\<rparr>)"

text \<open>
  The public calls: \<^verbatim>\<open>push\<close> (and \<^verbatim>\<open>push_with_lock\<close>) insert one item, \<^verbatim>\<open>push_all\<close> several in one critical
  section. \<^verbatim>\<open>drain\<close> repeats \<^verbatim>\<open>try_pop_next\<close>.
\<close>

datatype 'a queue_call = Q_push 'a | Q_push_all "'a list" | Q_await_next | Q_try_pop_next | Q_close

fun queue_entry :: "'a queue_call \<Rightarrow> 'a queue_pc" where
  "queue_entry (Q_push x) = Q_Push [x]"
| "queue_entry (Q_push_all xs) = Q_Push xs"
| "queue_entry Q_await_next = Q_Await"
| "queue_entry Q_try_pop_next = Q_Try"
| "queue_entry Q_close = Q_Close"

record 'a queue_system =
  qs_queue :: "'a queue"
  qs_threads :: "'a queue_pc list"

definition queue_init :: "nat \<Rightarrow> 'a queue_system" where
  "queue_init n =
     \<lparr>qs_queue = \<lparr>q_pending_count = 0, q_closed = False, q_items = [], q_pushed = [], q_popped = []\<rparr>,
      qs_threads = replicate n (Q_Done Q_Nothing)\<rparr>"

inductive queue_sys_step :: "'a queue_system \<Rightarrow> 'a queue_system \<Rightarrow> bool" where
  begin_call: "i < length (qs_threads s) \<Longrightarrow> qs_threads s ! i = Q_Done r \<Longrightarrow>
     queue_sys_step s (s\<lparr>qs_threads := (qs_threads s)[i := queue_entry c]\<rparr>)"
| run_thread: "i < length (qs_threads s) \<Longrightarrow> queue_step (qs_threads s ! i) (qs_queue s) = Some (p, q) \<Longrightarrow>
     queue_sys_step s (s\<lparr>qs_queue := q, qs_threads := (qs_threads s)[i := p]\<rparr>)"

text \<open>Items in the deque that \<^verbatim>\<open>pending_count_\<close> does not count: claimed, or not yet announced.\<close>

fun uncounted :: "'a queue_pc \<Rightarrow> nat" where
  "uncounted (Q_Notify n) = n"
| "uncounted Q_Pop = 1"
| "uncounted _ = 0"

definition queue_inv :: "'a queue_system \<Rightarrow> bool" where
  "queue_inv s \<longleftrightarrow>
     (let q = qs_queue s in
      0 \<le> q_pending_count q \<and>
      int (length (q_items q)) = q_pending_count q + int (sum_list (map uncounted (qs_threads s))) \<and>
      q_pushed q = q_popped q @ q_items q)"

lemma uncounted_update:
  "i < length ts \<Longrightarrow>
     sum_list (map uncounted (ts[i := p])) + uncounted (ts ! i) = sum_list (map uncounted ts) + uncounted p"
proof (induction ts arbitrary: i)
  case (Cons t ts)
  then show ?case by (cases i) auto
qed simp

lemma uncounted_le: "i < length ts \<Longrightarrow> uncounted (ts ! i) \<le> sum_list (map uncounted ts)"
  by (simp add: member_le_sum_list)

lemma queue_step_inv:
  assumes "queue_step p q = Some (p', q')" and "0 \<le> q_pending_count q"
    and "int (length (q_items q)) = q_pending_count q + int (uncounted p) + rest"
    and "q_pushed q = q_popped q @ q_items q"
  shows "0 \<le> q_pending_count q' \<and>
    int (length (q_items q')) = q_pending_count q' + int (uncounted p') + rest \<and>
    q_pushed q' = q_popped q' @ q_items q'"
  using assms
  by (cases p) (auto simp: decrement_if_positive_def split: option.splits if_splits list.splits)

lemma queue_sys_step_inv:
  assumes "queue_inv s" and "queue_sys_step s s'"
  shows "queue_inv s'"
  using assms(2)
proof cases
  case (begin_call i r c)
  have "uncounted (queue_entry c) = 0" by (cases c) auto
  with uncounted_update [OF begin_call(2), of "queue_entry c"] begin_call assms(1) show ?thesis
    by (simp add: queue_inv_def Let_def)
next
  case (run_thread i p q)
  let ?ts = "qs_threads s"
  obtain rest where rest: "sum_list (map uncounted ?ts) = uncounted (?ts ! i) + rest"
    using uncounted_le [OF run_thread(2)] le_Suc_ex by blast
  have "sum_list (map uncounted (?ts[i := p])) = uncounted p + rest"
    using uncounted_update [OF run_thread(2), of p] rest by simp
  with queue_step_inv [OF run_thread(3), of "int rest"] assms(1) rest run_thread(1) show ?thesis
    by (simp add: queue_inv_def Let_def)
qed

lemma queue_init_inv: "queue_inv (queue_init n)"
  by (simp add: queue_inv_def queue_init_def sum_list_replicate)

interpretation mpmc_queue: invariant_system "queue_init n" queue_sys_step queue_inv for n
  by unfold_locales (auto intro: queue_init_inv queue_sys_step_inv)

subsection \<open>Properties\<close>

text \<open>
  C10 (safety). In every execution of any number of producers and consumers: no consumer ever finds
  the deque empty after it claimed an item (the check in \<^verbatim>\<open>pop_next_or_panic\<close> never fails), and the
  items leave the queue exactly once, in the order in which they entered it.
\<close>

theorem Queue_fifo_no_panic:
  assumes "queue_sys_step\<^sup>*\<^sup>* (queue_init n) s" and "i < length (qs_threads s)"
  shows "queue_step (qs_threads s ! i) (qs_queue s) \<noteq> None \<and>
     q_pushed (qs_queue s) = q_popped (qs_queue s) @ q_items (qs_queue s)"
proof -
  have inv: "queue_inv s" using mpmc_queue.execution_invar [OF assms(1)] .
  have "q_items (qs_queue s) \<noteq> []" if "qs_threads s ! i = Q_Pop"
    using inv uncounted_le [OF assms(2)] that by (auto simp: queue_inv_def Let_def)
  with inv show ?thesis
    by (cases "qs_threads s ! i")
      (auto simp: queue_inv_def Let_def decrement_if_positive_def split: list.splits option.splits)
qed

theorem Queue_fifo_no_panic_witness:
  "queue_step Q_Pop \<lparr>q_pending_count = 0, q_closed = False, q_items = [7 :: nat], q_pushed = [7], q_popped = []\<rparr> \<noteq> None"
proof -
  let ?init = "queue_init 1 :: nat queue_system"
  let ?q = "\<lparr>q_pending_count = 0, q_closed = False, q_items = [], q_pushed = [], q_popped = []\<rparr> :: nat queue"
  let ?st = "\<lambda>c items p. \<lparr>qs_queue = ?q\<lparr>q_pending_count := c, q_items := items, q_pushed := items\<rparr>, qs_threads = [p]\<rparr>"
  have i: "?init = ?st 0 [] (Q_Done Q_Nothing)" by (simp add: queue_init_def)
  have "queue_sys_step (?st 0 [] (Q_Done Q_Nothing)) (?st 0 [] (Q_Push [7]))"
    using queue_sys_step.begin_call [of 0 "?st 0 [] (Q_Done Q_Nothing)" _ "Q_push 7"] by simp
  moreover have "queue_sys_step (?st 0 [] (Q_Push [7])) (?st 0 [] (Q_Insert [7]))"
    using queue_sys_step.run_thread [of 0 "?st 0 [] (Q_Push [7])"] by simp
  moreover have "queue_sys_step (?st 0 [] (Q_Insert [7])) (?st 0 [7] (Q_Notify 1))"
    using queue_sys_step.run_thread [of 0 "?st 0 [] (Q_Insert [7])"] by simp
  moreover have "queue_sys_step (?st 0 [7] (Q_Notify 1)) (?st 1 [7] (Q_Done (Q_Bool True)))"
    using queue_sys_step.run_thread [of 0 "?st 0 [7] (Q_Notify 1)"] by simp
  moreover have "queue_sys_step (?st 1 [7] (Q_Done (Q_Bool True))) (?st 1 [7] Q_Try)"
    using queue_sys_step.begin_call [of 0 "?st 1 [7] (Q_Done (Q_Bool True))" _ Q_try_pop_next] by simp
  moreover have "queue_sys_step (?st 1 [7] Q_Try) (?st 0 [7] Q_Pop)"
    using queue_sys_step.run_thread [of 0 "?st 1 [7] Q_Try"] by (simp add: decrement_if_positive_def)
  ultimately have "queue_sys_step\<^sup>*\<^sup>* ?init (?st 0 [7] Q_Pop)"
    unfolding i by (meson rtranclp.rtrancl_refl rtranclp.rtrancl_into_rtrancl)
  from Queue_fifo_no_panic [OF this, of 0] show ?thesis by simp
qed

end
