(* ===== verification/Buffer_Source.thy ===== *)
theory Buffer_Source
  imports Stream_Buffer Seq_Core
begin

section \<open>Buffer sources: byte streams without copying\<close>

text \<open>
  Models \<^verbatim>\<open>src/src/batteries/async/buffer_source.hpp\<close>, the buffer helpers of \<^verbatim>\<open>buffer.hpp\<close> that it
  uses and \<^verbatim>\<open>HttpData\<close> of \<^verbatim>\<open>http/http_data.hpp\<close>. A source is a state with the two operations
  \<^verbatim>\<open>fetch_at_least\<close> and \<^verbatim>\<open>consume\<close>, which the adapters and the operators take as parameters, as the
  templates of the code do. \<open>None\<close> is a failed check. The contract of a source is the locale
  \<open>buffer_source\<close>; \<open>finite_source\<close> adds that the end of the data is reported as \<^verbatim>\<open>kEndOfStream\<close>.
\<close>

type_synonym fetched = "u8 list list awaited option"

subsection \<open>Consuming a prefix of a buffer sequence\<close>

fun consume_buffers :: "u8 list list \<Rightarrow> nat \<Rightarrow> u8 list list option" where
  "consume_buffers [] cnt = (if cnt > 0 then None else Some [])"
| "consume_buffers (b # bs) cnt =
     (if cnt > 0 then
        (if length b > cnt then Some (drop cnt b # bs) else consume_buffers bs (cnt - length b))
      else Some (b # bs))"

text \<open>
  The iterator version: the buffers from \<^verbatim>\<open>*first\<close> on, the position of \<^verbatim>\<open>first\<close> and the offset in it;
  \<^verbatim>\<open>front += offset\<close> is \<open>drop\<close>.
\<close>

fun consume_buffers_iter :: "u8 list list \<Rightarrow> nat \<Rightarrow> nat \<Rightarrow> nat \<Rightarrow> nat \<times> nat" where
  "consume_buffers_iter [] first offset cnt = (first, 0)"
| "consume_buffers_iter (b # bs) first offset cnt =
     (if cnt > 0 then
        (let front = drop offset b in
         if length front > cnt then (first, cnt)
         else consume_buffers_iter bs (first + 1) 0 (cnt - length front))
      else (first, 0))"

subsection \<open>Sources and adapters\<close>

definition sb_fetch :: "i64 \<Rightarrow> StreamBuffer \<Rightarrow> StreamBuffer \<times> fetched" where
  "sb_fetch n sb = (sb, fetch_at_least n sb)"

definition sb_consume :: "i64 \<Rightarrow> StreamBuffer \<Rightarrow> StreamBuffer option" where
  "sb_consume n sb = Some (consume_bytes n sb)"

text \<open>\<^verbatim>\<open>HttpData\<close>: a source that may be absent.\<close>

definition HttpData_fetch :: "(i64 \<Rightarrow> 's \<Rightarrow> 's \<times> fetched) \<Rightarrow> i64 \<Rightarrow> 's option \<Rightarrow> 's option \<times> fetched" where
  "HttpData_fetch src_fetch n h =
     (case h of None \<Rightarrow> (None, Some (Ready (Inl kEndOfStream)))
      | Some s \<Rightarrow> (case src_fetch n s of (s', r) \<Rightarrow> (Some s', r)))"

definition HttpData_consume :: "(i64 \<Rightarrow> 's \<Rightarrow> 's option) \<Rightarrow> i64 \<Rightarrow> 's option \<Rightarrow> 's option option" where
  "HttpData_consume src_consume n h =
     (case h of None \<Rightarrow> Some None | Some s \<Rightarrow> map_option Some (src_consume n s))"

definition HttpData_size :: "('s \<Rightarrow> nat) \<Rightarrow> 's option \<Rightarrow> nat" where
  "HttpData_size src_size h = (case h of None \<Rightarrow> 0 | Some s \<Rightarrow> src_size s)"

definition HttpData_close_for_read :: "('s \<Rightarrow> 's) \<Rightarrow> 's option \<Rightarrow> 's option" where
  "HttpData_close_for_read src_close h = map_option src_close h"

record 's TakeNSource =
  tn_limit :: nat
  tn_src :: 's

function trim_buffers :: "nat \<Rightarrow> nat \<Rightarrow> u8 list list \<Rightarrow> u8 list list" where
  "trim_buffers limit n_fetched bufs =
     (if n_fetched > limit \<and> bufs \<noteq> [] then
        (let last_buffer = last bufs; extra_bytes = n_fetched - limit in
         if length last_buffer \<le> extra_bytes
         then trim_buffers limit (n_fetched - length last_buffer) (butlast bufs)
         else trim_buffers limit (n_fetched - extra_bytes)
                (butlast bufs @ [take (length last_buffer - extra_bytes) last_buffer]))
      else bufs)"
  by auto
termination
  by (relation "measures [\<lambda>(_, _, bufs). length bufs, \<lambda>(limit, n, _). n - limit]") auto

declare trim_buffers.simps [simp del]

definition TakeN_fetch ::
    "(i64 \<Rightarrow> 's \<Rightarrow> 's \<times> fetched) \<Rightarrow> i64 \<Rightarrow> 's TakeNSource \<Rightarrow> 's TakeNSource \<times> fetched" where
  "TakeN_fetch src_fetch min_count t =
     (case src_fetch min_count (tn_src t) of
        (s, Some (Ready (Inr bufs))) \<Rightarrow>
          (t\<lparr>tn_src := s\<rparr>, Some (Ready (Inr (trim_buffers (tn_limit t) (length (concat bufs)) bufs))))
      | (s, r) \<Rightarrow> (t\<lparr>tn_src := s\<rparr>, r))"

definition TakeN_consume :: "(i64 \<Rightarrow> 's \<Rightarrow> 's option) \<Rightarrow> i64 \<Rightarrow> 's TakeNSource \<Rightarrow> 's TakeNSource option" where
  "TakeN_consume src_consume cnt t =
     (if cnt < 0 then None
      else let n_to_consume = min (nat cnt) (tn_limit t) in
        map_option (\<lambda>s. \<lparr>tn_limit = tn_limit t - n_to_consume, tn_src = s\<rparr>) (src_consume (int n_to_consume) (tn_src t)))"

definition TakeN_size :: "('s \<Rightarrow> nat) \<Rightarrow> 's TakeNSource \<Rightarrow> nat" where
  "TakeN_size src_size t = min (tn_limit t) (src_size (tn_src t))"

definition TakeN_close_for_read :: "'s TakeNSource \<Rightarrow> 's TakeNSource" where
  "TakeN_close_for_read t = t\<lparr>tn_limit := 0\<rparr>"

record 's PrependBufferSource =
  pp_first :: "u8 list list"
  pp_first_buffer_index :: nat
  pp_first_buffer_offset :: nat
  pp_first_bytes_remaining :: nat
  pp_rest :: 's

definition Prepend_init :: "u8 list list \<Rightarrow> 's \<Rightarrow> 's PrependBufferSource" where
  "Prepend_init buffers rest =
     \<lparr>pp_first = buffers, pp_first_buffer_index = 0, pp_first_buffer_offset = 0,
      pp_first_bytes_remaining = length (concat buffers), pp_rest = rest\<rparr>"

definition Prepend_first_buffers :: "'s PrependBufferSource \<Rightarrow> u8 list list option" where
  "Prepend_first_buffers p =
     (if pp_first_bytes_remaining p > 0 then
        (case drop (pp_first_buffer_index p) (pp_first p) of
           [] \<Rightarrow> None
         | b # bs \<Rightarrow> Some (drop (pp_first_buffer_offset p) b # bs))
      else Some [])"

definition Prepend_fetch ::
    "(i64 \<Rightarrow> 's \<Rightarrow> 's \<times> fetched) \<Rightarrow> i64 \<Rightarrow> 's PrependBufferSource \<Rightarrow> 's PrependBufferSource \<times> fetched" where
  "Prepend_fetch src_fetch min_count_i p =
     (if min_count_i < 0 then (p, None)
      else case Prepend_first_buffers p of
        None \<Rightarrow> (p, None)
      | Some bufs \<Rightarrow>
          (let min_count_z = nat min_count_i;
               rest_min_count = min_count_z - min (pp_first_bytes_remaining p) min_count_z in
           case src_fetch (int rest_min_count) (pp_rest p) of
             (s, Some (Ready (Inl st))) \<Rightarrow>
               (p\<lparr>pp_rest := s\<rparr>,
                Some (Ready (if bufs = [] \<or> st \<noteq> kEndOfStream then Inl st else Inr bufs)))
           | (s, Some (Ready (Inr rest_bufs))) \<Rightarrow> (p\<lparr>pp_rest := s\<rparr>, Some (Ready (Inr (bufs @ rest_bufs))))
           | (s, r) \<Rightarrow> (p\<lparr>pp_rest := s\<rparr>, r)))"

definition Prepend_consume ::
    "(i64 \<Rightarrow> 's \<Rightarrow> 's option) \<Rightarrow> i64 \<Rightarrow> 's PrependBufferSource \<Rightarrow> 's PrependBufferSource option" where
  "Prepend_consume src_consume count_i p =
     (if count_i < 0 then None
      else let count_z = nat count_i;
               consume_from_first = min (pp_first_bytes_remaining p) count_z;
               consume_from_rest = count_z - consume_from_first;
               (index, offset) = consume_buffers_iter (drop (pp_first_buffer_index p) (pp_first p))
                 (pp_first_buffer_index p) (pp_first_buffer_offset p) consume_from_first;
               p' = p\<lparr>pp_first_buffer_index := index, pp_first_buffer_offset := offset,
                     pp_first_bytes_remaining := pp_first_bytes_remaining p - consume_from_first\<rparr>
           in if consume_from_rest > 0
              then map_option (\<lambda>s. p'\<lparr>pp_rest := s\<rparr>) (src_consume (int consume_from_rest) (pp_rest p'))
              else Some p')"

definition Prepend_size :: "('s \<Rightarrow> nat) \<Rightarrow> 's PrependBufferSource \<Rightarrow> nat" where
  "Prepend_size src_size p = pp_first_bytes_remaining p + src_size (pp_rest p)"

definition Prepend_close_for_read :: "('s \<Rightarrow> 's) \<Rightarrow> 's PrependBufferSource \<Rightarrow> 's PrependBufferSource" where
  "Prepend_close_for_read src_close p =
     p\<lparr>pp_first_buffer_index := length (pp_first p), pp_first_buffer_offset := 0,
       pp_first_bytes_remaining := 0, pp_rest := src_close (pp_rest p)\<rparr>"

subsection \<open>Operators on sources\<close>

text \<open>\<^verbatim>\<open>src | seq::for_each(fn)\<close>; \<open>Blocked\<close> is a wait for the producer.\<close>

partial_function (option) source_for_each ::
    "(i64 \<Rightarrow> 's \<Rightarrow> 's \<times> fetched) \<Rightarrow> (i64 \<Rightarrow> 's \<Rightarrow> 's option) \<Rightarrow> (u8 list \<Rightarrow> 'c \<Rightarrow> LoopControl \<times> 'c) \<Rightarrow>
       's \<Rightarrow> 'c \<Rightarrow> ('s \<times> 'c \<times> LoopControl awaited) option" where
  "source_for_each src_fetch src_consume fn s c =
     (case src_fetch 1 s of
        (s1, None) \<Rightarrow> None
      | (s1, Some Blocked) \<Rightarrow> Some (s1, c, Blocked)
      | (s1, Some (Ready (Inl st))) \<Rightarrow>
          Some (s1, c, Ready (if st = kEndOfStream then Inr kContinue else Inl st))
      | (s1, Some (Ready (Inr bufs))) \<Rightarrow>
          (case for_each_list fn bufs c of (ctl, _, c1) \<Rightarrow>
             if ctl = kBreak then Some (s1, c1, Ready (Inr kBreak))
             else if length (concat bufs) = 0 then Some (s1, c1, Ready (Inr kContinue))
             else Option.bind (src_consume (int (length (concat bufs))) s1)
                    (\<lambda>s2. source_for_each src_fetch src_consume fn s2 c1)))"

definition source_collect_vec ::
    "(i64 \<Rightarrow> 's \<Rightarrow> 's \<times> fetched) \<Rightarrow> (i64 \<Rightarrow> 's \<Rightarrow> 's option) \<Rightarrow> 's \<Rightarrow> ('s \<times> u8 list awaited) option" where
  "source_collect_vec src_fetch src_consume s =
     do {
       (s', bytes, result) \<leftarrow>
         source_for_each src_fetch src_consume (\<lambda>buffer bytes. (kContinue, bytes @ buffer)) s [];
       Some (s', case result of Blocked \<Rightarrow> Blocked | Ready (Inl st) \<Rightarrow> Ready (Inl st)
                 | Ready (Inr _) \<Rightarrow> Ready (Inr bytes))
     }"

text \<open>
  \<^verbatim>\<open>src | seq::write_to(dst)\<close>. The destination is code outside the library (a socket); \<open>wr\<close>
  stands for \<^verbatim>\<open>Task::await_write_some\<close> on it.
\<close>

partial_function (option) source_write_to ::
    "(i64 \<Rightarrow> 's \<Rightarrow> 's \<times> fetched) \<Rightarrow> (i64 \<Rightarrow> 's \<Rightarrow> 's option) \<Rightarrow> ('d \<Rightarrow> u8 list \<Rightarrow> 'd \<times> nat StatusOr) \<Rightarrow>
       's \<Rightarrow> 'd \<Rightarrow> nat \<Rightarrow> ('s \<times> 'd \<times> nat awaited) option" where
  "source_write_to src_fetch src_consume wr s dst bytes_transferred =
     (case src_fetch 1 s of
        (s1, None) \<Rightarrow> None
      | (s1, Some Blocked) \<Rightarrow> Some (s1, dst, Blocked)
      | (s1, Some (Ready (Inl st))) \<Rightarrow>
          Some (s1, dst, Ready (if st = kEndOfStream then Inr bytes_transferred else Inl st))
      | (s1, Some (Ready (Inr bufs))) \<Rightarrow>
          (case wr dst (concat bufs) of
             (dst1, Inl st) \<Rightarrow> Some (s1, dst1, Ready (Inl st))
           | (dst1, Inr bytes_written) \<Rightarrow>
               Option.bind (src_consume (int bytes_written) s1)
                 (\<lambda>s2. source_write_to src_fetch src_consume wr s2 dst1 (bytes_transferred + bytes_written))))"

subsection \<open>The contract of a source\<close>

text \<open>
  \<open>remaining\<close> is the data that the source still has to deliver, \<open>fetch_max\<close> the largest request that it
  can serve, \<open>src_ok\<close> its invariant (for a stream buffer: the writer has closed, so that no call waits).
  At the end of the data a source reports \<^verbatim>\<open>kEndOfStream\<close> or delivers no bytes.
\<close>

locale buffer_source =
  fixes src_ok :: "'s \<Rightarrow> bool" and remaining :: "'s \<Rightarrow> u8 list" and fetch_max :: "'s \<Rightarrow> nat"
    and src_fetch :: "i64 \<Rightarrow> 's \<Rightarrow> 's \<times> fetched" and src_consume :: "i64 \<Rightarrow> 's \<Rightarrow> 's option"
  assumes fetch_max_pos: "src_ok s \<Longrightarrow> 1 \<le> fetch_max s"
    and fetch_some: "src_ok s \<Longrightarrow> 0 < n \<Longrightarrow> n \<le> length (remaining s) \<Longrightarrow> n \<le> fetch_max s \<Longrightarrow>
      \<exists>s' bs rest. src_fetch (int n) s = (s', Some (Ready (Inr bs))) \<and> src_ok s' \<and>
        remaining s' = remaining s \<and> remaining s = concat bs @ rest \<and> n \<le> length (concat bs)"
    and fetch_end: "src_ok s \<Longrightarrow> remaining s = [] \<Longrightarrow>
      \<exists>s' r. src_fetch 1 s = (s', Some (Ready r)) \<and> src_ok s' \<and> remaining s' = [] \<and>
        (case r of Inl st \<Rightarrow> st = kEndOfStream | Inr bs \<Rightarrow> concat bs = [])"
    and consume_fetched: "src_ok s \<Longrightarrow> src_fetch (int n) s = (s', Some (Ready (Inr bs))) \<Longrightarrow>
      k \<le> length (concat bs) \<Longrightarrow>
      \<exists>s''. src_consume (int k) s' = Some s'' \<and> src_ok s'' \<and> remaining s'' = drop k (remaining s)"
begin

text \<open>One fetch of at least one byte, as every operator below does it.\<close>

lemma fetch_one:
  assumes "src_ok s" and "remaining s \<noteq> []"
  obtains s' bs rest where "src_fetch 1 s = (s', Some (Ready (Inr bs)))" and "src_ok s'"
    and "remaining s = concat bs @ rest" and "concat bs \<noteq> []" and "remaining s' = remaining s"
proof -
  have "Suc 0 \<le> length (remaining s)" using assms(2) by (simp add: Suc_leI)
  then obtain s' bs rest where "src_fetch 1 s = (s', Some (Ready (Inr bs)))" "src_ok s'"
    "remaining s' = remaining s" "remaining s = concat bs @ rest" "1 \<le> length (concat bs)"
    using fetch_some [of s 1] fetch_max_pos [of s] assms(1) by auto
  then show ?thesis by (intro that [of s' bs rest]) (auto simp del: concat_eq_Nil_conv)
qed

lemma consume_one:
  assumes "src_ok s" and "src_fetch 1 s = (s', Some (Ready (Inr bs)))" and "k \<le> length (concat bs)"
  obtains s'' where "src_consume (int k) s' = Some s''" and "src_ok s''" and "remaining s'' = drop k (remaining s)"
  using consume_fetched [of s 1 s' bs k] assms that by auto

text \<open>\<^verbatim>\<open>for_each\<close> shows the body all the data, in order, in pieces; its last call is a fetch at the end of the
  data.\<close>

lemma source_for_each_void:
  assumes "src_ok s"
  shows "\<exists>s' bufs. source_for_each src_fetch src_consume (run_loop_fn_void fn) s c =
      Some (s', fold fn bufs c, Ready (Inr kContinue)) \<and> concat bufs = remaining s \<and> src_ok s' \<and> remaining s' = [] \<and>
      (\<exists>s0 r. src_ok s0 \<and> remaining s0 = [] \<and> src_fetch 1 s0 = (s', Some (Ready r)))"
  using assms
proof (induction "length (remaining s)" arbitrary: s c rule: less_induct)
  case less
  show ?case
  proof (cases "remaining s = []")
    case True
    from fetch_end [OF less.prems this] obtain s' r where
      f: "src_fetch 1 s = (s', Some (Ready r))" "src_ok s'" "remaining s' = []"
        "case r of Inl st \<Rightarrow> st = kEndOfStream | Inr bs \<Rightarrow> concat bs = []" by blast
    show ?thesis
    proof (cases r)
      case (Inl st)
      with f True less.prems show ?thesis by (subst source_for_each.simps) (auto intro!: exI [of _ "[]"])
    next
      case (Inr bs)
      with f True less.prems show ?thesis by (subst source_for_each.simps) (auto simp: for_each_list_void)
    qed
  next
    case False
    from fetch_one [OF less.prems False] obtain s1 bs rest where
      1: "src_fetch 1 s = (s1, Some (Ready (Inr bs)))" "remaining s = concat bs @ rest" "concat bs \<noteq> []"
      by metis
    from consume_one [OF less.prems 1(1) order_refl] obtain s2 where
      2: "src_consume (int (length (concat bs))) s1 = Some s2" "src_ok s2"
        "remaining s2 = drop (length (concat bs)) (remaining s)" by blast
    have r2: "remaining s2 = rest" using 2(3) 1(2) by simp
    moreover have "length rest < length (remaining s)" using 1(2,3) by simp
    ultimately obtain s' bufs where
      "source_for_each src_fetch src_consume (run_loop_fn_void fn) s2 (fold fn bs c) =
        Some (s', fold fn bufs (fold fn bs c), Ready (Inr kContinue))" "concat bufs = rest"
      "src_ok s'" "remaining s' = []"
      "\<exists>s0 r. src_ok s0 \<and> remaining s0 = [] \<and> src_fetch 1 s0 = (s', Some (Ready r))"
      using less.hyps [OF _ 2(2), of "fold fn bs c"] by auto
    with 1 2(1) show ?thesis
      by (subst source_for_each.simps) (auto simp: for_each_list_void intro!: exI [of _ "bs @ bufs"])
  qed
qed

lemma source_collect_vec_all:
  assumes "src_ok s"
  shows "\<exists>s'. source_collect_vec src_fetch src_consume s = Some (s', Ready (Inr (remaining s))) \<and>
    src_ok s' \<and> remaining s' = [] \<and>
    (\<exists>s0 r. src_ok s0 \<and> remaining s0 = [] \<and> src_fetch 1 s0 = (s', Some (Ready r)))"
proof -
  have fn: "(\<lambda>buffer bytes. (kContinue, bytes @ buffer)) = run_loop_fn_void (\<lambda>buffer bytes. bytes @ buffer)"
    by (simp add: run_loop_fn_void_def fun_eq_iff)
  have "fold (\<lambda>buffer bytes. bytes @ buffer) bufs bytes = bytes @ concat bufs" for bufs and bytes :: "u8 list"
    by (induction bufs arbitrary: bytes) auto
  with source_for_each_void [OF assms, of "\<lambda>buffer bytes. bytes @ buffer" "[]"] show ?thesis
    by (fastforce simp: source_collect_vec_def fn)
qed

end

locale finite_source = buffer_source +
  assumes fetch_eos: "src_ok s \<Longrightarrow> remaining s = [] \<Longrightarrow>
      \<exists>s'. src_fetch 1 s = (s', Some (Ready (Inl kEndOfStream))) \<and> src_ok s' \<and> remaining s' = []"
    and fetch_nonempty: "src_ok s \<Longrightarrow> src_fetch 1 s = (s', Some (Ready (Inr bs))) \<Longrightarrow> [] \<notin> set bs"
begin

text \<open>
  \<^verbatim>\<open>write_to\<close> on a destination that takes at least one byte of every non-empty write: everything is
  written, in order, and the loop ends.
\<close>

lemma source_write_to_all:
  assumes "src_ok s"
    and wr: "\<And>dst data. data \<noteq> [] \<Longrightarrow> \<exists>dst' n. wr dst data = (dst', Inr n) \<and> 0 < n \<and> n \<le> length data \<and>
      sent dst' = sent dst @ take n data"
  shows "\<exists>s' dst'. source_write_to src_fetch src_consume wr s dst n =
      Some (s', dst', Ready (Inr (n + length (remaining s)))) \<and> sent dst' = sent dst @ remaining s \<and>
      src_ok s' \<and> remaining s' = []"
  using assms(1)
proof (induction "length (remaining s)" arbitrary: s dst n rule: less_induct)
  case less
  show ?case
  proof (cases "remaining s = []")
    case True
    with fetch_eos [OF less.prems this] show ?thesis by (subst source_write_to.simps) auto
  next
    case False
    from fetch_one [OF less.prems False] obtain s1 bs rest where
      1: "src_fetch 1 s = (s1, Some (Ready (Inr bs)))" "remaining s = concat bs @ rest" "concat bs \<noteq> []"
      by metis
    from wr [OF 1(3), of dst] obtain dst1 k where
      w: "wr dst (concat bs) = (dst1, Inr k)" "0 < k" "k \<le> length (concat bs)"
        "sent dst1 = sent dst @ take k (concat bs)" by blast
    from consume_one [OF less.prems 1(1) w(3)] obtain s2 where
      2: "src_consume (int k) s1 = Some s2" "src_ok s2" "remaining s2 = drop k (remaining s)" by blast
    have "length (remaining s2) < length (remaining s)" using 2(3) w(2) False by simp
    from less.hyps [OF this 2(2), of dst1 "n + k"] obtain s' dst' where
      "source_write_to src_fetch src_consume wr s2 dst1 (n + k) =
        Some (s', dst', Ready (Inr (n + k + length (remaining s2))))"
      "sent dst' = sent dst1 @ remaining s2" "src_ok s'" "remaining s' = []" by blast
    moreover have "take k (concat bs) @ drop k (concat bs @ rest) = concat bs @ rest"
      using w(3) by simp
    moreover have "k + length (remaining s2) = length (remaining s)" using 2(3) w(3) 1(2) by simp
    ultimately show ?thesis using 1 w 2 by (subst source_write_to.simps) (simp add: add.assoc)
  qed
qed

end

subsection \<open>A stream buffer whose writer has closed is a finite source\<close>

definition sb_source_ok :: "StreamBuffer \<Rightarrow> bool" where
  "sb_source_ok sb \<longleftrightarrow> sb_inv sb \<and> sb_commit_closed sb = Some kEndOfStream"

lemma region_bytes_Nil_iff:
  "region_bytes mem (b, n) = [] \<longleftrightarrow> n = 0 \<or> length mem \<le> b"
  "[] = region_bytes mem (b, n) \<longleftrightarrow> n = 0 \<or> length mem \<le> b"
  by (auto simp: region_bytes_def)

lemma get_buffers_nonempty:
  assumes "sb_inv sb" and "get_buffers sb offset cnt = Some rs" and "0 < cnt"
  shows "[] \<notin> set (map (region_bytes (sb_buffer sb)) rs)"
proof -
  have "offset mod sb_capacity sb < sb_capacity sb" "0 \<le> offset mod sb_capacity sb"
    using assms(1) by (auto simp: sb_inv_def)
  moreover have "length (sb_buffer sb) = nat (sb_capacity sb)" using assms(1) by (auto simp: sb_inv_def)
  ultimately show ?thesis using assms(2,3)
    by (auto simp: get_buffers_def Let_def region_bytes_Nil_iff nat_le_eq_zle split: if_splits)
qed

lemma fetch_one_nonempty:
  assumes inv: "sb_inv sb" and res: "fetch_at_least 1 sb = Some (Ready (Inr bs))"
  shows "[] \<notin> set bs"
proof -
  have len: "1 \<le> sb_len sb"
  proof (rule ccontr)
    assume "\<not> 1 \<le> sb_len sb"
    with fetch_short [OF inv, of 1] res show False by (auto split: if_splits option.splits)
  qed
  obtain rs where rs: "get_buffers sb (sb_consume_pos sb) (int (sb_len sb)) = Some rs" "rs \<noteq> []"
    using get_buffers_indices [OF inv, of "sb_consume_pos sb" "int (sb_len sb)"] inv by (auto simp: sb_inv_def)
  have ne: "[] \<notin> set (map (region_bytes (sb_buffer sb)) rs)"
    by (rule get_buffers_nonempty [OF inv rs(1)]) (use len in linarith)
  have "1 \<le> sb_capacity sb" "sb_size sb = Some (int (sb_len sb))" "sb_consume_pos sb + 1 \<le> sb_commit_pos sb"
    using inv len by (auto simp: sb_inv_def sb_size_def Let_def)
  then have "pre_transfer sb 1 (sb_consume_pos sb) (sb_commit_pos sb) (sb_commit_closed sb) 1 (sb_size sb) True
      = Some (Ready (Inr rs))"
    using rs(1) by (simp add: pre_transfer_def await_pos_def Let_def)
  moreover have "hd (map (region_bytes (sb_buffer sb)) rs) \<noteq> []" using ne rs(2) by (cases rs) auto
  ultimately have "bs = map (region_bytes (sb_buffer sb)) rs"
    using res by (simp add: fetch_at_least_def Let_def)
  with ne show ?thesis by simp
qed

interpretation sb_source: finite_source sb_source_ok contents "\<lambda>sb. nat (sb_capacity sb)" sb_fetch sb_consume
proof unfold_locales
  fix s n assume s: "sb_source_ok s" and n: "n \<le> length (contents s)"
  then show "\<exists>s' bs rest. sb_fetch (int n) s = (s', Some (Ready (Inr bs))) \<and> sb_source_ok s' \<and>
      contents s' = contents s \<and> contents s = concat bs @ rest \<and> n \<le> length (concat bs)"
    using fetch_spec [of s n] by (auto simp: sb_source_ok_def sb_fetch_def)
next
  fix s n s' bs k
  assume s: "sb_source_ok s" and f: "sb_fetch (int n) s = (s', Some (Ready (Inr bs)))"
    and k: "k \<le> length (concat bs)"
  have n: "n \<le> sb_len s"
  proof (rule ccontr)
    assume "\<not> n \<le> sb_len s"
    with fetch_short [of s n] s f show False
      by (auto simp: sb_source_ok_def sb_fetch_def split: if_splits)
  qed
  with fetch_spec [of s n] s f have "concat bs = contents s" "s' = s" "sb_inv s"
    by (auto simp: sb_source_ok_def sb_fetch_def)
  with contents_consume [of s k] k s show
    "\<exists>s''. sb_consume (int k) s' = Some s'' \<and> sb_source_ok s'' \<and> contents s'' = drop k (contents s)"
    by (auto simp: sb_source_ok_def sb_consume_def consume_bytes_def)
next
  fix s assume "sb_source_ok s" and "contents s = []"
  then show "\<exists>s'. sb_fetch 1 s = (s', Some (Ready (Inl kEndOfStream))) \<and> sb_source_ok s' \<and> contents s' = []"
    using fetch_short [of s 1] by (auto simp: sb_source_ok_def sb_fetch_def sb_inv_def simp flip: length_0_conv)
  then show "\<exists>s' r. sb_fetch 1 s = (s', Some (Ready r)) \<and> sb_source_ok s' \<and> contents s' = [] \<and>
      (case r of Inl st \<Rightarrow> st = kEndOfStream | Inr bs \<Rightarrow> concat bs = [])" by auto
next
  fix s s' bs assume "sb_source_ok s" and "sb_fetch 1 s = (s', Some (Ready (Inr bs)))"
  then show "[] \<notin> set bs" using fetch_one_nonempty by (auto simp: sb_source_ok_def sb_fetch_def)
qed (auto simp: sb_source_ok_def sb_inv_def)

subsection \<open>The adapters are sources again\<close>

lemma concat_snoc_last: "bufs \<noteq> [] \<Longrightarrow> concat bufs = concat (butlast bufs) @ last bufs"
  by (metis append_butlast_last_id append_Nil2 concat.simps concat_append)

lemma trim_buffers_concat:
  "n = length (concat bufs) \<Longrightarrow> concat (trim_buffers limit n bufs) = take limit (concat bufs)"
proof (induction limit n bufs rule: trim_buffers.induct)
  case (1 limit n bufs)
  show ?case
  proof (cases "n > limit \<and> bufs \<noteq> []")
    case True
    then have c: "concat bufs = concat (butlast bufs) @ last bufs" by (simp add: concat_snoc_last)
    show ?thesis
    proof (cases "length (last bufs) \<le> n - limit")
      case le: True
      with True 1(3) c have "limit \<le> length (concat (butlast bufs))"
        by (simp del: length_concat) linarith
      with le 1 True c show ?thesis by (subst trim_buffers.simps) (simp add: Let_def)
    next
      case False
      let ?m = "length (last bufs) - (n - limit)"
      have n: "n = length (concat (butlast bufs)) + length (last bufs)"
        using 1(3) c by (metis length_append)
      with False True have "limit - length (concat (butlast bufs)) = ?m" "length (concat (butlast bufs)) \<le> limit"
        by linarith+
      then have "take limit (concat bufs) = concat (butlast bufs) @ take ?m (last bufs)"
        by (subst c) simp
      moreover have "n - (n - limit) = limit" using True by simp
      ultimately show ?thesis using True False
        by (subst trim_buffers.simps) (simp add: Let_def trim_buffers.simps [of limit limit])
    qed
  next
    case False
    with 1(3) show ?thesis by (subst trim_buffers.simps) auto
  qed
qed

context buffer_source
begin

lemma TakeN_buffer_source:
  "buffer_source (\<lambda>t. src_ok (tn_src t)) (\<lambda>t. take (tn_limit t) (remaining (tn_src t)))
     (\<lambda>t. fetch_max (tn_src t)) (TakeN_fetch src_fetch) (TakeN_consume src_consume)"
proof unfold_locales
  fix t :: "'s TakeNSource" and n
  assume t: "src_ok (tn_src t)" and n0: "0 < n" and n: "n \<le> length (take (tn_limit t) (remaining (tn_src t)))"
    "n \<le> fetch_max (tn_src t)"
  then have "n \<le> length (remaining (tn_src t))" "n \<le> tn_limit t" by auto
  from fetch_some [OF t n0 this(1) n(2)] obtain s bs rest where
    f: "src_fetch (int n) (tn_src t) = (s, Some (Ready (Inr bs)))" "src_ok s"
      "remaining s = remaining (tn_src t)" "remaining (tn_src t) = concat bs @ rest" "n \<le> length (concat bs)" by blast
  with \<open>n \<le> tn_limit t\<close> show "\<exists>t' bs rest. TakeN_fetch src_fetch (int n) t = (t', Some (Ready (Inr bs))) \<and>
      src_ok (tn_src t') \<and> take (tn_limit t') (remaining (tn_src t')) = take (tn_limit t) (remaining (tn_src t)) \<and>
      take (tn_limit t) (remaining (tn_src t)) = concat bs @ rest \<and> n \<le> length (concat bs)"
    by (auto simp: TakeN_fetch_def trim_buffers_concat simp del: length_concat)
next
  fix t :: "'s TakeNSource"
  assume t: "src_ok (tn_src t)" and e: "take (tn_limit t) (remaining (tn_src t)) = []"
  show "\<exists>t' r. TakeN_fetch src_fetch 1 t = (t', Some (Ready r)) \<and> src_ok (tn_src t') \<and>
      take (tn_limit t') (remaining (tn_src t')) = [] \<and>
      (case r of Inl st \<Rightarrow> st = kEndOfStream | Inr bs \<Rightarrow> concat bs = [])"
  proof (cases "remaining (tn_src t) = []")
    case True
    from fetch_end [OF t this] obtain s r where
      "src_fetch 1 (tn_src t) = (s, Some (Ready r))" "src_ok s" "remaining s = []"
      "case r of Inl st \<Rightarrow> st = kEndOfStream | Inr bs \<Rightarrow> concat bs = []" by blast
    then show ?thesis
      by (cases r) (auto simp: TakeN_fetch_def trim_buffers_concat simp del: concat_eq_Nil_conv length_concat)
  next
    case False
    with e have "tn_limit t = 0" by simp
    from fetch_one [OF t False] obtain s bs rest where
      "src_fetch 1 (tn_src t) = (s, Some (Ready (Inr bs)))" "src_ok s" by metis
    with \<open>tn_limit t = 0\<close> show ?thesis
      by (auto simp: TakeN_fetch_def trim_buffers_concat simp del: concat_eq_Nil_conv length_concat)
  qed
next
  fix t t' :: "'s TakeNSource" and n bs k
  assume t: "src_ok (tn_src t)" and f: "TakeN_fetch src_fetch (int n) t = (t', Some (Ready (Inr bs)))"
    and k: "k \<le> length (concat bs)"
  from f obtain s bs0 where f0: "src_fetch (int n) (tn_src t) = (s, Some (Ready (Inr bs0)))"
    "t' = t\<lparr>tn_src := s\<rparr>" "bs = trim_buffers (tn_limit t) (length (concat bs0)) bs0"
    by (auto simp: TakeN_fetch_def split: prod.splits option.splits awaited.splits sum.splits)
  with k have "k \<le> length (concat bs0)" "k \<le> tn_limit t"
    by (auto simp: trim_buffers_concat simp del: length_concat)
  with consume_fetched [OF t f0(1) this(1)] f0(2)
  show "\<exists>t''. TakeN_consume src_consume (int k) t' = Some t'' \<and> src_ok (tn_src t'') \<and>
      take (tn_limit t'') (remaining (tn_src t'')) = drop k (take (tn_limit t) (remaining (tn_src t)))"
    by (auto simp: TakeN_consume_def min_absorb1 drop_take)
qed (use fetch_max_pos in auto)

end

context finite_source
begin

lemma HttpData_finite_source:
  "finite_source (\<lambda>h. case h of None \<Rightarrow> True | Some s \<Rightarrow> src_ok s)
     (\<lambda>h. case h of None \<Rightarrow> [] | Some s \<Rightarrow> remaining s)
     (\<lambda>h. case h of None \<Rightarrow> 1 | Some s \<Rightarrow> fetch_max s)
     (HttpData_fetch src_fetch) (HttpData_consume src_consume)"
proof unfold_locales
  fix h :: "'a option" and n
  assume "case h of None \<Rightarrow> True | Some s \<Rightarrow> src_ok s" and "0 < n"
    and "n \<le> length (case h of None \<Rightarrow> [] | Some s \<Rightarrow> remaining s)"
    and "n \<le> (case h of None \<Rightarrow> 1 | Some s \<Rightarrow> fetch_max s)"
  then show "\<exists>h' bs rest. HttpData_fetch src_fetch (int n) h = (h', Some (Ready (Inr bs))) \<and>
      (case h' of None \<Rightarrow> True | Some s \<Rightarrow> src_ok s) \<and>
      (case h' of None \<Rightarrow> [] | Some s \<Rightarrow> remaining s) = (case h of None \<Rightarrow> [] | Some s \<Rightarrow> remaining s) \<and>
      (case h of None \<Rightarrow> [] | Some s \<Rightarrow> remaining s) = concat bs @ rest \<and> n \<le> length (concat bs)"
    using fetch_some [of "the h" n] by (cases h) (auto simp: HttpData_fetch_def simp del: length_concat)
next
  fix h :: "'a option"
  assume "case h of None \<Rightarrow> True | Some s \<Rightarrow> src_ok s" and "(case h of None \<Rightarrow> [] | Some s \<Rightarrow> remaining s) = []"
  then show eos: "\<exists>h'. HttpData_fetch src_fetch 1 h = (h', Some (Ready (Inl kEndOfStream))) \<and>
      (case h' of None \<Rightarrow> True | Some s \<Rightarrow> src_ok s) \<and> (case h' of None \<Rightarrow> [] | Some s \<Rightarrow> remaining s) = []"
    using fetch_eos [of "the h"] by (cases h) (auto simp: HttpData_fetch_def)
  show "\<exists>h' r. HttpData_fetch src_fetch 1 h = (h', Some (Ready r)) \<and>
      (case h' of None \<Rightarrow> True | Some s \<Rightarrow> src_ok s) \<and> (case h' of None \<Rightarrow> [] | Some s \<Rightarrow> remaining s) = [] \<and>
      (case r of Inl st \<Rightarrow> st = kEndOfStream | Inr bs \<Rightarrow> concat bs = [])" using eos by fastforce
next
  fix h h' :: "'a option" and n bs k
  assume "case h of None \<Rightarrow> True | Some s \<Rightarrow> src_ok s"
    and "HttpData_fetch src_fetch (int n) h = (h', Some (Ready (Inr bs)))" and "k \<le> length (concat bs)"
  then show "\<exists>h''. HttpData_consume src_consume (int k) h' = Some h'' \<and>
      (case h'' of None \<Rightarrow> True | Some s \<Rightarrow> src_ok s) \<and>
      (case h'' of None \<Rightarrow> [] | Some s \<Rightarrow> remaining s) = drop k (case h of None \<Rightarrow> [] | Some s \<Rightarrow> remaining s)"
    using consume_fetched [of "the h" n "the h'" bs k]
    by (cases h) (auto simp: HttpData_fetch_def HttpData_consume_def split: prod.splits simp del: length_concat)
next
  fix h h' :: "'a option" and bs
  assume "case h of None \<Rightarrow> True | Some s \<Rightarrow> src_ok s"
    and "HttpData_fetch src_fetch 1 h = (h', Some (Ready (Inr bs)))"
  then show "[] \<notin> set bs"
    using fetch_nonempty [of "the h"] by (cases h) (auto simp: HttpData_fetch_def split: prod.splits)
qed (use fetch_max_pos in \<open>auto split: option.splits\<close>)

end

interpretation http_data: finite_source
  "\<lambda>h. case h of None \<Rightarrow> True | Some s \<Rightarrow> sb_source_ok s"
  "\<lambda>h. case h of None \<Rightarrow> [] | Some s \<Rightarrow> contents s"
  "\<lambda>h. case h of None \<Rightarrow> 1 | Some s \<Rightarrow> nat (sb_capacity s)"
  "HttpData_fetch sb_fetch" "HttpData_consume sb_consume"
  by (rule sb_source.HttpData_finite_source)

interpretation sb_take_n: buffer_source
  "\<lambda>t. sb_source_ok (tn_src t)" "\<lambda>t. take (tn_limit t) (contents (tn_src t))"
  "\<lambda>t. nat (sb_capacity (tn_src t))" "TakeN_fetch sb_fetch" "TakeN_consume sb_consume"
  by (rule sb_source.TakeN_buffer_source)

subsection \<open>Properties\<close>

text \<open>
  \<^verbatim>\<open>collect_vec\<close> returns, and delivers every byte that is left, in order: of a stream
  buffer whose writer has closed, of the first \<open>n\<close> bytes of it through \<^verbatim>\<open>take_n(n)\<close>, and of an
  \<^verbatim>\<open>HttpData\<close> around it, where an absent source is an empty one.
\<close>

theorem collect_vec_delivers_all:
  assumes "sb_source_ok sb"
  shows "(\<exists>sb'. source_collect_vec sb_fetch sb_consume sb = Some (sb', Ready (Inr (contents sb)))) \<and>
    (\<exists>t. source_collect_vec (TakeN_fetch sb_fetch) (TakeN_consume sb_consume) \<lparr>tn_limit = n, tn_src = sb\<rparr> =
       Some (t, Ready (Inr (take n (contents sb))))) \<and>
    (\<exists>h. source_collect_vec (HttpData_fetch sb_fetch) (HttpData_consume sb_consume) (Some sb) =
       Some (h, Ready (Inr (contents sb)))) \<and>
    (\<exists>h. source_collect_vec (HttpData_fetch sb_fetch) (HttpData_consume sb_consume) None =
       Some (h, Ready (Inr [])))"
  using sb_source.source_collect_vec_all [OF assms]
    sb_take_n.source_collect_vec_all [of "\<lparr>tn_limit = n, tn_src = sb\<rparr>"] assms
    http_data.source_collect_vec_all [of "Some sb"] http_data.source_collect_vec_all [of None]
  by auto

text \<open>A stream buffer that holds four bytes, wrapped around the end of the ring, and is closed.\<close>

definition example_closed_buffer :: StreamBuffer where
  "example_closed_buffer = \<lparr>sb_capacity = 5, sb_buffer = [5, 6, 0, 3, 4], sb_consume_pos = 3, sb_commit_pos = 7,
     sb_consume_closed = None, sb_commit_closed = Some kEndOfStream\<rparr>"

lemma example_closed_buffer_props:
  "sb_source_ok example_closed_buffer" "contents example_closed_buffer = [3, 4, 5, 6]"
  by code_simp+

theorem collect_vec_delivers_all_witness:
  "\<exists>t. source_collect_vec (TakeN_fetch sb_fetch) (TakeN_consume sb_consume)
     \<lparr>tn_limit = 3, tn_src = example_closed_buffer\<rparr> = Some (t, Ready (Inr [3, 4, 5]))"
  using collect_vec_delivers_all [OF example_closed_buffer_props(1), of 3]
  by (simp add: example_closed_buffer_props(2))

text \<open>
  C21 (liveness). \<^verbatim>\<open>write_to\<close> on an \<^verbatim>\<open>HttpData\<close> whose source is a stream buffer that has been closed for commits, with all
  of its data in it (not one limited by \<^verbatim>\<open>take_n\<close>, with which the loop does not end), ends and writes every byte, in order, to a destination
  that accepts at least one byte of every non-empty write (the contract of \<^verbatim>\<open>async_write_some\<close> of a
  stream that does not fail); the result is the number of the bytes.
\<close>

theorem write_to_sends_all:
  assumes "sb_source_ok sb"
    and "\<And>dst data. data \<noteq> [] \<Longrightarrow> \<exists>dst' n. wr dst data = (dst', Inr n) \<and> 0 < n \<and> n \<le> length data \<and>
      sent dst' = sent dst @ take n data"
  shows "\<exists>h dst'. source_write_to (HttpData_fetch sb_fetch) (HttpData_consume sb_consume) wr (Some sb) dst 0 =
      Some (h, dst', Ready (Inr (length (contents sb)))) \<and> sent dst' = sent dst @ contents sb"
  using http_data.source_write_to_all [of "Some sb" wr sent dst 0] assms by auto

definition example_wr :: "u8 list \<Rightarrow> u8 list \<Rightarrow> u8 list \<times> nat StatusOr" where
  "example_wr dst data = (dst @ take 3 data, Inr (min 3 (length data)))"

theorem write_to_sends_all_witness:
  "\<exists>h. source_write_to (HttpData_fetch sb_fetch) (HttpData_consume sb_consume) example_wr
     (Some example_closed_buffer) [9] 0 = Some (h, [9, 3, 4, 5, 6], Ready (Inr 4))"
proof -
  have "data \<noteq> [] \<Longrightarrow> \<exists>dst' n. example_wr dst data = (dst', Inr n) \<and> 0 < n \<and> n \<le> length data \<and>
      id dst' = id dst @ take n data" for dst data
    by (cases data) (auto simp: example_wr_def min_def)
  from write_to_sends_all [OF example_closed_buffer_props(1) this, of "[9]"] show ?thesis
    by (auto simp: example_closed_buffer_props(2))
qed

lemma TakeN_step_over_limit:
  assumes "sb_source_ok (tn_src t)" and "tn_limit t < length (contents (tn_src t))"
  shows "\<exists>bs. TakeN_fetch sb_fetch 1 t = (t, Some (Ready (Inr bs))) \<and>
    (\<forall>k \<le> length (concat bs). \<exists>t'. TakeN_consume sb_consume (int k) t = Some t' \<and>
       sb_source_ok (tn_src t') \<and> tn_limit t' < length (contents (tn_src t')))"
proof -
  have inv: "sb_inv (tn_src t)" and len: "1 \<le> sb_len (tn_src t)"
    using assms by (auto simp: sb_source_ok_def)
  from fetch_spec [OF inv len] obtain bs where bs: "fetch_at_least 1 (tn_src t) = Some (Ready (Inr bs))"
    "concat bs = contents (tn_src t)" by auto
  let ?bs = "trim_buffers (tn_limit t) (length (concat bs)) bs"
  have c: "concat ?bs = take (tn_limit t) (contents (tn_src t))"
    using trim_buffers_concat [OF refl, of "tn_limit t" bs] bs(2) by simp
  have "\<exists>t'. TakeN_consume sb_consume (int k) t = Some t' \<and>
       sb_source_ok (tn_src t') \<and> tn_limit t' < length (contents (tn_src t'))" if "k \<le> length (concat ?bs)" for k
  proof -
    from that c have k: "k \<le> tn_limit t" "k \<le> sb_len (tn_src t)" by (auto simp del: length_concat)
    with contents_consume [OF inv k(2)] assms show ?thesis
      by (auto simp: TakeN_consume_def sb_consume_def sb_source_ok_def min_absorb1 consume_bytes_def)
  qed
  moreover have "TakeN_fetch sb_fetch 1 t = (t, Some (Ready (Inr ?bs)))"
    using bs(1) by (simp add: TakeN_fetch_def sb_fetch_def)
  ultimately show ?thesis by blast
qed

abbreviation over_limit :: "StreamBuffer TakeNSource \<Rightarrow> bool" where
  "over_limit t \<equiv> sb_source_ok (tn_src t) \<and> tn_limit t < length (contents (tn_src t))"

lemma TakeN_write_to_no_result:
  assumes ret: "source_write_to (TakeN_fetch sb_fetch) (TakeN_consume sb_consume) wr t dst n = Some y"
    and wr: "\<And>dst data. \<exists>dst' k. wr dst data = (dst', Inr k) \<and> k \<le> length data"
  shows "\<not> over_limit t"
proof (rule source_write_to.raw_induct [where P = "\<lambda>f c w t dst n y. f = TakeN_fetch sb_fetch \<longrightarrow>
      c = TakeN_consume sb_consume \<longrightarrow> w = wr \<longrightarrow> \<not> over_limit t", OF _ ret, THEN mp, OF _ refl, THEN mp, OF _ refl,
      THEN mp, OF _ refl], intro impI notI)
  fix rec f c w t dst n y
  assume IH: "\<And>f c w t dst n y. rec f c w t dst n = Some y \<Longrightarrow> f = TakeN_fetch sb_fetch \<longrightarrow>
      c = TakeN_consume sb_consume \<longrightarrow> w = wr \<longrightarrow> \<not> over_limit t"
    and eq: "(case f 1 t of (s1, None) \<Rightarrow> None | (s1, Some Blocked) \<Rightarrow> Some (s1, dst, Blocked)
        | (s1, Some (Ready (Inl st))) \<Rightarrow> Some (s1, dst, Ready (if st = kEndOfStream then Inr n else Inl st))
        | (s1, Some (Ready (Inr bufs))) \<Rightarrow>
            (case w dst (concat bufs) of (dst1, Inl st) \<Rightarrow> Some (s1, dst1, Ready (Inl st))
             | (dst1, Inr bytes_written) \<Rightarrow>
                 Option.bind (c (int bytes_written) s1) (\<lambda>s2. rec f c w s2 dst1 (n + bytes_written)))) = Some y"
    and fcw: "f = TakeN_fetch sb_fetch" "c = TakeN_consume sb_consume" "w = wr" and t: "over_limit t"
  from TakeN_step_over_limit [of t] t obtain bs where
    1: "TakeN_fetch sb_fetch 1 t = (t, Some (Ready (Inr bs)))"
    and 2: "\<And>k. k \<le> length (concat bs) \<Longrightarrow> \<exists>t'. TakeN_consume sb_consume (int k) t = Some t' \<and> over_limit t'"
    by blast
  from wr [of dst "concat bs"] obtain dst' k where
    w: "wr dst (concat bs) = (dst', Inr k)" "k \<le> length (concat bs)" by blast
  from 2 [OF w(2)] obtain t' where t': "TakeN_consume sb_consume (int k) t = Some t'" "over_limit t'" by blast
  have "rec f c w t' dst' (n + k) = Some y"
    using eq 1 w(1) t'(1) by (simp add: fcw)
  from IH [OF this] fcw t'(2) show False by blast
qed

text \<open>
  A \<^verbatim>\<open>take_n(limit)\<close> source never reports the end of its data while the source under it
  has more: \<^verbatim>\<open>write_to\<close> on it never returns, whatever the destination accepts, even one that takes every
  byte it is offered.
\<close>

theorem TakeN_write_to_never_returns:
  assumes "sb_source_ok sb" and "limit < length (contents sb)"
    and "\<And>dst data. \<exists>dst' k. wr dst data = (dst', Inr k) \<and> k \<le> length data"
  shows "source_write_to (TakeN_fetch sb_fetch) (TakeN_consume sb_consume) wr
     \<lparr>tn_limit = limit, tn_src = sb\<rparr> dst n = None"
proof (rule ccontr)
  assume "\<not> ?thesis"
  then obtain y where "source_write_to (TakeN_fetch sb_fetch) (TakeN_consume sb_consume) wr
     \<lparr>tn_limit = limit, tn_src = sb\<rparr> dst n = Some y" by auto
  from TakeN_write_to_no_result [OF this assms(3)] assms(1,2) show False by simp
qed

theorem TakeN_write_to_never_returns_witness:
  "source_write_to (TakeN_fetch sb_fetch) (TakeN_consume sb_consume) example_wr
     \<lparr>tn_limit = 2, tn_src = example_closed_buffer\<rparr> [] 0 = None"
  by (rule TakeN_write_to_never_returns)
    (auto simp: example_closed_buffer_props example_wr_def simp del: length_contents)

text \<open>
  Two partial consumes of a prepended buffer lose the position: after consuming \<open>k\<^sub>1\<close> and
  then \<open>k\<^sub>2\<close> bytes the source shows the buffer from byte \<open>k\<^sub>2\<close> on instead of \<open>k\<^sub>1 + k\<^sub>2\<close>, because
  \<^verbatim>\<open>consume_buffers_iter\<close> returns the count without the offset it started from; bytes that were already
  consumed are delivered again.
\<close>

theorem Prepend_consume_loses_position:
  assumes "0 < k1" and "0 < k2" and "k1 + k2 < length buf"
  shows "\<exists>p1 p2. Prepend_consume src_consume (int k1) (Prepend_init [buf] s) = Some p1 \<and>
     Prepend_consume src_consume (int k2) p1 = Some p2 \<and>
     Prepend_first_buffers p1 = Some [drop k1 buf] \<and>
     Prepend_first_buffers p2 = Some [drop k2 buf] \<and> drop k2 buf \<noteq> drop (k1 + k2) buf \<and>
     pp_first_bytes_remaining p2 = length buf - (k1 + k2)"
proof -
  have "length (drop k2 buf) \<noteq> length (drop (k1 + k2) buf)" using assms by simp
  then have "drop k2 buf \<noteq> drop (k1 + k2) buf" by metis
  moreover have "k2 < length buf - k1" "buf \<noteq> []" using assms by auto
  ultimately show ?thesis using assms
    by (simp add: Prepend_consume_def Prepend_init_def Prepend_first_buffers_def Let_def min_absorb2)
qed

theorem Prepend_consume_loses_position_witness:
  "\<exists>p1 p2. Prepend_consume sb_consume 2 (Prepend_init [[1, 2, 3, 4, 5, 6]] example_closed_buffer) = Some p1 \<and>
     Prepend_consume sb_consume 1 p1 = Some p2 \<and>
     Prepend_first_buffers p1 = Some [[3, 4, 5, 6]] \<and> Prepend_first_buffers p2 = Some [[2, 3, 4, 5, 6]] \<and>
     pp_first_bytes_remaining p2 = 3"
  using Prepend_consume_loses_position [of 2 1 "[1, 2, 3, 4, 5, 6]" sb_consume example_closed_buffer]
  by (simp add: numeral_eq_Suc)

end
