(* ===== verification/Pico_Chunked.thy ===== *)
theory Pico_Chunked
  imports Batt_Status
begin

section \<open>The decoder of the chunked transfer coding\<close>

text \<open>
  Models \<^verbatim>\<open>decode_chunked\<close> of \<^verbatim>\<open>src/src/batteries/pico_http/parser_impl.hpp\<close> with its decoder state
  (\<^verbatim>\<open>parser_decl.hpp\<close>). The pointer \<^verbatim>\<open>buf + src\<close> is the list \<open>rest\<close> of the bytes not yet read; an output
  buffer, which in the code points into the input, is the list of its bytes. A loop of the form "skip
  bytes until ..." is \<open>dropWhile\<close>, whose empty result is the exit at \<^verbatim>\<open>src == bufsz\<close>. Each fall through
  from one case of the switch to the next one sets the state to that case first, and is a recursive
  call. The specification is a machine that reads one byte at a time, \<open>decode_byte\<close>.
\<close>

definition kParseFailed :: int where
  "kParseFailed = - 1"

datatype chunked_state =
    CHUNKED_IN_CHUNK_SIZE
  | CHUNKED_IN_CHUNK_EXT
  | CHUNKED_IN_CHUNK_DATA
  | CHUNKED_IN_CHUNK_CRLF
  | CHUNKED_IN_TRAILERS_LINE_HEAD
  | CHUNKED_IN_TRAILERS_LINE_MIDDLE

record ChunkedDecoder =
  bytes_left_in_chunk :: u64
  consume_trailer :: bool
  hex_count :: nat
  cd_state :: chunked_state

record DecodeResult =
  dr_done :: bool
  dr_bytes_consumed :: nat

text \<open>The constructor of \<^verbatim>\<open>HttpChunkDecoder\<close> clears the decoder and sets the trailer flag.\<close>

definition ChunkedDecoder_init :: "bool \<Rightarrow> ChunkedDecoder" where
  "ChunkedDecoder_init consume_trailer_arg =
     \<lparr>bytes_left_in_chunk = 0, consume_trailer = consume_trailer_arg, hex_count = 0,
      cd_state = CHUNKED_IN_CHUNK_SIZE\<rparr>"

abbreviation CR :: u8 where "CR \<equiv> 13"
abbreviation LF :: u8 where "LF \<equiv> 10"

definition decode_hex :: "int \<Rightarrow> int" where
  "decode_hex ch =
     (if 48 \<le> ch \<and> ch \<le> 57 then ch - 48
      else if 65 \<le> ch \<and> ch \<le> 70 then ch - 65 + 10
      else if 97 \<le> ch \<and> ch \<le> 102 then ch - 97 + 10
      else kParseFailed)"

datatype size_exit = Size_end | Size_invalid | Size_break "u8 list"

fun chunk_size_loop :: "ChunkedDecoder \<Rightarrow> u8 list \<Rightarrow> ChunkedDecoder \<times> size_exit" where
  "chunk_size_loop d [] = (d, Size_end)"
| "chunk_size_loop d (b # bs) =
     (let v = decode_hex (sint b) in
      if v = kParseFailed then
        (if hex_count d = 0 then (d, Size_invalid) else (d, Size_break (b # bs)))
      else if hex_count d = 16 then (d, Size_invalid)
      else chunk_size_loop
        (d\<lparr>bytes_left_in_chunk := bytes_left_in_chunk d * 16 + word_of_int v, hex_count := hex_count d + 1\<rparr>) bs)"

lemma chunk_size_loop_break_length:
  "chunk_size_loop d bs = (d', Size_break rest) \<Longrightarrow> length rest \<le> length bs"
  by (induction d bs rule: chunk_size_loop.induct) (fastforce simp: Let_def split: if_splits)+

lemma dropWhile_Cons_length: "dropWhile P bs = b # rest \<Longrightarrow> length rest < length bs"
  by (metis Suc_le_lessD length_Cons length_dropWhile_le)

fun switch_rank :: "chunked_state \<Rightarrow> nat" where
  "switch_rank CHUNKED_IN_CHUNK_SIZE = 3"
| "switch_rank CHUNKED_IN_CHUNK_EXT = 2"
| "switch_rank CHUNKED_IN_CHUNK_DATA = 1"
| "switch_rank _ = 0"

function decode_loop ::
    "ChunkedDecoder \<Rightarrow> u8 list \<Rightarrow> u8 list list \<Rightarrow> ChunkedDecoder \<times> u8 list list \<times> (bool \<times> u8 list) StatusOr" where
  "decode_loop d rest out =
     (case cd_state d of
        CHUNKED_IN_CHUNK_SIZE \<Rightarrow>
          (case chunk_size_loop d rest of
             (d1, Size_end) \<Rightarrow> (d1, out, Inr (False, []))
           | (d1, Size_invalid) \<Rightarrow> (d1, out, Inl kInvalidArgument)
           | (d1, Size_break rest1) \<Rightarrow>
               decode_loop (d1\<lparr>hex_count := 0, cd_state := CHUNKED_IN_CHUNK_EXT\<rparr>) rest1 out)
      | CHUNKED_IN_CHUNK_EXT \<Rightarrow>
          (case dropWhile (\<lambda>b. b \<noteq> LF) rest of
             [] \<Rightarrow> (d, out, Inr (False, []))
           | _ # rest1 \<Rightarrow>
               if bytes_left_in_chunk d = 0 then
                 (if consume_trailer d
                  then decode_loop (d\<lparr>cd_state := CHUNKED_IN_TRAILERS_LINE_HEAD\<rparr>) rest1 out
                  else (d, out, Inr (True, rest1)))
               else decode_loop (d\<lparr>cd_state := CHUNKED_IN_CHUNK_DATA\<rparr>) rest1 out)
      | CHUNKED_IN_CHUNK_DATA \<Rightarrow>
          (let avail = length rest; left = unat (bytes_left_in_chunk d) in
           if avail < left then
             (d\<lparr>bytes_left_in_chunk := bytes_left_in_chunk d - of_nat avail\<rparr>,
              if avail > 0 then out @ [rest] else out, Inr (False, []))
           else decode_loop (d\<lparr>bytes_left_in_chunk := 0, cd_state := CHUNKED_IN_CHUNK_CRLF\<rparr>)
                  (drop left rest) (out @ [take left rest]))
      | CHUNKED_IN_CHUNK_CRLF \<Rightarrow>
          (case dropWhile (\<lambda>b. b = CR) rest of
             [] \<Rightarrow> (d, out, Inr (False, []))
           | b # rest1 \<Rightarrow>
               if b \<noteq> LF then (d, out, Inl kInvalidArgument)
               else decode_loop (d\<lparr>cd_state := CHUNKED_IN_CHUNK_SIZE\<rparr>) rest1 out)
      | CHUNKED_IN_TRAILERS_LINE_HEAD \<Rightarrow>
          (case dropWhile (\<lambda>b. b = CR) rest of
             [] \<Rightarrow> (d, out, Inr (False, []))
           | b # rest1 \<Rightarrow>
               if b = LF then (d, out, Inr (True, rest1))
               else decode_loop (d\<lparr>cd_state := CHUNKED_IN_TRAILERS_LINE_MIDDLE\<rparr>) rest1 out)
      | CHUNKED_IN_TRAILERS_LINE_MIDDLE \<Rightarrow>
          (case dropWhile (\<lambda>b. b \<noteq> LF) rest of
             [] \<Rightarrow> (d, out, Inr (False, []))
           | _ # rest1 \<Rightarrow> decode_loop (d\<lparr>cd_state := CHUNKED_IN_TRAILERS_LINE_HEAD\<rparr>) rest1 out))"
  by auto
termination
  by (relation "measures [\<lambda>(d, rest, _). length rest, \<lambda>(d, rest, _). switch_rank (cd_state d)]")
    (auto dest: chunk_size_loop_break_length [OF sym] dropWhile_Cons_length)

declare decode_loop.simps [simp del]

definition decode_chunked ::
    "ChunkedDecoder \<Rightarrow> u8 list \<Rightarrow> u8 list list \<Rightarrow> ChunkedDecoder \<times> u8 list list \<times> DecodeResult StatusOr" where
  "decode_chunked d input out =
     (case decode_loop d input out of
        (d', out', Inl st) \<Rightarrow> (d', out', Inl st)
      | (d', out', Inr (fin, rest)) \<Rightarrow>
          (d', out', Inr \<lparr>dr_done = fin, dr_bytes_consumed = length input - length rest\<rparr>))"

definition decode_chunked_is_in_data :: "ChunkedDecoder \<Rightarrow> bool" where
  "decode_chunked_is_in_data d \<longleftrightarrow> cd_state d = CHUNKED_IN_CHUNK_DATA"

text \<open>
  A caller that hands the decoder one buffer after the other, until the first error or the end of the
  body.
\<close>

fun decode_buffers ::
    "ChunkedDecoder \<Rightarrow> u8 list list \<Rightarrow> u8 list list \<Rightarrow> nat \<Rightarrow>
       ChunkedDecoder \<times> u8 list list \<times> DecodeResult StatusOr" where
  "decode_buffers d [] out n = (d, out, Inr \<lparr>dr_done = False, dr_bytes_consumed = n\<rparr>)"
| "decode_buffers d (src_buffer # bufs) out n =
     (case decode_chunked d src_buffer out of
        (d', out', Inl st) \<Rightarrow> (d', out', Inl st)
      | (d', out', Inr result) \<Rightarrow>
          (let n' = n + dr_bytes_consumed result in
           if dr_done result then (d', out', Inr \<lparr>dr_done = True, dr_bytes_consumed = n'\<rparr>)
           else decode_buffers d' bufs out' n'))"

subsection \<open>The byte machine\<close>

datatype byte_result =
    Next ChunkedDecoder "u8 list"
  | Finished ChunkedDecoder
  | Rejected ChunkedDecoder

definition ext_byte :: "ChunkedDecoder \<Rightarrow> u8 \<Rightarrow> byte_result" where
  "ext_byte d b =
     (if b \<noteq> LF then Next d []
      else if bytes_left_in_chunk d \<noteq> 0 then Next (d\<lparr>cd_state := CHUNKED_IN_CHUNK_DATA\<rparr>) []
      else if consume_trailer d then Next (d\<lparr>cd_state := CHUNKED_IN_TRAILERS_LINE_HEAD\<rparr>) []
      else Finished d)"

definition decode_byte :: "ChunkedDecoder \<Rightarrow> u8 \<Rightarrow> byte_result" where
  "decode_byte d b =
     (case cd_state d of
        CHUNKED_IN_CHUNK_SIZE \<Rightarrow>
          (let v = decode_hex (sint b) in
           if v = kParseFailed then
             (if hex_count d = 0 then Rejected d
              else ext_byte (d\<lparr>hex_count := 0, cd_state := CHUNKED_IN_CHUNK_EXT\<rparr>) b)
           else if hex_count d = 16 then Rejected d
           else Next (d\<lparr>bytes_left_in_chunk := bytes_left_in_chunk d * 16 + word_of_int v,
                        hex_count := hex_count d + 1\<rparr>) [])
      | CHUNKED_IN_CHUNK_EXT \<Rightarrow> ext_byte d b
      | CHUNKED_IN_CHUNK_DATA \<Rightarrow>
          Next (d\<lparr>bytes_left_in_chunk := bytes_left_in_chunk d - 1,
                  cd_state := (if bytes_left_in_chunk d = 1 then CHUNKED_IN_CHUNK_CRLF
                               else CHUNKED_IN_CHUNK_DATA)\<rparr>) [b]
      | CHUNKED_IN_CHUNK_CRLF \<Rightarrow>
          (if b = CR then Next d []
           else if b = LF then Next (d\<lparr>cd_state := CHUNKED_IN_CHUNK_SIZE\<rparr>) [] else Rejected d)
      | CHUNKED_IN_TRAILERS_LINE_HEAD \<Rightarrow>
          (if b = CR then Next d []
           else if b = LF then Finished d
           else Next (d\<lparr>cd_state := CHUNKED_IN_TRAILERS_LINE_MIDDLE\<rparr>) [])
      | CHUNKED_IN_TRAILERS_LINE_MIDDLE \<Rightarrow>
          (if b = LF then Next (d\<lparr>cd_state := CHUNKED_IN_TRAILERS_LINE_HEAD\<rparr>) [] else Next d []))"

fun decode_bytes ::
    "ChunkedDecoder \<Rightarrow> u8 list \<Rightarrow> ChunkedDecoder \<times> u8 list \<times> (bool \<times> u8 list) StatusOr" where
  "decode_bytes d [] = (d, [], Inr (False, []))"
| "decode_bytes d (b # bs) =
     (case decode_byte d b of
        Next d1 data \<Rightarrow> (case decode_bytes d1 bs of (d2, data', r) \<Rightarrow> (d2, data @ data', r))
      | Finished d1 \<Rightarrow> (d1, [], Inr (True, bs))
      | Rejected d1 \<Rightarrow> (d1, [], Inl kInvalidArgument))"

text \<open>The invariant of the decoder between two calls.\<close>

definition decoder_ok :: "ChunkedDecoder \<Rightarrow> bool" where
  "decoder_ok d \<longleftrightarrow>
     (case cd_state d of
        CHUNKED_IN_CHUNK_SIZE \<Rightarrow> hex_count d \<le> 16 \<and> unat (bytes_left_in_chunk d) < 16 ^ hex_count d
      | CHUNKED_IN_CHUNK_EXT \<Rightarrow> hex_count d = 0
      | CHUNKED_IN_CHUNK_DATA \<Rightarrow> hex_count d = 0 \<and> bytes_left_in_chunk d \<noteq> 0
      | _ \<Rightarrow> hex_count d = 0 \<and> bytes_left_in_chunk d = 0)"


subsection \<open>The decoder refines the byte machine\<close>

lemma decode_bytes_size:
  assumes "cd_state d = CHUNKED_IN_CHUNK_SIZE"
  shows "decode_bytes d rest =
    (case chunk_size_loop d rest of
       (d1, Size_end) \<Rightarrow> (d1, [], Inr (False, []))
     | (d1, Size_invalid) \<Rightarrow> (d1, [], Inl kInvalidArgument)
     | (d1, Size_break rest1) \<Rightarrow>
         decode_bytes (d1\<lparr>hex_count := 0, cd_state := CHUNKED_IN_CHUNK_EXT\<rparr>) rest1)"
  using assms
  by (induction d rest rule: chunk_size_loop.induct)
    (auto simp: decode_byte_def Let_def split: prod.splits size_exit.splits)

lemma decode_bytes_ext:
  assumes "cd_state d = CHUNKED_IN_CHUNK_EXT"
  shows "decode_bytes d rest =
    (case dropWhile (\<lambda>b. b \<noteq> LF) rest of
       [] \<Rightarrow> (d, [], Inr (False, []))
     | _ # rest1 \<Rightarrow>
         if bytes_left_in_chunk d = 0 then
           (if consume_trailer d
            then decode_bytes (d\<lparr>cd_state := CHUNKED_IN_TRAILERS_LINE_HEAD\<rparr>) rest1
            else (d, [], Inr (True, rest1)))
         else decode_bytes (d\<lparr>cd_state := CHUNKED_IN_CHUNK_DATA\<rparr>) rest1)"
  using assms
  by (induction rest) (auto simp: decode_byte_def ext_byte_def split: prod.splits list.splits)

lemma unat_minus_one_nonzero: "w \<noteq> 0 \<Longrightarrow> unat (w - 1 :: 'a::len word) = unat w - 1"
  by (metis diff_less_mono2 nat_neq_iff unat_minus_one)

lemma decode_bytes_data:
  assumes "cd_state d = CHUNKED_IN_CHUNK_DATA" and "bytes_left_in_chunk d \<noteq> 0"
  shows "decode_bytes d rest =
    (let avail = length rest; left = unat (bytes_left_in_chunk d) in
     if avail < left then
       (d\<lparr>bytes_left_in_chunk := bytes_left_in_chunk d - of_nat avail\<rparr>, rest, Inr (False, []))
     else case decode_bytes (d\<lparr>bytes_left_in_chunk := 0, cd_state := CHUNKED_IN_CHUNK_CRLF\<rparr>) (drop left rest) of
       (d2, data, r) \<Rightarrow> (d2, take left rest @ data, r))"
  using assms
proof (induction rest arbitrary: d)
  case Nil
  then show ?case by (simp add: unat_gt_0)
next
  case (Cons b bs)
  show ?case
  proof (cases "bytes_left_in_chunk d = 1")
    case True
    with Cons.prems show ?thesis by (simp add: decode_byte_def)
  next
    case False
    let ?d = "d\<lparr>bytes_left_in_chunk := bytes_left_in_chunk d - 1, cd_state := CHUNKED_IN_CHUNK_DATA\<rparr>"
    obtain k where k: "unat (bytes_left_in_chunk d) = Suc k"
      using Cons.prems(2) by (metis not0_implies_Suc unat_eq_zero)
    with Cons.prems have "unat (bytes_left_in_chunk d - 1) = k"
      by (simp add: unat_minus_one_nonzero)
    with False Cons.IH [of ?d] Cons.prems k show ?thesis
      by (auto simp: decode_byte_def Let_def diff_diff_eq split: prod.splits)
  qed
qed

lemma decode_bytes_crlf:
  assumes "cd_state d = CHUNKED_IN_CHUNK_CRLF"
  shows "decode_bytes d rest =
    (case dropWhile (\<lambda>b. b = CR) rest of
       [] \<Rightarrow> (d, [], Inr (False, []))
     | b # rest1 \<Rightarrow>
         if b \<noteq> LF then (d, [], Inl kInvalidArgument)
         else decode_bytes (d\<lparr>cd_state := CHUNKED_IN_CHUNK_SIZE\<rparr>) rest1)"
  using assms by (induction rest) (auto simp: decode_byte_def split: prod.splits list.splits)

lemma decode_bytes_head:
  assumes "cd_state d = CHUNKED_IN_TRAILERS_LINE_HEAD"
  shows "decode_bytes d rest =
    (case dropWhile (\<lambda>b. b = CR) rest of
       [] \<Rightarrow> (d, [], Inr (False, []))
     | b # rest1 \<Rightarrow>
         if b = LF then (d, [], Inr (True, rest1))
         else decode_bytes (d\<lparr>cd_state := CHUNKED_IN_TRAILERS_LINE_MIDDLE\<rparr>) rest1)"
  using assms by (induction rest) (auto simp: decode_byte_def split: prod.splits list.splits)

lemma decode_bytes_middle:
  assumes "cd_state d = CHUNKED_IN_TRAILERS_LINE_MIDDLE"
  shows "decode_bytes d rest =
    (case dropWhile (\<lambda>b. b \<noteq> LF) rest of
       [] \<Rightarrow> (d, [], Inr (False, []))
     | _ # rest1 \<Rightarrow> decode_bytes (d\<lparr>cd_state := CHUNKED_IN_TRAILERS_LINE_HEAD\<rparr>) rest1)"
  using assms by (induction rest) (auto simp: decode_byte_def split: prod.splits list.splits)

lemmas decode_bytes_phase =
  decode_bytes_size decode_bytes_ext decode_bytes_data decode_bytes_crlf decode_bytes_head decode_bytes_middle

text \<open>What a caller sees of the output: the bytes, not their division into buffers.\<close>

definition flat_output :: "'d \<times> u8 list list \<times> 'r \<Rightarrow> 'd \<times> u8 list \<times> 'r" where
  "flat_output x = (case x of (d, out, r) \<Rightarrow> (d, concat out, r))"

definition prefix_output :: "u8 list \<Rightarrow> 'd \<times> u8 list \<times> 'r \<Rightarrow> 'd \<times> u8 list \<times> 'r" where
  "prefix_output data x = (case x of (d, data', r) \<Rightarrow> (d, data @ data', r))"

lemma decode_loop_refines:
  assumes "cd_state d = CHUNKED_IN_CHUNK_DATA \<longrightarrow> bytes_left_in_chunk d \<noteq> 0"
  shows "flat_output (decode_loop d rest out) = prefix_output (concat out) (decode_bytes d rest)"
  using assms
proof (induction d rest out rule: decode_loop.induct)
  case (1 d rest out)
  show ?case
  proof (cases "cd_state d")
    case CHUNKED_IN_CHUNK_SIZE
    with 1 show ?thesis
      by (subst decode_loop.simps)
        (auto simp: decode_bytes_size flat_output_def prefix_output_def split: size_exit.splits prod.splits)
  next
    case CHUNKED_IN_CHUNK_EXT
    with 1 show ?thesis
      by (subst decode_loop.simps)
        (auto simp: decode_bytes_ext flat_output_def prefix_output_def
          simp del: dropWhile_eq_Nil_conv split: list.splits prod.splits)
  next
    case CHUNKED_IN_CHUNK_DATA
    with 1 show ?thesis
      by (subst decode_loop.simps)
        (auto simp: decode_bytes_data Let_def flat_output_def prefix_output_def split: prod.splits)
  next
    case CHUNKED_IN_CHUNK_CRLF
    with 1 show ?thesis
      by (subst decode_loop.simps)
        (auto simp: decode_bytes_crlf flat_output_def prefix_output_def
          simp del: dropWhile_eq_Nil_conv split: list.splits prod.splits)
  next
    case CHUNKED_IN_TRAILERS_LINE_HEAD
    with 1 show ?thesis
      by (subst decode_loop.simps)
        (auto simp: decode_bytes_head flat_output_def prefix_output_def
          simp del: dropWhile_eq_Nil_conv split: list.splits prod.splits)
  next
    case CHUNKED_IN_TRAILERS_LINE_MIDDLE
    with 1 show ?thesis
      by (subst decode_loop.simps)
        (auto simp: decode_bytes_middle flat_output_def prefix_output_def
          simp del: dropWhile_eq_Nil_conv split: list.splits prod.splits)
  qed
qed

subsection \<open>The invariant\<close>

lemma decode_hex_range: "decode_hex c = kParseFailed \<or> 0 \<le> decode_hex c \<and> decode_hex c < 16"
  by (auto simp: decode_hex_def kParseFailed_def)

lemma unat_hex_step:
  assumes "unat w < 16 ^ k" and "k < 16" and "0 \<le> v" and "v < 16"
  shows "unat (w * 16 + word_of_int v :: u64) = unat w * 16 + nat v"
    and "unat w * 16 + nat v < 16 ^ Suc k"
proof -
  show bound: "unat w * 16 + nat v < 16 ^ Suc k" using assms by (simp add: nat_less_iff)
  have "(16::nat) ^ Suc k \<le> 16 ^ 16" using assms(2) by (intro power_increasing) auto
  with bound have "unat w * 16 + nat v < 2 ^ 64" by simp
  moreover have "w * 16 + word_of_int v = (of_nat (unat w * 16 + nat v) :: u64)" using assms(3) by simp
  ultimately show "unat (w * 16 + word_of_int v :: u64) = unat w * 16 + nat v"
    by (simp only: unat_of_nat_u64)
qed

lemma ext_byte_ok:
  assumes "cd_state d = CHUNKED_IN_CHUNK_EXT" and "hex_count d = 0"
  shows "case ext_byte d b of Next d' data \<Rightarrow> decoder_ok d' | Finished d' \<Rightarrow> decoder_ok d' | Rejected d' \<Rightarrow> decoder_ok d'"
  using assms by (auto simp: ext_byte_def decoder_ok_def)

lemma decode_byte_ok:
  assumes "decoder_ok d"
  shows "case decode_byte d b of Next d' data \<Rightarrow> decoder_ok d' | Finished d' \<Rightarrow> decoder_ok d' | Rejected d' \<Rightarrow> decoder_ok d'"
proof (cases "cd_state d")
  case CHUNKED_IN_CHUNK_SIZE
  with assms have ok: "hex_count d \<le> 16" "unat (bytes_left_in_chunk d) < 16 ^ hex_count d"
    by (auto simp: decoder_ok_def)
  show ?thesis
  proof (cases "decode_hex (sint b) = kParseFailed \<or> hex_count d = 16")
    case True
    with CHUNKED_IN_CHUNK_SIZE assms ext_byte_ok [of "d\<lparr>hex_count := 0, cd_state := CHUNKED_IN_CHUNK_EXT\<rparr>" b]
    show ?thesis by (auto simp: decode_byte_def Let_def)
  next
    case False
    then have "hex_count d < 16" "0 \<le> decode_hex (sint b)" "decode_hex (sint b) < 16"
      using ok decode_hex_range [of "sint b"] by auto
    with unat_hex_step [OF ok(2) this] CHUNKED_IN_CHUNK_SIZE False show ?thesis
      by (auto simp: decode_byte_def Let_def decoder_ok_def)
  qed
next
  case CHUNKED_IN_CHUNK_EXT
  with assms ext_byte_ok [of d b] show ?thesis by (auto simp: decode_byte_def decoder_ok_def)
qed (use assms in \<open>auto simp: decode_byte_def decoder_ok_def\<close>)

lemma decode_bytes_ok:
  "decoder_ok d \<Longrightarrow> decode_bytes d bs = (d', data, r) \<Longrightarrow> decoder_ok d'"
proof (induction bs arbitrary: d d' data)
  case (Cons b bs)
  with decode_byte_ok [OF Cons.prems(1), of b] show ?case
    by (fastforce split: byte_result.splits prod.splits)
qed simp

lemma decoder_ok_data: "decoder_ok d \<Longrightarrow> cd_state d = CHUNKED_IN_CHUNK_DATA \<longrightarrow> bytes_left_in_chunk d \<noteq> 0"
  by (auto simp: decoder_ok_def)

subsection \<open>Input in pieces\<close>

lemma decode_bytes_append:
  "decode_bytes d (xs @ ys) =
     (case decode_bytes d xs of
        (d1, data1, Inl st) \<Rightarrow> (d1, data1, Inl st)
      | (d1, data1, Inr (fin, rest)) \<Rightarrow>
          if fin then (d1, data1, Inr (True, rest @ ys)) else prefix_output data1 (decode_bytes d1 ys))"
  by (induction xs arbitrary: d)
    (auto simp: prefix_output_def split: byte_result.splits prod.splits sum.splits if_splits)

lemma decode_bytes_rest:
  "decode_bytes d bs = (d', data, Inr (fin, rest)) \<Longrightarrow> length rest \<le> length bs \<and> (\<not> fin \<longrightarrow> rest = [])"
  by (induction bs arbitrary: d data) (fastforce split: byte_result.splits prod.splits)+

text \<open>The result of a call as a function of the byte machine.\<close>

definition consumed_result :: "nat \<Rightarrow> (bool \<times> u8 list) StatusOr \<Rightarrow> DecodeResult StatusOr" where
  "consumed_result n r =
     (case r of Inl st \<Rightarrow> Inl st
      | Inr (fin, rest) \<Rightarrow> Inr \<lparr>dr_done = fin, dr_bytes_consumed = n - length rest\<rparr>)"

lemma decode_chunked_refines:
  assumes "decoder_ok d" and "decode_bytes d input = (d', data, r)"
  shows "\<exists>out'. decode_chunked d input out = (d', out', consumed_result (length input) r) \<and>
     concat out' = concat out @ data"
  using decode_loop_refines [OF decoder_ok_data [OF assms(1)], of input out] assms(2)
  by (auto simp: flat_output_def prefix_output_def decode_chunked_def consumed_result_def
      split: prod.splits sum.splits)

lemma decode_buffers_refines:
  assumes "decoder_ok d" and "decode_bytes d (concat bufs) = (d', data, r)"
  shows "\<exists>out'. decode_buffers d bufs out n = (d', out', consumed_result (n + length (concat bufs)) r) \<and>
     concat out' = concat out @ data"
  using assms
proof (induction bufs arbitrary: d data out n)
  case Nil
  then show ?case by (auto simp: consumed_result_def)
next
  case (Cons buf bufs)
  obtain d1 data1 r1 where 1: "decode_bytes d buf = (d1, data1, r1)" by (metis prod_cases3)
  from decode_chunked_refines [OF Cons.prems(1) 1] obtain out1 where
    out1: "decode_chunked d buf out = (d1, out1, consumed_result (length buf) r1)"
      "concat out1 = concat out @ data1" by blast
  have ok1: "decoder_ok d1" using decode_bytes_ok [OF Cons.prems(1) 1] .
  consider st where "r1 = Inl st" | rest where "r1 = Inr (True, rest)" | rest where "r1 = Inr (False, rest)"
    by (metis (full_types) old.sum.exhaust surj_pair)
  then show ?case
  proof cases
    case 3
    with 1 decode_bytes_rest have "rest = []" by blast
    moreover obtain data2 where "decode_bytes d1 (concat bufs) = (d', data2, r)" "data = data1 @ data2"
      using Cons.prems(2) 1 3 by (auto simp: decode_bytes_append prefix_output_def split: prod.splits)
    moreover from Cons.IH [OF ok1 this(1), of out1 "n + length buf"] obtain out2 where
      "decode_buffers d1 bufs out1 (n + length buf) =
         (d', out2, consumed_result (n + length buf + length (concat bufs)) r)"
      "concat out2 = concat out1 @ data2" by blast
    ultimately show ?thesis using out1 3
      by (intro exI [of _ out2]) (simp add: consumed_result_def add.assoc)
  next
    case 2
    with 1 decode_bytes_rest have "length rest \<le> length buf" by blast
    with 2 out1 Cons.prems(2) 1 show ?thesis
      by (auto simp: decode_bytes_append consumed_result_def)
  qed (use out1 Cons.prems(2) 1 in \<open>auto simp: decode_bytes_append consumed_result_def\<close>)
qed

subsection \<open>Properties\<close>

text \<open>
  How the network divides the body into buffers does not matter: decoding the
  buffers one after the other gives the same decoder state, the same data, the same number of consumed
  bytes and the same outcome (more input needed, end of the body, or invalid input) as decoding them
  joined together in one call.
\<close>

theorem decode_buffers_equals_joined:
  assumes "decoder_ok d"
  shows "flat_output (decode_buffers d bufs out 0) = flat_output (decode_chunked d (concat bufs) out)"
proof -
  obtain d' data r where "decode_bytes d (concat bufs) = (d', data, r)" by (metis prod_cases3)
  from decode_buffers_refines [OF assms this, of out 0] decode_chunked_refines [OF assms this, of out]
  show ?thesis by (auto simp: flat_output_def)
qed

theorem decode_buffers_equals_joined_witness:
  "let d = ChunkedDecoder_init False; bufs = [[51, 13], [10, 97, 98], [99, 13, 10, 48, 10, 7]] in
   decoder_ok d \<and> flat_output (decode_buffers d bufs [] 0) = flat_output (decode_chunked d (concat bufs) []) \<and>
   snd (flat_output (decode_buffers d bufs [] 0)) =
     ([97, 98, 99], Inr \<lparr>dr_done = True, dr_bytes_consumed = 10\<rparr>)"
proof -
  have "decoder_ok (ChunkedDecoder_init False)" by code_simp
  moreover have "snd (flat_output (decode_buffers (ChunkedDecoder_init False)
      [[51, 13], [10, 97, 98], [99, 13, 10, 48, 10, 7]] [] 0)) =
     ([97, 98, 99], Inr \<lparr>dr_done = True, dr_bytes_consumed = 10\<rparr>)" by code_simp
  ultimately show ?thesis 
    unfolding Let_def by (intro conjI decode_buffers_equals_joined)
qed

text \<open>
  Every call keeps the invariant of the decoder (in particular the chunk size read so
  far is below \<open>16 ^ hex_count\<close> with at most 16 digits, so that the 64-bit accumulation never wraps),
  consumes the whole input unless the body ends or is invalid, and never reports more bytes than it was
  given; a digit after the sixteenth one is refused.
\<close>

theorem decode_chunked_invariant:
  assumes "decoder_ok d" and "decode_chunked d input out = (d', out', r)"
  shows "decoder_ok d' \<and>
     (case r of Inl st \<Rightarrow> st = kInvalidArgument
      | Inr res \<Rightarrow> dr_bytes_consumed res \<le> length input \<and>
          (dr_done res \<or> dr_bytes_consumed res = length input)) \<and>
     (cd_state d = CHUNKED_IN_CHUNK_SIZE \<and> hex_count d = 16 \<and> input \<noteq> [] \<and>
        decode_hex (sint (hd input)) \<noteq> kParseFailed \<longrightarrow> r = Inl kInvalidArgument)"
proof -
  obtain d1 data r1 where 1: "decode_bytes d input = (d1, data, r1)" by (metis prod_cases3)
  with decode_chunked_refines [OF assms(1) 1, of out] assms(2)
  have eq: "d' = d1" "r = consumed_result (length input) r1" by auto
  have "decoder_ok d'" using decode_bytes_ok [OF assms(1) 1] eq by simp
  moreover have "\<And>st. r1 = Inl st \<Longrightarrow> st = kInvalidArgument"
    using 1 by (induction input arbitrary: d data) (fastforce split: byte_result.splits prod.splits)+
  moreover have "r1 = Inl kInvalidArgument" if "cd_state d = CHUNKED_IN_CHUNK_SIZE" "hex_count d = 16"
    "input \<noteq> []" "decode_hex (sint (hd input)) \<noteq> kParseFailed"
    using that 1 by (cases input) (auto simp: decode_byte_def Let_def)
  ultimately show ?thesis using eq decode_bytes_rest [of d input d1 data] 1
    by (auto simp: consumed_result_def split: sum.splits)
qed

theorem decode_chunked_invariant_witness:
  "let x = decode_chunked (ChunkedDecoder_init True) [102, 70, 59, 10, 1, 2] [] in
   decoder_ok (fst x) \<and> bytes_left_in_chunk (fst x) = 253"
proof -
  let ?x = "decode_chunked (ChunkedDecoder_init True) [102, 70, 59, 10, 1, 2] []"
  have "decoder_ok (ChunkedDecoder_init True)" "bytes_left_in_chunk (fst ?x) = 253" by code_simp+
  with decode_chunked_invariant [of "ChunkedDecoder_init True" "[102, 70, 59, 10, 1, 2]" "[]"
      "fst ?x" "fst (snd ?x)" "snd (snd ?x)"]
  show ?thesis by (simp add: Let_def)
qed

end
