(* ===== verification/Http_Chunk.thy ===== *)
theory Http_Chunk
  imports Buffer_Source Pico_Chunked
begin

section \<open>The encoder of the chunked transfer coding and the round trip\<close>

text \<open>
  Models \<^verbatim>\<open>http_encode_chunked\<close> of \<^verbatim>\<open>src/src/batteries/http/http_chunk_encoder.hpp\<close>: a body is fetched from
  a source and each buffer of it is written as one chunk. The destination is code outside the library;
  \<open>wr\<close> stands for \<^verbatim>\<open>Task::await_write\<close> on it, which writes all the data or fails.
\<close>

unbundle bit_operations_syntax

definition hex_digits :: "u8 list" where
  "hex_digits = [48, 49, 50, 51, 52, 53, 54, 55, 56, 57, 65, 66, 67, 68, 69, 70]"

definition last_chunk :: "bool \<Rightarrow> u8 list" where
  "last_chunk include_trailer =
     (if include_trailer then [CR, LF, 48, CR, LF, CR, LF] else [CR, LF, 48, CR, LF])"

text \<open>
  The first loop of \<^verbatim>\<open>encode_hex\<close> looks for the highest non-zero hexadecimal digit of a number that is
  not 0, the second one writes the digits from there; \<^verbatim>\<open>bit_offset\<close> is \<open>4 * k\<close>.
\<close>

fun find_bit_offset :: "u64 \<Rightarrow> nat \<Rightarrow> nat" where
  "find_bit_offset n 0 = 0"
| "find_bit_offset n (Suc k) =
     (if n AND push_bit (4 * Suc k) 15 = 0 then find_bit_offset n k else Suc k)"

fun write_digits :: "u64 \<Rightarrow> nat \<Rightarrow> u8 list" where
  "write_digits n 0 = [hex_digits ! unat (n AND 15)]"
| "write_digits n (Suc k) = hex_digits ! unat (drop_bit (4 * Suc k) n AND 15) # write_digits n k"

definition encode_hex :: "u64 \<Rightarrow> u8 list" where
  "encode_hex n = (if n = 0 then [48] else write_digits n (find_bit_offset n 15))"

definition chunk_header :: "bool \<Rightarrow> u8 list \<Rightarrow> u8 list" where
  "chunk_header first_chunk chunk =
     (if first_chunk then [] else [CR, LF]) @ encode_hex (of_nat (length chunk)) @ [CR, LF]"

text \<open>The loop over the fetched buffers: \<open>None\<close> is the failed check of an empty chunk.\<close>

fun encode_chunks ::
    "('d \<Rightarrow> u8 list \<Rightarrow> 'd \<times> nat StatusOr) \<Rightarrow> u8 list list \<Rightarrow> bool \<Rightarrow> nat \<Rightarrow> 'd \<Rightarrow>
       ('d \<times> bool \<times> nat \<times> unit StatusOr) option" where
  "encode_chunks wr [] first_chunk n_consumed dst = Some (dst, first_chunk, n_consumed, Inr ())"
| "encode_chunks wr (chunk # chunks) first_chunk n_consumed dst =
     (case wr dst (chunk_header first_chunk chunk @ chunk) of
        (dst1, Inl st) \<Rightarrow> Some (dst1, False, n_consumed, Inl st)
      | (dst1, Inr _) \<Rightarrow>
          if length chunk > 0 then encode_chunks wr chunks False (n_consumed + length chunk) dst1 else None)"

partial_function (option) http_encode_chunked ::
    "(i64 \<Rightarrow> 's \<Rightarrow> 's \<times> fetched) \<Rightarrow> (i64 \<Rightarrow> 's \<Rightarrow> 's option) \<Rightarrow> ('d \<Rightarrow> u8 list \<Rightarrow> 'd \<times> nat StatusOr) \<Rightarrow>
       bool \<Rightarrow> 's \<Rightarrow> 'd \<Rightarrow> bool \<Rightarrow> ('s \<times> 'd \<times> unit awaited) option" where
  "http_encode_chunked src_fetch src_consume wr include_trailer s dst first_chunk =
     (case src_fetch 1 s of
        (s1, None) \<Rightarrow> None
      | (s1, Some Blocked) \<Rightarrow> Some (s1, dst, Blocked)
      | (s1, Some (Ready (Inl st))) \<Rightarrow>
          if st = kEndOfStream then
            (case wr dst (last_chunk include_trailer) of
               (dst1, Inl st1) \<Rightarrow> Some (s1, dst1, Ready (Inl st1))
             | (dst1, Inr _) \<Rightarrow> Some (s1, dst1, Ready (Inr ())))
          else Some (s1, dst, Ready (Inl st))
      | (s1, Some (Ready (Inr fetched_chunks))) \<Rightarrow>
          Option.bind (encode_chunks wr fetched_chunks first_chunk 0 dst) (\<lambda>(dst1, first1, n_consumed, r).
            Option.bind (src_consume (int n_consumed) s1) (\<lambda>s2.
              case r of
                Inl st \<Rightarrow> Some (s2, dst1, Ready (Inl st))
              | Inr _ \<Rightarrow> http_encode_chunked src_fetch src_consume wr include_trailer s2 dst1 first1)))"

subsection \<open>The bytes of an encoded body\<close>

fun encoded :: "bool \<Rightarrow> bool \<Rightarrow> u8 list list \<Rightarrow> u8 list" where
  "encoded include_trailer first_chunk [] = last_chunk include_trailer"
| "encoded include_trailer first_chunk (c # cs) =
     chunk_header first_chunk c @ c @ encoded include_trailer False cs"

fun frames :: "bool \<Rightarrow> u8 list list \<Rightarrow> u8 list" where
  "frames first_chunk [] = []"
| "frames first_chunk (c # cs) = chunk_header first_chunk c @ c @ frames False cs"

lemma encoded_append:
  "encoded tr first (xs @ ys) = frames first xs @ encoded tr (first \<and> xs = []) ys"
  by (induction xs arbitrary: first) auto

lemma encode_chunks_all:
  assumes wr: "\<And>dst data. \<exists>dst'. wr dst data = (dst', Inr (length data)) \<and> sent dst' = sent dst @ data"
    and "[] \<notin> set cs"
  shows "\<exists>dst'. encode_chunks wr cs first n dst = Some (dst', first \<and> cs = [], n + length (concat cs), Inr ()) \<and>
     sent dst' = sent dst @ frames first cs"
  using assms(2)
proof (induction cs arbitrary: first n dst)
  case (Cons c cs)
  from wr [of dst "chunk_header first c @ c"] obtain dst1 where
    w: "wr dst (chunk_header first c @ c) = (dst1, Inr (length (chunk_header first c @ c)))"
      "sent dst1 = sent dst @ chunk_header first c @ c" by blast
  from Cons.IH [of False "n + length c" dst1] Cons.prems obtain dst2 where
    "encode_chunks wr cs False (n + length c) dst1 = Some (dst2, False, n + length c + length (concat cs), Inr ())"
    "sent dst2 = sent dst1 @ frames False cs" by auto
  with w Cons.prems show ?case by (auto simp: add.assoc)
qed simp

context finite_source
begin

lemma http_encode_chunked_sends:
  assumes "src_ok s"
    and wr: "\<And>dst data. \<exists>dst'. wr dst data = (dst', Inr (length data)) \<and> sent dst' = sent dst @ data"
  shows "\<exists>s' dst' cs. http_encode_chunked src_fetch src_consume wr tr s dst first = Some (s', dst', Ready (Inr ())) \<and>
     concat cs = remaining s \<and> [] \<notin> set cs \<and> sent dst' = sent dst @ encoded tr first cs"
  using assms(1)
proof (induction "length (remaining s)" arbitrary: s dst first rule: less_induct)
  case less
  show ?case
  proof (cases "remaining s = []")
    case True
    with fetch_eos [OF less.prems this] wr [of dst "last_chunk tr"] show ?thesis
      by (subst http_encode_chunked.simps) (auto intro!: exI [of _ "[]"])
  next
    case False
    from fetch_one [OF less.prems False] obtain s1 bs rest where
      1: "src_fetch 1 s = (s1, Some (Ready (Inr bs)))" "remaining s = concat bs @ rest" "concat bs \<noteq> []"
      by metis
    have ne: "[] \<notin> set bs" using fetch_nonempty [OF less.prems 1(1)] .
    have bs: "bs \<noteq> []" using 1(3) by auto
    from encode_chunks_all [where sent = sent, OF wr ne, of first 0 dst] bs obtain dst1 where
      e: "encode_chunks wr bs first 0 dst = Some (dst1, False, length (concat bs), Inr ())"
        "sent dst1 = sent dst @ frames first bs" by auto
    from consume_one [OF less.prems 1(1) order_refl] obtain s2 where
      2: "src_consume (int (length (concat bs))) s1 = Some s2" "src_ok s2"
        "remaining s2 = drop (length (concat bs)) (remaining s)" by blast
    have r2: "remaining s2 = rest" using 2(3) 1(2) by simp
    moreover have "length rest < length (remaining s)" using 1(2,3) by simp
    ultimately obtain s' dst' cs where
      "http_encode_chunked src_fetch src_consume wr tr s2 dst1 False = Some (s', dst', Ready (Inr ()))"
      "concat cs = rest" "[] \<notin> set cs" "sent dst' = sent dst1 @ encoded tr False cs"
      using less.hyps [OF _ 2(2), of dst1 False] by auto
    with 1 2(1) e ne bs show ?thesis
      by (subst http_encode_chunked.simps)
        (auto simp: encoded_append simp del: length_concat intro!: exI [of _ "bs @ cs"])
  qed
qed

end

subsection \<open>The decoder reads what the encoder wrote\<close>

text \<open>The number that a sequence of hexadecimal digits adds to an accumulator.\<close>

definition hex_fold :: "u64 \<Rightarrow> u8 list \<Rightarrow> u64" where
  "hex_fold w ds = foldl (\<lambda>w b. w * 16 + word_of_int (decode_hex (sint b))) w ds"

lemma decode_hex_digits_all: "list_all (\<lambda>i. decode_hex (sint (hex_digits ! i)) = int i) [0..<16]"
  by code_simp

lemma decode_hex_digit: "i < 16 \<Longrightarrow> decode_hex (sint (hex_digits ! i)) = int i"
  using decode_hex_digits_all by (simp add: list_all_iff)

lemma decode_bytes_hex_digits:
  assumes "cd_state d = CHUNKED_IN_CHUNK_SIZE" and "\<forall>b \<in> set ds. decode_hex (sint b) \<noteq> kParseFailed"
    and "hex_count d + length ds \<le> 16"
  shows "decode_bytes d (ds @ rest) =
    decode_bytes (d\<lparr>bytes_left_in_chunk := hex_fold (bytes_left_in_chunk d) ds,
       hex_count := hex_count d + length ds\<rparr>) rest"
  using assms
  by (induction ds arbitrary: d) (auto simp: decode_byte_def hex_fold_def Let_def split: prod.splits)

lemma and_15_take_bit: "(n AND 15 :: u64) = take_bit 4 n"
  by (simp add: take_bit_eq_mask mask_eq_exp_minus_1)

lemma unat_nibble: "unat (drop_bit m n AND 15 :: u64) = unat n div 2 ^ m mod 16"
proof -
  have "unat (drop_bit m n AND 15 :: u64) = take_bit 4 (unat (drop_bit m n))"
    by (simp only: and_15_take_bit unsigned_take_bit_eq)
  also have "unat (drop_bit m n) = unat n div 2 ^ m"
    by (subst unat_drop_bit_eq) (rule drop_bit_eq_div)
  finally show ?thesis by (simp add: take_bit_eq_mod)
qed

lemma nibble_zero:
  assumes "(n AND push_bit m 15 :: u64) = 0" and "m \<le> 60"
  shows "drop_bit m n AND 15 = 0"
proof (rule bit_eqI)
  fix i
  have "\<not> bit (n AND push_bit m 15) (m + i)" using assms(1) by simp
  moreover have "bit (15 :: u64) i \<longleftrightarrow> i < 4"
    using bit_mask_iff [of 4 i, where ?'a = u64] by (auto simp: mask_eq_exp_minus_1)
  ultimately show "bit (drop_bit m n AND 15) i = bit (0 :: u64) i"
    using assms(2) by (auto simp: bit_simps)
qed

lemma power_16: "(2 :: nat) ^ (4 * k) = 16 ^ k"
  by (simp add: power_mult)

lemma digit_step:
  "hex_digits ! unat (drop_bit (4 * k) n AND 15 :: u64) = hex_digits ! (unat n div 16 ^ k mod 16)"
  by (simp only: unat_nibble power_16)

lemma write_digits_nat:
  "write_digits n k = map (\<lambda>j. hex_digits ! (unat n div 16 ^ j mod 16)) (rev [0..<Suc k])"
proof (induction k)
  case 0
  then show ?case using digit_step [of 0 n] by simp
next
  case (Suc k)
  have "write_digits n (Suc k) = hex_digits ! (unat n div 16 ^ Suc k mod 16) # write_digits n k"
    by (simp only: write_digits.simps digit_step)
  with Suc.IH show ?case by simp
qed

lemma mod_split_digit: "(N :: nat) mod 16 ^ Suc (Suc k) = (N div 16 ^ Suc k mod 16) * 16 ^ Suc k + N mod 16 ^ Suc k"
  using mod_mult2_eq [of N "16 ^ Suc k" 16] by (simp add: mult.commute)

lemma hex_fold_write_digits:
  "hex_fold w (write_digits n k) = w * 16 ^ Suc k + of_nat (unat n mod 16 ^ Suc k)"
proof (induction k arbitrary: w)
  case 0
  then show ?case by (simp add: write_digits_nat hex_fold_def decode_hex_digit)
next
  case (Suc k)
  have "write_digits n (Suc k) = hex_digits ! (unat n div 16 ^ Suc k mod 16) # write_digits n k"
    by (simp add: write_digits_nat)
  then have "hex_fold w (write_digits n (Suc k)) =
      hex_fold (w * 16 + of_nat (unat n div 16 ^ Suc k mod 16)) (write_digits n k)"
    by (simp add: hex_fold_def decode_hex_digit)
  also have "\<dots> = (w * 16 + of_nat (unat n div 16 ^ Suc k mod 16)) * 16 ^ Suc k + of_nat (unat n mod 16 ^ Suc k)"
    by (rule Suc.IH)
  also have "\<dots> = w * 16 ^ Suc (Suc k) + of_nat ((unat n div 16 ^ Suc k mod 16) * 16 ^ Suc k + unat n mod 16 ^ Suc k)"
    by (simp add: algebra_simps)
  finally show ?case by (simp only: mod_split_digit)
qed

lemma find_bit_offset_bound:
  "unat n < 16 ^ Suc k \<Longrightarrow> k \<le> 15 \<Longrightarrow>
     unat n < 16 ^ Suc (find_bit_offset n k) \<and> find_bit_offset n k \<le> k"
proof (induction k)
  case (Suc k)
  show ?case
  proof (cases "n AND push_bit (4 * Suc k) 15 = 0")
    case True
    have "drop_bit (4 * Suc k) n AND 15 = 0" by (rule nibble_zero [OF True]) (use Suc.prems in simp)
    then have "unat n div 16 ^ Suc k mod 16 = 0"
      using unat_nibble [of "4 * Suc k" n] by (simp only: power_16) simp
    moreover have "unat n div 16 ^ Suc k < 16"
      using Suc.prems(1) by (simp add: less_mult_imp_div_less mult.commute)
    ultimately have "unat n div 16 ^ Suc k = 0" by simp
    then have "unat n < 16 ^ Suc k" by (simp add: div_eq_0_iff)
    with Suc.IH Suc.prems True show ?thesis by auto
  qed (use Suc.prems in auto)
qed simp

lemma encode_hex_digits:
  "encode_hex n \<noteq> [] \<and> length (encode_hex n) \<le> 16 \<and> hex_fold 0 (encode_hex n) = n \<and>
   (\<forall>b \<in> set (encode_hex n). decode_hex (sint b) \<noteq> kParseFailed)"
proof (cases "n = 0")
  case True
  then show ?thesis by (simp add: encode_hex_def, code_simp)
next
  case False
  define k where "k = find_bit_offset n 15"
  have k: "unat n < 16 ^ Suc k" "k \<le> 15"
    using find_bit_offset_bound [of n 15] unat_u64_less [of n] by (auto simp: k_def)
  have "encode_hex n = write_digits n k" using False by (simp add: encode_hex_def k_def)
  moreover have "hex_fold 0 (write_digits n k) = n" using k(1) by (simp add: hex_fold_write_digits)
  moreover have "length (write_digits n k) = Suc k" by (simp add: write_digits_nat)
  moreover have "\<forall>b \<in> set (write_digits n k). decode_hex (sint b) \<noteq> kParseFailed"
    by (auto simp: write_digits_nat decode_hex_digit kParseFailed_def)
  ultimately show ?thesis using k(2) by auto
qed

abbreviation at_chunk_size :: "ChunkedDecoder \<Rightarrow> bool" where
  "at_chunk_size d \<equiv> cd_state d = CHUNKED_IN_CHUNK_SIZE \<and> bytes_left_in_chunk d = 0 \<and> hex_count d = 0"

lemma decode_hex_CR [simp]: "decode_hex 13 = kParseFailed"
  by (simp add: decode_hex_def)

lemma decode_bytes_size_line:
  assumes "at_chunk_size d"
  shows "decode_bytes d (encode_hex n @ CR # LF # rest) =
    decode_bytes (d\<lparr>bytes_left_in_chunk := n, cd_state := CHUNKED_IN_CHUNK_EXT\<rparr>) (LF # rest)"
proof -
  note hex = encode_hex_digits [of n]
  have "decode_bytes d (encode_hex n @ CR # LF # rest) =
      decode_bytes (d\<lparr>bytes_left_in_chunk := n, hex_count := length (encode_hex n)\<rparr>) (CR # LF # rest)"
    using decode_bytes_hex_digits [of d "encode_hex n" "CR # LF # rest"] assms hex by simp
  also have "\<dots> = decode_bytes (d\<lparr>bytes_left_in_chunk := n, cd_state := CHUNKED_IN_CHUNK_EXT\<rparr>) (LF # rest)"
    using assms hex by (cases d) (subst decode_bytes.simps, simp add: decode_byte_def ext_byte_def del: decode_bytes.simps split: prod.splits)
  finally show ?thesis .
qed

lemma decode_bytes_chunk:
  assumes "at_chunk_size d" and "c \<noteq> []" and "length c < 2 ^ 64"
  shows "decode_bytes d (chunk_header True c @ c @ rest) =
    prefix_output c (decode_bytes (d\<lparr>cd_state := CHUNKED_IN_CHUNK_CRLF\<rparr>) rest)"
proof -
  let ?n = "of_nat (length c) :: u64"
  have n: "unat ?n = length c" "?n \<noteq> 0"
    using assms(2,3) unat_of_nat_u64 [of "length c"] by (auto simp flip: unat_eq_zero)
  let ?d = "d\<lparr>bytes_left_in_chunk := ?n, cd_state := CHUNKED_IN_CHUNK_DATA\<rparr>"
  have "decode_bytes d (chunk_header True c @ c @ rest) = decode_bytes ?d (c @ rest)"
    using decode_bytes_size_line [OF assms(1), of ?n "c @ rest"] n(2)
    by (simp add: chunk_header_def decode_byte_def ext_byte_def split: prod.splits)
  also have "\<dots> = prefix_output c (decode_bytes (?d\<lparr>bytes_left_in_chunk := 0, cd_state := CHUNKED_IN_CHUNK_CRLF\<rparr>) rest)"
    using decode_bytes_data [of ?d "c @ rest"] n by (simp add: prefix_output_def)
  also have "?d\<lparr>bytes_left_in_chunk := 0, cd_state := CHUNKED_IN_CHUNK_CRLF\<rparr> = d\<lparr>cd_state := CHUNKED_IN_CHUNK_CRLF\<rparr>"
    using assms(1) by (cases d) simp
  finally show ?thesis .
qed

lemma decode_bytes_next_chunk:
  assumes "at_chunk_size d"
  shows "decode_bytes (d\<lparr>cd_state := CHUNKED_IN_CHUNK_CRLF\<rparr>) (CR # LF # rest) = decode_bytes d rest"
proof -
  have "d\<lparr>cd_state := CHUNKED_IN_CHUNK_SIZE\<rparr> = d" using assms by (cases d) simp
  then show ?thesis by (simp add: decode_byte_def split: prod.splits)
qed

lemma decode_bytes_last_chunk:
  assumes "at_chunk_size d" and "consume_trailer d = tr"
  shows "\<exists>d'. decode_bytes (d\<lparr>cd_state := CHUNKED_IN_CHUNK_CRLF\<rparr>) (last_chunk tr) = (d', [], Inr (True, []))"
proof -
  have hex: "encode_hex 0 = [48]" by (simp add: encode_hex_def)
  let ?t = "if tr then [CR, LF] else []"
  have "decode_bytes (d\<lparr>cd_state := CHUNKED_IN_CHUNK_CRLF\<rparr>) (last_chunk tr) = decode_bytes d (encode_hex 0 @ CR # LF # ?t)"
    using decode_bytes_next_chunk [OF assms(1), of "48 # CR # LF # ?t"] by (cases tr) (simp_all add: last_chunk_def hex del: decode_bytes.simps)
  also have "\<dots> = decode_bytes (d\<lparr>bytes_left_in_chunk := 0, cd_state := CHUNKED_IN_CHUNK_EXT\<rparr>) (LF # ?t)"
    by (rule decode_bytes_size_line [OF assms(1)])
  finally show ?thesis using assms(2) by (simp add: decode_byte_def ext_byte_def)
qed

lemma chunk_header_False: "chunk_header False c = CR # LF # chunk_header True c"
  by (simp add: chunk_header_def)

lemma decode_bytes_encoded:
  assumes "at_chunk_size d" and "consume_trailer d = tr" and "[] \<notin> set cs" and "\<forall>c \<in> set cs. length c < 2 ^ 64"
  shows "\<exists>d'. decode_bytes (d\<lparr>cd_state := CHUNKED_IN_CHUNK_CRLF\<rparr>) (encoded tr False cs) =
    (d', concat cs, Inr (True, []))"
  using assms(3,4)
proof (induction cs)
  case Nil
  then show ?case using decode_bytes_last_chunk [OF assms(1,2)] by simp
next
  case (Cons c cs)
  then obtain d' where
    "decode_bytes (d\<lparr>cd_state := CHUNKED_IN_CHUNK_CRLF\<rparr>) (encoded tr False cs) = (d', concat cs, Inr (True, []))"
    by auto
  moreover have "c \<noteq> []" "length c < 2 ^ 64" using Cons.prems by auto
  ultimately show ?case
    using decode_bytes_chunk [OF assms(1), of c "encoded tr False cs"]
    by (simp add: chunk_header_False decode_bytes_next_chunk [OF assms(1)] prefix_output_def del: decode_bytes.simps)
qed

lemma decode_bytes_encoded_body:
  assumes "cs \<noteq> []" and "[] \<notin> set cs" and "\<forall>c \<in> set cs. length c < 2 ^ 64"
  shows "\<exists>d'. decode_bytes (ChunkedDecoder_init tr) (encoded tr True cs) = (d', concat cs, Inr (True, []))"
proof -
  let ?d = "ChunkedDecoder_init tr"
  have init: "at_chunk_size ?d" "consume_trailer ?d = tr" by (simp_all add: ChunkedDecoder_init_def)
  obtain c cs' where cs: "cs = c # cs'" using assms(1) by (cases cs) auto
  obtain d' where "decode_bytes (?d\<lparr>cd_state := CHUNKED_IN_CHUNK_CRLF\<rparr>) (encoded tr False cs') = (d', concat cs', Inr (True, []))"
    using decode_bytes_encoded [OF init, of cs'] assms cs by auto
  moreover have "c \<noteq> []" "length c < 2 ^ 64" using assms cs by auto
  ultimately show ?thesis
    using decode_bytes_chunk [OF init(1), of c "encoded tr False cs'"] cs by (simp add: prefix_output_def)
qed

lemma decoder_ok_init: "decoder_ok (ChunkedDecoder_init tr)"
  by (simp add: decoder_ok_def ChunkedDecoder_init_def)

lemma concat_member_length: "c \<in> set cs \<Longrightarrow> length c \<le> length (concat cs)"
  by (metis concat_append concat.simps(2) in_set_conv_decomp length_append trans_le_add1 trans_le_add2 le_add1)

subsection \<open>Properties\<close>

text \<open>
  C4 (roundtrip). A non-empty body that is encoded from a stream buffer comes out of the decoder as it
  was, for both trailer settings and however the network divides the encoded bytes into buffers: the
  encoder returns, the decoder finds the end of the body, has consumed every byte, and its output is
  the contents of the buffer.
\<close>

theorem chunked_round_trip:
  assumes "sb_source_ok sb" and "contents sb \<noteq> []" and "sb_capacity sb < 2 ^ 63"
    and "\<And>dst data. \<exists>dst'. wr dst data = (dst', Inr (length data)) \<and> sent dst' = sent dst @ data"
  shows "\<exists>sb' dst' body. http_encode_chunked sb_fetch sb_consume wr tr sb dst True = Some (sb', dst', Ready (Inr ())) \<and>
     sent dst' = sent dst @ body \<and>
     (\<forall>pieces. concat pieces = body \<longrightarrow>
        snd (flat_output (decode_buffers (ChunkedDecoder_init tr) pieces [] 0)) =
          (contents sb, Inr \<lparr>dr_done = True, dr_bytes_consumed = length body\<rparr>))"
proof -
  from sb_source.http_encode_chunked_sends [where sent = sent, OF assms(1,4), of tr dst True]
  obtain sb' dst' cs where enc: "http_encode_chunked sb_fetch sb_consume wr tr sb dst True = Some (sb', dst', Ready (Inr ()))"
    "concat cs = contents sb" "[] \<notin> set cs" "sent dst' = sent dst @ encoded tr True cs" by blast
  have "length (contents sb) < 2 ^ 64"
    using assms(1,3) by (auto simp: sb_source_ok_def sb_inv_def)
  then have "\<forall>c \<in> set cs. length c < 2 ^ 64"
    using concat_member_length enc(2) by (metis order_le_less_trans)
  moreover have "cs \<noteq> []" using enc(2) assms(2) by auto
  ultimately obtain d' where dec: "decode_bytes (ChunkedDecoder_init tr) (encoded tr True cs) = (d', contents sb, Inr (True, []))"
    using decode_bytes_encoded_body enc(2,3) by metis
  have "snd (flat_output (decode_buffers (ChunkedDecoder_init tr) pieces [] 0)) =
      (contents sb, Inr \<lparr>dr_done = True, dr_bytes_consumed = length (encoded tr True cs)\<rparr>)"
    if "concat pieces = encoded tr True cs" for pieces
    using decode_buffers_refines [OF decoder_ok_init, of tr pieces d' "contents sb" "Inr (True, [])" "[]" 0] dec that
    by (auto simp: flat_output_def consumed_result_def)
  with enc(1,4) show ?thesis by blast
qed

text \<open>A destination that records what is written to it.\<close>

definition recording_wr :: "u8 list \<Rightarrow> u8 list \<Rightarrow> u8 list \<times> nat StatusOr" where
  "recording_wr dst data = (dst @ data, Inr (length data))"

theorem chunked_round_trip_witness:
  "\<exists>sb' body. http_encode_chunked sb_fetch sb_consume recording_wr True example_closed_buffer [] True =
      Some (sb', body, Ready (Inr ())) \<and>
     snd (flat_output (decode_buffers (ChunkedDecoder_init True) [take 4 body, drop 4 body] [] 0)) =
       ([3, 4, 5, 6], Inr \<lparr>dr_done = True, dr_bytes_consumed = length body\<rparr>)"
proof -
  have "\<exists>dst'. recording_wr dst data = (dst', Inr (length data)) \<and> id dst' = id dst @ data" for dst data
    by (simp add: recording_wr_def)
  moreover have "contents example_closed_buffer \<noteq> []" "sb_capacity example_closed_buffer < 2 ^ 63"
    by (simp_all add: example_closed_buffer_props) (simp add: example_closed_buffer_def)
  ultimately obtain sb' body where "http_encode_chunked sb_fetch sb_consume recording_wr True example_closed_buffer [] True =
      Some (sb', body, Ready (Inr ()))"
    and dec: "\<And>pieces. concat pieces = body \<Longrightarrow> snd (flat_output (decode_buffers (ChunkedDecoder_init True) pieces [] 0)) =
       ([3, 4, 5, 6], Inr \<lparr>dr_done = True, dr_bytes_consumed = length body\<rparr>)"
    using chunked_round_trip [OF example_closed_buffer_props(1), of recording_wr id True "[]"]
    by (auto simp: example_closed_buffer_props)
  with dec [of "[take 4 body, drop 4 body]"] show ?thesis by auto
qed

text \<open>
  The encoding of an empty body is not valid: the encoder ends it with the last chunk, which
  starts with the line end of a chunk that was never sent, and the decoder refuses the first byte.
\<close>

theorem empty_body_rejected:
  assumes "sb_source_ok sb" and "contents sb = []"
    and "\<And>dst data. \<exists>dst'. wr dst data = (dst', Inr (length data)) \<and> sent dst' = sent dst @ data"
  shows "\<exists>sb' dst'. http_encode_chunked sb_fetch sb_consume wr tr sb dst True = Some (sb', dst', Ready (Inr ())) \<and>
     sent dst' = sent dst @ last_chunk tr \<and>
     snd (snd (decode_chunked (ChunkedDecoder_init tr) (last_chunk tr) [])) = Inl kInvalidArgument"
proof -
  from sb_source.fetch_eos [OF assms(1,2)] obtain sb' where
    "sb_fetch 1 sb = (sb', Some (Ready (Inl kEndOfStream)))" by blast
  moreover obtain dst' where "wr dst (last_chunk tr) = (dst', Inr (length (last_chunk tr)))"
    "sent dst' = sent dst @ last_chunk tr" using assms(3) by blast
  moreover have "decode_bytes (ChunkedDecoder_init tr) (last_chunk tr) = (ChunkedDecoder_init tr, [], Inl kInvalidArgument)"
    by (simp add: last_chunk_def decode_byte_def ChunkedDecoder_init_def)
  from decode_chunked_refines [OF decoder_ok_init this, of "[]"]
  have "snd (snd (decode_chunked (ChunkedDecoder_init tr) (last_chunk tr) [])) = Inl kInvalidArgument"
    by (auto simp: consumed_result_def)
  ultimately show ?thesis by (subst http_encode_chunked.simps) auto
qed

theorem empty_body_rejected_witness:
  "\<exists>sb'. http_encode_chunked sb_fetch sb_consume recording_wr False (close_for_write (StreamBuffer_init 4 [0, 0, 0, 0])) [] True =
      Some (sb', [13, 10, 48, 13, 10], Ready (Inr ())) \<and>
     snd (snd (decode_chunked (ChunkedDecoder_init False) [13, 10, 48, 13, 10] [])) = Inl kInvalidArgument"
proof -
  let ?sb = "close_for_write (StreamBuffer_init 4 [0, 0, 0, 0])"
  have "sb_source_ok ?sb" "contents ?sb = []" by code_simp+
  moreover have "\<exists>dst'. recording_wr dst data = (dst', Inr (length data)) \<and> id dst' = id dst @ data" for dst data
    by (simp add: recording_wr_def)
  ultimately show ?thesis
    using empty_body_rejected [of ?sb recording_wr id False "[]"] by (auto simp: last_chunk_def)
qed

end
