(* ===== verification/Batt_Task.thy ===== *)
theory Batt_Task
  imports Batt_Status
begin

section \<open>Task: the scheduling state machine\<close>

text \<open>
  Models one \<^verbatim>\<open>Task\<close> of \<^verbatim>\<open>src/src/batteries/async/task_decl.hpp\<close> and \<^verbatim>\<open>task_impl.hpp\<close> together with every
  thread that touches it, by small steps, one for each access to the atomic state word: the thread that
  runs the body, the thread on which the continuation of an \<^verbatim>\<open>await\<close> is called, the activation handler
  and the trampoline around \<^verbatim>\<open>Task::run\<close>, \<^verbatim>\<open>wake\<close>, \<^verbatim>\<open>call_when_done\<close> and the collection of a stack
  trace. The state word (nine bits) is a set of flags, so that \<^verbatim>\<open>fetch_or\<close> is union and
  \<^verbatim>\<open>fetch_and(~mask)\<close> is difference. The switch of the stack (\<^verbatim>\<open>Continuation::resume\<close>) is code outside the
  library: \<open>t_self\<close> says whether \<^verbatim>\<open>self_\<close> holds the suspended context and \<open>t_body\<close> where the body is in
  its own code. The executor is a number of pending activations that any idle thread may pick up; an
  inline \<^verbatim>\<open>dispatch\<close> is an activation that is picked up at once. A failed \<^verbatim>\<open>BATT_CHECK\<close> sets \<open>t_panic\<close>.
\<close>

datatype task_flag =
    kNeedSignal | kHaveSignal | kSuspended | kTerminated | kStackTrace | kSleepTimerLock
  | kCompletionHandlersLock | kSleepTimerLockSuspend | kCompletionHandlersClosed

type_synonym task_state = "task_flag set"

definition is_running_state :: "task_state \<Rightarrow> bool" where
  "is_running_state st \<longleftrightarrow> kSuspended \<notin> st"

definition is_ready_state :: "task_state \<Rightarrow> bool" where
  "is_ready_state st \<longleftrightarrow>
     (kSuspended \<in> st \<and> kTerminated \<notin> st) \<and>
     ((kNeedSignal \<notin> st \<and> kHaveSignal \<notin> st) \<or> (kNeedSignal \<in> st \<and> kHaveSignal \<in> st)) \<and>
     kStackTrace \<notin> st"

definition is_terminal_state :: "task_state \<Rightarrow> bool" where
  "is_terminal_state st \<longleftrightarrow> kSuspended \<in> st \<and> kTerminated \<in> st"

text \<open>
  Where the body is: not started, in its own code, spinning for the sleep timer lock, holding it in
  \<^verbatim>\<open>sleep_impl\<close> before the await, in the function passed to \<^verbatim>\<open>await\<close> before and after it has handed on the
  handler, suspended in \<^verbatim>\<open>await\<close>, finished.
\<close>

datatype body_pc = B_start | B_run | B_spin | B_timer | B_fn | B_registered | B_return | B_exited

text \<open>
  The control points of a thread; each carries the local variables that are still needed, such as the
  last observed state of a compare-exchange loop.
\<close>

datatype task_pc =
    T_idle
  | T_event task_state
  | T_sched task_state
  | T_run_load
  | T_run_lock task_state
  | T_run_resume
  | T_body
  | T_exit_load
  | T_exit_cas task_state
  | T_complete_lock
  | T_complete_locked
  | T_complete_unlock "nat list"
  | T_invoke "nat list"
  | T_dump_cas task_state
  | T_dump_resume
  | T_dump_bounce
  | T_dump_load
  | T_dump_clear task_state
  | T_wake_locked
  | T_cwd_check nat
  | T_cwd_lock nat
  | T_cwd_push nat
  | T_cwd_unlock
  | T_cwd_retry nat

record task =
  t_state :: task_state
  t_self :: bool
  t_body :: body_pc
  t_holds_timer :: bool
  t_result :: bool
  t_callbacks :: nat
  t_activations :: nat
  t_handlers :: "nat list"
  t_invoked :: "nat list"
  t_pcs :: "nat \<Rightarrow> task_pc"
  t_panic :: bool

text \<open>
  The constructor: the body has been entered and has switched back (\<^verbatim>\<open>pre_body_fn_entry\<close>), and thread 0
  is about to call \<^verbatim>\<open>handle_event(kSuspended | kHaveSignal)\<close>.
\<close>

definition Task_init :: task where
  "Task_init = \<lparr>t_state = {kNeedSignal}, t_self = True, t_body = B_start, t_holds_timer = False,
     t_result = False, t_callbacks = 0, t_activations = 0, t_handlers = [], t_invoked = [],
     t_pcs = (\<lambda>_. T_idle)(0 := T_event {kSuspended, kHaveSignal}), t_panic = False\<rparr>"

definition goto :: "nat \<Rightarrow> task_pc \<Rightarrow> task \<Rightarrow> task" where
  "goto t pc s = s\<lparr>t_pcs := (t_pcs s)(t := pc)\<rparr>"

definition panic :: "task \<Rightarrow> task" where
  "panic s = s\<lparr>t_panic := True\<rparr>"

definition handle_event :: "task_state \<Rightarrow> task_pc \<Rightarrow> nat \<Rightarrow> task \<Rightarrow> task" where
  "handle_event event_mask return_pc t s =
     (let new_state = t_state s \<union> event_mask; s = s\<lparr>t_state := new_state\<rparr> in
      if is_ready_state new_state then goto t (T_sched new_state) s
      else if is_terminal_state new_state then
        (if t_self s then panic s else goto t T_complete_lock s)
      else goto t return_pc s)"

definition schedule_to_run :: "task_state \<Rightarrow> nat \<Rightarrow> task \<Rightarrow> task" where
  "schedule_to_run observed_state t s =
     (if \<not> is_ready_state observed_state then goto t T_idle s
      else if t_state s = observed_state then
        (let s = s\<lparr>t_state := observed_state - {kSuspended, kNeedSignal, kHaveSignal}\<rparr> in
         if t_self s then goto t T_idle (s\<lparr>t_activations := t_activations s + 1\<rparr>) else panic s)
      else goto t (T_sched (t_state s)) s)"

definition try_spin_lock :: "task_flag \<Rightarrow> task \<Rightarrow> bool \<times> task" where
  "try_spin_lock lock_mask s = (lock_mask \<notin> t_state s, s\<lparr>t_state := insert lock_mask (t_state s)\<rparr>)"

definition spin_unlock :: "task_flag \<Rightarrow> task \<Rightarrow> task" where
  "spin_unlock lock_mask s = s\<lparr>t_state := t_state s - {lock_mask}\<rparr>"

text \<open>
  \<^verbatim>\<open>Task::run\<close> and \<^verbatim>\<open>resume_impl\<close>: re-acquire the sleep timer lock if it was held at the last suspension,
  switch to the body, and after it has switched back release the lock if it is held.
\<close>

definition run_step :: "task_pc \<Rightarrow> nat \<Rightarrow> task \<Rightarrow> task" where
  "run_step pc t s =
     (case pc of
        T_run_load \<Rightarrow>
          goto t (if kSleepTimerLockSuspend \<in> t_state s then T_run_lock (t_state s) else T_run_resume) s
      | T_run_lock observed_state \<Rightarrow>
          if kSleepTimerLock \<in> observed_state then goto t (T_run_lock (t_state s)) s
          else if t_state s = observed_state then
            goto t T_run_resume
              (s\<lparr>t_state := insert kSleepTimerLock (observed_state - {kSleepTimerLockSuspend})\<rparr>)
          else goto t (T_run_lock (t_state s)) s
      | T_run_resume \<Rightarrow>
          if \<not> t_self s then panic s
          else if t_body s = B_start then goto t T_body (s\<lparr>t_self := False, t_body := B_run\<rparr>)
          else if kStackTrace \<in> t_state s then goto t T_exit_load s
          else goto t T_body (s\<lparr>t_self := False\<rparr>)
      | T_exit_load \<Rightarrow>
          goto t (if kSleepTimerLock \<in> t_state s then T_exit_cas (t_state s) else T_event {kSuspended}) s
      | T_exit_cas observed_state \<Rightarrow>
          if t_state s = observed_state then
            goto t (T_event {kSuspended})
              (s\<lparr>t_state := insert kSleepTimerLockSuspend (observed_state - {kSleepTimerLock})\<rparr>)
          else goto t (T_exit_cas (t_state s)) s
      | _ \<Rightarrow> s)"

text \<open>\<^verbatim>\<open>run_completion_handlers\<close>.\<close>

definition complete_step :: "task_pc \<Rightarrow> nat \<Rightarrow> task \<Rightarrow> task" where
  "complete_step pc t s =
     (case pc of
        T_complete_lock \<Rightarrow>
          if \<not> is_terminal_state (t_state s) \<or> t_self s then panic s
          else (case try_spin_lock kCompletionHandlersLock s of
                  (acquired, s) \<Rightarrow> goto t (if acquired then T_complete_locked else T_complete_lock) s)
      | T_complete_locked \<Rightarrow>
          if kCompletionHandlersClosed \<in> t_state s then panic s
          else goto t (T_complete_unlock (t_handlers s))
            (s\<lparr>t_state := insert kCompletionHandlersClosed (t_state s), t_handlers := []\<rparr>)
      | T_complete_unlock local_handlers \<Rightarrow>
          goto t (T_invoke local_handlers) (spin_unlock kCompletionHandlersLock s)
      | T_invoke local_handlers \<Rightarrow> goto t T_idle (s\<lparr>t_invoked := t_invoked s @ local_handlers\<rparr>)
      | _ \<Rightarrow> s)"

text \<open>
  \<^verbatim>\<open>try_dump_stack_trace\<close>: the body, resumed with the stack trace bit set, stores its trace and switches
  back at once; without the bit it would run on and the check of \<^verbatim>\<open>stack_trace_\<close> would fail.
\<close>

definition dump_step :: "task_pc \<Rightarrow> nat \<Rightarrow> task \<Rightarrow> task" where
  "dump_step pc t s =
     (case pc of
        T_dump_cas observed_state \<Rightarrow>
          if is_running_state observed_state \<or> is_ready_state observed_state \<or>
             is_terminal_state observed_state \<or> kStackTrace \<in> observed_state then goto t T_idle s
          else if t_state s = observed_state then
            goto t T_dump_resume (s\<lparr>t_state := insert kStackTrace observed_state\<rparr>)
          else goto t (T_dump_cas (t_state s)) s
      | T_dump_resume \<Rightarrow> if t_self s then goto t T_dump_bounce (s\<lparr>t_self := False\<rparr>) else panic s
      | T_dump_bounce \<Rightarrow>
          if kStackTrace \<in> t_state s then goto t T_dump_load (s\<lparr>t_self := True\<rparr>) else panic s
      | T_dump_load \<Rightarrow> goto t (T_dump_clear (t_state s)) s
      | T_dump_clear observed_state \<Rightarrow>
          (let target_state = insert kSuspended (observed_state - {kStackTrace}) in
           if is_terminal_state target_state then panic s
           else if t_state s = observed_state then
             goto t (if is_ready_state target_state then T_sched target_state else T_idle)
               (s\<lparr>t_state := target_state\<rparr>)
           else goto t (T_dump_clear (t_state s)) s)
      | _ \<Rightarrow> s)"

definition call_when_done_step :: "task_pc \<Rightarrow> nat \<Rightarrow> task \<Rightarrow> task" where
  "call_when_done_step pc t s =
     (case pc of
        T_cwd_check h \<Rightarrow>
          if is_terminal_state (t_state s) then goto t T_idle (s\<lparr>t_invoked := t_invoked s @ [h]\<rparr>)
          else goto t (T_cwd_lock h) s
      | T_cwd_lock h \<Rightarrow>
          (let prior_state = t_state s in
           case try_spin_lock kCompletionHandlersLock s of
             (acquired, s) \<Rightarrow>
               goto t (if \<not> acquired then T_cwd_lock h
                       else if is_terminal_state prior_state \<or> kCompletionHandlersClosed \<in> prior_state
                       then T_cwd_retry h else T_cwd_push h) s)
      | T_cwd_push h \<Rightarrow> goto t T_cwd_unlock (s\<lparr>t_handlers := t_handlers s @ [h]\<rparr>)
      | T_cwd_unlock \<Rightarrow> goto t T_idle (spin_unlock kCompletionHandlersLock s)
      | T_cwd_retry h \<Rightarrow> goto t (T_cwd_check h) (spin_unlock kCompletionHandlersLock s)
      | _ \<Rightarrow> s)"

text \<open>The next step of a thread that is at work on the task; the body takes its steps below.\<close>

definition task_thread_step :: "nat \<Rightarrow> task \<Rightarrow> task" where
  "task_thread_step t s =
     (let pc = t_pcs s t in
      case pc of
        T_idle \<Rightarrow> s
      | T_body \<Rightarrow> s
      | T_event event_mask \<Rightarrow> handle_event event_mask T_idle t s
      | T_sched observed_state \<Rightarrow> schedule_to_run observed_state t s
      | T_wake_locked \<Rightarrow> goto t T_idle (spin_unlock kSleepTimerLock s)
      | T_run_load \<Rightarrow> run_step pc t s
      | T_run_lock _ \<Rightarrow> run_step pc t s
      | T_run_resume \<Rightarrow> run_step pc t s
      | T_exit_load \<Rightarrow> run_step pc t s
      | T_exit_cas _ \<Rightarrow> run_step pc t s
      | T_complete_lock \<Rightarrow> complete_step pc t s
      | T_complete_locked \<Rightarrow> complete_step pc t s
      | T_complete_unlock _ \<Rightarrow> complete_step pc t s
      | T_invoke _ \<Rightarrow> complete_step pc t s
      | T_dump_cas _ \<Rightarrow> dump_step pc t s
      | T_dump_resume \<Rightarrow> dump_step pc t s
      | T_dump_bounce \<Rightarrow> dump_step pc t s
      | T_dump_load \<Rightarrow> dump_step pc t s
      | T_dump_clear _ \<Rightarrow> dump_step pc t s
      | T_cwd_check _ \<Rightarrow> call_when_done_step pc t s
      | T_cwd_lock _ \<Rightarrow> call_when_done_step pc t s
      | T_cwd_push _ \<Rightarrow> call_when_done_step pc t s
      | T_cwd_unlock \<Rightarrow> call_when_done_step pc t s
      | T_cwd_retry _ \<Rightarrow> call_when_done_step pc t s)"

text \<open>
  What the body does next. \<open>Do_next\<close> goes on inside \<^verbatim>\<open>sleep_impl\<close> and \<^verbatim>\<open>await_impl\<close>; in the function passed to
  \<^verbatim>\<open>await\<close> it hands on the handler, so that a callback is pending. \<open>Do_preempt\<close> is the suspension that
  \<^verbatim>\<open>Trampoline::activate_task\<close> forces on the current task of a thread when a task of higher priority is
  activated there.
\<close>

datatype body_op = Do_await | Do_yield | Do_sleep | Do_finish | Do_next | Do_preempt

definition body_await :: "task \<Rightarrow> task" where
  "body_await s =
     (if kHaveSignal \<in> t_state s then panic s
      else s\<lparr>t_state := insert kNeedSignal (t_state s), t_result := False, t_body := B_fn\<rparr>)"

definition body_yield :: "nat \<Rightarrow> task \<Rightarrow> task" where
  "body_yield t s = goto t T_exit_load (s\<lparr>t_self := True\<rparr>)"

fun body_step :: "body_op \<Rightarrow> body_pc \<Rightarrow> nat \<Rightarrow> task \<Rightarrow> task" where
  "body_step Do_await B_run t s = body_await s"
| "body_step Do_yield B_run t s = body_yield t s"
| "body_step Do_preempt B_run t s = body_yield t s"
| "body_step Do_sleep B_run t s = s\<lparr>t_body := B_spin\<rparr>"
| "body_step Do_finish B_run t s = handle_event {kTerminated} T_exit_load t (s\<lparr>t_body := B_exited\<rparr>)"
| "body_step Do_next B_spin t s =
     (case try_spin_lock kSleepTimerLock s of
        (acquired, s) \<Rightarrow> if acquired then s\<lparr>t_holds_timer := True, t_body := B_timer\<rparr> else s)"
| "body_step Do_next B_timer t s = body_await s"
| "body_step Do_next B_fn t s = s\<lparr>t_callbacks := t_callbacks s + 1, t_body := B_registered\<rparr>"
| "body_step Do_preempt B_fn t s = body_yield t s"
| "body_step Do_next B_registered t s = body_yield t (s\<lparr>t_body := B_return\<rparr>)"
| "body_step Do_preempt B_registered t s = body_yield t s"
| "body_step Do_next B_return t s =
     (if \<not> t_result s then panic s
      else (if t_holds_timer s then spin_unlock kSleepTimerLock (s\<lparr>t_holds_timer := False\<rparr>) else s)
        \<lparr>t_body := B_run\<rparr>)"
| "body_step _ _ t s = s"

text \<open>The events: a thread goes on, or an idle thread starts something.\<close>

datatype task_event =
    Ev_step nat
  | Ev_body nat body_op
  | Ev_signal nat
  | Ev_activate nat
  | Ev_dump nat
  | Ev_wake nat
  | Ev_call_when_done nat nat

fun task_step :: "task_event \<Rightarrow> task \<Rightarrow> task" where
  "task_step (Ev_step t) s = task_thread_step t s"
| "task_step (Ev_body t x) s = (if t_pcs s t = T_body then body_step x (t_body s) t s else s)"
| "task_step (Ev_signal t) s =
     (if t_pcs s t = T_idle \<and> t_callbacks s > 0
      then goto t (T_event {kHaveSignal}) (s\<lparr>t_callbacks := t_callbacks s - 1, t_result := True\<rparr>) else s)"
| "task_step (Ev_activate t) s =
     (if t_pcs s t = T_idle \<and> t_activations s > 0
      then goto t T_run_load (s\<lparr>t_activations := t_activations s - 1\<rparr>) else s)"
| "task_step (Ev_dump t) s = (if t_pcs s t = T_idle then goto t (T_dump_cas (t_state s)) s else s)"
| "task_step (Ev_wake t) s =
     (if t_pcs s t = T_idle then
        (case try_spin_lock kSleepTimerLock s of
           (acquired, s) \<Rightarrow> if acquired then goto t T_wake_locked s else s)
      else s)"
| "task_step (Ev_call_when_done t h) s = (if t_pcs s t = T_idle then goto t (T_cwd_check h) s else s)"

definition task_run :: "task_event list \<Rightarrow> task" where
  "task_run es = fold task_step es Task_init"

subsection \<open>The invariant\<close>

text \<open>
  At every moment at most one party owns the suspended context: the executor (a pending activation), or
  one thread, in one of the phases below; with no owner the task is suspended. \<open>P_dumping\<close> is the moment
  inside the collection of a stack trace in which the body runs.
\<close>

datatype task_owner = Nobody | Executor | Thread nat

datatype task_phase =
    P_ctor | P_sched | P_resuming | P_body | P_suspending | P_suspended | P_dump | P_dumping

fun pc_phase :: "task_pc \<Rightarrow> task_phase option" where
  "pc_phase (T_event m) =
     (if m = {kSuspended, kHaveSignal} then Some P_ctor
      else if m = {kSuspended} then Some P_suspending else None)"
| "pc_phase (T_sched _) = Some P_sched"
| "pc_phase T_run_load = Some P_resuming"
| "pc_phase (T_run_lock _) = Some P_resuming"
| "pc_phase T_run_resume = Some P_resuming"
| "pc_phase T_body = Some P_body"
| "pc_phase T_exit_load = Some P_suspending"
| "pc_phase (T_exit_cas _) = Some P_suspending"
| "pc_phase T_dump_resume = Some P_dump"
| "pc_phase T_dump_bounce = Some P_dumping"
| "pc_phase T_dump_load = Some P_dump"
| "pc_phase (T_dump_clear _) = Some P_dump"
| "pc_phase _ = None"

fun owner_phase :: "task_owner \<Rightarrow> (nat \<Rightarrow> task_pc) \<Rightarrow> task_phase" where
  "owner_phase Nobody pcs = P_suspended"
| "owner_phase Executor pcs = P_resuming"
| "owner_phase (Thread t) pcs = the (pc_phase (pcs t))"

definition owner_ok :: "task_owner \<Rightarrow> (nat \<Rightarrow> task_pc) \<Rightarrow> nat \<Rightarrow> bool" where
  "owner_ok own pcs n \<longleftrightarrow>
     (\<forall>t. pc_phase (pcs t) \<noteq> None \<longleftrightarrow> own = Thread t) \<and> n = (if own = Executor then 1 else 0)"

text \<open>The signal of the current \<^verbatim>\<open>await\<close>: its callback is pending, or a thread is inside it.\<close>

datatype task_signal = No_signal | Registered | Flying nat

definition signal_ok :: "task_signal \<Rightarrow> (nat \<Rightarrow> task_pc) \<Rightarrow> nat \<Rightarrow> bool \<Rightarrow> bool" where
  "signal_ok sig pcs n result \<longleftrightarrow>
     (\<forall>t. pcs t = T_event {kHaveSignal} \<longleftrightarrow> sig = Flying t) \<and>
     n = (if sig = Registered then 1 else 0) \<and> (\<forall>t. sig = Flying t \<longrightarrow> result)"

definition body_ok :: "task_phase \<Rightarrow> body_pc \<Rightarrow> task_signal \<Rightarrow> bool \<Rightarrow> bool \<Rightarrow> bool \<Rightarrow> bool" where
  "body_ok ph body sig need have result \<longleftrightarrow>
     (case body of
        B_start \<Rightarrow> sig = No_signal \<and>
          (ph = P_ctor \<and> need \<and> \<not> have \<or> ph = P_sched \<and> need \<and> have \<or> ph = P_resuming \<and> \<not> need \<and> \<not> have)
      | B_run \<Rightarrow> \<not> need \<and> \<not> have \<and> sig = No_signal \<and> ph \<notin> {P_ctor, P_dump, P_dumping}
      | B_spin \<Rightarrow> \<not> need \<and> \<not> have \<and> sig = No_signal \<and> ph = P_body
      | B_timer \<Rightarrow> \<not> need \<and> \<not> have \<and> sig = No_signal \<and> ph = P_body
      | B_fn \<Rightarrow> need \<and> \<not> have \<and> sig = No_signal \<and> ph \<in> {P_body, P_suspending, P_suspended, P_dump, P_dumping}
      | B_exited \<Rightarrow> \<not> need \<and> \<not> have \<and> sig = No_signal \<and> ph \<in> {P_suspending, P_suspended}
      | _ \<Rightarrow> ph \<noteq> P_ctor \<and>
          (need \<and> \<not> have \<and> sig \<noteq> No_signal \<or> need \<and> have \<and> sig = No_signal \<and> result \<or>
           \<not> need \<and> \<not> have \<and> sig = No_signal \<and> result) \<and>
          (ph = P_resuming \<or> ph = P_body \<and> body = B_return \<longrightarrow> \<not> need) \<and>
          (ph = P_dump \<or> ph = P_dumping \<longrightarrow> need))"

definition flags_ok :: "task_phase \<Rightarrow> body_pc \<Rightarrow> task_signal \<Rightarrow> task_state \<Rightarrow> bool \<Rightarrow> bool \<Rightarrow> bool" where
  "flags_ok ph body sig st self result \<longleftrightarrow>
     (kSuspended \<in> st \<longleftrightarrow> ph \<in> {P_suspended, P_sched, P_dump, P_dumping}) \<and>
     (kStackTrace \<in> st \<longleftrightarrow> ph \<in> {P_dump, P_dumping}) \<and>
     (is_ready_state st \<longleftrightarrow> ph = P_sched) \<and>
     (self \<longleftrightarrow> ph \<notin> {P_body, P_dumping} \<and> body \<noteq> B_exited) \<and>
     (kTerminated \<in> st \<longleftrightarrow> body = B_exited) \<and>
     body_ok ph body sig (kNeedSignal \<in> st) (kHaveSignal \<in> st) result"

fun pc_ok :: "task_pc \<Rightarrow> task_owner \<Rightarrow> body_pc \<Rightarrow> bool" where
  "pc_ok (T_event m) own body \<longleftrightarrow> m \<in> {{kSuspended, kHaveSignal}, {kSuspended}, {kHaveSignal}}"
| "pc_ok (T_sched obs) own body \<longleftrightarrow> is_ready_state obs"
| "pc_ok (T_dump_clear obs) own body \<longleftrightarrow> kTerminated \<notin> obs"
| "pc_ok T_complete_lock own body \<longleftrightarrow> own = Nobody \<and> body = B_exited"
| "pc_ok T_complete_locked own body \<longleftrightarrow> own = Nobody \<and> body = B_exited"
| "pc_ok _ own body \<longleftrightarrow> True"

fun closing :: "task_pc \<Rightarrow> bool" where
  "closing T_complete_lock = True"
| "closing T_complete_locked = True"
| "closing _ = False"

definition closing_ok :: "task_owner \<Rightarrow> (nat \<Rightarrow> task_pc) \<Rightarrow> body_pc \<Rightarrow> bool \<Rightarrow> bool" where
  "closing_ok own pcs body closed \<longleftrightarrow>
     (\<forall>t u. closing (pcs t) \<and> closing (pcs u) \<longrightarrow> t = u) \<and>
     (\<forall>t. closing (pcs t) \<longrightarrow> \<not> closed) \<and> (closed \<longrightarrow> own = Nobody \<and> body = B_exited)"

definition task_ok :: "task_owner \<Rightarrow> task_signal \<Rightarrow> task \<Rightarrow> bool" where
  "task_ok own sig s \<longleftrightarrow> \<not> t_panic s \<and> owner_ok own (t_pcs s) (t_activations s) \<and>
     signal_ok sig (t_pcs s) (t_callbacks s) (t_result s) \<and>
     flags_ok (owner_phase own (t_pcs s)) (t_body s) sig (t_state s) (t_self s) (t_result s) \<and>
     (\<forall>t. pc_ok (t_pcs s t) own (t_body s)) \<and>
     closing_ok own (t_pcs s) (t_body s) (kCompletionHandlersClosed \<in> t_state s)"

lemmas task_ok_defs = task_ok_def owner_ok_def signal_ok_def flags_ok_def body_ok_def closing_ok_def
  is_ready_state_def is_terminal_state_def is_running_state_def

lemma task_ok_init: "task_ok (Thread 0) No_signal Task_init"
  by (auto simp: task_ok_defs Task_init_def)

text \<open>
  Most steps stay within a phase and touch only the spin lock bits, which the invariant does not
  mention.
\<close>

definition sched_flags :: "task_state \<Rightarrow> task_state" where
  "sched_flags st =
     st \<inter> {kNeedSignal, kHaveSignal, kSuspended, kTerminated, kStackTrace, kCompletionHandlersClosed}"

lemma sched_flags_mem:
  assumes "sched_flags st = sched_flags st'"
    and "f \<in> {kNeedSignal, kHaveSignal, kSuspended, kTerminated, kStackTrace, kCompletionHandlersClosed}"
  shows "f \<in> st \<longleftrightarrow> f \<in> st'"
  using assms unfolding sched_flags_def by blast

lemma sched_flags_update [simp]:
  "sched_flags (insert kSleepTimerLock st) = sched_flags st"
  "sched_flags (insert kSleepTimerLockSuspend st) = sched_flags st"
  "sched_flags (insert kCompletionHandlersLock st) = sched_flags st"
  "sched_flags (st - {kSleepTimerLock}) = sched_flags st"
  "sched_flags (st - {kSleepTimerLockSuspend}) = sched_flags st"
  "sched_flags (st - {kCompletionHandlersLock}) = sched_flags st"
  by (auto simp: sched_flags_def)

lemma task_ok_frame:
  assumes ok: "task_ok own sig s" and pcs: "t_pcs s' = (t_pcs s)(t := pc)"
    and pc: "pc_phase pc = pc_phase (t_pcs s t)" "pc = T_event {kHaveSignal} \<longleftrightarrow> t_pcs s t = T_event {kHaveSignal}"
      "closing pc \<longleftrightarrow> closing (t_pcs s t)" "pc_ok pc own (t_body s)"
    and st: "sched_flags (t_state s') = sched_flags (t_state s)"
    and eq: "t_self s' = t_self s" "t_body s' = t_body s" "t_result s' = t_result s"
      "t_callbacks s' = t_callbacks s" "t_activations s' = t_activations s" "t_panic s' = t_panic s"
  shows "task_ok own sig s'"
proof -
  note m = sched_flags_mem [OF st, simplified]
  have "owner_phase own (t_pcs s') = owner_phase own (t_pcs s)"
    using pc(1) pcs by (cases own) auto
  moreover have "is_ready_state (t_state s') = is_ready_state (t_state s)"
    by (simp add: is_ready_state_def m)
  moreover have "owner_ok own (t_pcs s') (t_activations s')"
    using ok pc(1) by (auto simp: task_ok_def owner_ok_def pcs eq)
  moreover have "signal_ok sig (t_pcs s') (t_callbacks s') (t_result s')"
    using ok pc(2) by (auto simp: task_ok_def signal_ok_def pcs eq)
  moreover have "closing_ok own (t_pcs s') (t_body s') (kCompletionHandlersClosed \<in> t_state s')"
    using ok pc(3) by (auto simp: task_ok_def closing_ok_def pcs eq m split: if_splits)
  moreover have "\<forall>u. pc_ok (t_pcs s' u) own (t_body s')"
    using ok pc(4) by (simp add: task_ok_def pcs eq)
  ultimately show ?thesis using ok by (simp add: task_ok_def flags_ok_def eq m)
qed

lemma task_ok_goto:
  assumes "task_ok own sig s"
    and "pc_phase pc = pc_phase (t_pcs s t)" "pc = T_event {kHaveSignal} \<longleftrightarrow> t_pcs s t = T_event {kHaveSignal}"
      "closing pc \<longleftrightarrow> closing (t_pcs s t)" "pc_ok pc own (t_body s)"
  shows "task_ok own sig (goto t pc s)"
  by (rule task_ok_frame [OF assms(1) _ assms(2-5)]) (simp_all add: goto_def)

lemma task_ok_goto_state:
  assumes "task_ok own sig s" and "sched_flags st = sched_flags (t_state s)"
    and "pc_phase pc = pc_phase (t_pcs s t)" "pc = T_event {kHaveSignal} \<longleftrightarrow> t_pcs s t = T_event {kHaveSignal}"
      "closing pc \<longleftrightarrow> closing (t_pcs s t)" "pc_ok pc own (t_body s)"
  shows "task_ok own sig (goto t pc (s\<lparr>t_state := st\<rparr>))"
  by (rule task_ok_frame [OF assms(1) _ assms(3-6)]) (simp_all add: goto_def assms(2))

lemma pc_phase_not_suspended: "pc_phase pc \<noteq> Some P_suspended"
  by (cases pc) auto

lemma owner_suspended:
  "owner_ok own pcs n \<Longrightarrow> owner_phase own pcs = P_suspended \<Longrightarrow> own = Nobody"
  using pc_phase_not_suspended by (cases own) (auto simp: owner_ok_def, metis option.sel)

text \<open>The owner of a step, from the control point of its thread.\<close>

lemma task_ok_owner:
  assumes "task_ok own sig s" and "pc_phase (t_pcs s t) = Some ph"
  shows "own = Thread t" and "owner_phase own (t_pcs s) = ph"
proof -
  show "own = Thread t" using assms unfolding task_ok_def owner_ok_def by (metis option.distinct(1))
  with assms(2) show "owner_phase own (t_pcs s) = ph" by simp
qed

lemma task_ok_not_owner:
  assumes "task_ok own sig s" and "pc_phase (t_pcs s t) = None"
  shows "own \<noteq> Thread t"
  using assms unfolding task_ok_def owner_ok_def by metis

lemma owner_ok_cases:
  assumes "owner_ok own pcs n"
  shows "pc_phase pc \<noteq> None \<Longrightarrow> own = Thread t \<Longrightarrow> owner_ok (Thread t) (pcs(t := pc)) n"
    and "pc_phase pc = None \<Longrightarrow> own = Thread t \<Longrightarrow> owner_ok Nobody (pcs(t := pc)) n"
    and "pc_phase pc = None \<Longrightarrow> own = Thread t \<Longrightarrow> owner_ok Executor (pcs(t := pc)) (Suc n)"
    and "pc_phase pc \<noteq> None \<Longrightarrow> own = Nobody \<Longrightarrow> owner_ok (Thread t) (pcs(t := pc)) n"
    and "pc_phase pc \<noteq> None \<Longrightarrow> own = Executor \<Longrightarrow> owner_ok (Thread t) (pcs(t := pc)) 0"
    and "pc_phase pc = None \<Longrightarrow> own \<noteq> Thread t \<Longrightarrow> owner_ok own (pcs(t := pc)) n"
  using assms by (auto simp: owner_ok_def)

lemma signal_ok_other:
  assumes "signal_ok sig pcs n result" and "pc \<noteq> T_event {kHaveSignal}" and "pcs t \<noteq> T_event {kHaveSignal}"
  shows "signal_ok sig (pcs(t := pc)) n result"
  using assms by (auto simp: signal_ok_def)

text \<open>
  A step that changes the phase, the owner or the signal: while the task has an owner or has not
  finished, no thread closes the list of handlers.
\<close>

lemma task_ok_move:
  assumes ok: "task_ok own sig s" and live: "own \<noteq> Nobody \<or> t_body s \<noteq> B_exited"
    and pcs: "t_pcs s' = (t_pcs s)(t := pc)"
    and own': "owner_ok own' (t_pcs s') (t_activations s')"
    and sig': "signal_ok sig' (t_pcs s') (t_callbacks s') (t_result s')"
    and flags': "flags_ok (owner_phase own' (t_pcs s')) (t_body s') sig' (t_state s') (t_self s') (t_result s')"
    and pc: "pc_ok pc own' (t_body s')"
    and closed: "kCompletionHandlersClosed \<in> t_state s' \<longleftrightarrow> kCompletionHandlersClosed \<in> t_state s"
    and fine: "t_panic s' = t_panic s"
  shows "\<exists>own sig. task_ok own sig s'"
proof -
  have nc: "\<not> closing (t_pcs s u)" for u
  proof
    assume "closing (t_pcs s u)"
    moreover have "pc_ok (t_pcs s u) own (t_body s)" using ok by (simp add: task_ok_def)
    ultimately show False using live by (cases "t_pcs s u") auto
  qed
  have "kCompletionHandlersClosed \<notin> t_state s" using ok live by (auto simp: task_ok_def closing_ok_def)
  then have "closing_ok own' (t_pcs s') (t_body s') (kCompletionHandlersClosed \<in> t_state s')"
    using nc by (auto simp: closing_ok_def pcs closed)
  moreover have "pc_ok (t_pcs s' u) own' (t_body s')" for u
  proof (cases "u = t")
    case False
    have "pc_ok (t_pcs s u) own (t_body s)" using ok by (simp add: task_ok_def)
    with False nc [of u] pcs show ?thesis by (cases "t_pcs s u") auto
  qed (use pc pcs in simp)
  ultimately show ?thesis using own' sig' flags' ok fine unfolding task_ok_def by blast
qed

lemma task_ok_flags:
  assumes "task_ok own sig s"
  shows "flags_ok (owner_phase own (t_pcs s)) (t_body s) sig (t_state s) (t_self s) (t_result s)"
    and "owner_ok own (t_pcs s) (t_activations s)" and "signal_ok sig (t_pcs s) (t_callbacks s) (t_result s)"
    and "pc_ok (t_pcs s t) own (t_body s)" and "\<not> t_panic s"
  using assms by (auto simp: task_ok_def)

lemmas flags_simps = flags_ok_def body_ok_def is_ready_state_def is_terminal_state_def is_running_state_def

lemma task_ok_sched:
  assumes ok: "task_ok own sig s" and pc: "t_pcs s t = T_sched obs"
  shows "\<exists>own sig. task_ok own sig (schedule_to_run obs t s)"
proof -
  have own: "own = Thread t" "owner_phase own (t_pcs s) = P_sched"
    using task_ok_owner [OF ok, of t P_sched] pc by auto
  have ready: "is_ready_state obs" using task_ok_flags(4) [OF ok, of t] pc by simp
  note fl = task_ok_flags(1) [OF ok, unfolded own(2)]
  show ?thesis
  proof (cases "t_state s = obs")
    case False
    have "task_ok own sig (goto t (T_sched (t_state s)) s)"
      by (rule task_ok_goto [OF ok]) (use pc fl in \<open>simp_all add: flags_ok_def\<close>)
    with False ready show ?thesis by (auto simp: schedule_to_run_def)
  next
    case True
    have self: "t_self s" using fl by (auto simp: flags_ok_def body_ok_def split: body_pc.splits)
    show ?thesis
      by (rule task_ok_move [OF ok, where t = t and pc = T_idle and own' = Executor and sig' = sig])
        (use own pc True ready self fl task_ok_flags(2,3) [OF ok] owner_ok_cases(3) [of own "t_pcs s" "t_activations s" T_idle t]
         in \<open>simp_all add: schedule_to_run_def goto_def signal_ok_other\<close>,
         auto simp: flags_simps split: body_pc.splits)
  qed
qed

lemma task_ok_event_own:
  assumes ok: "task_ok own sig s" and pc: "t_pcs s t = T_event m" and m: "m = {kSuspended} \<or> m = {kSuspended, kHaveSignal}"
  shows "\<exists>own sig. task_ok own sig (handle_event m T_idle t s)"
proof -
  define ph where "ph = (if m = {kSuspended} then P_suspending else P_ctor)"
  have own: "own = Thread t" "owner_phase own (t_pcs s) = ph"
    using task_ok_owner [OF ok, of t ph] pc m by (auto simp: ph_def)
  note fl = task_ok_flags(1) [OF ok, unfolded own(2)]
  define st where "st = t_state s \<union> m"
  have notsig: "t_pcs s t \<noteq> T_event {kHaveSignal}" using pc m by auto
  consider "is_ready_state st" | "is_terminal_state st" "\<not> is_ready_state st" "t_body s = B_exited"
    | "\<not> is_terminal_state st" "\<not> is_ready_state st" "t_body s \<noteq> B_exited"
    using fl m by (auto simp: st_def flags_simps)
  then show ?thesis
  proof cases
    case 1
    show ?thesis
      by (rule task_ok_move [OF ok, where t = t and pc = "T_sched st" and own' = "Thread t" and sig' = sig])
        (use own 1 fl m notsig task_ok_flags(2,3) [OF ok] owner_ok_cases(1) [of own "t_pcs s" "t_activations s" "T_sched st" t]
         in \<open>simp_all add: handle_event_def goto_def signal_ok_other Let_def flip: st_def\<close>,
         auto simp: flags_simps st_def ph_def split: body_pc.splits if_splits)
  next
    case 2
    show ?thesis
      by (rule task_ok_move [OF ok, where t = t and pc = T_complete_lock and own' = Nobody and sig' = sig])
        (use own 2 fl m notsig task_ok_flags(2,3) [OF ok] owner_ok_cases(2) [of own "t_pcs s" "t_activations s" T_complete_lock t]
         in \<open>simp_all add: handle_event_def goto_def signal_ok_other Let_def flags_ok_def flip: st_def\<close>,
         auto simp: flags_simps st_def ph_def split: body_pc.splits if_splits)
  next
    case 3
    show ?thesis
      by (rule task_ok_move [OF ok, where t = t and pc = T_idle and own' = Nobody and sig' = sig])
        (use own 3 fl m notsig task_ok_flags(2,3) [OF ok] owner_ok_cases(2) [of own "t_pcs s" "t_activations s" T_idle t]
         in \<open>simp_all add: handle_event_def goto_def signal_ok_other Let_def flip: st_def\<close>,
         auto simp: flags_simps st_def ph_def split: body_pc.splits if_splits)
  qed
qed

text \<open>
  The signal: if the task is suspended without an owner it becomes ready, and this thread schedules it;
  otherwise the owner will see the flag.
\<close>

lemma task_ok_event_signal:
  assumes ok: "task_ok own sig s" and pc: "t_pcs s t = T_event {kHaveSignal}"
  shows "\<exists>own sig. task_ok own sig (handle_event {kHaveSignal} T_idle t s)"
proof -
  have sig: "sig = Flying t" "t_result s" and sig_other: "\<And>u. t_pcs s u = T_event {kHaveSignal} \<longleftrightarrow> u = t"
    and cb: "t_callbacks s = 0"
    using task_ok_flags(3) [OF ok] pc unfolding signal_ok_def by (metis task_signal.inject task_signal.distinct)+
  have notown: "own \<noteq> Thread t" by (rule task_ok_not_owner [OF ok]) (simp add: pc)
  note fl = task_ok_flags(1) [OF ok]
  define st where "st = insert kHaveSignal (t_state s)"
  have nt: "\<not> is_terminal_state st" "t_body s \<noteq> B_exited" "kNeedSignal \<in> t_state s" "kHaveSignal \<notin> t_state s"
    using fl sig(1) by (auto simp: st_def flags_simps split: body_pc.splits)
  show ?thesis
  proof (cases "is_ready_state st")
    case True
    then have own: "own = Nobody" using fl nt
      by (intro owner_suspended [OF task_ok_flags(2) [OF ok]]) (auto simp: st_def flags_simps split: body_pc.splits)
    show ?thesis
      by (rule task_ok_move [OF ok, where t = t and pc = "T_sched st" and own' = "Thread t" and sig' = No_signal])
        (use own True fl sig cb sig_other nt task_ok_flags(2) [OF ok] owner_ok_cases(4) [of own "t_pcs s" "t_activations s" "T_sched st" t]
         in \<open>simp_all add: handle_event_def goto_def Let_def signal_ok_def flip: st_def\<close>,
         auto simp: flags_simps st_def split: body_pc.splits if_splits)
  next
    case False
    have ph: "owner_phase own ((t_pcs s)(t := T_idle)) = owner_phase own (t_pcs s)" using notown by (cases own) auto
    show ?thesis
      by (rule task_ok_move [OF ok, where t = t and pc = T_idle and own' = own and sig' = No_signal])
        (use notown False fl sig cb sig_other nt ph task_ok_flags(2) [OF ok] owner_ok_cases(6) [of own "t_pcs s" "t_activations s" T_idle t]
         in \<open>simp_all add: handle_event_def goto_def Let_def signal_ok_def flip: st_def\<close>,
         auto simp: flags_simps st_def split: body_pc.splits if_splits)
  qed
qed

lemma task_ok_resume:
  assumes ok: "task_ok own sig s" and pc: "t_pcs s t = T_run_resume"
  shows "\<exists>own sig. task_ok own sig (run_step T_run_resume t s)"
proof -
  have own: "own = Thread t" "owner_phase own (t_pcs s) = P_resuming"
    using task_ok_owner [OF ok, of t P_resuming] pc by auto
  note fl = task_ok_flags(1) [OF ok, unfolded own(2)]
  have self: "t_self s" "kStackTrace \<notin> t_state s"
    using fl by (auto simp: flags_simps split: body_pc.splits)
  show ?thesis
    by (rule task_ok_move [OF ok, where t = t and pc = T_body and own' = "Thread t" and sig' = sig])
      (use own self fl pc task_ok_flags(2,3) [OF ok] owner_ok_cases(1) [of own "t_pcs s" "t_activations s" T_body t]
       in \<open>simp_all add: run_step_def goto_def signal_ok_other\<close>,
       auto simp: flags_simps split: body_pc.splits)
qed

lemma task_ok_run_step:
  assumes ok: "task_ok own sig s" and pc: "t_pcs s t = pc"
    and "pc \<in> {T_run_load, T_run_resume, T_exit_load} \<or> (\<exists>obs. pc = T_run_lock obs \<or> pc = T_exit_cas obs)"
  shows "\<exists>own sig. task_ok own sig (run_step pc t s)"
proof (cases "pc = T_run_resume")
  case True
  with task_ok_resume [OF ok] pc show ?thesis by simp
next
  case False
  then consider "pc = T_run_load" | obs where "pc = T_run_lock obs" | "pc = T_exit_load"
    | obs where "pc = T_exit_cas obs" using assms(3) by auto
  then have "task_ok own sig (run_step pc t s)"
  proof cases
    case 1
    with pc show ?thesis by (auto simp: run_step_def intro!: task_ok_goto [OF ok])
  next
    case 2
    with pc show ?thesis by (auto simp: run_step_def intro!: task_ok_goto [OF ok] task_ok_goto_state [OF ok])
  next
    case 3
    with pc show ?thesis by (auto simp: run_step_def intro!: task_ok_goto [OF ok])
  next
    case 4
    with pc show ?thesis by (auto simp: run_step_def intro!: task_ok_goto [OF ok] task_ok_goto_state [OF ok])
  qed
  then show ?thesis by blast
qed

lemma task_ok_complete_step:
  assumes ok: "task_ok own sig s" and pc: "t_pcs s t = pc"
    and "pc = T_complete_lock \<or> pc = T_complete_locked \<or> (\<exists>hs. pc = T_complete_unlock hs \<or> pc = T_invoke hs)"
  shows "\<exists>own sig. task_ok own sig (complete_step pc t s)"
proof (cases "pc = T_complete_locked")
  case True
  have own: "own = Nobody" "t_body s = B_exited" using task_ok_flags(4) [OF ok, of t] pc True by simp_all
  have cl: "closing_ok own (t_pcs s) (t_body s) (kCompletionHandlersClosed \<in> t_state s)"
    using ok by (simp add: task_ok_def)
  moreover have "closing (t_pcs s t)" by (simp add: pc True)
  ultimately have notclosed: "kCompletionHandlersClosed \<notin> t_state s" unfolding closing_ok_def by blast
  have "closing_ok own ((t_pcs s)(t := T_complete_unlock hs)) (t_body s) True" for hs
    using cl own pc True by (auto simp: closing_ok_def)
  moreover have "owner_ok own ((t_pcs s)(t := T_complete_unlock hs)) (t_activations s)" for hs
    using task_ok_flags(2) [OF ok] own(1) by (simp add: owner_ok_cases)
  moreover have "pc_ok (((t_pcs s)(t := T_complete_unlock hs)) u) own (t_body s)" for hs u
    using task_ok_flags(4) [OF ok, of u] by simp
  ultimately show ?thesis using own notclosed task_ok_flags [OF ok] pc True
    by (intro exI [of _ own] exI [of _ sig])
      (auto simp: task_ok_def complete_step_def goto_def signal_ok_other flags_simps)
next
  case False
  then consider "pc = T_complete_lock" | hs where "pc = T_complete_unlock hs" | hs where "pc = T_invoke hs"
    using assms(3) by auto
  then have "task_ok own sig (complete_step pc t s)"
  proof cases
    case 1
    have c: "own = Nobody" "t_body s = B_exited" using task_ok_flags(4) [OF ok, of t] pc 1 by auto
    with task_ok_flags(1) [OF ok] have "is_terminal_state (t_state s)" "\<not> t_self s" by (auto simp: flags_simps)
    moreover have "task_ok own sig (goto t pc' (s\<lparr>t_state := insert kCompletionHandlersLock (t_state s)\<rparr>))"
      if "pc' = T_complete_lock \<or> pc' = T_complete_locked" for pc'
      by (rule task_ok_goto_state [OF ok]) (use that pc 1 c in auto)
    ultimately show ?thesis using 1 by (simp add: complete_step_def try_spin_lock_def)
  next
    case 2
    with pc show ?thesis by (auto simp: complete_step_def spin_unlock_def intro!: task_ok_goto_state [OF ok])
  next
    case 3
    with pc show ?thesis
      by (intro task_ok_frame [OF ok, where t = t and pc = T_idle]) (auto simp: complete_step_def goto_def)
  qed
  then show ?thesis by blast
qed

lemma task_ok_dump_cas:
  assumes ok: "task_ok own sig s" and pc: "t_pcs s t = T_dump_cas obs"
  shows "\<exists>own sig. task_ok own sig (dump_step (T_dump_cas obs) t s)"
proof (cases "t_state s = obs \<and> \<not> is_running_state obs \<and> \<not> is_ready_state obs \<and>
    \<not> is_terminal_state obs \<and> kStackTrace \<notin> obs")
  case False
  have idle: "task_ok own sig (goto t T_idle s)" and again: "task_ok own sig (goto t (T_dump_cas (t_state s)) s)"
    by (rule task_ok_goto [OF ok]; simp add: pc)+
  from False show ?thesis using idle again by (auto simp: dump_step_def)
next
  case True
  note fl = task_ok_flags(1) [OF ok]
  have own: "own = Nobody" and body: "t_body s \<noteq> B_exited" using fl True
    by (auto simp: flags_simps intro!: owner_suspended [OF task_ok_flags(2) [OF ok]])
  show ?thesis
    by (rule task_ok_move [OF ok, where t = t and pc = T_dump_resume and own' = "Thread t" and sig' = sig])
      (use own body True fl pc task_ok_flags(2,3) [OF ok] owner_ok_cases(4) [of own "t_pcs s" "t_activations s" T_dump_resume t]
       in \<open>simp_all add: dump_step_def goto_def signal_ok_other\<close>,
       auto simp: flags_simps split: body_pc.splits if_splits)
qed

lemma task_ok_dump_clear:
  assumes ok: "task_ok own sig s" and pc: "t_pcs s t = T_dump_clear obs"
  shows "\<exists>own sig. task_ok own sig (dump_step (T_dump_clear obs) t s)"
proof -
  have own: "own = Thread t" "owner_phase own (t_pcs s) = P_dump"
    using task_ok_owner [OF ok, of t P_dump] pc by auto
  note fl = task_ok_flags(1) [OF ok, unfolded own(2)]
  have live: "t_body s \<noteq> B_exited" "kTerminated \<notin> t_state s" "kTerminated \<notin> obs"
    using fl task_ok_flags(4) [OF ok, of t] pc by (auto simp: flags_simps)
  define target where "target = insert kSuspended (obs - {kStackTrace})"
  have nt: "\<not> is_terminal_state target" using live(3) by (auto simp: target_def is_terminal_state_def)
  consider "t_state s \<noteq> obs" | "t_state s = obs" "is_ready_state target" | "t_state s = obs" "\<not> is_ready_state target" by blast
  then show ?thesis
  proof cases
    case 1
    have "task_ok own sig (goto t (T_dump_clear (t_state s)) s)"
      by (rule task_ok_goto [OF ok]) (use pc live in simp_all)
    with 1 nt show ?thesis by (auto simp: dump_step_def Let_def simp flip: target_def)
  next
    case 2
    show ?thesis
      by (rule task_ok_move [OF ok, where t = t and pc = "T_sched target" and own' = "Thread t" and sig' = sig])
        (use own 2 nt fl live pc task_ok_flags(2,3) [OF ok] owner_ok_cases(1) [of own "t_pcs s" "t_activations s" "T_sched target" t]
         in \<open>simp_all add: dump_step_def goto_def signal_ok_other Let_def flip: target_def\<close>,
         auto simp: flags_simps target_def split: body_pc.splits if_splits)
  next
    case 3
    show ?thesis
      by (rule task_ok_move [OF ok, where t = t and pc = T_idle and own' = Nobody and sig' = sig])
        (use own 3 nt fl live pc task_ok_flags(2,3) [OF ok] owner_ok_cases(2) [of own "t_pcs s" "t_activations s" T_idle t]
         in \<open>simp_all add: dump_step_def goto_def signal_ok_other Let_def flip: target_def\<close>,
         auto simp: flags_simps target_def split: body_pc.splits if_splits)
  qed
qed

lemma task_ok_dump_switch:
  assumes ok: "task_ok own sig s" and pc: "t_pcs s t = pc" and "pc = T_dump_resume \<or> pc = T_dump_bounce \<or> pc = T_dump_load"
  shows "\<exists>own sig. task_ok own sig (dump_step pc t s)"
proof -
  define ph where "ph = (if pc = T_dump_bounce then P_dumping else P_dump)"
  have own: "own = Thread t" "owner_phase own (t_pcs s) = ph"
    using task_ok_owner [OF ok, of t ph] assms(2,3) by (auto simp: ph_def)
  note fl = task_ok_flags(1) [OF ok, unfolded own(2)]
  have live: "kTerminated \<notin> t_state s" "kStackTrace \<in> t_state s" "t_self s \<longleftrightarrow> pc \<noteq> T_dump_bounce" "t_body s \<noteq> B_exited"
    using fl assms(3) by (auto simp: flags_simps ph_def split: if_splits)
  have flags: "flags_ok P_dump (t_body s) sig (t_state s) True (t_result s)"
    "flags_ok P_dumping (t_body s) sig (t_state s) False (t_result s)"
    using fl live(4) by (auto simp: flags_simps ph_def split: body_pc.splits if_splits)
  have goal: "\<exists>own sig. task_ok own sig (goto t pc' (s\<lparr>t_self := x\<rparr>))"
    if ph': "pc_phase pc' = Some (if x then P_dump else P_dumping)"
      and pc': "pc_ok pc' (Thread t) (t_body s)" "pc' \<noteq> T_event {kHaveSignal}" for pc' x
    by (rule task_ok_move [OF ok, where t = t and pc = pc' and own' = "Thread t" and sig' = sig])
      (use own(1) flags assms(2,3) ph' pc' task_ok_flags(2,3) [OF ok] owner_ok_cases(1) [of own "t_pcs s" "t_activations s" pc' t]
       in \<open>auto simp: goto_def signal_ok_other\<close>)
  consider "pc = T_dump_resume" | "pc = T_dump_bounce" | "pc = T_dump_load" using assms(3) by auto
  then show ?thesis
  proof cases
    case 1
    then show ?thesis using goal [of T_dump_bounce False] live by (simp add: dump_step_def)
  next
    case 2
    then show ?thesis using goal [of T_dump_load True] live by (simp add: dump_step_def)
  next
    case 3
    then show ?thesis using task_ok_goto [OF ok, of "T_dump_clear (t_state s)" t] pc live
      by (auto simp: dump_step_def)
  qed
qed

lemma task_ok_call_when_done:
  assumes ok: "task_ok own sig s" and pc: "t_pcs s t = pc"
    and "pc = T_cwd_unlock \<or> (\<exists>h. pc = T_cwd_check h \<or> pc = T_cwd_lock h \<or> pc = T_cwd_push h \<or> pc = T_cwd_retry h)"
  shows "task_ok own sig (call_when_done_step pc t s)"
proof -
  consider "pc = T_cwd_unlock" | h where "pc = T_cwd_check h" | h where "pc = T_cwd_lock h" | h where "pc = T_cwd_push h"
    | h where "pc = T_cwd_retry h" using assms(3) by auto
  then show ?thesis
  proof cases
    case 2
    have "task_ok own sig (goto t T_idle (s\<lparr>t_invoked := t_invoked s @ [h]\<rparr>))"
      by (rule task_ok_frame [OF ok, where t = t and pc = T_idle]) (use pc 2 in \<open>simp_all add: goto_def\<close>)
    with pc 2 show ?thesis by (auto simp: call_when_done_step_def intro!: task_ok_goto [OF ok])
  next
    case 4
    then show ?thesis
      by (intro task_ok_frame [OF ok, where t = t and pc = T_cwd_unlock])
        (use pc in \<open>simp_all add: call_when_done_step_def goto_def\<close>)
  qed (use pc in \<open>auto simp: call_when_done_step_def try_spin_lock_def spin_unlock_def Let_def
      intro!: task_ok_goto_state [OF ok]\<close>)
qed

subsection \<open>Steps of the body and of idle threads\<close>

lemma task_ok_body_inner:
  assumes ok: "task_ok own sig s" and pc: "t_pcs s t = T_body"
    and eq: "t_pcs s' = t_pcs s" "t_activations s' = t_activations s" "t_self s' = t_self s" "t_panic s' = t_panic s"
    and sig': "signal_ok sig' (t_pcs s) (t_callbacks s') (t_result s')"
    and flags': "flags_ok P_body (t_body s') sig' (t_state s') (t_self s) (t_result s')"
    and closed: "kCompletionHandlersClosed \<in> t_state s' \<longleftrightarrow> kCompletionHandlersClosed \<in> t_state s"
  shows "\<exists>own sig. task_ok own sig s'"
proof -
  have own: "own = Thread t" "owner_phase own (t_pcs s) = P_body"
    using task_ok_owner [OF ok, of t P_body] pc by auto
  show ?thesis
    by (rule task_ok_move [OF ok, where t = t and pc = T_body and own' = own and sig' = sig'])
      (use own assms task_ok_flags(2) [OF ok] in \<open>simp_all add: fun_upd_idem\<close>)
qed

lemma task_ok_body_yield:
  assumes ok: "task_ok own sig s" and pc: "t_pcs s t = T_body"
    and body: "t_body s \<in> {B_run, B_fn} \<and> body = t_body s \<or> t_body s = B_registered \<and> (body = B_registered \<or> body = B_return)"
  shows "\<exists>own sig. task_ok own sig (body_yield t (s\<lparr>t_body := body\<rparr>))"
proof -
  have own: "own = Thread t" "owner_phase own (t_pcs s) = P_body"
    using task_ok_owner [OF ok, of t P_body] pc by auto
  note fl = task_ok_flags(1) [OF ok, unfolded own(2)]
  show ?thesis
    by (rule task_ok_move [OF ok, where t = t and pc = T_exit_load and own' = "Thread t" and sig' = sig])
      (use own fl pc body task_ok_flags(2,3) [OF ok] owner_ok_cases(1) [of own "t_pcs s" "t_activations s" T_exit_load t]
       in \<open>simp_all add: body_yield_def goto_def signal_ok_other\<close>,
       auto simp: flags_simps split: body_pc.splits)
qed

lemma task_ok_body_await:
  assumes ok: "task_ok own sig s" and pc: "t_pcs s t = T_body" and body: "t_body s = B_run \<or> t_body s = B_timer"
  shows "\<exists>own sig. task_ok own sig (body_await s)"
proof -
  have own: "owner_phase own (t_pcs s) = P_body" using task_ok_owner [OF ok, of t P_body] pc by auto
  note fl = task_ok_flags(1) [OF ok, unfolded own]
  have "kHaveSignal \<notin> t_state s" "sig = No_signal" using fl body by (auto simp: flags_simps)
  then show ?thesis
    by (intro task_ok_body_inner [OF ok pc, where sig' = No_signal])
      (use fl body task_ok_flags(3) [OF ok] in \<open>auto simp: body_await_def flags_simps signal_ok_def\<close>)
qed

lemma task_ok_body_finish:
  assumes ok: "task_ok own sig s" and pc: "t_pcs s t = T_body" and body: "t_body s = B_run"
  shows "\<exists>own sig. task_ok own sig (handle_event {kTerminated} T_exit_load t (s\<lparr>t_body := B_exited\<rparr>))"
proof -
  have own: "own = Thread t" "owner_phase own (t_pcs s) = P_body"
    using task_ok_owner [OF ok, of t P_body] pc by auto
  note fl = task_ok_flags(1) [OF ok, unfolded own(2)]
  have "kSuspended \<notin> t_state s" using fl by (simp add: flags_ok_def)
  then have "\<not> is_ready_state (insert kTerminated (t_state s))" "\<not> is_terminal_state (insert kTerminated (t_state s))"
    by (auto simp: is_ready_state_def is_terminal_state_def)
  then show ?thesis
    by (intro task_ok_move [OF ok, where t = t and pc = T_exit_load and own' = "Thread t" and sig' = sig])
      (use own fl pc body task_ok_flags(2,3) [OF ok] owner_ok_cases(1) [of own "t_pcs s" "t_activations s" T_exit_load t]
       in \<open>simp_all add: handle_event_def Let_def goto_def signal_ok_other\<close>,
       auto simp: flags_simps)
qed

lemma task_ok_body_next:
  assumes ok: "task_ok own sig s" and pc: "t_pcs s t = T_body"
    and body: "t_body s \<in> {B_spin, B_timer, B_fn, B_registered, B_return}"
  shows "\<exists>own sig. task_ok own sig (body_step Do_next (t_body s) t s)"
proof -
  have own: "own = Thread t" "owner_phase own (t_pcs s) = P_body"
    using task_ok_owner [OF ok, of t P_body] pc by auto
  note fl = task_ok_flags(1) [OF ok, unfolded own(2)]
  consider "t_body s = B_spin" | "t_body s = B_timer" | "t_body s = B_fn" | "t_body s = B_registered" | "t_body s = B_return"
    using body by auto
  then show ?thesis
  proof cases
    case 1
    then show ?thesis
      by (intro task_ok_body_inner [OF ok pc, where sig' = sig])
        (use fl task_ok_flags(3) [OF ok] in \<open>auto simp: try_spin_lock_def flags_simps\<close>)
  next
    case 2
    then show ?thesis using task_ok_body_await [OF ok pc] by simp
  next
    case 3
    then have "sig = No_signal" using fl by (simp add: flags_simps)
    with 3 show ?thesis
      by (intro task_ok_body_inner [OF ok pc, where sig' = Registered])
        (use fl task_ok_flags(3) [OF ok] in \<open>auto simp: flags_simps signal_ok_def\<close>)
  next
    case 4
    then show ?thesis using task_ok_body_yield [OF ok pc, of B_return] by simp
  next
    case 5
    then have "t_result s" using fl by (auto simp: flags_simps)
    with 5 show ?thesis
      by (intro task_ok_body_inner [OF ok pc, where sig' = sig])
        (use fl task_ok_flags(3) [OF ok] in \<open>auto simp: spin_unlock_def flags_simps\<close>)
  qed
qed

lemma task_ok_body_step:
  assumes ok: "task_ok own sig s" and pc: "t_pcs s t = T_body"
  shows "\<exists>own sig. task_ok own sig (body_step x (t_body s) t s)"
proof -
  have yield: "\<exists>own sig. task_ok own sig (body_yield t s)" if "t_body s = B_run \<or> t_body s = B_fn \<or> t_body s = B_registered"
    using task_ok_body_yield [OF ok pc, of "t_body s"] that by auto
  have sleep: "\<exists>own sig. task_ok own sig (s\<lparr>t_body := B_spin\<rparr>)" if "t_body s = B_run"
    using task_ok_owner(2) [OF ok, of t P_body] task_ok_flags(1,3) [OF ok] pc that
    by (intro task_ok_body_inner [OF ok pc, where sig' = sig]) (auto simp: flags_simps)
  show ?thesis
    by (cases x; cases "t_body s")
      (use ok sleep task_ok_body_await [OF ok pc] task_ok_body_finish [OF ok pc] task_ok_body_next [OF ok pc]
         yield in auto)
qed

lemma task_ok_thread_step:
  assumes ok: "task_ok own sig s"
  shows "\<exists>own sig. task_ok own sig (task_thread_step t s)"
proof (cases "t_pcs s t")
  case (T_event m)
  with task_ok_flags(4) [OF ok, of t] consider "m = {kHaveSignal}" | "m = {kSuspended} \<or> m = {kSuspended, kHaveSignal}" by auto
  then show ?thesis
    using task_ok_event_signal [OF ok] task_ok_event_own [OF ok T_event] T_event
    by cases (auto simp: task_thread_step_def)
next
  case (T_sched obs)
  then show ?thesis using task_ok_sched [OF ok T_sched] by (simp add: task_thread_step_def)
next
  case (T_dump_cas obs)
  then show ?thesis using task_ok_dump_cas [OF ok T_dump_cas] by (simp add: task_thread_step_def)
next
  case (T_dump_clear obs)
  then show ?thesis using task_ok_dump_clear [OF ok T_dump_clear] by (simp add: task_thread_step_def)
next
  case T_wake_locked
  then have "task_ok own sig (goto t T_idle (spin_unlock kSleepTimerLock s))"
    unfolding spin_unlock_def by (intro task_ok_goto_state [OF ok]) simp_all
  with T_wake_locked show ?thesis by (auto simp: task_thread_step_def)
qed (use ok task_ok_run_step [OF ok refl, of t] task_ok_complete_step [OF ok refl, of t]
    task_ok_dump_switch [OF ok refl, of t] task_ok_call_when_done [OF ok refl, of t]
    in \<open>auto simp: task_thread_step_def\<close>)

lemma task_ok_signal:
  assumes ok: "task_ok own sig s" and pc: "t_pcs s t = T_idle" and cb: "t_callbacks s > 0"
  shows "\<exists>own sig. task_ok own sig
    (goto t (T_event {kHaveSignal}) (s\<lparr>t_callbacks := t_callbacks s - 1, t_result := True\<rparr>))"
proof -
  have sig: "sig = Registered" "t_callbacks s = 1" and none: "\<And>u. t_pcs s u \<noteq> T_event {kHaveSignal}"
    using task_ok_flags(3) [OF ok] cb by (auto simp: signal_ok_def split: if_splits)
  have notown: "own \<noteq> Thread t" by (rule task_ok_not_owner [OF ok]) (simp add: pc)
  note fl = task_ok_flags(1) [OF ok]
  have body: "t_body s \<noteq> B_exited" using fl sig by (auto simp: flags_simps)
  have ph: "owner_phase own ((t_pcs s)(t := T_event {kHaveSignal})) = owner_phase own (t_pcs s)"
    using notown by (cases own) auto
  show ?thesis
    by (rule task_ok_move [OF ok, where t = t and pc = "T_event {kHaveSignal}" and own' = own and sig' = "Flying t"])
      (use notown body ph fl sig none task_ok_flags(2) [OF ok]
         owner_ok_cases(6) [of own "t_pcs s" "t_activations s" "T_event {kHaveSignal}" t]
       in \<open>simp_all add: goto_def signal_ok_def\<close>, auto simp: flags_simps split: body_pc.splits)
qed

lemma task_ok_activate:
  assumes ok: "task_ok own sig s" and pc: "t_pcs s t = T_idle" and act: "t_activations s > 0"
  shows "\<exists>own sig. task_ok own sig (goto t T_run_load (s\<lparr>t_activations := t_activations s - 1\<rparr>))"
proof -
  have own: "own = Executor" "t_activations s = 1" using task_ok_flags(2) [OF ok] act by (auto simp: owner_ok_def split: if_splits)
  show ?thesis
    by (rule task_ok_move [OF ok, where t = t and pc = T_run_load and own' = "Thread t" and sig' = sig])
      (use own pc task_ok_flags(1-3) [OF ok] owner_ok_cases(5) [of own "t_pcs s" "t_activations s" T_run_load t]
       in \<open>simp_all add: goto_def signal_ok_other\<close>)
qed

definition task_inv :: "task \<Rightarrow> bool" where
  "task_inv s \<longleftrightarrow> (\<exists>own sig. task_ok own sig s)"

definition task_next :: "task \<Rightarrow> task \<Rightarrow> bool" where
  "task_next s s' \<longleftrightarrow> (\<exists>e. s' = task_step e s)"

lemma task_inv_step:
  assumes "task_inv s"
  shows "task_inv (task_step e s)"
proof -
  obtain own sig where ok: "task_ok own sig s" using assms by (auto simp: task_inv_def)
  show ?thesis
  proof (cases e)
    case (Ev_step t)
    with task_ok_thread_step [OF ok] show ?thesis by (simp add: task_inv_def)
  next
    case (Ev_body t x)
    with task_ok_body_step [OF ok, of t x] assms show ?thesis by (simp add: task_inv_def)
  next
    case (Ev_signal t)
    with task_ok_signal [OF ok, of t] assms show ?thesis by (simp add: task_inv_def)
  next
    case (Ev_activate t)
    with task_ok_activate [OF ok, of t] assms show ?thesis by (simp add: task_inv_def)
  next
    case (Ev_dump t)
    with task_ok_goto [OF ok, of "T_dump_cas (t_state s)" t] ok show ?thesis
      unfolding task_inv_def by (cases "t_pcs s t = T_idle") (simp, blast)+
  next
    case (Ev_wake t)
    have "task_ok own sig (goto t T_wake_locked (s\<lparr>t_state := insert kSleepTimerLock (t_state s)\<rparr>))"
      if "t_pcs s t = T_idle" by (rule task_ok_goto_state [OF ok]) (simp_all add: that)
    with Ev_wake ok show ?thesis
      unfolding task_inv_def by (cases "t_pcs s t = T_idle") (simp add: try_spin_lock_def insert_absorb, blast)+
  next
    case (Ev_call_when_done t h)
    with task_ok_goto [OF ok, of "T_cwd_check h" t] ok show ?thesis
      unfolding task_inv_def by (cases "t_pcs s t = T_idle") (simp, blast)+
  qed
qed

interpretation task_system: invariant_system Task_init task_next task_inv
  by unfold_locales (use task_ok_init in \<open>auto simp: task_inv_def [of Task_init] task_next_def intro: task_inv_step\<close>)

subsection \<open>Consequences\<close>

lemma task_run_reachable: "task_next\<^sup>*\<^sup>* Task_init (task_run es)"
  unfolding task_run_def
proof (induction es rule: rev_induct)
  case (snoc e es)
  then show ?case by (auto simp: task_next_def intro: rtranclp.rtrancl_into_rtrancl)
qed simp

lemma flags_ok_waiting:
  assumes "flags_ok ph body sig st self result" and "kSuspended \<in> st" and "kTerminated \<notin> st"
    and "\<not> is_ready_state st"
  shows "ph \<in> {P_dump, P_dumping} \<or> kNeedSignal \<in> st \<and> kHaveSignal \<notin> st \<and> (sig \<noteq> No_signal \<or> body = B_fn)"
  using assms by (cases body; cases ph) (simp_all add: flags_simps, auto)

lemma schedule_alone:
  assumes "task_ok own sig s" and "t_pcs s t = T_sched obs"
  shows "t_activations (task_thread_step t (task_thread_step t s)) = 1"
proof -
  have own: "own = Thread t" "owner_phase own (t_pcs s) = P_sched"
    using task_ok_owner [OF assms(1), of t P_sched] assms(2) by auto
  have "is_ready_state obs" "is_ready_state (t_state s)" "t_self s" "t_activations s = 0"
    using task_ok_flags(1,2) [OF assms(1)] task_ok_flags(4) [OF assms(1), of t] own assms(2)
    by (auto simp: flags_ok_def body_ok_def owner_ok_def split: body_pc.splits)
  then show ?thesis using assms(2)
    by (simp add: task_thread_step_def schedule_to_run_def goto_def)
qed

text \<open>
  C2 (safety). In every interleaving of the steps of the threads, with preemptions at every point where the trampoline can
  force one, at most one party holds the suspended context of a task: there is at most one pending activation, and while
  there is none at most one thread is between the decision to schedule the task and the end of its suspension, runs the
  body, or collects its stack trace. So the context is never resumed twice, and the checks of the code on the state word, on
  \<^verbatim>\<open>self_\<close>, on the result of an await and on the list of completion handlers never fail. (The checks on the
  variables of the trampoline of a thread and on \<^verbatim>\<open>scheduler_\<close> are not part of the model.)
\<close>

theorem Task_one_owner:
  assumes "task_next\<^sup>*\<^sup>* Task_init s"
  shows "\<not> t_panic s \<and> t_activations s \<le> 1 \<and>
    (\<forall>t u. pc_phase (t_pcs s t) \<noteq> None \<and> pc_phase (t_pcs s u) \<noteq> None \<longrightarrow> t = u) \<and>
    (\<forall>t. t_activations s = 1 \<longrightarrow> pc_phase (t_pcs s t) = None)"
proof -
  obtain own sig where ok: "task_ok own sig s"
    using task_system.execution_invar [OF assms] by (auto simp: task_inv_def)
  have own: "\<And>t. pc_phase (t_pcs s t) \<noteq> None \<longleftrightarrow> own = Thread t" and act: "t_activations s = (if own = Executor then 1 else 0)"
    using task_ok_flags(2) [OF ok] by (simp_all add: owner_ok_def)
  have "\<not> t_panic s" using task_ok_flags(5) [OF ok] .
  moreover have "t = u" if "pc_phase (t_pcs s t) \<noteq> None" "pc_phase (t_pcs s u) \<noteq> None" for t u
    using that own [of t] own [of u] by simp
  moreover have "pc_phase (t_pcs s t) = None" if "t_activations s = 1" for t
  proof -
    have "own \<noteq> Thread t" using that act by (cases own) simp_all
    with own [of t] show ?thesis by blast
  qed
  moreover have "t_activations s \<le> 1" using act by simp
  ultimately show ?thesis by blast
qed

lemmas task_eval = task_run_def Task_init_def goto_def panic_def handle_event_def schedule_to_run_def try_spin_lock_def
  spin_unlock_def run_step_def complete_step_def dump_step_def call_when_done_step_def task_thread_step_def
  body_await_def body_yield_def is_running_state_def is_ready_state_def is_terminal_state_def Let_def

text \<open>A run in which the signal of an \<^verbatim>\<open>await\<close> arrives while the task is on its way to be suspended.\<close>

definition example_await :: "task_event list" where
  "example_await = [Ev_step 0, Ev_step 0, Ev_activate 1, Ev_step 1, Ev_step 1, Ev_body 1 Do_await, Ev_body 1 Do_next,
     Ev_body 1 Do_next, Ev_signal 2, Ev_step 1, Ev_step 2, Ev_step 1]"

theorem Task_one_owner_witness:
  "\<not> t_panic (task_run example_await) \<and> t_pcs (task_run example_await) 1 = T_sched {kNeedSignal, kHaveSignal, kSuspended}"
proof -
  have "t_pcs (task_run example_await) 1 = T_sched {kNeedSignal, kHaveSignal, kSuspended}"
    by (simp add: task_eval example_await_def insert_commute)
  moreover have "task_next\<^sup>*\<^sup>* Task_init (task_run example_await)"
    by (rule task_run_reachable)
  ultimately show ?thesis using Task_one_owner by blast
qed

text \<open>
  C9 (liveness). A wake-up can be lost in one way only. In every interleaving, whenever the task is ready to run (it is suspended and needs no signal, or
  has got the one it needs, and no stack trace is being taken) some thread is about to schedule it, and two steps of that
  thread alone hand it to the executor. A suspended task that has not finished and is not ready is having its stack trace taken
  by a thread that will look again, or has not got its signal, whose callback is still pending or is being called; or, the one
  case in which nothing will wake it, it was preempted inside the function passed to \<^verbatim>\<open>await\<close>, before that function had
  handed on the handler.
\<close>

theorem Task_no_lost_wakeup:
  assumes "task_next\<^sup>*\<^sup>* Task_init s"
  shows "(is_ready_state (t_state s) \<longrightarrow>
      (\<exists>t obs. t_pcs s t = T_sched obs \<and> t_activations (task_thread_step t (task_thread_step t s)) = 1)) \<and>
    (kSuspended \<in> t_state s \<and> kTerminated \<notin> t_state s \<and> \<not> is_ready_state (t_state s) \<longrightarrow>
      (\<exists>t. t_pcs s t \<in> {T_dump_resume, T_dump_bounce, T_dump_load} \<or> (\<exists>obs. t_pcs s t = T_dump_clear obs)) \<or>
      kNeedSignal \<in> t_state s \<and> kHaveSignal \<notin> t_state s \<and>
        (t_callbacks s = 1 \<or> (\<exists>t. t_pcs s t = T_event {kHaveSignal}) \<or> t_body s = B_fn))"
proof -
  obtain own sig where ok: "task_ok own sig s"
    using task_system.execution_invar [OF assms] by (auto simp: task_inv_def)
  note fl = task_ok_flags(1) [OF ok]
  have owner: "\<exists>t. pc_phase (t_pcs s t) = Some ph" if ph: "owner_phase own (t_pcs s) = ph" "ph \<in> {P_sched, P_dump, P_dumping}" for ph
  proof -
    obtain t where t: "own = Thread t" using ph by (cases own) auto
    with task_ok_flags(2) [OF ok] have "pc_phase (t_pcs s t) \<noteq> None" by (simp add: owner_ok_def)
    with t ph show ?thesis by auto
  qed
  have "\<exists>t obs. t_pcs s t = T_sched obs" if "is_ready_state (t_state s)"
  proof -
    have "owner_phase own (t_pcs s) = P_sched" using fl that by (simp add: flags_ok_def)
    then obtain t where "pc_phase (t_pcs s t) = Some P_sched" using owner by blast
    then show ?thesis by (cases "t_pcs s t") (auto split: if_splits)
  qed
  moreover have "\<exists>t. t_pcs s t \<in> {T_dump_resume, T_dump_bounce, T_dump_load} \<or> (\<exists>obs. t_pcs s t = T_dump_clear obs)"
    if ph: "owner_phase own (t_pcs s) \<in> {P_dump, P_dumping}"
  proof -
    obtain t where t: "pc_phase (t_pcs s t) \<in> {Some P_dump, Some P_dumping}" using owner ph by fastforce
    then show ?thesis by (cases "t_pcs s t") (auto split: if_splits)
  qed
  moreover have "t_callbacks s = 1 \<or> (\<exists>t. t_pcs s t = T_event {kHaveSignal})" if "sig \<noteq> No_signal"
    using that task_ok_flags(3) [OF ok] by (cases sig) (auto simp: signal_ok_def)
  ultimately show ?thesis using schedule_alone [OF ok] flags_ok_waiting [OF fl] by blast
qed

theorem Task_no_lost_wakeup_witness:
  "\<exists>t obs. t_pcs (task_run example_await) t = T_sched obs \<and>
     t_activations (task_thread_step t (task_thread_step t (task_run example_await))) = 1"
proof -
  have "is_ready_state (t_state (task_run example_await))"
    by (simp add: task_eval example_await_def)
  moreover have "task_next\<^sup>*\<^sup>* Task_init (task_run example_await)"
    by (rule task_run_reachable)
  ultimately show ?thesis using Task_no_lost_wakeup by blast
qed

subsection \<open>The completion handlers\<close>

text \<open>
  The spin lock of the list of completion handlers: one thread at a time is inside, nothing is added to
  the list after it has been closed, and a finished task has a thread that closes it.
\<close>

fun hlocked :: "task_pc \<Rightarrow> bool" where
  "hlocked T_complete_locked = True"
| "hlocked (T_complete_unlock _) = True"
| "hlocked (T_cwd_push _) = True"
| "hlocked T_cwd_unlock = True"
| "hlocked (T_cwd_retry _) = True"
| "hlocked _ = False"

definition handlers_ok :: "task \<Rightarrow> bool" where
  "handlers_ok s \<longleftrightarrow>
     (\<forall>t u. hlocked (t_pcs s t) \<and> hlocked (t_pcs s u) \<longrightarrow> t = u) \<and>
     (\<forall>t. hlocked (t_pcs s t) \<longrightarrow> kCompletionHandlersLock \<in> t_state s) \<and>
     (\<forall>t h. t_pcs s t = T_cwd_push h \<longrightarrow> kCompletionHandlersClosed \<notin> t_state s) \<and>
     (kCompletionHandlersClosed \<in> t_state s \<longrightarrow> t_handlers s = []) \<and>
     (is_terminal_state (t_state s) \<longrightarrow> kCompletionHandlersClosed \<in> t_state s \<or> (\<exists>t. closing (t_pcs s t)))"

lemma handlers_ok_frame:
  assumes ok: "handlers_ok s" and pcs: "t_pcs s' = (t_pcs s)(t := pc)"
    and pc: "hlocked pc \<longrightarrow> pc = t_pcs s t" "closing (t_pcs s t) \<longrightarrow> closing pc"
    and st: "kCompletionHandlersLock \<in> t_state s' \<longleftrightarrow> kCompletionHandlersLock \<in> t_state s"
      "kCompletionHandlersClosed \<in> t_state s' \<longleftrightarrow> kCompletionHandlersClosed \<in> t_state s"
      "is_terminal_state (t_state s') \<longrightarrow> is_terminal_state (t_state s) \<or> closing pc"
    and hs: "t_handlers s' = t_handlers s"
  shows "handlers_ok s'"
proof -
  have locked: "hlocked (t_pcs s' u) \<longrightarrow> t_pcs s' u = t_pcs s u" for u using pc(1) by (simp add: pcs)
  have push: "t_pcs s' u = T_cwd_push h \<longrightarrow> t_pcs s u = T_cwd_push h" for u h
    using locked [of u] by (metis hlocked.simps(3))
  have "\<exists>u. closing (t_pcs s' u)" if "closing (t_pcs s u)" for u
    using that pc(2) by (cases "u = t") (auto simp: pcs intro: exI [of _ t] exI [of _ u])
  moreover have "closing pc \<longrightarrow> (\<exists>u. closing (t_pcs s' u))" by (auto simp: pcs intro: exI [of _ t])
  ultimately have "is_terminal_state (t_state s') \<longrightarrow>
      kCompletionHandlersClosed \<in> t_state s' \<or> (\<exists>u. closing (t_pcs s' u))"
    using ok st unfolding handlers_ok_def by blast
  moreover have "hlocked (t_pcs s' u) \<Longrightarrow> hlocked (t_pcs s u)" for u using locked [of u] by simp
  ultimately show ?thesis using ok st hs push unfolding handlers_ok_def by metis
qed

lemma handlers_okI:
  assumes "\<And>t u. hlocked (t_pcs s t) \<Longrightarrow> hlocked (t_pcs s u) \<Longrightarrow> t = u"
    and "\<And>t. hlocked (t_pcs s t) \<Longrightarrow> kCompletionHandlersLock \<in> t_state s"
    and "\<And>t h. t_pcs s t = T_cwd_push h \<Longrightarrow> kCompletionHandlersClosed \<notin> t_state s"
    and "kCompletionHandlersClosed \<in> t_state s \<Longrightarrow> t_handlers s = []"
    and "is_terminal_state (t_state s) \<Longrightarrow> kCompletionHandlersClosed \<notin> t_state s \<Longrightarrow> \<exists>t. closing (t_pcs s t)"
  shows "handlers_ok s"
  using assms unfolding handlers_ok_def by blast

lemma handlers_okD:
  assumes "handlers_ok s"
  shows "hlocked (t_pcs s t) \<Longrightarrow> hlocked (t_pcs s u) \<Longrightarrow> t = u"
    and "hlocked (t_pcs s t) \<Longrightarrow> kCompletionHandlersLock \<in> t_state s"
    and "t_pcs s t = T_cwd_push h \<Longrightarrow> kCompletionHandlersClosed \<notin> t_state s"
    and "kCompletionHandlersClosed \<in> t_state s \<Longrightarrow> t_handlers s = []"
    and "is_terminal_state (t_state s) \<Longrightarrow> kCompletionHandlersClosed \<notin> t_state s \<Longrightarrow> \<exists>t. closing (t_pcs s t)"
  using assms unfolding handlers_ok_def by blast+

lemma closing_kept:
  assumes "\<exists>u. closing (pcs u)" and "closing (pcs t) \<longrightarrow> closing pc"
  shows "\<exists>u. closing ((pcs(t := pc)) u)"
proof -
  obtain u where u: "closing (pcs u)" using assms(1) by blast
  show ?thesis
  proof (cases "u = t")
    case True
    with u assms(2) show ?thesis by (intro exI [of _ t]) simp
  qed (use u in \<open>intro exI [of _ u], simp\<close>)
qed

lemma handlers_ok_acquire:
  assumes ok: "handlers_ok s" and free: "kCompletionHandlersLock \<notin> t_state s"
    and pc: "pc = T_complete_locked \<or> \<not> closing (t_pcs s t)" "hlocked pc"
      "\<forall>h. pc = T_cwd_push h \<longrightarrow> kCompletionHandlersClosed \<notin> t_state s"
  shows "handlers_ok (goto t pc (s\<lparr>t_state := insert kCompletionHandlersLock (t_state s)\<rparr>))"
proof -
  have none: "\<not> hlocked (t_pcs s u)" for u using ok free unfolding handlers_ok_def by blast
  then have push: "t_pcs s u \<noteq> T_cwd_push h" for u h by (metis hlocked.simps(3))
  have fin: "is_terminal_state (insert kCompletionHandlersLock (t_state s)) = is_terminal_state (t_state s)"
    by (simp add: is_terminal_state_def)
  have kept: "closing (t_pcs s t) \<longrightarrow> closing pc" using pc(1) by auto
  show ?thesis
    by (rule handlers_okI)
      (use none push pc(2,3) handlers_okD(4,5) [OF ok] closing_kept [of "t_pcs s" t pc, OF _ kept] in \<open>auto simp: goto_def fin split: if_splits\<close>)
qed

lemma handlers_ok_release:
  assumes ok: "handlers_ok s" and pc: "hlocked (t_pcs s t)" "\<not> closing (t_pcs s t)" "\<not> hlocked pc"
  shows "handlers_ok (goto t pc (s\<lparr>t_state := t_state s - {kCompletionHandlersLock}\<rparr>))"
proof -
  have only: "hlocked (t_pcs s u) \<Longrightarrow> u = t" for u using ok pc(1) unfolding handlers_ok_def by blast
  have push: "pc \<noteq> T_cwd_push h" for h using pc(3) by auto
  have fin: "is_terminal_state (t_state s - {kCompletionHandlersLock}) = is_terminal_state (t_state s)"
    by (simp add: is_terminal_state_def)
  have kept: "closing (t_pcs s t) \<longrightarrow> closing pc" using pc(2) by auto
  show ?thesis
    by (rule handlers_okI)
      (use only push pc(3) handlers_okD(3-5) [OF ok] closing_kept [of "t_pcs s" t pc, OF _ kept] in \<open>auto simp: goto_def fin split: if_splits\<close>)
qed

lemma handlers_ok_handle_event:
  assumes ok: "handlers_ok s" and m: "m \<in> {{kSuspended, kHaveSignal}, {kSuspended}, {kHaveSignal}, {kTerminated}}"
    and pc: "\<not> hlocked (t_pcs s t)" "\<not> closing (t_pcs s t)" "\<not> hlocked pc"
    and fine: "\<not> t_panic (handle_event m pc t s)"
  shows "handlers_ok (handle_event m pc t s)"
proof -
  have cl: "kCompletionHandlersLock \<notin> m" "kCompletionHandlersClosed \<notin> m" using m by auto
  have "is_terminal_state (t_state s \<union> m) \<longrightarrow> \<not> is_ready_state (t_state s \<union> m)"
    by (simp add: is_ready_state_def is_terminal_state_def)
  with fine pc show ?thesis
    by (intro handlers_ok_frame [OF ok, where t = t and pc = "t_pcs (handle_event m pc t s) t"])
      (auto simp: handle_event_def goto_def panic_def Let_def cl split: if_splits)
qed

lemma handlers_ok_simple:
  assumes "handlers_ok s" and "\<not> hlocked pc" and "\<not> closing (t_pcs s t)"
    and "t_pcs s' = (t_pcs s)(t := pc)" "t_handlers s' = t_handlers s"
    and "kCompletionHandlersLock \<in> t_state s' \<longleftrightarrow> kCompletionHandlersLock \<in> t_state s"
      "kCompletionHandlersClosed \<in> t_state s' \<longleftrightarrow> kCompletionHandlersClosed \<in> t_state s"
      "is_terminal_state (t_state s') \<longrightarrow> is_terminal_state (t_state s)"
  shows "handlers_ok s'"
  using assms by (intro handlers_ok_frame [OF assms(1), where t = t and pc = pc]) auto

lemma handlers_ok_thread_step:
  assumes ok: "handlers_ok s" and inv: "task_inv s" and fine: "\<not> t_panic (task_thread_step t s)"
  shows "handlers_ok (task_thread_step t s)"
proof (cases "t_pcs s t")
  case (T_event m)
  obtain own sig where "task_ok own sig s" using inv by (auto simp: task_inv_def)
  then have "m \<in> {{kSuspended, kHaveSignal}, {kSuspended}, {kHaveSignal}}"
    using task_ok_flags(4) [of own sig s t] T_event by simp
  then show ?thesis using handlers_ok_handle_event [OF ok, of m t T_idle] fine T_event
    by (auto simp: task_thread_step_def)
next
  case (T_sched obs)
  then show ?thesis using fine
    by (intro handlers_ok_simple [OF ok, where t = t and pc = "t_pcs (task_thread_step t s) t"])
      (auto simp: task_thread_step_def schedule_to_run_def goto_def panic_def Let_def is_terminal_state_def is_ready_state_def
        split: if_splits)
next
  case T_complete_lock
  show ?thesis
  proof (cases "kCompletionHandlersLock \<in> t_state s")
    case True
    then have "insert kCompletionHandlersLock (t_state s) = t_state s" by auto
    with T_complete_lock fine True show ?thesis
      by (intro handlers_ok_frame [OF ok, where t = t and pc = T_complete_lock])
        (auto simp: task_thread_step_def complete_step_def try_spin_lock_def goto_def panic_def split: if_splits)
  next
    case False
    with T_complete_lock fine handlers_ok_acquire [OF ok False, of T_complete_locked t] show ?thesis
      by (auto simp: task_thread_step_def complete_step_def try_spin_lock_def panic_def split: if_splits)
  qed
next
  case T_complete_locked
  have only: "hlocked (t_pcs s u) \<Longrightarrow> u = t" for u
    using handlers_okD(1) [OF ok, of u t] T_complete_locked by simp
  have lock: "kCompletionHandlersLock \<in> t_state s" using handlers_okD(2) [OF ok, of t] T_complete_locked by simp
  have push: "t_pcs s u \<noteq> T_cwd_push h" for u h
    using only [of u] T_complete_locked by (metis hlocked.simps(3) task_pc.distinct)
  show ?thesis using T_complete_locked fine lock
    by (intro handlers_okI) (auto simp: task_thread_step_def complete_step_def goto_def panic_def push dest: only split: if_splits)
next
  case (T_complete_unlock hs)
  then show ?thesis using handlers_ok_release [OF ok, of t "T_invoke hs"]
    by (simp add: task_thread_step_def complete_step_def spin_unlock_def)
next
  case (T_cwd_lock h)
  show ?thesis
  proof (cases "kCompletionHandlersLock \<in> t_state s")
    case True
    then have "insert kCompletionHandlersLock (t_state s) = t_state s" by auto
    with T_cwd_lock True show ?thesis
      by (intro handlers_ok_frame [OF ok, where t = t and pc = "T_cwd_lock h"])
        (auto simp: task_thread_step_def call_when_done_step_def try_spin_lock_def goto_def Let_def)
  next
    case False
    let ?pc = "if is_terminal_state (t_state s) \<or> kCompletionHandlersClosed \<in> t_state s then T_cwd_retry h else T_cwd_push h"
    from T_cwd_lock False handlers_ok_acquire [OF ok False, of ?pc t] show ?thesis
      by (auto simp: task_thread_step_def call_when_done_step_def try_spin_lock_def Let_def)
  qed
next
  case (T_cwd_push h)
  have only: "hlocked (t_pcs s u) \<Longrightarrow> u = t" for u
    using handlers_okD(1) [OF ok, of u t] T_cwd_push by simp
  have "kCompletionHandlersLock \<in> t_state s" "kCompletionHandlersClosed \<notin> t_state s"
    using handlers_okD(2,3) [OF ok, of t] T_cwd_push by simp_all
  then show ?thesis using T_cwd_push handlers_okD(5) [OF ok] closing_kept [of "t_pcs s" t T_cwd_unlock]
    by (intro handlers_okI) (auto simp: task_thread_step_def call_when_done_step_def goto_def dest: only split: if_splits)
next
  case T_cwd_unlock
  then show ?thesis using handlers_ok_release [OF ok, of t T_idle]
    by (simp add: task_thread_step_def call_when_done_step_def spin_unlock_def)
next
  case (T_cwd_retry h)
  then show ?thesis using handlers_ok_release [OF ok, of t "T_cwd_check h"]
    by (simp add: task_thread_step_def call_when_done_step_def spin_unlock_def)
next
  case (T_dump_clear obs)
  then show ?thesis using fine
    by (intro handlers_ok_simple [OF ok, where t = t and pc = "t_pcs (task_thread_step t s) t"])
      (auto simp: task_thread_step_def dump_step_def goto_def panic_def Let_def is_terminal_state_def split: if_splits)
qed (use ok fine in \<open>auto simp: task_thread_step_def run_step_def complete_step_def dump_step_def call_when_done_step_def
    spin_unlock_def goto_def panic_def is_terminal_state_def
    intro!: handlers_ok_simple [OF ok, where t = t and pc = "t_pcs (task_thread_step t s) t"] split: if_splits\<close>)

lemma handlers_ok_body_step:
  assumes ok: "handlers_ok s" and pc: "t_pcs s t = T_body" and fine: "\<not> t_panic (body_step x (t_body s) t s)"
  shows "handlers_ok (body_step x (t_body s) t s)"
proof -
  have inner: "handlers_ok s'" if "t_pcs s' = (t_pcs s)(t := pc')" "pc' = T_body \<or> pc' = T_exit_load" "t_handlers s' = t_handlers s"
    "kCompletionHandlersLock \<in> t_state s' \<longleftrightarrow> kCompletionHandlersLock \<in> t_state s"
    "kCompletionHandlersClosed \<in> t_state s' \<longleftrightarrow> kCompletionHandlersClosed \<in> t_state s"
    "is_terminal_state (t_state s') \<longrightarrow> is_terminal_state (t_state s)" for s' pc'
    by (rule handlers_ok_simple [OF ok, where t = t and pc = pc']) (use that pc in auto)
  have same: "t_pcs s = (t_pcs s)(t := T_body)" by (simp add: fun_upd_idem pc)
  have await: "handlers_ok (body_await s)" if "\<not> t_panic (body_await s)"
    using that same by (intro inner [of _ T_body]) (auto simp: body_await_def panic_def is_terminal_state_def split: if_splits)
  have yield: "handlers_ok (body_yield t (s\<lparr>t_body := b\<rparr>))" for b
    by (rule inner [of _ T_exit_load]) (auto simp: body_yield_def goto_def)
  have yield': "handlers_ok (body_yield t s)"
    by (rule inner [of _ T_exit_load]) (auto simp: body_yield_def goto_def)
  have field: "handlers_ok (s\<lparr>t_body := b\<rparr>)" for b by (rule inner [of _ T_body]) (use same in auto)
  have finish: "handlers_ok (handle_event {kTerminated} T_exit_load t (s\<lparr>t_body := B_exited\<rparr>))"
    if "\<not> t_panic (handle_event {kTerminated} T_exit_load t (s\<lparr>t_body := B_exited\<rparr>))"
    using handlers_ok_handle_event [OF field [of B_exited], of "{kTerminated}" t T_exit_load] that pc by simp
  show ?thesis
  proof (cases "x = Do_next \<and> t_body s \<in> {B_spin, B_fn, B_return}")
    case True
    with fine same show ?thesis
      by (intro inner [of _ T_body])
        (auto simp: try_spin_lock_def spin_unlock_def panic_def is_terminal_state_def split: if_splits)
  next
    case False
    then show ?thesis using ok fine await yield yield' field finish
      by (cases x; cases "t_body s") auto
  qed
qed

lemma handlers_ok_step:
  assumes ok: "handlers_ok s" and inv: "task_inv s"
  shows "handlers_ok (task_step e s)"
proof -
  have np: "\<not> t_panic (task_step e s)"
    using task_inv_step [OF inv] by (auto simp: task_inv_def task_ok_def)
  have idle: "handlers_ok s'" if "t_pcs s t = T_idle" "t_pcs s' = (t_pcs s)(t := pc)" "\<not> hlocked pc" "t_handlers s' = t_handlers s"
    "t_state s' = t_state s \<or> t_state s' = insert kSleepTimerLock (t_state s)" for s' t pc
    by (rule handlers_ok_simple [OF ok, where t = t and pc = pc]) (use that in \<open>auto simp: is_terminal_state_def\<close>)
  show ?thesis
  proof (cases e)
    case (Ev_step t)
    with np handlers_ok_thread_step [OF ok inv] show ?thesis by simp
  next
    case (Ev_body t x)
    with np handlers_ok_body_step [OF ok, of t x] ok show ?thesis by (cases "t_pcs s t = T_body") simp_all
  next
    case (Ev_wake t)
    have "s\<lparr>t_state := insert kSleepTimerLock (t_state s)\<rparr> = s" if "kSleepTimerLock \<in> t_state s"
      using that by (simp add: insert_absorb)
    with Ev_wake ok show ?thesis
      by (auto simp: try_spin_lock_def goto_def intro!: idle [where t = t and pc = T_wake_locked])
  next
    case (Ev_signal t)
    with ok show ?thesis by (auto simp: goto_def intro!: idle [where t = t and pc = "T_event {kHaveSignal}"])
  next
    case (Ev_activate t)
    with ok show ?thesis by (auto simp: goto_def intro!: idle [where t = t and pc = T_run_load])
  next
    case (Ev_dump t)
    with ok show ?thesis by (auto simp: goto_def intro!: idle [where t = t and pc = "T_dump_cas (t_state s)"])
  next
    case (Ev_call_when_done t h)
    with ok show ?thesis by (auto simp: goto_def intro!: idle [where t = t and pc = "T_cwd_check h"])
  qed
qed

interpretation task_handlers: invariant_system Task_init task_next "\<lambda>s. task_inv s \<and> handlers_ok s"
proof unfold_locales
  show "task_inv Task_init \<and> handlers_ok Task_init"
    using task_system.init_invar by (auto simp: Task_init_def is_terminal_state_def intro!: handlers_okI split: if_splits)
  show "\<And>s s'. task_inv s \<and> handlers_ok s \<Longrightarrow> task_next s s' \<Longrightarrow> task_inv s' \<and> handlers_ok s'"
    using task_inv_step handlers_ok_step by (auto simp: task_next_def)
qed

text \<open>
  No completion handler is left behind (so that every \<^verbatim>\<open>join\<close> returns): in every interleaving
  at most one thread is inside the list of completion handlers, nothing is in the list once it has been
  closed, and as long as a finished task has handlers in its list, a thread is on its way to take
  and run them.
\<close>

theorem Task_completion_handlers_not_lost:
  assumes "task_next\<^sup>*\<^sup>* Task_init s"
  shows "(\<forall>t u. hlocked (t_pcs s t) \<and> hlocked (t_pcs s u) \<longrightarrow> t = u) \<and>
    (kCompletionHandlersClosed \<in> t_state s \<longrightarrow> t_handlers s = []) \<and>
    (is_terminal_state (t_state s) \<and> t_handlers s \<noteq> [] \<longrightarrow> (\<exists>t. closing (t_pcs s t)))"
  using task_handlers.execution_invar [OF assms] unfolding handlers_ok_def by blast

text \<open>A handler is added after the body has returned, before the task is suspended for the last time.\<close>

definition example_join :: "task_event list" where
  "example_join = [Ev_step 0, Ev_step 0, Ev_activate 1, Ev_step 1, Ev_step 1, Ev_body 1 Do_finish,
     Ev_call_when_done 2 7, Ev_step 2, Ev_step 2, Ev_step 2, Ev_step 2, Ev_step 1, Ev_step 1]"

theorem Task_completion_handlers_not_lost_witness:
  "t_handlers (task_run example_join) = [7] \<and> (\<exists>t. closing (t_pcs (task_run example_join) t))"
proof -
  have "is_terminal_state (t_state (task_run example_join))" "t_handlers (task_run example_join) = [7]"
    by (simp_all add: task_eval example_join_def)
  moreover have "task_next\<^sup>*\<^sup>* Task_init (task_run example_join)"
    by (rule task_run_reachable)
  ultimately show ?thesis using Task_completion_handlers_not_lost by fastforce
qed

subsection \<open>Two ways to lose a task\<close>

text \<open>
  A task that was suspended in the function passed to \<^verbatim>\<open>await\<close> before it handed on its handler: it needs
  a signal and nobody can send one. Only the collection of a stack trace still touches it.
\<close>

fun lost_pc :: "task_pc \<Rightarrow> bool" where
  "lost_pc (T_event _) = False"
| "lost_pc (T_sched _) = False"
| "lost_pc T_run_load = False"
| "lost_pc (T_run_lock _) = False"
| "lost_pc T_run_resume = False"
| "lost_pc T_body = False"
| "lost_pc T_exit_load = False"
| "lost_pc (T_exit_cas _) = False"
| "lost_pc T_complete_lock = False"
| "lost_pc T_complete_locked = False"
| "lost_pc (T_dump_clear obs) = (kNeedSignal \<in> obs \<and> kHaveSignal \<notin> obs)"
| "lost_pc _ = True"

definition lost :: "task \<Rightarrow> bool" where
  "lost s \<longleftrightarrow> t_body s = B_fn \<and> {kNeedSignal, kSuspended} \<subseteq> t_state s \<and> kHaveSignal \<notin> t_state s \<and>
     kTerminated \<notin> t_state s \<and> t_callbacks s = 0 \<and> t_activations s = 0 \<and> (\<forall>t. lost_pc (t_pcs s t))"

lemma lost_goto: "lost s \<Longrightarrow> lost_pc pc \<Longrightarrow> lost (goto t pc s)"
  by (simp add: lost_def goto_def)

lemma lost_state:
  "lost s \<Longrightarrow> {kNeedSignal, kSuspended} \<subseteq> st \<Longrightarrow> kHaveSignal \<notin> st \<Longrightarrow> kTerminated \<notin> st \<Longrightarrow> lost (s\<lparr>t_state := st\<rparr>)"
  by (simp add: lost_def)

lemma lost_other:
  "lost (s\<lparr>t_self := x\<rparr>) = lost s" "lost (s\<lparr>t_handlers := hs\<rparr>) = lost s" "lost (s\<lparr>t_invoked := hs\<rparr>) = lost s"
  "lost (panic s) = lost s"
  by (simp_all add: lost_def panic_def)

lemma lost_step:
  assumes "lost s"
  shows "lost (task_step e s)"
proof (cases e)
  case (Ev_step t)
  have pc: "lost_pc (t_pcs s t)" using assms by (simp add: lost_def)
  have lock: "lost (s\<lparr>t_state := insert f (t_state s)\<rparr>)" "lost (s\<lparr>t_state := t_state s - {f}\<rparr>)"
    if "f \<in> {kSleepTimerLock, kCompletionHandlersLock, kStackTrace}" for f
    using assms that by (auto simp: lost_def)
  show ?thesis
  proof (cases "t_pcs s t")
    case (T_dump_clear obs)
    with pc assms Ev_step show ?thesis
      by (auto simp: task_thread_step_def dump_step_def Let_def lost_other is_ready_state_def
          intro!: lost_goto lost_state)
        (auto simp: lost_def)
  next
    case (T_complete_unlock hs)
    with assms Ev_step lock [of kCompletionHandlersLock] show ?thesis
      by (auto simp: task_thread_step_def complete_step_def spin_unlock_def intro!: lost_goto)
  qed (use pc assms Ev_step lock [of kSleepTimerLock] lock [of kCompletionHandlersLock] lock [of kStackTrace]
      in \<open>auto simp: task_thread_step_def complete_step_def dump_step_def call_when_done_step_def
        spin_unlock_def try_spin_lock_def Let_def lost_other intro!: lost_goto\<close>, auto simp: lost_def goto_def)
next
  case (Ev_body t x)
  moreover have "t_pcs s t \<noteq> T_body" using assms unfolding lost_def by (metis lost_pc.simps(6))
  ultimately show ?thesis using assms by simp
qed (use assms in \<open>auto simp: lost_def goto_def try_spin_lock_def\<close>)

text \<open>
  A task can be suspended for ever inside \<^verbatim>\<open>await\<close>: \<^verbatim>\<open>await_impl\<close> sets \<^verbatim>\<open>kNeedSignal\<close> before it
  calls the function that starts the operation, and if that function activates a task of higher
  priority on the same thread before it has handed on the handler, the trampoline suspends this task;
  with \<^verbatim>\<open>kNeedSignal\<close> set it is not ready, is not rescheduled, and its handler is never handed on. No
  continuation of the run ever resumes it.
\<close>

theorem Task_preempted_in_await_is_lost:
  "\<exists>es. t_pcs (task_run es) 1 = T_idle \<and>
     (\<forall>es'. t_body (task_run (es @ es')) = B_fn \<and> kSuspended \<in> t_state (task_run (es @ es')))"
proof -
  let ?es = "[Ev_step 0, Ev_step 0, Ev_activate 1, Ev_step 1, Ev_step 1, Ev_body 1 Do_await, Ev_body 1 Do_preempt,
     Ev_step 1, Ev_step 1]"
  have idle: "t_pcs (task_run ?es) 1 = T_idle" by (simp add: task_eval)
  have "lost (task_run ?es)" by (simp add: task_eval lost_def)
  then have "lost (task_run (?es @ es'))" for es'
    by (induction es' rule: rev_induct) (simp_all only: task_run_def append_Nil2 fold_append comp_apply fold.simps id_apply
        append_assoc [symmetric] lost_step)
  then have "t_body (task_run (?es @ es')) = B_fn \<and> kSuspended \<in> t_state (task_run (?es @ es'))" for es'
    by (simp add: lost_def)
  with idle show ?thesis by blast
qed

text \<open>
  The body spins for the sleep timer lock although no thread holds it.
\<close>

fun spinning_pc :: "task_pc \<Rightarrow> bool" where
  "spinning_pc T_idle = True"
| "spinning_pc T_body = True"
| "spinning_pc (T_dump_cas _) = True"
| "spinning_pc (T_cwd_check _) = True"
| "spinning_pc (T_cwd_lock _) = True"
| "spinning_pc (T_cwd_push _) = True"
| "spinning_pc T_cwd_unlock = True"
| "spinning_pc (T_cwd_retry _) = True"
| "spinning_pc _ = False"

definition spinning :: "task \<Rightarrow> bool" where
  "spinning s \<longleftrightarrow> t_body s = B_spin \<and> kSleepTimerLock \<in> t_state s \<and> kSuspended \<notin> t_state s \<and>
     t_callbacks s = 0 \<and> t_activations s = 0 \<and> (\<forall>t. spinning_pc (t_pcs s t))"

lemma spinning_step:
  assumes "spinning s"
  shows "spinning (task_step e s)"
proof (cases e)
  case (Ev_step t)
  have pc: "spinning_pc (t_pcs s t)" using assms by (simp add: spinning_def)
  with assms Ev_step show ?thesis
    by (cases "t_pcs s t")
      (auto simp: spinning_def goto_def task_thread_step_def dump_step_def call_when_done_step_def
        spin_unlock_def try_spin_lock_def is_running_state_def Let_def)
next
  case (Ev_body t x)
  with assms show ?thesis by (cases x) (auto simp: spinning_def try_spin_lock_def)
qed (use assms in \<open>auto simp: spinning_def goto_def try_spin_lock_def\<close>)

text \<open>
  A call of \<^verbatim>\<open>wake\<close> can make a later \<^verbatim>\<open>sleep\<close> of the task hang for ever: \<^verbatim>\<open>Task::run\<close> takes the
  sleep timer lock that \<^verbatim>\<open>wake\<close> holds on another thread for a lock of the task, releases it, and
  acquires it for the task at the next resume, although the task never asked for it and never releases
  it. When the body then calls \<^verbatim>\<open>sleep\<close> it spins for the lock; no thread holds it, no continuation of the
  run ever gets it out of the loop.
\<close>

theorem Task_wake_makes_sleep_hang:
  "\<exists>es. \<not> t_holds_timer (task_run es) \<and> (\<forall>t. t_pcs (task_run es) t \<noteq> T_wake_locked) \<and>
     (\<forall>es'. t_body (task_run (es @ es')) = B_spin)"
proof -
  let ?es = "[Ev_step 0, Ev_step 0, Ev_activate 1, Ev_step 1, Ev_step 1, Ev_wake 2, Ev_body 1 Do_yield, Ev_step 1,
     Ev_step 1, Ev_step 2, Ev_step 1, Ev_step 1, Ev_activate 1, Ev_step 1, Ev_step 1, Ev_step 1, Ev_body 1 Do_sleep]"
  have "spinning (task_run ?es)" "\<not> t_holds_timer (task_run ?es)" "\<forall>t. t_pcs (task_run ?es) t \<noteq> T_wake_locked"
    by (simp_all add: task_eval spinning_def)
  moreover from this(1) have "spinning (task_run (?es @ es'))" for es'
    by (induction es' rule: rev_induct) (simp_all only: task_run_def append_Nil2 fold_append comp_apply fold.simps id_apply
        append_assoc [symmetric] spinning_step)
  then have "t_body (task_run (?es @ es')) = B_spin" for es' by (simp add: spinning_def)
  ultimately show ?thesis by blast
qed

end
