(* ===== verification/Http_Decoder.thy ===== *)
theory Http_Decoder
  imports Http_Chunk
begin

section \<open>The chunk decoder as a buffer source\<close>

text \<open>
  Models \<^verbatim>\<open>HttpChunkDecoder\<close> of \<^verbatim>\<open>src/src/batteries/http/http_chunk_decoder.hpp\<close>: a buffer source that
  decodes the chunked coding of another buffer source without copying. The decoded buffers point into
  the memory of the inner source, so the decoder does not consume what it has decoded until its own
  client has consumed all of it; when the client asks for more than is decoded, it starts again from
  the decoder state at the last consumed position (the checkpoint). \<open>None\<close> is a failed check.
\<close>

record 's HttpChunkDecoder =
  hd_src :: 's
  decoder_checkpoint :: ChunkedDecoder
  decoder_latest :: ChunkedDecoder
  hd_done :: bool
  decoded_src_size :: nat
  output_available :: nat
  output_consumed :: nat
  decoded_chunks :: "u8 list list"

definition HttpChunkDecoder_init :: "'s \<Rightarrow> bool \<Rightarrow> 's HttpChunkDecoder" where
  "HttpChunkDecoder_init src consume_trailer_arg =
     \<lparr>hd_src = src, decoder_checkpoint = ChunkedDecoder_init consume_trailer_arg,
      decoder_latest = ChunkedDecoder_init consume_trailer_arg, hd_done = False, decoded_src_size = 0,
      output_available = 0, output_consumed = 0, decoded_chunks = []\<rparr>"

definition hd_size :: "'s HttpChunkDecoder \<Rightarrow> nat" where
  "hd_size h = output_available h - output_consumed h"

definition consume_from_src ::
    "(i64 \<Rightarrow> 's \<Rightarrow> 's option) \<Rightarrow> nat \<Rightarrow> 's HttpChunkDecoder \<Rightarrow> 's HttpChunkDecoder option" where
  "consume_from_src src_consume cnt h =
     map_option (\<lambda>s. h\<lparr>hd_src := s, decoded_src_size := decoded_src_size h - cnt\<rparr>) (src_consume (int cnt) (hd_src h))"

definition release_decoded_chunks ::
    "(i64 \<Rightarrow> 's \<Rightarrow> 's option) \<Rightarrow> 's HttpChunkDecoder \<Rightarrow> 's HttpChunkDecoder option" where
  "release_decoded_chunks src_consume h =
     consume_from_src src_consume (decoded_src_size h)
       (h\<lparr>output_available := 0, output_consumed := 0, decoded_chunks := [], decoder_checkpoint := decoder_latest h\<rparr>)"

text \<open>The loop over the fetched buffers: the decoder, \<^verbatim>\<open>n_to_consume_from_src\<close> and the status of an error.\<close>

fun decode_src_buffers ::
    "u8 list list \<Rightarrow> nat \<Rightarrow> 's HttpChunkDecoder \<Rightarrow> 's HttpChunkDecoder \<times> nat \<times> StatusCode option" where
  "decode_src_buffers [] n_to_consume h = (h, n_to_consume, None)"
| "decode_src_buffers (src_buffer # bufs) n_to_consume h =
     (case decode_chunked (decoder_latest h) src_buffer (decoded_chunks h) of
        (d, out, Inl st) \<Rightarrow> (h\<lparr>decoder_latest := d, decoded_chunks := out\<rparr>, n_to_consume, Some st)
      | (d, out, Inr result) \<Rightarrow>
          (let h1 = h\<lparr>decoder_latest := d, decoded_chunks := out,
                      decoded_src_size := decoded_src_size h + dr_bytes_consumed result\<rparr>;
               decoded_size = length (concat out);
               drop_chunks = (output_consumed h1 \<noteq> 0 \<and> output_consumed h1 \<ge> decoded_size);
               h2 = (if drop_chunks
                     then h1\<lparr>output_consumed := output_consumed h1 - decoded_size, decoded_chunks := [],
                             decoder_checkpoint := d\<rparr>
                     else h1);
               n = (if drop_chunks then n_to_consume + dr_bytes_consumed result else n_to_consume)
           in if dr_done result then (h2\<lparr>hd_done := True\<rparr>, n, None) else decode_src_buffers bufs n h2))"

text \<open>The statements after the inner fetch, up to the end of the loop body.\<close>

definition decode_fetched ::
    "(i64 \<Rightarrow> 's \<Rightarrow> 's option) \<Rightarrow> u8 list list \<Rightarrow> 's HttpChunkDecoder \<Rightarrow>
       ('s HttpChunkDecoder \<times> StatusCode option) option" where
  "decode_fetched src_consume bufs h =
     (case decode_src_buffers bufs 0
         (h\<lparr>decoded_src_size := 0, decoded_chunks := [], decoder_latest := decoder_checkpoint h\<rparr>) of
        (h1, n_to_consume, err) \<Rightarrow>
          do {
            h2 \<leftarrow> (if n_to_consume > 0 then consume_from_src src_consume n_to_consume h1 else Some h1);
            Some (h2\<lparr>output_available := length (concat (decoded_chunks h2))\<rparr>, err)
          })"

definition finish_with ::
    "(i64 \<Rightarrow> 's \<Rightarrow> 's option) \<Rightarrow> StatusCode \<Rightarrow> 's HttpChunkDecoder \<Rightarrow>
       ('s HttpChunkDecoder \<times> u8 list list awaited) option" where
  "finish_with src_consume st h =
     do {
       h' \<leftarrow> (if hd_size h = 0 then release_decoded_chunks src_consume h else Some h);
       Some (h', Ready (Inl st))
     }"

partial_function (option) decoder_fetch_loop ::
    "(i64 \<Rightarrow> 's \<Rightarrow> 's \<times> fetched) \<Rightarrow> (i64 \<Rightarrow> 's \<Rightarrow> 's option) \<Rightarrow> nat \<Rightarrow> 's HttpChunkDecoder \<Rightarrow>
       ('s HttpChunkDecoder \<times> u8 list list awaited) option" where
  "decoder_fetch_loop src_fetch src_consume min_count h =
     (if hd_size h < min_count then
        (if hd_done h then finish_with src_consume kEndOfStream h
         else case src_fetch (int (decoded_src_size h) + (int min_count - int (hd_size h))) (hd_src h) of
           (s, None) \<Rightarrow> None
         | (s, Some Blocked) \<Rightarrow> Some (h\<lparr>hd_src := s\<rparr>, Blocked)
         | (s, Some (Ready (Inl st))) \<Rightarrow>
             (if st = kEndOfStream then finish_with src_consume kClosedBeforeEndOfStream (h\<lparr>hd_src := s\<rparr>)
              else Some (h\<lparr>hd_src := s\<rparr>, Ready (Inl st)))
         | (s, Some (Ready (Inr bufs))) \<Rightarrow>
             Option.bind (decode_fetched src_consume bufs (h\<lparr>hd_src := s\<rparr>)) (\<lambda>(h1, err).
               case err of Some st \<Rightarrow> Some (h1, Ready (Inl st))
               | None \<Rightarrow> decoder_fetch_loop src_fetch src_consume min_count h1))
      else Option.bind (consume_buffers (decoded_chunks h) (output_consumed h))
             (\<lambda>bufs. Some (h, Ready (Inr bufs))))"

definition decoder_fetch ::
    "(i64 \<Rightarrow> 's \<Rightarrow> 's \<times> fetched) \<Rightarrow> (i64 \<Rightarrow> 's \<Rightarrow> 's option) \<Rightarrow> i64 \<Rightarrow> 's HttpChunkDecoder \<Rightarrow>
       's HttpChunkDecoder \<times> fetched" where
  "decoder_fetch src_fetch src_consume min_count_i h =
     (if min_count_i < 0 then (h, None)
      else case decoder_fetch_loop src_fetch src_consume (nat min_count_i) h of
        None \<Rightarrow> (h, None) | Some (h', r) \<Rightarrow> (h', Some r))"

definition decoder_consume ::
    "(i64 \<Rightarrow> 's \<Rightarrow> 's option) \<Rightarrow> i64 \<Rightarrow> 's HttpChunkDecoder \<Rightarrow> 's HttpChunkDecoder option" where
  "decoder_consume src_consume cnt h =
     (let output_consumed_i = int (output_consumed h) + cnt;
          h1 = h\<lparr>output_consumed := nat output_consumed_i\<rparr> in
      if output_consumed_i < 0 \<or> output_consumed h1 > output_available h1 then None
      else if output_consumed h1 = output_available h1 then release_decoded_chunks src_consume h1
      else Some h1)"

definition decoder_close_for_read ::
    "(i64 \<Rightarrow> 's \<Rightarrow> 's option) \<Rightarrow> 's HttpChunkDecoder \<Rightarrow> 's HttpChunkDecoder option" where
  "decoder_close_for_read src_consume h = release_decoded_chunks src_consume h"

subsection \<open>Decoding a part of the input\<close>

text \<open>The decoder goes from \<open>d\<close> to \<open>d'\<close> over \<open>xs\<close>, producing \<open>out\<close>, without an error and without reaching the
  end of the body.\<close>

definition decodes :: "ChunkedDecoder \<Rightarrow> u8 list \<Rightarrow> u8 list \<Rightarrow> ChunkedDecoder \<Rightarrow> bool" where
  "decodes d xs out d' \<longleftrightarrow> decode_bytes d xs = (d', out, Inr (False, []))"

lemma decodes_Nil [simp]: "decodes d [] out d' \<longleftrightarrow> out = [] \<and> d' = d"
  by (auto simp: decodes_def)

lemma decodes_then: "decodes d xs out d' \<Longrightarrow> decode_bytes d (xs @ ys) = prefix_output out (decode_bytes d' ys)"
  by (simp add: decodes_def decode_bytes_append)

lemma decodes_trans: "decodes d xs out d' \<Longrightarrow> decodes d' ys out' d'' \<Longrightarrow> decodes d (xs @ ys) (out @ out') d''"
  using decodes_then [of d xs out d' ys] by (simp add: decodes_def prefix_output_def)

lemma decodes_longer: "decodes d xs out d' \<Longrightarrow> decodes d (xs @ ys) out2 d2 \<Longrightarrow> length out \<le> length out2"
  by (auto simp: decodes_then prefix_output_def decodes_def [of d "xs @ ys"] split: prod.splits)

lemma decodes_ok: "decoder_ok d \<Longrightarrow> decodes d xs out d' \<Longrightarrow> decoder_ok d'"
  unfolding decodes_def by (rule decode_bytes_ok)

text \<open>A prefix of an input that decodes to the end of the body: no error, and the end only where the
  whole input has it.\<close>

lemma decode_bytes_suffix: "decode_bytes d xs = (d', out, Inr (fin, rest)) \<Longrightarrow> \<exists>pre. xs = pre @ rest"
proof (induction xs arbitrary: d out)
  case (Cons b xs)
  show ?case
  proof (cases "decode_byte d b")
    case (Next d1 o1)
    with Cons.prems obtain o2 where "decode_bytes d1 xs = (d', o2, Inr (fin, rest))" by (auto split: prod.splits)
    from Cons.IH [OF this] show ?thesis by (metis append_Cons)
  qed (use Cons.prems in auto)
qed simp

lemma decode_bytes_prefix_cases:
  assumes "decode_bytes d (xs @ ys) = (dF, data, Inr (True, rest))"
  obtains (more) d' out data' where "decodes d xs out d'" and "decode_bytes d' ys = (dF, data', Inr (True, rest))"
      and "data = out @ data'"
  | (finished) rest' where "decode_bytes d xs = (dF, data, Inr (True, rest'))" and "rest = rest' @ ys"
proof -
  obtain d' out r where 1: "decode_bytes d xs = (d', out, r)" by (metis prod_cases3)
  consider (1) st where "r = Inl st" | (2) rest' where "r = Inr (True, rest')" | (3) rest' where "r = Inr (False, rest')"
    by (metis (full_types) old.sum.exhaust surj_pair)
  then show ?thesis
  proof cases
    case 3
    with 1 decode_bytes_rest have "decodes d xs out d'" by (auto simp: decodes_def)
    moreover from decodes_then [OF this, of ys] assms obtain data' where
      "decode_bytes d' ys = (dF, data', Inr (True, rest))" "data = out @ data'"
      by (auto simp: prefix_output_def split: prod.splits)
    ultimately show ?thesis by (rule more)
  next
    case 2
    with 1 assms have "decode_bytes d xs = (dF, data, Inr (True, rest'))" "rest = rest' @ ys"
      by (auto simp: decode_bytes_append)
    then show ?thesis by (rule finished)
  qed (use 1 assms in \<open>auto simp: decode_bytes_append\<close>)
qed

text \<open>The loop over the fetched buffers. \<open>X\<close> is the data whose source bytes will be consumed: the client has
  consumed it before.\<close>

definition loop_inv ::
    "ChunkedDecoder \<Rightarrow> u8 list \<Rightarrow> u8 list \<Rightarrow> nat \<Rightarrow> nat \<Rightarrow> 's HttpChunkDecoder \<Rightarrow> bool" where
  "loop_inv c0 R X k0 n h \<longleftrightarrow>
     n \<le> decoded_src_size h \<and> decoded_src_size h \<le> length R \<and> output_consumed h + length X = k0 \<and>
     decodes c0 (take n R) X (decoder_checkpoint h) \<and>
     decodes (decoder_checkpoint h) (drop n (take (decoded_src_size h) R)) (concat (decoded_chunks h)) (decoder_latest h) \<and>
     (n = decoded_src_size h \<and> concat (decoded_chunks h) = [] \<or> output_consumed h = 0 \<or>
      output_consumed h < length (concat (decoded_chunks h)))"

lemma loop_inv_decodes:
  "loop_inv c0 R X k0 n h \<Longrightarrow> decodes c0 (take (decoded_src_size h) R) (X @ concat (decoded_chunks h)) (decoder_latest h)"
  using decodes_trans [of c0 "take n R" X "decoder_checkpoint h" "drop n (take (decoded_src_size h) R)"]
    append_take_drop_id [of n "take (decoded_src_size h) R"]
  by (simp add: loop_inv_def min_absorb1)

lemma decode_src_buffers_spec:
  fixes h :: "'s HttpChunkDecoder"
  assumes ok: "decoder_ok c0" and whole: "decode_bytes c0 R = (dF, data, Inr (True, rest))"
    and inv: "loop_inv c0 R X k0 n h" and R: "R = take (decoded_src_size h) R @ concat bufs @ R'" and "\<not> hd_done h"
  shows "\<exists>h' n' X'. decode_src_buffers bufs n h = (h', n', None) \<and> hd_src h' = hd_src h \<and>
     n' \<le> decoded_src_size h' \<and> decoder_ok (decoder_checkpoint h') \<and>
     (hd_done h' \<longrightarrow> decoded_src_size h' + length rest = length R \<and> data = X' @ concat (decoded_chunks h') \<and>
        output_consumed h' + length X' = k0) \<and>
     (\<not> hd_done h' \<longrightarrow>
        decoded_src_size h' = decoded_src_size h + length (concat bufs) \<and> loop_inv c0 R X' k0 n' h')"
  using inv R \<open>\<not> hd_done h\<close>
proof (induction bufs arbitrary: n h X)
  case Nil
  then have "decoder_ok (decoder_checkpoint h)" using ok decodes_ok by (auto simp: loop_inv_def)
  with Nil show ?case by (auto simp: loop_inv_def)
next
  case (Cons b bufs)
  let ?m = "decoded_src_size h"
  have dec: "decodes c0 (take ?m R) (X @ concat (decoded_chunks h)) (decoder_latest h)"
    using Cons.prems(1) by (rule loop_inv_decodes)
  have ck: "decoder_ok (decoder_checkpoint h)" "decoder_ok (decoder_latest h)"
    using ok Cons.prems(1) decodes_ok unfolding loop_inv_def by blast+
  have Rm: "R = take ?m R @ b @ concat bufs @ R'" using Cons.prems(2) by simp
  then have dR: "drop ?m R = b @ concat bufs @ R'" by (metis append_take_drop_id same_append_eq)
  have m: "?m + length b \<le> length R" using Rm Cons.prems(1) by (metis add_le_mono1 append_assoc length_append le_add1 length_take min_absorb2 loop_inv_def)
  have take_b: "take (?m + length b) R = take ?m R @ b" by (simp add: take_add dR)
  obtain dataL where L: "decode_bytes (decoder_latest h) (b @ concat bufs @ R') = (dF, dataL, Inr (True, rest))"
    "data = X @ concat (decoded_chunks h) @ dataL"
    using decodes_then [OF dec, of "b @ concat bufs @ R'", folded Rm] whole
    by (auto simp: prefix_output_def split: prod.splits)
  let ?drop = "\<lambda>out. output_consumed h \<noteq> 0 \<and> length (concat out) \<le> output_consumed h"
  have drop: "n = ?m \<and> concat (decoded_chunks h) = []"
    if "?drop out" "concat out = concat (decoded_chunks h) @ o1" for out o1
    using that Cons.prems(1) by (auto simp: loop_inv_def simp del: concat_eq_Nil_conv length_concat)
  from L(1) show ?case
  proof (cases rule: decode_bytes_prefix_cases)
    case (more d1 out1 data')
    obtain out where out: "decode_chunked (decoder_latest h) b (decoded_chunks h) =
        (d1, out, Inr \<lparr>dr_done = False, dr_bytes_consumed = length b\<rparr>)" "concat out = concat (decoded_chunks h) @ out1"
      using decode_chunked_refines [OF ck(2), of b d1 out1 "Inr (False, [])" "decoded_chunks h"] more(1)
      by (auto simp: decodes_def consumed_result_def)
    define h2 where "h2 = (if ?drop out
       then h\<lparr>decoder_latest := d1, decoded_src_size := ?m + length b,
              output_consumed := output_consumed h - length (concat out), decoded_chunks := [], decoder_checkpoint := d1\<rparr>
       else h\<lparr>decoder_latest := d1, decoded_chunks := out, decoded_src_size := ?m + length b\<rparr>)"
    define n2 where "n2 = (if ?drop out then n + length b else n)"
    define X2 where "X2 = (if ?drop out then X @ out1 else X)"
    have step: "decode_src_buffers (b # bufs) n h = decode_src_buffers bufs n2 h2"
      by (simp add: out h2_def n2_def Let_def)
    have "loop_inv c0 R X2 k0 n2 h2"
    proof (cases "?drop out")
      case True
      from drop [OF True out(2)] have n: "n = ?m" "concat (decoded_chunks h) = []" by auto
      have "decodes c0 (take (?m + length b) R) (X @ out1) d1"
        using decodes_trans [OF dec more(1)] n(2) by (simp add: take_b)
      with True n m out(2) Cons.prems(1) show ?thesis
        by (simp add: loop_inv_def h2_def n2_def X2_def del: concat_eq_Nil_conv length_concat)
    next
      case False
      have "decodes (decoder_checkpoint h) (drop n (take (?m + length b) R)) (concat out) d1"
        using decodes_trans [OF _ more(1), of "decoder_checkpoint h" "drop n (take ?m R)"] Cons.prems(1) out(2)
        by (simp add: loop_inv_def take_b)
      with False m Cons.prems(1) show ?thesis
        by (auto simp: loop_inv_def h2_def n2_def X2_def simp del: concat_eq_Nil_conv length_concat)
    qed
    moreover have "R = take (decoded_src_size h2) R @ concat bufs @ R'" "decoded_src_size h2 = ?m + length b"
      "\<not> hd_done h2" "hd_src h2 = hd_src h"
      using Rm Cons.prems(3) by (simp_all add: h2_def take_b)
    ultimately show ?thesis unfolding step using Cons.IH [of X2 n2 h2] by (simp add: add.assoc)
  next
    case (finished rest')
    then have len: "length rest' \<le> length b" using decode_bytes_rest by blast
    obtain out where out: "decode_chunked (decoder_latest h) b (decoded_chunks h) =
        (dF, out, Inr \<lparr>dr_done = True, dr_bytes_consumed = length b - length rest'\<rparr>)"
      "concat out = concat (decoded_chunks h) @ dataL"
      using decode_chunked_refines [OF ck(2) finished(1), of "decoded_chunks h"] by (auto simp: consumed_result_def)
    have total: "?m + (length b - length rest') + length rest = length R"
      using finished(2) len arg_cong [OF Rm, of length] Cons.prems(1) by (simp add: loop_inv_def)
    have okF: "decoder_ok dF" using decode_bytes_ok [OF ck(2) finished(1)] .
    show ?thesis
    proof (cases "?drop out")
      case True
      with drop [OF True out(2)] out total okF L(2) Cons.prems(1) show ?thesis
        by (intro exI [of _ "h\<lparr>decoder_latest := dF, decoded_chunks := [], decoded_src_size := ?m + (length b - length rest'),
              output_consumed := output_consumed h - length (concat out), decoder_checkpoint := dF, hd_done := True\<rparr>"]
            exI [of _ "n + (length b - length rest')"] exI [of _ "X @ dataL"])
          (simp add: Let_def loop_inv_def del: concat_eq_Nil_conv length_concat)
    next
      case False
      with out total ck L(2) Cons.prems(1) show ?thesis
        by (intro exI [of _ "h\<lparr>decoder_latest := dF, decoded_chunks := out, decoded_src_size := ?m + (length b - length rest'),
              hd_done := True\<rparr>"] exI [of _ n] exI [of _ X])
          (auto simp: Let_def loop_inv_def simp del: concat_eq_Nil_conv length_concat)
    qed
  qed
qed

text \<open>The byte that ends the body is not data.\<close>

lemma decode_byte_output: "decode_byte d b = Next d' out \<Longrightarrow> length out \<le> 1"
  by (auto simp: decode_byte_def ext_byte_def Let_def split: chunked_state.splits if_splits)

lemma decode_bytes_finished_length:
  "decode_bytes d xs = (d', out, Inr (True, rest)) \<Longrightarrow> length out < length xs"
proof (induction xs arbitrary: d out)
  case (Cons b xs)
  show ?case
  proof (cases "decode_byte d b")
    case (Next d1 o1)
    with Cons.prems obtain o2 where "decode_bytes d1 xs = (d', o2, Inr (True, rest))" "out = o1 @ o2"
      by (auto split: prod.splits)
    with Cons.IH [OF this(1)] decode_byte_output [OF Next] show ?thesis by simp
  qed (use Cons.prems in auto)
qed simp

lemma consume_buffers_drop:
  "k \<le> length (concat bufs) \<Longrightarrow> \<exists>bs. consume_buffers bufs k = Some bs \<and> concat bs = drop k (concat bufs)"
  by (induction bufs arbitrary: k) auto

subsection \<open>The decoder keeps the contract of a source\<close>

text \<open>
  A source that holds all its data: it refuses a request for more than it has, and any part of its
  data can be consumed at any time.
\<close>

locale resident_source = finite_source +
  assumes resident: "src_ok s \<Longrightarrow> length (remaining s) \<le> fetch_max s"
    and fetch_excess: "src_ok s \<Longrightarrow> length (remaining s) < n \<Longrightarrow>
      \<exists>s' st. src_fetch (int n) s = (s', Some (Ready (Inl st))) \<and> src_ok s' \<and> remaining s' = remaining s"
    and consume_any: "src_ok s \<Longrightarrow> k \<le> length (remaining s) \<Longrightarrow>
      \<exists>s'. src_consume (int k) s = Some s' \<and> src_ok s' \<and> remaining s' = drop k (remaining s)"

text \<open>
  The invariant of the decoder for an inner source whose data is an encoded body followed by \<open>tail\<close>, and
  the part of the body that its client has still to consume.
\<close>

definition decoder_inv :: "('s \<Rightarrow> bool) \<Rightarrow> ('s \<Rightarrow> u8 list) \<Rightarrow> u8 list \<Rightarrow> 's HttpChunkDecoder \<Rightarrow> bool" where
  "decoder_inv src_ok remaining tail h \<longleftrightarrow>
     src_ok (hd_src h) \<and> decoded_src_size h \<le> length (remaining (hd_src h)) \<and>
     output_available h = length (concat (decoded_chunks h)) \<and> output_consumed h \<le> output_available h \<and>
     (if hd_done h then tail = drop (decoded_src_size h) (remaining (hd_src h))
      else decoder_ok (decoder_checkpoint h) \<and>
           decodes (decoder_checkpoint h) (take (decoded_src_size h) (remaining (hd_src h)))
             (concat (decoded_chunks h)) (decoder_latest h) \<and>
           (\<exists>d data. decode_bytes (decoder_checkpoint h) (remaining (hd_src h)) = (d, data, Inr (True, tail))))"

definition decoder_remaining :: "('s \<Rightarrow> u8 list) \<Rightarrow> 's HttpChunkDecoder \<Rightarrow> u8 list" where
  "decoder_remaining remaining h =
     drop (output_consumed h)
       (if hd_done h then concat (decoded_chunks h)
        else fst (snd (decode_bytes (decoder_checkpoint h) (remaining (hd_src h)))))"

text \<open>What a fetch of \<open>n\<close> bytes gives when \<open>rem\<close> is left of the body.\<close>

definition fetch_result :: "u8 list \<Rightarrow> nat \<Rightarrow> 's HttpChunkDecoder \<Rightarrow> u8 list list StatusOr \<Rightarrow> bool" where
  "fetch_result rem n h r \<longleftrightarrow>
     (case r of
        Inr bs \<Rightarrow> n \<le> length (concat bs) \<and> length (concat bs) = hd_size h \<and> (\<exists>rest. rem = concat bs @ rest)
      | Inl st \<Rightarrow> length rem < n \<and>
          (n = Suc (length rem) \<longrightarrow> st = kEndOfStream \<and> hd_done h \<and> (rem = [] \<longrightarrow> decoded_src_size h = 0)))"

context resident_source
begin

lemma release_ok:
  assumes inv: "decoder_inv src_ok remaining tail h" and all: "output_consumed h = output_available h"
  shows "\<exists>h'. release_decoded_chunks src_consume h = Some h' \<and> decoder_inv src_ok remaining tail h' \<and>
    decoder_remaining remaining h' = decoder_remaining remaining h \<and> hd_done h' = hd_done h \<and> decoded_src_size h' = 0"
proof -
  let ?R = "remaining (hd_src h)" and ?m = "decoded_src_size h"
  obtain s' where s': "src_consume (int ?m) (hd_src h) = Some s'" "src_ok s'" "remaining s' = drop ?m ?R"
    using inv consume_any [of "hd_src h" ?m] by (auto simp: decoder_inv_def)
  define h' where "h' = h\<lparr>output_available := 0, output_consumed := 0, decoded_chunks := [],
     decoder_checkpoint := decoder_latest h, hd_src := s', decoded_src_size := 0\<rparr>"
  have rel: "release_decoded_chunks src_consume h = Some h'"
    using s'(1) by (simp add: release_decoded_chunks_def consume_from_src_def h'_def)
  show ?thesis
  proof (cases "hd_done h")
    case True
    with inv all s' rel show ?thesis
      by (auto simp: decoder_inv_def decoder_remaining_def h'_def)
  next
    case False
    then have dec: "decodes (decoder_checkpoint h) (take ?m ?R) (concat (decoded_chunks h)) (decoder_latest h)"
      using inv by (simp add: decoder_inv_def)
    have "decode_bytes (decoder_checkpoint h) ?R = prefix_output (concat (decoded_chunks h)) (decode_bytes (decoder_latest h) (drop ?m ?R))"
      using decodes_then [OF dec, of "drop ?m ?R"] by simp
    moreover have "decoder_ok (decoder_latest h)" using dec inv decodes_ok False by (auto simp: decoder_inv_def)
    ultimately show ?thesis using False inv all s' rel
      by (cases "decode_bytes (decoder_latest h) (drop ?m ?R)")
        (auto simp: decoder_inv_def decoder_remaining_def h'_def prefix_output_def)
  qed
qed

lemma decode_fetched_ok:
  assumes inv: "decoder_inv src_ok remaining tail h" and "\<not> hd_done h"
    and bufs: "remaining (hd_src h) = concat bufs @ R'" and more: "decoded_src_size h < length (concat bufs)"
  shows "\<exists>h'. decode_fetched src_consume bufs h = Some (h', None) \<and> decoder_inv src_ok remaining tail h' \<and>
    decoder_remaining remaining h' = decoder_remaining remaining h \<and>
    (hd_done h' \<or> length (remaining (hd_src h')) - decoded_src_size h' < length (remaining (hd_src h)) - decoded_src_size h)"
proof -
  let ?R = "remaining (hd_src h)" and ?c0 = "decoder_checkpoint h" and ?k0 = "output_consumed h"
  obtain dF data where whole: "decode_bytes ?c0 ?R = (dF, data, Inr (True, tail))" and ok: "decoder_ok ?c0"
    and dec: "decodes ?c0 (take (decoded_src_size h) ?R) (concat (decoded_chunks h)) (decoder_latest h)"
    using inv \<open>\<not> hd_done h\<close> by (auto simp: decoder_inv_def)
  let ?h0 = "h\<lparr>decoded_src_size := 0, decoded_chunks := [], decoder_latest := ?c0\<rparr>"
  have "loop_inv ?c0 ?R [] ?k0 0 ?h0" by (simp add: loop_inv_def)
  from decode_src_buffers_spec [OF ok whole this, of bufs R'] bufs \<open>\<not> hd_done h\<close>
  obtain h1 n X where 1: "decode_src_buffers bufs 0 ?h0 = (h1, n, None)" "hd_src h1 = hd_src h"
    "n \<le> decoded_src_size h1" "decoder_ok (decoder_checkpoint h1)"
    and 2: "hd_done h1 \<longrightarrow> decoded_src_size h1 + length tail = length ?R \<and> data = X @ concat (decoded_chunks h1) \<and>
        output_consumed h1 + length X = ?k0"
      "\<not> hd_done h1 \<longrightarrow> decoded_src_size h1 = length (concat bufs) \<and> loop_inv ?c0 ?R X ?k0 n h1"
    by auto
  have m1: "decoded_src_size h1 \<le> length ?R" using 2 bufs by (cases "hd_done h1") auto
  obtain s where s: "src_consume (int n) (hd_src h) = Some s" "src_ok s" "remaining s = drop n ?R"
    using consume_any [of "hd_src h" n] inv 1(3) m1 by (auto simp: decoder_inv_def)
  define h2 where "h2 = (if n > 0 then h1\<lparr>hd_src := s, decoded_src_size := decoded_src_size h1 - n\<rparr> else h1)"
  define h' where "h' = h2\<lparr>output_available := length (concat (decoded_chunks h2))\<rparr>"
  have fetched: "decode_fetched src_consume bufs h = Some (h', None)"
    using 1(1,2) s(1) by (simp add: decode_fetched_def consume_from_src_def h2_def h'_def)
  have h': "decoded_src_size h' = decoded_src_size h1 - n" "remaining (hd_src h') = drop n ?R" "src_ok (hd_src h')"
    "hd_done h' = hd_done h1" "decoded_chunks h' = decoded_chunks h1" "output_consumed h' = output_consumed h1"
    "decoder_checkpoint h' = decoder_checkpoint h1" "decoder_latest h' = decoder_latest h1"
    "output_available h' = length (concat (decoded_chunks h1))"
    using s 1(2) inv by (auto simp: h'_def h2_def decoder_inv_def)
  have k0: "?k0 \<le> length (concat (decoded_chunks h))" using inv by (simp add: decoder_inv_def)
  obtain data' where data: "data = concat (decoded_chunks h) @ data'"
    using decodes_then [OF dec, of "drop (decoded_src_size h) ?R"] whole by (auto simp: prefix_output_def split: prod.splits)
  show ?thesis
  proof (cases "hd_done h1")
    case True
    then have "decoded_src_size h1 = length ?R - length tail" "length tail \<le> length ?R" "data = X @ concat (decoded_chunks h1)"
      "output_consumed h1 + length X = ?k0" using 2 by auto
    moreover have "tail = drop (length ?R - length tail) ?R" using decode_bytes_suffix [OF whole] by auto
    moreover have "output_consumed h1 \<le> length (concat (decoded_chunks h1))"
      using calculation(3,4) k0 arg_cong [OF data, of length] by (simp del: length_concat)
    moreover have "drop (output_consumed h1) (concat (decoded_chunks h1)) = drop ?k0 data"
      using calculation(3,4) by (simp add: add.commute [of "output_consumed h1"] flip: calculation(4))
    ultimately show ?thesis
      using fetched h' True \<open>\<not> hd_done h\<close> whole 1(3) s(2)
      by (auto simp: decoder_inv_def decoder_remaining_def simp del: length_concat)
  next
    case False
    with 2 have m: "decoded_src_size h1 = length (concat bufs)" and inv1: "loop_inv ?c0 ?R X ?k0 n h1" by auto
    obtain ys where "take (decoded_src_size h1) ?R = take (decoded_src_size h) ?R @ ys"
      using append_take_drop_id [of "decoded_src_size h" "take (decoded_src_size h1) ?R"] more m
      by (metis less_imp_le min_absorb1 take_take)
    with loop_inv_decodes [OF inv1] decodes_longer [OF dec] have
      "length (concat (decoded_chunks h)) \<le> length (X @ concat (decoded_chunks h1))" by metis
    with k0 inv1 have c1: "output_consumed h1 \<le> length (concat (decoded_chunks h1))"
      by (auto simp: loop_inv_def simp del: length_concat concat_eq_Nil_conv)
    have X: "decodes ?c0 (take n ?R) X (decoder_checkpoint h1)" "output_consumed h1 + length X = ?k0"
      "decodes (decoder_checkpoint h1) (drop n (take (decoded_src_size h1) ?R)) (concat (decoded_chunks h1)) (decoder_latest h1)"
      using inv1 by (auto simp: loop_inv_def)
    obtain d1 data1 where d1: "decode_bytes (decoder_checkpoint h1) (drop n ?R) = (d1, data1, Inr (True, tail))" "data = X @ data1"
      using decodes_then [OF X(1), of "drop n ?R"] whole by (auto simp: prefix_output_def split: prod.splits)
    have "drop (output_consumed h1) data1 = drop ?k0 data" using X(2) d1(2) by (simp add: add.commute [of "output_consumed h1"] flip: X(2))
    moreover have "take (decoded_src_size h1 - n) (drop n ?R) = drop n (take (decoded_src_size h1) ?R)" by (simp add: drop_take)
    ultimately show ?thesis
      using fetched h' False \<open>\<not> hd_done h\<close> whole 1(3,4) m1 m more c1 X(3) d1
      by (auto simp: decoder_inv_def decoder_remaining_def simp del: length_concat)
  qed
qed

lemma fetch_enough:
  assumes inv: "decoder_inv src_ok remaining tail h" and n: "n \<le> hd_size h"
  shows "\<exists>r. decoder_fetch_loop src_fetch src_consume n h = Some (h, Ready r) \<and>
    fetch_result (decoder_remaining remaining h) n h r"
proof -
  have k: "output_consumed h \<le> length (concat (decoded_chunks h))" using inv by (simp add: decoder_inv_def)
  then obtain bs where bs: "consume_buffers (decoded_chunks h) (output_consumed h) = Some bs"
    "concat bs = drop (output_consumed h) (concat (decoded_chunks h))" using consume_buffers_drop by blast
  have len: "length (concat bs) = hd_size h" using bs(2) inv by (simp add: hd_size_def decoder_inv_def del: length_concat)
  have "\<exists>rest. decoder_remaining remaining h = concat bs @ rest"
  proof (cases "hd_done h")
    case False
    then obtain data where dec: "decodes (decoder_checkpoint h) (take (decoded_src_size h) (remaining (hd_src h)))
        (concat (decoded_chunks h)) (decoder_latest h)" using inv by (auto simp: decoder_inv_def)
    then show ?thesis
      using decodes_then [OF dec, of "drop (decoded_src_size h) (remaining (hd_src h))"] False bs(2) k
      by (auto simp: decoder_remaining_def prefix_output_def split: prod.splits simp del: length_concat)
  qed (simp add: decoder_remaining_def bs(2))
  with bs(1) len n show ?thesis
    by (subst decoder_fetch_loop.simps) (auto simp: fetch_result_def simp del: length_concat)
qed

lemma fetch_done:
  assumes inv: "decoder_inv src_ok remaining tail h" and "hd_done h"
  shows "\<exists>h' r. decoder_fetch_loop src_fetch src_consume n h = Some (h', Ready r) \<and>
    decoder_inv src_ok remaining tail h' \<and> decoder_remaining remaining h' = decoder_remaining remaining h \<and>
    fetch_result (decoder_remaining remaining h) n h' r"
proof (cases "n \<le> hd_size h")
  case True
  with fetch_enough [OF inv True] inv show ?thesis by blast
next
  case False
  have rem: "length (decoder_remaining remaining h) = hd_size h"
    using inv \<open>hd_done h\<close> by (simp add: decoder_remaining_def hd_size_def decoder_inv_def)
  show ?thesis
  proof (cases "hd_size h = 0")
    case True
    then have "output_consumed h = output_available h" using inv by (simp add: hd_size_def decoder_inv_def)
    with release_ok [OF inv this] True False rem \<open>hd_done h\<close> show ?thesis
      by (subst decoder_fetch_loop.simps) (auto simp: finish_with_def fetch_result_def)
  next
    case nz: False
    with False rem \<open>hd_done h\<close> inv show ?thesis
      by (subst decoder_fetch_loop.simps) (auto simp: finish_with_def fetch_result_def)
  qed
qed

lemma remaining_bound:
  assumes inv: "decoder_inv src_ok remaining tail h" and "\<not> hd_done h"
  shows "length (decoder_remaining remaining h) + decoded_src_size h < hd_size h + length (remaining (hd_src h))"
proof -
  let ?R = "remaining (hd_src h)" and ?m = "decoded_src_size h"
  obtain d data where dec: "decodes (decoder_checkpoint h) (take ?m ?R) (concat (decoded_chunks h)) (decoder_latest h)"
    and whole: "decode_bytes (decoder_checkpoint h) ?R = (d, data, Inr (True, tail))"
    using assms by (auto simp: decoder_inv_def)
  then obtain data' where d: "decode_bytes (decoder_latest h) (drop ?m ?R) = (d, data', Inr (True, tail))"
    "data = concat (decoded_chunks h) @ data'"
    using decodes_then [OF dec, of "drop ?m ?R"] by (auto simp: prefix_output_def split: prod.splits)
  have "length data' + ?m < length ?R" using decode_bytes_finished_length [OF d(1)] inv by (simp add: decoder_inv_def less_diff_conv)
  moreover have "length (decoder_remaining remaining h) = hd_size h + length data'"
    using whole d(2) \<open>\<not> hd_done h\<close> inv by (simp add: decoder_remaining_def hd_size_def decoder_inv_def del: length_concat)
  ultimately show ?thesis by simp
qed

lemma fetch_loop_ok:
  assumes "decoder_inv src_ok remaining tail h"
  shows "\<exists>h' r. decoder_fetch_loop src_fetch src_consume n h = Some (h', Ready r) \<and>
    decoder_inv src_ok remaining tail h' \<and> decoder_remaining remaining h' = decoder_remaining remaining h \<and>
    fetch_result (decoder_remaining remaining h) n h' r"
  using assms
proof (induction "length (remaining (hd_src h)) - decoded_src_size h" arbitrary: h rule: less_induct)
  case less
  let ?R = "remaining (hd_src h)" and ?m = "decoded_src_size h" and ?k = "decoded_src_size h + (n - hd_size h)"
  show ?case
  proof (cases "hd_done h \<or> n \<le> hd_size h")
    case True
    with fetch_done [OF less.prems] fetch_enough [OF less.prems] less.prems show ?thesis by blast
  next
    case False
    have src: "src_ok (hd_src h)" using less.prems by (simp add: decoder_inv_def)
    have arg: "int ?m + (int n - int (hd_size h)) = int ?k" using False by simp
    have loop: "decoder_fetch_loop src_fetch src_consume n h =
      (case src_fetch (int ?k) (hd_src h) of
           (s, None) \<Rightarrow> None
         | (s, Some Blocked) \<Rightarrow> Some (h\<lparr>hd_src := s\<rparr>, Blocked)
         | (s, Some (Ready (Inl st))) \<Rightarrow>
             (if st = kEndOfStream then finish_with src_consume kClosedBeforeEndOfStream (h\<lparr>hd_src := s\<rparr>)
              else Some (h\<lparr>hd_src := s\<rparr>, Ready (Inl st)))
         | (s, Some (Ready (Inr bufs))) \<Rightarrow>
             Option.bind (decode_fetched src_consume bufs (h\<lparr>hd_src := s\<rparr>)) (\<lambda>(h1, err).
               case err of Some st \<Rightarrow> Some (h1, Ready (Inl st))
               | None \<Rightarrow> decoder_fetch_loop src_fetch src_consume n h1))"
      using False by (subst decoder_fetch_loop.simps) (simp add: arg)
    have rem: "Suc (length (decoder_remaining remaining h)) + ?m \<le> hd_size h + length ?R"
      using remaining_bound [OF less.prems] False by simp
    show ?thesis
    proof (cases "?k \<le> length ?R")
      case True
      have "0 < ?k" "?k \<le> fetch_max (hd_src h)" using False True resident [OF src] by simp_all
      from fetch_some [OF src this(1) True this(2)] obtain s bs rest where
        f: "src_fetch (int ?k) (hd_src h) = (s, Some (Ready (Inr bs)))" "src_ok s" "remaining s = ?R"
          "?R = concat bs @ rest" "?k \<le> length (concat bs)" by blast
      let ?h = "h\<lparr>hd_src := s\<rparr>"
      have inv: "decoder_inv src_ok remaining tail ?h" using less.prems f(2,3) by (simp add: decoder_inv_def)
      have same: "decoder_remaining remaining ?h = decoder_remaining remaining h" using f(3) by (simp add: decoder_remaining_def)
      have "?m < ?k" using False by auto
      with f(5) have "decoded_src_size ?h < length (concat bs)" by (simp del: length_concat)
      moreover have "\<not> hd_done ?h" "remaining (hd_src ?h) = concat bs @ rest" using False f(3,4) by simp_all
      ultimately obtain h1 where
        1: "decode_fetched src_consume bs ?h = Some (h1, None)" "decoder_inv src_ok remaining tail h1"
          "decoder_remaining remaining h1 = decoder_remaining remaining h"
          "hd_done h1 \<or> length (remaining (hd_src h1)) - decoded_src_size h1 < length ?R - ?m"
        using decode_fetched_ok [OF inv, of bs rest] same f(3) by auto
      then have "\<exists>h' r. decoder_fetch_loop src_fetch src_consume n h1 = Some (h', Ready r) \<and>
          decoder_inv src_ok remaining tail h' \<and> decoder_remaining remaining h' = decoder_remaining remaining h1 \<and>
          fetch_result (decoder_remaining remaining h1) n h' r"
        using less.hyps [OF _ 1(2)] fetch_done [OF 1(2)] by blast
      with f(1) 1 show ?thesis by (simp add: loop)
    next
      case excess: False
      then obtain s st where f: "src_fetch (int ?k) (hd_src h) = (s, Some (Ready (Inl st)))" "src_ok s" "remaining s = ?R"
        using fetch_excess [OF src, of ?k] by auto
      let ?h = "h\<lparr>hd_src := s\<rparr>"
      have inv: "decoder_inv src_ok remaining tail ?h" using less.prems f(2,3) by (simp add: decoder_inv_def)
      have same: "decoder_remaining remaining ?h = decoder_remaining remaining h" using f(3) by (simp add: decoder_remaining_def)
      have n: "Suc (length (decoder_remaining remaining h)) < n" using excess rem False by linarith
      show ?thesis
      proof (cases "st = kEndOfStream \<and> hd_size ?h = 0")
        case True
        then have "output_consumed ?h = output_available ?h" using inv by (simp add: hd_size_def decoder_inv_def)
        with release_ok [OF inv this] True f n same show ?thesis
          by (auto simp: loop finish_with_def fetch_result_def)
      next
        case False
        with inv f n same show ?thesis by (auto simp: loop finish_with_def fetch_result_def)
      qed
    qed
  qed
qed

lemma decoder_fetch_ok:
  assumes "decoder_inv src_ok remaining tail h"
  shows "\<exists>h' r. decoder_fetch src_fetch src_consume (int n) h = (h', Some (Ready r)) \<and>
    decoder_inv src_ok remaining tail h' \<and> decoder_remaining remaining h' = decoder_remaining remaining h \<and>
    fetch_result (decoder_remaining remaining h) n h' r"
  using fetch_loop_ok [OF assms, of n] by (auto simp: decoder_fetch_def)

lemma decoder_consume_ok:
  assumes inv: "decoder_inv src_ok remaining tail h" and k: "k \<le> hd_size h"
  shows "\<exists>h'. decoder_consume src_consume (int k) h = Some h' \<and> decoder_inv src_ok remaining tail h' \<and>
    decoder_remaining remaining h' = drop k (decoder_remaining remaining h)"
proof -
  let ?h = "h\<lparr>output_consumed := output_consumed h + k\<rparr>"
  have "output_consumed h \<le> output_available h" using inv by (simp add: decoder_inv_def)
  then have le: "output_consumed ?h \<le> output_available ?h" using k by (simp add: hd_size_def)
  then have inv': "decoder_inv src_ok remaining tail ?h" using inv by (simp add: decoder_inv_def)
  have rem: "decoder_remaining remaining ?h = drop k (decoder_remaining remaining h)"
    by (simp add: decoder_remaining_def add.commute)
  have "nat (int (output_consumed h) + int k) = output_consumed h + k" by simp
  then have "decoder_consume src_consume (int k) h =
      (if output_consumed ?h = output_available ?h then release_decoded_chunks src_consume ?h else Some ?h)"
    using le by (simp add: decoder_consume_def)
  then show ?thesis using release_ok [OF inv'] inv' rem by auto
qed

lemma decoder_buffer_source:
  "buffer_source (decoder_inv src_ok remaining tail) (decoder_remaining remaining)
     (\<lambda>h. Suc (length (decoder_remaining remaining h)))
     (decoder_fetch src_fetch src_consume) (decoder_consume src_consume)"
proof unfold_locales
  fix h :: "'a HttpChunkDecoder" and n
  assume h: "decoder_inv src_ok remaining tail h" and n: "n \<le> length (decoder_remaining remaining h)"
  from decoder_fetch_ok [OF h, of n] obtain h' r where
    "decoder_fetch src_fetch src_consume (int n) h = (h', Some (Ready r))" "decoder_inv src_ok remaining tail h'"
    "decoder_remaining remaining h' = decoder_remaining remaining h" "fetch_result (decoder_remaining remaining h) n h' r" by blast
  with n show
    "\<exists>h' bs rest. decoder_fetch src_fetch src_consume (int n) h = (h', Some (Ready (Inr bs))) \<and>
      decoder_inv src_ok remaining tail h' \<and> decoder_remaining remaining h' = decoder_remaining remaining h \<and>
      decoder_remaining remaining h = concat bs @ rest \<and> n \<le> length (concat bs)"
    by (cases r) (auto simp: fetch_result_def simp del: length_concat)
next
  fix h :: "'a HttpChunkDecoder"
  assume h: "decoder_inv src_ok remaining tail h" and e: "decoder_remaining remaining h = []"
  from decoder_fetch_ok [OF h, of 1] obtain h' r where
    "decoder_fetch src_fetch src_consume 1 h = (h', Some (Ready r))" "decoder_inv src_ok remaining tail h'"
    "decoder_remaining remaining h' = []" "fetch_result [] 1 h' r" using e by auto
  then show "\<exists>h' r. decoder_fetch src_fetch src_consume 1 h = (h', Some (Ready r)) \<and>
      decoder_inv src_ok remaining tail h' \<and> decoder_remaining remaining h' = [] \<and>
      (case r of Inl st \<Rightarrow> st = kEndOfStream | Inr bs \<Rightarrow> concat bs = [])"
    by (cases r) (auto simp: fetch_result_def simp del: length_concat concat_eq_Nil_conv)
next
  fix h h' :: "'a HttpChunkDecoder" and n bs k
  assume h: "decoder_inv src_ok remaining tail h"
    and f: "decoder_fetch src_fetch src_consume (int n) h = (h', Some (Ready (Inr bs)))" and k: "k \<le> length (concat bs)"
  from decoder_fetch_ok [OF h, of n] f have
    "decoder_inv src_ok remaining tail h'" "decoder_remaining remaining h' = decoder_remaining remaining h"
    "length (concat bs) = hd_size h'" by (auto simp: fetch_result_def simp del: length_concat)
  with decoder_consume_ok [of tail h' k] k show
    "\<exists>h''. decoder_consume src_consume (int k) h' = Some h'' \<and> decoder_inv src_ok remaining tail h'' \<and>
      decoder_remaining remaining h'' = drop k (decoder_remaining remaining h)"
    by (simp del: length_concat)
qed simp

text \<open>At the end of the body the decoder has consumed exactly the encoded body from its source.\<close>

lemma decoder_end:
  assumes h: "decoder_inv src_ok remaining tail h" and "decoder_remaining remaining h = []"
    and f: "decoder_fetch src_fetch src_consume 1 h = (h', Some (Ready r))"
  shows "remaining (hd_src h') = tail \<and> hd_done h' \<and> src_ok (hd_src h')"
proof -
  from decoder_fetch_ok [OF h, of 1] have "decoder_inv src_ok remaining tail h'" "fetch_result [] 1 h' r"
    using assms(2) f by auto
  then show ?thesis
    by (cases r) (auto simp: fetch_result_def decoder_inv_def simp del: length_concat concat_eq_Nil_conv)
qed

lemma decoder_inv_init:
  assumes "src_ok s" and "decode_bytes (ChunkedDecoder_init tr) (remaining s) = (d, body, Inr (True, tail))"
  shows "decoder_inv src_ok remaining tail (HttpChunkDecoder_init s tr)"
    and "decoder_remaining remaining (HttpChunkDecoder_init s tr) = body"
  using assms decoder_ok_init [of tr] by (auto simp: decoder_inv_def decoder_remaining_def HttpChunkDecoder_init_def)

end

interpretation sb_resident: resident_source sb_source_ok contents "\<lambda>sb. nat (sb_capacity sb)" sb_fetch sb_consume
proof unfold_locales
  fix s n assume "sb_source_ok s" and "length (contents s) < n"
  then show "\<exists>s' st. sb_fetch (int n) s = (s', Some (Ready (Inl st))) \<and> sb_source_ok s' \<and> contents s' = contents s"
    using fetch_short [of s n] by (auto simp: sb_source_ok_def sb_fetch_def)
next
  fix s k assume "sb_source_ok s" and "k \<le> length (contents s)"
  then show "\<exists>s'. sb_consume (int k) s = Some s' \<and> sb_source_ok s' \<and> contents s' = drop k (contents s)"
    using contents_consume [of s k] by (auto simp: sb_source_ok_def sb_consume_def consume_bytes_def)
qed (auto simp: sb_source_ok_def sb_inv_def)

interpretation chunk_source: buffer_source "decoder_inv sb_source_ok contents tail" "decoder_remaining contents"
  "\<lambda>h. Suc (length (decoder_remaining contents h))" "decoder_fetch sb_fetch sb_consume" "decoder_consume sb_consume" for tail
  by (rule sb_resident.decoder_buffer_source)

subsection \<open>Properties\<close>

lemma encoded_decodes:
  assumes "sb_source_ok sb" and "contents sb \<noteq> []" and "sb_capacity sb < 2 ^ 63"
    and "\<And>dst data. \<exists>dst'. wr dst data = (dst', Inr (length data)) \<and> sent dst' = sent dst @ data"
  shows "\<exists>sb' dst' wire d. http_encode_chunked sb_fetch sb_consume wr tr sb dst True = Some (sb', dst', Ready (Inr ())) \<and>
     sent dst' = sent dst @ wire \<and> decode_bytes (ChunkedDecoder_init tr) wire = (d, contents sb, Inr (True, []))"
proof -
  from sb_source.http_encode_chunked_sends [where sent = sent, OF assms(1,4), of tr dst True]
  obtain sb' dst' cs where enc: "http_encode_chunked sb_fetch sb_consume wr tr sb dst True = Some (sb', dst', Ready (Inr ()))"
    "concat cs = contents sb" "[] \<notin> set cs" "sent dst' = sent dst @ encoded tr True cs" by blast
  have "length (contents sb) < 2 ^ 64"
    using assms(1,3) by (auto simp: sb_source_ok_def sb_inv_def)
  then have "\<forall>c \<in> set cs. length c < 2 ^ 64"
    using concat_member_length enc(2) by (metis order_le_less_trans)
  moreover have "cs \<noteq> []" using enc(2) assms(2) by auto
  ultimately show ?thesis
    using decode_bytes_encoded_body [of cs tr] enc by metis
qed

lemma decoder_collects_body:
  assumes "sb_source_ok sb" and "decode_bytes (ChunkedDecoder_init tr) (contents sb) = (d, body, Inr (True, tail))"
  shows "\<exists>h. source_collect_vec (decoder_fetch sb_fetch sb_consume) (decoder_consume sb_consume)
      (HttpChunkDecoder_init sb tr) = Some (h, Ready (Inr body)) \<and>
     sb_source_ok (hd_src h) \<and> contents (hd_src h) = tail"
proof -
  note init = sb_resident.decoder_inv_init [OF assms]
  from chunk_source.source_collect_vec_all [OF init(1)] init(2) obtain h h0 r where
    "source_collect_vec (decoder_fetch sb_fetch sb_consume) (decoder_consume sb_consume)
      (HttpChunkDecoder_init sb tr) = Some (h, Ready (Inr body))"
    "decoder_inv sb_source_ok contents tail h0" "decoder_remaining contents h0 = []"
    "decoder_fetch sb_fetch sb_consume 1 h0 = (h, Some (Ready r))" by auto
  with sb_resident.decoder_end [of tail h0 h r] show ?thesis by blast
qed

text \<open>
  C7 (roundtrip). A body of at least one byte that the chunk encoder sent from a closed buffer over a connection comes out
  of a chunk decoder at the other end that is made with the same trailer flag as the encoder, when everything that was
  sent lies in the stream buffer of the decoder and this buffer is closed: reading the decoder to its end gives the
  bytes of the body, and the decoder has taken from its stream buffer exactly the encoded body, so that what follows it
  there (the next message) is the next to be read. The writes of the encoder succeed, and its buffer is smaller than
  \<open>2 ^ 63\<close> bytes.
\<close>

theorem chunk_decoder_delivers_body:
  assumes "sb_source_ok sb" and "contents sb \<noteq> []" and "sb_capacity sb < 2 ^ 63"
    and "\<And>dst data. \<exists>dst'. wr dst data = (dst', Inr (length data)) \<and> sent dst' = sent dst @ data"
    and "sb_source_ok peer"
    and "\<And>sb' dst'. http_encode_chunked sb_fetch sb_consume wr tr sb dst True = Some (sb', dst', Ready (Inr ())) \<Longrightarrow>
       sent dst @ contents peer = sent dst' @ next_message"
  shows "\<exists>h. source_collect_vec (decoder_fetch sb_fetch sb_consume) (decoder_consume sb_consume)
      (HttpChunkDecoder_init peer tr) = Some (h, Ready (Inr (contents sb))) \<and>
     contents (hd_src h) = next_message"
proof -
  from encoded_decodes [OF assms(1-4), of tr dst] obtain sb' dst' wire d where
    enc: "http_encode_chunked sb_fetch sb_consume wr tr sb dst True = Some (sb', dst', Ready (Inr ()))"
      "sent dst' = sent dst @ wire" "decode_bytes (ChunkedDecoder_init tr) wire = (d, contents sb, Inr (True, []))" by blast
  have "contents peer = wire @ next_message" using assms(6) [OF enc(1)] enc(2) by simp
  then have "decode_bytes (ChunkedDecoder_init tr) (contents peer) = (d, contents sb, Inr (True, next_message))"
    by (simp add: decode_bytes_append enc(3))
  from decoder_collects_body [OF assms(5) this] show ?thesis by blast
qed

text \<open>A body of four bytes, and a stream buffer that received its encoding and the start of another message.\<close>

definition example_body :: StreamBuffer where
  "example_body = close_for_write ((StreamBuffer_init 4 [3, 4, 5, 6])\<lparr>sb_commit_pos := 4\<rparr>)"

definition example_peer :: StreamBuffer where
  "example_peer = close_for_write
     ((StreamBuffer_init 16 [52, 13, 10, 3, 4, 5, 6, 13, 10, 48, 13, 10, 72, 84, 0, 0])\<lparr>sb_commit_pos := 14\<rparr>)"

lemma example_body_props:
  "sb_source_ok example_body" "contents example_body = [3, 4, 5, 6]" "sb_capacity example_body = 4"
  "sb_fetch 1 example_body = (example_body, Some (Ready (Inr [[3, 4, 5, 6]])))"
  by code_simp+

lemma example_body_end: "sb_fetch 1 (consume_bytes 4 example_body) = (consume_bytes 4 example_body, Some (Ready (Inl kEndOfStream)))"
  by code_simp

lemma example_peer_props: "sb_source_ok example_peer"
  "contents example_peer = [52, 13, 10, 3, 4, 5, 6, 13, 10, 48, 13, 10, 72, 84]"
  by code_simp+

lemma example_encoded:
  "http_encode_chunked sb_fetch sb_consume recording_wr False example_body [] True =
     Some (consume_bytes 4 example_body, [52, 13, 10, 3, 4, 5, 6, 13, 10, 48, 13, 10], Ready (Inr ()))"
proof -
  have "chunk_header True [3, 4, 5, 6] = [52, 13, 10]" by code_simp
  then show ?thesis
    by (subst http_encode_chunked.simps, simp add: example_body_props(4) recording_wr_def sb_consume_def)
      (subst http_encode_chunked.simps, simp add: example_body_end recording_wr_def last_chunk_def)
qed

theorem chunk_decoder_delivers_body_witness:
  "\<exists>h. source_collect_vec (decoder_fetch sb_fetch sb_consume) (decoder_consume sb_consume)
      (HttpChunkDecoder_init example_peer False) = Some (h, Ready (Inr [3, 4, 5, 6])) \<and>
     contents (hd_src h) = [72, 84]"
proof -
  have "\<exists>dst'. recording_wr dst data = (dst', Inr (length data)) \<and> id dst' = id dst @ data" for dst data
    by (simp add: recording_wr_def)
  from chunk_decoder_delivers_body [OF example_body_props(1) _ _ this example_peer_props(1),
      where dst = "[]" and tr = False and next_message = "[72, 84]"] show ?thesis
    by (simp add: example_body_props example_encoded example_peer_props(2))
qed

end
