(* ===== verification/Pico_Parser.thy ===== *)
theory Pico_Parser
  imports Pico_Chunked
begin

section \<open>The parser of HTTP message heads\<close>

text \<open>
  Models the parsers of request and response heads of \<^verbatim>\<open>src/src/batteries/pico_http/parser_impl.hpp\<close> (and
  the message types of \<^verbatim>\<open>parser_decl.hpp\<close>). The pointer \<^verbatim>\<open>buf\<close> is the list of the bytes from it to
  \<^verbatim>\<open>buf_end\<close>, a \<^verbatim>\<open>string_view\<close> is the list of its bytes. A parser ends with \<open>P_ok x rest\<close> when the code
  returns a pointer, with \<open>P_ret r\<close> when it stores \<open>r\<close> in \<^verbatim>\<open>*ret\<close> and returns \<^verbatim>\<open>nullptr\<close>, and with
  \<open>P_overrun\<close> when it would read at or move beyond \<^verbatim>\<open>buf_end\<close>, which the properties show not to happen.
  The flag \<open>sse\<close> is the compile-time switch \<^verbatim>\<open>__SSE4_2__\<close>; the intrinsic \<^verbatim>\<open>_mm_cmpestri\<close> in the mode the
  code uses returns the index of the first of 16 bytes that lies in one of the given ranges, or 16.
  Buffers are shorter than 2 GiB, so that the \<^verbatim>\<open>int token_len\<close> of \<^verbatim>\<open>get_token_to_eol\<close> is exact.
\<close>

datatype 'a pres = P_ok 'a "u8 list" | P_ret int | P_overrun

definition kParseIncomplete :: int where
  "kParseIncomplete = - 2"

record MessageHeader =
  hdr_name :: "u8 list"
  hdr_value :: "u8 list"

record Request =
  req_method :: "u8 list"
  req_path :: "u8 list"
  req_major_version :: int
  req_minor_version :: int
  req_headers :: "MessageHeader list"

record Response =
  resp_major_version :: int
  resp_minor_version :: int
  resp_status :: int
  resp_message :: "u8 list"
  resp_headers :: "MessageHeader list"

abbreviation SP :: u8 where "SP \<equiv> 32"
abbreviation HT :: u8 where "HT \<equiv> 9"

subsection \<open>Macros\<close>

fun pres_bind :: "'a pres \<Rightarrow> ('a \<Rightarrow> u8 list \<Rightarrow> 'b pres) \<Rightarrow> 'b pres" where
  "pres_bind (P_ok x rest) f = f x rest"
| "pres_bind (P_ret r) f = P_ret r"
| "pres_bind P_overrun f = P_overrun"

definition is_printable_ascii :: "u8 \<Rightarrow> bool" where
  "is_printable_ascii c \<longleftrightarrow> (ucast c :: u32) - 32 < 95"

definition check_eof :: "u8 list \<Rightarrow> unit pres" where
  "check_eof buf = (if buf = [] then P_ret kParseIncomplete else P_ok () buf)"

fun expect_char_no_check :: "u8 \<Rightarrow> u8 list \<Rightarrow> unit pres" where
  "expect_char_no_check ch [] = P_overrun"
| "expect_char_no_check ch (b # rest) = (if b \<noteq> ch then P_ret kParseFailed else P_ok () rest)"

definition expect_char :: "u8 \<Rightarrow> u8 list \<Rightarrow> unit pres" where
  "expect_char ch buf = pres_bind (check_eof buf) (\<lambda>_. expect_char_no_check ch)"

fun parse_int :: "int \<Rightarrow> u8 list \<Rightarrow> int pres" where
  "parse_int mul [] = P_overrun"
| "parse_int mul (b # rest) =
     (if sint b < 48 \<or> 57 < sint b then P_ret kParseFailed else P_ok (mul * (sint b - 48)) rest)"

subsection \<open>Finding a character\<close>

definition token_char_map :: "u8 \<Rightarrow> bool" where
  "token_char_map b \<longleftrightarrow>
     b = 33 \<or> 35 \<le> b \<and> b \<le> 39 \<or> b = 42 \<or> b = 43 \<or> b = 45 \<or> b = 46 \<or> 48 \<le> b \<and> b \<le> 57 \<or>
     65 \<le> b \<and> b \<le> 90 \<or> 94 \<le> b \<and> b \<le> 122 \<or> b = 124 \<or> b = 126"

fun in_ranges :: "u8 list \<Rightarrow> u8 \<Rightarrow> bool" where
  "in_ranges (lo # hi # rs) b \<longleftrightarrow> lo \<le> b \<and> b \<le> hi \<or> in_ranges rs b"
| "in_ranges _ b \<longleftrightarrow> False"

definition mm_cmpestri :: "u8 list \<Rightarrow> u8 list \<Rightarrow> nat" where
  "mm_cmpestri ranges b16 = length (takeWhile (\<lambda>b. \<not> in_ranges ranges b) b16)"

fun findchar_blocks :: "u8 list \<Rightarrow> nat \<Rightarrow> u8 list \<Rightarrow> bool \<times> u8 list" where
  "findchar_blocks ranges left buf =
     (let r = mm_cmpestri ranges (take 16 buf) in
      if r \<noteq> 16 then (True, drop r buf)
      else if left - 16 = 0 then (False, drop 16 buf)
      else findchar_blocks ranges (left - 16) (drop 16 buf))"

declare findchar_blocks.simps [simp del]

definition findchar_fast :: "bool \<Rightarrow> u8 list \<Rightarrow> u8 list \<Rightarrow> bool \<times> u8 list" where
  "findchar_fast sse ranges buf =
     (if sse \<and> length buf \<ge> 16 then findchar_blocks ranges (length buf - length buf mod 16) buf
      else (False, buf))"

subsection \<open>Tokens\<close>

definition token_ranges :: "u8 list" where
  "token_ranges = [0, 32, 34, 34, 40, 41, 44, 44, 47, 47, 58, 64, 91, 93, 123, 255]"

fun token_loop :: "u8 \<Rightarrow> u8 list \<Rightarrow> unit pres" where
  "token_loop next_char [] = P_overrun"
| "token_loop next_char (b # rest) =
     (if b = next_char then P_ok () (b # rest)
      else if \<not> token_char_map b then P_ret kParseFailed
      else if rest = [] then P_ret kParseIncomplete
      else token_loop next_char rest)"

definition parse_token :: "bool \<Rightarrow> u8 \<Rightarrow> u8 list \<Rightarrow> u8 list pres" where
  "parse_token sse next_char buf_start =
     (case findchar_fast sse token_ranges buf_start of (found, buf) \<Rightarrow>
        if \<not> found \<and> buf = [] then P_ret kParseIncomplete
        else pres_bind (token_loop next_char buf)
          (\<lambda>_ buf. P_ok (take (length buf_start - length buf) buf_start) buf))"

definition path_ranges :: "u8 list" where
  "path_ranges = [0, 32, 127, 127]"

fun path_loop :: "u8 list \<Rightarrow> unit pres" where
  "path_loop [] = P_overrun"
| "path_loop (b # rest) =
     (if b = SP then P_ok () (b # rest)
      else if \<not> is_printable_ascii b \<and> (b < 32 \<or> b = 127) then P_ret kParseFailed
      else if rest = [] then P_ret kParseIncomplete
      else path_loop rest)"

definition advance_token :: "bool \<Rightarrow> u8 list \<Rightarrow> u8 list pres" where
  "advance_token sse tok_start =
     (case findchar_fast sse path_ranges tok_start of (found, buf) \<Rightarrow>
        if \<not> found \<and> buf = [] then P_ret kParseIncomplete
        else pres_bind (path_loop buf)
          (\<lambda>_ buf. P_ok (take (length tok_start - length buf) tok_start) buf))"

subsection \<open>The rest of a line\<close>

definition eol_ranges :: "u8 list" where
  "eol_ranges = [0, 8, 10, 31, 127, 127]"

definition is_ctl :: "u8 \<Rightarrow> bool" where
  "is_ctl b \<longleftrightarrow> b < 32 \<and> b \<noteq> HT \<or> b = 127"

text \<open>The portable loop over blocks of eight bytes, which either finds a control character
  (\<^verbatim>\<open>goto FOUND_CTL\<close>) or leaves less than eight bytes.\<close>

function eol_fast :: "u8 list \<Rightarrow> bool \<times> u8 list" where
  "eol_fast buf =
     (if length buf < 8 then (False, buf)
      else let i = length (takeWhile is_printable_ascii (take 8 buf)) in
        if i = 8 then eol_fast (drop 8 buf)
        else if is_ctl (buf ! i) then (True, drop i buf)
        else eol_fast (drop (i + 1) buf))"
  by pat_completeness auto
termination
  by (relation "measure length") auto

declare eol_fast.simps [simp del]

fun eol_loop :: "u8 list \<Rightarrow> unit pres" where
  "eol_loop [] = P_ret kParseIncomplete"
| "eol_loop (b # rest) = (if \<not> is_printable_ascii b \<and> is_ctl b then P_ok () (b # rest) else eol_loop rest)"

fun found_ctl :: "u8 list \<Rightarrow> u8 list \<Rightarrow> u8 list pres" where
  "found_ctl token_start [] = P_overrun"
| "found_ctl token_start (b # rest) =
     (if b = CR then
        pres_bind (expect_char LF rest)
          (\<lambda>_ buf. P_ok (take (length token_start - length buf - 2) token_start) buf)
      else if b = LF then P_ok (take (length token_start - length (b # rest)) token_start) rest
      else P_ret kParseFailed)"

definition get_token_to_eol :: "bool \<Rightarrow> u8 list \<Rightarrow> u8 list pres" where
  "get_token_to_eol sse token_start =
     (case (if sse then findchar_fast sse eol_ranges token_start else eol_fast token_start) of (found, buf) \<Rightarrow>
        if found then found_ctl token_start buf
        else pres_bind (eol_loop buf) (\<lambda>_. found_ctl token_start))"

subsection \<open>Completeness of a head\<close>

fun is_complete_loop :: "nat \<Rightarrow> u8 list \<Rightarrow> unit pres" where
  "is_complete_loop ret_cnt [] = P_ret kParseIncomplete"
| "is_complete_loop ret_cnt (b # rest) =
     (if b = CR then
        (case rest of
           [] \<Rightarrow> P_ret kParseIncomplete
         | c # rest2 \<Rightarrow>
             if c \<noteq> LF then P_ret kParseFailed
             else if ret_cnt + 1 = 2 then P_ok () rest2
             else is_complete_loop (ret_cnt + 1) rest2)
      else if b = LF then
        (if ret_cnt + 1 = 2 then P_ok () rest else is_complete_loop (ret_cnt + 1) rest)
      else is_complete_loop 0 rest)"

definition is_complete :: "u8 list \<Rightarrow> nat \<Rightarrow> unit pres" where
  "is_complete buf last_len =
     (if last_len < 3 then is_complete_loop 0 buf
      else if length buf < last_len - 3 then P_overrun
      else is_complete_loop 0 (drop (last_len - 3) buf))"

subsection \<open>Version, headers\<close>

definition parse_http_version :: "u8 list \<Rightarrow> int pres" where
  "parse_http_version buf =
     (if length buf < 9 then P_ret kParseIncomplete
      else pres_bind (expect_char_no_check 72 buf) (\<lambda>_ buf.
        pres_bind (expect_char_no_check 84 buf) (\<lambda>_ buf.
        pres_bind (expect_char_no_check 84 buf) (\<lambda>_ buf.
        pres_bind (expect_char_no_check 80 buf) (\<lambda>_ buf.
        pres_bind (expect_char_no_check 47 buf) (\<lambda>_ buf.
        pres_bind (expect_char_no_check 49 buf) (\<lambda>_ buf.
        pres_bind (expect_char_no_check 46 buf) (\<lambda>_ buf.
        parse_int 1 buf))))))))"

fun skip_blanks :: "u8 list \<Rightarrow> unit pres" where
  "skip_blanks [] = P_ret kParseIncomplete"
| "skip_blanks (b # rest) = (if b = SP \<or> b = HT then skip_blanks rest else P_ok () (b # rest))"

definition parse_header_name :: "bool \<Rightarrow> u8 list \<Rightarrow> u8 list pres" where
  "parse_header_name sse buf =
     pres_bind (parse_token sse 58 buf) (\<lambda>header_name buf.
       if length header_name = 0 then P_ret kParseFailed
       else if buf = [] then P_overrun
       else pres_bind (skip_blanks (tl buf)) (\<lambda>_ buf. P_ok header_name buf))"

definition trim_trailing :: "u8 list \<Rightarrow> u8 list" where
  "trim_trailing v = rev (dropWhile (\<lambda>c. c = SP \<or> c = HT) (rev v))"


lemma is_printable_ascii_iff: "is_printable_ascii c \<longleftrightarrow> 32 \<le> c \<and> c \<le> 126"
proof -
  have "uint c < 256" using uint_lt2p [of c] by simp
  moreover have "- 1 < uint c" using uint_ge_0 [of c] by linarith
  ultimately have bound: "uint c < 256" "- 1 < uint c" .
  have "uint ((ucast c :: u32) - 32) = (uint c - 32) mod 2 ^ 32"
    by (simp add: uint_word_ariths unsigned_ucast_eq take_bit_eq_mod bound mod_diff_left_eq)
  moreover have "(uint c - 32) mod 2 ^ 32 = (if uint c < 32 then uint c - 32 + 2 ^ 32 else uint c - 32)"
    using bound mod_add_self2 [of "uint c - 32" "2 ^ 32"] mod_pos_pos_trivial [of "uint c - 32 + 2 ^ 32" "2 ^ 32"]
    by (auto intro!: mod_pos_pos_trivial)
  ultimately have "uint ((ucast c :: u32) - 32) < 95 \<longleftrightarrow> 32 \<le> uint c \<and> uint c \<le> 126"
    using bound by (simp split: if_splits) linarith+
  then show ?thesis by (simp add: is_printable_ascii_def word_less_def word_le_def)
qed

lemma pres_bind_eq_P_ok:
  "pres_bind r f = P_ok y rest \<longleftrightarrow> (\<exists>x rest'. r = P_ok x rest' \<and> f x rest' = P_ok y rest)"
  by (cases r) auto

lemma mm_cmpestri_found:
  assumes "length b16 = 16" and "mm_cmpestri ranges b16 = r" and "r \<noteq> 16"
  shows "r < 16" and "in_ranges ranges (b16 ! r)" and "\<forall>b\<in>set (take r b16). \<not> in_ranges ranges b"
proof -
  show "r < 16" using assms length_takeWhile_le [of _ b16] unfolding mm_cmpestri_def by (metis nat_less_le)
  then show "in_ranges ranges (b16 ! r)" "\<forall>b\<in>set (take r b16). \<not> in_ranges ranges b"
    using assms nth_length_takeWhile [of "\<lambda>b. \<not> in_ranges ranges b" b16]
    by (auto simp: mm_cmpestri_def takeWhile_eq_take [symmetric] dest: set_takeWhileD)
qed

lemma mm_cmpestri_none:
  assumes "length b16 = 16" and "mm_cmpestri ranges b16 = 16"
  shows "\<forall>b\<in>set b16. \<not> in_ranges ranges b"
proof -
  have "takeWhile (\<lambda>b. \<not> in_ranges ranges b) b16 = b16"
    using assms by (metis mm_cmpestri_def takeWhile_eq_take take_all order_refl)
  then show ?thesis by (metis takeWhile_eq_all_conv)
qed

text \<open>What the search guarantees: no byte that it skips lies in the ranges, and when it reports a find,
  the next byte does.\<close>

definition find_spec :: "u8 list \<Rightarrow> u8 list \<Rightarrow> bool \<times> u8 list \<Rightarrow> bool" where
  "find_spec ranges buf r \<longleftrightarrow>
     (\<exists>pre. buf = pre @ snd r \<and> (\<forall>b\<in>set pre. \<not> in_ranges ranges b)) \<and>
     (fst r \<longrightarrow> snd r \<noteq> [] \<and> in_ranges ranges (hd (snd r)))"

lemma find_spec_skip:
  assumes "find_spec ranges (drop n buf) r" and "\<forall>b\<in>set (take n buf). \<not> in_ranges ranges b"
  shows "find_spec ranges buf r"
proof -
  obtain pre where "drop n buf = pre @ snd r" "\<forall>b\<in>set pre. \<not> in_ranges ranges b"
    using assms(1) by (auto simp: find_spec_def)
  then have "buf = (take n buf @ pre) @ snd r" "\<forall>b\<in>set (take n buf @ pre). \<not> in_ranges ranges b"
    using assms(2) append_take_drop_id [of n buf] by auto
  then show ?thesis using assms(1) unfolding find_spec_def by blast
qed

lemma find_spec_stop:
  assumes "\<forall>b\<in>set (take n buf). \<not> in_ranges ranges b" and "found \<Longrightarrow> n < length buf \<and> in_ranges ranges (buf ! n)"
  shows "find_spec ranges buf (found, drop n buf)"
  using assms by (auto simp: find_spec_def hd_drop_conv_nth intro!: exI [of _ "take n buf"])

lemma findchar_blocks_spec:
  assumes "0 < left" and "left mod 16 = 0" and "left \<le> length buf"
  shows "find_spec ranges buf (findchar_blocks ranges left buf)"
  using assms
proof (induction ranges left buf rule: findchar_blocks.induct)
  case (1 ranges left buf)
  then have len: "16 \<le> length buf" by auto
  then have l16: "length (take 16 buf) = 16" by simp
  consider (hit) "mm_cmpestri ranges (take 16 buf) \<noteq> 16"
    | (last) "mm_cmpestri ranges (take 16 buf) = 16" "left - 16 = 0"
    | (more) "mm_cmpestri ranges (take 16 buf) = 16" "left - 16 \<noteq> 0" by blast
  then show ?case
  proof cases
    case hit
    note f = mm_cmpestri_found [OF l16 refl hit]
    have "find_spec ranges buf (True, drop (mm_cmpestri ranges (take 16 buf)) buf)"
      using f len by (intro find_spec_stop) auto
    with hit show ?thesis by (subst findchar_blocks.simps) (simp add: Let_def)
  next
    case last
    have "find_spec ranges buf (False, drop 16 buf)"
      using mm_cmpestri_none [OF l16 last(1)] by (intro find_spec_stop) auto
    with last show ?thesis by (subst findchar_blocks.simps) (simp add: Let_def)
  next
    case more
    have "find_spec ranges (drop 16 buf) (findchar_blocks ranges (left - 16) (drop 16 buf))"
      using 1 more by (simp add: le_mod_geq)
    then have "find_spec ranges buf (findchar_blocks ranges (left - 16) (drop 16 buf))"
      using mm_cmpestri_none [OF l16 more(1)] by (rule find_spec_skip)
    with more show ?thesis by (subst findchar_blocks.simps) (simp add: Let_def)
  qed
qed

lemma findchar_fast_spec: "find_spec ranges buf (findchar_fast sse ranges buf)"
  by (auto simp: findchar_fast_def find_spec_def [of _ buf "(False, buf)"]
      intro!: findchar_blocks_spec)

lemma findchar_fast_length: "findchar_fast sse ranges buf = (found, rest) \<Longrightarrow> length rest \<le> length buf"
  using findchar_fast_spec [of ranges buf sse] by (auto simp: find_spec_def)

lemma token_loop_length: "token_loop c buf = P_ok x rest \<Longrightarrow> length rest \<le> length buf"
  by (induction c buf rule: token_loop.induct) (auto split: if_splits)

lemma skip_blanks_length: "skip_blanks buf = P_ok x rest \<Longrightarrow> length rest \<le> length buf"
  by (induction buf rule: skip_blanks.induct) (auto split: if_splits)

lemma parse_token_length: "parse_token sse c buf = P_ok x rest \<Longrightarrow> length rest \<le> length buf"
  by (auto simp: parse_token_def pres_bind_eq_P_ok split: prod.splits if_splits
      dest!: findchar_fast_length token_loop_length)

lemma parse_header_name_length: "parse_header_name sse buf = P_ok x rest \<Longrightarrow> length rest \<le> length buf"
  by (fastforce simp: parse_header_name_def pres_bind_eq_P_ok split: if_splits
      dest!: parse_token_length skip_blanks_length)

lemma expect_char_length: "expect_char c buf = P_ok x rest \<Longrightarrow> length rest < length buf"
  by (cases buf) (auto simp: expect_char_def check_eof_def split: if_splits)

lemma found_ctl_length: "found_ctl start buf = P_ok x rest \<Longrightarrow> length rest < length buf"
  by (cases "(start, buf)" rule: found_ctl.cases)
    (auto simp: pres_bind_eq_P_ok split: if_splits dest!: expect_char_length)

lemma eol_loop_length: "eol_loop buf = P_ok x rest \<Longrightarrow> length rest \<le> length buf"
  by (induction buf rule: eol_loop.induct) (auto split: if_splits)

lemma eol_fast_length: "length (snd (eol_fast buf)) \<le> length buf"
  by (induction buf rule: eol_fast.induct)
    (subst eol_fast.simps, fastforce simp: Let_def)

lemma get_token_to_eol_length: "get_token_to_eol sse buf = P_ok x rest \<Longrightarrow> length rest < length buf"
proof -
  assume ok: "get_token_to_eol sse buf = P_ok x rest"
  obtain found b where fb: "(if sse then findchar_fast sse eol_ranges buf else eol_fast buf) = (found, b)"
    by fastforce
  then have "length b \<le> length buf"
    using eol_fast_length [of buf] by (auto dest: findchar_fast_length split: if_splits)
  moreover have "length rest < length b"
    using ok fb unfolding get_token_to_eol_def
    by (auto simp: pres_bind_eq_P_ok split: if_splits dest!: found_ctl_length eol_loop_length)
  ultimately show ?thesis by simp
qed

function headers_loop :: "bool \<Rightarrow> nat \<Rightarrow> MessageHeader list \<Rightarrow> u8 list \<Rightarrow> MessageHeader list \<times> unit pres" where
  "headers_loop sse num_headers headers [] = (headers, P_ret kParseIncomplete)"
| "headers_loop sse num_headers headers (b # rest) =
     (if b = CR then (headers, expect_char LF rest)
      else if b = LF then (headers, P_ok () rest)
      else case (if \<not> (num_headers \<noteq> 0 \<and> (b = SP \<or> b = HT)) then parse_header_name sse (b # rest)
                 else P_ok [] (b # rest)) of
        P_ret r \<Rightarrow> (headers, P_ret r)
      | P_overrun \<Rightarrow> (headers, P_overrun)
      | P_ok header_name buf \<Rightarrow>
          (case get_token_to_eol sse buf of
             P_ret r \<Rightarrow> (headers, P_ret r)
           | P_overrun \<Rightarrow> (headers, P_overrun)
           | P_ok value buf \<Rightarrow>
               headers_loop sse (num_headers + 1)
                 (headers @ [\<lparr>hdr_name = header_name, hdr_value = trim_trailing value\<rparr>]) buf))"
  by pat_completeness auto
termination
  by (relation "measure (\<lambda>(sse, n, hs, buf). length buf)")
    (auto dest!: parse_header_name_length get_token_to_eol_length split: if_splits)

definition parse_headers_impl :: "bool \<Rightarrow> MessageHeader list \<Rightarrow> u8 list \<Rightarrow> MessageHeader list \<times> unit pres" where
  "parse_headers_impl sse headers buf = headers_loop sse 0 headers buf"

subsection \<open>Requests and responses\<close>

text \<open>The parsers of whole heads store what they have found so far in the message, also when they fail.\<close>

definition sp_bind ::
    "('s \<Rightarrow> u8 list \<Rightarrow> 's \<times> 'a pres) \<Rightarrow> ('a \<Rightarrow> 's \<Rightarrow> u8 list \<Rightarrow> 's \<times> 'b pres) \<Rightarrow> 's \<Rightarrow> u8 list \<Rightarrow> 's \<times> 'b pres" where
  "sp_bind p q s buf =
     (case p s buf of
        (s', P_ok x rest) \<Rightarrow> q x s' rest
      | (s', P_ret r) \<Rightarrow> (s', P_ret r)
      | (s', P_overrun) \<Rightarrow> (s', P_overrun))"

definition sp_lift :: "(u8 list \<Rightarrow> 'a pres) \<Rightarrow> 's \<Rightarrow> u8 list \<Rightarrow> 's \<times> 'a pres" where
  "sp_lift p s buf = (s, p buf)"

definition sp_set :: "('s \<Rightarrow> 's) \<Rightarrow> 's \<Rightarrow> u8 list \<Rightarrow> 's \<times> unit pres" where
  "sp_set f s buf = (f s, P_ok () buf)"

fun skip_spaces :: "u8 list \<Rightarrow> unit pres" where
  "skip_spaces [] = P_overrun"
| "skip_spaces (b # rest) =
     (case rest of
        [] \<Rightarrow> P_ret kParseIncomplete
      | c # _ \<Rightarrow> if c = SP then skip_spaces rest else P_ok () rest)"

definition skip_empty_line :: "u8 list \<Rightarrow> unit pres" where
  "skip_empty_line buf =
     (case buf of
        [] \<Rightarrow> P_ret kParseIncomplete
      | b # rest \<Rightarrow> if b = CR then expect_char LF rest else if b = LF then P_ok () rest else P_ok () buf)"

definition end_of_line :: "u8 list \<Rightarrow> unit pres" where
  "end_of_line buf =
     (case buf of
        [] \<Rightarrow> P_overrun
      | b # rest \<Rightarrow> if b = CR then expect_char LF rest else if b = LF then P_ok () rest else P_ret kParseFailed)"

definition parse_request_impl :: "bool \<Rightarrow> Request \<Rightarrow> u8 list \<Rightarrow> Request \<times> unit pres" where
  "parse_request_impl sse =
     sp_bind (sp_lift skip_empty_line) (\<lambda>_.
     sp_bind (sp_lift (parse_token sse SP)) (\<lambda>method.
     sp_bind (sp_set (\<lambda>t. t\<lparr>req_method := method\<rparr>)) (\<lambda>_.
     sp_bind (sp_lift skip_spaces) (\<lambda>_.
     sp_bind (sp_lift (advance_token sse)) (\<lambda>path.
     sp_bind (sp_set (\<lambda>t. t\<lparr>req_path := path\<rparr>)) (\<lambda>_.
     sp_bind (sp_lift skip_spaces) (\<lambda>_.
     sp_bind (sp_lift (\<lambda>buf. if length method = 0 \<or> length path = 0 then P_ret kParseFailed else P_ok () buf)) (\<lambda>_.
     sp_bind (sp_lift parse_http_version) (\<lambda>minor_version.
     sp_bind (sp_set (\<lambda>t. t\<lparr>req_minor_version := minor_version\<rparr>)) (\<lambda>_.
     sp_bind (sp_lift end_of_line) (\<lambda>_ t buf.
       case parse_headers_impl sse (req_headers t) buf of
         (headers, r) \<Rightarrow> (t\<lparr>req_headers := headers\<rparr>, r))))))))))))"

definition parse_int_3 :: "Response \<Rightarrow> u8 list \<Rightarrow> Response \<times> unit pres" where
  "parse_int_3 =
     sp_bind (sp_lift (parse_int 100)) (\<lambda>res.
     sp_bind (sp_set (\<lambda>t. t\<lparr>resp_status := res\<rparr>)) (\<lambda>_.
     sp_bind (sp_lift (parse_int 10)) (\<lambda>res.
     sp_bind (sp_set (\<lambda>t. t\<lparr>resp_status := resp_status t + res\<rparr>)) (\<lambda>_.
     sp_bind (sp_lift (parse_int 1)) (\<lambda>res.
     sp_set (\<lambda>t. t\<lparr>resp_status := resp_status t + res\<rparr>))))))"

text \<open>The loop that removes the spaces before the message reads on until it finds another byte;
  \<open>buf\<close> is the input after the line, which \<open>msg\<close> points into.\<close>

fun skip_message_spaces :: "u8 list \<Rightarrow> nat \<Rightarrow> (u8 list \<times> nat) pres" where
  "skip_message_spaces [] msg_len = P_overrun"
| "skip_message_spaces (_ # msg_begin) msg_len =
     (case msg_begin of
        [] \<Rightarrow> P_overrun
      | c # _ \<Rightarrow> if c = SP then skip_message_spaces msg_begin (msg_len - 1)
                 else P_ok (msg_begin, msg_len - 1) [])"

definition parse_message :: "bool \<Rightarrow> Response \<Rightarrow> u8 list \<Rightarrow> Response \<times> unit pres" where
  "parse_message sse t line =
     (case get_token_to_eol sse line of
        P_ret r \<Rightarrow> (t, P_ret r)
      | P_overrun \<Rightarrow> (t, P_overrun)
      | P_ok msg buf \<Rightarrow>
          let t = t\<lparr>resp_message := msg\<rparr> in
          if length msg = 0 then (t, P_ok () buf)
          else if msg ! 0 = SP then
            (case skip_message_spaces line (length msg) of
               P_ok (msg_begin, msg_len) _ \<Rightarrow> (t\<lparr>resp_message := take msg_len msg_begin\<rparr>, P_ok () buf)
             | P_ret r \<Rightarrow> (t, P_ret r)
             | P_overrun \<Rightarrow> (t, P_overrun))
          else (t, P_ret kParseFailed))"

definition parse_response_impl :: "bool \<Rightarrow> Response \<Rightarrow> u8 list \<Rightarrow> Response \<times> unit pres" where
  "parse_response_impl sse =
     sp_bind (sp_lift parse_http_version) (\<lambda>minor_version.
     sp_bind (sp_set (\<lambda>t. t\<lparr>resp_minor_version := minor_version\<rparr>)) (\<lambda>_.
     sp_bind (sp_lift (\<lambda>buf. case buf of [] \<Rightarrow> P_overrun | b # _ \<Rightarrow> if b \<noteq> SP then P_ret kParseFailed else P_ok () buf)) (\<lambda>_.
     sp_bind (sp_lift skip_spaces) (\<lambda>_.
     sp_bind (sp_lift (\<lambda>buf. if length buf < 4 then P_ret kParseIncomplete else P_ok () buf)) (\<lambda>_.
     sp_bind parse_int_3 (\<lambda>_.
     sp_bind (parse_message sse) (\<lambda>_ t buf.
       case parse_headers_impl sse (resp_headers t) buf of
         (headers, r) \<Rightarrow> (t\<lparr>resp_headers := headers\<rparr>, r))))))))"

text \<open>The result \<^verbatim>\<open>(int)(buf - buf_start)\<close> is the difference reduced to 32 bits; \<open>None\<close> is an overrun.\<close>

definition int_cast :: "nat \<Rightarrow> int" where
  "int_cast n = sint (of_nat n :: u32)"

fun parse_result :: "u8 list \<Rightarrow> unit pres \<Rightarrow> int option" where
  "parse_result buf_start (P_ok _ buf) = Some (int_cast (length buf_start - length buf))"
| "parse_result buf_start (P_ret r) = Some r"
| "parse_result buf_start P_overrun = None"

definition Request_parse :: "bool \<Rightarrow> u8 list \<Rightarrow> nat \<Rightarrow> Request \<times> int option" where
  "Request_parse sse buf_start last_len =
     (let this = \<lparr>req_method = [], req_path = [], req_major_version = - 1, req_minor_version = - 1,
                  req_headers = []\<rparr>;
          complete = (if last_len \<noteq> 0 then is_complete buf_start last_len else P_ok () []) in
      case complete of
        P_ret r \<Rightarrow> (this\<lparr>req_major_version := 1\<rparr>, Some r)
      | P_overrun \<Rightarrow> (this, None)
      | P_ok _ _ \<Rightarrow>
          (case parse_request_impl sse this buf_start of
             (this, P_ok _ buf) \<Rightarrow>
               (this\<lparr>req_major_version := 1\<rparr>, parse_result buf_start (P_ok () buf))
           | (this, r) \<Rightarrow> (this, parse_result buf_start r)))"

definition Response_parse :: "bool \<Rightarrow> u8 list \<Rightarrow> nat \<Rightarrow> Response \<times> int option" where
  "Response_parse sse buf_start last_len =
     (let this = \<lparr>resp_major_version = - 1, resp_minor_version = - 1, resp_status = 0, resp_message = [],
                  resp_headers = []\<rparr>;
          complete = (if last_len \<noteq> 0 then is_complete buf_start last_len else P_ok () []) in
      case complete of
        P_ret r \<Rightarrow> (this\<lparr>resp_major_version := 1\<rparr>, Some r)
      | P_overrun \<Rightarrow> (this, None)
      | P_ok _ _ \<Rightarrow>
          (case parse_response_impl sse this buf_start of
             (this, P_ok _ buf) \<Rightarrow>
               (this\<lparr>resp_major_version := 1\<rparr>, parse_result buf_start (P_ok () buf))
           | (this, r) \<Rightarrow> (this, parse_result buf_start r)))"

definition parse_headers :: "bool \<Rightarrow> u8 list \<Rightarrow> nat \<Rightarrow> MessageHeader list \<times> int option" where
  "parse_headers sse buf_start last_len =
     (case (if last_len \<noteq> 0 then is_complete buf_start last_len else P_ok () []) of
        P_ret r \<Rightarrow> ([], Some r)
      | P_overrun \<Rightarrow> ([], None)
      | P_ok _ _ \<Rightarrow>
          (case parse_headers_impl sse [] buf_start of
             (headers, r) \<Rightarrow> (headers, parse_result buf_start r)))"

subsection \<open>Printing\<close>

fun print_nat :: "nat \<Rightarrow> u8 list" where
  "print_nat n = (if n < 10 then [] else print_nat (n div 10)) @ [of_nat (48 + n mod 10)]"

declare print_nat.simps [simp del]

definition print_int :: "int \<Rightarrow> u8 list" where
  "print_int i = (if i < 0 then [45] else []) @ print_nat (nat \<bar>i\<bar>)"

definition print_header :: "MessageHeader \<Rightarrow> u8 list" where
  "print_header t = hdr_name t @ [58, SP] @ hdr_value t @ [CR, LF]"

definition print_headers :: "MessageHeader list \<Rightarrow> u8 list" where
  "print_headers t = concat (map print_header t)"

definition print_Request :: "Request \<Rightarrow> u8 list" where
  "print_Request t =
     req_method t @ [SP] @ req_path t @ [SP, 72, 84, 84, 80, 47] @ print_int (req_major_version t) @ [46] @
     print_int (req_minor_version t) @ [CR, LF] @ print_headers (req_headers t) @ [CR, LF]"

definition print_Response :: "Response \<Rightarrow> u8 list" where
  "print_Response t =
     [72, 84, 84, 80, 47] @ print_int (resp_major_version t) @ [46] @ print_int (resp_minor_version t) @
     [SP] @ print_int (resp_status t) @ [SP] @ resp_message t @ [CR, LF] @
     print_headers (resp_headers t) @ [CR, LF]"

subsection \<open>Reference parsers\<close>

text \<open>Each token parser is the search for the first byte of a kind, followed by a look at it.\<close>

definition span_until :: "(u8 \<Rightarrow> bool) \<Rightarrow> u8 list \<Rightarrow> u8 list pres" where
  "span_until P buf =
     (if dropWhile (\<lambda>b. \<not> P b) buf = [] then P_ret kParseIncomplete
      else P_ok (takeWhile (\<lambda>b. \<not> P b) buf) (dropWhile (\<lambda>b. \<not> P b) buf))"

definition token_spec :: "(u8 \<Rightarrow> bool) \<Rightarrow> u8 \<Rightarrow> u8 list \<Rightarrow> u8 list pres" where
  "token_spec ok next_char buf =
     pres_bind (span_until (\<lambda>b. b = next_char \<or> \<not> ok b) buf) (\<lambda>t rest.
       case rest of [] \<Rightarrow> P_ret kParseIncomplete
       | b # _ \<Rightarrow> if b = next_char then P_ok t rest else P_ret kParseFailed)"

definition path_char :: "u8 \<Rightarrow> bool" where
  "path_char b \<longleftrightarrow> \<not> (b < 32 \<or> b = 127)"

definition line_spec :: "u8 list \<Rightarrow> u8 list pres" where
  "line_spec buf =
     pres_bind (span_until is_ctl buf) (\<lambda>t rest.
       case rest of [] \<Rightarrow> P_ret kParseIncomplete
       | b # rest2 \<Rightarrow>
           if b = CR then pres_bind (expect_char LF rest2) (\<lambda>_ rest3. P_ok t rest3)
           else if b = LF then P_ok t rest2 else P_ret kParseFailed)"

lemma span_until_skip:
  "\<forall>b\<in>set pre. \<not> P b \<Longrightarrow> span_until P (pre @ rest) = pres_bind (span_until P rest) (\<lambda>t r. P_ok (pre @ t) r)"
  by (auto simp: span_until_def dropWhile_append takeWhile_append)

lemma token_spec_skip:
  assumes "\<forall>b\<in>set pre. b \<noteq> c \<and> ok b"
  shows "token_spec ok c (pre @ rest) = pres_bind (token_spec ok c rest) (\<lambda>t r. P_ok (pre @ t) r)"
  using assms by (subst token_spec_def, subst span_until_skip)
    (auto simp: token_spec_def span_until_def split: list.splits)

lemma token_spec_Nil: "token_spec ok c [] = P_ret kParseIncomplete"
  by (simp add: token_spec_def span_until_def)

lemma token_spec_Cons:
  "token_spec ok c (b # rest) =
     (if b = c then P_ok [] (b # rest)
      else if \<not> ok b then P_ret kParseFailed
      else pres_bind (token_spec ok c rest) (\<lambda>t r. P_ok (b # t) r))"
  using token_spec_skip [of "[b]" c ok rest] by (auto simp: token_spec_def span_until_def)

lemma token_spec_rest: "token_spec ok c buf = P_ok t rest \<Longrightarrow> buf = t @ rest \<and> rest \<noteq> [] \<and> hd rest = c"
  unfolding token_spec_def span_until_def pres_bind_eq_P_ok
  by (auto split: if_splits list.splits intro: takeWhile_dropWhile_id [symmetric] dest: sym)

text \<open>The loops of the code with the token computed from the two pointers.\<close>

lemma token_loop_spec:
  "pres_bind (token_loop c buf) (\<lambda>_ r. P_ok (take (length (pre @ buf) - length r) (pre @ buf)) r) =
   (if buf = [] then P_overrun else pres_bind (token_spec token_char_map c buf) (\<lambda>t r. P_ok (pre @ t) r))"
proof (induction buf arbitrary: pre)
  case (Cons b buf)
  show ?case
    using Cons.IH [of "pre @ [b]"] by (cases "token_spec token_char_map c buf") (auto simp: token_spec_Cons token_spec_Nil)
qed simp

lemma path_loop_spec:
  "pres_bind (path_loop buf) (\<lambda>_ r. P_ok (take (length (pre @ buf) - length r) (pre @ buf)) r) =
   (if buf = [] then P_overrun else pres_bind (token_spec path_char SP buf) (\<lambda>t r. P_ok (pre @ t) r))"
proof (induction buf arbitrary: pre)
  case (Cons b buf)
  show ?case
    using Cons.IH [of "pre @ [b]"] by (cases "token_spec path_char SP buf")
      (auto simp: token_spec_Cons token_spec_Nil path_char_def is_printable_ascii_iff not_le)
qed simp

text \<open>The skipped bytes of the vectorised search are token bytes, so the search changes nothing.\<close>

lemmas byte_arith = word_le_nat_alt word_less_nat_alt word_unat_eq_iff

lemma unat_u8_less: "unat (b :: u8) < 256"
  using unsigned_less [of b, where ?'a = nat] by simp

lemma token_ranges_char: "\<not> in_ranges token_ranges b \<Longrightarrow> b \<noteq> 32 \<and> b \<noteq> 58 \<and> token_char_map b"
  using unat_u8_less [of b] by (simp add: token_ranges_def token_char_map_def byte_arith) presburger

lemma path_ranges_char: "\<not> in_ranges path_ranges b \<Longrightarrow> b \<noteq> 32 \<and> path_char b"
  by (simp add: path_ranges_def path_char_def byte_arith) presburger

lemma parse_token_eq:
  assumes "c = 32 \<or> c = 58"
  shows "parse_token sse c buf = token_spec token_char_map c buf"
proof -
  obtain found rest where fr: "findchar_fast sse token_ranges buf = (found, rest)" by fastforce
  then obtain pre where pre: "buf = pre @ rest" "\<forall>b\<in>set pre. \<not> in_ranges token_ranges b"
    and fnd: "found \<Longrightarrow> rest \<noteq> []"
    using findchar_fast_spec [of token_ranges buf sse] by (auto simp: find_spec_def)
  then have "\<forall>b\<in>set pre. b \<noteq> c \<and> token_char_map b" using assms token_ranges_char by blast
  then show ?thesis
    using fr fnd pre(1) by (auto simp: parse_token_def token_loop_spec [of c rest pre, simplified] token_spec_skip token_spec_Nil)
qed

lemma advance_token_eq: "advance_token sse buf = token_spec path_char SP buf"
proof -
  obtain found rest where fr: "findchar_fast sse path_ranges buf = (found, rest)" by fastforce
  then obtain pre where pre: "buf = pre @ rest" "\<forall>b\<in>set pre. \<not> in_ranges path_ranges b"
    and fnd: "found \<Longrightarrow> rest \<noteq> []"
    using findchar_fast_spec [of path_ranges buf sse] by (auto simp: find_spec_def)
  then have "\<forall>b\<in>set pre. b \<noteq> SP \<and> path_char b" using path_ranges_char by blast
  then show ?thesis
    using fr fnd pre(1) by (auto simp: advance_token_def path_loop_spec [of rest pre, simplified] token_spec_skip token_spec_Nil)
qed

lemma eol_ranges_ctl: "in_ranges eol_ranges b \<longleftrightarrow> is_ctl b"
  by (simp add: eol_ranges_def is_ctl_def byte_arith) presburger

lemma printable_not_ctl: "is_printable_ascii b \<Longrightarrow> \<not> is_ctl b"
  by (auto simp: is_printable_ascii_iff is_ctl_def)

lemma eol_loop_cond: "\<not> is_printable_ascii b \<and> is_ctl b \<longleftrightarrow> is_ctl b"
  using printable_not_ctl by blast

lemma eol_fast_spec: "find_spec eol_ranges buf (eol_fast buf)"
proof (induction buf rule: eol_fast.induct)
  case (1 buf)
  let ?i = "length (takeWhile is_printable_ascii (take 8 buf))"
  have le: "?i \<le> length (take 8 buf)" by (rule length_takeWhile_le)
  have "take ?i buf = takeWhile is_printable_ascii (take 8 buf)"
    by (metis le length_take min.boundedE take_take min.absorb1 takeWhile_eq_take)
  then have pre: "\<forall>b\<in>set (take ?i buf). \<not> in_ranges eol_ranges b"
    by (auto simp: eol_ranges_ctl dest!: set_takeWhileD printable_not_ctl)
  consider (short) "length buf < 8" | (all) "\<not> length buf < 8" "?i = 8"
    | (ctl) "\<not> length buf < 8" "?i \<noteq> 8" "is_ctl (buf ! ?i)"
    | (other) "\<not> length buf < 8" "?i \<noteq> 8" "\<not> is_ctl (buf ! ?i)" by blast
  then show ?case
  proof cases
    case short
    then show ?thesis by (subst eol_fast.simps) (simp add: find_spec_def)
  next
    case all
    then show ?thesis using find_spec_skip [OF 1(1) [OF all(1) refl all(2)]] pre
      by (subst eol_fast.simps) simp
  next
    case ctl
    then have "?i < length buf" using le by auto
    then have "find_spec eol_ranges buf (True, drop ?i buf)"
      using pre ctl by (intro find_spec_stop) (auto simp: eol_ranges_ctl)
    with ctl show ?thesis by (subst eol_fast.simps) simp
  next
    case other
    have "?i < length buf" using le other by auto
    then have "\<forall>b\<in>set (take (?i + 1) buf). \<not> in_ranges eol_ranges b"
      using pre other by (auto simp: eol_ranges_ctl take_Suc_conv_app_nth)
    then have "find_spec eol_ranges buf (eol_fast (drop (?i + 1) buf))"
      using find_spec_skip 1(2) [OF other(1) refl other(2,3)] by blast
    with other show ?thesis by (subst eol_fast.simps) simp
  qed
qed

lemma eol_loop_spec: "eol_loop buf = pres_bind (span_until is_ctl buf) (\<lambda>_. P_ok ())"
  by (induction buf rule: eol_loop.induct) (auto simp: span_until_def eol_loop_cond)

lemma found_ctl_spec:
  "rest \<noteq> [] \<Longrightarrow> found_ctl (t @ rest) rest =
     (case rest of [] \<Rightarrow> P_ret kParseIncomplete
       | b # rest2 \<Rightarrow>
           if b = CR then pres_bind (expect_char LF rest2) (\<lambda>_ rest3. P_ok t rest3)
           else if b = LF then P_ok t rest2 else P_ret kParseFailed)"
  by (cases rest; cases "tl rest") (auto simp: expect_char_def check_eof_def)

lemma get_token_to_eol_eq: "get_token_to_eol sse buf = line_spec buf"
proof -
  obtain found rest where fr: "(if sse then findchar_fast sse eol_ranges buf else eol_fast buf) = (found, rest)"
    by fastforce
  then have "find_spec eol_ranges buf (found, rest)"
    using findchar_fast_spec [of eol_ranges buf sse] eol_fast_spec [of buf] by (auto split: if_splits)
  then obtain pre where pre: "buf = pre @ rest" "\<forall>b\<in>set pre. \<not> is_ctl b"
    and fnd: "found \<Longrightarrow> rest \<noteq> [] \<and> is_ctl (hd rest)"
    by (auto simp: find_spec_def eol_ranges_ctl)
  have "line_spec buf = pres_bind (span_until is_ctl rest) (\<lambda>t r. found_ctl buf r)"
    using pre span_until_skip [OF pre(2), of rest]
    by (auto simp: line_spec_def span_until_def found_ctl_spec [symmetric])
  moreover have "found \<Longrightarrow> span_until is_ctl rest = P_ok [] rest"
    using fnd by (cases rest) (auto simp: span_until_def)
  ultimately show ?thesis
    using fr by (cases "span_until is_ctl rest") (auto simp: get_token_to_eol_def eol_loop_spec split: if_splits)
qed

subsection \<open>Reading a prefix of the input\<close>

text \<open>
  The law that makes a parser usable on a stream: a run on a prefix of the input either asks for more
  (\<^verbatim>\<open>kParseIncomplete\<close>) or has already the outcome that it has on the whole input.
\<close>

fun pres_ext :: "u8 list \<Rightarrow> 'a pres \<Rightarrow> 'a pres" where
  "pres_ext ys (P_ok x rest) = P_ok x (rest @ ys)"
| "pres_ext ys r = r"

definition undecided :: "'a pres \<Rightarrow> bool" where
  "undecided r \<longleftrightarrow> r = P_ret kParseIncomplete \<or> r = P_overrun"

lemma kParse_distinct [simp]: "kParseFailed \<noteq> kParseIncomplete" "kParseIncomplete \<noteq> kParseFailed"
  by (simp_all add: kParseIncomplete_def kParseFailed_def)

lemma undecided_ret [simp]: "undecided (P_ret r) \<longleftrightarrow> r = kParseIncomplete"
  by (simp add: undecided_def)

lemma undecided_simps [simp]:
  "undecided (P_ret kParseIncomplete)" "undecided P_overrun" "\<not> undecided (P_ok x rest)"
  by (simp_all add: undecided_def)

definition incremental :: "(u8 list \<Rightarrow> 'a pres) \<Rightarrow> bool" where
  "incremental p \<longleftrightarrow> (\<forall>xs ys. undecided (p xs) \<or> p (xs @ ys) = pres_ext ys (p xs))"

named_theorems incr_intros

lemma incrementalI: "(\<And>xs ys. \<not> undecided (p xs) \<Longrightarrow> p (xs @ ys) = pres_ext ys (p xs)) \<Longrightarrow> incremental p"
  unfolding incremental_def by blast

lemma incrementalD: "incremental p \<Longrightarrow> \<not> undecided (p xs) \<Longrightarrow> p (xs @ ys) = pres_ext ys (p xs)"
  unfolding incremental_def by blast

lemma undecided_bind: "undecided r \<Longrightarrow> undecided (pres_bind r f)"
  by (auto simp: undecided_def)

lemma incremental_bind [incr_intros]:
  assumes "incremental p" and "\<And>x. incremental (q x)"
  shows "incremental (\<lambda>xs. pres_bind (p xs) q)"
proof (rule incrementalI)
  fix xs ys
  assume dec: "\<not> undecided (pres_bind (p xs) q)"
  then have "p (xs @ ys) = pres_ext ys (p xs)" using assms(1) undecided_bind by (blast intro: incrementalD)
  with dec show "pres_bind (p (xs @ ys)) q = pres_ext ys (pres_bind (p xs) q)"
    using assms(2) by (cases "p xs") (auto dest: incrementalD)
qed

lemma incremental_ok [incr_intros]: "incremental (\<lambda>xs. P_ok x xs)"
  by (simp add: incremental_def)

lemma incremental_ret [incr_intros]: "incremental (\<lambda>xs. P_ret r)"
  by (simp add: incremental_def)

lemma incremental_if [incr_intros]: "incremental p \<Longrightarrow> incremental q \<Longrightarrow> incremental (\<lambda>xs. if c then p xs else q xs)"
  by (cases c) simp_all

lemma incremental_case [incr_intros]:
  assumes "undecided e" and "\<And>b. incremental (\<lambda>xs. f b xs)"
  shows "incremental (\<lambda>xs. case xs of [] \<Rightarrow> e | b # rest \<Rightarrow> f b rest)"
  using assms by (auto simp: incremental_def split: list.splits)

lemma incremental_peek [incr_intros]:
  assumes "undecided e" and "\<And>b. incremental (f b)"
  shows "incremental (\<lambda>xs. case xs of [] \<Rightarrow> e | b # rest \<Rightarrow> f b xs)"
  unfolding incremental_def
proof (intro allI)
  fix xs ys
  show "undecided (case xs of [] \<Rightarrow> e | b # rest \<Rightarrow> f b xs) \<or>
    (case xs @ ys of [] \<Rightarrow> e | b # rest \<Rightarrow> f b (xs @ ys)) = pres_ext ys (case xs of [] \<Rightarrow> e | b # rest \<Rightarrow> f b xs)"
    using assms(1) incrementalD [OF assms(2), of "hd xs" xs ys] by (cases xs) auto
qed

lemma incremental_span_until [incr_intros]: "incremental (span_until P)"
proof (rule incrementalI)
  fix xs ys
  assume "\<not> undecided (span_until P xs)"
  then obtain x where "x \<in> set xs" "P x" by (auto simp: span_until_def split: if_splits)
  then show "span_until P (xs @ ys) = pres_ext ys (span_until P xs)"
    by (auto simp: span_until_def dropWhile_append1 takeWhile_append1)
qed

lemma incremental_token_spec [incr_intros]: "incremental (token_spec ok c)"
  unfolding token_spec_def by (intro incr_intros undecided_simps)

lemma incremental_expect_no_check [incr_intros]: "incremental (expect_char_no_check c)"
proof (rule incrementalI)
  fix xs ys
  assume "\<not> undecided (expect_char_no_check c xs)"
  then show "expect_char_no_check c (xs @ ys) = pres_ext ys (expect_char_no_check c xs)" by (cases xs) auto
qed

lemma incremental_parse_int [incr_intros]: "incremental (parse_int mul)"
proof (rule incrementalI)
  fix xs ys
  assume "\<not> undecided (parse_int mul xs)"
  then show "parse_int mul (xs @ ys) = pres_ext ys (parse_int mul xs)" by (cases xs) auto
qed

lemma incremental_check_eof [incr_intros]: "incremental check_eof"
  by (auto simp: incremental_def check_eof_def)

lemma incremental_expect_char [incr_intros]: "incremental (expect_char c)"
  unfolding expect_char_def by (intro incr_intros)

lemma incremental_line_spec [incr_intros]: "incremental line_spec"
  unfolding line_spec_def by (intro incr_intros undecided_simps)

lemma incremental_at_least:
  assumes "incremental p"
  shows "incremental (\<lambda>xs. if length xs < n then P_ret kParseIncomplete else p xs)"
  using assms by (auto simp: incremental_def)

lemma incremental_parse_http_version [incr_intros]: "incremental parse_http_version"
  unfolding parse_http_version_def by (intro incremental_at_least incr_intros)

lemma incremental_skip_blanks [incr_intros]: "incremental skip_blanks"
proof (rule incrementalI)
  fix xs ys
  show "\<not> undecided (skip_blanks xs) \<Longrightarrow> skip_blanks (xs @ ys) = pres_ext ys (skip_blanks xs)"
    by (induction xs rule: skip_blanks.induct) auto
qed

lemma incremental_skip_spaces [incr_intros]: "incremental skip_spaces"
proof (rule incrementalI)
  fix xs ys
  show "\<not> undecided (skip_spaces xs) \<Longrightarrow> skip_spaces (xs @ ys) = pres_ext ys (skip_spaces xs)"
  proof (induction xs)
    case (Cons b rest)
    then show ?case by (cases rest) auto
  qed simp
qed

lemma incremental_skip_empty_line [incr_intros]: "incremental skip_empty_line"
proof (rule incrementalI)
  fix xs ys
  assume "\<not> undecided (skip_empty_line xs)"
  then show "skip_empty_line (xs @ ys) = pres_ext ys (skip_empty_line xs)"
    using incrementalD [OF incremental_expect_char, of LF "tl xs" ys]
    by (cases xs) (auto simp: skip_empty_line_def)
qed

lemma incremental_end_of_line [incr_intros]: "incremental end_of_line"
  unfolding end_of_line_def by (intro incr_intros undecided_simps)

lemma parse_header_name_eq:
  "parse_header_name sse buf =
     pres_bind (token_spec token_char_map 58 buf) (\<lambda>header_name buf.
       if header_name = [] then P_ret kParseFailed
       else case buf of [] \<Rightarrow> P_overrun | _ # buf \<Rightarrow> pres_bind (skip_blanks buf) (\<lambda>_. P_ok header_name))"
  by (cases "token_spec token_char_map 58 buf")
    (auto simp: parse_header_name_def parse_token_eq split: list.splits)

lemma incremental_parse_header_name [incr_intros]: "incremental (parse_header_name sse)"
  unfolding parse_header_name_eq by (intro incr_intros undecided_simps)

text \<open>The same law for the parsers with a message as state.\<close>

definition sp_incremental :: "('s \<Rightarrow> u8 list \<Rightarrow> 's \<times> 'a pres) \<Rightarrow> bool" where
  "sp_incremental p \<longleftrightarrow>
     (\<forall>s xs ys. undecided (snd (p s xs)) \<or> p s (xs @ ys) = (fst (p s xs), pres_ext ys (snd (p s xs))))"

lemma sp_incrementalD:
  "sp_incremental p \<Longrightarrow> \<not> undecided (snd (p s xs)) \<Longrightarrow> p s (xs @ ys) = (fst (p s xs), pres_ext ys (snd (p s xs)))"
  unfolding sp_incremental_def by blast

lemma sp_incremental_lift [incr_intros]: "incremental p \<Longrightarrow> sp_incremental (sp_lift p)"
  by (auto simp: incremental_def sp_incremental_def sp_lift_def)

lemma sp_incremental_set [incr_intros]: "sp_incremental (sp_set f)"
  by (simp add: sp_incremental_def sp_set_def)

lemma sp_incremental_bind [incr_intros]:
  assumes "sp_incremental p" and "\<And>x. sp_incremental (q x)"
  shows "sp_incremental (sp_bind p q)"
  unfolding sp_incremental_def
proof (intro allI)
  fix s xs ys
  obtain s' r where p: "p s xs = (s', r)" by fastforce
  show "undecided (snd (sp_bind p q s xs)) \<or>
    sp_bind p q s (xs @ ys) = (fst (sp_bind p q s xs), pres_ext ys (snd (sp_bind p q s xs)))"
  proof (cases "undecided r")
    case True
    with p show ?thesis by (auto simp: sp_bind_def undecided_def)
  next
    case False
    with p sp_incrementalD [OF assms(1), of s xs ys] have "p s (xs @ ys) = (s', pres_ext ys r)" by simp
    with p show ?thesis
      using sp_incrementalD [OF assms(2)] by (cases r) (auto simp: sp_bind_def)
  qed
qed

lemma headers_loop_incremental:
  "\<not> undecided (snd (headers_loop sse n hs xs)) \<Longrightarrow>
   headers_loop sse n hs (xs @ ys) =
     (fst (headers_loop sse n hs xs), pres_ext ys (snd (headers_loop sse n hs xs)))"
proof (induction sse n hs xs rule: headers_loop.induct)
  case (2 sse n hs b rest)
  show ?case
  proof (cases "b = CR \<or> b = LF")
    case True
    then show ?thesis
      using 2(2) incrementalD [OF incremental_expect_char, of LF rest ys] by auto
  next
    case False
    define name where "name = (\<lambda>buf. if \<not> (n \<noteq> 0 \<and> (b = SP \<or> b = HT)) then parse_header_name sse buf else P_ok [] buf)"
    have name_incr: "incremental name" unfolding name_def by (intro incr_intros)
    show ?thesis
    proof (cases "name (b # rest)")
      case (P_ok x buf)
      then have name_ext: "name (b # rest @ ys) = P_ok x (buf @ ys)"
        using incrementalD [OF name_incr, of "b # rest" ys] by simp
      show ?thesis
      proof (cases "get_token_to_eol sse buf")
        case (P_ok v buf2)
        then have "get_token_to_eol sse (buf @ ys) = P_ok v (buf2 @ ys)"
          using incrementalD [OF incremental_line_spec, of buf ys] by (simp add: get_token_to_eol_eq)
        with P_ok name_ext \<open>name (b # rest) = P_ok x buf\<close> False 2 show ?thesis by (simp add: name_def)
      qed (use False 2(2) name_ext \<open>name (b # rest) = P_ok x buf\<close>
          incrementalD [OF incremental_line_spec, of buf ys]
          in \<open>auto simp: name_def get_token_to_eol_eq\<close>)
    qed (use False 2(2) incrementalD [OF name_incr, of "b # rest" ys] in \<open>auto simp: name_def\<close>)
  qed
qed simp

lemma skip_message_spaces_line:
  "b \<noteq> SP \<Longrightarrow> skip_message_spaces (a # w @ b # r) (Suc (length w)) =
     P_ok (dropWhile (\<lambda>c. c = SP) w @ b # r, length (dropWhile (\<lambda>c. c = SP) w)) []"
proof (induction w arbitrary: a)
  case (Cons c w)
  then show ?case by (cases w) auto
qed simp

lemma line_spec_rest:
  assumes "line_spec buf = P_ok t rest"
  shows "(buf = t @ CR # LF # rest \<or> buf = t @ LF # rest) \<and> (\<forall>b\<in>set t. \<not> is_ctl b)"
proof -
  obtain r where r: "span_until is_ctl buf = P_ok t r" and
    after: "(case r of [] \<Rightarrow> P_ret kParseIncomplete
       | b # rest2 \<Rightarrow>
           if b = CR then pres_bind (expect_char LF rest2) (\<lambda>_ rest3. P_ok t rest3)
           else if b = LF then P_ok t rest2 else P_ret kParseFailed) = P_ok t rest"
    using assms by (fastforce simp: line_spec_def pres_bind_eq_P_ok split: list.splits if_splits)
  from r have "buf = t @ r" "\<forall>b\<in>set t. \<not> is_ctl b"
    by (auto simp: span_until_def split: if_splits dest: set_takeWhileD)
  moreover have "r = CR # LF # rest \<or> r = LF # rest"
    using after by (auto simp: pres_bind_eq_P_ok expect_char_def check_eof_def split: list.splits if_splits
        elim!: expect_char_no_check.elims)
  ultimately show ?thesis by auto
qed

lemma parse_message_eq:
  "parse_message sse t line =
     (case line_spec line of
        P_ret r \<Rightarrow> (t, P_ret r)
      | P_overrun \<Rightarrow> (t, P_overrun)
      | P_ok msg buf \<Rightarrow>
          if msg = [] then (t\<lparr>resp_message := []\<rparr>, P_ok () buf)
          else if msg ! 0 = SP then (t\<lparr>resp_message := dropWhile (\<lambda>c. c = SP) msg\<rparr>, P_ok () buf)
          else (t\<lparr>resp_message := msg\<rparr>, P_ret kParseFailed))"
proof (cases "line_spec line")
  case (P_ok msg buf)
  show ?thesis
  proof (cases "msg \<noteq> [] \<and> msg ! 0 = SP")
    case True
    then obtain w where msg: "msg = SP # w" by (cases msg) auto
    from line_spec_rest [OF P_ok] obtain b r where "line = SP # w @ b # r" "b \<noteq> SP" by (auto simp: msg)
    then have "skip_message_spaces line (length msg) =
        P_ok (dropWhile (\<lambda>c. c = SP) w @ b # r, length (dropWhile (\<lambda>c. c = SP) w)) []"
      using skip_message_spaces_line [of b SP w r] msg by simp
    with True P_ok show ?thesis by (simp add: parse_message_def get_token_to_eol_eq msg)
  qed (use P_ok in \<open>auto simp: parse_message_def get_token_to_eol_eq\<close>)
qed (simp_all add: parse_message_def get_token_to_eol_eq)

lemma sp_incremental_parse_message [incr_intros]: "sp_incremental (parse_message sse)"
  unfolding sp_incremental_def
proof (intro allI)
  fix t xs ys
  show "undecided (snd (parse_message sse t xs)) \<or>
    parse_message sse t (xs @ ys) = (fst (parse_message sse t xs), pres_ext ys (snd (parse_message sse t xs)))"
    using incrementalD [OF incremental_line_spec, of xs ys]
    by (cases "line_spec xs"; cases "undecided (line_spec xs)") (auto simp: parse_message_eq)
qed

lemma sp_incremental_headers [incr_intros]:
  "sp_incremental (\<lambda>t buf. case parse_headers_impl sse (get t) buf of (headers, r) \<Rightarrow> (put headers t, r))"
  using headers_loop_incremental
  by (fastforce simp: sp_incremental_def parse_headers_impl_def split: prod.splits)

lemma parser_eqs:
  "parse_token sse SP = token_spec token_char_map SP" "advance_token sse = token_spec path_char SP"
  by (auto simp: parse_token_eq advance_token_eq)

lemma sp_incremental_request: "sp_incremental (parse_request_impl sse)"
  unfolding parse_request_impl_def parser_eqs
  by (intro incr_intros)

lemma sp_incremental_response: "sp_incremental (parse_response_impl sse)"
  unfolding parse_response_impl_def parse_int_3_def
  by (intro incr_intros incremental_at_least undecided_simps)

subsection \<open>What a parser consumes\<close>

text \<open>
  Every carriage return of a well-formed head is followed by a line feed, and the head ends with an
  empty line.
\<close>

fun crlf_paired :: "u8 list \<Rightarrow> bool" where
  "crlf_paired [] = True"
| "crlf_paired (b # rest) =
     (if b = CR then (case rest of [] \<Rightarrow> False | c # rest2 \<Rightarrow> c = LF \<and> crlf_paired rest2) else crlf_paired rest)"

lemma crlf_paired_append: "crlf_paired xs \<Longrightarrow> crlf_paired ys \<Longrightarrow> crlf_paired (xs @ ys)"
  by (induction xs rule: crlf_paired.induct) (auto split: list.splits if_splits)

lemma crlf_paired_no_CR: "CR \<notin> set xs \<Longrightarrow> crlf_paired xs"
  by (induction xs) auto

definition empty_line_end :: "u8 list \<Rightarrow> bool" where
  "empty_line_end c \<longleftrightarrow> (\<exists>u. c = u @ [LF, LF] \<or> c = u @ [LF, CR, LF])"

lemma empty_line_end_append: "empty_line_end d \<Longrightarrow> empty_line_end (c @ d)"
  unfolding empty_line_end_def by (metis append.assoc)

text \<open>A regular outcome is a success or one of the two documented results, never an overrun.\<close>

fun regular :: "'a pres \<Rightarrow> bool" where
  "regular (P_ok x rest) = True"
| "regular (P_ret r) \<longleftrightarrow> r = kParseFailed \<or> r = kParseIncomplete"
| "regular P_overrun = False"

lemma regular_bind: "regular r \<Longrightarrow> (\<And>x rest. r = P_ok x rest \<Longrightarrow> regular (f x rest)) \<Longrightarrow> regular (pres_bind r f)"
  by (cases r) auto

text \<open>A parser that is started where \<open>P\<close> holds has a regular outcome, and what it consumes satisfies \<open>Q\<close>
  together with its result and the rest of the input.\<close>

definition consumes :: "(u8 list \<Rightarrow> bool) \<Rightarrow> ('s \<Rightarrow> u8 list \<Rightarrow> 's \<times> 'a pres) \<Rightarrow> ('a \<Rightarrow> u8 list \<Rightarrow> u8 list \<Rightarrow> bool) \<Rightarrow> bool" where
  "consumes P p Q \<longleftrightarrow>
     (\<forall>s xs. P xs \<longrightarrow> regular (snd (p s xs)) \<and>
        (\<forall>x rest. snd (p s xs) = P_ok x rest \<longrightarrow> (\<exists>c. xs = c @ rest \<and> crlf_paired c \<and> Q x c rest)))"

lemma consumes_regular: "consumes P p Q \<Longrightarrow> P xs \<Longrightarrow> regular (snd (p s xs))"
  unfolding consumes_def by blast

named_theorems consumes_intros

lemma consumes_lift:
  assumes "\<And>xs. P xs \<Longrightarrow> regular (p xs)"
    and "\<And>xs x rest. P xs \<Longrightarrow> p xs = P_ok x rest \<Longrightarrow> \<exists>c. xs = c @ rest \<and> crlf_paired c \<and> Q x c rest"
  shows "consumes P (sp_lift p) Q"
  using assms by (simp add: consumes_def sp_lift_def)

lemma consumes_set [consumes_intros]: "consumes P (sp_set f) (\<lambda>_ _. P)"
  by (simp add: consumes_def sp_set_def)

lemma consumes_bind:
  assumes "consumes P p Q" and "\<And>x c. consumes (Q x c) (q x) (\<lambda>y d. R y (c @ d))"
  shows "consumes P (sp_bind p q) R"
  unfolding consumes_def
proof (intro allI impI)
  fix s xs
  assume "P xs"
  obtain s' r where p: "p s xs = (s', r)" by fastforce
  show "regular (snd (sp_bind p q s xs)) \<and>
    (\<forall>x rest. snd (sp_bind p q s xs) = P_ok x rest \<longrightarrow> (\<exists>c. xs = c @ rest \<and> crlf_paired c \<and> R x c rest))"
  proof (cases r)
    case (P_ok x rest)
    with assms(1) \<open>P xs\<close> p obtain c where c: "xs = c @ rest" "crlf_paired c" "Q x c rest"
      unfolding consumes_def by (metis snd_conv)
    with assms(2) have "regular (snd (q x s' rest)) \<and>
        (\<forall>y rest'. snd (q x s' rest) = P_ok y rest' \<longrightarrow> (\<exists>d. rest = d @ rest' \<and> crlf_paired d \<and> R y (c @ d) rest'))"
      unfolding consumes_def by blast
    with p P_ok c show ?thesis by (fastforce simp: sp_bind_def intro: crlf_paired_append)
  qed (use consumes_regular [OF assms(1) \<open>P xs\<close>, of s] p in \<open>auto simp: sp_bind_def\<close>)
qed

text \<open>In a parser of a whole head only the last steps matter for how the consumed part ends.\<close>

lemma consumes_head [consumes_intros]:
  assumes "consumes P p (\<lambda>x _. Q x)" and "\<And>x. consumes (Q x) (q x) (\<lambda>_ d _. empty_line_end d)"
  shows "consumes P (sp_bind p q) (\<lambda>_ d _. empty_line_end d)"
proof (rule consumes_bind [OF assms(1)])
  show "consumes (Q x) (q x) (\<lambda>y d a. empty_line_end (c @ d))" for x c
    using assms(2) [of x] empty_line_end_append unfolding consumes_def by blast
qed

lemma token_spec_no_CR: "token_spec ok c xs = P_ok x rest \<Longrightarrow> \<not> ok CR \<Longrightarrow> CR \<notin> set x"
  by (auto simp: token_spec_def span_until_def pres_bind_eq_P_ok split: if_splits list.splits dest: set_takeWhileD)

lemma token_spec_regular: "regular (token_spec ok c xs)"
  by (simp add: token_spec_def span_until_def split: list.splits)

lemma consumes_token [consumes_intros]:
  "\<not> ok CR \<Longrightarrow> consumes P (sp_lift (token_spec ok c)) (\<lambda>_ _ rest. rest \<noteq> [] \<and> hd rest = c)"
proof (rule consumes_lift)
  show "\<exists>d. xs = d @ rest \<and> crlf_paired d \<and> rest \<noteq> [] \<and> hd rest = c"
    if "\<not> ok CR" "token_spec ok c xs = P_ok x rest" for xs x rest
    using token_spec_rest [OF that(2)] crlf_paired_no_CR [OF token_spec_no_CR [OF that(2,1)]] by blast
qed (simp add: token_spec_regular)

lemma skip_spaces_ok:
  "xs \<noteq> [] \<Longrightarrow> hd xs = SP \<Longrightarrow> regular (skip_spaces xs) \<and>
    (\<forall>x rest. skip_spaces xs = P_ok x rest \<longrightarrow> (\<exists>c. xs = c @ rest \<and> (\<forall>b\<in>set c. b = SP) \<and> rest \<noteq> []))"
proof (induction xs)
  case (Cons b xs)
  show ?case
  proof (cases "xs \<noteq> [] \<and> hd xs = SP")
    case True
    with Cons.IH have IH: "regular (skip_spaces xs)"
      "\<And>x rest. skip_spaces xs = P_ok x rest \<Longrightarrow> \<exists>c. xs = c @ rest \<and> (\<forall>b\<in>set c. b = SP) \<and> rest \<noteq> []"
      by auto
    from True have "skip_spaces (b # xs) = skip_spaces xs" by (cases xs) auto
    with IH Cons.prems(2) show ?thesis by (metis append_Cons list.sel(1) set_ConsD)
  next
    case False
    with Cons.prems(2) show ?thesis by (cases xs) (auto intro: exI [of _ "[SP]"])
  qed
qed simp

lemma consumes_skip_spaces [consumes_intros]:
  "consumes (\<lambda>xs. xs \<noteq> [] \<and> hd xs = SP) (sp_lift skip_spaces) (\<lambda>_ _ rest. rest \<noteq> [])"
  by (rule consumes_lift) (use skip_spaces_ok in \<open>fastforce intro: crlf_paired_no_CR\<close>)+

lemma consumes_guard [consumes_intros]:
  "consumes P (sp_lift (\<lambda>buf. if c then P_ret kParseFailed else P_ok x buf)) (\<lambda>_ _. P)"
  by (rule consumes_lift) (auto split: if_splits intro: exI [of _ "[]"])

lemma expect_char_ok: "expect_char c xs = P_ok x rest \<longleftrightarrow> xs = c # rest"
  by (cases xs) (auto simp: expect_char_def check_eof_def)

lemma expect_char_regular: "regular (expect_char c xs)"
  by (cases xs) (auto simp: expect_char_def check_eof_def)

lemma parse_http_version_ok:
  "regular (parse_http_version xs) \<and>
   (parse_http_version xs = P_ok x rest \<longrightarrow> (\<exists>d. xs = [72, 84, 84, 80, 47, 49, 46, d] @ rest \<and> d \<noteq> CR \<and> rest \<noteq> []))"
proof (cases "length xs < 9")
  case False
  then obtain a b c d e f g h i r where "xs = a # b # c # d # e # f # g # h # i # r"
    by (auto simp: not_less numeral_eq_Suc Suc_le_length_iff)
  then show ?thesis by (auto simp: parse_http_version_def)
qed (simp add: parse_http_version_def)

lemma consumes_http_version [consumes_intros]:
  "consumes P (sp_lift parse_http_version) (\<lambda>_ _ rest. rest \<noteq> [])"
  by (rule consumes_lift) (use parse_http_version_ok in \<open>fastforce intro: crlf_paired_no_CR\<close>)+

lemma consumes_end_of_line:
  "consumes (\<lambda>xs. xs \<noteq> []) (sp_lift end_of_line) (\<lambda>_ c _. \<exists>u. c = u @ [LF])"
proof (rule consumes_lift)
  show "\<exists>c. xs = c @ rest \<and> crlf_paired c \<and> (\<exists>u. c = u @ [LF])" if "end_of_line xs = P_ok x rest" for xs x rest
    using that by (cases xs) (auto simp: end_of_line_def expect_char_ok split: if_splits intro: exI [of _ "[LF]"] exI [of _ "[CR, LF]"])
qed (auto simp: end_of_line_def expect_char_regular split: list.splits)

lemma line_spec_regular: "regular (line_spec xs)"
  unfolding line_spec_def
  by (rule regular_bind) (auto simp: span_until_def expect_char_regular intro!: regular_bind split: list.splits)

lemma line_spec_consumes:
  assumes "line_spec xs = P_ok t rest"
  shows "\<exists>c. xs = c @ rest \<and> crlf_paired c \<and> (\<exists>u. c = u @ [LF])"
proof -
  have "CR \<notin> set t" using line_spec_rest [OF assms] by (auto simp: is_ctl_def)
  then have "crlf_paired (t @ [LF])" "crlf_paired (t @ [CR, LF])" by (simp_all add: crlf_paired_no_CR crlf_paired_append)
  then show ?thesis using line_spec_rest [OF assms] by (metis append.assoc append_Cons append_Nil)
qed

lemma skip_blanks_consumes:
  "regular (skip_blanks xs) \<and> (skip_blanks xs = P_ok x rest \<longrightarrow> (\<exists>c. xs = c @ rest \<and> crlf_paired c))"
proof (induction xs)
  case (Cons b xs)
  then show ?case by (auto intro: exI [of _ "b # _"] exI [of _ "[]"])
qed simp

lemma parse_header_name_regular: "regular (parse_header_name sse xs)"
  unfolding parse_header_name_eq
proof (rule regular_bind [OF token_spec_regular])
  show "regular (if t = [] then P_ret kParseFailed
      else case r of [] \<Rightarrow> P_overrun | _ # buf \<Rightarrow> pres_bind (skip_blanks buf) (\<lambda>_. P_ok t))"
    if "token_spec token_char_map 58 xs = P_ok t r" for t r
    using token_spec_rest [OF that] skip_blanks_consumes by (auto intro!: regular_bind split: list.splits)
qed

lemma parse_header_name_consumes:
  assumes "parse_header_name sse xs = P_ok x rest"
  shows "\<exists>c. xs = c @ rest \<and> crlf_paired c"
proof -
  obtain t r where t: "token_spec token_char_map 58 xs = P_ok t r"
    and "(if t = [] then P_ret kParseFailed
       else case r of [] \<Rightarrow> P_overrun | _ # buf \<Rightarrow> pres_bind (skip_blanks buf) (\<lambda>_. P_ok t)) = P_ok x rest"
    using assms by (auto simp: parse_header_name_eq pres_bind_eq_P_ok)
  then obtain b r' where "r = b # r'" "skip_blanks r' = P_ok () rest"
    by (auto simp: pres_bind_eq_P_ok split: if_splits list.splits)
  with t token_spec_rest [OF t] skip_blanks_consumes [of r' "()" rest] obtain c
    where c: "xs = (t @ [58]) @ c @ rest" "crlf_paired c" by auto
  have "crlf_paired (t @ [58])" using token_spec_no_CR [OF t]
    by (intro crlf_paired_no_CR) (simp add: token_char_map_def)
  from crlf_paired_append [OF this c(2)] c(1) show ?thesis by (metis append.assoc)
qed

lemma headers_loop_consumes:
  "regular (snd (headers_loop sse n hs xs)) \<and>
   (\<forall>x rest. snd (headers_loop sse n hs xs) = P_ok x rest \<longrightarrow>
      (\<exists>c. xs = c @ rest \<and> crlf_paired c \<and> empty_line_end (LF # c)))"
proof (induction sse n hs xs rule: headers_loop.induct)
  case (2 sse n hs b rest)
  show ?case
  proof (cases "b = CR \<or> b = LF")
    case True
    have "empty_line_end [LF, LF]" "empty_line_end [LF, CR, LF]" by (auto simp: empty_line_end_def)
    with True show ?thesis
      by (auto simp: expect_char_ok expect_char_regular intro: exI [of _ "[LF]"] exI [of _ "[CR, LF]"])
  next
    case False
    define r where "r = (if \<not> (n \<noteq> 0 \<and> (b = SP \<or> b = HT)) then parse_header_name sse (b # rest) else P_ok [] (b # rest))"
    show ?thesis
    proof (cases r)
      case (P_ok name buf)
      then obtain c where c: "b # rest = c @ buf" "crlf_paired c"
        using parse_header_name_consumes [of sse "b # rest" name buf]
        by (cases "n \<noteq> 0 \<and> (b = SP \<or> b = HT)") (auto simp: r_def intro: that [of "[]"])
      show ?thesis
      proof (cases "get_token_to_eol sse buf")
        case (P_ok v buf2)
        then obtain d where d: "buf = d @ buf2" "crlf_paired d" "\<exists>u. d = u @ [LF]"
          using line_spec_consumes [of buf v buf2] by (auto simp: get_token_to_eol_eq)
        have "\<exists>e. b # rest = e @ rest' \<and> crlf_paired e \<and> empty_line_end (LF # e)"
          if "buf2 = f @ rest'" "crlf_paired f" "empty_line_end (LF # f)" for f rest'
        proof -
          obtain u where "d = u @ [LF]" using d(3) by blast
          then have "empty_line_end (LF # c @ d @ f)"
            using empty_line_end_append [OF that(3), of "LF # c @ u"] by simp
          then show ?thesis using c d that by (intro exI [of _ "c @ d @ f"]) (auto intro!: crlf_paired_append)
        qed
        with P_ok \<open>r = P_ok name buf\<close> False 2 show ?thesis by (fastforce simp: r_def)
      qed (use P_ok False line_spec_regular [of buf] in \<open>auto simp: r_def get_token_to_eol_eq\<close>)
    qed (use False parse_header_name_regular [of sse "b # rest"] in \<open>auto simp: r_def split: if_splits\<close>)
  qed
qed simp

lemma consumes_headers:
  "consumes (\<lambda>_. \<exists>u. e = u @ [LF])
     (\<lambda>t buf. case parse_headers_impl sse (get t) buf of (headers, r) \<Rightarrow> (put headers t, r))
     (\<lambda>_ d _. empty_line_end (e @ d))"
proof -
  have "empty_line_end ((u @ [LF]) @ d)" if "empty_line_end (LF # d)" for u d
    using empty_line_end_append [OF that, of u] by simp
  moreover have "snd (case parse_headers_impl sse (get t) buf of (headers, r) \<Rightarrow> (put headers t, r)) =
      snd (headers_loop sse 0 (get t) buf)" for t buf
    by (simp add: parse_headers_impl_def split: prod.splits)
  ultimately show ?thesis using headers_loop_consumes
    unfolding consumes_def by metis
qed

lemma consumes_line_then_headers [consumes_intros]:
  assumes "consumes P p (\<lambda>_ c _. \<exists>u. c = u @ [LF])"
  shows "consumes P
     (sp_bind p (\<lambda>_ t buf. case parse_headers_impl sse (get t) buf of (headers, r) \<Rightarrow> (put headers t, r)))
     (\<lambda>_ d _. empty_line_end d)"
  by (rule consumes_bind [OF assms], rule consumes_headers)

lemma consumes_skip_empty_line: "consumes (\<lambda>_. True) (sp_lift skip_empty_line) (\<lambda>_ _ _. True)"
proof (rule consumes_lift)
  show "\<exists>c. xs = c @ rest \<and> crlf_paired c \<and> True" if "skip_empty_line xs = P_ok x rest" for xs x rest
    using that by (cases xs) (auto simp: skip_empty_line_def expect_char_ok split: if_splits
        intro: exI [of _ "[LF]"] exI [of _ "[CR, LF]"] exI [of _ "[]"])
qed (auto simp: skip_empty_line_def expect_char_regular split: list.splits)

lemma consumes_method: "consumes P (sp_lift (token_spec token_char_map c)) (\<lambda>_ _ rest. rest \<noteq> [] \<and> hd rest = c)"
  by (rule consumes_token) (simp add: token_char_map_def)

lemma consumes_path: "consumes P (sp_lift (token_spec path_char c)) (\<lambda>_ _ rest. rest \<noteq> [] \<and> hd rest = c)"
  by (rule consumes_token) (simp add: path_char_def)

lemmas head_steps = consumes_head [OF consumes_skip_empty_line] consumes_head [OF consumes_method]
  consumes_head [OF consumes_path] consumes_head [OF consumes_set] consumes_head [OF consumes_skip_spaces]
  consumes_head [OF consumes_guard] consumes_head [OF consumes_http_version]

lemma consumes_request: "consumes (\<lambda>_. True) (parse_request_impl sse) (\<lambda>_ d _. empty_line_end d)"
  unfolding parse_request_impl_def parser_eqs
  by (rule head_steps consumes_line_then_headers [OF consumes_end_of_line])+

lemma consumes_at_least:
  "consumes P (sp_lift (\<lambda>buf. if length buf < n then P_ret kParseIncomplete else P_ok () buf)) (\<lambda>_ _ rest. n \<le> length rest)"
  by (rule consumes_lift) (auto split: if_splits intro: exI [of _ "[]"])

lemma consumes_space:
  "consumes (\<lambda>xs. xs \<noteq> []) (sp_lift (\<lambda>buf. case buf of [] \<Rightarrow> P_overrun | b # _ \<Rightarrow> if b \<noteq> SP then P_ret kParseFailed else P_ok () buf))
     (\<lambda>_ _ rest. rest \<noteq> [] \<and> hd rest = SP)"
  by (rule consumes_lift) (auto split: if_splits list.splits intro: exI [of _ "[]"])

lemma consumes_parse_int: "consumes (\<lambda>xs. Suc n \<le> length xs) (sp_lift (parse_int mul)) (\<lambda>_ _ rest. n \<le> length rest)"
proof (rule consumes_lift)
  show "\<exists>c. xs = c @ rest \<and> crlf_paired c \<and> n \<le> length rest"
    if "Suc n \<le> length xs" "parse_int mul xs = P_ok x rest" for xs x rest
    using that by (cases xs) (auto split: if_splits intro: exI [of _ "[_]"])
  show "regular (parse_int mul xs)" if "Suc n \<le> length xs" for xs
    using that by (cases xs) auto
qed

lemma consumes_step:
  assumes "consumes P p (\<lambda>x _. Q x)" and "\<And>x. consumes (Q x) (q x) (\<lambda>y _. R y)"
  shows "consumes P (sp_bind p q) (\<lambda>y _. R y)"
  by (rule consumes_bind [OF assms(1)]) (rule assms(2))

lemma consumes_parse_int_3: "consumes (\<lambda>xs. Suc (Suc (Suc n)) \<le> length xs) parse_int_3 (\<lambda>_ _ rest. n \<le> length rest)"
  unfolding parse_int_3_def
  by (rule consumes_step [OF consumes_parse_int] consumes_step [OF consumes_set] consumes_set)+

lemma consumes_parse_message: "consumes P (parse_message sse) (\<lambda>_ c _. \<exists>u. c = u @ [LF])"
  unfolding consumes_def
proof (intro allI impI)
  fix t xs
  show "regular (snd (parse_message sse t xs)) \<and>
    (\<forall>x rest. snd (parse_message sse t xs) = P_ok x rest \<longrightarrow>
       (\<exists>c. xs = c @ rest \<and> crlf_paired c \<and> (\<exists>u. c = u @ [LF])))"
    using line_spec_regular [of xs] line_spec_consumes [of xs]
    by (cases "line_spec xs") (auto simp: parse_message_eq)
qed

lemma consumes_response: "consumes (\<lambda>_. True) (parse_response_impl sse) (\<lambda>_ d _. empty_line_end d)"
proof -
  have four: "4 \<le> n \<longleftrightarrow> Suc (Suc (Suc 1)) \<le> n" for n :: nat by arith
  show ?thesis
    unfolding parse_response_impl_def
    by (rule head_steps consumes_head [OF consumes_space] consumes_head [OF consumes_at_least [of _ 4, unfolded four]]
        consumes_head [OF consumes_parse_int_3] consumes_line_then_headers [OF consumes_parse_message])+
qed

subsection \<open>Parsing a head that arrives in pieces\<close>

lemma empty_line_end_Cons: "b \<noteq> LF \<Longrightarrow> empty_line_end (b # c) \<Longrightarrow> empty_line_end c"
  by (auto simp: empty_line_end_def Cons_eq_append_conv)

lemma empty_line_end_LF_Cons: "b \<noteq> LF \<Longrightarrow> b \<noteq> CR \<Longrightarrow> empty_line_end (LF # b # c) \<Longrightarrow> empty_line_end c"
  by (rule empty_line_end_Cons [of b]) (auto simp: empty_line_end_def Cons_eq_append_conv)

lemma is_complete_loop_head:
  assumes "crlf_paired c" and "empty_line_end (replicate n LF @ c)" and "n \<le> 1"
  shows "\<exists>rest'. is_complete_loop n (c @ rest) = P_ok () rest'"
  using assms
proof (induction c arbitrary: n rule: crlf_paired.induct)
  case 1
  then show ?case by (cases n) (auto simp: empty_line_end_def Cons_eq_append_conv)
next
  case (2 b c)
  then have n: "n = 0 \<or> n = 1" by auto
  consider (cr) c2 where "b = CR" "c = LF # c2" | (lf) "b = LF" | (other) "b \<noteq> CR" "b \<noteq> LF"
    using 2(3) by (cases c) (auto split: if_splits)
  then show ?case
  proof cases
    case cr
    with 2(1) [OF cr, of 1] 2(3,4) n show ?thesis using empty_line_end_Cons [of CR c] by auto
  next
    case lf
    with 2 n show ?thesis by auto
  next
    case other
    then have "empty_line_end (replicate 0 LF @ c)"
      using 2(4) n by (auto dest: empty_line_end_Cons empty_line_end_LF_Cons)
    with 2 other show ?thesis by auto
  qed
qed

lemma crlf_paired_drop: "crlf_paired c \<Longrightarrow> crlf_paired (drop m c)"
proof (induction m arbitrary: c)
  case (Suc m)
  have "crlf_paired (tl c)"
    using Suc.prems by (cases c; cases "tl c") (simp_all split: if_splits)
  with Suc.IH [of "tl c"] show ?case by (simp add: drop_Suc)
qed simp

lemma empty_line_end_drop:
  assumes "empty_line_end c" and "m + 3 \<le> length c"
  shows "empty_line_end (drop m c)"
proof -
  obtain u where "c = u @ [LF, LF] \<or> c = u @ [LF, CR, LF]" using assms(1) by (auto simp: empty_line_end_def)
  moreover have "m \<le> length u" using assms(2) calculation by auto
  ultimately have "drop m c = drop m u @ [LF, LF] \<or> drop m c = drop m u @ [LF, CR, LF]" by auto
  then show ?thesis unfolding empty_line_end_def by blast
qed

lemma is_complete_head:
  assumes "crlf_paired c" and "empty_line_end c" and "last_len < length c"
  shows "\<exists>rest'. is_complete (c @ rest) last_len = P_ok () rest'"
proof (cases "last_len < 3")
  case True
  then show ?thesis using is_complete_loop_head [of c 0 rest] assms by (simp add: is_complete_def)
next
  case False
  have "crlf_paired (drop (last_len - 3) c)" "empty_line_end (drop (last_len - 3) c)"
    using assms False by (simp_all add: crlf_paired_drop empty_line_end_drop)
  with False assms(3) show ?thesis
    using is_complete_loop_head [of "drop (last_len - 3) c" 0 rest] by (simp add: is_complete_def)
qed

text \<open>
  A parser of a message head: what it decides on a prefix it decides on the whole input, it does not
  overrun, and it consumes a head that ends with an empty line.
\<close>

locale head_parser =
  fixes parse :: "'s \<Rightarrow> u8 list \<Rightarrow> 's \<times> unit pres"
  assumes incr: "sp_incremental parse"
    and cons: "consumes (\<lambda>_. True) parse (\<lambda>_ d _. empty_line_end d)"
begin

lemma outcome_regular: "regular (snd (parse s xs))"
  using consumes_regular [OF cons] by simp

lemma consumed:
  assumes "snd (parse s xs) = P_ok () rest"
  obtains c where "xs = c @ rest" "crlf_paired c" "empty_line_end c"
  using assms cons unfolding consumes_def by blast

lemma extend: "snd (parse s xs) = P_ok () rest \<Longrightarrow> parse s (xs @ ys) = (fst (parse s xs), P_ok () (rest @ ys))"
  using sp_incrementalD [OF incr, of s xs ys] by simp

lemma prefix_incomplete:
  assumes ok: "snd (parse s (xs @ ys)) = P_ok () rest" and short: "length rest < length ys"
  shows "snd (parse s xs) = P_ret kParseIncomplete"
proof (rule ccontr)
  assume "\<not> ?thesis"
  then have "\<not> undecided (snd (parse s xs))" using outcome_regular [of s xs] by (auto simp: undecided_def)
  from sp_incrementalD [OF incr this, of ys] ok have "pres_ext ys (snd (parse s xs)) = P_ok () rest" by simp
  with short show False by (cases "snd (parse s xs)") auto
qed

lemma complete_check:
  assumes ok: "snd (parse s xs) = P_ok () rest" and last: "last_len < length xs - length rest"
  shows "\<exists>rest'. is_complete xs last_len = P_ok () rest'"
proof -
  obtain c where "xs = c @ rest" "crlf_paired c" "empty_line_end c" using consumed [OF ok] by blast
  with last show ?thesis using is_complete_head [of c last_len rest] by simp
qed

end

lemma int_cast_small: "n < 2 ^ 31 \<Longrightarrow> int_cast n = int n"
  unfolding int_cast_def by (simp add: signed_of_nat) (simp add: signed_take_bit_int_eq_self)

context head_parser
begin

lemma result_bounds:
  assumes "length xs < 2 ^ 31"
  shows "\<exists>n. parse_result xs (snd (parse s xs)) = Some n \<and>
    (n = kParseFailed \<or> n = kParseIncomplete \<or> 0 < n \<and> n \<le> int (length xs))"
proof (cases "snd (parse s xs)")
  case (P_ok u rest)
  then obtain c where c: "xs = c @ rest" "empty_line_end c" using consumed [of s xs rest] by auto
  then have "c \<noteq> []" by (auto simp: empty_line_end_def)
  with P_ok c assms show ?thesis by (auto simp: int_cast_small)
qed (use outcome_regular [of s xs] in auto)

lemma resume:
  assumes res: "parse_result xs (snd (parse s xs)) = Some n" and "0 \<le> n" and "length xs < 2 ^ 31" and "k < nat n"
  shows "snd (parse s (take k xs)) = P_ret kParseIncomplete" and "\<exists>rest'. is_complete xs k = P_ok () rest'"
proof -
  obtain rest where rest: "snd (parse s xs) = P_ok () rest"
  proof (cases "snd (parse s xs)")
    case (P_ret r)
    with res \<open>0 \<le> n\<close> outcome_regular [of s xs] show ?thesis by (auto simp: kParseFailed_def kParseIncomplete_def)
  qed (use outcome_regular [of s xs] that in auto)
  then obtain c where c: "xs = c @ rest" using consumed [of s xs rest] by auto
  then have "n = int (length c)" using res rest \<open>length xs < 2 ^ 31\<close> by (simp add: int_cast_small)
  then have k: "k < length c" using \<open>k < nat n\<close> by simp
  then show "\<exists>rest'. is_complete xs k = P_ok () rest'" using c complete_check [OF rest] by simp
  have "xs = take k xs @ (drop k c @ rest)" using c k by simp
  then show "snd (parse s (take k xs)) = P_ret kParseIncomplete"
    using prefix_incomplete [of s "take k xs" "drop k c @ rest" rest] rest k by simp
qed

end

interpretation request_head: head_parser "parse_request_impl sse" for sse
  by unfold_locales (rule sp_incremental_request, rule consumes_request)

interpretation response_head: head_parser "parse_response_impl sse" for sse
  by unfold_locales (rule sp_incremental_response, rule consumes_response)

lemma is_complete_regular:
  assumes "last_len \<le> length bs + 3"
  shows "regular (is_complete bs last_len)"
proof -
  have "regular (is_complete_loop n xs)" for n xs
    by (induction n xs rule: is_complete_loop.induct) (auto split: list.splits)
  moreover have "\<not> length bs < last_len - 3" using assms by arith
  ultimately show ?thesis by (simp add: is_complete_def)
qed

text \<open>The members that \<^verbatim>\<open>parse\<close> resets before it starts.\<close>

definition Request_reset :: Request where
  "Request_reset = \<lparr>req_method = [], req_path = [], req_major_version = - 1, req_minor_version = - 1, req_headers = []\<rparr>"

definition Response_reset :: Response where
  "Response_reset =
     \<lparr>resp_major_version = - 1, resp_minor_version = - 1, resp_status = 0, resp_message = [], resp_headers = []\<rparr>"

lemma Request_parse_cases:
  "Request_parse sse bs last_len =
     (case (if last_len \<noteq> 0 then is_complete bs last_len else P_ok () []) of
        P_ret r \<Rightarrow> (Request_reset\<lparr>req_major_version := 1\<rparr>, Some r)
      | P_overrun \<Rightarrow> (Request_reset, None)
      | P_ok _ _ \<Rightarrow>
          (let (t, r) = parse_request_impl sse Request_reset bs in
           (case r of P_ok _ _ \<Rightarrow> t\<lparr>req_major_version := 1\<rparr> | _ \<Rightarrow> t, parse_result bs r)))"
  by (auto simp: Request_parse_def Request_reset_def Let_def split: pres.splits prod.splits)

lemma Response_parse_cases:
  "Response_parse sse bs last_len =
     (case (if last_len \<noteq> 0 then is_complete bs last_len else P_ok () []) of
        P_ret r \<Rightarrow> (Response_reset\<lparr>resp_major_version := 1\<rparr>, Some r)
      | P_overrun \<Rightarrow> (Response_reset, None)
      | P_ok _ _ \<Rightarrow>
          (let (t, r) = parse_response_impl sse Response_reset bs in
           (case r of P_ok _ _ \<Rightarrow> t\<lparr>resp_major_version := 1\<rparr> | _ \<Rightarrow> t, parse_result bs r)))"
  by (auto simp: Response_parse_def Response_reset_def Let_def split: pres.splits prod.splits)

lemma Request_parse_zero:
  "snd (Request_parse sse bs 0) = parse_result bs (snd (parse_request_impl sse Request_reset bs))"
  by (simp add: Request_parse_cases Let_def split: prod.splits)

lemma Response_parse_zero:
  "snd (Response_parse sse bs 0) = parse_result bs (snd (parse_response_impl sse Response_reset bs))"
  by (simp add: Response_parse_cases Let_def split: prod.splits)

lemma Request_parse_bounds:
  assumes "length bs < 2 ^ 31" and "last_len \<le> length bs + 3"
  shows "\<exists>n. snd (Request_parse sse bs last_len) = Some n \<and>
    (n = kParseFailed \<or> n = kParseIncomplete \<or> 0 < n \<and> n \<le> int (length bs))"
  using request_head.result_bounds [OF assms(1), of sse Request_reset] is_complete_regular [OF assms(2)]
  by (cases "is_complete bs last_len") (auto simp: Request_parse_cases Let_def split: prod.splits)

lemma Response_parse_bounds:
  assumes "length bs < 2 ^ 31" and "last_len \<le> length bs + 3"
  shows "\<exists>n. snd (Response_parse sse bs last_len) = Some n \<and>
    (n = kParseFailed \<or> n = kParseIncomplete \<or> 0 < n \<and> n \<le> int (length bs))"
  using response_head.result_bounds [OF assms(1), of sse Response_reset] is_complete_regular [OF assms(2)]
  by (cases "is_complete bs last_len") (auto simp: Response_parse_cases Let_def split: prod.splits)

definition bytes :: "string \<Rightarrow> u8 list" where
  "bytes = map of_char"

definition example_request :: "u8 list" where
  "example_request = bytes ''GET /a HTTP/1.1'' @ [CR, LF] @ bytes ''Host: h'' @ [CR, LF, CR, LF]"

text \<open>
  C19 (bounds). The parsers of requests and responses never read beyond the end of a buffer shorter than
  2 GiB, provided that the length of the part that an earlier call saw, \<^verbatim>\<open>last_len\<close>, is at most 3 more than the length of
  the buffer (every call with a prefix of the buffer gives such a length): on every content of the buffer they return, and the result is \<^verbatim>\<open>kParseFailed\<close>, \<^verbatim>\<open>kParseIncomplete\<close> or a number of
  consumed bytes between 1 and the length of the buffer.
\<close>

theorem parse_in_bounds:
  assumes "length bs < 2 ^ 31" and "last_len \<le> length bs + 3"
  shows "\<exists>n m. snd (Request_parse sse bs last_len) = Some n \<and> snd (Response_parse sse bs last_len) = Some m \<and>
    (n = kParseFailed \<or> n = kParseIncomplete \<or> 0 < n \<and> n \<le> int (length bs)) \<and>
    (m = kParseFailed \<or> m = kParseIncomplete \<or> 0 < m \<and> m \<le> int (length bs))"
  using Request_parse_bounds [OF assms] Response_parse_bounds [OF assms] by blast

theorem parse_in_bounds_witness:
  "\<exists>n m. snd (Request_parse True example_request 4) = Some n \<and> snd (Response_parse True example_request 4) = Some m \<and>
    (n = kParseFailed \<or> n = kParseIncomplete \<or> 0 < n \<and> n \<le> int (length example_request)) \<and>
    (m = kParseFailed \<or> m = kParseIncomplete \<or> 0 < m \<and> m \<le> int (length example_request))"
  by (rule parse_in_bounds) (simp_all add: example_request_def bytes_def)

text \<open>
  C5 (functional). A request head may arrive in pieces: while fewer than its \<open>n\<close> bytes are there the parser
  returns \<^verbatim>\<open>kParseIncomplete\<close>, never an error, and the completeness check that a later call makes from the
  previously seen length \<open>k\<close> on does not change the result.
\<close>

theorem Request_parse_resumes:
  assumes "snd (Request_parse sse bs 0) = Some n" and "0 \<le> n" and "length bs < 2 ^ 31" and "k < nat n"
  shows "snd (Request_parse sse (take k bs) 0) = Some kParseIncomplete \<and>
    Request_parse sse bs k = Request_parse sse bs 0"
proof -
  note r = request_head.resume [OF assms(1) [unfolded Request_parse_zero] assms(2,3,4)]
  have "Request_parse sse bs k = Request_parse sse bs 0"
    using r(2) by (auto simp: Request_parse_cases)
  with r(1) show ?thesis by (simp add: Request_parse_zero)
qed

lemma example_request_parses: "snd (Request_parse False example_request 0) = Some 28"
  by code_simp

theorem Request_parse_resumes_witness:
  "snd (Request_parse False (take 20 example_request) 0) = Some kParseIncomplete \<and>
   Request_parse False example_request 20 = Request_parse False example_request 0"
  by (rule Request_parse_resumes [OF example_request_parses]) (simp_all add: example_request_def bytes_def)

text \<open>The same for responses.\<close>

theorem Response_parse_resumes:
  assumes "snd (Response_parse sse bs 0) = Some n" and "0 \<le> n" and "length bs < 2 ^ 31" and "k < nat n"
  shows "snd (Response_parse sse (take k bs) 0) = Some kParseIncomplete \<and>
    Response_parse sse bs k = Response_parse sse bs 0"
proof -
  note r = response_head.resume [OF assms(1) [unfolded Response_parse_zero] assms(2,3,4)]
  have "Response_parse sse bs k = Response_parse sse bs 0"
    using r(2) by (auto simp: Response_parse_cases)
  with r(1) show ?thesis by (simp add: Response_parse_zero)
qed

subsection \<open>Parsing what was printed\<close>

definition valid_header :: "MessageHeader \<Rightarrow> bool" where
  "valid_header h \<longleftrightarrow>
     hdr_name h \<noteq> [] \<and> (\<forall>b\<in>set (hdr_name h). token_char_map b) \<and> (\<forall>b\<in>set (hdr_value h). \<not> is_ctl b) \<and>
     (hdr_value h \<noteq> [] \<longrightarrow> hd (hdr_value h) \<notin> {SP, HT} \<and> last (hdr_value h) \<notin> {SP, HT})"

definition valid_Request :: "Request \<Rightarrow> bool" where
  "valid_Request t \<longleftrightarrow>
     req_method t \<noteq> [] \<and> (\<forall>b\<in>set (req_method t). token_char_map b) \<and>
     req_path t \<noteq> [] \<and> (\<forall>b\<in>set (req_path t). path_char b \<and> b \<noteq> SP) \<and>
     req_major_version t = 1 \<and> 0 \<le> req_minor_version t \<and> req_minor_version t \<le> 9 \<and>
     (\<forall>h\<in>set (req_headers t). valid_header h)"

definition valid_Response :: "Response \<Rightarrow> bool" where
  "valid_Response t \<longleftrightarrow>
     resp_major_version t = 1 \<and> 0 \<le> resp_minor_version t \<and> resp_minor_version t \<le> 9 \<and>
     100 \<le> resp_status t \<and> resp_status t \<le> 999 \<and>
     (\<forall>b\<in>set (resp_message t). \<not> is_ctl b) \<and> (resp_message t \<noteq> [] \<longrightarrow> hd (resp_message t) \<noteq> SP) \<and>
     (\<forall>h\<in>set (resp_headers t). valid_header h)"

lemma span_until_exact:
  "\<forall>b\<in>set t. \<not> P b \<Longrightarrow> P c \<Longrightarrow> span_until P (t @ c # rest) = P_ok t (c # rest)"
  by (auto simp: span_until_def)

lemma token_spec_exact:
  "\<forall>b\<in>set t. ok b \<and> b \<noteq> c \<Longrightarrow> token_spec ok c (t @ c # rest) = P_ok t (c # rest)"
  unfolding token_spec_def by (subst span_until_exact) auto

lemma line_spec_exact: "\<forall>b\<in>set t. \<not> is_ctl b \<Longrightarrow> line_spec (t @ CR # LF # rest) = P_ok t rest"
  unfolding line_spec_def by (subst span_until_exact) (auto simp: is_ctl_def expect_char_def check_eof_def)

lemma trim_trailing_id: "(v \<noteq> [] \<Longrightarrow> last v \<notin> {SP, HT}) \<Longrightarrow> trim_trailing v = v"
  by (cases v rule: rev_cases) (auto simp: trim_trailing_def)

lemma token_char_distinct: "token_char_map b \<Longrightarrow> b \<notin> {CR, LF, SP, HT, 58}"
  by (auto simp: token_char_map_def)

lemma headers_loop_header:
  assumes "valid_header h"
  shows "headers_loop sse n hs (print_header h @ rest) = headers_loop sse (n + 1) (hs @ [h]) rest"
proof -
  obtain b name' where name: "hdr_name h = b # name'" using assms by (cases "hdr_name h") (auto simp: valid_header_def)
  let ?v = "hdr_value h @ CR # LF # rest"
  have "\<forall>b\<in>set (hdr_name h). token_char_map b \<and> b \<noteq> 58"
    using assms token_char_distinct by (fastforce simp: valid_header_def)
  from token_spec_exact [OF this, of "SP # ?v"]
  have tok: "token_spec token_char_map 58 (print_header h @ rest) = P_ok (hdr_name h) (58 # SP # ?v)"
    by (simp add: print_header_def)
  have blanks: "skip_blanks (SP # ?v) = P_ok () ?v"
    using assms by (cases "hdr_value h") (auto simp: valid_header_def)
  have line: "line_spec ?v = P_ok (hdr_value h) rest" "trim_trailing (hdr_value h) = hdr_value h"
    using assms by (auto simp: valid_header_def line_spec_exact intro!: trim_trailing_id)
  have hd: "print_header h @ rest = b # (name' @ 58 # SP # ?v)" by (simp add: print_header_def name)
  have "b \<notin> {CR, LF, SP, HT}" using assms token_char_distinct [of b] by (auto simp: valid_header_def name)
  moreover have "parse_header_name sse (print_header h @ rest) = P_ok (hdr_name h) ?v"
    using tok blanks name by (simp add: parse_header_name_eq)
  ultimately have "headers_loop sse n hs (print_header h @ rest) =
      headers_loop sse (n + 1) (hs @ [\<lparr>hdr_name = hdr_name h, hdr_value = hdr_value h\<rparr>]) rest"
    using line by (simp add: hd get_token_to_eol_eq)
  then show ?thesis by (cases h) simp
qed

lemma headers_loop_print:
  "\<forall>h\<in>set hs'. valid_header h \<Longrightarrow>
   headers_loop sse n hs (print_headers hs' @ CR # LF # rest) = (hs @ hs', P_ok () rest)"
proof (induction hs' arbitrary: n hs)
  case (Cons h hs')
  then show ?case using headers_loop_header [of h sse n hs "print_headers hs' @ CR # LF # rest"]
    by (simp add: print_headers_def)
qed (simp add: print_headers_def expect_char_def check_eof_def)

lemma print_digit: "0 \<le> m \<Longrightarrow> m \<le> 9 \<Longrightarrow> print_int m = [of_int (48 + m)]"
  by (subst print_int_def, subst print_nat.simps) (auto simp: of_nat_nat)

lemma parse_digit:
  assumes "0 \<le> m" and "m \<le> 9"
  shows "parse_int mul (of_int (48 + m) # rest) = P_ok (mul * m) rest"
proof -
  have "sint (of_int (48 + m) :: u8) = 48 + m"
    using assms by (subst signed_of_int) (simp add: signed_take_bit_int_eq_self)
  then show ?thesis using assms by simp
qed

lemma print_nat_digits:
  assumes "100 \<le> k" and "k < 1000"
  shows "print_nat k = [of_nat (48 + k div 100), of_nat (48 + k div 10 mod 10), of_nat (48 + k mod 10)]"
proof -
  have "\<not> k < 10" "\<not> k div 10 < 10" "k div 10 div 10 < 10"
    using assms div_le_mono [OF assms(1), of 10] by (simp_all add: less_mult_imp_div_less)
  then have "print_nat k = [of_nat (48 + k div 10 div 10 mod 10), of_nat (48 + k div 10 mod 10), of_nat (48 + k mod 10)]"
    by (simp only: print_nat.simps [of k] print_nat.simps [of "k div 10"] print_nat.simps [of "k div 10 div 10"]
        if_True if_False append.simps)
  moreover have "k div 10 div 10 = k div 100" by (simp add: div_mult2_eq [symmetric])
  moreover have "k div 100 mod 10 = k div 100" using assms by (simp add: less_mult_imp_div_less)
  ultimately show ?thesis by (simp only:)
qed

lemma print_status:
  assumes "100 \<le> m" and "m \<le> 999"
  shows "print_int m = [of_int (48 + m div 100), of_int (48 + m div 10 mod 10), of_int (48 + m mod 10)]"
proof -
  obtain k where k: "m = int k" using assms zero_le_imp_eq_int by force
  have "print_int m = print_nat k" by (simp add: print_int_def k)
  moreover have "100 \<le> k" "k < 1000" using assms k by linarith+
  moreover have "48 + m div 100 = int (48 + k div 100)" "48 + m div 10 mod 10 = int (48 + k div 10 mod 10)"
    "48 + m mod 10 = int (48 + k mod 10)" by (simp_all add: k zdiv_int zmod_int)
  ultimately show ?thesis by (simp only: of_int_of_nat_eq print_nat_digits)
qed

lemma parse_http_version_print:
  assumes "0 \<le> m" and "m \<le> 9"
  shows "parse_http_version ([72, 84, 84, 80, 47] @ print_int 1 @ [46] @ print_int m @ b # rest) = P_ok m (b # rest)"
  using assms parse_digit [OF assms, of 1 "b # rest"] by (simp add: parse_http_version_def print_digit)

lemma sp_bind_lift_ok: "p xs = P_ok x rest \<Longrightarrow> sp_bind (sp_lift p) q s xs = q x s rest"
  by (simp add: sp_bind_def sp_lift_def)

lemma sp_bind_ok: "p s xs = (s', P_ok x rest) \<Longrightarrow> sp_bind p q s xs = q x s' rest"
  by (simp add: sp_bind_def)

lemma sp_bind_set: "sp_bind (sp_set f) q s xs = q () (f s) xs"
  by (simp add: sp_bind_def sp_set_def)

lemma parse_request_print:
  assumes "valid_Request t"
  shows "parse_request_impl sse Request_reset (print_Request t @ rest) =
    (t\<lparr>req_major_version := - 1\<rparr>, P_ok () rest)"
proof -
  let ?hs = "print_headers (req_headers t) @ CR # LF # rest"
  let ?v = "[72, 84, 84, 80, 47] @ print_int 1 @ [46] @ print_int (req_minor_version t) @ CR # LF # ?hs"
  have m: "\<forall>b\<in>set (req_method t). token_char_map b \<and> b \<noteq> SP"
    using assms token_char_distinct by (fastforce simp: valid_Request_def)
  have p: "\<forall>b\<in>set (req_path t). path_char b \<and> b \<noteq> SP" using assms by (simp add: valid_Request_def)
  obtain a as where path: "req_path t = a # as" "a \<noteq> SP" using assms by (cases "req_path t") (auto simp: valid_Request_def)
  obtain d ds where meth: "req_method t = d # ds" "d \<notin> {CR, LF, SP}"
    using assms token_char_distinct by (cases "req_method t") (auto simp: valid_Request_def)
  have printed: "print_Request t @ rest = req_method t @ SP # req_path t @ SP # ?v"
    using assms by (simp add: print_Request_def valid_Request_def)
  have "skip_empty_line (req_method t @ SP # req_path t @ SP # ?v) = P_ok () (req_method t @ SP # req_path t @ SP # ?v)"
    using meth by (simp add: skip_empty_line_def)
  moreover have "skip_spaces (SP # req_path t @ SP # ?v) = P_ok () (req_path t @ SP # ?v)" using path by simp
  moreover have "skip_spaces (SP # ?v) = P_ok () ?v" by simp
  moreover have "parse_http_version ?v = P_ok (req_minor_version t) (CR # LF # ?hs)"
    using assms by (intro parse_http_version_print) (auto simp: valid_Request_def)
  moreover have "end_of_line (CR # LF # ?hs) = P_ok () ?hs" by (simp add: end_of_line_def expect_char_def check_eof_def)
  moreover have "headers_loop sse 0 [] ?hs = (req_headers t, P_ok () rest)"
    using assms by (subst headers_loop_print) (auto simp: valid_Request_def)
  ultimately show ?thesis
    using token_spec_exact [OF m] token_spec_exact [OF p] path meth
    by (simp add: parse_request_impl_def parser_eqs printed sp_bind_lift_ok sp_bind_set Request_reset_def
        parse_headers_impl_def del: append.simps append_assoc skip_spaces.simps)
qed

lemma decimal_digits: "100 * (m div 100) + 10 * (m div 10 mod 10) + m mod 10 = m" for m :: int
proof -
  have "m div 10 div 10 = m div 100" by (simp add: zdiv_zmult2_eq [symmetric])
  then show ?thesis using div_mult_mod_eq [of m 10] div_mult_mod_eq [of "m div 10" 10] by linarith
qed

lemma sp_bind_parse_digit:
  "0 \<le> m \<Longrightarrow> m \<le> 9 \<Longrightarrow>
   sp_bind (sp_lift (parse_int mul)) q s (of_int (48 + m) # rest) = q (mul * m) s rest"
  by (rule sp_bind_lift_ok, rule parse_digit)

lemma parse_int_3_print:
  assumes "100 \<le> m" and "m \<le> 999"
  shows "parse_int_3 t (print_int m @ rest) = (t\<lparr>resp_status := m\<rparr>, P_ok () rest)"
proof -
  let ?a = "m div 100" and ?b = "m div 10 mod 10" and ?c = "m mod 10"
  have "?a \<le> 9" "0 \<le> ?a" "?b \<le> 9" "?c \<le> 9" "0 \<le> ?b" "0 \<le> ?c" using assms by simp_all
  then have "parse_int_3 t (print_int m @ rest) = (t\<lparr>resp_status := 100 * ?a + 10 * ?b + 1 * ?c\<rparr>, P_ok () rest)"
    by (cases t) (simp only: parse_int_3_def print_status [OF assms] append.simps sp_bind_parse_digit sp_bind_set
        sp_set_def Response.simps Response.update_convs)
  then show ?thesis by (simp only: mult_1 decimal_digits)
qed

lemma parse_response_print:
  assumes "valid_Response t"
  shows "parse_response_impl sse Response_reset (print_Response t @ rest) =
    (t\<lparr>resp_major_version := - 1\<rparr>, P_ok () rest)"
proof -
  let ?hs = "print_headers (resp_headers t) @ CR # LF # rest"
  let ?s = "print_int (resp_status t) @ SP # resp_message t @ CR # LF # ?hs"
  have st: "100 \<le> resp_status t" "resp_status t \<le> 999" using assms by (auto simp: valid_Response_def)
  have printed: "print_Response t @ rest =
      [72, 84, 84, 80, 47] @ print_int 1 @ [46] @ print_int (resp_minor_version t) @ SP # ?s"
    using assms by (simp add: print_Response_def valid_Response_def)
  have "parse_http_version ([72, 84, 84, 80, 47] @ print_int 1 @ [46] @ print_int (resp_minor_version t) @ SP # ?s) =
      P_ok (resp_minor_version t) (SP # ?s)"
    using assms by (intro parse_http_version_print) (auto simp: valid_Response_def)
  moreover have "skip_spaces (SP # ?s) = P_ok () ?s"
  proof -
    obtain b bs where b: "print_int (resp_status t) = b # bs" "b = of_int (48 + resp_status t div 100)"
      by (simp add: print_status [OF st])
    have "0 \<le> resp_status t div 100" "resp_status t div 100 \<le> 9" using st by simp_all
    from parse_digit [OF this, of 1 "[]"] b(2) have "parse_int 1 [b] = P_ok (1 * (resp_status t div 100)) []"
      by (simp only:)
    then have "b \<noteq> SP" by auto
    then show ?thesis by (simp add: b(1))
  qed
  moreover have "\<not> length ?s < 4" by (simp add: print_status [OF st])
  moreover have "line_spec (SP # resp_message t @ CR # LF # ?hs) = P_ok (SP # resp_message t) ?hs"
    using assms line_spec_exact [of "SP # resp_message t" ?hs] by (auto simp: valid_Response_def is_ctl_def)
  moreover have "dropWhile (\<lambda>c. c = SP) (resp_message t) = resp_message t"
    using assms by (cases "resp_message t") (auto simp: valid_Response_def)
  moreover have "headers_loop sse 0 [] ?hs = (resp_headers t, P_ok () rest)"
    using assms by (subst headers_loop_print) (auto simp: valid_Response_def)
  ultimately show ?thesis
    by (simp add: parse_response_impl_def printed sp_bind_lift_ok sp_bind_set Response_reset_def
        sp_bind_ok [of parse_int_3] parse_int_3_print [OF st] sp_bind_ok [of "parse_message sse"] parse_message_eq parse_headers_impl_def del: append.simps append_assoc skip_spaces.simps)
qed

text \<open>
  C16 (roundtrip). Parsing a printed request gives the request back and consumes exactly its text, whatever
  follows it in the buffer: for a method and header names of token characters, a path without spaces and
  control characters, a version 1.0 to 1.9, and header values without control characters and outer blanks.
\<close>

theorem Request_print_parse:
  assumes "valid_Request t" and "length (print_Request t @ rest) < 2 ^ 31"
  shows "Request_parse sse (print_Request t @ rest) 0 = (t, Some (int (length (print_Request t))))"
proof -
  have "t\<lparr>req_major_version := 1\<rparr> = t" using assms(1) by (cases t) (simp add: valid_Request_def)
  then show ?thesis
    using parse_request_print [OF assms(1)] assms(2) by (simp add: Request_parse_cases int_cast_small)
qed

lemmas print_defs = print_Request_def print_Response_def print_headers_def print_header_def print_int_def
  print_nat.simps bytes_def

definition example_get :: Request where
  "example_get = \<lparr>req_method = bytes ''GET'', req_path = bytes ''/a'', req_major_version = 1, req_minor_version = 1,
     req_headers = [\<lparr>hdr_name = bytes ''Host'', hdr_value = bytes ''h''\<rparr>]\<rparr>"

theorem Request_print_parse_witness:
  "Request_parse True (print_Request example_get @ [1, 2, 3]) 0 = (example_get, Some (int (length (print_Request example_get))))"
  by (rule Request_print_parse) (code_simp, simp add: print_defs example_get_def)

text \<open>
  Parsing a printed response gives the response back and consumes exactly its text: for a
  version 1.0 to 1.9, a status of three digits and a message without control characters and leading space.
\<close>

theorem Response_print_parse:
  assumes "valid_Response t" and "length (print_Response t @ rest) < 2 ^ 31"
  shows "Response_parse sse (print_Response t @ rest) 0 = (t, Some (int (length (print_Response t))))"
proof -
  have "t\<lparr>resp_major_version := 1\<rparr> = t" using assms(1) by (cases t) (simp add: valid_Response_def)
  then show ?thesis
    using parse_response_print [OF assms(1)] assms(2) by (simp add: Response_parse_cases int_cast_small)
qed

definition example_not_found :: Response where
  "example_not_found = \<lparr>resp_major_version = 1, resp_minor_version = 0, resp_status = 404,
     resp_message = bytes ''Not Found'', resp_headers = []\<rparr>"

theorem Response_print_parse_witness:
  "Response_parse True (print_Response example_not_found @ [7]) 0 =
     (example_not_found, Some (int (length (print_Response example_not_found))))"
  by (rule Response_print_parse) (code_simp, simp add: print_defs example_not_found_def)

lemma headers_loop_sse: "headers_loop sse n hs buf = headers_loop sse' n hs buf"
proof (induction sse n hs buf rule: headers_loop.induct)
  case (2 sse n hs b rest)
  show ?case
  proof (cases "b = CR \<or> b = LF")
    case False
    define r where "r = (if \<not> (n \<noteq> 0 \<and> (b = SP \<or> b = HT)) then parse_header_name sse (b # rest) else P_ok [] (b # rest))"
    have r': "r = (if \<not> (n \<noteq> 0 \<and> (b = SP \<or> b = HT)) then parse_header_name sse' (b # rest) else P_ok [] (b # rest))"
      by (simp add: r_def parse_header_name_eq)
    show ?thesis
    proof (cases r)
      case (P_ok x buf)
      then show ?thesis
        using False 2 unfolding headers_loop.simps(2) r_def [symmetric] r' [symmetric]
        by (cases "line_spec buf") (simp_all add: get_token_to_eol_eq)
    qed (use False in \<open>simp_all only: headers_loop.simps(2) r_def [symmetric] r' [symmetric] pres.case if_False de_Morgan_disj\<close>)
  qed auto
qed simp

text \<open>
  C20 (equivalence). The build with SSE 4.2 and the portable one agree: with the vectorised search for the end
  of a token every parser stores the same message and returns the same result on every buffer.
\<close>

theorem sse_equals_portable:
  "Request_parse True bs last_len = Request_parse False bs last_len \<and>
   Response_parse True bs last_len = Response_parse False bs last_len \<and>
   parse_headers True bs last_len = parse_headers False bs last_len"
proof -
  have "parse_message True = parse_message False" by (intro ext) (simp add: parse_message_eq)
  moreover have hs: "parse_headers_impl True = parse_headers_impl False"
    using headers_loop_sse [of True _ _ _ False] by (intro ext) (simp add: parse_headers_impl_def)
  ultimately have "parse_request_impl True = parse_request_impl False" "parse_response_impl True = parse_response_impl False"
    by (simp_all only: parse_request_impl_def parse_response_impl_def parser_eqs)
  with hs show ?thesis by (simp only: Request_parse_def Response_parse_def parse_headers_def)
qed

end
