(* ===== verification/Http_Client.thy ===== *)
theory Http_Client
  imports Http_Decoder Pico_Parser
begin

section \<open>Reading responses on a client connection\<close>

text \<open>
  Models the parts of \<^verbatim>\<open>HttpClientConnection\<close> (\<^verbatim>\<open>src/src/batteries/http/http_client_connection_impl.hpp\<close>) that
  turn the bytes of the input buffer into responses: \<^verbatim>\<open>read_next_response\<close>, \<^verbatim>\<open>ResponseInfo\<close> with \<^verbatim>\<open>get_data\<close>,
  and \<^verbatim>\<open>find_header\<close> of \<^verbatim>\<open>http_header.hpp\<close>. The tasks that drive them and the socket are not modelled. The
  conversion \<^verbatim>\<open>from_string\<close> of a header value to a number, an extraction from an input stream, is a
  parameter.
\<close>

definition find_header :: "MessageHeader list \<Rightarrow> u8 list \<Rightarrow> u8 list option" where
  "find_header headers name = map_option hdr_value (find (\<lambda>hdr. hdr_name hdr = name) headers)"

record ResponseInfo =
  content_length :: "nat option"
  keep_alive :: bool
  chunked_encoding :: bool

definition ResponseInfo_init :: "(u8 list \<Rightarrow> nat option) \<Rightarrow> Response \<Rightarrow> ResponseInfo" where
  "ResponseInfo_init from_string response =
     \<lparr>content_length = Option.bind (find_header (resp_headers response) (bytes ''Content-Length'')) from_string,
      keep_alive =
        (case find_header (resp_headers response) (bytes ''Connection'') of
           Some s \<Rightarrow> s = bytes ''keep-alive''
         | None \<Rightarrow> resp_major_version response = 1 \<and> resp_minor_version response \<ge> 1),
      chunked_encoding =
        (case find_header (resp_headers response) (bytes ''Transfer-Encoding'') of
           Some s \<Rightarrow> s = bytes ''chunked''
         | None \<Rightarrow> False)\<rparr>"

definition ResponseInfo_is_valid :: "ResponseInfo \<Rightarrow> bool" where
  "ResponseInfo_is_valid info \<longleftrightarrow> content_length info \<noteq> None \<or> chunked_encoding info \<or> \<not> keep_alive info"

text \<open>The sources that \<^verbatim>\<open>get_data\<close> puts behind the type-erased \<^verbatim>\<open>BufferSource\<close>.\<close>

datatype http_body =
    Body_chunked "StreamBuffer HttpChunkDecoder"
  | Body_none
  | Body_stream StreamBuffer
  | Body_chunked_n "StreamBuffer HttpChunkDecoder TakeNSource"
  | Body_stream_n "StreamBuffer TakeNSource"

definition ResponseInfo_get_data :: "ResponseInfo \<Rightarrow> StreamBuffer \<Rightarrow> http_body" where
  "ResponseInfo_get_data info input_buffer =
     (case content_length info of
        None \<Rightarrow>
          if chunked_encoding info then Body_chunked (HttpChunkDecoder_init input_buffer False)
          else if keep_alive info then Body_none
          else Body_stream input_buffer
      | Some n \<Rightarrow>
          if chunked_encoding info
          then Body_chunked_n \<lparr>tn_limit = n, tn_src = HttpChunkDecoder_init input_buffer False\<rparr>
          else Body_stream_n \<lparr>tn_limit = n, tn_src = input_buffer\<rparr>)"

text \<open>The loop of \<^verbatim>\<open>read_next_response\<close>: the message and the result; \<open>None\<close> is a failed check.\<close>

partial_function (option) read_next_response ::
    "bool \<Rightarrow> nat \<Rightarrow> StreamBuffer \<Rightarrow> Response \<Rightarrow> (Response \<times> int awaited) option" where
  "read_next_response sse min_to_fetch input_buffer response =
     (case fetch_at_least (int min_to_fetch) input_buffer of
        None \<Rightarrow> None
      | Some Blocked \<Rightarrow> Some (response, Blocked)
      | Some (Ready (Inl st)) \<Rightarrow> Some (response, Ready (Inl st))
      | Some (Ready (Inr buffers)) \<Rightarrow>
          (let n_bytes_fetched = length (concat buffers) in
           if buffers = [] then None
           else case Response_parse sse (hd buffers) 0 of
             (_, None) \<Rightarrow> None
           | (response1, Some result) \<Rightarrow>
               if result = kParseIncomplete
               then read_next_response sse (max (min_to_fetch + 1) n_bytes_fetched) input_buffer response1
               else if result = kParseFailed then Some (response1, Ready (Inl kInternal))
               else if result \<le> 0 then None
               else Some (response1, Ready (Inr result))))"

subsection \<open>Finding the head of a response\<close>

lemma Response_parse_prefix:
  assumes "snd (Response_parse sse xs 0) \<noteq> Some kParseIncomplete"
  shows "Response_parse sse (xs @ ys) 0 = Response_parse sse xs 0"
proof -
  let ?p = "parse_response_impl sse Response_reset"
  have reg: "regular (snd (?p xs))" by (rule response_head.outcome_regular)
  have "\<not> undecided (snd (?p xs))"
    using assms reg by (cases "snd (?p xs)") (auto simp: Response_parse_zero)
  from sp_incrementalD [OF response_head.incr this, of ys]
  have "?p (xs @ ys) = (fst (?p xs), pres_ext ys (snd (?p xs)))" .
  then show ?thesis
    by (cases "?p xs"; cases "snd (?p xs)") (auto simp: Response_parse_cases)
qed

text \<open>What \<^verbatim>\<open>read_next_response\<close> returns for the contents of the input buffer.\<close>

definition read_outcome :: "bool \<Rightarrow> StreamBuffer \<Rightarrow> Response \<times> int awaited \<Rightarrow> bool" where
  "read_outcome sse sb out \<longleftrightarrow>
     (case snd (Response_parse sse (contents sb) 0) of
        None \<Rightarrow> False
      | Some result \<Rightarrow>
          if result = kParseIncomplete then
            snd out = (if sb_capacity sb \<le> int (length (contents sb)) then Ready (Inl kInvalidArgument)
              else case sb_commit_closed sb of None \<Rightarrow> Blocked | Some st \<Rightarrow> Ready (Inl st))
          else if result = kParseFailed then snd out = Ready (Inl kInternal)
          else out = (fst (Response_parse sse (contents sb) 0), Ready (Inr result)))"

lemma read_next_response_spec:
  assumes inv: "sb_inv sb" and len: "length (contents sb) < 2 ^ 31" and m: "0 < m" "m \<le> Suc (length (contents sb))"
    and short: "m = Suc (length (contents sb)) \<Longrightarrow> snd (Response_parse sse (contents sb) 0) = Some kParseIncomplete"
  shows "\<exists>out. read_next_response sse m sb t = Some out \<and> read_outcome sse sb out"
  using m short
proof (induction "Suc (length (contents sb)) - m" arbitrary: m t rule: less_induct)
  case less
  show ?case
  proof (cases "m \<le> length (contents sb)")
    case False
    then have m: "m = Suc (length (contents sb))" using less.prems by simp
    then have inc: "snd (Response_parse sse (contents sb) 0) = Some kParseIncomplete" using less.prems by simp
    have "sb_len sb < m" using m inv by simp
    with fetch_short [OF inv this] m inv inc show ?thesis
      by (subst read_next_response.simps) (auto simp: read_outcome_def split: option.splits)
  next
    case True
    then obtain bs where bs: "fetch_at_least (int m) sb = Some (Ready (Inr bs))" "concat bs = contents sb" "bs \<noteq> []"
      "m \<le> length (hd bs)" using fetch_spec [OF inv, of m] inv by auto
    then obtain ys where ys: "contents sb = hd bs @ ys" by (cases bs) (auto dest: sym)
    then have "length (hd bs) < 2 ^ 31" using len by simp
    from Response_parse_bounds [OF this, of 0 sse] obtain n where
      n: "snd (Response_parse sse (hd bs) 0) = Some n" "n = kParseFailed \<or> n = kParseIncomplete \<or> 0 < n" by auto
    obtain t1 where t1: "Response_parse sse (hd bs) 0 = (t1, Some n)" using n(1) by (cases "Response_parse sse (hd bs) 0") auto
    show ?thesis
    proof (cases "n = kParseIncomplete")
      case True
      let ?m = "max (m + 1) (length (contents sb))"
      have "?m \<le> Suc (length (contents sb))" using \<open>m \<le> length (contents sb)\<close> by simp
      moreover have "snd (Response_parse sse (contents sb) 0) = Some kParseIncomplete"
        if "?m = Suc (length (contents sb))"
      proof -
        have "m = length (contents sb)" using that \<open>m \<le> length (contents sb)\<close> by simp
        then have "hd bs = contents sb" using bs(4) ys by simp
        then show ?thesis using n(1) True by simp
      qed
      moreover have "Suc (length (contents sb)) - ?m < Suc (length (contents sb)) - m"
        using \<open>m \<le> length (contents sb)\<close> by simp
      moreover have "0 < ?m" by simp
      ultimately obtain out where "read_next_response sse ?m sb t1 = Some out" "read_outcome sse sb out"
        using less.hyps [of ?m t1] by blast
      then show ?thesis using bs t1 True by (subst read_next_response.simps) (simp del: length_concat)
    next
      case False
      then have "Response_parse sse (contents sb) 0 = (t1, Some n)"
        using Response_parse_prefix [of sse "hd bs" ys] t1 ys by simp
      with False n(2) bs t1 show ?thesis
        by (subst read_next_response.simps) (auto simp: read_outcome_def kParseFailed_def simp del: length_concat)
    qed
  qed
qed

text \<open>
  C8 (functional). \<^verbatim>\<open>read_next_response\<close> always gives the answer that the contents of the input buffer
  determine, wherever the head lies in the ring: the parsed response and its length when the head is
  complete, \<^verbatim>\<open>kInternal\<close> when it is malformed, and for an incomplete head a wait for more data, the final
  status of a closed buffer, or \<^verbatim>\<open>kInvalidArgument\<close> when the buffer is full. The loop ends in every case.
\<close>

theorem read_next_response_outcome:
  assumes "sb_inv sb" and "length (contents sb) < 2 ^ 31"
  shows "\<exists>response result. read_next_response sse 1 sb t = Some (response, result) \<and>
    (case snd (Response_parse sse (contents sb) 0) of
       None \<Rightarrow> False
     | Some n \<Rightarrow>
         if n = kParseIncomplete then
           result = (if sb_capacity sb \<le> int (length (contents sb)) then Ready (Inl kInvalidArgument)
             else case sb_commit_closed sb of None \<Rightarrow> Blocked | Some st \<Rightarrow> Ready (Inl st))
         else if n = kParseFailed then result = Ready (Inl kInternal)
         else (response, result) = (fst (Response_parse sse (contents sb) 0), Ready (Inr n)))"
proof -
  have "snd (Response_parse sse [] 0) = Some kParseIncomplete"
    by (simp add: Response_parse_zero parse_response_impl_def sp_bind_def sp_lift_def parse_http_version_def)
  then have "snd (Response_parse sse (contents sb) 0) = Some kParseIncomplete" if "1 = Suc (length (contents sb))"
    using that by (metis One_nat_def Suc_inject length_0_conv)
  then have "\<exists>out. read_next_response sse 1 sb t = Some out \<and> read_outcome sse sb out"
    by (intro read_next_response_spec [OF assms]) auto
  then obtain response result where "read_next_response sse 1 sb t = Some (response, result)"
    "read_outcome sse sb (response, result)" by (metis surj_pair)
  then show ?thesis unfolding read_outcome_def snd_conv by blast
qed

definition example_wrapped_response :: StreamBuffer where
  "example_wrapped_response = \<lparr>sb_capacity = 20, sb_buffer = bytes ''200 '' @ [CR, LF, CR, LF, 88, 89, 0] @ bytes ''HTTP/1.0 '',
     sb_consume_pos = 11, sb_commit_pos = 30, sb_consume_closed = None, sb_commit_closed = None\<rparr>"

theorem read_next_response_outcome_witness:
  "\<exists>response. read_next_response False 1 example_wrapped_response Response_reset = Some (response, Ready (Inr 17))"
proof -
  have "sb_inv example_wrapped_response" "length (contents example_wrapped_response) = 19"
    "snd (Response_parse False (contents example_wrapped_response) 0) = Some 17"
    by code_simp+
  with read_next_response_outcome [of example_wrapped_response False Response_reset] show ?thesis
    by (auto simp: kParseIncomplete_def kParseFailed_def simp del: length_contents)
qed

lemma encoded_trailer: "encoded True first cs = encoded False first cs @ [CR, LF]"
  by (induction cs arbitrary: first) (auto simp: last_chunk_def)

lemma encoded_length: "length (concat cs) \<le> length (encoded tr first cs)"
proof (induction cs arbitrary: first)
  case (Cons c cs)
  from Cons [of False] show ?case by simp
qed simp

lemma read_after_line_end:
  assumes "sb_inv sb" and "contents sb = CR # LF # next_message" and "7 \<le> length next_message" and "length (contents sb) < 2 ^ 31"
  shows "\<exists>response. read_next_response sse 1 sb t = Some (response, Ready (Inl kInternal))"
proof -
  have "snd (Response_parse sse (contents sb) 0) = Some kParseFailed"
    using assms(2,3) by (simp add: Response_parse_zero parse_response_impl_def sp_bind_def sp_lift_def parse_http_version_def)
  with read_next_response_spec [OF assms(1,4), of 1 sse t] assms(2) show ?thesis by (auto simp: read_outcome_def)
qed

text \<open>
  A chunked response breaks a connection that is kept alive: \<^verbatim>\<open>get_data\<close> builds the chunk decoder
  without the flag for trailers, so it stops after the line of the last chunk and leaves the line end
  that closes the (empty) trailer section, which every encoder of the standard sends, in the input
  buffer; whatever response comes next is then rejected with \<^verbatim>\<open>kInternal\<close>.
\<close>

theorem chunked_keep_alive_fails:
  assumes "content_length info = None" and "chunked_encoding info"
    and "sb_source_ok sb" and "contents sb = encoded True True cs @ next_message"
    and "cs \<noteq> []" and "[] \<notin> set cs" and "7 \<le> length next_message" and "length (contents sb) < 2 ^ 31"
  shows "\<exists>body h response. ResponseInfo_get_data info sb = Body_chunked body \<and>
    source_collect_vec (decoder_fetch sb_fetch sb_consume) (decoder_consume sb_consume) body =
      Some (h, Ready (Inr (concat cs))) \<and>
    read_next_response sse 1 (hd_src h) Response_reset = Some (response, Ready (Inl kInternal))"
proof -
  have "length c < 2 ^ 64" if "c \<in> set cs" for c
  proof -
    have "length c \<le> length (encoded True True cs)"
      using concat_member_length [OF that] encoded_length [of cs True True] by (rule order_trans)
    also have "\<dots> \<le> length (contents sb)" unfolding assms(4) by simp
    finally show ?thesis using assms(8) by simp
  qed
  then obtain d where "decode_bytes (ChunkedDecoder_init False) (encoded False True cs) = (d, concat cs, Inr (True, []))"
    using decode_bytes_encoded_body [OF assms(5,6), of False] by blast
  then have "decode_bytes (ChunkedDecoder_init False) (contents sb) =
      (d, concat cs, Inr (True, CR # LF # next_message))"
    by (simp add: assms(4) encoded_trailer decode_bytes_append)
  from decoder_collects_body [OF assms(3) this] obtain h where
    h: "source_collect_vec (decoder_fetch sb_fetch sb_consume) (decoder_consume sb_consume)
      (HttpChunkDecoder_init sb False) = Some (h, Ready (Inr (concat cs)))"
      "sb_source_ok (hd_src h)" "contents (hd_src h) = CR # LF # next_message" by blast
  have "length (contents (hd_src h)) \<le> length (contents sb)"
    unfolding h(3) assms(4) encoded_trailer by simp
  then have "length (contents (hd_src h)) < 2 ^ 31" using assms(8) by linarith
  with read_after_line_end [OF _ h(3) assms(7), of sse Response_reset] h(2) obtain response where
    "read_next_response sse 1 (hd_src h) Response_reset = Some (response, Ready (Inl kInternal))"
    by (auto simp: sb_source_ok_def)
  with h(1) assms(1,2) show ?thesis by (simp add: ResponseInfo_get_data_def)
qed

definition example_connection :: StreamBuffer where
  "example_connection = close_for_write
     ((StreamBuffer_init 32 ([50, CR, LF, 7, 8, CR, LF, 48, CR, LF, CR, LF] @ bytes ''HTTP/1.1 200 '' @ [CR, LF, CR, LF, 0, 0, 0]))
        \<lparr>sb_commit_pos := 29\<rparr>)"

theorem chunked_keep_alive_fails_witness:
  "\<exists>body h response.
    ResponseInfo_get_data \<lparr>content_length = None, keep_alive = True, chunked_encoding = True\<rparr> example_connection = Body_chunked body \<and>
    source_collect_vec (decoder_fetch sb_fetch sb_consume) (decoder_consume sb_consume) body = Some (h, Ready (Inr [7, 8])) \<and>
    read_next_response False 1 (hd_src h) Response_reset = Some (response, Ready (Inl kInternal))"
proof -
  let ?next = "bytes ''HTTP/1.1 200 '' @ [CR, LF, CR, LF]"
  have "sb_source_ok example_connection" "contents example_connection = encoded True True [[7, 8]] @ ?next"
    "length (contents example_connection) = 29" by code_simp+
  with chunked_keep_alive_fails [of "\<lparr>content_length = None, keep_alive = True, chunked_encoding = True\<rparr>"
      example_connection "[[7, 8]]" ?next False] show ?thesis
    by (simp add: bytes_def)
qed

end
