(* ===== verification/Model_Checker.thy ===== *)
theory Model_Checker
  imports Radix_Queue Batt_Status
begin

section \<open>The exhaustive model checker\<close>

text \<open>
  Models \<^verbatim>\<open>ExhaustiveModelChecker\<close> (\<^verbatim>\<open>src/src/batteries/state_machine_model/exhaustive_model_checker.hpp\<close>) run
  by \<^verbatim>\<open>StateMachineModel::check_model\<close> (\<^verbatim>\<open>state_machine_model.hpp\<close>) on one shard, with the exchange of branches
  of \<^verbatim>\<open>parallel_model_check_state.hpp\<close>. The state machine under test is user code: its virtual methods are the
  fields of \<open>state_machine\<close>, and its \<^verbatim>\<open>step()\<close>, which may call \<^verbatim>\<open>pick_int\<close> any number of times, is a
  \<open>step_program\<close>: a tree of such calls with the machine at its leaves. The hash of branches is a parameter.
  \<open>None\<close> is a failed check. A branch names a path into the program of a state by the digits
  that \<^verbatim>\<open>pick_int\<close> returns on it, packed in a \<^verbatim>\<open>RadixQueue\<close>.
\<close>

datatype 'm step_program = Return 'm | Pick_int u64 u64 "u64 \<Rightarrow> 'm step_program"

text \<open>The other choices of \<^verbatim>\<open>StateMachineEntropySource\<close>, as programs that go on with \<open>k\<close>.\<close>

definition pick_branch :: "(bool \<Rightarrow> 'm step_program) \<Rightarrow> 'm step_program" where
  "pick_branch k = Pick_int 0 1 (\<lambda>v. k (v = 0))"

definition pick_one_of :: "'a list \<Rightarrow> ('a \<Rightarrow> 'm step_program) \<Rightarrow> 'm step_program" where
  "pick_one_of vals k = Pick_int 0 (of_nat (length vals) - 1) (\<lambda>index. k (vals ! unat index))"

definition do_one_of :: "'m step_program list \<Rightarrow> 'm step_program" where
  "do_one_of actions = Pick_int 0 (of_nat (length actions) - 1) (\<lambda>index. actions ! unat index)"

record ('s, 'm) state_machine =
  initialize :: 's
  enter_state :: "'s \<Rightarrow> 'm"
  sm_step :: "'m \<Rightarrow> 'm step_program"
  leave_state :: "'m \<Rightarrow> 's"
  check_invariants :: "'m \<Rightarrow> bool"
  normalize :: "'s \<Rightarrow> 's"

record 's Branch =
  snapshot :: 's
  delta :: RadixQueue

text \<open>The capacity of the queues of a branch, in bits.\<close>

definition kRadixQueueSize :: nat where
  "kRadixQueueSize = 256"

record 's Checker =
  ck_current :: "'s Branch"
  ck_history :: RadixQueue
  ck_queue :: "'s Branch list"
  ck_visited :: "'s \<rightharpoonup> 's Branch"
  ck_ok :: bool
  branch_push_count :: nat
  branch_pop_count :: nat
  branch_miss_count :: nat
  state_count :: nat
  self_branch_count :: nat
  mesh_send_queue :: "'s Branch list"
  mesh_recv_queue :: "'s Branch list list"
  mesh_recv_closed :: bool
  total_pending_count :: int
  local_consume_count :: int

subsection \<open>The exchange between shards, for one shard\<close>

definition find_shard :: "('s Branch \<Rightarrow> u64) \<Rightarrow> nat \<Rightarrow> 's Branch \<Rightarrow> nat" where
  "find_shard hash_value shard_count branch = unat (hash_value branch div ((- 1) div of_nat shard_count))"

text \<open>A shard that is sending is not stalled, so a branch it sends to itself waits for the next flush.\<close>

definition mesh_send :: "'s Branch \<Rightarrow> 's Checker \<Rightarrow> 's Checker" where
  "mesh_send branch c = c\<lparr>mesh_send_queue := mesh_send_queue c @ [branch]\<rparr>"

text \<open>A push to a closed queue is a failed check.\<close>

definition queue_push :: "'s Checker \<Rightarrow> 's Checker option" where
  "queue_push c =
     (if mesh_recv_closed c then None
      else Some (c\<lparr>mesh_recv_queue := mesh_recv_queue c @ [mesh_send_queue c], mesh_send_queue := [],
        total_pending_count := total_pending_count c + 1\<rparr>))"

definition flush_all :: "'s Checker \<Rightarrow> 's Checker option" where
  "flush_all c = (if mesh_send_queue c = [] then Some c else queue_push c)"

definition transfer_batch :: "'s Checker \<Rightarrow> nat \<times> 's Checker" where
  "transfer_batch c =
     (let next_batch = hd (mesh_recv_queue c) in
      (length next_batch,
       c\<lparr>mesh_recv_queue := tl (mesh_recv_queue c), ck_queue := ck_queue c @ next_batch,
         local_consume_count := local_consume_count c + 1\<rparr>))"

definition close_all :: "'s Checker \<Rightarrow> 's Checker option" where
  "close_all c = (if mesh_recv_queue c = [] then Some (c\<lparr>mesh_recv_closed := True\<rparr>) else None)"

text \<open>An empty queue that is not closed leaves the only task waiting for ever, which is \<open>None\<close> as well.\<close>

definition mesh_recv :: "'s Checker \<Rightarrow> (nat StatusOr \<times> 's Checker) option" where
  "mesh_recv c =
     (if mesh_recv_queue c \<noteq> [] then (case transfer_batch c of (n, c) \<Rightarrow> Some (Inr n, c))
      else do {
        c \<leftarrow> flush_all c;
        let n_to_consume = local_consume_count c;
        let old_value = total_pending_count c;
        let c = c\<lparr>local_consume_count := 0, total_pending_count := total_pending_count c - n_to_consume\<rparr>;
        c \<leftarrow> (if old_value - n_to_consume = 0 then close_all c else Some c);
        if mesh_recv_queue c \<noteq> [] then (case transfer_batch c of (n, c) \<Rightarrow> Some (Inr n, c))
        else if mesh_recv_closed c then Some (Inl kClosed, c)
        else None
      })"

definition mesh_finished :: "'s Checker \<Rightarrow> 's Checker option" where
  "mesh_finished c =
     map_option (\<lambda>c. c\<lparr>mesh_recv_closed := True, mesh_recv_queue := []\<rparr>) (flush_all c)"

subsection \<open>The checker\<close>

definition explore :: "('s Branch \<Rightarrow> u64) \<Rightarrow> bool \<Rightarrow> 's Branch \<Rightarrow> 's Checker \<Rightarrow> 's Checker option" where
  "explore hash_value force_send branch c =
     (let dst_i = find_shard hash_value 1 branch in
      if dst_i \<noteq> 0 then None
      else if \<not> force_send
      then Some (c\<lparr>branch_push_count := branch_push_count c + 1, ck_queue := ck_queue c @ [branch]\<rparr>)
      else Some (mesh_send branch c))"

text \<open>The loop of \<^verbatim>\<open>pick_int\<close> over the values other than the first.\<close>

fun queue_branches :: "('s Branch \<Rightarrow> u64) \<Rightarrow> u64 \<Rightarrow> u64 list \<Rightarrow> 's Checker \<Rightarrow> 's Checker option" where
  "queue_branches hash_value radix [] c = Some c"
| "queue_branches hash_value radix (val # vals) c =
     do {
       d \<leftarrow> rq_push radix val (ck_history c);
       c \<leftarrow> explore hash_value False \<lparr>snapshot = snapshot (ck_current c), delta = d\<rparr> c;
       queue_branches hash_value radix vals c
     }"

definition pick_int :: "('s Branch \<Rightarrow> u64) \<Rightarrow> u64 \<Rightarrow> u64 \<Rightarrow> 's Checker \<Rightarrow> (u64 \<times> 's Checker) option" where
  "pick_int hash_value min_value max_value c =
     (if min_value = max_value then Some (min_value, c)
      else if \<not> min_value < max_value then None
      else let radix = max_value - min_value + 1 in
        if \<not> rq_empty (delta (ck_current c)) then
          do {
            (val, d) \<leftarrow> rq_pop radix (delta (ck_current c));
            h \<leftarrow> rq_push radix val (ck_history c);
            Some (min_value + val, c\<lparr>ck_current := (ck_current c)\<lparr>delta := d\<rparr>, ck_history := h\<rparr>)
          }
        else
          do {
            c \<leftarrow> queue_branches hash_value radix (map of_nat [1..<unat radix]) c;
            h \<leftarrow> rq_push radix 0 (ck_history c);
            Some (min_value, c\<lparr>ck_history := h\<rparr>)
          })"

primrec run_program :: "('s Branch \<Rightarrow> u64) \<Rightarrow> 'm step_program \<Rightarrow> 's Checker \<Rightarrow> ('m \<times> 's Checker) option" where
  "run_program hash_value (Return m) = (\<lambda>c. Some (m, c))"
| "run_program hash_value (Pick_int lo hi k) =
     (\<lambda>c. Option.bind (pick_int hash_value lo hi c) (\<lambda>(v, c'). run_program hash_value (k v) c'))"

definition visit :: "'s \<Rightarrow> 's Branch \<Rightarrow> 's Checker \<Rightarrow> bool \<times> 's Checker" where
  "visit s src_branch c =
     (case ck_visited c s of
        None \<Rightarrow> (True, c\<lparr>ck_visited := (ck_visited c)(s \<mapsto> src_branch)\<rparr>)
      | Some _ \<Rightarrow> (False, c))"

text \<open>The removal of duplicates from the received branches.\<close>

fun remove_duplicates :: "'s Branch list \<Rightarrow> 's Checker \<Rightarrow> 's Branch list \<times> 's Checker" where
  "remove_duplicates [] c = ([], c)"
| "remove_duplicates (b # bs) c =
     (if rq_empty (delta b) then
        (case visit (snapshot b) \<lparr>snapshot = snapshot b, delta = RadixQueue_init kRadixQueueSize\<rparr> c of
           (first_time, c) \<Rightarrow>
             (case remove_duplicates bs c of (bs', c) \<Rightarrow> (if first_time then b # bs' else bs', c)))
      else (case remove_duplicates bs c of (bs', c) \<Rightarrow> (b # bs', c)))"

partial_function (option) pop_next :: "('s Branch \<Rightarrow> u64) \<Rightarrow> 's Checker \<Rightarrow> (bool \<times> 's Checker) option" where
  "pop_next hash_value c =
     (case ck_queue c of
        [] \<Rightarrow>
          Option.bind (mesh_recv c) (\<lambda>(n_recv, c).
            case n_recv of
              Inl st \<Rightarrow> Some (False, if st \<noteq> kClosed then c\<lparr>ck_ok := False\<rparr> else c)
            | Inr n \<Rightarrow>
                if n = 0 \<or> length (ck_queue c) \<noteq> n then None
                else case remove_duplicates (ck_queue c) c of
                  (q, c) \<Rightarrow>
                    pop_next hash_value (c\<lparr>ck_queue := q, branch_push_count := branch_push_count c + length q\<rparr>))
      | next_branch # rest \<Rightarrow>
          if find_shard hash_value 1 next_branch \<noteq> 0 then None
          else Some (True, c\<lparr>ck_current := next_branch, ck_history := rq_clear (ck_history c), ck_queue := rest,
                 branch_pop_count := branch_pop_count c + 1\<rparr>))"

text \<open>One iteration of the loop of \<^verbatim>\<open>run\<close> after \<^verbatim>\<open>pop_next\<close>: whether to go on.\<close>

definition check_branch ::
    "('s, 'm) state_machine \<Rightarrow> ('s Branch \<Rightarrow> u64) \<Rightarrow> 's Checker \<Rightarrow> (bool \<times> 's Checker) option" where
  "check_branch M hash_value c =
     (let m = enter_state M (snapshot (ck_current c)) in
      if \<not> check_invariants M m then Some (False, c\<lparr>ck_ok := False\<rparr>)
      else do {
        (m, c) \<leftarrow> run_program hash_value (sm_step M m) c;
        if \<not> check_invariants M m then Some (False, c\<lparr>ck_ok := False\<rparr>)
        else let after = normalize M (leave_state M m) in
          if after = snapshot (ck_current c) then Some (True, c\<lparr>self_branch_count := self_branch_count c + 1\<rparr>)
          else (case visit after \<lparr>snapshot = snapshot (ck_current c), delta = ck_history c\<rparr> c of
              (True, c) \<Rightarrow>
                do {
                  c \<leftarrow> explore hash_value False \<lparr>snapshot = after, delta = RadixQueue_init kRadixQueueSize\<rparr>
                        (c\<lparr>state_count := state_count c + 1\<rparr>);
                  Some (True, c)
                }
            | (False, c) \<Rightarrow> Some (True, c))
      })"

partial_function (option) run_loop ::
    "('s, 'm) state_machine \<Rightarrow> ('s Branch \<Rightarrow> u64) \<Rightarrow> 's Checker \<Rightarrow> 's Checker option" where
  "run_loop M hash_value c =
     Option.bind (pop_next hash_value c) (\<lambda>(go, c).
       if \<not> go then Some c
       else Option.bind (check_branch M hash_value c) (\<lambda>(go, c). if \<not> go then Some c else run_loop M hash_value c))"

text \<open>The current branch is unset at first; here it starts at the initial state and is not read before it is set.\<close>

definition Checker_init :: "'s \<Rightarrow> 's Checker" where
  "Checker_init s =
     \<lparr>ck_current = \<lparr>snapshot = s, delta = RadixQueue_init kRadixQueueSize\<rparr>,
      ck_history = RadixQueue_init kRadixQueueSize, ck_queue = [], ck_visited = Map.empty, ck_ok = False,
      branch_push_count = 0, branch_pop_count = 0, branch_miss_count = 0, state_count = 0, self_branch_count = 0,
      mesh_send_queue = [], mesh_recv_queue = [], mesh_recv_closed = False, total_pending_count = 0,
      local_consume_count = 0\<rparr>"

definition checker_run :: "('s, 'm) state_machine \<Rightarrow> ('s Branch \<Rightarrow> u64) \<Rightarrow> 's Checker \<Rightarrow> 's Checker option" where
  "checker_run M hash_value c =
     do {
       let c = c\<lparr>ck_history := rq_clear (ck_history c), ck_visited := Map.empty, ck_queue := []\<rparr>;
       let s = normalize M (initialize M);
       c \<leftarrow> explore hash_value True \<lparr>snapshot = s, delta = RadixQueue_init kRadixQueueSize\<rparr> c;
       c \<leftarrow> flush_all c;
       if \<not> total_pending_count c > 0 then None
       else do {
         c \<leftarrow> run_loop M hash_value (c\<lparr>ck_ok := True, state_count := 1\<rparr>);
         mesh_finished c
       }
     }"

definition check_model :: "('s, 'm) state_machine \<Rightarrow> ('s Branch \<Rightarrow> u64) \<Rightarrow> 's Checker option" where
  "check_model M hash_value = checker_run M hash_value (Checker_init (normalize M (initialize M)))"

subsection \<open>Digits in a radix queue of full size\<close>

abbreviation big_digits :: "(nat \<times> nat) list \<Rightarrow> bool" where
  "big_digits ds \<equiv> \<forall>(r, v) \<in> set ds. 1 < r"

lemma enc_radix_big: "big_digits ds \<Longrightarrow> ds \<noteq> [] \<Longrightarrow> 1 < enc_radix ds"
proof (induction ds)
  case (Cons d ds)
  obtain r v where d: "d = (r, v)" by fastforce
  with Cons have "1 < r" "ds \<noteq> [] \<Longrightarrow> 1 < enc_radix ds" by auto
  then show ?case using less_1_mult [of r "enc_radix ds"] by (cases "ds = []") (simp_all add: d)
qed simp

lemma length_concat_ge: "\<forall>d \<in> set dss. d \<noteq> [] \<Longrightarrow> length dss \<le> length (concat dss)"
proof (induction dss)
  case (Cons d dss)
  then show ?case by (cases d) auto
qed simp

lemma represents_rq_empty:
  assumes rep: "represents q ds" and big: "big_digits ds"
  shows "rq_empty q \<longleftrightarrow> ds = []"
proof -
  from rep obtain dss where dss: "rq_inv q" "ds = concat dss" "list_all2 encodes dss (segments q)"
    "length dss > 1 \<longrightarrow> (\<forall>d \<in> set dss. enc_radix d > 1)" by (auto simp: represents_def)
  have len: "length dss = queue_size q" using dss(3) by (simp add: list_all2_lengthD)
  note ends = segments_ends [OF dss(1)] and b = queue_size_bounds [OF dss(1)]
  show ?thesis
  proof (cases "queue_size q = 1")
    case True
    then obtain d where d: "dss = [d]" using len by (metis One_nat_def length_0_conv length_Suc_conv)
    with dss(3) ends have "encodes d (rq_queue q ! rq_front q)" by (auto simp: list_all2_Cons1)
    then have "seg_radix (rq_queue q ! rq_front q) = 1 \<longleftrightarrow> enc_radix d = 1"
      by (metis encodes_def unat_1 unsigned_word_eqI)
    moreover have "enc_radix d = 1 \<longleftrightarrow> d = []" using enc_radix_big [of d] big dss(2) d by (cases "d = []") simp_all
    ultimately show ?thesis using True dss(2) d by (simp add: rq_empty_def)
  next
    case False
    then have "length dss > 1" using len b by simp
    with dss(4) obtain d where "d \<in> set dss" "enc_radix d > 1" by (cases dss) auto
    moreover from this have "d \<noteq> []" by auto
    ultimately have "concat dss \<noteq> []" by auto
    with False dss(2) show ?thesis by (simp add: rq_empty_def)
  qed
qed

lemma rq_push_size: "rq_push radix val q = Some q' \<Longrightarrow> kQueueSize q' = kQueueSize q"
  by (auto simp: rq_push_def push_back_def Let_def split: if_splits bind_splits)

text \<open>The room left in a queue: its free segments and the product of the radixes in its last segment; and the room
  left after the push of a digit, if there is room for it.\<close>

definition room :: "RadixQueue \<Rightarrow> nat \<Rightarrow> nat \<Rightarrow> bool" where
  "room q n acc \<longleftrightarrow> kQueueSize q = queue_size q + n \<and> unat (seg_radix (rq_queue q ! rq_back q)) = acc"

definition next_room :: "nat \<Rightarrow> nat \<Rightarrow> nat \<Rightarrow> (nat \<times> nat) option" where
  "next_room n acc radix =
     (if acc * radix < 2 ^ 64 then Some (n, acc * radix) else if 0 < n then Some (n - 1, radix) else None)"

lemma represents_back_pos: "represents q ds \<Longrightarrow> 0 < seg_radix (rq_queue q ! rq_back q)"
proof -
  assume "represents q ds"
  then obtain dss where inv: "rq_inv q" and "list_all2 encodes dss (segments q)" by (auto simp: represents_def)
  then obtain d where "encodes d (last (segments q))"
    using segments_ends(1) [OF inv] by (metis append_butlast_last_id list_all2_append2 list_all2_Cons2)
  then show ?thesis using encodes_pos [of d] segments_ends(3) [OF inv] by (auto simp: encodes_def word_less_nat_alt)
qed

lemma queue_size_update [simp]: "queue_size (q\<lparr>rq_queue := (rq_queue q)[i := s]\<rparr>) = queue_size q"
  by (simp add: queue_size_def)

lemma rq_push_room:
  assumes rep: "represents q ds" and v: "val < radix" and room: "room q n acc"
    and nxt: "next_room n acc (unat radix) = Some (n', acc')"
  obtains q' where "rq_push radix val q = Some q'" "represents q' (ds @ [(unat radix, unat val)])"
    "kQueueSize q' = kQueueSize q" "room q' n' acc'"
proof -
  let ?s = "rq_queue q ! rq_back q"
  have inv: "rq_inv q" using rep by (simp add: represents_def)
  note pos = represents_back_pos [OF rep]
  have acc: "unat (seg_radix ?s) = acc" and size: "kQueueSize q = queue_size q + n" using room by (simp_all add: room_def)
  have "queue_size q < kQueueSize q \<or> unat (seg_radix ?s) * unat radix < 2 ^ 64"
    using nxt acc size by (auto simp: next_room_def split: if_splits)
  from rq_push_represents [OF rep v this] obtain q' where
    q': "rq_push radix val q = Some q'" "represents q' (ds @ [(unat radix, unat val)])" by blast
  have "room q' n' acc'"
  proof (cases "acc * unat radix < 2 ^ 64")
    case True
    then have "\<not> (- 1) div seg_radix ?s < radix" using overflow_test [OF _ pos, of radix] acc by fastforce
    then have "q' = q\<lparr>rq_queue := (rq_queue q)[rq_back q := ?s\<lparr>seg_value := seg_value ?s + val * seg_radix ?s,
        seg_radix := seg_radix ?s * radix\<rparr>]\<rparr>"
      using q'(1) v by (simp add: rq_push_def Let_def)
    moreover have "unat (seg_radix ?s * radix) = acc * unat radix"
      using True acc by (simp add: unat_word_ariths)
    ultimately show ?thesis using True nxt size inv
      by (simp add: room_def next_room_def rq_inv_def)
  next
    case False
    then have over: "(- 1) div seg_radix ?s < radix" using radix_mult_fits [OF _ pos, of radix] acc by fastforce
    have n: "0 < n" "n' = n - 1" "acc' = unat radix" using False nxt by (auto simp: next_room_def split: if_splits)
    then have "queue_size q < kQueueSize q" using size by simp
    from push_back_segments [OF inv this] obtain q1 where q1: "push_back q = Some q1" "rq_inv q1"
      "segments q1 = segments q @ [empty_segment]" "kQueueSize q1 = kQueueSize q" "queue_size q1 = Suc (queue_size q)"
      by blast
    have s1: "rq_queue q1 ! rq_back q1 = empty_segment" using segments_ends(3) [OF q1(2)] q1(3) by simp
    have "q' = q1\<lparr>rq_queue := (rq_queue q1)[rq_back q1 := empty_segment\<lparr>seg_value := val, seg_radix := radix\<rparr>]\<rparr>"
      using q'(1) v over q1(1) s1 by (simp add: rq_push_def Let_def empty_segment_def)
    then show ?thesis using n q1 size by (simp add: room_def rq_inv_def)
  qed
  with q' rq_push_size that show ?thesis by blast
qed

lemma represents_clear: "0 < kQueueSize q \<Longrightarrow> represents (rq_clear q) []"
proof -
  assume pos: "0 < kQueueSize q"
  have "segments (rq_clear q) = [empty_segment]"
    using pos by (simp add: segments_def rq_clear_def queue_size_def ring_def)
  then show ?thesis using pos
    by (auto simp: represents_def rq_inv_def rq_clear_def intro!: exI [of _ "[[]]"])
qed

lemma rq_clear_size [simp]: "kQueueSize (rq_clear q) = kQueueSize q"
  by (simp add: rq_clear_def)

lemma room_clear: "0 < kQueueSize q \<Longrightarrow> room (rq_clear q) (kQueueSize q - 1) 1"
  by (simp add: room_def queue_size_def rq_clear_def empty_segment_def)

subsection \<open>The choices of one step\<close>

text \<open>All results of a step, whatever \<^verbatim>\<open>pick_int\<close> returns, and how many ways lead to a result.\<close>

primrec outcomes :: "'m step_program \<Rightarrow> 'm set" where
  "outcomes (Return m) = {m}"
| "outcomes (Pick_int lo hi k) = (\<Union>v \<in> {lo..hi}. outcomes (k v))"

primrec leaves :: "'m step_program \<Rightarrow> nat" where
  "leaves (Return m) = 1"
| "leaves (Pick_int lo hi k) = (\<Sum>v \<in> {lo..hi}. leaves (k v))"

lemma outcomes_pick_one_of:
  assumes "vals \<noteq> []" and "length vals < 2 ^ 64"
  shows "outcomes (pick_one_of vals k) = (\<Union>x \<in> set vals. outcomes (k x))"
proof -
  let ?n = "of_nat (length vals) :: u64"
  have n: "unat ?n = length vals" using assms(2) by (simp add: unat_of_nat)
  then have "?n \<noteq> 0" using assms(1) by auto
  then have u: "unat (?n - 1) = length vals - 1" using n by (simp add: unat_minus_one)
  have "{0..?n - 1} = of_nat ` {0..<length vals}"
  proof (intro equalityI subsetI)
    fix v assume "v \<in> {0..?n - 1}"
    then have "unat v < length vals" using u assms(1) by (cases vals) (auto simp: word_le_nat_alt)
    then show "v \<in> of_nat ` {0..<length vals}" by (intro image_eqI [of _ _ "unat v"]) auto
  next
    fix v :: u64 assume "v \<in> of_nat ` {0..<length vals}"
    then obtain i where "v = of_nat i" "i < length vals" by auto
    then show "v \<in> {0..?n - 1}" using u assms(2) by (auto simp: word_le_nat_alt unat_of_nat)
  qed
  then have "outcomes (pick_one_of vals k) = (\<Union>i \<in> {0..<length vals}. outcomes (k (vals ! i)))"
    using assms(2) by (auto simp: pick_one_of_def unat_of_nat)
  also have "\<dots> = (\<Union>x \<in> (!) vals ` {0..<length vals}. outcomes (k x))" by simp
  also have "(!) vals ` {0..<length vals} = set vals" using nth_image [of "length vals" vals] by simp
  finally show ?thesis .
qed

lemma do_one_of_pick: "do_one_of actions = pick_one_of actions (\<lambda>p. p)"
  by (simp add: do_one_of_def pick_one_of_def)

lemma pick_branch_pick: "outcomes (pick_branch k) = outcomes (pick_one_of [True, False] k)"
proof -
  have "{0..1 :: u64} = {0, 1}" by (auto simp: word_le_nat_alt word_unat_eq_iff)
  then have "outcomes (pick_branch k) = outcomes (k True) \<union> outcomes (k False)" by (simp add: pick_branch_def)
  then show ?thesis by (simp add: outcomes_pick_one_of)
qed

text \<open>A step that the checker can run: its ranges are not empty, their sizes fit a word, and on every path the
  choices fit into a queue with room \<open>n\<close>, \<open>acc\<close>.\<close>

primrec wf_program :: "'m step_program \<Rightarrow> nat \<Rightarrow> nat \<Rightarrow> bool" where
  "wf_program (Return m) = (\<lambda>n acc. True)"
| "wf_program (Pick_int lo hi k) = (\<lambda>n acc. lo \<le> hi \<and> \<not> (lo = 0 \<and> hi = - 1) \<and>
     (if lo = hi then wf_program (k lo) n acc
      else case next_room n acc (unat (hi - lo + 1)) of
          None \<Rightarrow> False
        | Some (n', acc') \<Rightarrow> \<forall>v \<in> {lo..hi}. wf_program (k v) n' acc'))"

abbreviation checkable :: "'m step_program \<Rightarrow> bool" where
  "checkable p \<equiv> wf_program p (kRadixQueueSize div 64 - 1) 1"

text \<open>The rest of a step after the choices that some digits stand for.\<close>

primrec follow :: "'m step_program \<Rightarrow> (nat \<times> nat) list \<Rightarrow> 'm step_program" where
  "follow (Return m) = (\<lambda>ds. Return m)"
| "follow (Pick_int lo hi k) = (\<lambda>ds.
     if lo = hi then follow (k lo) ds
     else case ds of [] \<Rightarrow> Pick_int lo hi k | (r, v) # ds \<Rightarrow> follow (k (lo + of_nat v)) ds)"

primrec path_ok :: "'m step_program \<Rightarrow> (nat \<times> nat) list \<Rightarrow> bool" where
  "path_ok (Return m) = (\<lambda>ds. ds = [])"
| "path_ok (Pick_int lo hi k) = (\<lambda>ds.
     if lo = hi then path_ok (k lo) ds
     else case ds of [] \<Rightarrow> True
     | (r, v) # ds \<Rightarrow> r = unat (hi - lo + 1) \<and> v < r \<and> path_ok (k (lo + of_nat v)) ds)"

lemma outcomes_follow_Nil: "outcomes (follow p []) = outcomes p" and leaves_follow_Nil: "leaves (follow p []) = leaves p"
  by (induction p) auto

lemma path_ok_Nil [simp]: "path_ok p []"
  by (induction p) auto

lemma radix_unat:
  fixes lo hi :: u64
  assumes "lo < hi" and "\<not> (lo = 0 \<and> hi = - 1)"
  shows "unat (hi - lo + 1) = Suc (unat hi - unat lo)" and "1 < unat (hi - lo + 1)"
proof -
  have u: "unat (hi - lo) = unat hi - unat lo" using assms(1) by (simp add: unat_sub)
  have "hi - lo \<noteq> - 1"
  proof
    assume "hi - lo = - 1"
    then have "unat hi - unat lo = 2 ^ 64 - 1" using u by (simp add: unsigned_minus_1_eq_mask mask_eq_exp_minus_1)
    then have "unat hi = 2 ^ 64 - 1" "unat lo = 0"
      using unat_u64_less [of hi] by auto
    then have "hi = - 1" "lo = 0"
      by (simp_all add: word_unat_eq_iff unsigned_minus_1_eq_mask mask_eq_exp_minus_1)
    with assms(2) show False by simp
  qed
  then have "hi - lo + 1 \<noteq> 0" by (metis add.inverse_inverse add_eq_0_iff2 add_uminus_conv_diff)
  then have "unat (hi - lo + 1) = Suc (unat (hi - lo))" by (metis add.commute unatSuc)
  with u show "unat (hi - lo + 1) = Suc (unat hi - unat lo)" by simp
  with assms(1) show "1 < unat (hi - lo + 1)" by (simp add: word_less_nat_alt)
qed

lemma choices_bij:
  fixes lo hi :: u64
  assumes "lo < hi" and "\<not> (lo = 0 \<and> hi = - 1)"
  shows "bij_betw (\<lambda>v. lo + of_nat v) {0..<unat (hi - lo + 1)} {lo..hi}"
proof -
  note r = radix_unat [OF assms]
  have lt: "unat lo < unat hi" using assms(1) by (simp add: word_less_nat_alt)
  have u: "unat (lo + of_nat v) = unat lo + v" if "v < unat (hi - lo + 1)" for v
  proof -
    have "unat lo + v < 2 ^ 64" using that r lt unat_u64_less [of hi] by simp
    then show ?thesis by (simp add: unat_word_ariths unat_of_nat)
  qed
  show ?thesis
  proof (rule bij_betwI')
    fix v w assume vw: "v \<in> {0..<unat (hi - lo + 1)}" "w \<in> {0..<unat (hi - lo + 1)}"
    show "(lo + of_nat v = lo + of_nat w) = (v = w)"
    proof
      assume "lo + of_nat v = lo + of_nat w"
      then have "unat lo + v = unat lo + w" using u vw by (metis atLeastLessThan_iff)
      then show "v = w" by simp
    qed simp
  next
    fix v assume v: "v \<in> {0..<unat (hi - lo + 1)}"
    then show "lo + of_nat v \<in> {lo..hi}" using u [of v] r lt by (simp add: word_le_nat_alt)
  next
    fix x assume x: "x \<in> {lo..hi}"
    show "\<exists>v \<in> {0..<unat (hi - lo + 1)}. x = lo + of_nat v"
    proof (rule bexI [of _ "unat (x - lo)"])
      show "unat (x - lo) \<in> {0..<unat (hi - lo + 1)}"
        using x r by (auto simp: unat_sub word_le_nat_alt intro: diff_le_mono less_Suc_eq_le [THEN iffD2])
    qed simp
  qed
qed

lemma leaves_pos: "wf_program p n acc \<Longrightarrow> 0 < leaves p"
proof (induction p arbitrary: n acc)
  case (Pick_int lo hi k)
  have "\<exists>n acc. wf_program (k lo) n acc"
  proof (cases "lo = hi")
    case False
    with Pick_int.prems obtain n' acc' where "\<forall>v \<in> {lo..hi}. wf_program (k v) n' acc'" "lo \<le> hi" by (auto split: option.splits)
    then have "wf_program (k lo) n' acc'" by simp
    then show ?thesis by blast
  qed (use Pick_int.prems in auto)
  then have "0 < leaves (k lo)" using Pick_int.IH by auto
  moreover have "lo \<in> {lo..hi}" "finite {lo..hi}" using Pick_int by auto
  ultimately show ?case using sum_pos2 [of "{lo..hi}" lo "\<lambda>v. leaves (k v)"] by simp
qed simp

lemma wf_child:
  assumes "wf_program (Pick_int lo hi k) n acc" and "lo \<noteq> hi"
  obtains n' acc' where "next_room n acc (unat (hi - lo + 1)) = Some (n', acc')"
    "\<And>v. v < unat (hi - lo + 1) \<Longrightarrow> wf_program (k (lo + of_nat v)) n' acc'"
proof -
  have lt: "lo < hi" "\<not> (lo = 0 \<and> hi = - 1)" using assms by auto
  from assms obtain n' acc' where nxt: "next_room n acc (unat (hi - lo + 1)) = Some (n', acc')"
    and wf: "\<forall>v \<in> {lo..hi}. wf_program (k v) n' acc'" by (auto split: option.splits)
  have "lo + of_nat v \<in> {lo..hi}" if "v < unat (hi - lo + 1)" for v
    using that choices_bij [OF lt] by (auto simp: bij_betw_def)
  with wf nxt that show ?thesis by blast
qed

text \<open>A step with at most \<open>4 * (63 div j)\<close> choices on a path, each from at most \<open>2 ^ j\<close> values, is such a step: a
  binary choice may be made 252 times, a choice between up to \<open>2 ^ 33\<close> values only four times.\<close>

primrec at_most :: "nat \<Rightarrow> 'm step_program \<Rightarrow> nat \<Rightarrow> bool" where
  "at_most j (Return m) = (\<lambda>count. True)"
| "at_most j (Pick_int lo hi k) = (\<lambda>count. lo \<le> hi \<and> 0 < count \<and> unat hi - unat lo < 2 ^ j \<and>
     (\<forall>v \<in> {lo..hi}. at_most j (k v) (count - 1)))"

lemma at_most_fits:
  assumes "at_most j p m" and "m \<le> n * (63 div j) + (63 div j - i)" and "acc \<le> 2 ^ (j * i)" and "j < 64"
  shows "wf_program p n acc"
  using assms
proof (induction p arbitrary: m n i acc)
  case (Pick_int lo hi k)
  let ?q = "63 div j" and ?r = "unat (hi - lo + 1)"
  have size: "unat hi - unat lo < 2 ^ j" and le: "lo \<le> hi" and m: "0 < m"
    and sub: "\<And>v. v \<in> {lo..hi} \<Longrightarrow> at_most j (k v) (m - 1)" using Pick_int.prems(1) by auto
  have j64: "(2 :: nat) ^ j \<le> 2 ^ 63" using Pick_int.prems(4) by (intro power_increasing) auto
  have nfull: "\<not> (lo = 0 \<and> hi = - 1)"
    using size j64 by (auto simp: unsigned_minus_1_eq_mask mask_eq_exp_minus_1)
  have IH: "wf_program (k v) n' acc'" if "v \<in> {lo..hi}" "m - 1 \<le> n' * ?q + (?q - i')" "acc' \<le> 2 ^ (j * i')" for v n' acc' i'
    using Pick_int.IH [OF _ sub [OF that(1)] that(2,3) Pick_int.prems(4)] by blast
  show ?case
  proof (cases "lo = hi")
    case True
    have "wf_program (k lo) n acc" by (rule IH [of lo n i]) (use Pick_int.prems(2,3) True in auto)
    with True nfull show ?thesis by simp
  next
    case False
    then have lt: "lo < hi" using le by simp
    have r: "?r \<le> 2 ^ j" using radix_unat(1) [OF lt nfull] size by simp
    have grow: "acc * ?r \<le> 2 ^ (j * Suc i)"
      using mult_le_mono [OF Pick_int.prems(3) r] by (simp add: power_add mult.commute)
    show ?thesis
    proof (cases "acc * ?r < 2 ^ 64")
      case True
      have "wf_program (k v) n (acc * ?r)" if "v \<in> {lo..hi}" for v
        by (rule IH [OF that _ grow]) (use Pick_int.prems(2) m in auto)
      with True False le nfull show ?thesis by (simp add: next_room_def)
    next
      case over: False
      have "?q \<le> i"
      proof (rule ccontr)
        assume "\<not> ?q \<le> i"
        then have "j * Suc i \<le> j * ?q" by (intro mult_le_mono2) simp
        also have "\<dots> \<le> 63" by simp
        finally have "(2 :: nat) ^ (j * Suc i) \<le> 2 ^ 63" by (intro power_increasing) auto
        with grow over show False by simp
      qed
      with Pick_int.prems(2) m have mn: "m \<le> n * ?q" by simp
      with m obtain n0 where n0: "n = Suc n0" by (cases n) auto
      have "wf_program (k v) n0 ?r" if "v \<in> {lo..hi}" for v
        by (rule IH [OF that, of n0 1]) (use mn n0 r m in auto)
      with over False le nfull n0 show ?thesis by (simp add: next_room_def)
    qed
  qed
qed simp

lemma choices_split:
  fixes lo hi :: u64
  assumes "lo < hi" and "\<not> (lo = 0 \<and> hi = - 1)"
  shows "outcomes (Pick_int lo hi k) = outcomes (k lo) \<union> (\<Union>v \<in> {1..<unat (hi - lo + 1)}. outcomes (k (lo + of_nat v)))"
    and "leaves (Pick_int lo hi k) = leaves (k lo) + (\<Sum>v \<leftarrow> [1..<unat (hi - lo + 1)]. leaves (k (lo + of_nat v)))"
proof -
  let ?r = "unat (hi - lo + 1)" and ?f = "\<lambda>v. lo + of_nat v"
  note b = choices_bij [OF assms] and r = radix_unat [OF assms]
  have z: "{0..<?r} = insert 0 {1..<?r}" using r(2) by auto
  have im: "{lo..hi} = ?f ` {0..<?r}" using b by (simp add: bij_betw_def)
  show "outcomes (Pick_int lo hi k) = outcomes (k lo) \<union> (\<Union>v \<in> {1..<?r}. outcomes (k (?f v)))"
    unfolding outcomes.simps im z by simp
  have "leaves (Pick_int lo hi k) = (\<Sum>v \<in> {0..<?r}. leaves (k (?f v)))"
    using sum.reindex_bij_betw [OF b, of "\<lambda>v. leaves (k v)"] by simp
  also have "\<dots> = leaves (k lo) + (\<Sum>v \<in> {1..<?r}. leaves (k (?f v)))"
    unfolding z by simp
  also have "(\<Sum>v \<in> {1..<?r}. leaves (k (?f v))) = (\<Sum>v \<leftarrow> [1..<?r]. leaves (k (?f v)))"
    by (simp add: interv_sum_list_conv_sum_set_nat)
  finally show "leaves (Pick_int lo hi k) = leaves (k lo) + (\<Sum>v \<leftarrow> [1..<?r]. leaves (k (?f v)))" .
qed

lemma path_ok_big: "path_ok p ds \<Longrightarrow> wf_program p n acc \<Longrightarrow> big_digits ds"
proof (induction p arbitrary: ds n acc)
  case (Pick_int lo hi k)
  show ?case
  proof (cases "lo = hi")
    case True
    with Pick_int.prems have "path_ok (k lo) ds" "wf_program (k lo) n acc" by simp_all
    with Pick_int.IH [of "k lo"] show ?thesis by blast
  next
    case False
    with Pick_int.prems have lt: "lo < hi" "\<not> (lo = 0 \<and> hi = - 1)" by auto
    note r = radix_unat(2) [OF lt]
    show ?thesis
    proof (cases ds)
      case (Cons d ds')
      obtain r v where d: "d = (r, v)" by fastforce
      with Cons False Pick_int.prems have p: "r = unat (hi - lo + 1)" "v < r" "path_ok (k (lo + of_nat v)) ds'" by auto
      from wf_child [OF Pick_int.prems(2) False] p(1,2) obtain n' acc' where "wf_program (k (lo + of_nat v)) n' acc'" by blast
      from Pick_int.IH [OF _ p(3) this] r p(1) show ?thesis by (simp add: Cons d)
    qed simp
  qed
qed simp

lemma few_choices_fit:
  assumes "at_most j p m" and "m \<le> 4 * (63 div j)" and "j < 64"
  shows "checkable p"
  using at_most_fits [OF assms(1), of 3 0 1] assms(2,3) by (simp add: kRadixQueueSize_def)

lemma five_wide_choices_do_not_fit:
  "\<not> checkable (Pick_int 0 (2 ^ 33) (\<lambda>_. Pick_int 0 (2 ^ 33) (\<lambda>_. Pick_int 0 (2 ^ 33) (\<lambda>_. Pick_int 0 (2 ^ 33)
     (\<lambda>_. Pick_int 0 (2 ^ 33) (\<lambda>_. Return m))))))"
proof -
  have "\<exists>v :: u64. v \<le> 8589934592" by blast
  then show ?thesis by (simp add: kRadixQueueSize_def next_room_def)
qed

subsection \<open>What a run of a step queues\<close>

text \<open>The effect of \<^verbatim>\<open>pick_int\<close> on the checker: new branches at the end of the queue, and other
  positions in the current branch and the history.\<close>

definition explored :: "'s Checker \<Rightarrow> 's Branch list \<Rightarrow> 's Checker \<Rightarrow> bool" where
  "explored c new c' \<longleftrightarrow> (\<exists>d h n. kQueueSize h = kQueueSize (ck_history c) \<and>
     c' = c\<lparr>ck_current := (ck_current c)\<lparr>delta := d\<rparr>, ck_history := h, ck_queue := ck_queue c @ new,
            branch_push_count := n\<rparr>)"

lemma explored_trans: "explored c new c1 \<Longrightarrow> explored c1 new' c2 \<Longrightarrow> explored c (new @ new') c2"
  unfolding explored_def by (elim exE conjE, intro exI conjI) auto

lemma explored_refl: "explored c [] c"
  unfolding explored_def
  by (intro exI [of _ "delta (ck_current c)"] exI [of _ "ck_history c"] exI [of _ "branch_push_count c"]) simp

lemma exploredD:
  assumes "explored c new c'"
  shows "snapshot (ck_current c') = snapshot (ck_current c)" "kQueueSize (ck_history c') = kQueueSize (ck_history c)"
    "ck_queue c' = ck_queue c @ new" "ck_visited c' = ck_visited c" "ck_ok c' = ck_ok c" "state_count c' = state_count c"
    "mesh_send_queue c' = mesh_send_queue c" "mesh_recv_queue c' = mesh_recv_queue c"
    "mesh_recv_closed c' = mesh_recv_closed c" "total_pending_count c' = total_pending_count c"
    "local_consume_count c' = local_consume_count c"
  using assms by (auto simp: explored_def)

lemma queue_branches_all:
  assumes "\<forall>b. find_shard h 1 b = 0" and "\<forall>v \<in> set vals. rq_push radix v (ck_history c) \<noteq> None"
  shows "queue_branches h radix vals c =
    Some (c\<lparr>branch_push_count := branch_push_count c + length vals,
            ck_queue := ck_queue c @ map (\<lambda>v. \<lparr>snapshot = snapshot (ck_current c),
              delta = the (rq_push radix v (ck_history c))\<rparr>) vals\<rparr>)"
  using assms(2)
proof (induction vals arbitrary: c)
  case (Cons v vals)
  then obtain d where d: "rq_push radix v (ck_history c) = Some d" by auto
  show ?case using Cons.prems assms(1)
    by (simp add: d explore_def Cons.IH)
qed simp

lemma pick_int_replay:
  assumes "lo < hi" and "\<not> (lo = 0 \<and> hi = - 1)" and "r = unat (hi - lo + 1)" and "v < r"
    and "represents (delta (ck_current c)) ((r, v) # ds)" and "big_digits ((r, v) # ds)"
    and "represents (ck_history c) hs" and "room (ck_history c) n acc" and "next_room n acc r = Some (n', acc')"
  shows "\<exists>c'. pick_int h lo hi c = Some (lo + of_nat v, c') \<and> explored c [] c' \<and>
    represents (delta (ck_current c')) ds \<and> represents (ck_history c') (hs @ [(r, v)]) \<and> room (ck_history c') n' acc'"
proof -
  obtain x d where x: "rq_pop (hi - lo + 1) (delta (ck_current c)) = Some (x, d)" "unat x = v" "represents d ds"
    using rq_pop_represents [OF assms(5), of "hi - lo + 1"] assms(3) by auto
  have "x < hi - lo + 1" using x(2) assms(3,4) by (simp add: word_less_nat_alt)
  from rq_push_room [OF assms(7) this assms(8) assms(9) [unfolded assms(3)]] obtain q where
    q: "rq_push (hi - lo + 1) x (ck_history c) = Some q" "represents q (hs @ [(r, v)])"
      "kQueueSize q = kQueueSize (ck_history c)" "room q n' acc'" using assms(3) x(2) by metis
  let ?c = "c\<lparr>ck_current := (ck_current c)\<lparr>delta := d\<rparr>, ck_history := q\<rparr>"
  have "\<not> rq_empty (delta (ck_current c))" using represents_rq_empty [OF assms(5,6)] by simp
  moreover have "x = of_nat v" using x(2) by auto
  ultimately have "pick_int h lo hi c = Some (lo + of_nat v, ?c)"
    using assms(1) less_imp_neq [OF assms(1)] x(1) q(1) by (simp add: pick_int_def Let_def)
  moreover have "explored c [] ?c" unfolding explored_def
    by (intro exI [of _ d] exI [of _ q] exI [of _ "branch_push_count c"]) (simp add: q(3))
  ultimately show ?thesis using x(3) q(2,4) by auto
qed

lemma pick_int_fresh:
  assumes h: "\<forall>b. find_shard h 1 b = 0" and "lo < hi" and "\<not> (lo = 0 \<and> hi = - 1)" and r: "r = unat (hi - lo + 1)"
    and "represents (delta (ck_current c)) []"
    and hist: "represents (ck_history c) hs" and "room (ck_history c) n acc" and "next_room n acc r = Some (n', acc')"
  shows "\<exists>c' new. pick_int h lo hi c = Some (lo, c') \<and> explored c new c' \<and>
    represents (delta (ck_current c')) [] \<and> represents (ck_history c') (hs @ [(r, 0)]) \<and> room (ck_history c') n' acc' \<and>
    list_all2 (\<lambda>b v. snapshot b = snapshot (ck_current c) \<and> represents (delta b) (hs @ [(r, v)])) new [1..<r]"
proof -
  let ?radix = "hi - lo + 1"
  let ?new = "map (\<lambda>v. \<lparr>snapshot = snapshot (ck_current c), delta = the (rq_push ?radix (of_nat v) (ck_history c))\<rparr>) [1..<r]"
  have push: "\<exists>q. rq_push ?radix (of_nat v) (ck_history c) = Some q \<and> represents q (hs @ [(r, v)]) \<and>
      kQueueSize q = kQueueSize (ck_history c) \<and> room q n' acc'" if "v < r" for v
  proof -
    have v: "unat (of_nat v :: u64) = v" using that r unat_u64_less [of ?radix] by (simp add: unat_of_nat)
    then have "of_nat v < ?radix" using that r by (simp add: word_less_nat_alt)
    from rq_push_room [OF hist this assms(7) assms(8) [unfolded r]] show ?thesis using v r by metis
  qed
  have "0 < r" using radix_unat(2) [OF assms(2,3)] r by simp
  from push [OF this] obtain q where
    q: "rq_push ?radix 0 (ck_history c) = Some q" "represents q (hs @ [(r, 0)])" "kQueueSize q = kQueueSize (ck_history c)"
      "room q n' acc'" by auto
  let ?c = "c\<lparr>branch_push_count := branch_push_count c + (r - 1), ck_queue := ck_queue c @ ?new, ck_history := q\<rparr>"
  have "rq_empty (delta (ck_current c))" using represents_rq_empty [OF assms(5)] by simp
  moreover have "\<forall>w \<in> set (map of_nat [1..<r]). rq_push ?radix w (ck_history c) \<noteq> None"
    using push by fastforce
  ultimately have "pick_int h lo hi c = Some (lo, ?c)"
    using assms(2) q(1) r by (simp add: pick_int_def Let_def queue_branches_all [OF h] comp_def)
  moreover have "explored c ?new ?c" unfolding explored_def
    by (intro exI [of _ "delta (ck_current c)"] exI [of _ q] exI [of _ "branch_push_count c + (r - 1)"]) (simp add: q(3))
  moreover have "list_all2 (\<lambda>b v. snapshot b = snapshot (ck_current c) \<and> represents (delta b) (hs @ [(r, v)])) ?new [1..<r]"
    unfolding list_all2_map1 by (rule list.rel_refl_strong) (use push in fastforce)
  ultimately show ?thesis using q(2,4) assms(5) by auto
qed

text \<open>Running a step along the digits of a branch gives one result and queues branches whose subtrees
  hold all the other results of the subtree of the branch, each once.\<close>

abbreviation queued :: "'s \<Rightarrow> 'm step_program \<Rightarrow> (nat \<times> nat) list \<Rightarrow> 's Branch \<Rightarrow> (nat \<times> nat) list \<Rightarrow> bool" where
  "queued s p hs b d \<equiv> snapshot b = s \<and> represents (delta b) (hs @ d) \<and> path_ok p d"

lemma queued_child:
  assumes "list_all2 (queued s (k (lo + of_nat v)) (hs @ [(r, v)])) new nds"
    and "lo \<noteq> hi" and "r = unat (hi - lo + 1)" and "v < r"
  shows "list_all2 (queued s (Pick_int lo hi k) hs) new (map ((#) (r, v)) nds)"
  using assms by (auto simp: list_all2_map2 elim!: list_all2_mono)

definition run_program_ok :: "'m step_program \<Rightarrow> (nat \<times> nat) list \<Rightarrow> 'm \<Rightarrow> (nat \<times> nat) list list \<Rightarrow> bool" where
  "run_program_ok p ds m nds \<longleftrightarrow>
     outcomes (follow p ds) = insert m (\<Union>d \<in> set nds. outcomes (follow p d)) \<and>
     leaves (follow p ds) = Suc (\<Sum>d \<leftarrow> nds. leaves (follow p d))"

lemma run_pick_replay:
  assumes "run_program_ok (k (lo + of_nat v)) ds m nds" and "lo \<noteq> hi"
  shows "run_program_ok (Pick_int lo hi k) ((r, v) # ds) m (map ((#) (r, v)) nds)"
  using assms by (simp add: run_program_ok_def comp_def)

lemma run_pick_fresh:
  assumes "run_program_ok (k lo) [] m nds" and lt: "lo < hi" "\<not> (lo = 0 \<and> hi = - 1)" and r: "r = unat (hi - lo + 1)"
  shows "run_program_ok (Pick_int lo hi k) [] m (map (\<lambda>v. [(r, v)]) [1..<r] @ map ((#) (r, 0)) nds)"
proof -
  have f: "follow (Pick_int lo hi k) ((r', v) # d) = follow (k (lo + of_nat v)) d" for r' v d using lt by auto
  from assms(1) choices_split [OF lt, of k] show ?thesis
    by (simp add: run_program_ok_def f comp_def outcomes_follow_Nil leaves_follow_Nil r [symmetric] Un_commute
        del: follow.simps outcomes.simps leaves.simps)
qed

lemma run_program_covers:
  assumes h: "\<forall>b. find_shard h 1 b = 0" and "wf_program p n acc" and "path_ok p ds"
    and "represents (delta (ck_current c)) ds" and "represents (ck_history c) hs"
    and "room (ck_history c) n acc"
  shows "\<exists>m c' new nds. run_program h p c = Some (m, c') \<and> explored c new c' \<and>
    list_all2 (queued (snapshot (ck_current c)) p hs) new nds \<and> run_program_ok p ds m nds"
  using assms(2-)
proof (induction p arbitrary: n acc ds c hs)
  case (Return m)
  then show ?case by (intro exI [of _ m] exI [of _ c] exI [of _ "[]"]) (simp add: explored_refl run_program_ok_def)
next
  case (Pick_int lo hi k)
  let ?s = "snapshot (ck_current c)" and ?p = "Pick_int lo hi k"
  show ?case
  proof (cases "lo = hi")
    case True
    then have "run_program h ?p c = run_program h (k lo) c" by (simp add: pick_int_def)
    moreover have "follow ?p d = follow (k lo) d" "path_ok ?p d = path_ok (k lo) d" for d using True by simp_all
    ultimately show ?thesis
      using Pick_int.IH [of "k lo" n acc ds c hs] Pick_int.prems True by (simp add: run_program_ok_def)
  next
    case False
    with Pick_int.prems(1) have lt: "lo < hi" "\<not> (lo = 0 \<and> hi = - 1)" by auto
    define r where r: "r = unat (hi - lo + 1)"
    from wf_child [OF Pick_int.prems(1) False] obtain n' acc' where nxt: "next_room n acc r = Some (n', acc')"
      and wf: "\<And>v. v < r \<Longrightarrow> wf_program (k (lo + of_nat v)) n' acc'" unfolding r by blast
    show ?thesis
    proof (cases ds)
      case (Cons d0 ds')
      then obtain v where ds: "ds = (r, v) # ds'" and v: "v < r" and p: "path_ok (k (lo + of_nat v)) ds'"
        using Pick_int.prems(2) False r by (cases d0) auto
      from pick_int_replay [OF lt r v, of c ds' hs n acc n' acc' h] path_ok_big [OF Pick_int.prems(2,1)]
        Pick_int.prems(3-) ds nxt obtain c1 where c1: "pick_int h lo hi c = Some (lo + of_nat v, c1)" "explored c [] c1"
        "represents (delta (ck_current c1)) ds'" "represents (ck_history c1) (hs @ [(r, v)])" "room (ck_history c1) n' acc'" by auto
      note e1 = exploredD [OF c1(2)]
      from Pick_int.IH [OF _ wf [OF v] p c1(3,4,5)] e1(1) obtain m c' new nds where
        c': "run_program h (k (lo + of_nat v)) c1 = Some (m, c')" "explored c1 new c'"
          "list_all2 (queued ?s (k (lo + of_nat v)) (hs @ [(r, v)])) new nds"
          "run_program_ok (k (lo + of_nat v)) ds' m nds"
        by auto
      from explored_trans [OF c1(2) c'(2)] queued_child [where k = k and lo = lo and hi = hi, OF c'(3) False r v] c1(1) c'(1)
        run_pick_replay [where k = k and lo = lo and hi = hi, OF c'(4) False]
      show ?thesis unfolding ds
        by (intro exI [of _ m] exI [of _ c'] exI [of _ new] exI [of _ "map ((#) (r, v)) nds"]) simp
    next
      case Nil
      from pick_int_fresh [OF h lt r _ _ _ nxt] Pick_int.prems(3-) Nil obtain c1 new1 where
        c1: "pick_int h lo hi c = Some (lo, c1)" "explored c new1 c1"
          "represents (delta (ck_current c1)) []" "represents (ck_history c1) (hs @ [(r, 0)])" "room (ck_history c1) n' acc'"
          "list_all2 (\<lambda>b v. snapshot b = ?s \<and> represents (delta b) (hs @ [(r, v)])) new1 [1..<r]" by blast
      note e1 = exploredD [OF c1(2)]
      have r0: "0 < r" using radix_unat(2) [OF lt] r by simp
      from Pick_int.IH [OF _ wf [OF r0] path_ok_Nil c1(3,4,5)] e1(1) obtain m c' new nds where
        c': "run_program h (k lo) c1 = Some (m, c')" "explored c1 new c'"
          "list_all2 (queued ?s (k (lo + of_nat 0)) (hs @ [(r, 0)])) new nds"
          "run_program_ok (k lo) [] m nds"
        by auto
      let ?nds = "map (\<lambda>v. [(r, v)]) [1..<r] @ map ((#) (r, 0)) nds"
      have "list_all2 (queued ?s ?p hs) new1 (map (\<lambda>v. [(r, v)]) [1..<r])"
        unfolding list_all2_map2 using c1(6)
        by (rule list.rel_mono_strong) (use False r in auto)
      then have "list_all2 (queued ?s ?p hs) (new1 @ new) ?nds"
        using queued_child [where k = k and lo = lo and hi = hi, OF c'(3) False r r0] by (rule list_all2_appendI)
      with explored_trans [OF c1(2) c'(2)] c1(1) c'(1) run_pick_fresh [where k = k, OF c'(4) lt r] show ?thesis
        unfolding Nil
        by (intro exI [of _ m] exI [of _ c'] exI [of _ "new1 @ new"] exI [of _ ?nds]) simp
    qed
  qed
qed

subsection \<open>The search\<close>

abbreviation program_of :: "('s, 'm) state_machine \<Rightarrow> 's \<Rightarrow> 'm step_program" where
  "program_of M s \<equiv> sm_step M (enter_state M s)"

abbreviation after :: "('s, 'm) state_machine \<Rightarrow> 'm \<Rightarrow> 's" where
  "after M m \<equiv> normalize M (leave_state M m)"

text \<open>The states of the machine, and whether one of them, or a step from one of them, breaks an invariant.\<close>

inductive_set reach :: "('s, 'm) state_machine \<Rightarrow> 's set" for M where
  init: "normalize M (initialize M) \<in> reach M"
| step: "s \<in> reach M \<Longrightarrow> m \<in> outcomes (program_of M s) \<Longrightarrow> after M m \<in> reach M"

definition violated :: "('s, 'm) state_machine \<Rightarrow> bool" where
  "violated M \<longleftrightarrow> (\<exists>s \<in> reach M. \<not> check_invariants M (enter_state M s) \<or>
     (\<exists>m \<in> outcomes (program_of M s). \<not> check_invariants M m))"

text \<open>The queued branches with the digits of their deltas: those that stand for a result \<open>m\<close> of state \<open>s\<close>.\<close>

definition covered :: "('s, 'm) state_machine \<Rightarrow> ('s Branch \<times> (nat \<times> nat) list) list \<Rightarrow> 's \<Rightarrow> 'm \<Rightarrow> bool" where
  "covered M G s m \<longleftrightarrow> (\<exists>(b, ds) \<in> set G. snapshot b = s \<and> m \<in> outcomes (follow (program_of M s) ds))"

definition work :: "('s, 'm) state_machine \<Rightarrow> ('s Branch \<times> (nat \<times> nat) list) list \<Rightarrow> nat" where
  "work M G = (\<Sum>(b, ds) \<leftarrow> G. leaves (follow (program_of M (snapshot b)) ds))"

definition mesh_idle :: "'s Checker \<Rightarrow> bool" where
  "mesh_idle c \<longleftrightarrow> mesh_send_queue c = [] \<and> mesh_recv_queue c = [] \<and> \<not> mesh_recv_closed c \<and>
     total_pending_count c = 1 \<and> local_consume_count c = 1"

definition queue_ok :: "('s, 'm) state_machine \<Rightarrow> ('s \<rightharpoonup> 's Branch) \<Rightarrow> ('s Branch \<times> (nat \<times> nat) list) list \<Rightarrow> bool" where
  "queue_ok M V G \<longleftrightarrow> (\<forall>(b, ds) \<in> set G. snapshot b \<in> dom V \<and> represents (delta b) ds \<and>
     path_ok (program_of M (snapshot b)) ds)"

definition visited_ok :: "('s, 'm) state_machine \<Rightarrow> ('s \<rightharpoonup> 's Branch) \<Rightarrow> ('s Branch \<times> (nat \<times> nat) list) list \<Rightarrow> bool" where
  "visited_ok M V G \<longleftrightarrow> dom V \<subseteq> reach M \<and> normalize M (initialize M) \<in> dom V \<and>
     (\<forall>s \<in> dom V. (check_invariants M (enter_state M s) \<or> s \<in> snapshot ` fst ` set G) \<and>
        (\<forall>m \<in> outcomes (program_of M s). check_invariants M m \<and> after M m \<in> dom V \<or> covered M G s m))"

definition checker_inv :: "('s, 'm) state_machine \<Rightarrow> 's Checker \<Rightarrow> ('s Branch \<times> (nat \<times> nat) list) list \<Rightarrow> bool" where
  "checker_inv M c G \<longleftrightarrow> map fst G = ck_queue c \<and> queue_ok M (ck_visited c) G \<and> visited_ok M (ck_visited c) G \<and>
     ck_ok c \<and> state_count c = card (dom (ck_visited c)) \<and> kQueueSize (ck_history c) = kRadixQueueSize div 64 \<and> mesh_idle c"

lemma visited_all:
  assumes "visited_ok M V []"
  shows "dom V = reach M" and "\<not> violated M"
proof -
  have V: "dom V \<subseteq> reach M" "normalize M (initialize M) \<in> dom V" "\<forall>s \<in> dom V. check_invariants M (enter_state M s)"
    "\<forall>s \<in> dom V. \<forall>m \<in> outcomes (program_of M s). check_invariants M m \<and> after M m \<in> dom V"
    using assms by (auto simp: visited_ok_def covered_def)
  have "s \<in> dom V" if "s \<in> reach M" for s
    using that by induction (use V(2,4) in blast)+
  with V(1) show eq: "dom V = reach M" by blast
  show "\<not> violated M" using V(3,4) unfolding violated_def eq by blast
qed

lemma pop_next_end:
  assumes "checker_inv M c []"
  shows "\<exists>c'. pop_next h c = Some (False, c') \<and> ck_ok c' \<and> ck_visited c' = ck_visited c \<and>
    state_count c' = state_count c \<and> mesh_send_queue c' = []"
proof -
  have "ck_queue c = []" "ck_ok c" "mesh_idle c" using assms by (auto simp: checker_inv_def)
  then show ?thesis
    by (subst pop_next.simps) (simp add: mesh_idle_def mesh_recv_def flush_all_def close_all_def)
qed

definition popped :: "'s Checker \<Rightarrow> 's Checker" where
  "popped c = c\<lparr>ck_current := hd (ck_queue c), ck_history := rq_clear (ck_history c), ck_queue := tl (ck_queue c),
     branch_pop_count := branch_pop_count c + 1\<rparr>"

lemma pop_next_popped:
  assumes "ck_queue c \<noteq> []" and "\<forall>b. find_shard h 1 b = 0"
  shows "pop_next h c = Some (True, popped c)"
  using assms by (cases "ck_queue c") (simp_all add: pop_next.simps [of h c] popped_def)

lemma outcomes_follow: "path_ok p ds \<Longrightarrow> wf_program p n acc \<Longrightarrow> outcomes (follow p ds) \<subseteq> outcomes p"
proof (induction p arbitrary: ds n acc)
  case (Pick_int lo hi k)
  show ?case
  proof (cases "lo = hi")
    case True
    with Pick_int show ?thesis by auto
  next
    case False
    with Pick_int.prems have lt: "lo < hi" "\<not> (lo = 0 \<and> hi = - 1)" by auto
    show ?thesis
    proof (cases ds)
      case (Cons d ds')
      obtain r v where d: "d = (r, v)" by fastforce
      with Cons False Pick_int.prems have p: "v < unat (hi - lo + 1)" "path_ok (k (lo + of_nat v)) ds'" by auto
      have v: "lo + of_nat v \<in> {lo..hi}" using choices_bij [OF lt] p(1) by (auto simp: bij_betw_def)
      from wf_child [OF Pick_int.prems(2) False] p(1) obtain n' acc' where "wf_program (k (lo + of_nat v)) n' acc'" by blast
      from Pick_int.IH [OF _ p(2) this] have "outcomes (follow (k (lo + of_nat v)) ds') \<subseteq> outcomes (k (lo + of_nat v))"
        by simp
      also have "\<dots> \<subseteq> outcomes (Pick_int lo hi k)"
        unfolding outcomes.simps by (rule UN_upper [OF v])
      finally show ?thesis using False by (simp add: Cons d)
    qed (simp add: False)
  qed
qed simp

lemma set_zip_queued:
  assumes "list_all2 (queued s p []) new nds"
  shows "(\<forall>(b, d) \<in> set (zip new nds). snapshot b = s \<and> represents (delta b) d \<and> path_ok p d)"
    and "d \<in> set nds \<Longrightarrow> \<exists>b. (b, d) \<in> set (zip new nds)"
    and "map fst (zip new nds) = new" and "map snd (zip new nds) = nds"
proof -
  note len = list_all2_lengthD [OF assms]
  show "\<forall>(b, d) \<in> set (zip new nds). snapshot b = s \<and> represents (delta b) d \<and> path_ok p d"
    using assms by (auto simp: list_all2_iff)
  show "map fst (zip new nds) = new" "map snd (zip new nds) = nds" using len by simp_all
  show "\<exists>b. (b, d) \<in> set (zip new nds)" if "d \<in> set nds"
    using that len by (metis in_set_impl_in_set_zip2)
qed

text \<open>One branch has been run with result \<open>m\<close>, which left new branches of the same state and, for a new
  state, a branch \<open>E\<close> for its results.\<close>

lemma visited_ok_step:
  assumes V: "visited_ok M V ((b, ds) # G)" and check: "check_invariants M (enter_state M (snapshot b))" "check_invariants M m"
    and new: "list_all2 (queued (snapshot b) (program_of M (snapshot b)) []) new nds"
    and out: "outcomes (follow (program_of M (snapshot b)) ds) =
      insert m (\<Union>d \<in> set nds. outcomes (follow (program_of M (snapshot b)) d))"
    and V': "dom V' = insert (after M m) (dom V)" "after M m \<in> reach M"
    and E: "after M m \<notin> dom V \<Longrightarrow> E = [(\<lparr>snapshot = after M m, delta = q\<rparr>, [])]"
  shows "visited_ok M V' (G @ zip new nds @ E)"
proof -
  note z = set_zip_queued [OF new]
  let ?s = "snapshot b" and ?G = "G @ zip new nds @ E"
  have cov: "(m' = m \<and> s = ?s) \<or> covered M ?G s m'" if "covered M ((b, ds) # G) s m'" for s m'
  proof (cases "covered M G s m'")
    case False
    with that have "s = ?s" "m' \<in> outcomes (follow (program_of M ?s) ds)" by (auto simp: covered_def)
    then consider "m' = m" | d where "d \<in> set nds" "m' \<in> outcomes (follow (program_of M ?s) d)" using out by auto
    then show ?thesis
    proof cases
      case 2
      from z(2) [OF this(1)] obtain b' where "(b', d) \<in> set (zip new nds)" by blast
      with z(1) 2 \<open>s = ?s\<close> have "covered M (zip new nds) s m'" by (fastforce simp: covered_def)
      then show ?thesis by (auto simp: covered_def)
    qed (use \<open>s = ?s\<close> in simp)
  qed (auto simp: covered_def)
  have old: "(check_invariants M (enter_state M s) \<or> s \<in> snapshot ` fst ` set ?G) \<and>
      (\<forall>m' \<in> outcomes (program_of M s). check_invariants M m' \<and> after M m' \<in> dom V' \<or> covered M ?G s m')"
    if s: "s \<in> dom V" for s
  proof
    have "check_invariants M (enter_state M s) \<or> s \<in> snapshot ` fst ` set ((b, ds) # G)"
      using V s unfolding visited_ok_def by blast
    then show "check_invariants M (enter_state M s) \<or> s \<in> snapshot ` fst ` set ?G" using check(1) by auto
    have "check_invariants M m' \<and> after M m' \<in> dom V \<or> covered M ((b, ds) # G) s m'" if "m' \<in> outcomes (program_of M s)" for m'
      using V s that unfolding visited_ok_def by blast
    then show "\<forall>m' \<in> outcomes (program_of M s). check_invariants M m' \<and> after M m' \<in> dom V' \<or> covered M ?G s m'"
      using cov check(2) V'(1) by blast
  qed
  have fresh: "after M m \<in> snapshot ` fst ` set ?G \<and> (\<forall>m' \<in> outcomes (program_of M (after M m)). covered M ?G (after M m) m')"
    if "after M m \<notin> dom V"
    using E [OF that] by (auto simp: covered_def outcomes_follow_Nil)
  have dom: "dom V' \<subseteq> reach M" "normalize M (initialize M) \<in> dom V'"
    using V V' unfolding visited_ok_def by simp_all
  have "(check_invariants M (enter_state M s) \<or> s \<in> snapshot ` fst ` set ?G) \<and>
      (\<forall>m' \<in> outcomes (program_of M s). check_invariants M m' \<and> after M m' \<in> dom V' \<or> covered M ?G s m')"
    if "s \<in> dom V'" for s
  proof (cases "s \<in> dom V")
    case False
    with that V'(1) have "s = after M m" by simp
    with fresh False show ?thesis by simp
  qed (rule old)
  with dom show ?thesis unfolding visited_ok_def by simp
qed

lemma work_step:
  assumes new: "list_all2 (queued (snapshot b) (program_of M (snapshot b)) []) new nds"
    and out: "leaves (follow (program_of M (snapshot b)) ds) =
      Suc (\<Sum>d \<leftarrow> nds. leaves (follow (program_of M (snapshot b)) d))"
  shows "work M (G @ zip new nds) < work M ((b, ds) # G)"
proof -
  note z = set_zip_queued [OF new]
  have "(\<Sum>(b, ds) \<leftarrow> zip new nds. leaves (follow (program_of M (snapshot b)) ds)) =
      (\<Sum>x \<leftarrow> zip new nds. leaves (follow (program_of M (snapshot b)) (snd x)))"
    using z(1) by (intro arg_cong [of _ _ sum_list] map_cong) auto
  also have "\<dots> = (\<Sum>d \<leftarrow> nds. leaves (follow (program_of M (snapshot b)) d))"
    using z(4) by (metis (no_types, lifting) comp_def map_map map_cong)
  finally show ?thesis using out by (simp add: work_def)
qed

lemma poppedD:
  assumes "checker_inv M c ((b, ds) # G)"
  shows "ck_current (popped c) = b" "ck_queue (popped c) = map fst G" "ck_visited (popped c) = ck_visited c"
    "ck_ok (popped c)" "state_count (popped c) = card (dom (ck_visited c))"
    "kQueueSize (ck_history (popped c)) = kRadixQueueSize div 64" "represents (ck_history (popped c)) []"
    "mesh_idle (popped c)" "represents (delta b) ds" "path_ok (program_of M (snapshot b)) ds"
    "snapshot b \<in> dom (ck_visited c)" "snapshot b \<in> reach M"
proof -
  have q: "ck_queue c = b # map fst G" using assms by (auto simp: checker_inv_def)
  show "ck_current (popped c) = b" "ck_queue (popped c) = map fst G" "ck_visited (popped c) = ck_visited c"
    using q by (simp_all add: popped_def)
  show "ck_ok (popped c)" "state_count (popped c) = card (dom (ck_visited c))" "mesh_idle (popped c)"
    "kQueueSize (ck_history (popped c)) = kRadixQueueSize div 64" "represents (ck_history (popped c)) []"
    using assms by (simp_all add: checker_inv_def popped_def mesh_idle_def represents_clear kRadixQueueSize_def)
  have "queue_ok M (ck_visited c) ((b, ds) # G)" "visited_ok M (ck_visited c) ((b, ds) # G)"
    using assms by (simp_all add: checker_inv_def)
  then show "represents (delta b) ds" "path_ok (program_of M (snapshot b)) ds"
    "snapshot b \<in> dom (ck_visited c)" "snapshot b \<in> reach M"
    by (auto simp: queue_ok_def visited_ok_def)
qed

text \<open>Running the popped branch: either an invariant is broken, or the invariant of the search holds again and the
  search has come closer to its end.\<close>

definition progress :: "('s, 'm) state_machine \<Rightarrow> 's Checker \<Rightarrow> ('s Branch \<times> (nat \<times> nat) list) list \<Rightarrow> nat \<times> nat" where
  "progress M c G = (card (reach M - dom (ck_visited c)), work M G)"

text \<open>What is known after the program of the popped branch \<open>b\<close> has run with result \<open>m\<close>.\<close>

definition ran :: "('s, 'm) state_machine \<Rightarrow> 's Checker \<Rightarrow> 's Branch \<Rightarrow> (nat \<times> nat) list \<Rightarrow> 'm \<Rightarrow> 's Checker \<Rightarrow>
    's Branch list \<Rightarrow> (nat \<times> nat) list list \<Rightarrow> bool" where
  "ran M c b ds m c2 new nds \<longleftrightarrow> (let P = program_of M (snapshot b) in
     run_program_ok P ds m nds \<and> m \<in> outcomes P \<and> explored (popped c) new c2 \<and> mesh_idle c2 \<and>
     list_all2 (queued (snapshot b) P []) new nds)"

lemma ran_known:
  assumes inv: "checker_inv M c ((b, ds) # G)" and ran: "ran M c b ds m c2 new nds"
    and check: "check_invariants M (enter_state M (snapshot b))" "check_invariants M m"
    and old: "after M m \<in> dom (ck_visited c)"
  shows "checker_inv M c2 (G @ zip new nds)"
    and "(progress M c2 (G @ zip new nds), progress M c ((b, ds) # G)) \<in> less_than <*lex*> less_than"
proof -
  note p = poppedD [OF inv] and r = ran [unfolded ran_def Let_def run_program_ok_def]
  have new: "list_all2 (queued (snapshot b) (program_of M (snapshot b)) []) new nds" using r by simp
  have "explored (popped c) new c2" using r by simp
  note e = exploredD [OF this, unfolded p(1-6)] and z = set_zip_queued [OF new]
  have V: "visited_ok M (ck_visited c) ((b, ds) # G)" "queue_ok M (ck_visited c) ((b, ds) # G)"
    using inv by (simp_all add: checker_inv_def)
  have "visited_ok M (ck_visited c) (G @ zip new nds @ [])"
    by (rule visited_ok_step [OF V(1) check new]) (use r old reach.step [OF p(12)] in auto)
  moreover have "queue_ok M (ck_visited c) (G @ zip new nds)" using V(2) z(1) p(11) by (fastforce simp: queue_ok_def)
  ultimately show "checker_inv M c2 (G @ zip new nds)" using z(3) e r p(4) by (simp add: checker_inv_def)
  have "work M (G @ zip new nds) < work M ((b, ds) # G)" by (rule work_step [OF new]) (use r in simp)
  with e(4) show "(progress M c2 (G @ zip new nds), progress M c ((b, ds) # G)) \<in> less_than <*lex*> less_than"
    by (simp add: progress_def)
qed

abbreviation found :: "('s, 'm) state_machine \<Rightarrow> 'm \<Rightarrow> 's Checker \<Rightarrow> 's Checker" where
  "found M m c \<equiv>
     c\<lparr>ck_visited := (ck_visited c)(after M m \<mapsto> \<lparr>snapshot = snapshot (ck_current c), delta = ck_history c\<rparr>),
       state_count := state_count c + 1, branch_push_count := branch_push_count c + 1,
       ck_queue := ck_queue c @ [\<lparr>snapshot = after M m, delta = RadixQueue_init kRadixQueueSize\<rparr>]\<rparr>"

lemma ran_new:
  assumes inv: "checker_inv M c ((b, ds) # G)" and ran: "ran M c b ds m c2 new nds"
    and check: "check_invariants M (enter_state M (snapshot b))" "check_invariants M m"
    and fin: "finite (reach M)" and fresh: "after M m \<notin> dom (ck_visited c)"
  shows "\<exists>G'. checker_inv M (found M m c2) G' \<and>
    (progress M (found M m c2) G', progress M c ((b, ds) # G)) \<in> less_than <*lex*> less_than"
proof -
  let ?b = "\<lparr>snapshot = after M m, delta = RadixQueue_init kRadixQueueSize\<rparr>" and ?c3 = "found M m c2"
  let ?G = "G @ zip new nds @ [(?b, [])]"
  note p = poppedD [OF inv] and r = ran [unfolded ran_def Let_def run_program_ok_def]
  have new: "list_all2 (queued (snapshot b) (program_of M (snapshot b)) []) new nds" using r by simp
  have "explored (popped c) new c2" using r by simp
  note e = exploredD [OF this, unfolded p(1-6)] and z = set_zip_queued [OF new]
  have V: "visited_ok M (ck_visited c) ((b, ds) # G)" "queue_ok M (ck_visited c) ((b, ds) # G)"
    using inv by (simp_all add: checker_inv_def)
  have reach: "after M m \<in> reach M" using r reach.step [OF p(12)] by blast
  have "visited_ok M (ck_visited ?c3) ?G"
    by (rule visited_ok_step [OF V(1) check new]) (use r e(4) reach in auto)
  moreover have "queue_ok M (ck_visited ?c3) ?G"
    using V(2) z(1) p(11) e(4) represents_init [of kRadixQueueSize] by (fastforce simp: queue_ok_def kRadixQueueSize_def)
  moreover have "finite (dom (ck_visited c))" using V(1) fin finite_subset by (auto simp: visited_ok_def)
  ultimately have "checker_inv M ?c3 ?G"
    using z(3) e r p(4) fresh by (simp add: checker_inv_def mesh_idle_def)
  moreover have "card (reach M - dom (ck_visited ?c3)) < card (reach M - dom (ck_visited c))"
    using reach fresh fin e(4) by (intro psubset_card_mono) auto
  ultimately show ?thesis by (force simp: progress_def)
qed

lemma check_branch_known:
  assumes "check_invariants M (enter_state M (snapshot (ck_current c)))"
    and "run_program h (program_of M (snapshot (ck_current c))) c = Some (m, c2)" and "check_invariants M m"
    and "after M m \<in> dom (ck_visited c2)"
  shows "check_branch M h c = Some (True, if after M m = snapshot (ck_current c2)
    then c2\<lparr>self_branch_count := self_branch_count c2 + 1\<rparr> else c2)"
  using assms by (auto simp: check_branch_def visit_def)

lemma check_branch_bad:
  assumes "run_program h (program_of M (snapshot (ck_current c))) c = Some (m, c2)"
    and "\<not> check_invariants M (enter_state M (snapshot (ck_current c))) \<or> \<not> check_invariants M m"
  shows "check_branch M h c = Some (False,
    (if check_invariants M (enter_state M (snapshot (ck_current c))) then c2 else c)\<lparr>ck_ok := False\<rparr>)"
  using assms by (auto simp: check_branch_def)

lemma check_branch_new:
  assumes "check_invariants M (enter_state M (snapshot (ck_current c)))"
    and "run_program h (program_of M (snapshot (ck_current c))) c = Some (m, c2)" and "check_invariants M m"
    and "after M m \<notin> dom (ck_visited c2)" and "after M m \<noteq> snapshot (ck_current c2)" and "\<forall>b. find_shard h 1 b = 0"
  shows "check_branch M h c = Some (True, found M m c2)"
proof -
  have "ck_visited c2 (after M m) = None" using assms(4) by auto
  with assms show ?thesis by (simp add: check_branch_def visit_def explore_def Let_def)
qed

lemma run_popped:
  assumes inv: "checker_inv M c ((b, ds) # G)" and h: "\<forall>b. find_shard h 1 b = 0"
    and wf: "checkable (program_of M (snapshot b))"
  obtains m c2 new nds where "run_program h (program_of M (snapshot b)) (popped c) = Some (m, c2)" "ran M c b ds m c2 new nds"
proof -
  note p = poppedD [OF inv]
  let ?P = "program_of M (snapshot b)"
  have four: "kQueueSize (ck_history c) = kRadixQueueSize div 64" using inv by (simp add: checker_inv_def)
  then have "0 < kQueueSize (ck_history c)" by (simp add: kRadixQueueSize_def)
  from room_clear [OF this] have "room (ck_history (popped c)) (kRadixQueueSize div 64 - 1) 1"
    unfolding four by (simp add: popped_def)
  with run_program_covers [OF h wf p(10), of "popped c" "[]"] p(1,7,9) obtain m c2 new nds where
    run: "run_program h ?P (popped c) = Some (m, c2)" "explored (popped c) new c2"
      "list_all2 (queued (snapshot b) ?P []) new nds" and out: "run_program_ok ?P ds m nds"
    by auto
  have "m \<in> outcomes ?P" using outcomes_follow [OF p(10) wf] out by (auto simp: run_program_ok_def)
  moreover have "mesh_idle c2" using exploredD [OF run(2)] p(8) by (simp add: mesh_idle_def)
  ultimately show thesis using that run out by (simp add: ran_def Let_def)
qed

lemma check_branch_step:
  assumes inv: "checker_inv M c ((b, ds) # G)" and h: "\<forall>b. find_shard h 1 b = 0"
    and wf: "\<forall>s \<in> reach M. checkable (program_of M s)" and fin: "finite (reach M)"
  shows "(\<exists>c'. check_branch M h (popped c) = Some (False, c') \<and> \<not> ck_ok c' \<and> violated M \<and> mesh_send_queue c' = []) \<or>
    (\<exists>c' G'. check_branch M h (popped c) = Some (True, c') \<and> checker_inv M c' G' \<and>
       (progress M c' G', progress M c ((b, ds) # G)) \<in> less_than <*lex*> less_than)"
proof -
  note p = poppedD [OF inv]
  from wf p(12) have "checkable (program_of M (snapshot b))" by blast
  from run_popped [OF inv h this] obtain m c2 new nds where
    run: "run_program h (program_of M (snapshot b)) (popped c) = Some (m, c2)" and ran: "ran M c b ds m c2 new nds" .
  from ran have m: "m \<in> outcomes (program_of M (snapshot b))" "explored (popped c) new c2" "mesh_idle c2"
    by (simp_all add: ran_def Let_def)
  note e = exploredD [OF m(2), unfolded p(1-6)]
  consider "\<not> check_invariants M (enter_state M (snapshot b)) \<or> \<not> check_invariants M m"
    | (ok) "check_invariants M (enter_state M (snapshot b))" "check_invariants M m" by blast
  then show ?thesis
  proof cases
    case 1
    then have "violated M" using p(12) m(1) by (auto simp: violated_def)
    with 1 check_branch_bad [of h M "popped c" m c2] run p(1,8) m(3) show ?thesis by (auto simp: mesh_idle_def)
  next
    case ok
    show ?thesis
    proof (cases "after M m \<in> dom (ck_visited c)")
      case True
      note known = ran_known [OF inv ran ok True]
      have "checker_inv M (c2\<lparr>self_branch_count := self_branch_count c2 + 1\<rparr>) (G @ zip new nds)"
        using known(1) by (simp add: checker_inv_def mesh_idle_def)
      with known check_branch_known [of M "popped c" h m c2] ok run p(1) e(4) True show ?thesis
        by (auto simp: progress_def)
    next
      case False
      then have "after M m \<noteq> snapshot b" using p(11) by auto
      with check_branch_new [of M "popped c" h m c2] ok run p(1) e(1,4) False h
      have "check_branch M h (popped c) = Some (True, found M m c2)" by simp
      with ran_new [OF inv ran ok fin False] show ?thesis by blast
    qed
  qed
qed

lemma run_loop_total:
  assumes "checker_inv M c G" and h: "\<forall>b. find_shard h 1 b = 0"
    and wf: "\<forall>s \<in> reach M. checkable (program_of M s)" and fin: "finite (reach M)"
  shows "\<exists>c'. run_loop M h c = Some c' \<and> mesh_send_queue c' = [] \<and> (ck_ok c' \<longleftrightarrow> \<not> violated M) \<and>
    (ck_ok c' \<longrightarrow> dom (ck_visited c') = reach M \<and> state_count c' = card (reach M))"
proof -
  have "wf (less_than <*lex*> less_than)" by (intro wf_lex_prod wf_less_than)
  then show ?thesis using assms(1)
  proof (induction "progress M c G" arbitrary: c G rule: wf_induct_rule)
    case less
    show ?case
    proof (cases G)
      case Nil
      with less.prems have inv: "checker_inv M c []" by simp
      then have "visited_ok M (ck_visited c) []" "state_count c = card (dom (ck_visited c))" by (simp_all add: checker_inv_def)
      with visited_all [OF this(1)] pop_next_end [OF inv, of h] show ?thesis
        by (subst run_loop.simps) auto
    next
      case (Cons g G')
      then obtain b ds where g: "G = (b, ds) # G'" by (cases g) auto
      with less.prems have inv: "checker_inv M c ((b, ds) # G')" by simp
      then have "ck_queue c \<noteq> []" by (auto simp: checker_inv_def)
      then have loop: "run_loop M h c =
          Option.bind (check_branch M h (popped c)) (\<lambda>(go, c). if \<not> go then Some c else run_loop M h c)"
        by (subst run_loop.simps) (simp add: pop_next_popped [OF _ h])
      from check_branch_step [OF inv h wf fin] show ?thesis
      proof (elim disjE exE conjE)
        fix c' assume "check_branch M h (popped c) = Some (False, c')" "\<not> ck_ok c'" "violated M" "mesh_send_queue c' = []"
        then show ?thesis by (simp add: loop)
      next
        fix c' G2
        assume step: "check_branch M h (popped c) = Some (True, c')" and "checker_inv M c' G2"
          and "(progress M c' G2, progress M c ((b, ds) # G')) \<in> less_than <*lex*> less_than"
        with less.hyps [of c' G2] g have "\<exists>c''. run_loop M h c' = Some c'' \<and> mesh_send_queue c'' = [] \<and>
            (ck_ok c'' \<longleftrightarrow> \<not> violated M) \<and>
            (ck_ok c'' \<longrightarrow> dom (ck_visited c'') = reach M \<and> state_count c'' = card (reach M))" by blast
        with step show ?thesis by (simp add: loop)
      qed
    qed
  qed
qed

text \<open>The first branch goes through the exchange between shards.\<close>

definition started :: "('s, 'm) state_machine \<Rightarrow> 's Checker" where
  "started M =
     (let s = normalize M (initialize M); b = \<lparr>snapshot = s, delta = RadixQueue_init kRadixQueueSize\<rparr> in
      (Checker_init s)\<lparr>ck_queue := [b], ck_visited := [s \<mapsto> b], ck_ok := True, branch_push_count := 1, state_count := 1,
        total_pending_count := 1, local_consume_count := 1\<rparr>)"

lemma started_inv:
  "checker_inv M (started M) [(\<lparr>snapshot = normalize M (initialize M), delta = RadixQueue_init kRadixQueueSize\<rparr>, [])]"
proof -
  have "represents (RadixQueue_init kRadixQueueSize) []" using represents_init by (simp add: kRadixQueueSize_def)
  then show ?thesis
    by (auto simp: checker_inv_def started_def Let_def Checker_init_def queue_ok_def visited_ok_def covered_def mesh_idle_def
        outcomes_follow_Nil RadixQueue_init_def kRadixQueueSize_def intro: reach.init)
qed

lemma rq_empty_init: "rq_empty (RadixQueue_init kRadixQueueSize)"
  by (simp add: rq_empty_def RadixQueue_init_def queue_size_def kRadixQueueSize_def empty_segment_def)

lemma rq_clear_init: "rq_clear (RadixQueue_init kRadixQueueSize) = RadixQueue_init kRadixQueueSize"
  by (simp add: rq_clear_def RadixQueue_init_def kRadixQueueSize_def list_update_same_conv)

lemma check_model_started:
  assumes h: "\<forall>b. find_shard h 1 b = 0"
  shows "check_model M h = Option.bind (run_loop M h (started M)) mesh_finished"
proof -
  let ?s = "normalize M (initialize M)"
  let ?b = "\<lparr>snapshot = ?s, delta = RadixQueue_init kRadixQueueSize\<rparr>"
  let ?c = "(Checker_init ?s)\<lparr>mesh_recv_queue := [[?b]], total_pending_count := 1, ck_ok := True, state_count := 1\<rparr>"
  have "check_model M h = Option.bind (run_loop M h ?c) mesh_finished"
    using h by (simp add: check_model_def checker_run_def explore_def mesh_send_def Let_def flush_all_def queue_push_def
        Checker_init_def rq_clear_init)
  moreover have "pop_next h ?c = pop_next h (started M)"
    by (subst pop_next.simps)
      (simp add: Checker_init_def mesh_recv_def transfer_batch_def visit_def rq_empty_init started_def Let_def)
  then have "run_loop M h ?c = run_loop M h (started M)" by (simp add: run_loop.simps)
  ultimately show ?thesis by simp
qed

subsection \<open>Properties\<close>

lemma find_shard_unat:
  assumes "0 < n" and "n < 2 ^ 64"
  shows "find_shard h n b = unat (h b) div ((2 ^ 64 - 1) div n)"
  using assms by (simp add: find_shard_def unat_div unsigned_minus_1_eq_mask mask_eq_exp_minus_1 unat_of_nat)

lemma find_shard_single: "h b \<noteq> - 1 \<Longrightarrow> find_shard h 1 b = 0"
proof -
  assume "h b \<noteq> - 1"
  then have "unat (h b) \<noteq> 2 ^ 64 - 1" by (simp add: word_unat_eq_iff unsigned_minus_1_eq_mask mask_eq_exp_minus_1)
  with unat_u64_less [of "h b"] have "unat (h b) < 2 ^ 64 - 1" by simp
  then show ?thesis using find_shard_unat [of 1 h b] by simp
qed

text \<open>
  C13 (termination). The checker is exhaustive: for a machine with finitely many reachable states, whose steps make
  choices from non-empty ranges of fewer than \<open>2 ^ 64\<close> values that fit the 256 bits of a branch (the radixes of the choices on a path,
  in order, fill four words each with a product below \<open>2 ^ 64\<close>; up to 252 binary choices do), \<^verbatim>\<open>check_model\<close> on one shard returns without a failed check,
  and reports success exactly when no reachable state and no step from one breaks an invariant. On
  success the visited states are the reachable ones and \<^verbatim>\<open>state_count\<close> is their number. The hash of a branch must not
  be the largest 64-bit number.
\<close>

theorem check_model_exhaustive:
  assumes "finite (reach M)" and "\<forall>s \<in> reach M. checkable (program_of M s)"
    and "\<forall>b. hash_value b \<noteq> - 1"
  shows "\<exists>c. check_model M hash_value = Some c \<and> (ck_ok c \<longleftrightarrow> \<not> violated M) \<and>
    (ck_ok c \<longrightarrow> dom (ck_visited c) = reach M \<and> state_count c = card (reach M))"
proof -
  have h: "\<forall>b. find_shard hash_value 1 b = 0" using assms(3) find_shard_single by blast
  from run_loop_total [OF started_inv h assms(2,1)] obtain c where
    c: "run_loop M hash_value (started M) = Some c" "mesh_send_queue c = []" "ck_ok c \<longleftrightarrow> \<not> violated M"
      "ck_ok c \<longrightarrow> dom (ck_visited c) = reach M \<and> state_count c = card (reach M)" by blast
  then show ?thesis by (simp add: check_model_started [OF h] mesh_finished_def flush_all_def)
qed

definition ring_counter :: "(nat, nat) state_machine" where
  "ring_counter = \<lparr>initialize = 0, enter_state = (\<lambda>s. s),
     sm_step = (\<lambda>m. pick_branch (\<lambda>stay. Return (if stay then m else (m + 1) mod 3))),
     leave_state = (\<lambda>m. m), check_invariants = (\<lambda>m. m < 3), normalize = (\<lambda>s. s)\<rparr>"

lemma ring_counter_reach: "s \<in> reach ring_counter \<Longrightarrow> s < 3"
  by (induction rule: reach.induct) (auto simp: ring_counter_def pick_branch_def split: if_splits)

theorem check_model_exhaustive_witness:
  "finite (reach ring_counter) \<and>
   (\<exists>c. check_model ring_counter (\<lambda>_. 0) = Some c \<and> ck_ok c \<and> state_count c = card (reach ring_counter))"
proof -
  have fin: "finite (reach ring_counter)"
    by (rule finite_subset [of _ "{..<3}"]) (use ring_counter_reach in auto)
  have wf: "\<forall>s \<in> reach ring_counter. checkable (program_of ring_counter s)"
    by (simp add: ring_counter_def pick_branch_def kRadixQueueSize_def next_room_def)
  have "\<not> violated ring_counter"
    using ring_counter_reach by (auto simp: violated_def ring_counter_def pick_branch_def split: if_splits)
  with check_model_exhaustive [OF fin wf, of "\<lambda>_. 0"] fin show ?thesis by auto
qed

text \<open>
  \<^verbatim>\<open>find_shard\<close> gives the index of a shard exactly for the hashes below the largest multiple of
  \<^verbatim>\<open>SIZE_MAX / shard_count\<close> by the number of shards. The hashes from there on, with one shard
  only \<^verbatim>\<open>SIZE_MAX\<close> itself, are sent to the shard after the last one, and the queues of the checker are indexed
  out of range: a model whose first branch has that hash is not checked.
\<close>

theorem find_shard_range:
  assumes "0 < n" and "n < 2 ^ 64"
  shows "(find_shard h n b < n \<longleftrightarrow> unat (h b) < n * ((2 ^ 64 - 1) div n)) \<and> find_shard h n b < 2 * n \<and>
    check_model M (\<lambda>_. - 1) = None"
proof (intro conjI)
  let ?k = "(2 ^ 64 - 1 :: nat) div n"
  have k: "0 < ?k" using assms by (simp add: div_greater_zero_iff)
  note f = find_shard_unat [OF assms, of h b]
  show "find_shard h n b < n \<longleftrightarrow> unat (h b) < n * ?k" unfolding f by (rule div_less_iff_less_mult [OF k])
  have "n * ?k + (2 ^ 64 - 1) mod n = 2 ^ 64 - 1" by (rule mult_div_mod_eq)
  moreover have "(2 ^ 64 - 1 :: nat) mod n < n" using assms(1) by (rule mod_less_divisor)
  moreover have "n \<le> n * ?k" using k by (cases ?k) simp_all
  moreover have "unat (h b) \<le> 2 ^ 64 - 1" using unat_u64_less [of "h b"] by simp
  ultimately have "unat (h b) < n * ?k + n * ?k" by linarith
  then have "unat (h b) < 2 * n * ?k" by (simp add: algebra_simps)
  then show "find_shard h n b < 2 * n" unfolding f using div_less_iff_less_mult [OF k] by blast
  have "find_shard (\<lambda>_. - 1) 1 b = 1" for b :: "'b Branch"
    using find_shard_unat [of 1 "\<lambda>_. - 1" b] by (simp add: unsigned_minus_1_eq_mask mask_eq_exp_minus_1)
  then show "check_model M (\<lambda>_. - 1) = None" by (simp add: check_model_def checker_run_def explore_def Let_def)
qed

theorem find_shard_range_witness:
  "\<not> find_shard (\<lambda>_. - 1) 1 \<lparr>snapshot = (0::nat), delta = RadixQueue_init 64\<rparr> < 1"
  using find_shard_range [of 1 "\<lambda>_. - 1" "\<lparr>snapshot = (0::nat), delta = RadixQueue_init 64\<rparr>" ring_counter]
  by (simp add: unsigned_minus_1_eq_mask mask_eq_exp_minus_1)

end
