(* ===== verification/Work_Slice.thy ===== *)
theory Work_Slice
  imports Batt_Prelude
begin

section \<open>Work slicing and parallel algorithms\<close>

text \<open>
  Models \<^verbatim>\<open>src/src/batteries/async/slice_work.hpp\<close> and the algorithms of \<^verbatim>\<open>src/src/batteries/algo/\<close> that divide
  an input into slices, one per task of a worker pool. The tasks of such an algorithm run at the same
  time; each of them reads memory that no task writes and writes some cells of shared memory, each with
  one store. What a task does is therefore the list of its stores, an index and a value each, and an execution
  of all tasks is some order \<open>sched\<close> of all stores: the properties hold for every order, so for every
  number of workers and every interleaving. A failed \<^verbatim>\<open>BATT_CHECK\<close> is \<open>None\<close>. \<^verbatim>\<open>usize\<close> values are natural
  numbers, with the wrap-around written out where it can occur.
\<close>

subsection \<open>Stores of concurrent tasks\<close>

definition store_all :: "(nat \<times> 'a) list \<Rightarrow> 'a list \<Rightarrow> 'a list" where
  "store_all ws dst = fold (\<lambda>(i, v) d. d[i := v]) ws dst"

lemma length_store_all [simp]: "length (store_all ws dst) = length dst"
  unfolding store_all_def by (induction ws arbitrary: dst) auto

lemma nth_store_all:
  assumes "distinct (map fst ws)" and "i < length dst"
  shows "store_all ws dst ! i = (case map_of ws i of None \<Rightarrow> dst ! i | Some v \<Rightarrow> v)"
  using assms
proof (induction ws arbitrary: dst)
  case Nil
  then show ?case by (simp add: store_all_def)
next
  case (Cons w ws)
  obtain j v where w: "w = (j, v)" by fastforce
  have step: "store_all (w # ws) dst = store_all ws (dst[j := v])" by (simp add: store_all_def w)
  have "map_of ws j = None" using Cons.prems(1) by (simp add: w map_of_eq_None_iff)
  then show ?case unfolding step using Cons.IH [of "dst[j := v]"] Cons.prems
    by (cases "i = j"; cases "map_of ws i") (simp_all add: w)
qed

lemma map_of_permute:
  assumes "distinct (map fst ws)" and "mset ws' = mset ws"
  shows "map_of ws' = map_of ws" and "distinct (map fst ws')"
proof -
  have m: "mset (map fst ws') = mset (map fst ws)" using assms(2) by simp
  show d: "distinct (map fst ws')" using assms(1) mset_eq_imp_distinct_iff [OF m] by simp
  have "map_of ws' i = Some v \<longleftrightarrow> map_of ws i = Some v" for i v
    using map_of_eq_Some_iff [OF d] map_of_eq_Some_iff [OF assms(1)] mset_eq_setD [OF assms(2)] by simp
  then show "map_of ws' = map_of ws" by (intro ext) (metis not_None_eq)
qed

text \<open>With one store per cell the order of the stores does not matter.\<close>

lemma store_all_order:
  assumes "distinct (map fst ws)" and "mset ws' = mset ws"
  shows "store_all ws' dst = store_all ws dst"
  using map_of_permute [OF assms] assms(1) by (intro nth_equalityI) (simp_all add: nth_store_all)

lemma store_all_enumerate:
  assumes "n + length xs \<le> length dst"
  shows "store_all (enumerate n xs) dst = take n dst @ xs @ drop (n + length xs) dst"
  using assms
proof (induction xs arbitrary: n dst)
  case (Cons x xs)
  have "store_all (enumerate n (x # xs)) dst = store_all (enumerate (Suc n) xs) (dst[n := x])"
    by (simp add: store_all_def)
  also have "\<dots> = take (Suc n) (dst[n := x]) @ xs @ drop (Suc n + length xs) (dst[n := x])"
    using Cons by simp
  also have "take (Suc n) (dst[n := x]) = take n dst @ [x]"
    using Cons.prems by (simp add: take_Suc_conv_app_nth)
  finally show ?case by simp
qed (simp add: store_all_def)

lemma distinct_enumerate: "distinct (map fst (enumerate n xs))"
  by simp

subsection \<open>The plan\<close>

record WorkSliceParams =
  min_task_size :: nat
  max_tasks :: nat

record WorkSlicePlan =
  input_size :: nat
  task_size :: nat
  n_tasks :: nat

definition get_task_size :: "WorkSliceParams \<Rightarrow> nat \<Rightarrow> nat option" where
  "get_task_size params n =
     (if max_tasks params = 0 \<or> min_task_size params = 0 then None
      else Some (max (min_task_size params) ((n + max_tasks params - 1) mod 2 ^ 64 div max_tasks params)))"

definition get_task_count :: "nat \<Rightarrow> nat \<Rightarrow> nat option" where
  "get_task_count n sz = (if sz = 0 then None else Some ((n + sz - 1) mod 2 ^ 64 div sz))"

definition WorkSlicePlan_init :: "WorkSliceParams \<Rightarrow> nat \<Rightarrow> WorkSlicePlan option" where
  "WorkSlicePlan_init params n =
     do {
       sz \<leftarrow> get_task_size params n;
       cnt \<leftarrow> get_task_count n sz;
       if \<not> sz \<ge> min_task_size params \<or> \<not> cnt \<le> max_tasks params then None
       else Some \<lparr>input_size = n, task_size = sz, n_tasks = cnt\<rparr>
     }"

text \<open>The loop of \<^verbatim>\<open>slice_work\<close>: the index, offset and size of each task, and the number of tasks.\<close>

function slice_loop :: "nat \<Rightarrow> nat \<Rightarrow> nat \<Rightarrow> nat \<Rightarrow> (nat \<times> nat \<times> nat) list \<times> nat" where
  "slice_loop sz task_index task_offset input_remaining =
     (if input_remaining = 0 \<or> sz = 0 then ([], task_index)
      else
        let this_task_size = min input_remaining sz;
            (tasks, cnt) = slice_loop sz (task_index + 1) (task_offset + this_task_size) (input_remaining - this_task_size)
        in ((task_index, task_offset, this_task_size) # tasks, cnt))"
  by auto
termination by (relation "measure (\<lambda>(sz, i, off, n). n)") auto

declare slice_loop.simps [simp del]

definition slice_work :: "WorkSlicePlan \<Rightarrow> (nat \<times> nat \<times> nat) list option" where
  "slice_work plan =
     (if input_size plan = 0 then Some []
      else if n_tasks plan = 0 \<or> task_size plan = 0 then None
      else case slice_loop (task_size plan) 0 0 (input_size plan) of
        (tasks, task_index) \<Rightarrow> if task_index \<noteq> n_tasks plan then None else Some tasks)"

lemma ceil_div_step:
  fixes n sz :: nat
  assumes "0 < n" and "0 < sz"
  shows "(n + sz - 1) div sz = Suc ((n - min n sz + sz - 1) div sz)"
proof (cases "sz \<le> n")
  case True
  then have m: "min n sz = sz" by simp
  have "n + sz - 1 = (n - sz + sz - 1) + sz" using assms True by linarith
  then have "(n + sz - 1) div sz = (n - sz + sz - 1) div sz + 1" using assms(2) by (metis div_add_self2 less_not_refl)
  then show ?thesis unfolding m by simp
next
  case False
  then have "(n + sz - 1) div sz = 1" using assms by (intro div_nat_eqI) auto
  then show ?thesis using False assms by simp
qed

lemma slice_loop_tasks:
  assumes "0 < sz"
  shows "slice_loop sz i off n =
    (map (\<lambda>k. (i + k, off + k * sz, min sz (n - k * sz))) [0..<(n + sz - 1) div sz], i + (n + sz - 1) div sz)"
  using assms
proof (induction sz i off n rule: slice_loop.induct)
  case (1 sz i off n)
  show ?case
  proof (cases "n = 0")
    case True
    with 1 show ?thesis by (simp add: slice_loop.simps)
  next
    case False
    let ?m = "min n sz" and ?c = "(n - min n sz + sz - 1) div sz"
    have c: "(n + sz - 1) div sz = Suc ?c" using ceil_div_step [of n sz] False 1 by simp
    have "slice_loop sz i off n = ((i, off, ?m) # map (\<lambda>k. (i + 1 + k, off + ?m + k * sz, min sz (n - ?m - k * sz))) [0..<?c],
        i + 1 + ?c)"
      using 1 False by (simp add: slice_loop.simps [of sz i off n] Let_def)
    moreover have "map (\<lambda>k. (i + 1 + k, off + ?m + k * sz, min sz (n - ?m - k * sz))) [0..<?c] =
        map (\<lambda>k. (i + Suc k, off + Suc k * sz, min sz (n - Suc k * sz))) [0..<?c]"
    proof (cases "sz \<le> n")
      case True
      then show ?thesis by (simp add: min_def)
    next
      case small: False
      then have "?c = 0" using 1 by simp
      then show ?thesis by simp
    qed
    ultimately show ?thesis unfolding c map_upt_Suc by (simp add: min.commute)
  qed
qed

text \<open>The sizes for which no \<^verbatim>\<open>usize\<close> wraps around; \<^verbatim>\<open>std::distance\<close> is signed, so the first one always holds.\<close>

definition params_ok :: "WorkSliceParams \<Rightarrow> nat \<Rightarrow> bool" where
  "params_ok params n \<longleftrightarrow> n < 2 ^ 63 \<and> 0 < min_task_size params \<and> min_task_size params \<le> 2 ^ 63 \<and>
     0 < max_tasks params \<and> max_tasks params \<le> 2 ^ 63"

lemma ceil_div_le:
  fixes n k :: nat
  assumes "0 < k"
  shows "(n + k - 1) div k \<le> n" and "n \<le> k * ((n + k - 1) div k)"
proof -
  show "(n + k - 1) div k \<le> n"
  proof -
    have "n + k - 1 < Suc n * k" using assms by (cases k) auto
    then have "(n + k - 1) div k < Suc n" by (rule less_mult_imp_div_less)
    then show ?thesis by simp
  qed
  have "k * ((n + k - 1) div k) + (n + k - 1) mod k = n + k - 1" by simp
  moreover have "(n + k - 1) mod k < k" using assms by simp
  ultimately show "n \<le> k * ((n + k - 1) div k)" using assms by linarith
qed

definition slices :: "nat \<Rightarrow> nat \<Rightarrow> (nat \<times> nat \<times> nat) list" where
  "slices sz n = map (\<lambda>k. (k, k * sz, min sz (n - k * sz))) [0..<(n + sz - 1) div sz]"

text \<open>The checks of the plan never fail, and its tasks are the slices of the input.\<close>

lemma WorkSlicePlan_ok:
  assumes ok: "params_ok params n"
  shows "\<exists>sz. 0 < sz \<and> min_task_size params \<le> sz \<and> (n + sz - 1) div sz \<le> max_tasks params \<and>
    WorkSlicePlan_init params n = Some \<lparr>input_size = n, task_size = sz, n_tasks = (n + sz - 1) div sz\<rparr> \<and>
    slice_work \<lparr>input_size = n, task_size = sz, n_tasks = (n + sz - 1) div sz\<rparr> = Some (slices sz n)"
proof -
  let ?m = "max_tasks params"
  define c where "c = (n + ?m - 1) div ?m"
  define sz where "sz = max (min_task_size params) c"
  have pos: "0 < ?m" "0 < min_task_size params" "0 < sz" using ok by (auto simp: params_ok_def sz_def)
  have c: "c \<le> n" "n \<le> ?m * c" using ceil_div_le [OF pos(1), of n] by (simp_all add: c_def)
  have small: "n + ?m - 1 < 2 ^ 64" "n + sz - 1 < 2 ^ 64"
    using ok c(1) by (auto simp: params_ok_def sz_def)
  have size: "get_task_size params n = Some sz"
    using pos small(1) by (simp add: get_task_size_def sz_def c_def)
  have cnt: "get_task_count n sz = Some ((n + sz - 1) div sz)"
    using pos small(2) by (simp add: get_task_count_def)
  have "c \<le> sz" by (simp add: sz_def)
  then have "n \<le> ?m * sz" using c(2) mult_le_mono2 [of c sz ?m] by linarith
  then have "n + sz - 1 < Suc ?m * sz" using pos(3) by simp
  then have le: "(n + sz - 1) div sz \<le> ?m" using less_mult_imp_div_less less_Suc_eq_le by blast
  have init: "WorkSlicePlan_init params n = Some \<lparr>input_size = n, task_size = sz, n_tasks = (n + sz - 1) div sz\<rparr>"
    using size cnt le by (simp add: WorkSlicePlan_init_def sz_def)
  have "0 < (n + sz - 1) div sz" if "0 < n" using that pos(3) by (simp add: div_greater_zero_iff)
  then have "slice_work \<lparr>input_size = n, task_size = sz, n_tasks = (n + sz - 1) div sz\<rparr> = Some (slices sz n)"
    using pos(3) by (cases "n = 0") (simp_all add: slice_work_def slice_loop_tasks slices_def)
  with init le pos(3) show ?thesis by (intro exI [of _ sz]) (simp add: sz_def)
qed

text \<open>Beyond these sizes the count of tasks wraps around to zero and the check of \<^verbatim>\<open>slice_work\<close> fails: a smallest task
  size of \<^verbatim>\<open>SIZE_MAX\<close> does not mean that the work is never divided.\<close>

lemma huge_task_size_fails:
  assumes "1 < n" and "n < 2 ^ 63" and "0 < m" and "m \<le> 2 ^ 63"
  shows "Option.bind (WorkSlicePlan_init \<lparr>min_task_size = 2 ^ 64 - 1, max_tasks = m\<rparr> n) slice_work = None"
proof -
  have "(n + m - 1) div m \<le> n" by (rule ceil_div_le(1) [OF assms(3)])
  then have sz: "max (2 ^ 64 - 1) ((n + m - 1) mod 2 ^ 64 div m) = 2 ^ 64 - 1" using assms by simp
  have "(n + (2 ^ 64 - 1) - 1) mod 2 ^ 64 = (n - 2 + 2 ^ 64) mod 2 ^ 64" using assms(1) by simp
  also have "\<dots> = n - 2" using assms by (simp only: mod_add_self2) simp
  finally have "(n + (2 ^ 64 - 1) - 1) mod 2 ^ 64 div (2 ^ 64 - 1) = 0" using assms(2) by simp
  with sz assms show ?thesis
    by (simp add: WorkSlicePlan_init_def get_task_size_def get_task_count_def slice_work_def)
qed

text \<open>The slices are adjacent and cover the input.\<close>

lemma concat_chunks:
  assumes "length xs \<le> c * sz"
  shows "concat (map (\<lambda>k. take sz (drop (k * sz) xs)) [0..<c]) = xs"
  using assms
proof (induction c arbitrary: xs)
  case (Suc c)
  have "concat (map (\<lambda>k. take sz (drop (k * sz) xs)) [0..<Suc c]) =
      take sz xs @ concat (map (\<lambda>k. take sz (drop (k * sz) (drop sz xs))) [0..<c])"
    unfolding map_upt_Suc by (simp add: add.commute)
  also have "\<dots> = take sz xs @ drop sz xs" by (subst Suc.IH) (use Suc.prems in auto)
  finally show ?case by simp
qed simp

lemma enumerate_chunks:
  assumes "length xs \<le> c * sz"
  shows "concat (map (\<lambda>k. enumerate (d + k * sz) (take sz (drop (k * sz) xs))) [0..<c]) = enumerate d xs"
  using assms
proof (induction c arbitrary: xs d)
  case (Suc c)
  have "concat (map (\<lambda>k. enumerate (d + k * sz) (take sz (drop (k * sz) xs))) [0..<Suc c]) =
      enumerate d (take sz xs) @ concat (map (\<lambda>k. enumerate (d + sz + k * sz) (take sz (drop (k * sz) (drop sz xs)))) [0..<c])"
    unfolding map_upt_Suc by (simp add: add.commute add.left_commute add.assoc)
  also have "\<dots> = enumerate d (take sz xs) @ enumerate (d + sz) (drop sz xs)" by (subst Suc.IH) (use Suc.prems in auto)
  also have "\<dots> = enumerate d xs"
  proof (cases "sz \<le> length xs")
    case True
    then show ?thesis by (metis append_take_drop_id enumerate_append_eq length_take min.absorb2)
  qed simp
  finally show ?case .
qed simp

lemma slice_take: "take (min sz (length xs - k * sz)) (drop (k * sz) xs) = take sz (drop (k * sz) xs)"
  by (metis length_drop min.commute take_all take_take nat_le_linear min_def)

subsection \<open>Copy and transform\<close>

text \<open>The stores of all tasks, then the memory after they have been done in the order \<open>sched\<close>.\<close>

definition transform_stores :: "('a \<Rightarrow> 'b) \<Rightarrow> 'a list \<Rightarrow> nat \<Rightarrow> WorkSliceParams \<Rightarrow> (nat \<times> 'b) list option" where
  "transform_stores f src dst_begin params =
     (if max_tasks params = 1 then Some (enumerate dst_begin (map f src))
      else do {
        plan \<leftarrow> WorkSlicePlan_init params (length src);
        tasks \<leftarrow> slice_work plan;
        Some (concat (map (\<lambda>(task_index, task_offset, this_size).
          enumerate (dst_begin + task_offset) (map f (take this_size (drop task_offset src)))) tasks))
      })"

definition parallel_transform ::
    "((nat \<times> 'b) list \<Rightarrow> (nat \<times> 'b) list) \<Rightarrow> ('a \<Rightarrow> 'b) \<Rightarrow> 'a list \<Rightarrow> nat \<Rightarrow> WorkSliceParams \<Rightarrow> 'b list \<Rightarrow> 'b list option" where
  "parallel_transform sched f src dst_begin params dst =
     map_option (\<lambda>ws. store_all (sched ws) dst) (transform_stores f src dst_begin params)"

definition parallel_copy ::
    "((nat \<times> 'a) list \<Rightarrow> (nat \<times> 'a) list) \<Rightarrow> 'a list \<Rightarrow> nat \<Rightarrow> WorkSliceParams \<Rightarrow> 'a list \<Rightarrow> 'a list option" where
  "parallel_copy sched src dst_begin params dst = parallel_transform sched (\<lambda>x. x) src dst_begin params dst"

lemma transform_stores_all:
  assumes "max_tasks params = 1 \<or> params_ok params (length src)"
  shows "transform_stores f src d params = Some (enumerate d (map f src))"
proof (cases "max_tasks params = 1")
  case False
  with assms WorkSlicePlan_ok [of params "length src"] obtain sz where sz: "0 < sz"
    "WorkSlicePlan_init params (length src) =
       Some \<lparr>input_size = length src, task_size = sz, n_tasks = (length src + sz - 1) div sz\<rparr>"
    "slice_work \<lparr>input_size = length src, task_size = sz, n_tasks = (length src + sz - 1) div sz\<rparr> =
       Some (slices sz (length src))" by blast
  have "length (map f src) \<le> (length src + sz - 1) div sz * sz"
    using ceil_div_le(2) [OF sz(1), of "length src"] by (simp add: mult.commute)
  from enumerate_chunks [OF this, of d] show ?thesis using False sz
    by (simp add: transform_stores_def slices_def comp_def slice_take drop_map take_map)
qed (simp add: transform_stores_def)

subsection \<open>Accumulate\<close>

definition parallel_accumulate_partial ::
    "((nat \<times> 'a) list \<Rightarrow> (nat \<times> 'a) list) \<Rightarrow> 'b list \<Rightarrow> 'a \<Rightarrow> ('a \<Rightarrow> 'b \<Rightarrow> 'a) \<Rightarrow> 'a \<Rightarrow> nat \<Rightarrow> WorkSliceParams \<Rightarrow> 'a list option" where
  "parallel_accumulate_partial sched xs init binary_op ident buffer_size params =
     (if xs = [] then Some []
      else if max_tasks params = 1 then
        (if buffer_size \<ge> 1 then Some [foldl binary_op init xs] else None)
      else do {
        plan \<leftarrow> WorkSlicePlan_init params (length xs);
        if n_tasks plan > buffer_size then None
        else do {
          let task_results = replicate (n_tasks plan) ident;
          let task_results = (if task_results \<noteq> [] then task_results[0 := init] else task_results);
          tasks \<leftarrow> slice_work plan;
          let ws = map (\<lambda>(task_index, task_offset, this_size).
            (task_index, foldl binary_op (task_results ! task_index) (take this_size (drop task_offset xs)))) tasks;
          Some (store_all (sched ws) task_results)
        }
      })"

partial_function (option) parallel_accumulate ::
    "((nat \<times> 'a) list \<Rightarrow> (nat \<times> 'a) list) \<Rightarrow> 'a list \<Rightarrow> 'a \<Rightarrow> ('a \<Rightarrow> 'a \<Rightarrow> 'a) \<Rightarrow> 'a \<Rightarrow> WorkSliceParams \<Rightarrow> 'a option" where
  "parallel_accumulate sched xs init binary_op ident params =
     (if xs = [] then Some init
      else if min_task_size params = 0 \<or> max_tasks params = 0 then None
      else if max_tasks params = 1 \<or> length xs \<le> max (min_task_size params) (max_tasks params)
      then Some (foldl binary_op init xs)
      else Option.bind (parallel_accumulate_partial sched xs init binary_op ident (max_tasks params) params)
        (\<lambda>task_results.
           if task_results = [] then None
           else parallel_accumulate sched (tl task_results) (hd task_results) binary_op ident params))"

lemma accumulate_slices:
  assumes sched: "\<forall>ws. mset (sched ws) = mset ws" and ok: "params_ok params (length xs)"
    and "xs \<noteq> []" and "max_tasks params \<noteq> 1" and "max_tasks params \<le> buffer_size"
  shows "\<exists>sz c. c < max_tasks params \<and> length xs \<le> Suc c * sz \<and>
    parallel_accumulate_partial sched xs init op ident buffer_size params =
      Some (foldl op init (take sz xs) # map (\<lambda>k. foldl op ident (take sz (drop (Suc k * sz) xs))) [0..<c])"
proof -
  let ?n = "length xs"
  from WorkSlicePlan_ok [OF ok] obtain sz where sz: "0 < sz" "(?n + sz - 1) div sz \<le> max_tasks params"
    "WorkSlicePlan_init params ?n = Some \<lparr>input_size = ?n, task_size = sz, n_tasks = (?n + sz - 1) div sz\<rparr>"
    "slice_work \<lparr>input_size = ?n, task_size = sz, n_tasks = (?n + sz - 1) div sz\<rparr> = Some (slices sz ?n)" by blast
  have le: "?n \<le> (?n + sz - 1) div sz * sz" using ceil_div_le(2) [OF sz(1), of ?n] by (simp add: mult.commute)
  then have "0 < (?n + sz - 1) div sz" using \<open>xs \<noteq> []\<close> by (cases "(?n + sz - 1) div sz") auto
  then obtain c where c: "(?n + sz - 1) div sz = Suc c" using gr0_implies_Suc by blast
  let ?start = "init # replicate c ident"
  let ?res = "\<lambda>k. foldl op (?start ! k) (take sz (drop (k * sz) xs))"
  have st: "replicate (Suc c) ident \<noteq> []" "(replicate (Suc c) ident)[0 := init] = ?start" by simp_all
  have ws: "map (\<lambda>(task_index, task_offset, this_size). (task_index, foldl op (?start ! task_index)
      (take this_size (drop task_offset xs)))) (slices sz ?n) = enumerate 0 (map ?res [0..<Suc c])"
    unfolding slices_def c by (simp add: slice_take enumerate_eq_zip zip_map2 zip_same_conv_map comp_def del: upt_Suc)
  have "store_all (sched (enumerate 0 (map ?res [0..<Suc c]))) ?start = map ?res [0..<Suc c]"
    using store_all_order [OF distinct_enumerate sched [rule_format], of 0 "map ?res [0..<Suc c]"]
      store_all_enumerate [of 0 "map ?res [0..<Suc c]" ?start] by (simp del: upt_Suc)
  also have "\<dots> = foldl op init (take sz xs) # map (\<lambda>k. foldl op ident (take sz (drop (Suc k * sz) xs))) [0..<c]"
    unfolding map_upt_Suc by simp
  finally have "parallel_accumulate_partial sched xs init op ident buffer_size params =
      Some (foldl op init (take sz xs) # map (\<lambda>k. foldl op ident (take sz (drop (Suc k * sz) xs))) [0..<c])"
    using assms(3-5) sz(2-4) unfolding c
    by (simp only: parallel_accumulate_partial_def Let_def st ws bind.simps WorkSlicePlan.simps if_False if_True simp_thms
        not_less [symmetric]) simp
  then show ?thesis using c sz(2) le by (intro exI [of _ sz] exI [of _ c]) simp
qed

lemma foldl_monoid:
  assumes "monoid op ident"
  shows "foldl op a xs = op a (foldl op ident xs)"
proof -
  note assoc = semigroup.assoc [OF monoid.axioms(1) [OF assms]]
  note left = monoid.left_neutral [OF assms] and right = monoid.right_neutral [OF assms]
  show ?thesis
  proof (induction xs arbitrary: a)
    case (Cons x xs)
    have "foldl op a (x # xs) = op (op a x) (foldl op ident xs)" using Cons [of "op a x"] by simp
    also have "\<dots> = op a (op x (foldl op ident xs))" by (rule assoc)
    also have "op x (foldl op ident xs) = foldl op ident (x # xs)" using Cons [of x] left by simp
    finally show ?case .
  qed (simp add: right)
qed

lemma foldl_chunks:
  assumes "monoid op ident" and "length xs \<le> Suc c * sz"
  shows "foldl op (foldl op init (take sz xs)) (map (\<lambda>k. foldl op ident (take sz (drop (Suc k * sz) xs))) [0..<c]) =
    foldl op init xs"
proof -
  have "foldl op a (map (foldl op ident) yss) = foldl op a (concat yss)" for a yss
    by (induction yss arbitrary: a) (simp_all add: foldl_monoid [OF assms(1), symmetric])
  from this [of "foldl op init (take sz xs)" "map (\<lambda>k. take sz (drop (k * sz) (drop sz xs))) [0..<c]"]
  have "foldl op (foldl op init (take sz xs)) (map (\<lambda>k. foldl op ident (take sz (drop (Suc k * sz) xs))) [0..<c]) =
      foldl op (foldl op init (take sz xs)) (drop sz xs)"
    using assms(2) concat_chunks [of "drop sz xs" c sz] by (simp add: comp_def add.commute)
  then show ?thesis by (simp flip: foldl_append)
qed

subsection \<open>Properties\<close>

text \<open>
  \<^verbatim>\<open>parallel_transform\<close> (and with the identity \<^verbatim>\<open>parallel_copy\<close>) does what \<^verbatim>\<open>std::transform\<close> does,
  in whatever order the stores of the concurrent tasks happen: no check fails, the destination range holds
  the transformed input and the rest of the destination is unchanged.
\<close>

theorem parallel_transform_equals_map:
  assumes "\<forall>ws. mset (sched ws) = mset ws" and "max_tasks params = 1 \<or> params_ok params (length src)"
    and "d + length src \<le> length dst"
  shows "parallel_transform sched f src d params dst = Some (take d dst @ map f src @ drop (d + length src) dst)"
  using transform_stores_all [OF assms(2), of f d] assms(3)
    store_all_order [OF distinct_enumerate assms(1) [rule_format], of d "map f src" dst] store_all_enumerate [of d "map f src" dst]
  by (simp add: parallel_transform_def)

theorem parallel_transform_equals_map_witness:
  "parallel_transform rev Suc [1, 2, 3, 4, 5] 1 \<lparr>min_task_size = 2, max_tasks = 3\<rparr> [0, 0, 0, 0, 0, 0, 9] =
     Some [0, 2, 3, 4, 5, 6, 9 :: nat]"
  using parallel_transform_equals_map [of rev "\<lparr>min_task_size = 2, max_tasks = 3\<rparr>" "[1, 2, 3, 4, 5]" 1 "[0, 0, 0, 0, 0, 0, 9]" Suc]
  by (simp add: params_ok_def)

text \<open>
  \<^verbatim>\<open>parallel_accumulate\<close> returns, and returns what \<^verbatim>\<open>std::accumulate\<close> returns, for an operation
  that is associative with the given identity, whatever the number of tasks and the order in which they
  store their results.
\<close>

theorem parallel_accumulate_equals_fold:
  assumes "monoid binary_op ident" and "\<forall>ws. mset (sched ws) = mset ws" and "params_ok params (length xs)"
  shows "parallel_accumulate sched xs init binary_op ident params = Some (foldl binary_op init xs)"
proof -
  have base: "parallel_accumulate sched ys a binary_op ident params = Some (foldl binary_op a ys)"
    if "max_tasks params = 1 \<or> length ys \<le> max (min_task_size params) (max_tasks params)" for ys a
    using that assms(3) by (subst parallel_accumulate.simps) (auto simp: params_ok_def)
  show ?thesis
  proof (cases "max_tasks params = 1 \<or> length xs \<le> max (min_task_size params) (max_tasks params)")
    case False
    then have ne: "xs \<noteq> []" "max_tasks params \<noteq> 1" by auto
    from accumulate_slices [OF assms(2,3) ne order_refl, of init binary_op ident] obtain sz c where
      c: "c < max_tasks params" "length xs \<le> Suc c * sz"
      "parallel_accumulate_partial sched xs init binary_op ident (max_tasks params) params =
         Some (foldl binary_op init (take sz xs) #
           map (\<lambda>k. foldl binary_op ident (take sz (drop (Suc k * sz) xs))) [0..<c])" by blast
    have "parallel_accumulate sched xs init binary_op ident params =
        parallel_accumulate sched (map (\<lambda>k. foldl binary_op ident (take sz (drop (Suc k * sz) xs))) [0..<c])
          (foldl binary_op init (take sz xs)) binary_op ident params"
      using False ne c(3) assms(3) by (subst parallel_accumulate.simps) (simp add: params_ok_def)
    also have "\<dots> = Some (foldl binary_op init xs)"
      unfolding foldl_chunks [OF assms(1) c(2), symmetric] by (rule base) (use c(1) in \<open>simp add: le_max_iff_disj\<close>)
    finally show ?thesis .
  qed (rule base)
qed

theorem parallel_accumulate_equals_fold_witness:
  "parallel_accumulate rev [1, 2, 3, 4, 5, 6, 7] 10 (+) 0 \<lparr>min_task_size = 2, max_tasks = 3\<rparr> = Some (38 :: nat)"
proof -
  have "monoid (+) (0 :: nat)" by unfold_locales simp_all
  from parallel_accumulate_equals_fold [OF this, of rev "\<lparr>min_task_size = 2, max_tasks = 3\<rparr>" "[1, 2, 3, 4, 5, 6, 7]" 10]
  show ?thesis by (simp add: params_ok_def)
qed

end
