(* ===== verification/Running_Total.thy ===== *)
theory Running_Total
  imports Work_Slice
begin

section \<open>Running totals\<close>

text \<open>
  Models \<^verbatim>\<open>src/src/batteries/algo/running_total.hpp\<close> and \<^verbatim>\<open>parallel_running_total.hpp\<close>: the running totals of a list
  of \<^verbatim>\<open>usize\<close> values, computed in parts by concurrent tasks and kept in one array, each part with a leading
  zero, followed by the running totals of the parts. Totals are words and wrap around. The array starts
  with arbitrary contents \<open>mem\<close>.
\<close>

record RunningTotal =
  rt_values :: "u64 list"
  parts_count :: nat
  part_size :: nat
  rt_size :: nat

definition RunningTotal_init :: RunningTotal where
  "RunningTotal_init = \<lparr>rt_values = [0], parts_count = 0, part_size = 1, rt_size = 1\<rparr>"

definition part_segment_size :: "RunningTotal \<Rightarrow> nat" where
  "part_segment_size rt = part_size rt + 1"

definition part_segment_offset :: "RunningTotal \<Rightarrow> nat \<Rightarrow> nat" where
  "part_segment_offset rt part_i = part_i * part_segment_size rt"

definition summary_offset :: "RunningTotal \<Rightarrow> nat" where
  "summary_offset rt = part_segment_size rt * parts_count rt"

definition summary_size :: "RunningTotal \<Rightarrow> nat" where
  "summary_size rt = parts_count rt + 1"

definition raw_size :: "RunningTotal \<Rightarrow> nat" where
  "raw_size rt = summary_offset rt + summary_size rt"

definition RunningTotal_reset :: "(nat \<Rightarrow> u64) \<Rightarrow> nat \<Rightarrow> nat \<Rightarrow> RunningTotal \<Rightarrow> RunningTotal option" where
  "RunningTotal_reset mem cnt sz rt =
     (if \<not> sz > 0 then None
      else let rt = rt\<lparr>parts_count := cnt, part_size := sz\<rparr>;
               rt = rt\<lparr>rt_values := map mem [0..<raw_size rt]\<rparr>;
               rt = rt\<lparr>rt_values := (rt_values rt)[summary_offset rt := 0]\<rparr>;
               rt = fold (\<lambda>i rt. rt\<lparr>rt_values := (rt_values rt)[part_segment_offset rt i := 0]\<rparr>) [0..<cnt] rt
        in Some (rt\<lparr>rt_size := cnt * sz + 1\<rparr>))"

definition rt_set_size :: "nat \<Rightarrow> RunningTotal \<Rightarrow> RunningTotal option" where
  "rt_set_size new_size rt = (if new_size \<le> parts_count rt * part_size rt + 1 then Some (rt\<lparr>rt_size := new_size\<rparr>) else None)"

definition RunningTotal_at :: "RunningTotal \<Rightarrow> nat \<Rightarrow> u64 option" where
  "RunningTotal_at rt i =
     (if \<not> i < rt_size rt then None
      else let part_index = i div part_size rt; part_offset = i mod part_size rt in
        if \<not> part_segment_offset rt part_index < raw_size rt then None
        else Some (rt_values rt ! (summary_offset rt + part_index) +
                   rt_values rt ! (part_segment_offset rt part_index + part_offset)))"

definition RunningTotal_front :: "RunningTotal \<Rightarrow> u64 option" where
  "RunningTotal_front rt = (if rt_size rt = 0 then None else Some (rt_values rt ! 0))"

definition RunningTotal_back :: "RunningTotal \<Rightarrow> u64 option" where
  "RunningTotal_back rt = (if rt_size rt = 0 then None else RunningTotal_at rt (rt_size rt - 1))"

definition RunningTotal_slice :: "RunningTotal \<Rightarrow> nat \<Rightarrow> nat \<Rightarrow> u64 list option" where
  "RunningTotal_slice rt begin_index end_index =
     (if \<not> begin_index \<le> end_index \<or> rt_size rt < end_index then None
      else those (map (RunningTotal_at rt) [begin_index..<end_index]))"

text \<open>The loop of \<^verbatim>\<open>update_summary\<close>: \<open>n\<close> parts are left, \<open>k\<close> are done.\<close>

fun update_summary_loop :: "RunningTotal \<Rightarrow> nat \<Rightarrow> nat \<Rightarrow> u64 \<Rightarrow> u64 list \<Rightarrow> u64 list" where
  "update_summary_loop rt 0 k tot vs = vs"
| "update_summary_loop rt (Suc n) k tot vs =
     (let tot = tot + vs ! (part_size rt + k * part_segment_size rt)
      in update_summary_loop rt n (k + 1) tot (vs[summary_offset rt + 1 + k := tot]))"

definition update_summary :: "RunningTotal \<Rightarrow> RunningTotal option" where
  "update_summary rt =
     (if rt_values rt ! summary_offset rt \<noteq> 0 then None
      else Some (rt\<lparr>rt_values := update_summary_loop rt (parts_count rt) 0 0 (rt_values rt)\<rparr>))"

subsection \<open>The parallel computation\<close>

fun part_totals :: "u64 \<Rightarrow> u64 list \<Rightarrow> u64 list" where
  "part_totals part_total [] = []"
| "part_totals part_total (x # xs) = (part_total + x) # part_totals (part_total + x) xs"

text \<open>The stores of one task, or \<open>None\<close> where one of its checks fails.\<close>

definition total_task :: "RunningTotal \<Rightarrow> WorkSlicePlan \<Rightarrow> u64 list \<Rightarrow> nat \<times> nat \<times> nat \<Rightarrow> (nat \<times> u64) list option" where
  "total_task rt plan xs task =
     (case task of (task_index, task_offset, this_size) \<Rightarrow>
        let src = take this_size (drop task_offset xs); dst = part_segment_offset rt task_index in
        if \<not> task_index < parts_count rt then None
        else if task_index + 1 < n_tasks plan \<and> part_segment_size rt \<noteq> length src + 1 then None
        else if rt_values rt ! dst \<noteq> 0 then None
        else Some (enumerate (dst + 1)
          (part_totals 0 src @ replicate (part_segment_size rt - 1 - length src) (sum_list src))))"

definition parallel_running_total ::
    "((nat \<times> u64) list \<Rightarrow> (nat \<times> u64) list) \<Rightarrow> (nat \<Rightarrow> u64) \<Rightarrow> ('a \<Rightarrow> u64) \<Rightarrow> 'a list \<Rightarrow> WorkSliceParams \<Rightarrow> RunningTotal option" where
  "parallel_running_total sched mem fn items params =
     do {
       plan \<leftarrow> WorkSlicePlan_init params (length items);
       if input_size plan = 0 then Some RunningTotal_init
       else do {
         rt \<leftarrow> RunningTotal_reset mem (n_tasks plan) (task_size plan) RunningTotal_init;
         rt \<leftarrow> rt_set_size (input_size plan + 1) rt;
         tasks \<leftarrow> slice_work plan;
         wss \<leftarrow> those (map (total_task rt plan (map fn items)) tasks);
         update_summary (rt\<lparr>rt_values := store_all (sched (concat wss)) (rt_values rt)\<rparr>)
       }
     }"

subsection \<open>The array of parts\<close>

abbreviation zero_cells :: "nat \<Rightarrow> nat \<Rightarrow> u64 list \<Rightarrow> u64 list" where
  "zero_cells s c \<equiv> fold (\<lambda>i vs. vs[i * s := 0]) [0..<c]"

lemma length_zero_cells [simp]: "length (zero_cells s c vs) = length vs"
  by (induction c) auto

lemma nth_zero_cells:
  "0 < s \<Longrightarrow> i < c \<Longrightarrow> i * s < length vs \<Longrightarrow> zero_cells s c vs ! (i * s) = 0"
  "vs ! x = 0 \<Longrightarrow> x < length vs \<Longrightarrow> zero_cells s c vs ! x = 0"
proof (induction c)
  case (Suc c)
  { case 1
    with Suc.IH(1) show ?case by (cases "i = c") simp_all }
  { case 2 with Suc.IH(2) show ?case by (cases "c * s = x") auto }
qed simp_all

lemma reset_values:
  assumes "0 < S"
  obtains vs where "RunningTotal_reset mem P S rt = Some \<lparr>rt_values = vs, parts_count = P, part_size = S, rt_size = P * S + 1\<rparr>"
    "length vs = Suc S * P + P + 1" "\<forall>k \<le> P. vs ! (k * Suc S) = 0"
proof -
  let ?m = "(map mem [0..<Suc S * P + P + 1])[Suc S * P := 0]"
  let ?vs = "zero_cells (Suc S) P ?m"
  have f: "fold (\<lambda>i rt. rt\<lparr>rt_values := (rt_values rt)[part_segment_offset rt i := 0]\<rparr>) is r =
      r\<lparr>rt_values := fold (\<lambda>i vs. vs[i * Suc (part_size r) := 0]) is (rt_values r)\<rparr>" for "is" and r :: RunningTotal
    by (induction "is" arbitrary: r) (simp_all add: part_segment_offset_def part_segment_size_def)
  have "RunningTotal_reset mem P S rt = Some \<lparr>rt_values = ?vs, parts_count = P, part_size = S, rt_size = P * S + 1\<rparr>"
    using assms by (simp add: RunningTotal_reset_def f Let_def raw_size_def summary_offset_def summary_size_def part_segment_size_def)
  moreover have "?vs ! (k * Suc S) = 0" if "k \<le> P" for k
  proof (cases "k = P")
    case True
    have "?m ! (Suc S * P) = 0" by simp
    then have "?vs ! (Suc S * P) = 0" by (rule nth_zero_cells(2)) simp
    then show ?thesis using True by (simp only: mult.commute)
  next
    case False
    then have k: "k < P" "k * Suc S \<le> P * Suc S" using that by (simp, intro mult_le_mono1)
    have "P * Suc S < length ?m" by (simp add: mult.commute)
    then have "k * Suc S < length ?m" using k(2) by linarith
    then show ?thesis using k(1) by (intro nth_zero_cells(1)) simp_all
  qed
  moreover have "length ?vs = Suc S * P + P + 1" by (simp only: length_zero_cells) simp
  ultimately show thesis using that by blast
qed

lemma cells_distinct:
  fixes S s :: nat
  assumes "S < s"
  shows "distinct (concat (map (\<lambda>k. [k * s + 1..<k * s + 1 + S]) [0..<P])) \<and>
    (\<forall>x \<in> set (concat (map (\<lambda>k. [k * s + 1..<k * s + 1 + S]) [0..<P])). x < P * s)"
proof (induction P)
  case (Suc P)
  let ?A = "concat (map (\<lambda>k. [k * s + 1..<k * s + 1 + S]) [0..<P])"
  have "concat (map (\<lambda>k. [k * s + 1..<k * s + 1 + S]) [0..<Suc P]) = ?A @ [P * s + 1..<P * s + 1 + S]" by simp
  moreover have "set ?A \<inter> {P * s + 1..<P * s + 1 + S} = {}"
    using Suc by (meson atLeastLessThan_iff disjoint_iff leD less_or_eq_imp_le add_leD1 le_less_trans)
  then have "distinct (?A @ [P * s + 1..<P * s + 1 + S])" using Suc by (simp only: distinct_append set_upt distinct_upt)
  moreover have "\<forall>x \<in> set (?A @ [P * s + 1..<P * s + 1 + S]). x < Suc P * s"
  proof
    fix x assume "x \<in> set (?A @ [P * s + 1..<P * s + 1 + S])"
    then have "x < P * s \<or> x < P * s + 1 + S" using Suc by auto
    then show "x < Suc P * s" using assms by auto
  qed
  ultimately show ?case by simp
qed simp

lemma length_part_totals [simp]: "length (part_totals t xs) = length xs"
  by (induction xs arbitrary: t) auto

lemma nth_part_totals: "j < length xs \<Longrightarrow> part_totals t xs ! j = t + sum_list (take (Suc j) xs)"
  by (induction xs arbitrary: t j) (auto simp: nth_Cons add.assoc split: nat.splits)

text \<open>The totals of part \<open>k\<close> of size \<open>S\<close>, without the leading zero.\<close>

definition part_of :: "nat \<Rightarrow> 'a list \<Rightarrow> nat \<Rightarrow> 'a list" where
  "part_of S xs k = take S (drop (k * S) xs)"

definition totals_of :: "nat \<Rightarrow> u64 list \<Rightarrow> nat \<Rightarrow> u64 list" where
  "totals_of S xs k = part_totals 0 (part_of S xs k) @ replicate (S - length (part_of S xs k)) (sum_list (part_of S xs k))"

lemma length_totals_of [simp]: "length (totals_of S xs k) = S"
  by (simp add: totals_of_def part_of_def)

lemma nth_totals_of: "j < S \<Longrightarrow> totals_of S xs k ! j = sum_list (take (Suc j) (part_of S xs k))"
  by (auto simp: totals_of_def nth_append nth_part_totals)

lemma those_map_Some: "(\<And>x. x \<in> set xs \<Longrightarrow> f x = Some (g x)) \<Longrightarrow> those (map f xs) = Some (map g xs)"
  by (induction xs) auto

lemma part_full:
  assumes "0 < S" and "Suc k < (length xs + S - 1) div S"
  shows "length (part_of S xs k) = S"
proof -
  have "Suc (Suc k) * S \<le> length xs + S - 1"
    using assms by (metis Suc_leI div_times_less_eq_dividend mult_le_mono1 order_trans)
  then show ?thesis using assms(1) by (simp add: part_of_def)
qed

lemma total_tasks:
  fixes xs :: "u64 list"
  assumes S: "0 < S" and P: "P = (length xs + S - 1) div S" and z: "\<forall>k \<le> P. vs ! (k * Suc S) = 0"
    and rt: "rt_values rt = vs" "parts_count rt = P" "part_size rt = S" and plan: "n_tasks plan = P"
  shows "those (map (total_task rt plan xs) (slices S (length xs))) =
    Some (map (\<lambda>k. enumerate (k * Suc S + 1) (totals_of S xs k)) [0..<P])"
proof -
  have "total_task rt plan xs (k, k * S, min S (length xs - k * S)) = Some (enumerate (k * Suc S + 1) (totals_of S xs k))"
    if "k < P" for k
  proof -
    have "take (min S (length xs - k * S)) (drop (k * S) xs) = part_of S xs k" by (simp add: slice_take part_of_def)
    moreover have "length (part_of S xs k) = S" if "k + 1 < P" using part_full [OF S, of k xs] that P by simp
    moreover have "rt_values rt ! (k * Suc S) = 0" using z rt(1) that by simp
    ultimately show ?thesis using that rt(2,3) plan
      by (simp only: total_task_def prod.case part_segment_offset_def part_segment_size_def totals_of_def Let_def) simp
  qed
  then show ?thesis unfolding slices_def P [symmetric] map_map
    by (intro those_map_Some) simp
qed

lemma store_parts:
  fixes T :: "nat \<Rightarrow> 'a list"
  assumes T: "\<And>k. length (T k) = S" and S: "S < s" and len: "P * s \<le> length vs"
    and ws: "ws = concat (map (\<lambda>k. enumerate (k * s + 1) (T k)) [0..<P])" and sched: "mset (sched ws) = mset ws"
  shows "k < P \<Longrightarrow> j < S \<Longrightarrow> store_all (sched ws) vs ! (k * s + 1 + j) = T k ! j"
    and "k * s < length vs \<Longrightarrow> store_all (sched ws) vs ! (k * s) = vs ! (k * s)"
    and "P * s \<le> i \<Longrightarrow> i < length vs \<Longrightarrow> store_all (sched ws) vs ! i = vs ! i"
proof -
  have keys: "map fst ws = concat (map (\<lambda>k. [k * s + 1..<k * s + 1 + S]) [0..<P])"
    by (simp add: ws map_concat comp_def T)
  have d: "distinct (map fst ws)" unfolding keys using cells_distinct [OF S, of P] by blast
  have lt: "x \<in> set (map fst ws) \<Longrightarrow> x < P * s" for x unfolding keys using cells_distinct [OF S, of P] by blast
  have e: "store_all (sched ws) vs = store_all ws vs" by (rule store_all_order [OF d sched])
  note n = nth_store_all [OF d]
  show "store_all (sched ws) vs ! (k * s + 1 + j) = T k ! j" if "k < P" "j < S"
  proof -
    have "(k * s + 1 + j, T k ! j) \<in> set ws"
      using that by (auto simp: ws in_set_enumerate_eq T intro!: bexI [of _ k])
    then have "map_of ws (k * s + 1 + j) = Some (T k ! j)" using d by simp
    moreover have "k * s + 1 + j < length vs"
      using lt [of "k * s + 1 + j"] \<open>(k * s + 1 + j, T k ! j) \<in> set ws\<close> len by force
    ultimately show ?thesis unfolding e by (simp add: n)
  qed
  have "k * s \<notin> set (map fst ws)"
  proof
    assume "k * s \<in> set (map fst ws)"
    then obtain k' where k': "k' * s + 1 \<le> k * s" "k * s < k' * s + 1 + S" unfolding keys
      by (auto simp del: upt_Suc)
    define j where "j = k * s - (k' * s + 1)"
    with k' have "k * s = k' * s + 1 + j" "j < S" by linarith+
    then have "(k * s) mod s = (1 + j) mod s" by (metis add.assoc mod_mult_self3)
    with \<open>j < S\<close> S show False by (simp add: mod_less)
  qed
  then have "map_of ws (k * s) = None" by (simp add: map_of_eq_None_iff)
  then show "store_all (sched ws) vs ! (k * s) = vs ! (k * s)" if "k * s < length vs"
    unfolding e using that by (simp add: n)
  have "map_of ws i = None" if "P * s \<le> i" using lt [of i] that by (force simp: map_of_eq_None_iff)
  then show "store_all (sched ws) vs ! i = vs ! i" if "P * s \<le> i" "i < length vs"
    unfolding e using that by (simp add: n)
qed

lemma update_summary_loop_length [simp]: "length (update_summary_loop rt n k t vs) = length vs"
  by (induction rt n k t vs rule: update_summary_loop.induct) (simp_all add: Let_def)

lemma part_total_cell:
  fixes l P S :: nat
  assumes "l < P"
  shows "S + l * Suc S < Suc S * P"
proof -
  have "Suc l * Suc S \<le> P * Suc S" using assms by (intro mult_le_mono1) simp
  then show ?thesis by (simp add: mult.commute)
qed

lemma update_summary_loop_prefix:
  "i < summary_offset rt + 1 + k \<Longrightarrow> update_summary_loop rt n k t vs ! i = vs ! i"
  by (induction rt n k t vs rule: update_summary_loop.induct) (simp_all add: Let_def)

lemma update_summary_loop_values:
  assumes "k + n = parts_count rt" and "raw_size rt = length vs" and "j < n"
  shows "update_summary_loop rt n k t vs ! (summary_offset rt + 1 + k + j) =
      t + (\<Sum>l < Suc j. vs ! (part_size rt + (k + l) * part_segment_size rt))"
  using assms
proof (induction n arbitrary: k t vs j)
  case (Suc n)
  let ?c = "\<lambda>l. part_size rt + l * part_segment_size rt" and ?o = "summary_offset rt + 1"
  let ?t = "t + vs ! ?c k" and ?vs = "vs[?o + k := t + vs ! ?c k]"
  have c: "?c l < ?o" if "l < parts_count rt" for l
    using part_total_cell [OF that, of "part_size rt"] by (simp add: part_segment_size_def summary_offset_def)
  have step: "update_summary_loop rt (Suc n) k t vs = update_summary_loop rt n (Suc k) ?t ?vs" by (simp add: Let_def)
  have kn: "Suc k + n = parts_count rt" "raw_size rt = length ?vs" "?o + k < length vs"
    using Suc.prems by (auto simp: raw_size_def summary_size_def)
  show ?case
  proof (cases j)
    case 0
    then show ?thesis unfolding step using update_summary_loop_prefix [of "?o + k" rt "Suc k" n ?t ?vs] kn(3) by simp
  next
    case (Suc j')
    have "(\<Sum>l < Suc j'. ?vs ! ?c (Suc k + l)) = (\<Sum>l < Suc j'. vs ! ?c (k + Suc l))"
    proof (rule sum.cong [OF refl])
      fix l assume "l \<in> {..<Suc j'}"
      then have "?c (k + Suc l) < ?o" by (intro c) (use Suc.prems Suc in auto)
      then show "?vs ! ?c (Suc k + l) = vs ! ?c (k + Suc l)" by simp
    qed
    moreover have "update_summary_loop rt n (Suc k) ?t ?vs ! (?o + Suc k + j') =
        ?t + (\<Sum>l < Suc j'. ?vs ! ?c (Suc k + l))" using Suc.IH [OF kn(1,2), of j' ?t] Suc.prems(3) Suc by simp
    ultimately show ?thesis unfolding step Suc
      by (simp add: sum.lessThan_Suc_shift [of _ "Suc j'"] add.assoc del: sum.lessThan_Suc)
  qed
qed simp

lemma sum_parts: "(\<Sum>l < m. sum_list (part_of S xs l)) = sum_list (take (m * S) (xs :: u64 list))"
proof (induction m)
  case (Suc m)
  have "Suc m * S = m * S + S" by simp
  then have "take (Suc m * S) xs = take (m * S) xs @ part_of S xs m" by (simp only: part_of_def take_add)
  with Suc show ?case by simp
qed simp

text \<open>An array whose parts and summary hold the right totals answers every position.\<close>

lemma RunningTotal_at_sum:
  fixes xs :: "u64 list"
  assumes P: "length xs \<le> P * S" "0 < S" and rt: "parts_count rt = P" "part_size rt = S" "rt_size rt = length xs + 1"
    and parts: "\<And>k j. k < P \<Longrightarrow> j \<le> S \<Longrightarrow> rt_values rt ! (k * Suc S + j) = sum_list (take j (part_of S xs k))"
    and zero: "rt_values rt ! (P * Suc S) = 0"
    and summary: "\<And>k. k \<le> P \<Longrightarrow> rt_values rt ! (P * Suc S + k) = sum_list (take (k * S) xs)"
    and i: "i \<le> length xs"
  shows "RunningTotal_at rt i = Some (sum_list (take i xs))"
proof -
  let ?k = "i div S" and ?j = "i mod S"
  have "?k \<le> P" using P i by (metis div_le_mono order_trans nonzero_mult_div_cancel_right less_not_refl)
  then have b: "?k * Suc S \<le> P * Suc S" by (rule mult_le_mono1)
  have "take i xs = take (?k * S + ?j) xs" by simp
  also have "\<dots> = take (?k * S) xs @ take ?j (drop (?k * S) xs)" by (rule take_add)
  also have "take ?j (drop (?k * S) xs) = take ?j (part_of S xs ?k)"
    using P(2) by (simp add: part_of_def min_def less_imp_le)
  finally have split: "sum_list (take i xs) = sum_list (take (?k * S) xs) + sum_list (take ?j (part_of S xs ?k))" by simp
  have "rt_values rt ! (?k * Suc S + ?j) = sum_list (take ?j (part_of S xs ?k))"
  proof (cases "?k < P")
    case True
    then show ?thesis by (rule parts) (use P(2) in \<open>simp add: less_imp_le\<close>)
  next
    case False
    then have k: "?k = P" using \<open>?k \<le> P\<close> by simp
    then have "?j = 0" using i P(1) by (metis add_leD1 div_mult_mod_eq le_add_same_cancel1 le_antisym le_zero_eq order_trans add_diff_cancel_left' diff_is_0_eq)
    then show ?thesis using k zero by simp
  qed
  then show ?thesis using summary [OF \<open>?k \<le> P\<close>] split i b rt
    by (simp add: RunningTotal_at_def Let_def part_segment_offset_def part_segment_size_def summary_offset_def raw_size_def
        summary_size_def mult.commute)
qed

lemma stored_parts:
  fixes xs :: "u64 list"
  assumes sched: "\<forall>ws. mset (sched ws) = mset ws" and len: "length vs = Suc S * P + P + 1"
    and z: "\<forall>k \<le> P. vs ! (k * Suc S) = 0"
    and v1: "v1 = store_all (sched (concat (map (\<lambda>k. enumerate (k * Suc S + 1) (totals_of S xs k)) [0..<P]))) vs"
  shows "k < P \<Longrightarrow> j \<le> S \<Longrightarrow> v1 ! (k * Suc S + j) = sum_list (take j (part_of S xs k))"
    and "v1 ! (P * Suc S) = 0" and "length v1 = Suc S * P + P + 1"
proof -
  have "P * Suc S \<le> length vs" using len by (simp add: mult.commute)
  note st = store_parts [where T = "totals_of S xs" and S = S and s = "Suc S" and sched = sched,
      OF length_totals_of lessI this refl sched [rule_format], folded v1]
  have zero: "v1 ! (k * Suc S) = 0" if "k \<le> P" for k
  proof -
    have "k * Suc S \<le> P * Suc S" using that by (rule mult_le_mono1)
    then have "k * Suc S < length vs" using len by (simp add: mult.commute)
    with st(2) z that show ?thesis by simp
  qed
  then show "v1 ! (P * Suc S) = 0" by simp
  show "length v1 = Suc S * P + P + 1" using len by (simp add: v1)
  show "v1 ! (k * Suc S + j) = sum_list (take j (part_of S xs k))" if "k < P" "j \<le> S"
  proof (cases j)
    case 0
    then show ?thesis using zero [of k] that(1) by simp
  next
    case (Suc j')
    then show ?thesis using st(1) [of k j'] nth_totals_of [of j' S xs k] that by simp
  qed
qed

lemma summed_parts:
  fixes xs :: "u64 list"
  assumes part: "\<And>k j. k < P \<Longrightarrow> j \<le> S \<Longrightarrow> rt_values rt ! (k * Suc S + j) = sum_list (take j (part_of S xs k))"
    and zero: "rt_values rt ! (P * Suc S) = 0" and len: "length (rt_values rt) = Suc S * P + P + 1"
    and rt: "parts_count rt = P" "part_size rt = S"
  shows "\<exists>v2. update_summary rt = Some (rt\<lparr>rt_values := v2\<rparr>) \<and>
    (\<forall>k < P. \<forall>j \<le> S. v2 ! (k * Suc S + j) = sum_list (take j (part_of S xs k))) \<and>
    v2 ! (P * Suc S) = 0 \<and> (\<forall>k \<le> P. v2 ! (P * Suc S + k) = sum_list (take (k * S) xs))"
proof -
  define v1 where "v1 = rt_values rt"
  define v2 where "v2 = update_summary_loop rt P 0 0 v1"
  have off: "summary_offset rt = P * Suc S" "raw_size rt = length v1" "part_segment_size rt = Suc S"
    using rt len by (simp_all add: v1_def summary_offset_def raw_size_def summary_size_def part_segment_size_def mult.commute)
  have low: "v2 ! i = v1 ! i" if "i \<le> P * Suc S" for i
    using update_summary_loop_prefix [of i rt 0 P 0 v1] that off by (simp add: v2_def)
  have "v2 ! (P * Suc S + k) = sum_list (take (k * S) xs)" if "k \<le> P" for k
  proof (cases k)
    case (Suc j)
    have "(\<Sum>l < Suc j. v1 ! (S + l * Suc S)) = (\<Sum>l < Suc j. sum_list (part_of S xs l))"
    proof (rule sum.cong [OF refl])
      fix l assume "l \<in> {..<Suc j}"
      then show "v1 ! (S + l * Suc S) = sum_list (part_of S xs l)"
        using part [of l S] that Suc by (simp add: add.commute part_of_def v1_def)
    qed
    moreover have "update_summary_loop rt P 0 0 v1 ! (P * Suc S + 1 + 0 + j) =
        0 + (\<Sum>l < Suc j. v1 ! (S + (0 + l) * Suc S))"
      using update_summary_loop_values [of 0 P rt v1 j 0] off rt that Suc by simp
    ultimately show ?thesis unfolding v2_def by (simp only: sum_parts add_0 Suc) simp
  qed (use low zero in \<open>simp add: v1_def\<close>)
  moreover have "v2 ! (k * Suc S + j) = sum_list (take j (part_of S xs k))" if "k < P" "j \<le> S" for k j
  proof -
    have "Suc k * Suc S \<le> P * Suc S" using that(1) by (intro mult_le_mono1) simp
    then have "k * Suc S + j \<le> P * Suc S" using that(2) by simp
    then show ?thesis using low part that by (simp only: v1_def)
  qed
  moreover have "update_summary rt = Some (rt\<lparr>rt_values := v2\<rparr>)"
    using zero off rt by (simp add: update_summary_def v2_def v1_def)
  moreover have "v2 ! (P * Suc S) = 0" using low [OF order_refl] zero by (simp only: v1_def)
  ultimately show ?thesis by blast
qed

lemma parallel_running_total_values:
  fixes fn :: "'a \<Rightarrow> u64"
  assumes sched: "\<forall>ws. mset (sched ws) = mset ws" and ok: "params_ok params (length items)" and "items \<noteq> []"
    and xs: "xs = map fn items"
  shows "\<exists>rt S P. parallel_running_total sched mem fn items params = Some rt \<and>
    length xs \<le> P * S \<and> 0 < S \<and> parts_count rt = P \<and> part_size rt = S \<and> rt_size rt = length xs + 1 \<and>
    (\<forall>k < P. \<forall>j \<le> S. rt_values rt ! (k * Suc S + j) = sum_list (take j (part_of S xs k))) \<and>
    rt_values rt ! (P * Suc S) = 0 \<and> (\<forall>k \<le> P. rt_values rt ! (P * Suc S + k) = sum_list (take (k * S) xs))"
proof -
  let ?n = "length items"
  from WorkSlicePlan_ok [OF ok] obtain S P where S: "0 < S" and P: "P = (?n + S - 1) div S"
    and plan: "WorkSlicePlan_init params ?n = Some \<lparr>input_size = ?n, task_size = S, n_tasks = P\<rparr>"
    "slice_work \<lparr>input_size = ?n, task_size = S, n_tasks = P\<rparr> = Some (slices S ?n)" by blast
  let ?plan = "\<lparr>input_size = ?n, task_size = S, n_tasks = P\<rparr>"
  have le: "?n \<le> P * S" using ceil_div_le(2) [OF S, of ?n] by (simp add: P mult.commute)
  obtain vs where reset: "RunningTotal_reset mem P S RunningTotal_init =
      Some \<lparr>rt_values = vs, parts_count = P, part_size = S, rt_size = P * S + 1\<rparr>"
    "length vs = Suc S * P + P + 1" "\<forall>k \<le> P. vs ! (k * Suc S) = 0" using reset_values [OF S] .
  define rt where "rt = \<lparr>rt_values = vs, parts_count = P, part_size = S, rt_size = ?n + 1\<rparr>"
  have size: "rt_set_size (?n + 1) \<lparr>rt_values = vs, parts_count = P, part_size = S, rt_size = P * S + 1\<rparr> = Some rt"
    using le by (simp add: rt_set_size_def rt_def)
  have tasks: "those (map (total_task rt ?plan xs) (slices S ?n)) =
      Some (map (\<lambda>k. enumerate (k * Suc S + 1) (totals_of S xs k)) [0..<P])"
    using total_tasks [OF S, of P xs vs rt ?plan] reset(3) by (simp add: rt_def P xs)
  define v1 where "v1 = store_all (sched (concat (map (\<lambda>k. enumerate (k * Suc S + 1) (totals_of S xs k)) [0..<P]))) vs"
  note v = stored_parts [OF sched reset(2,3) v1_def]
  obtain v2 where v2: "update_summary (rt\<lparr>rt_values := v1\<rparr>) = Some (rt\<lparr>rt_values := v2\<rparr>)"
    "\<forall>k < P. \<forall>j \<le> S. v2 ! (k * Suc S + j) = sum_list (take j (part_of S xs k))"
    "v2 ! (P * Suc S) = 0" "\<forall>k \<le> P. v2 ! (P * Suc S + k) = sum_list (take (k * S) xs)"
    using summed_parts [where rt = "rt\<lparr>rt_values := v1\<rparr>" and P = P and S = S and xs = xs] v by (simp add: rt_def) blast
  have "parallel_running_total sched mem fn items params = Some (rt\<lparr>rt_values := v2\<rparr>)"
    using plan \<open>items \<noteq> []\<close> reset(1) size tasks v2(1)
    by (simp add: parallel_running_total_def xs [symmetric] v1_def rt_def)
  with v2(2-4) le S show ?thesis
    by (intro exI [of _ "rt\<lparr>rt_values := v2\<rparr>"] exI [of _ S] exI [of _ P]) (simp add: rt_def xs)
qed

subsection \<open>Properties\<close>

text \<open>
  C17 (equivalence). \<^verbatim>\<open>parallel_running_total\<close> returns a collection with one more element than the input, whose
  element \<open>i\<close> is the sum (modulo the size of a word) of the first \<open>i\<close> items, for every order of the stores of the tasks
  and whatever was in the memory before; \<^verbatim>\<open>back()\<close> is the sum of all items. No check fails, also for an empty input and
  where the last part is not full, provided that the smallest task size and the greatest number of tasks are both
  between 1 and \<open>2 ^ 63\<close> and that the input has fewer than \<open>2 ^ 63\<close> items.
\<close>

theorem parallel_running_total_sums:
  assumes "\<forall>ws. mset (sched ws) = mset ws" and "params_ok params (length items)"
  shows "\<exists>rt. parallel_running_total sched mem fn items params = Some rt \<and> rt_size rt = length items + 1 \<and>
    (\<forall>i \<le> length items. RunningTotal_at rt i = Some (sum_list (take i (map fn items)))) \<and>
    RunningTotal_back rt = Some (sum_list (map fn items))"
proof (cases "items = []")
  case True
  have "parallel_running_total sched mem fn [] params = Some RunningTotal_init"
    using WorkSlicePlan_ok [OF assms(2)] True by (auto simp: parallel_running_total_def)
  moreover have "RunningTotal_at RunningTotal_init 0 = Some 0"
    by (simp add: RunningTotal_at_def RunningTotal_init_def part_segment_offset_def raw_size_def summary_offset_def
        summary_size_def)
  ultimately show ?thesis using True by (simp add: RunningTotal_back_def RunningTotal_init_def)
next
  case False
  from parallel_running_total_values [OF assms False refl, of mem fn] obtain rt S P where
    run: "parallel_running_total sched mem fn items params = Some rt" and size: "rt_size rt = length (map fn items) + 1"
    and rest: "length (map fn items) \<le> P * S" "0 < S" "parts_count rt = P" "part_size rt = S"
    "\<forall>k < P. \<forall>j \<le> S. rt_values rt ! (k * Suc S + j) = sum_list (take j (part_of S (map fn items) k))"
    "rt_values rt ! (P * Suc S) = 0" "\<forall>k \<le> P. rt_values rt ! (P * Suc S + k) = sum_list (take (k * S) (map fn items))"
    by blast
  have at: "RunningTotal_at rt i = Some (sum_list (take i (map fn items)))" if "i \<le> length items" for i
    by (rule RunningTotal_at_sum [OF rest(1-4) size]) (use rest that in simp_all)
  with run size show ?thesis by (simp add: RunningTotal_back_def)
qed

theorem parallel_running_total_sums_witness:
  "\<exists>rt. parallel_running_total rev (\<lambda>_. 7) of_nat [2, 1, 3, 1, 1] \<lparr>min_task_size = 2, max_tasks = 3\<rparr> = Some rt \<and>
     RunningTotal_back rt = Some 8"
  using parallel_running_total_sums [of rev "\<lparr>min_task_size = 2, max_tasks = 3\<rparr>" "[2, 1, 3, 1, 1 :: nat]" "\<lambda>_. 7" of_nat]
  by (auto simp: params_ok_def)

end
