(* ===== verification/Parallel_Merge.thy ===== *)
theory Parallel_Merge
  imports Work_Slice
begin

section \<open>Parallel merge\<close>

text \<open>
  Models \<^verbatim>\<open>src/src/batteries/algo/parallel_merge.hpp\<close>. The two sorted inputs are cut into shards, first along the
  first input and then along the second one, and the shards are merged by concurrent tasks into disjoint ranges of
  the destination. A range of an input is the list of its items. The tasks only read the inputs, so as in
  \<open>Work_Slice\<close> an execution is the list of all stores in some order. \<^verbatim>\<open>std::merge\<close> is \<open>merge_list\<close>, and
  \<^verbatim>\<open>std::lower_bound\<close> on a range that is partitioned by the comparison counts the items below the value.
\<close>

datatype merge_phase = FirstPhase | SecondPhase | ThirdPhase

definition lower_bound :: "('a \<Rightarrow> 'a \<Rightarrow> bool) \<Rightarrow> 'a list \<Rightarrow> 'a \<Rightarrow> nat" where
  "lower_bound lt xs v = length (takeWhile (\<lambda>x. lt x v) xs)"

text \<open>A \<^verbatim>\<open>usize\<close> converted to \<^verbatim>\<open>isize\<close>.\<close>

definition isize_of :: "nat \<Rightarrow> int" where
  "isize_of n = (if n < 2 ^ 63 then int n else int n - 2 ^ 64)"

text \<open>The loop that moves the end of a shard to the end of its last group of equivalent items: \<open>fixed_shard_back\<close> and
  the items after the shard; the number of items added.\<close>

fun extend_shard :: "('a \<Rightarrow> 'a \<Rightarrow> bool) \<Rightarrow> 'a \<Rightarrow> 'a list \<Rightarrow> nat" where
  "extend_shard lt fixed_shard_back [] = 0"
| "extend_shard lt fixed_shard_back (x # xs) =
     (if \<not> lt fixed_shard_back x then Suc (extend_shard lt x xs) else 0)"

text \<open>The work function of one shard: the ranges of the other input that go with it, and the merge of both.\<close>

type_synonym 'a merge_impl = "'a list \<Rightarrow> 'a list \<Rightarrow> nat \<Rightarrow> (nat \<times> 'a) list option"

definition merge_shard ::
    "('a \<Rightarrow> 'a \<Rightarrow> bool) \<Rightarrow> merge_phase \<Rightarrow> 'a merge_impl \<Rightarrow> bool \<Rightarrow> 'a list \<Rightarrow> 'a list \<Rightarrow> 'a list \<Rightarrow> nat \<Rightarrow> (nat \<times> 'a) list option" where
  "merge_shard lt phase next_impl is_first shard fixed_rest search dst_begin =
     (let search_shard_begin = (if is_first then 0 else lower_bound lt search (hd shard));
          search_shard_end = (if fixed_rest = [] then length search
            else search_shard_begin + lower_bound lt (drop search_shard_begin search) (hd fixed_rest));
          search_shard = drop search_shard_begin (take search_shard_end search);
          dst_shard_begin = dst_begin + search_shard_begin in
      if \<not> search_shard_begin \<le> search_shard_end then None
      else if phase = FirstPhase then next_impl shard search_shard dst_shard_begin
      else next_impl search_shard shard dst_shard_begin)"

text \<open>The loop of \<^verbatim>\<open>parallel_merge_fanout\<close> over the rest of the fixed input.\<close>

function fanout_loop ::
    "('a \<Rightarrow> 'a \<Rightarrow> bool) \<Rightarrow> merge_phase \<Rightarrow> 'a merge_impl \<Rightarrow> nat \<Rightarrow> bool \<Rightarrow> 'a list \<Rightarrow> 'a list \<Rightarrow> nat \<Rightarrow> (nat \<times> 'a) list option" where
  "fanout_loop lt phase next_impl target_sz is_first fixed_part search dst_begin =
     (if fixed_part = [] then Some []
      else let shard_size = min target_sz (length fixed_part) in
        if shard_size = 0 then None
        else let shard_size = shard_size +
                   extend_shard lt (fixed_part ! (shard_size - 1)) (drop shard_size fixed_part);
                 shard = take shard_size fixed_part; rest = drop shard_size fixed_part in
          do {
            ws \<leftarrow> merge_shard lt phase next_impl is_first shard rest search dst_begin;
            ws' \<leftarrow> fanout_loop lt phase next_impl target_sz False rest search (dst_begin + shard_size);
            Some (ws @ ws')
          })"
  by auto
termination by (relation "measure (\<lambda>(_, _, _, _, _, xs, _, _). length xs)") (auto simp: Let_def)

declare fanout_loop.simps [simp del]

definition parallel_merge_fanout ::
    "('a \<Rightarrow> 'a \<Rightarrow> bool) \<Rightarrow> nat \<Rightarrow> nat \<Rightarrow> merge_phase \<Rightarrow> 'a merge_impl \<Rightarrow> 'a list \<Rightarrow> 'a list \<Rightarrow> nat \<Rightarrow> (nat \<times> 'a) list option" where
  "parallel_merge_fanout lt min_size task_limit phase next_impl fixed search dst_begin =
     (let tasks_per_phase = (task_limit + 1) mod 2 ^ 64 div 2 in
      if tasks_per_phase = 0 then None
      else let target_sz = max ((length fixed + tasks_per_phase - 1) mod 2 ^ 64 div tasks_per_phase)
                 ((min_size + 1) mod 2 ^ 64 div 2)
        in fanout_loop lt phase next_impl target_sz True fixed search dst_begin)"

function parallel_merge_impl :: "('a \<Rightarrow> 'a \<Rightarrow> bool) \<Rightarrow> nat \<Rightarrow> nat \<Rightarrow> merge_phase \<Rightarrow> 'a merge_impl" where
  "parallel_merge_impl lt min_size task_limit phase xs ys dst_begin =
     (if xs = [] then Some (enumerate dst_begin ys)
      else if ys = [] then Some (enumerate dst_begin xs)
      else if phase = ThirdPhase \<or> int (length xs) + int (length ys) \<le> isize_of min_size
      then Some (enumerate dst_begin (merge_list lt xs ys))
      else if phase = FirstPhase
      then parallel_merge_fanout lt min_size task_limit phase
             (\<lambda>xs ys d. parallel_merge_impl lt min_size task_limit SecondPhase xs ys d) xs ys dst_begin
      else parallel_merge_fanout lt min_size task_limit phase
             (\<lambda>xs ys d. parallel_merge_impl lt min_size task_limit ThirdPhase xs ys d) ys xs dst_begin)"
  by pat_completeness auto
termination
  by (relation "measure (\<lambda>(_, _, _, phase, _, _, _).
        case phase of FirstPhase \<Rightarrow> 2 | SecondPhase \<Rightarrow> 1 | ThirdPhase \<Rightarrow> (0::nat))")
    (auto split: merge_phase.splits)

declare parallel_merge_impl.simps [simp del]

definition parallel_merge ::
    "((nat \<times> 'a) list \<Rightarrow> (nat \<times> 'a) list) \<Rightarrow> ('a \<Rightarrow> 'a \<Rightarrow> bool) \<Rightarrow> nat \<Rightarrow> nat \<Rightarrow> 'a list \<Rightarrow> 'a list \<Rightarrow> nat \<Rightarrow> 'a list \<Rightarrow>
     'a list option" where
  "parallel_merge sched lt min_size task_limit xs ys dst_begin dst =
     map_option (\<lambda>ws. store_all (sched ws) dst) (parallel_merge_impl lt min_size task_limit FirstPhase xs ys dst_begin)"

subsection \<open>Strict weak orders\<close>

context strict_weak
begin

lemma merge_split:
  assumes "\<forall>y \<in> set ys1. \<forall>x \<in> set xs2. lt y x" and "\<forall>x \<in> set xs1. \<forall>y \<in> set ys2. \<not> lt y x"
  shows "merge_list lt (xs1 @ xs2) (ys1 @ ys2) = merge_list lt xs1 ys1 @ merge_list lt xs2 ys2"
  using assms
proof (induction lt xs1 ys1 rule: merge_list.induct)
  case (1 lt ys1)
  then show ?case
  proof (induction ys1)
    case (Cons y ys1)
    then show ?case by (cases xs2) auto
  qed simp
next
  case (2 lt x xs1)
  then show ?case
  proof (induction "x # xs1" arbitrary: x xs1)
    case (Cons x xs1)
    then show ?case by (cases ys2; cases xs1) auto
  qed
qed auto

text \<open>The cut of a sorted list at \<^verbatim>\<open>lower_bound\<close>.\<close>

lemma lower_bound_cut:
  assumes "sorted_lt ys"
  shows "\<forall>y \<in> set (take (lower_bound lt ys v) ys). lt y v" and "\<forall>y \<in> set (drop (lower_bound lt ys v) ys). \<not> lt y v"
proof -
  have t: "take (lower_bound lt ys v) ys = takeWhile (\<lambda>x. lt x v) ys"
    by (simp add: lower_bound_def takeWhile_eq_take [symmetric])
  have d: "drop (lower_bound lt ys v) ys = dropWhile (\<lambda>x. lt x v) ys"
    by (simp add: lower_bound_def dropWhile_eq_drop [symmetric])
  show "\<forall>y \<in> set (take (lower_bound lt ys v) ys). lt y v" unfolding t by (auto dest: set_takeWhileD)
  show "\<forall>y \<in> set (drop (lower_bound lt ys v) ys). \<not> lt y v"
  proof (cases "dropWhile (\<lambda>x. lt x v) ys")
    case (Cons z zs)
    then have z: "\<not> lt z v" by (metis hd_dropWhile list.distinct(1) list.sel(1))
    have "sorted_lt (z # zs)" using assms Cons by (metis sorted_wrt_append takeWhile_dropWhile_id)
    then show ?thesis unfolding d Cons using z cotrans by auto
  next
    case Nil
    then show ?thesis unfolding d Nil by simp
  qed
qed

lemma lower_bound_drop:
  assumes "\<forall>y \<in> set (take b ys). lt y v" and "b \<le> length ys"
  shows "lower_bound lt ys v = b + lower_bound lt (drop b ys) v"
proof -
  have "takeWhile (\<lambda>x. lt x v) (take b ys @ drop b ys) = take b ys @ takeWhile (\<lambda>x. lt x v) (drop b ys)"
    using assms(1) by (intro takeWhile_append2) auto
  then show ?thesis using assms(2) by (simp add: lower_bound_def)
qed

lemma lower_bound_le: "lower_bound lt ys v \<le> length ys"
  by (simp add: lower_bound_def length_takeWhile_le)

lemma extend_shard_ends:
  "extend_shard lt b ys \<le> length ys \<and>
   (drop (extend_shard lt b ys) ys \<noteq> [] \<longrightarrow> lt (last (b # take (extend_shard lt b ys) ys)) (hd (drop (extend_shard lt b ys) ys)))"
  by (induction lt b ys rule: extend_shard.induct) auto

text \<open>A shard ends where a larger item follows.\<close>

lemma shard_below:
  assumes "sorted_lt xs" and n: "0 < n" "n \<le> length xs"
    and m: "m = n + extend_shard lt (xs ! (n - 1)) (drop n xs)"
  shows "0 < m" and "m \<le> length xs" and "drop m xs \<noteq> [] \<Longrightarrow> x \<in> set (take m xs) \<Longrightarrow> lt x (hd (drop m xs))"
proof -
  let ?e = "extend_shard lt (xs ! (n - 1)) (drop n xs)"
  note e = extend_shard_ends [of "xs ! (n - 1)" "drop n xs"]
  show "0 < m" "m \<le> length xs" using n e m by auto
  assume ne: "drop m xs \<noteq> []" and x: "x \<in> set (take m xs)"
  have "take m xs = take n xs @ take ?e (drop n xs)" by (simp add: m take_add)
  moreover have "take n xs = take (n - 1) xs @ [xs ! (n - 1)]"
    using n by (metis Suc_diff_1 Suc_le_lessD take_Suc_conv_app_nth)
  ultimately have "take m xs = take (n - 1) xs @ (xs ! (n - 1) # take ?e (drop n xs))" by simp
  then have "last (take m xs) = last (xs ! (n - 1) # take ?e (drop n xs))" by simp
  moreover have "drop m xs = drop ?e (drop n xs)" by (simp add: m add.commute)
  ultimately have l: "lt (last (take m xs)) (hd (drop m xs))" using e ne by simp
  have "x = last (take m xs) \<or> \<not> lt (last (take m xs)) x"
  proof -
    have "sorted_lt (butlast (take m xs) @ [last (take m xs)])"
      using assms(1) x by (metis append_butlast_last_id append_take_drop_id emptyE empty_set sorted_wrt_append)
    moreover have "x \<in> set (butlast (take m xs)) \<or> x = last (take m xs)"
      using x by (metis append_butlast_last_id emptyE empty_set in_set_butlast_appendI insertE list.simps(15) rotate1.simps(2) set_rotate1 in_set_conv_decomp Un_iff set_append)
    ultimately show ?thesis by (auto simp: sorted_wrt_append)
  qed
  then show "lt x (hd (drop m xs))" using l cotrans by blast
qed

definition impl_ok :: "'a merge_impl \<Rightarrow> bool" where
  "impl_ok impl \<longleftrightarrow> (\<forall>xs ys d. sorted_lt xs \<longrightarrow> sorted_lt ys \<longrightarrow> length xs < 2 ^ 63 \<longrightarrow> length ys < 2 ^ 63 \<longrightarrow>
     impl xs ys d = Some (enumerate d (merge_list lt xs ys)))"

definition merge_in :: "merge_phase \<Rightarrow> 'a list \<Rightarrow> 'a list \<Rightarrow> 'a list" where
  "merge_in phase fixed search = (if phase = FirstPhase then merge_list lt fixed search else merge_list lt search fixed)"

lemma merge_in_split:
  assumes "\<forall>s \<in> set search1. \<forall>f \<in> set fixed2. lt s f" and "\<forall>f \<in> set fixed1. \<forall>s \<in> set search2. lt f s"
  shows "merge_in phase (fixed1 @ fixed2) (search1 @ search2) = merge_in phase fixed1 search1 @ merge_in phase fixed2 search2"
  using merge_split [of search1 fixed2 fixed1 search2] merge_split [of fixed1 search2 search1 fixed2] assms asym
  by (auto simp: merge_in_def)

lemma length_merge_in: "length (merge_in phase xs ys) = length xs + length ys"
  using arg_cong [OF mset_merge_list, of size lt xs ys] arg_cong [OF mset_merge_list, of size lt ys xs]
  by (simp add: merge_in_def)

text \<open>One shard, with the items of the other input that belong to it.\<close>

lemma merge_shard_ok:
  assumes impl: "impl_ok impl" and sorted: "sorted_lt shard" "sorted_lt search"
    and len: "length shard < 2 ^ 63" "length search < 2 ^ 63"
    and b: "b = (if is_first then 0 else lower_bound lt search (hd shard))"
    and e: "e = (if rest = [] then length search - b else lower_bound lt (drop b search) (hd rest))"
  shows "merge_shard lt phase impl is_first shard rest search d =
    Some (enumerate (d + b) (merge_in phase shard (take e (drop b search))))"
proof -
  have b_le: "b \<le> length search" using b lower_bound_le by simp
  have so: "sorted_lt (take e (drop b search))" using sorted(2) by (simp add: sorted_wrt_drop sorted_wrt_take)
  show ?thesis
  proof (cases "rest = []")
    case True
    with e have "take e (drop b search) = drop b search" by simp
    with True so impl sorted(1) len b_le show ?thesis
      by (simp add: merge_shard_def Let_def b [symmetric] merge_in_def impl_ok_def)
  next
    case False
    with e so impl sorted(1) len show ?thesis
      by (simp add: merge_shard_def Let_def b [symmetric] merge_in_def impl_ok_def drop_take)
  qed
qed

lemma shard_cut:
  assumes "sorted_lt ys" and "sorted_lt rest" and "rest \<noteq> [] \<Longrightarrow> \<forall>f \<in> set shard. lt f (hd rest)"
    and e: "e = (if rest = [] then length ys else lower_bound lt ys (hd rest))"
  shows "\<forall>s \<in> set (take e ys). \<forall>f \<in> set rest. lt s f" and "\<forall>f \<in> set shard. \<forall>s \<in> set (drop e ys). lt f s"
proof -
  have "\<not> lt f (hd rest)" if "f \<in> set rest" for f
    using that assms(2) asym by (cases rest) auto
  moreover have "rest \<noteq> [] \<Longrightarrow> \<forall>s \<in> set (take e ys). lt s (hd rest)" using lower_bound_cut(1) [OF assms(1)] e by simp
  ultimately show "\<forall>s \<in> set (take e ys). \<forall>f \<in> set rest. lt s f"
    using cotrans by (cases "rest = []") (simp, blast)
  have "rest \<noteq> [] \<Longrightarrow> \<forall>s \<in> set (drop e ys). \<not> lt s (hd rest)" using lower_bound_cut(2) [OF assms(1)] e by simp
  then show "\<forall>f \<in> set shard. \<forall>s \<in> set (drop e ys). lt f s"
    using assms(3) cotrans e by (cases "rest = []") (simp, blast)
qed

lemma fanout_loop_ok:
  assumes impl: "impl_ok impl" and t: "0 < t" and "sorted_lt fixed" and sorted: "sorted_lt search"
    and "b = (if is_first then 0 else if fixed = [] then length search else lower_bound lt search (hd fixed))"
    and "fixed = [] \<Longrightarrow> \<not> is_first" and "length fixed < 2 ^ 63" and len: "length search < 2 ^ 63"
  shows "fanout_loop lt phase impl t is_first fixed search d = Some (enumerate (d + b) (merge_in phase fixed (drop b search)))"
  using assms(3,5-7)
proof (induction "length fixed" arbitrary: fixed is_first b d rule: less_induct)
  case less
  show ?case
  proof (cases "fixed = []")
    case True
    with less.prems show ?thesis by (simp add: fanout_loop.simps merge_in_def)
  next
    case False
    define n where "n = min t (length fixed)"
    have n: "0 < n" "n \<le> length fixed" using t False by (simp_all add: n_def)
    define m where "m = n + extend_shard lt (fixed ! (n - 1)) (drop n fixed)"
    note m = shard_below [OF less.prems(1) n m_def]
    let ?shard = "take m fixed" and ?rest = "drop m fixed"
    have so: "sorted_lt ?shard" "sorted_lt ?rest" using less.prems(1) by (simp_all add: sorted_wrt_drop sorted_wrt_take)
    have hd: "hd ?shard = hd fixed" using m(1) by (simp add: hd_take)
    have b: "b = (if is_first then 0 else lower_bound lt search (hd ?shard))" using less.prems(2) False hd by simp
    define e where "e = (if ?rest = [] then length search - b else lower_bound lt (drop b search) (hd ?rest))"
    define b' where "b' = (if ?rest = [] then length search else lower_bound lt search (hd ?rest))"
    have b_le: "b \<le> length search" using b lower_bound_le by simp
    have "\<forall>y \<in> set (take b search). lt y (hd ?rest)" if "?rest \<noteq> []"
    proof (cases is_first)
      case True
      with b show ?thesis by simp
    next
      case nf: False
      have "\<not> lt (hd ?rest) (hd ?shard)"
        using asym m(3) [OF that, of "hd ?shard"] m(1) False by (metis hd_in_set take_eq_Nil less_not_refl)
      then show ?thesis using lower_bound_cut(1) [OF sorted, of "hd ?shard"] b nf cotrans by auto
    qed
    then have be: "b' = b + e" using lower_bound_drop [of b search "hd ?rest"] b_le by (auto simp: b'_def e_def)
    have shard: "merge_shard lt phase impl is_first ?shard ?rest search d =
        Some (enumerate (d + b) (merge_in phase ?shard (take e (drop b search))))"
      by (rule merge_shard_ok [OF impl so(1) sorted _ len b e_def]) (use less.prems(4) in simp)
    have "length ?rest < length fixed" using m(1,2) by simp
    from less.hyps [OF this so(2), of b' False "d + m"]
    have rest: "fanout_loop lt phase impl t False ?rest search (d + m) =
        Some (enumerate (d + m + b') (merge_in phase ?rest (drop b' search)))" using less.prems(4) by (simp add: b'_def)
    have "sorted_lt (drop b search)" using sorted by (simp add: sorted_wrt_drop)
    note cut = shard_cut [OF this so(2), of ?shard e]
    have "merge_in phase (?shard @ ?rest) (take e (drop b search) @ drop e (drop b search)) =
        merge_in phase ?shard (take e (drop b search)) @ merge_in phase ?rest (drop e (drop b search))"
      by (rule merge_in_split) (use cut m(3) e_def in simp_all)
    then have "merge_in phase fixed (drop b search) =
        merge_in phase ?shard (take e (drop b search)) @ merge_in phase ?rest (drop e (drop b search))"
      by (simp only: append_take_drop_id)
    moreover have "drop e (drop b search) = drop b' search" by (simp add: be add.commute)
    moreover have "length (merge_in phase ?shard (take e (drop b search))) = m + e"
      using m(2) be b'_def lower_bound_le [of search "hd ?rest"] by (auto simp: length_merge_in split: if_splits)
    ultimately have "enumerate (d + b) (merge_in phase fixed (drop b search)) =
        enumerate (d + b) (merge_in phase ?shard (take e (drop b search))) @
        enumerate (d + m + b') (merge_in phase ?rest (drop b' search))"
      by (simp only: enumerate_append_eq be) (simp add: add.assoc add.left_commute)
    then show ?thesis using False n shard rest
      by (subst fanout_loop.simps) (simp add: Let_def n_def [symmetric] m_def [unfolded One_nat_def, symmetric])
  qed
qed

lemma fanout_ok:
  assumes "impl_ok impl" and "sorted_lt fixed" and "sorted_lt search" and "fixed \<noteq> []"
    and "length fixed < 2 ^ 63" and "length search < 2 ^ 63" and "0 < lim" and "lim < 2 ^ 64 - 1"
  shows "parallel_merge_fanout lt mn lim phase impl fixed search d = Some (enumerate d (merge_in phase fixed search))"
proof -
  define t where "t = (lim + 1) mod 2 ^ 64 div 2"
  have t: "0 < t" "t \<le> 2 ^ 63" using assms(7,8) by (simp_all add: t_def div_greater_zero_iff)
  then have "(length fixed + t - 1) mod 2 ^ 64 = length fixed + t - 1" using assms(5) by simp
  moreover have "t \<le> length fixed + t - 1" using assms(4) by (cases fixed) auto
  then have "0 < (length fixed + t - 1) div t" using t by (simp add: div_greater_zero_iff)
  ultimately have pos: "0 < max ((length fixed + t - 1) mod 2 ^ 64 div t) ((mn + 1) mod 2 ^ 64 div 2)" by simp
  from fanout_loop_ok [OF assms(1) this assms(2,3) refl _ assms(5,6), of True phase d] assms(4) t(1)
  show ?thesis unfolding parallel_merge_fanout_def t_def [symmetric] Let_def by simp
qed

lemma parallel_merge_impl_ok:
  assumes lim: "0 < lim" "lim < 2 ^ 64 - 1"
  shows "impl_ok (parallel_merge_impl lt mn lim phase)"
proof -
  have base: "impl_ok (parallel_merge_impl lt mn lim phase)"
    if "\<And>xs ys d. \<lbrakk>phase \<noteq> ThirdPhase; sorted_lt xs; sorted_lt ys; xs \<noteq> []; ys \<noteq> []; length xs < 2 ^ 63; length ys < 2 ^ 63\<rbrakk> \<Longrightarrow>
      (if phase = FirstPhase
       then parallel_merge_fanout lt mn lim phase (\<lambda>xs ys d. parallel_merge_impl lt mn lim SecondPhase xs ys d) xs ys d
       else parallel_merge_fanout lt mn lim phase (\<lambda>xs ys d. parallel_merge_impl lt mn lim ThirdPhase xs ys d) ys xs d) =
      Some (enumerate d (merge_list lt xs ys))" for phase
    unfolding impl_ok_def
  proof (intro allI impI)
    fix xs ys :: "'a list" and d
    assume xy: "sorted_lt xs" "sorted_lt ys" "length xs < 2 ^ 63" "length ys < 2 ^ 63"
    show "parallel_merge_impl lt mn lim phase xs ys d = Some (enumerate d (merge_list lt xs ys))"
      unfolding parallel_merge_impl.simps [of lt mn lim phase] using that [OF _ xy(1,2) _ _ xy(3,4), of d]
      by (cases "xs = []"; cases "ys = []"; cases "phase = ThirdPhase") simp_all
  qed
  have third: "impl_ok (parallel_merge_impl lt mn lim ThirdPhase)" by (rule base) simp
  have second: "impl_ok (parallel_merge_impl lt mn lim SecondPhase)"
    by (rule base) (simp add: fanout_ok [OF third _ _ _ _ _ lim] merge_in_def)
  have "impl_ok (parallel_merge_impl lt mn lim FirstPhase)"
    by (rule base) (simp add: fanout_ok [OF second _ _ _ _ _ lim] merge_in_def)
  with second third show ?thesis by (cases phase) simp_all
qed

end

subsection \<open>Properties\<close>

text \<open>
  C14 (equivalence). \<^verbatim>\<open>parallel_merge\<close> of two sorted ranges does what the stable \<^verbatim>\<open>std::merge\<close> does, for every comparison
  that is a strict weak order, every smallest task size, every number of tasks (at least one and below
  \<^verbatim>\<open>SIZE_MAX\<close>, with which \<^verbatim>\<open>(max_tasks + 1) / 2\<close> wraps to the divisor 0) and every order of the stores of the
  concurrent tasks: no check fails, the shards cover the inputs and write disjoint ranges of the destination, also
  where equivalent items lie at a cut.
\<close>

theorem parallel_merge_equals_merge:
  assumes "strict_weak lt" and "\<forall>ws. mset (sched ws) = mset ws" and "0 < lim" and "lim < 2 ^ 64 - 1"
    and "sorted_wrt (\<lambda>x y. \<not> lt y x) xs" and "sorted_wrt (\<lambda>x y. \<not> lt y x) ys"
    and "length xs < 2 ^ 63" and "length ys < 2 ^ 63" and "d + length xs + length ys \<le> length dst"
  shows "parallel_merge sched lt mn lim xs ys d dst =
    Some (take d dst @ merge_list lt xs ys @ drop (d + length xs + length ys) dst)"
proof -
  have len: "length (merge_list lt xs ys) = length xs + length ys"
    using arg_cong [OF mset_merge_list, of size lt xs ys] by simp
  have "parallel_merge_impl lt mn lim FirstPhase xs ys d = Some (enumerate d (merge_list lt xs ys))"
    using strict_weak.parallel_merge_impl_ok [OF assms(1,3,4)] assms(5-8) by (simp add: strict_weak.impl_ok_def [OF assms(1)])
  moreover have "store_all (sched (enumerate d (merge_list lt xs ys))) dst =
      take d dst @ merge_list lt xs ys @ drop (d + length xs + length ys) dst"
    using store_all_order [OF distinct_enumerate assms(2) [rule_format], of d "merge_list lt xs ys" dst]
      store_all_enumerate [of d "merge_list lt xs ys" dst] len assms(9) by (simp add: add.assoc)
  ultimately show ?thesis by (simp add: parallel_merge_def)
qed

theorem parallel_merge_equals_merge_witness:
  "parallel_merge rev (<) 2 4 [1, 3, 3, 5] [2, 3, 4] 1 [0, 0, 0, 0, 0, 0, 0, 0] = Some [0, 1, 2, 3, 3, 3, 4, 5 :: nat]"
  using parallel_merge_equals_merge [OF less_order.strict_weak_axioms, of rev 4 "[1, 3, 3, 5 :: nat]" "[2, 3, 4]" 1
      "[0, 0, 0, 0, 0, 0, 0, 0]" 2] by simp

text \<open>
  With no task allowed (\<^verbatim>\<open>max_tasks\<close> of 0, which is the default \<^verbatim>\<open>hardware_concurrency() / 2\<close> on a machine with
  one processor) a merge of two ranges that together exceed the smallest task size divides by zero.
\<close>

theorem parallel_merge_no_tasks_fails:
  assumes "xs \<noteq> []" and "ys \<noteq> []" and "mn < 2 ^ 63" and "mn < length xs + length ys"
  shows "parallel_merge sched lt mn 0 xs ys d dst = None"
  using assms by (simp add: parallel_merge_def parallel_merge_impl.simps [of lt mn 0 FirstPhase] isize_of_def
      parallel_merge_fanout_def)

theorem parallel_merge_no_tasks_fails_witness: "parallel_merge rev (<) 1 0 [1, 3] [2] 0 [0, 0, 0 :: nat] = None"
  using parallel_merge_no_tasks_fails [of "[1, 3]" "[2]" 1 rev "(<)" 0 "[0, 0, 0 :: nat]"] by simp

end
