(* ===== verification/Batt_Interval.thy ===== *)
theory Batt_Interval
  imports Batt_Prelude
begin

section \<open>Intervals\<close>

text \<open>
  Models \<^verbatim>\<open>BasicInterval\<close> of \<^verbatim>\<open>src/src/batteries/interval.hpp\<close> with its two kinds of bounds
  (\<^verbatim>\<open>interval_traits.hpp\<close>): half-open (\<^verbatim>\<open>Interval\<close>) and closed (\<^verbatim>\<open>CInterval\<close>). The bounds are integers of a
  64-bit type, and arithmetic on them is assumed not to overflow, but for \<^verbatim>\<open>size\<close>, whose result wraps to a \<^verbatim>\<open>ptrdiff_t\<close>; the
  specification of an interval is the set \<open>elems\<close> of the numbers it contains.
\<close>

datatype interval_kind = IClosedOpen | IClosed

record BasicInterval =
  lower_bnd :: int
  upper_bnd :: int

abbreviation ival :: "int \<Rightarrow> int \<Rightarrow> BasicInterval" where
  "ival l u \<equiv> \<lparr>lower_bnd = l, upper_bnd = u\<rparr>"

subsection \<open>Traits\<close>

definition least_upper_bound :: "int \<Rightarrow> int" where
  "least_upper_bound n = n + 1"

definition Traits_size :: "interval_kind \<Rightarrow> int \<Rightarrow> int \<Rightarrow> int" where
  "Traits_size k lower upper =
     sint (case k of IClosedOpen \<Rightarrow> of_int upper - of_int lower :: 64 word | IClosed \<Rightarrow> of_int upper - of_int lower + 1)"

definition Traits_empty :: "interval_kind \<Rightarrow> int \<Rightarrow> int \<Rightarrow> bool" where
  "Traits_empty k lower upper = (case k of IClosedOpen \<Rightarrow> upper \<le> lower | IClosed \<Rightarrow> upper < lower)"

definition lower_includes_x :: "int \<Rightarrow> int \<Rightarrow> bool" where
  "lower_includes_x lower x \<longleftrightarrow> lower \<le> x"

definition x_included_by_upper :: "interval_kind \<Rightarrow> int \<Rightarrow> int \<Rightarrow> bool" where
  "x_included_by_upper k x upper = (case k of IClosedOpen \<Rightarrow> x < upper | IClosed \<Rightarrow> x \<le> upper)"

definition Traits_adjacent :: "interval_kind \<Rightarrow> int \<Rightarrow> int \<Rightarrow> int \<Rightarrow> int \<Rightarrow> bool" where
  "Traits_adjacent k a_lower a_upper b_lower b_upper =
     (case k of
        IClosedOpen \<Rightarrow> \<not> a_upper < b_lower \<and> \<not> b_upper < a_lower
      | IClosed \<Rightarrow> lower_includes_x a_lower (least_upper_bound b_upper) \<and>
          x_included_by_upper IClosed b_lower (least_upper_bound a_upper))"

subsection \<open>Operations\<close>

definition interval_size :: "interval_kind \<Rightarrow> BasicInterval \<Rightarrow> int" where
  "interval_size k i = Traits_size k (lower_bnd i) (upper_bnd i)"

definition interval_empty :: "interval_kind \<Rightarrow> BasicInterval \<Rightarrow> bool" where
  "interval_empty k i = Traits_empty k (lower_bnd i) (upper_bnd i)"

definition contains :: "interval_kind \<Rightarrow> BasicInterval \<Rightarrow> int \<Rightarrow> bool" where
  "contains k i item \<longleftrightarrow> lower_includes_x (lower_bnd i) item \<and> x_included_by_upper k item (upper_bnd i)"

definition adjacent_to :: "interval_kind \<Rightarrow> BasicInterval \<Rightarrow> BasicInterval \<Rightarrow> bool" where
  "adjacent_to k i that = Traits_adjacent k (lower_bnd i) (upper_bnd i) (lower_bnd that) (upper_bnd that)"

definition union_with :: "BasicInterval \<Rightarrow> BasicInterval \<Rightarrow> BasicInterval" where
  "union_with i that = ival (min (lower_bnd i) (lower_bnd that)) (max (upper_bnd i) (upper_bnd that))"

definition overlaps :: "interval_kind \<Rightarrow> BasicInterval \<Rightarrow> BasicInterval \<Rightarrow> bool" where
  "overlaps k i that \<longleftrightarrow> \<not> Traits_empty k (lower_bnd that) (upper_bnd i) \<and> \<not> Traits_empty k (lower_bnd i) (upper_bnd that)"

definition intersection_with :: "interval_kind \<Rightarrow> BasicInterval \<Rightarrow> BasicInterval \<Rightarrow> BasicInterval" where
  "intersection_with k this that =
     (let i = ival (max (lower_bnd this) (lower_bnd that)) (min (upper_bnd this) (upper_bnd that)) in
      if interval_empty k i then ival (lower_bnd this) (lower_bnd this) else i)"

definition without :: "interval_kind \<Rightarrow> BasicInterval \<Rightarrow> BasicInterval \<Rightarrow> BasicInterval list" where
  "without k this that =
     (if interval_empty k this then []
      else let first = ival (lower_bnd this) (min (upper_bnd this) (lower_bnd that));
               second = ival (max (lower_bnd this) (upper_bnd that)) (upper_bnd this) in
        if adjacent_to k first second then [this]
        else (if \<not> interval_empty k first then [first] else []) @ (if \<not> interval_empty k second then [second] else []))"

definition shift_up :: "int \<Rightarrow> BasicInterval \<Rightarrow> BasicInterval" where
  "shift_up d i = ival (lower_bnd i + d) (upper_bnd i + d)"

definition shift_down :: "int \<Rightarrow> BasicInterval \<Rightarrow> BasicInterval" where
  "shift_down d i = ival (lower_bnd i - d) (upper_bnd i - d)"

definition LinearOrder :: "interval_kind \<Rightarrow> BasicInterval \<Rightarrow> BasicInterval \<Rightarrow> bool" where
  "LinearOrder k l r = Traits_empty k (lower_bnd r) (upper_bnd l)"

definition LinearOrder_item_left :: "int \<Rightarrow> BasicInterval \<Rightarrow> bool" where
  "LinearOrder_item_left l r \<longleftrightarrow> \<not> lower_includes_x (lower_bnd r) l"

definition LinearOrder_item_right :: "interval_kind \<Rightarrow> BasicInterval \<Rightarrow> int \<Rightarrow> bool" where
  "LinearOrder_item_right k l r \<longleftrightarrow> \<not> x_included_by_upper k r (upper_bnd l)"

definition LexicographicalOrder :: "BasicInterval \<Rightarrow> BasicInterval \<Rightarrow> bool" where
  "LexicographicalOrder l r \<longleftrightarrow> lower_bnd l < lower_bnd r \<or> (lower_bnd l = lower_bnd r \<and> upper_bnd l < upper_bnd r)"

definition interval_push_back :: "int \<Rightarrow> BasicInterval \<Rightarrow> BasicInterval" where
  "interval_push_back delta i = ival (lower_bnd i) (upper_bnd i + delta)"

definition interval_push_front :: "int \<Rightarrow> BasicInterval \<Rightarrow> BasicInterval" where
  "interval_push_front delta i = ival (lower_bnd i - delta) (upper_bnd i)"

definition interval_pop_back :: "int \<Rightarrow> BasicInterval \<Rightarrow> BasicInterval" where
  "interval_pop_back delta i = ival (lower_bnd i) (upper_bnd i - delta)"

definition interval_pop_front :: "int \<Rightarrow> BasicInterval \<Rightarrow> BasicInterval" where
  "interval_pop_front delta i = ival (lower_bnd i + delta) (upper_bnd i)"

subsection \<open>Intervals as sets\<close>

definition elems :: "interval_kind \<Rightarrow> BasicInterval \<Rightarrow> int set" where
  "elems k i = {x. contains k i x}"

lemma elems_eq: "elems k i = (case k of IClosedOpen \<Rightarrow> {lower_bnd i..<upper_bnd i} | IClosed \<Rightarrow> {lower_bnd i..upper_bnd i})"
  by (cases k) (auto simp: elems_def contains_def lower_includes_x_def x_included_by_upper_def)

lemmas interval_defs = interval_size_def interval_empty_def adjacent_to_def union_with_def overlaps_def
  intersection_with_def LinearOrder_def Traits_size_def Traits_empty_def Traits_adjacent_def Let_def

lemma interval_empty_elems: "interval_empty k i \<longleftrightarrow> elems k i = {}"
  by (cases k) (auto simp: interval_defs elems_eq)



text \<open>The size of an interval with reversed bounds is negative, and that of a larger interval wraps.\<close>

lemma interval_size_unusual:
  "interval_size IClosedOpen (ival 5 3) = - 2" "interval_size IClosedOpen (ival 0 (2 ^ 63)) = - (2 ^ 63)"
  by (simp_all add: interval_size_def Traits_size_def)


lemma union_elems: "elems k i \<union> elems k j \<subseteq> elems k (union_with i j)"
  by (cases k) (auto simp: interval_defs elems_eq)




text \<open>The first number above an interval.\<close>

definition top_of :: "interval_kind \<Rightarrow> BasicInterval \<Rightarrow> int" where
  "top_of k i = (case k of IClosedOpen \<Rightarrow> upper_bnd i | IClosed \<Rightarrow> upper_bnd i + 1)"

lemma elems_top: "elems k i = {lower_bnd i..<top_of k i}"
  by (cases k) (auto simp: elems_eq top_of_def)


lemma LinearOrder_elems:
  "\<not> interval_empty k i \<Longrightarrow> \<not> interval_empty k j \<Longrightarrow> LinearOrder k i j \<longleftrightarrow> (\<forall>x \<in> elems k i. \<forall>y \<in> elems k j. x < y)"
proof -
  assume ne: "\<not> interval_empty k i" "\<not> interval_empty k j"
  have "LinearOrder k i j \<longleftrightarrow> top_of k i \<le> lower_bnd j" by (cases k) (auto simp: interval_defs top_of_def)
  moreover have "top_of k i \<le> lower_bnd j" if "\<forall>x \<in> elems k i. \<forall>y \<in> elems k j. x < y"
  proof -
    have "top_of k i - 1 \<in> elems k i" "lower_bnd j \<in> elems k j"
      using ne by (simp_all add: interval_empty_elems elems_top)
    with that have "top_of k i - 1 < lower_bnd j" by blast
    then show ?thesis by simp
  qed
  ultimately show ?thesis by (auto simp: elems_top)
qed

lemma LexicographicalOrder_total:
  "\<not> LexicographicalOrder i i" "LexicographicalOrder i j \<Longrightarrow> LexicographicalOrder j k \<Longrightarrow> LexicographicalOrder i k"
  "LexicographicalOrder i j \<or> i = j \<or> LexicographicalOrder j i"
  by (cases i; cases j; auto simp: LexicographicalOrder_def)+

subsection \<open>Properties\<close>


text \<open>
  The same code is wrong for closed intervals: the intersection of a closed interval with a disjoint one is not
  empty but contains the lower bound of the first, and removing an interval from the inside of another one leaves its
  end points in the result, or all of it where no number lies between them.
\<close>

theorem CInterval_operations_wrong:
  assumes "\<not> interval_empty IClosed i" and "elems IClosed i \<inter> elems IClosed j = {}" and "\<not> interval_empty IClosed j"
    and "lower_bnd i < l" and "l \<le> u" and "u < upper_bnd i"
  shows "elems IClosed (intersection_with IClosed i j) = {lower_bnd i} \<and>
    {l, u} \<subseteq> (\<Union>p \<in> set (without IClosed i (ival l u)). elems IClosed p) \<and>
    without IClosed i (ival l (l + 1)) = [i]"
  using assms
  by (auto simp: without_def interval_defs elems_eq lower_includes_x_def x_included_by_upper_def least_upper_bound_def)

theorem CInterval_operations_wrong_witness:
  "elems IClosed (intersection_with IClosed (ival 1 5) (ival 7 9)) = {1} \<and>
   {3, 4} \<subseteq> (\<Union>p \<in> set (without IClosed (ival 1 5) (ival 3 4)). elems IClosed p)"
proof -
  have "\<not> interval_empty IClosed (ival 1 5)" "elems IClosed (ival 1 5) \<inter> elems IClosed (ival 7 9) = {}"
    "\<not> interval_empty IClosed (ival 7 9)" by (auto simp: interval_defs elems_eq)
  from CInterval_operations_wrong [OF this, of 3 4] show ?thesis by auto
qed

end
