(* ===== verification/Batt_Latch.thy ===== *)
theory Batt_Latch
  imports Batt_Status
begin

section \<open>Latch: a write-once value\<close>

text \<open>
  Models \<^verbatim>\<open>src/src/batteries/async/latch.hpp\<close> for any number of threads that set, poll, await and invalidate one latch. A step
  is one access to the watch \<^verbatim>\<open>state_\<close> or to \<^verbatim>\<open>value_\<close>, which is not atomic: a thread reads it only after it
  has seen \<^verbatim>\<open>kReady\<close>. Here \<open>'a\<close> stands for \<^verbatim>\<open>StatusOr<T>\<close>. The handler of \<open>async_get\<close> is registered again until it is called
  with \<^verbatim>\<open>kReady\<close> or with the status of a closed watch; it then reads the value without reading the state again. A failed
  check is \<open>L_Panic\<close>.
\<close>

definition kInitial :: nat where "kInitial = 0"
definition kSetting :: nat where "kSetting = 1"
definition kReady :: nat where "kReady = 3"

lemmas latch_states = kInitial_def kSetting_def kReady_def

text \<open>Calls in progress: before \<^verbatim>\<open>fetch_or\<close>, before \<^verbatim>\<open>emplace\<close>, before \<^verbatim>\<open>set_value(kReady)\<close>; waiting; polling; before each
  check of \<^verbatim>\<open>get_ready_value_or_panic\<close>; and the results.\<close>

datatype 'a latch_pc =
    L_Idle
  | L_Set 'a | L_Emplace 'a | L_Publish | L_SetDone bool
  | L_Await | L_AsyncGet | L_Poll | L_Check | L_Read
  | L_Value 'a | L_Status StatusCode | L_Panic

record 'a latch =
  latch_state :: nat
  latch_open :: bool
  latch_value :: "'a option"
  latch_threads :: "'a latch_pc list"
  latch_accepted :: "'a list"

definition latch_init :: "nat \<Rightarrow> 'a latch" where
  "latch_init n = \<lparr>latch_state = kInitial, latch_open = True, latch_value = None, latch_threads = replicate n L_Idle,
     latch_accepted = []\<rparr>"

text \<open>What a thread may do next, with the ghost list of the values of calls of \<^verbatim>\<open>set_value\<close> that return true. \<open>saw_closed\<close> is
  whether a wait notices that the watch is closed before it notices that the latch is ready.\<close>

definition async_get_step :: "bool \<Rightarrow> 'a latch \<Rightarrow> ('a latch_pc \<times> 'a latch) option" where
  "async_get_step saw_closed l =
     (if saw_closed \<and> \<not> latch_open l then Some (L_Status kClosed, l)
      else if latch_state l = kReady then Some (L_Read, l)
      else None)"

definition latch_thread_step :: "bool \<Rightarrow> 'a latch_pc \<Rightarrow> 'a latch \<Rightarrow> ('a latch_pc \<times> 'a latch) option" where
  "latch_thread_step saw_closed pc l =
     (case pc of
        L_Set v \<Rightarrow>
          let prior_state = latch_state l;
              l = l\<lparr>latch_state := or prior_state kSetting\<rparr> in
          if prior_state \<noteq> kInitial then Some (L_SetDone False, l) else Some (L_Emplace v, l)
      | L_Emplace v \<Rightarrow> Some (L_Publish, l\<lparr>latch_value := Some v\<rparr>)
      | L_Publish \<Rightarrow>
          Some (L_SetDone True, l\<lparr>latch_state := kReady, latch_accepted := latch_accepted l @ [the (latch_value l)]\<rparr>)
      | L_Await \<Rightarrow>
          if saw_closed \<and> \<not> latch_open l then Some (L_Status kClosed, l)
          else if latch_state l = kReady then Some (L_Check, l)
          else None
      | L_AsyncGet \<Rightarrow> async_get_step saw_closed l
      | L_Poll \<Rightarrow> if latch_state l \<noteq> kReady then Some (L_Status kUnavailable, l) else Some (L_Check, l)
      | L_Check \<Rightarrow> if latch_state l \<noteq> kReady then Some (L_Panic, l) else Some (L_Read, l)
      | L_Read \<Rightarrow> (case latch_value l of None \<Rightarrow> Some (L_Panic, l) | Some v \<Rightarrow> Some (L_Value v, l))
      | _ \<Rightarrow> None)"

fun finished :: "'a latch_pc \<Rightarrow> bool" where
  "finished L_Idle = True"
| "finished (L_SetDone _) = True"
| "finished (L_Value _) = True"
| "finished (L_Status _) = True"
| "finished _ = False"

fun latch_entry :: "'a latch_pc \<Rightarrow> bool" where
  "latch_entry (L_Set _) = True"
| "latch_entry L_Await = True"
| "latch_entry L_AsyncGet = True"
| "latch_entry L_Poll = True"
| "latch_entry _ = False"

inductive latch_step :: "'a latch \<Rightarrow> 'a latch \<Rightarrow> bool" where
  run: "i < length (latch_threads l) \<Longrightarrow> latch_thread_step b (latch_threads l ! i) l = Some (pc, l') \<Longrightarrow>
     latch_step l (l'\<lparr>latch_threads := (latch_threads l')[i := pc]\<rparr>)"
| call: "i < length (latch_threads l) \<Longrightarrow> finished (latch_threads l ! i) \<Longrightarrow> latch_entry pc \<Longrightarrow>
     latch_step l (l\<lparr>latch_threads := (latch_threads l)[i := pc]\<rparr>)"
| invalidate: "latch_step l (l\<lparr>latch_open := False\<rparr>)"

subsection \<open>The invariant\<close>

fun setting :: "'a latch_pc \<Rightarrow> bool" where
  "setting (L_Emplace _) = True"
| "setting L_Publish = True"
| "setting _ = False"

definition latch_pc_ok :: "'a latch \<Rightarrow> 'a latch_pc \<Rightarrow> bool" where
  "latch_pc_ok l pc = (case pc of
       L_Emplace _ \<Rightarrow> latch_state l = kSetting \<and> latch_value l = None
     | L_Publish \<Rightarrow> latch_state l = kSetting \<and> latch_value l \<noteq> None
     | L_Check \<Rightarrow> latch_state l = kReady
     | L_Read \<Rightarrow> latch_state l = kReady
     | L_Value v \<Rightarrow> latch_state l = kReady \<and> latch_value l = Some v
     | L_SetDone _ \<Rightarrow> latch_state l \<noteq> kInitial
     | L_Panic \<Rightarrow> False
     | _ \<Rightarrow> True)"

definition latch_inv :: "'a latch \<Rightarrow> bool" where
  "latch_inv l \<longleftrightarrow>
     (\<forall>pc \<in> set (latch_threads l). latch_pc_ok l pc) \<and>
     (\<forall>i < length (latch_threads l). \<forall>j < length (latch_threads l).
        setting (latch_threads l ! i) \<longrightarrow> setting (latch_threads l ! j) \<longrightarrow> i = j) \<and>
     (latch_state l = kInitial \<or> latch_state l = kSetting \<or> latch_state l = kReady) \<and>
     (latch_state l = kInitial \<longrightarrow> latch_value l = None) \<and>
     (latch_state l = kReady \<longleftrightarrow> latch_accepted l \<noteq> []) \<and>
     (latch_accepted l = [] \<or> (\<exists>v. latch_value l = Some v \<and> latch_accepted l = [v]))"

lemma latch_init_inv: "latch_inv (latch_init n)"
  by (auto simp: latch_inv_def latch_init_def latch_pc_ok_def latch_states)

text \<open>One thread moves and the shared part changes: what is left to show of the invariant.\<close>

lemma latch_inv_move:
  assumes "latch_inv l" "i < length (latch_threads l)" "latch_threads l' = latch_threads l"
    and others: "\<And>j. j < length (latch_threads l) \<Longrightarrow> j \<noteq> i \<Longrightarrow> latch_pc_ok l (latch_threads l ! j) \<Longrightarrow>
          (setting (latch_threads l ! i) \<Longrightarrow> \<not> setting (latch_threads l ! j)) \<Longrightarrow>
          latch_pc_ok l' (latch_threads l ! j) \<and> (setting pc' \<longrightarrow> \<not> setting (latch_threads l ! j))"
    and own: "latch_pc_ok l' pc'"
    and shared: "latch_state l' = kInitial \<or> latch_state l' = kSetting \<or> latch_state l' = kReady"
      "latch_state l' = kInitial \<longrightarrow> latch_value l' = None"
      "latch_state l' = kReady \<longleftrightarrow> latch_accepted l' \<noteq> []"
      "latch_accepted l' = [] \<or> (\<exists>v. latch_value l' = Some v \<and> latch_accepted l' = [v])"
  shows "latch_inv (l'\<lparr>latch_threads := (latch_threads l')[i := pc']\<rparr>)"
proof -
  have one: "setting (latch_threads l ! i) \<Longrightarrow> j < length (latch_threads l) \<Longrightarrow> j \<noteq> i \<Longrightarrow>
      \<not> setting (latch_threads l ! j)" for j
    using assms(1,2) unfolding latch_inv_def by blast
  have ok: "latch_pc_ok l (latch_threads l ! j)" if "j < length (latch_threads l)" for j
    using assms(1) that unfolding latch_inv_def by (metis nth_mem)
  have pcs: "latch_pc_ok l' (latch_threads l ! j) \<and> (setting pc' \<longrightarrow> \<not> setting (latch_threads l ! j))"
    if "j < length (latch_threads l)" "j \<noteq> i" for j
    using others [OF that ok [OF that(1)]] one that by blast
  let ?m = "l'\<lparr>latch_threads := (latch_threads l')[i := pc']\<rparr>"
  have same: "latch_pc_ok ?m = latch_pc_ok l'"
    by (rule ext) (simp add: latch_pc_ok_def split: latch_pc.splits)
  have 1: "\<forall>pc \<in> set (latch_threads ?m). latch_pc_ok ?m pc"
    unfolding same using pcs own assms(2,3) by (auto simp: in_set_conv_nth nth_list_update split: if_splits)
  have 2: "\<forall>a < length (latch_threads ?m). \<forall>b < length (latch_threads ?m).
      setting (latch_threads ?m ! a) \<longrightarrow> setting (latch_threads ?m ! b) \<longrightarrow> a = b"
  proof (intro allI impI)
    fix a b
    assume ab: "a < length (latch_threads ?m)" "b < length (latch_threads ?m)"
      and st: "setting (latch_threads ?m ! a)" "setting (latch_threads ?m ! b)"
    show "a = b"
    proof (cases "a = i \<or> b = i")
      case True
      then show ?thesis
        using ab st pcs assms(2,3) by (auto simp: nth_list_update split: if_splits)
    next
      case False
      then show ?thesis
        using ab st assms(1,3) unfolding latch_inv_def by simp
    qed
  qed
  show ?thesis
    unfolding latch_inv_def using 1 2 shared by simp
qed

text \<open>While a thread is in the middle of \<^verbatim>\<open>set_value\<close> the shared state says so, and nobody has read a value.\<close>

lemma latch_inv_pc: "latch_inv l \<Longrightarrow> i < length (latch_threads l) \<Longrightarrow> latch_pc_ok l (latch_threads l ! i)"
  by (simp add: latch_inv_def)

lemma latch_inv_shared: "latch_inv l \<Longrightarrow>
    (latch_state l = kInitial \<or> latch_state l = kSetting \<or> latch_state l = kReady) \<and>
    (latch_state l = kInitial \<longrightarrow> latch_value l = None) \<and>
    (latch_state l = kReady \<longleftrightarrow> latch_accepted l \<noteq> []) \<and>
    (latch_accepted l = [] \<or> (\<exists>v. latch_value l = Some v \<and> latch_accepted l = [v]))"
  unfolding latch_inv_def by blast

lemma fetch_or_setting: "or kInitial kSetting = kSetting" "or kSetting kSetting = kSetting" "or kReady kSetting = kReady"
  by (simp_all add: latch_states)

lemma latch_states_distinct [simp]: "kInitial \<noteq> kSetting" "kInitial \<noteq> kReady" "kSetting \<noteq> kReady"
  "kSetting \<noteq> kInitial" "kReady \<noteq> kInitial" "kReady \<noteq> kSetting"
  by (simp_all add: latch_states)

lemma thread_step_others:
  assumes "latch_thread_step b p l = Some (p', l')" "latch_pc_ok l q" "latch_pc_ok l p"
    and st: "latch_state l = kInitial \<or> latch_state l = kSetting \<or> latch_state l = kReady"
    and "setting p \<Longrightarrow> \<not> setting q"
  shows "latch_pc_ok l' q \<and> (setting p' \<longrightarrow> \<not> setting q)"
proof (cases "latch_state l' = latch_state l \<and> latch_value l' = latch_value l \<and> (setting p' \<longrightarrow> setting p)")
  case True
  then show ?thesis
    using assms(2,5) by (cases q) (auto simp: latch_pc_ok_def)
next
  case False
  then consider v where "p = L_Set v" "latch_state l = kInitial" "latch_state l' = kSetting" "latch_value l' = latch_value l"
    | v where "p = L_Emplace v" "latch_state l' = latch_state l" "latch_state l = kSetting" "p' = L_Publish"
    | "p = L_Publish" "latch_state l = kSetting" "latch_state l' = kReady" "latch_value l' = latch_value l" "p' = L_SetDone True"
    using assms(1,3) st
    by (cases p) (auto simp: latch_thread_step_def async_get_step_def Let_def latch_pc_ok_def fetch_or_setting split: if_splits option.splits)
  then show ?thesis
    using assms(2,5) by cases (cases q; simp add: latch_pc_ok_def)+
qed

lemma latch_run_inv:
  assumes "latch_inv l" "i < length (latch_threads l)" "latch_thread_step b (latch_threads l ! i) l = Some (pc', l')"
  shows "latch_inv (l'\<lparr>latch_threads := (latch_threads l')[i := pc']\<rparr>)"
proof (rule latch_inv_move [OF assms(1,2)])
  note inv = latch_inv_pc [OF assms(1,2)] latch_inv_shared [OF assms(1)]
  note step = assms(3) [unfolded latch_thread_step_def async_get_step_def]
  note sp = latch_pc.splits if_splits option.splits
  show "latch_threads l' = latch_threads l"
    using step by (auto simp: Let_def split: sp)
  show "latch_pc_ok l' pc'"
    using step inv by (cases "latch_threads l ! i") (auto simp: Let_def latch_pc_ok_def fetch_or_setting split: if_splits option.splits)
  show "latch_pc_ok l' (latch_threads l ! j) \<and> (setting pc' \<longrightarrow> \<not> setting (latch_threads l ! j))"
    if "latch_pc_ok l (latch_threads l ! j)" "setting (latch_threads l ! i) \<Longrightarrow> \<not> setting (latch_threads l ! j)" for j
    using thread_step_others [OF assms(3) that(1) inv(1) _ that(2)] inv(2) by blast
  show "latch_state l' = kInitial \<or> latch_state l' = kSetting \<or> latch_state l' = kReady"
    using step inv by (cases "latch_threads l ! i") (auto simp: Let_def fetch_or_setting split: if_splits option.splits)
  show "latch_state l' = kInitial \<longrightarrow> latch_value l' = None"
    using step inv by (cases "latch_threads l ! i") (auto simp: Let_def latch_pc_ok_def fetch_or_setting split: if_splits option.splits)
  show "latch_state l' = kReady \<longleftrightarrow> latch_accepted l' \<noteq> []"
    using step inv by (cases "latch_threads l ! i") (auto simp: Let_def latch_pc_ok_def fetch_or_setting split: if_splits option.splits)
  show "latch_accepted l' = [] \<or> (\<exists>v. latch_value l' = Some v \<and> latch_accepted l' = [v])"
    using step inv by (cases "latch_threads l ! i") (auto simp: Let_def latch_pc_ok_def fetch_or_setting split: if_splits option.splits)
qed

lemma latch_call_inv:
  assumes "latch_inv l" "i < length (latch_threads l)" "latch_entry pc"
  shows "latch_inv (l\<lparr>latch_threads := (latch_threads l)[i := pc]\<rparr>)"
  using latch_inv_shared [OF assms(1)] assms(3)
  by (intro latch_inv_move [OF assms(1,2)]) (auto simp: latch_pc_ok_def elim!: latch_entry.elims)

lemma latch_step_inv: "latch_step l l' \<Longrightarrow> latch_inv l \<Longrightarrow> latch_inv l'"
proof (induction rule: latch_step.induct)
  case (run i l b pc l')
  then show ?case by (blast intro: latch_run_inv)
next
  case (call i l pc)
  then show ?case by (blast intro: latch_call_inv)
next
  case (invalidate l)
  have "latch_pc_ok (l\<lparr>latch_open := False\<rparr>) = latch_pc_ok l"
    by (rule ext) (simp add: latch_pc_ok_def split: latch_pc.splits)
  then show ?case
    using invalidate unfolding latch_inv_def by simp blast
qed

interpretation latch: invariant_system "latch_init n" latch_step latch_inv for n
  by unfold_locales (auto intro: latch_init_inv latch_step_inv)

text \<open>
  C22 (safety). A latch is written once, whatever the threads do: at most one call of \<^verbatim>\<open>set_value\<close> returns true; as soon as one has, every
  value that \<^verbatim>\<open>await\<close>, \<^verbatim>\<open>poll\<close> or the handler of \<^verbatim>\<open>async_get\<close> obtains is the value of that call; and no check of
  \<^verbatim>\<open>get_ready_value_or_panic\<close> or of the handler fails, also when the latch is invalidated in between.
\<close>

theorem Latch_written_once:
  assumes "latch_step\<^sup>*\<^sup>* (latch_init n) l"
  shows "length (latch_accepted l) \<le> 1
    \<and> L_Panic \<notin> set (latch_threads l)
    \<and> (\<forall>v. L_Value v \<in> set (latch_threads l) \<longrightarrow> latch_accepted l = [v])"
proof -
  have inv: "latch_inv l"
    by (rule latch.execution_invar [OF assms])
  have ok: "pc \<in> set (latch_threads l) \<Longrightarrow> latch_pc_ok l pc" for pc
    using inv by (simp add: latch_inv_def)
  show ?thesis
    using latch_inv_shared [OF inv] by (auto simp: latch_pc_ok_def dest!: ok)
qed

theorem Latch_written_once_witness:
  "latch_accepted \<lparr>latch_state = kReady, latch_open = True, latch_value = Some (7::nat), latch_threads = [L_SetDone True, L_Value 7],
      latch_accepted = [7]\<rparr> = [7]"
proof -
  let ?st = "\<lambda>s v t a. \<lparr>latch_state = s, latch_open = True, latch_value = v, latch_threads = t, latch_accepted = a\<rparr>"
  let ?ready = "\<lambda>pc. ?st kReady (Some (7::nat)) [L_SetDone True, pc] [7]"
  have set_value: "latch_step (latch_init 2) (?st kInitial None [L_Set (7::nat), L_Idle] [])"
    "latch_step (?st kInitial None [L_Set (7::nat), L_Idle] []) (?st kSetting None [L_Emplace 7, L_Idle] [])"
    "latch_step (?st kSetting None [L_Emplace (7::nat), L_Idle] []) (?st kSetting (Some 7) [L_Publish, L_Idle] [])"
    "latch_step (?st kSetting (Some 7) [L_Publish, L_Idle] []) (?ready L_Idle)"
    using latch_step.call [of 0 "latch_init 2" "L_Set (7::nat)"]
      latch_step.run [of 0 "?st kInitial None [L_Set (7::nat), L_Idle] []" True]
      latch_step.run [of 0 "?st kSetting None [L_Emplace (7::nat), L_Idle] []" True]
      latch_step.run [of 0 "?st kSetting (Some 7) [L_Publish, L_Idle :: nat latch_pc] []" True]
    by (simp_all add: latch_init_def latch_thread_step_def fetch_or_setting Let_def numeral_2_eq_2)
  have poll: "latch_step (?ready L_Idle) (?ready L_Poll)" "latch_step (?ready L_Poll) (?ready L_Check)"
    "latch_step (?ready L_Check) (?ready L_Read)" "latch_step (?ready L_Read) (?ready (L_Value 7))"
    using latch_step.call [of 1 "?ready L_Idle" L_Poll] latch_step.run [of 1 "?ready L_Poll" True]
      latch_step.run [of 1 "?ready L_Check" True] latch_step.run [of 1 "?ready L_Read" True]
    by (simp_all add: latch_thread_step_def)
  have "latch_step\<^sup>*\<^sup>* (latch_init 2) (?ready (L_Value 7))"
    by (rule set_value poll converse_rtranclp_into_rtranclp rtranclp.rtrancl_refl)+
  from Latch_written_once [OF this] show ?thesis
    by simp
qed

end
