(* ===== verification/Batt_Channel.thy ===== *)
theory Batt_Channel
  imports Batt_Status
begin

section \<open>Channel: a rendezvous of one producer and one consumer\<close>

text \<open>
  Models \<^verbatim>\<open>src/src/batteries/async/channel.hpp\<close>: one thread writes, one thread reads and consumes, and the channel
  may be closed at any time. A step is one access to \<^verbatim>\<open>read_count_\<close>, \<^verbatim>\<open>write_count_\<close> or \<^verbatim>\<open>value_\<close>. The counts
  are 32-bit words that wrap and are compared as signed numbers, as the \<^verbatim>\<open>i32\<close> of the code.

  \<^verbatim>\<open>fetch_add\<close> of the watch of these counts, which is the atomic watch, stores the new count first and then notifies the
  handler that waits, if there is one, with the count it stored: two steps.
\<close>

type_synonym count_word = "32 word"

datatype 'a chan_write_pc =
    W_Idle
  | W_Enter bool 'a | W_Open bool 'a | W_Put bool 'a | W_Seen 'a | W_Add bool 'a count_word
  | W_Notify bool count_word count_word
  | W_Await count_word
  | W_Wait count_word count_word | W_Parked count_word count_word | W_Handler count_word "count_word option"
  | W_Done StatusCode | W_Panic

datatype 'a chan_read_pc =
    R_Idle
  | R_Enter | R_Await count_word | R_AwaitParked count_word | R_Deref
  | RA_Enter | RA_Write | RA_Read count_word | RA_Wait count_word count_word | RA_Parked count_word count_word
  | R_Value 'a | R_Status StatusCode | R_Null
  | C_Enter 'a | C_Clear 'a | C_Add 'a | C_Notify count_word
  | R_Panic

record 'a Channel =
  chan_read_count :: count_word
  chan_write_count :: count_word
  chan_value :: "'a option"
  chan_read_open :: bool
  chan_write_open :: bool
  chan_writer :: "'a chan_write_pc"
  chan_reader :: "'a chan_read_pc"
  chan_written :: "'a list"
  chan_consumed :: "'a list"

definition chan_init :: "'a Channel" where
  "chan_init = \<lparr>chan_read_count = 0, chan_write_count = 0, chan_value = None, chan_read_open = True, chan_write_open = True,
     chan_writer = W_Idle, chan_reader = R_Idle, chan_written = [], chan_consumed = []\<rparr>"

definition is_active :: "'a Channel \<Rightarrow> bool" where
  "is_active c \<longleftrightarrow> 0 < sint (chan_write_count c - chan_read_count c)"

text \<open>The notification of one count resumes the thread that waits for it: a parked \<open>read\<close>, the handler of
  \<open>async_read\<close> with its check, the handler of \<open>async_write\<close>. (\<open>write\<close> itself waits in a loop and looks at the count again.)\<close>

definition notify_reader :: "count_word \<Rightarrow> 'a Channel \<Rightarrow> 'a Channel" where
  "notify_reader n c = (case chan_reader c of
       R_AwaitParked _ \<Rightarrow> c\<lparr>chan_reader := R_Deref\<rparr>
     | RA_Parked _ observed_read_count \<Rightarrow> c\<lparr>chan_reader := (if sint observed_read_count < sint n then R_Deref else R_Panic)\<rparr>
     | _ \<Rightarrow> c)"

definition notify_writer :: "count_word \<Rightarrow> 'a Channel \<Rightarrow> 'a Channel" where
  "notify_writer n c = (case chan_writer c of
       W_Parked _ target \<Rightarrow> c\<lparr>chan_writer := W_Handler target (Some n)\<rparr>
     | _ \<Rightarrow> c)"

text \<open>The producer: \<open>write\<close>, and \<open>async_write\<close> (first argument true) up to the end of its handler.\<close>

definition after_add :: "bool \<Rightarrow> count_word \<Rightarrow> count_word \<Rightarrow> 'a chan_write_pc" where
  "after_add asynchronous last_seen target =
     (if \<not> asynchronous then W_Await target
      else if last_seen + 1 \<noteq> target then W_Panic
      else W_Wait last_seen target)"

definition async_write_step :: "bool \<Rightarrow> 'a Channel \<Rightarrow> 'a Channel option" where
  "async_write_step saw_closed c =
     (case chan_writer c of
        W_Seen v \<Rightarrow> Some (c\<lparr>chan_writer := W_Add True v (chan_read_count c)\<rparr>)
      | W_Wait last_seen target \<Rightarrow>
          if saw_closed \<and> \<not> chan_read_open c then Some (c\<lparr>chan_writer := W_Handler target None\<rparr>)
          else if chan_read_count c \<noteq> last_seen then Some (c\<lparr>chan_writer := W_Handler target (Some (chan_read_count c))\<rparr>)
          else Some (c\<lparr>chan_writer := W_Parked last_seen target\<rparr>)
      | W_Parked last_seen target \<Rightarrow>
          if saw_closed \<and> \<not> chan_read_open c then Some (c\<lparr>chan_writer := W_Handler target None\<rparr>) else None
      | W_Handler target observed \<Rightarrow>
          (case observed of
             None \<Rightarrow> Some (c\<lparr>chan_value := None, chan_writer := W_Done kClosed\<rparr>)
           | Some n \<Rightarrow> Some (if target \<noteq> n then c\<lparr>chan_writer := W_Panic\<rparr>
                             else c\<lparr>chan_value := None, chan_writer := W_Done kOk\<rparr>))
      | _ \<Rightarrow> None)"

definition chan_writer_step :: "bool \<Rightarrow> 'a Channel \<Rightarrow> 'a Channel option" where
  "chan_writer_step saw_closed c =
     (case chan_writer c of
        W_Enter a v \<Rightarrow> Some (c\<lparr>chan_writer := (if is_active c then W_Panic else W_Open a v)\<rparr>)
      | W_Open a v \<Rightarrow> Some (c\<lparr>chan_writer := (if \<not> chan_write_open c then W_Done kClosed else W_Put a v)\<rparr>)
      | W_Put a v \<Rightarrow> Some (c\<lparr>chan_value := Some v, chan_writer := (if a then W_Seen v else W_Add a v 0)\<rparr>)
      | W_Add a v last_seen \<Rightarrow>
          let target = chan_write_count c + 1;
              c = c\<lparr>chan_write_count := target, chan_written := chan_written c @ [v]\<rparr> in
          Some (c\<lparr>chan_writer := W_Notify a last_seen target\<rparr>)
      | W_Notify a last_seen target \<Rightarrow> Some (notify_reader target (c\<lparr>chan_writer := after_add a last_seen target\<rparr>))
      | W_Await target \<Rightarrow>
          if saw_closed \<and> \<not> chan_read_open c then Some (c\<lparr>chan_writer := W_Done kClosed\<rparr>)
          else if chan_read_count c = target then Some (c\<lparr>chan_writer := W_Done kOk\<rparr>)
          else None
      | _ \<Rightarrow> async_write_step saw_closed c)"

text \<open>The consumer: \<open>read\<close>, \<open>async_read\<close> up to the call of its handler, and \<open>consume\<close>. Reading through a null
  \<^verbatim>\<open>value_\<close> is \<open>R_Null\<close>. \<open>C_Enter v\<close> is \<open>consume\<close> after a read that gave \<open>v\<close>.\<close>

definition async_read_step :: "bool \<Rightarrow> 'a Channel \<Rightarrow> 'a Channel option" where
  "async_read_step saw_closed c =
     (case chan_reader c of
        RA_Enter \<Rightarrow> Some (c\<lparr>chan_reader := (if \<not> chan_read_open c then R_Status kClosed else RA_Write)\<rparr>)
      | RA_Write \<Rightarrow> Some (c\<lparr>chan_reader := RA_Read (chan_write_count c)\<rparr>)
      | RA_Read observed_write_count \<Rightarrow>
          let observed_read_count = chan_read_count c in
          Some (c\<lparr>chan_reader := (if sint observed_read_count < sint observed_write_count then R_Deref
                                     else RA_Wait observed_write_count observed_read_count)\<rparr>)
      | RA_Wait last_seen observed_read_count \<Rightarrow>
          if saw_closed \<and> \<not> chan_write_open c then Some (c\<lparr>chan_reader := R_Status kClosed\<rparr>)
          else if chan_write_count c \<noteq> last_seen
          then Some (c\<lparr>chan_reader := (if sint observed_read_count < sint (chan_write_count c) then R_Deref else R_Panic)\<rparr>)
          else Some (c\<lparr>chan_reader := RA_Parked last_seen observed_read_count\<rparr>)
      | RA_Parked last_seen observed_read_count \<Rightarrow>
          if saw_closed \<and> \<not> chan_write_open c then Some (c\<lparr>chan_reader := R_Status kClosed\<rparr>) else None
      | _ \<Rightarrow> None)"

definition consume_step :: "'a Channel \<Rightarrow> 'a Channel option" where
  "consume_step c =
     (case chan_reader c of
        C_Enter v \<Rightarrow> Some (c\<lparr>chan_reader := (if \<not> is_active c then R_Panic else C_Clear v)\<rparr>)
      | C_Clear v \<Rightarrow> Some (c\<lparr>chan_value := None, chan_reader := C_Add v\<rparr>)
      | C_Add v \<Rightarrow>
          let n = chan_read_count c + 1;
              c = c\<lparr>chan_read_count := n, chan_consumed := chan_consumed c @ [v]\<rparr> in
          Some (c\<lparr>chan_reader := C_Notify n\<rparr>)
      | C_Notify n \<Rightarrow> Some (notify_writer n (c\<lparr>chan_reader := R_Idle\<rparr>))
      | _ \<Rightarrow> None)"

definition chan_reader_step :: "bool \<Rightarrow> 'a Channel \<Rightarrow> 'a Channel option" where
  "chan_reader_step saw_closed c =
     (case chan_reader c of
        R_Enter \<Rightarrow> Some (c\<lparr>chan_reader := R_Await (chan_read_count c)\<rparr>)
      | R_Await last_seen \<Rightarrow>
          if saw_closed \<and> \<not> chan_write_open c then Some (c\<lparr>chan_reader := R_Status kClosed\<rparr>)
          else if chan_write_count c \<noteq> last_seen then Some (c\<lparr>chan_reader := R_Deref\<rparr>)
          else Some (c\<lparr>chan_reader := R_AwaitParked last_seen\<rparr>)
      | R_AwaitParked last_seen \<Rightarrow>
          if saw_closed \<and> \<not> chan_write_open c then Some (c\<lparr>chan_reader := R_Status kClosed\<rparr>) else None
      | R_Deref \<Rightarrow> Some (c\<lparr>chan_reader := (case chan_value c of None \<Rightarrow> R_Null | Some v \<Rightarrow> R_Value v)\<rparr>)
      | C_Enter v \<Rightarrow> consume_step c
      | C_Clear v \<Rightarrow> consume_step c
      | C_Add v \<Rightarrow> consume_step c
      | C_Notify n \<Rightarrow> consume_step c
      | _ \<Rightarrow> async_read_step saw_closed c)"

lemmas chan_step_defs = chan_writer_step_def async_write_step_def chan_reader_step_def async_read_step_def consume_step_def

text \<open>The calls: a thread starts a call when it has none in progress; \<open>consume\<close> follows a read that gave a value.\<close>

inductive chan_step :: "'a Channel \<Rightarrow> 'a Channel \<Rightarrow> bool" where
  writer: "chan_writer_step b c = Some c' \<Longrightarrow> chan_step c c'"
| reader: "chan_reader_step b c = Some c' \<Longrightarrow> chan_step c c'"
| call_write: "chan_writer c = W_Idle \<or> chan_writer c = W_Done s \<Longrightarrow>
     chan_step c (c\<lparr>chan_writer := W_Enter a v\<rparr>)"
| call_read: "chan_reader c = R_Idle \<or> chan_reader c = R_Status s \<Longrightarrow> chan_step c (c\<lparr>chan_reader := R_Enter\<rparr>)"
| call_async_read: "chan_reader c = R_Idle \<or> chan_reader c = R_Status s \<Longrightarrow>
     chan_step c (c\<lparr>chan_reader := RA_Enter\<rparr>)"
| call_consume: "chan_reader c = R_Value v \<Longrightarrow> chan_step c (c\<lparr>chan_reader := C_Enter v\<rparr>)"
| close_for_read: "chan_step c (c\<lparr>chan_read_open := False\<rparr>)"
| close_for_write: "chan_step c (c\<lparr>chan_write_open := False\<rparr>)"

subsection \<open>The invariant\<close>

definition active :: "'a Channel \<Rightarrow> bool" where
  "active c \<longleftrightarrow> length (chan_written c) = length (chan_consumed c) + 1"

text \<open>What the producer has put into \<^verbatim>\<open>value_\<close> before it counted it.\<close>

fun putting :: "'a chan_write_pc \<Rightarrow> 'a option" where
  "putting (W_Seen v) = Some v"
| "putting (W_Add a v l) = Some v"
| "putting _ = None"

definition counts_ok :: "'a Channel \<Rightarrow> bool" where
  "counts_ok c \<longleftrightarrow>
     chan_write_count c = of_nat (length (chan_written c)) \<and> chan_read_count c = of_nat (length (chan_consumed c)) \<and>
     (length (chan_written c) = length (chan_consumed c) \<or> active c) \<and>
     take (length (chan_consumed c)) (chan_written c) = chan_consumed c"

definition next_value :: "'a Channel \<Rightarrow> 'a option" where
  "next_value c = (if active c then Some (chan_written c ! length (chan_consumed c)) else putting (chan_writer c))"

definition value_ok :: "'a Channel \<Rightarrow> bool" where
  "value_ok c \<longleftrightarrow>
     (chan_value c = next_value c \<or>
      active c \<and> chan_value c = None \<and> (\<not> chan_read_open c \<or> (\<exists>v. chan_reader c = C_Add v)))"

definition writer_ok :: "'a Channel \<Rightarrow> bool" where
  "writer_ok c = (case chan_writer c of
       W_Idle \<Rightarrow> \<not> active c
     | W_Enter _ _ \<Rightarrow> active c \<longrightarrow> \<not> chan_read_open c
     | W_Open _ _ \<Rightarrow> \<not> active c
     | W_Put _ _ \<Rightarrow> \<not> active c
     | W_Seen _ \<Rightarrow> \<not> active c
     | W_Add a _ l \<Rightarrow> \<not> active c \<and> (a \<longrightarrow> l = chan_read_count c)
     | W_Notify a l t \<Rightarrow> t = chan_write_count c \<and> (a \<longrightarrow> l + 1 = t)
     | W_Await t \<Rightarrow> t = chan_write_count c
     | W_Wait l t \<Rightarrow> t = chan_write_count c \<and> l + 1 = t
     | W_Parked l t \<Rightarrow> t = chan_write_count c \<and> l + 1 = t
     | W_Handler t None \<Rightarrow> \<not> chan_read_open c
     | W_Handler t (Some n) \<Rightarrow> t = chan_write_count c \<and> (n = chan_read_count c \<or> \<not> active c)
     | W_Done s \<Rightarrow> active c \<longrightarrow> s \<noteq> kOk \<and> \<not> chan_read_open c
     | W_Panic \<Rightarrow> True)"

definition reader_ok :: "'a Channel \<Rightarrow> bool" where
  "reader_ok c = (case chan_reader c of
       R_Value v \<Rightarrow> next_value c = Some v
     | C_Enter v \<Rightarrow> next_value c = Some v
     | C_Clear v \<Rightarrow> next_value c = Some v \<and> active c
     | C_Add v \<Rightarrow> next_value c = Some v \<and> active c \<and> chan_value c = None
     | C_Notify n \<Rightarrow> n = chan_read_count c
     | _ \<Rightarrow> True)"

definition chan_inv :: "'a Channel \<Rightarrow> bool" where
  "chan_inv c \<longleftrightarrow> counts_ok c \<and> value_ok c \<and> writer_ok c \<and> reader_ok c"

lemmas chan_inv_defs = chan_inv_def counts_ok_def value_ok_def writer_ok_def reader_ok_def next_value_def active_def

lemma chan_init_inv: "chan_inv chan_init"
  by (simp add: chan_inv_defs chan_init_def)

text \<open>The counts tell the two cases apart, also where they have wrapped.\<close>

lemma counts_active: "counts_ok c \<Longrightarrow> chan_write_count c = (if active c then chan_read_count c + 1 else chan_read_count c)"
  by (auto simp: counts_ok_def active_def)

lemma is_active_active: "counts_ok c \<Longrightarrow> is_active c \<longleftrightarrow> active c"
  by (simp add: is_active_def counts_active)

text \<open>The parts of the invariant that a change of one thread's position leaves alone.\<close>

lemma chan_frame [simp]:
  "active (c\<lparr>chan_writer := p\<rparr>) = active c" "active (c\<lparr>chan_reader := q\<rparr>) = active c" "active (c\<lparr>chan_value := v\<rparr>) = active c"
  "counts_ok (c\<lparr>chan_writer := p\<rparr>) = counts_ok c" "counts_ok (c\<lparr>chan_reader := q\<rparr>) = counts_ok c"
  "counts_ok (c\<lparr>chan_value := v\<rparr>) = counts_ok c"
  "writer_ok (c\<lparr>chan_reader := q\<rparr>) = writer_ok c" "writer_ok (c\<lparr>chan_value := v\<rparr>) = writer_ok c"
  "next_value (c\<lparr>chan_reader := q\<rparr>) = next_value c" "next_value (c\<lparr>chan_value := v\<rparr>) = next_value c"
  by (simp_all add: active_def counts_ok_def writer_ok_def next_value_def reader_ok_def cong: chan_write_pc.case_cong chan_read_pc.case_cong option.case_cong)

lemma chan_writer_moves:
  assumes "chan_inv c" "writer_ok (c\<lparr>chan_writer := p\<rparr>)" "active c \<or> putting p = putting (chan_writer c)"
  shows "chan_inv (c\<lparr>chan_writer := p\<rparr>)"
proof -
  have "next_value (c\<lparr>chan_writer := p\<rparr>) = next_value c"
    using assms(3) by (auto simp: next_value_def)
  then show ?thesis
    using assms(1,2) by (auto simp: chan_inv_def value_ok_def reader_ok_def cong: chan_read_pc.case_cong)
qed

lemma chan_reader_moves:
  assumes "chan_inv c" "reader_ok (c\<lparr>chan_reader := q\<rparr>)" "\<And>v. chan_reader c \<noteq> C_Add v"
  shows "chan_inv (c\<lparr>chan_reader := q\<rparr>)"
  using assms by (auto simp: chan_inv_def value_ok_def)

lemma notify_reader_inv: "chan_inv c \<Longrightarrow> chan_inv (notify_reader n c)"
  by (cases "chan_reader c") (auto simp: notify_reader_def intro!: chan_reader_moves simp: reader_ok_def)

lemma chan_count_inv:
  assumes "chan_inv c" "chan_writer c = W_Add a v l"
    and c1_def: "c1 = c\<lparr>chan_write_count := chan_write_count c + 1, chan_written := chan_written c @ [v], chan_writer := p\<rparr>"
  shows "counts_ok c1 \<and> value_ok c1 \<and> reader_ok c1"
proof -
  have na: "\<not> active c" and len: "length (chan_written c) = length (chan_consumed c)"
    using assms(1,2) by (auto simp: chan_inv_def writer_ok_def counts_ok_def)
  have act: "active c1" and nv: "next_value c1 = next_value c"
    using na len assms(2) by (auto simp: c1_def active_def next_value_def nth_append)
  have "counts_ok c1" "value_ok c1"
    using assms(1) act na nv by (auto simp: chan_inv_def counts_ok_def value_ok_def c1_def)
  moreover have "reader_ok c1"
    using assms(1) na nv act by (cases "chan_reader c") (simp_all add: chan_inv_def reader_ok_def c1_def)
  ultimately show ?thesis by blast
qed

lemma chan_writer_step_inv:
  assumes "chan_inv c" "chan_writer_step b c = Some c'"
  shows "chan_inv c'"
proof -
  have act: "is_active c \<longleftrightarrow> active c"
    using assms(1) by (simp add: chan_inv_def is_active_active)
  have wr: "writer_ok c" and cn: "counts_ok c" and vl: "value_ok c" and rd: "reader_ok c"
    using assms(1) by (auto simp: chan_inv_def)
  note move = chan_writer_moves [OF assms(1)] and wc = counts_active [OF cn]
  note step = assms(2) [unfolded chan_step_defs]
  show ?thesis
  proof (cases "chan_writer c")
    case (W_Put a v)
    then have c': "c' = c\<lparr>chan_value := Some v, chan_writer := (if a then W_Seen v else W_Add a v 0)\<rparr>" and na: "\<not> active c"
      using step wr by (auto simp: writer_ok_def)
    moreover have "reader_ok c'"
      using rd na W_Put by (cases "chan_reader c") (simp_all add: c' reader_ok_def next_value_def)
    ultimately show ?thesis
      using cn by (auto simp: chan_inv_def writer_ok_def value_ok_def next_value_def)
  next
    case (W_Add a v l)
    let ?c = "c\<lparr>chan_write_count := chan_write_count c + 1, chan_written := chan_written c @ [v],
      chan_writer := W_Notify a l (chan_write_count c + 1)\<rparr>"
    have "writer_ok ?c" using wr W_Add wc by (auto simp: writer_ok_def)
    moreover have "c' = ?c" using step W_Add by (simp add: Let_def)
    ultimately show ?thesis using chan_count_inv [OF assms(1) W_Add refl] by (simp add: chan_inv_def)
  next
    case (W_Notify a l t)
    let ?c = "c\<lparr>chan_writer := after_add a l t\<rparr>"
    have "chan_inv ?c"
      using wr W_Notify by (intro move) (auto simp: writer_ok_def after_add_def)
    moreover have "c' = notify_reader t ?c"
      using step W_Notify by simp
    ultimately show ?thesis
      using notify_reader_inv [of ?c] by simp
  next
    case (W_Handler t obs)
    have "reader_ok (c\<lparr>chan_value := w, chan_writer := p\<rparr>)" if "putting p = None" "w = None \<or> w = chan_value c" for p w
      using rd that W_Handler by (cases "chan_reader c") (auto simp: reader_ok_def next_value_def split: if_splits)
    from this [of "W_Done _" None] this [of W_Panic "chan_value c"] show ?thesis
      using step wr cn vl wc W_Handler
      by (auto simp: chan_inv_def writer_ok_def value_ok_def next_value_def split: option.splits if_splits)
  qed (use step wr wc act in \<open>auto intro!: move simp: writer_ok_def split: if_splits\<close>)
qed

lemma notify_writer_inv: "chan_inv c \<Longrightarrow> chan_inv (notify_writer (chan_read_count c) c)"
  by (cases "chan_writer c")
    (auto simp: notify_writer_def intro!: chan_writer_moves simp: writer_ok_def chan_inv_def [of c])

lemma chan_consume_inv:
  assumes "chan_inv c" "chan_reader c = C_Add v"
    and c1_def: "c1 = c\<lparr>chan_read_count := chan_read_count c + 1, chan_consumed := chan_consumed c @ [v],
      chan_reader := C_Notify (chan_read_count c + 1)\<rparr>"
  shows "chan_inv c1"
proof -
  have act: "active c" and v: "v = chan_written c ! length (chan_consumed c)" and none: "chan_value c = None"
    using assms(1,2) by (auto simp: chan_inv_def reader_ok_def next_value_def)
  have na: "\<not> active c1"
    using act by (simp add: active_def c1_def)
  have "take (Suc (length (chan_consumed c))) (chan_written c) = chan_consumed c @ [v]"
    using assms(1) act take_Suc_conv_app_nth [of "length (chan_consumed c)" "chan_written c"]
    by (simp only: v chan_inv_def counts_ok_def active_def)
  then have "counts_ok c1"
    using assms(1) act by (simp add: c1_def chan_inv_def counts_ok_def active_def)
  moreover have "putting (chan_writer c) = None"
    using assms(1) act by (cases "chan_writer c") (simp_all add: chan_inv_def writer_ok_def)
  then have "value_ok c1"
    using na none by (simp add: value_ok_def next_value_def) (simp add: c1_def)
  moreover have "reader_ok c1"
    by (simp add: reader_ok_def c1_def)
  moreover have "writer_ok c1"
    using assms(1) act na by (cases "chan_writer c") (auto simp: chan_inv_def writer_ok_def c1_def split: option.splits)
  ultimately show ?thesis by (simp add: chan_inv_def)
qed

lemma chan_reader_step_inv:
  assumes "chan_inv c" "chan_reader_step b c = Some c'"
  shows "chan_inv c'"
proof -
  have act: "is_active c \<longleftrightarrow> active c"
    using assms(1) by (simp add: chan_inv_def is_active_active)
  have wr: "writer_ok c" and cn: "counts_ok c" and vl: "value_ok c" and rd: "reader_ok c"
    using assms(1) by (auto simp: chan_inv_def)
  note move = chan_reader_moves [OF assms(1)]
  note step = assms(2) [unfolded chan_step_defs]
  show ?thesis
  proof (cases "chan_reader c")
    case (C_Clear v)
    then show ?thesis
      using step wr cn vl rd by (auto simp: chan_inv_def reader_ok_def value_ok_def)
  next
    case (C_Add v)
    then show ?thesis
      using step chan_consume_inv [OF assms(1) C_Add refl] by (simp add: Let_def)
  next
    case (C_Notify n)
    have "chan_inv (c\<lparr>chan_reader := R_Idle\<rparr>)"
      by (rule move) (simp_all add: reader_ok_def C_Notify)
    moreover have "c' = notify_writer (chan_read_count (c\<lparr>chan_reader := R_Idle\<rparr>)) (c\<lparr>chan_reader := R_Idle\<rparr>)"
      using step rd C_Notify by (auto simp: reader_ok_def)
    ultimately show ?thesis
      using notify_writer_inv [of "c\<lparr>chan_reader := R_Idle\<rparr>"] by simp
  next
    case (C_Enter v)
    have "reader_ok (c\<lparr>chan_reader := (if active c then C_Clear v else R_Panic)\<rparr>)"
      using rd C_Enter by (auto simp: reader_ok_def)
    with move [OF this] show ?thesis
      using step act C_Enter by (simp split: if_splits)
  next
    case R_Deref
    then show ?thesis
      using step rd vl by (auto intro!: move simp: reader_ok_def value_ok_def next_value_def split: option.splits)
  qed (use step rd cn act in \<open>auto intro!: move simp: Let_def reader_ok_def counts_ok_def active_def split: if_splits\<close>)
qed

lemma chan_step_inv: "chan_step c c' \<Longrightarrow> chan_inv c \<Longrightarrow> chan_inv c'"
proof (induction rule: chan_step.induct)
  case (call_write c s a v)
  then show ?case
    by (intro chan_writer_moves) (auto simp: chan_inv_def writer_ok_def)
next
  case (close_for_read c)
  let ?c = "c\<lparr>chan_read_open := False\<rparr>"
  have "counts_ok ?c \<and> value_ok ?c"
    using close_for_read by (auto simp: chan_inv_def value_ok_def next_value_def counts_ok_def active_def)
  moreover have "writer_ok ?c"
    using close_for_read
    by (cases "chan_writer c") (auto simp: chan_inv_def writer_ok_def active_def split: option.splits)
  moreover have "reader_ok ?c"
    using close_for_read by (cases "chan_reader c") (auto simp: chan_inv_def reader_ok_def active_def next_value_def)
  ultimately show ?case
    by (simp add: chan_inv_def)
next
  case (close_for_write c)
  then show ?case
    by (auto simp: chan_inv_def value_ok_def next_value_def writer_ok_def reader_ok_def counts_ok_def active_def
        cong: chan_write_pc.case_cong chan_read_pc.case_cong option.case_cong)
next
  case (call_consume c v)
  then show ?case
    by (intro chan_reader_moves) (auto simp: chan_inv_def reader_ok_def)
qed (auto intro: chan_writer_step_inv chan_reader_step_inv chan_reader_moves simp: reader_ok_def [of "_\<lparr>chan_reader := _\<rparr>"])

interpretation chan: invariant_system chan_init chan_step chan_inv
  by unfold_locales (auto intro: chan_init_inv chan_step_inv)

subsection \<open>Concrete schedules\<close>

datatype 'a chan_action = Do_write bool 'a | Do_read | Do_async_read | Do_consume | Do_close_for_read | Run_writer bool | Run_reader bool

fun chan_move :: "'a chan_action \<Rightarrow> 'a Channel \<Rightarrow> 'a Channel option" where
  "chan_move (Do_write a v) c = (case chan_writer c of
       W_Idle \<Rightarrow> Some (c\<lparr>chan_writer := W_Enter a v\<rparr>) | W_Done _ \<Rightarrow> Some (c\<lparr>chan_writer := W_Enter a v\<rparr>) | _ \<Rightarrow> None)"
| "chan_move Do_read c = (case chan_reader c of R_Idle \<Rightarrow> Some (c\<lparr>chan_reader := R_Enter\<rparr>) | _ \<Rightarrow> None)"
| "chan_move Do_async_read c = (case chan_reader c of R_Idle \<Rightarrow> Some (c\<lparr>chan_reader := RA_Enter\<rparr>) | _ \<Rightarrow> None)"
| "chan_move Do_consume c = (case chan_reader c of R_Value v \<Rightarrow> Some (c\<lparr>chan_reader := C_Enter v\<rparr>) | _ \<Rightarrow> None)"
| "chan_move Do_close_for_read c = Some (c\<lparr>chan_read_open := False\<rparr>)"
| "chan_move (Run_writer b) c = chan_writer_step b c"
| "chan_move (Run_reader b) c = chan_reader_step b c"

fun chan_moves :: "'a chan_action list \<Rightarrow> 'a Channel \<Rightarrow> 'a Channel option" where
  "chan_moves [] c = Some c"
| "chan_moves (m # ms) c = Option.bind (chan_move m c) (chan_moves ms)"

lemma chan_move_step: "chan_move m c = Some c' \<Longrightarrow> chan_step c c'"
  by (cases m) (auto intro: chan_step.intros split: chan_write_pc.splits chan_read_pc.splits)

lemma chan_moves_steps: "chan_moves ms c = Some c' \<Longrightarrow> chan_step\<^sup>*\<^sup>* c c'"
  by (induction ms arbitrary: c)
    (auto simp: bind_eq_Some_conv intro: chan_move_step converse_rtranclp_into_rtranclp)

subsection \<open>Properties\<close>

text \<open>
  C15 (safety). The channel is a rendezvous, for every interleaving of one producer and one consumer that use the blocking and
  the asynchronous calls over the atomic watches of the code, with 32-bit counts that may wrap: values are consumed in the order in
  which they are written, each once, and at most one is in flight; a write that returns ok has had its value consumed; a value that
  a read gives is the next one in that order, also when the producer has not counted it yet; and the check of a new write that no
  value is in flight does not fail unless the channel was closed for reading. (Other checks of the code can fail: a notification
  may come late.)
\<close>

theorem Channel_rendezvous:
  assumes "chan_step\<^sup>*\<^sup>* chan_init c"
  shows "(\<exists>rest. chan_written c = chan_consumed c @ rest \<and> length rest \<le> 1)
    \<and> (chan_writer c = W_Done kOk \<longrightarrow> chan_consumed c = chan_written c)
    \<and> (\<forall>v. chan_reader c = R_Value v \<longrightarrow> chan_written c = chan_consumed c @ [v] \<or>
          chan_written c = chan_consumed c \<and> putting (chan_writer c) = Some v)
    \<and> (\<forall>a v. chan_writer c = W_Enter a v \<and> is_active c \<longrightarrow> \<not> chan_read_open c)"
proof -
  have inv: "chan_inv c"
    by (rule chan.execution_invar [OF assms])
  obtain rest where rest: "chan_written c = chan_consumed c @ rest"
    using inv by (metis append_take_drop_id chan_inv_def counts_ok_def)
  have len: "length rest \<le> 1" and act: "active c \<longleftrightarrow> rest \<noteq> []" and nxt: "active c \<longrightarrow> chan_written c ! length (chan_consumed c) = hd rest"
    using inv rest by (cases rest; auto simp: chan_inv_def counts_ok_def active_def)+
  have one: "rest = [] \<or> rest = [hd rest]"
    using len by (cases rest) auto
  have "chan_writer c = W_Done kOk \<Longrightarrow> rest = []"
    using inv act by (auto simp: chan_inv_def writer_ok_def)
  moreover have "rest = [v] \<or> rest = [] \<and> putting (chan_writer c) = Some v" if "chan_reader c = R_Value v" for v
    using inv that act nxt one by (auto simp: chan_inv_def reader_ok_def next_value_def split: if_splits)
  moreover have "\<not> chan_read_open c" if "chan_writer c = W_Enter a v \<and> is_active c" for a v
    using inv that by (auto simp: chan_inv_def writer_ok_def is_active_active)
  ultimately show ?thesis
    using rest len by auto
qed

definition chan_demo :: "nat chan_action list" where
  "chan_demo = [Do_read, Run_reader False, Run_reader False, Do_write False 7] @ replicate 5 (Run_writer False) @
     [Run_reader False, Do_consume, Run_reader False, Run_reader False, Run_reader False, Run_reader False, Run_writer False]"

theorem Channel_rendezvous_witness:
  "(case chan_moves chan_demo chan_init of Some c \<Rightarrow> chan_consumed c = [7] \<and> chan_consumed c = chan_written c | None \<Rightarrow> False)"
proof -
  obtain c where c: "chan_moves chan_demo chan_init = Some c" "chan_consumed c = [7]" "chan_writer c = W_Done kOk"
    by (simp add: chan_demo_def chan_init_def chan_step_defs is_active_def Let_def notify_reader_def
        notify_writer_def after_add_def numeral_eq_Suc)
  from Channel_rendezvous [OF chan_moves_steps [OF c(1)]] c show ?thesis
    by simp
qed

text \<open>The producer stores the count and is then slow to notify; meanwhile the consumer sees the count, consumes the value and
  waits again.\<close>

definition chan_slow_producer :: "nat chan_action \<Rightarrow> nat chan_action list" where
  "chan_slow_producer again = [Do_write False 7] @ replicate 4 (Run_writer False) @
     [Do_read, Run_reader False, Run_reader False, Run_reader False, Do_consume] @ replicate 4 (Run_reader False) @
     [again] @ replicate (if again = Do_read then 2 else 4) (Run_reader False) @ [Run_writer False]"

text \<open>The consumer stores the count and is then slow to notify; the producer sees it and writes again.\<close>

definition chan_slow_consumer :: "nat chan_action list" where
  "chan_slow_consumer = [Do_write True 7] @ replicate 6 (Run_writer False) @
     [Do_read, Run_reader False, Run_reader False, Run_reader False, Do_consume] @ replicate 3 (Run_reader False) @
     [Run_writer False, Run_writer False, Do_write True 8] @ replicate 7 (Run_writer False) @ [Run_reader False, Run_writer False]"

definition chan_write_once_closed :: "nat chan_action list" where
  "chan_write_once_closed = [Do_close_for_read, Do_write False 7] @ replicate 6 (Run_writer True)"

lemmas chan_eval = chan_init_def chan_step_defs is_active_def Let_def notify_reader_def
  notify_writer_def after_add_def numeral_eq_Suc

lemma chan_slow_producer_read:
  "\<exists>c. chan_moves (chan_slow_producer Do_read @ [Run_reader False]) chan_init = Some c \<and>
     chan_reader c = R_Null \<and> chan_read_open c \<and> chan_write_open c"
  by (simp add: chan_slow_producer_def chan_eval)

lemma chan_slow_producer_async_read:
  "\<exists>c. chan_moves (chan_slow_producer Do_async_read) chan_init = Some c \<and>
     chan_reader c = R_Panic \<and> chan_read_open c \<and> chan_write_open c"
  by (simp add: chan_slow_producer_def chan_eval)

lemma chan_slow_consumer_async_write:
  "\<exists>c. chan_moves chan_slow_consumer chan_init = Some c \<and>
     chan_writer c = W_Panic \<and> chan_read_open c \<and> chan_write_open c"
  by (simp add: chan_slow_consumer_def chan_eval)

text \<open>
  With the watch the code uses, which notifies after it has stored the count, an open channel used by one producer and one
  consumer can fail: \<^verbatim>\<open>read\<close> can return a reference through the null \<^verbatim>\<open>value_\<close>, the handler of \<^verbatim>\<open>async_read\<close> can fail its check
  that the write count is past the read count, and the handler of \<^verbatim>\<open>async_write\<close> its check that its own value was consumed.
\<close>

theorem Channel_late_notification_fails:
  "(\<exists>c :: nat Channel. chan_step\<^sup>*\<^sup>* chan_init c \<and> chan_reader c = R_Null \<and> chan_read_open c \<and> chan_write_open c)
    \<and> (\<exists>c :: nat Channel. chan_step\<^sup>*\<^sup>* chan_init c \<and> chan_reader c = R_Panic \<and> chan_read_open c \<and> chan_write_open c)
    \<and> (\<exists>c :: nat Channel. chan_step\<^sup>*\<^sup>* chan_init c \<and> chan_writer c = W_Panic \<and> chan_read_open c \<and> chan_write_open c)"
  using chan_slow_producer_read chan_slow_producer_async_read chan_slow_consumer_async_write
  by (blast dest: chan_moves_steps)

text \<open>
  After \<open>2 ^ 31\<close> writes the write count is negative: with this value in flight, \<^verbatim>\<open>async_read\<close> does not see that the write count
  is past the read count and waits for the next write.
\<close>

lemma async_read_misses_wrapped_count:
  assumes "length (chan_written c) = 2 ^ 31" and "length (chan_consumed c) = 2 ^ 31 - 1" and "counts_ok c"
    and "chan_reader c = RA_Read (chan_write_count c)"
  shows "is_active c \<and>
    async_read_step b c = Some (c\<lparr>chan_reader := RA_Wait (chan_write_count c) (chan_read_count c)\<rparr>)"
proof -
  have "active c" using assms(1,2) by (simp add: active_def)
  moreover have "chan_write_count c = 2147483648" "chan_read_count c = 2147483647" using assms(1-3) by (simp_all add: counts_ok_def)
  ultimately show ?thesis using assms(3,4) by (simp add: is_active_active async_read_step_def Let_def)
qed

text \<open>
  After \<^verbatim>\<open>close_for_read\<close> the first write returns the closed status, but leaves the channel active, and the next
  write fails the check that it is not, where the comment of \<^verbatim>\<open>close_for_read\<close> says that all future calls fail with the
  closed status.
\<close>

theorem Channel_second_write_after_close_fails:
  "(\<exists>c. chan_moves (chan_write_once_closed) chan_init = Some c \<and> chan_writer c = W_Done kClosed)
    \<and> (\<exists>c. chan_moves (chan_write_once_closed @ [Do_write a 8, Run_writer True]) chan_init = Some c
        \<and> chan_writer c = W_Panic)"
  by (simp_all add: chan_write_once_closed_def chan_eval)

end
