(* ===== verification/Stream_Util.thy ===== *)
theory Stream_Util
  imports Batt_Status "HOL-Library.Char_ord"
begin

section \<open>Printing and parsing of text\<close>

text \<open>
  Models \<^verbatim>\<open>src/src/batteries/stream_util.hpp\<close>: \<open>from_string\<close> at \<^verbatim>\<open>i64\<close>, the escaped form of a string, the
  hexadecimal dump, the human-readable sizes and their parser, and the dump of nested ranges. Streams are the text written to them;
  a character is read as the byte \<^term>\<open>of_char c :: nat\<close>.
\<close>

subsection \<open>\<open>from_string\<close>\<close>

text \<open>What \<^verbatim>\<open>std::istream >> i64\<close> does in the classic locale with the default flags: skip white space, then an optional sign
  and decimal digits. If only white space is left the target is not assigned; otherwise a failed conversion stores 0 and one that is out
  of range stores the nearest \<^verbatim>\<open>i64\<close>.\<close>

record extract_result =
  ex_value :: "int option"
  ex_fail :: bool
  ex_eof :: bool

definition is_space :: "char \<Rightarrow> bool" where
  "is_space c \<longleftrightarrow> of_char c = (32::nat) \<or> (9::nat) \<le> of_char c \<and> of_char c \<le> (13::nat)"

definition is_digit :: "char \<Rightarrow> bool" where
  "is_digit c \<longleftrightarrow> (48::nat) \<le> of_char c \<and> of_char c \<le> (57::nat)"

definition digit_value :: "char \<Rightarrow> nat" where
  "digit_value c = of_char c - 48"

definition decimal_value :: "string \<Rightarrow> nat" where
  "decimal_value ds = foldl (\<lambda>n c. 10 * n + digit_value c) 0 ds"

definition extract_i64 :: "string \<Rightarrow> extract_result" where
  "extract_i64 str =
     (let s = dropWhile is_space str in
      if s = [] then \<lparr>ex_value = None, ex_fail = True, ex_eof = True\<rparr>
      else
        let negative = (hd s = CHR ''-'');
            t = (if hd s = CHR ''-'' \<or> hd s = CHR ''+'' then tl s else s);
            digits = takeWhile is_digit t;
            n = (if negative then - int (decimal_value digits) else int (decimal_value digits));
            m = max (- (2 ^ 63)) (min (2 ^ 63 - 1) n) in
        \<lparr>ex_value = Some (if digits = [] then 0 else m), ex_fail = (digits = [] \<or> m \<noteq> n), ex_eof = (dropWhile is_digit t = [])\<rparr>)"

text \<open>The result of \<^verbatim>\<open>from_string<i64>\<close>: \<open>Some (Some n)\<close> is the value \<open>n\<close>, \<open>Some None\<close> an optional that holds the unassigned
  local variable.\<close>

definition from_string :: "string \<Rightarrow> i64 option option" where
  "from_string str =
     (let iss = extract_i64 str in
      if (\<not> ex_fail iss \<and> \<not> ex_eof iss) \<or> ex_eof iss then Some (ex_value iss) else None)"

subsection \<open>Escaped strings\<close>

text \<open>The special text for the string that \<^verbatim>\<open>StringUpperBound\<close> returns, which the code recognises by its address, is left out.
  \<open>max_show\<close> is the value of \<^verbatim>\<open>max_show_length\<close>.\<close>

definition xdigit :: "int \<Rightarrow> char" where
  "xdigit n = ''0123456789abcdef'' ! nat n"

definition emit_hex_ascii :: "char \<Rightarrow> string" where
  "emit_hex_ascii ch = [CHR 0x5C, CHR ''x'', xdigit (and (drop_bit 4 (of_char ch)) 15), xdigit (and (of_char ch) 15)]"

definition escape_char :: "char \<Rightarrow> string" where
  "escape_char ch =
     (let n = (of_char ch :: int) in
      if and n 0x80 \<noteq> 0 then emit_hex_ascii ch
      else if and n 0x70 = 0 then
        (if and n 15 = 0 then [CHR 0x5C, CHR ''0'']
         else if and n 15 = 7 then [CHR 0x5C, CHR ''a'']
         else if and n 15 = 8 then [CHR 0x5C, CHR ''b'']
         else if and n 15 = 9 then [CHR 0x5C, CHR ''t'']
         else if and n 15 = 10 then [CHR 0x5C, CHR ''n'']
         else if and n 15 = 11 then [CHR 0x5C, CHR ''v'']
         else if and n 15 = 12 then [CHR 0x5C, CHR ''f'']
         else if and n 15 = 13 then [CHR 0x5C, CHR ''r'']
         else emit_hex_ascii ch)
      else if and n 0x70 = 0x10 then (if and n 15 = 11 then [CHR 0x5C, CHR ''e''] else emit_hex_ascii ch)
      else if and n 0x70 = 0x20 then (if and n 15 = 2 then [CHR 0x5C, CHR 0x22] else [ch])
      else if and n 0x70 = 0x50 then (if and n 15 = 12 then [CHR 0x5C, CHR 0x5C] else [ch])
      else if and n 0x70 = 0x70 then (if and n 15 = 15 then [CHR 0x5C, CHR ''x'', CHR ''7'', CHR ''f''] else [ch])
      else [ch])"

text \<open>Decimal output of a number, as \<^verbatim>\<open>operator<<\<close> of the stream prints it.\<close>

fun decimal :: "nat \<Rightarrow> string" where
  "decimal n = (if n < 10 then [char_of (48 + n)] else decimal (n div 10) @ [char_of (48 + n mod 10)])"

declare decimal.simps [simp del]

fun escape_loop :: "nat \<Rightarrow> nat \<Rightarrow> nat \<Rightarrow> string \<Rightarrow> string" where
  "escape_loop max_show len i [] = [CHR 0x22]"
| "escape_loop max_show len i (ch # rest) =
     (if i > max_show then [CHR 0x22] @ ''...('' @ decimal (len - i) @ '' skipped chars)''
      else escape_char ch @ escape_loop max_show len (i + 1) rest)"

definition c_str_literal :: "nat \<Rightarrow> string \<Rightarrow> string" where
  "c_str_literal max_show str = [CHR 0x22] @ escape_loop max_show (length str) 0 str"

text \<open>A reader of such literals, the reference for the round trip: it takes one escape at a time, two digits after \<^verbatim>\<open>\x\<close>.\<close>

definition hex_value :: "char \<Rightarrow> int" where
  "hex_value c = (if (48::int) \<le> of_char c \<and> of_char c \<le> (57::int) then of_char c - 48 else of_char c - 87)"

fun unescape_one :: "string \<Rightarrow> (char \<times> string) option" where
  "unescape_one [] = None"
| "unescape_one (c # r) =
     (if c = CHR 0x22 then None
      else if c \<noteq> CHR 0x5C then Some (c, r)
      else case r of
        [] \<Rightarrow> None
      | e # r' \<Rightarrow>
          if e = CHR ''x'' then (case r' of h # l # r'' \<Rightarrow> Some (char_of (16 * hex_value h + hex_value l), r'') | _ \<Rightarrow> None)
          else map_option (\<lambda>n. (char_of n, r'))
            (map_of [(CHR ''0'', 0), (CHR ''a'', 7), (CHR ''b'', 8), (CHR ''t'', 9), (CHR ''n'', 10), (CHR ''v'', 11),
               (CHR ''f'', 12), (CHR ''r'', 13), (CHR ''e'', 27), (CHR 0x22, 34), (CHR 0x5C, 92::int)] e))"

fun unescape :: "nat \<Rightarrow> string \<Rightarrow> string option" where
  "unescape 0 s = None"
| "unescape (Suc fuel) s =
     (if s = [CHR 0x22] then Some []
      else case unescape_one s of None \<Rightarrow> None | Some (c, r) \<Rightarrow> map_option ((#) c) (unescape fuel r))"

definition read_literal :: "string \<Rightarrow> string option" where
  "read_literal s = (case s of [] \<Rightarrow> None | c # r \<Rightarrow> if c = CHR 0x22 then unescape (Suc (length r)) r else None)"

lemma unescape_one_append: "unescape_one s = Some (c, r) \<Longrightarrow> unescape_one (s @ t) = Some (c, r @ t)"
  by (cases s rule: unescape_one.cases) (auto split: if_splits list.splits)

lemma unescape_one_escape: "unescape_one (escape_char c) = Some (c, [])"
proof -
  have "list_all (\<lambda>n. unescape_one (escape_char (char_of n)) = Some (char_of n, [])) [0..(255::int)]"
    by code_simp
  then have "unescape_one (escape_char (char_of n)) = Some (char_of n, [])" if "0 \<le> n" "n \<le> 255" for n :: int
    using that by (auto simp: list_all_iff)
  from this [of "of_char c mod 256"] show ?thesis
    using pos_mod_bound [of 256 "of_char c :: int"] pos_mod_sign [of 256 "of_char c :: int"] by simp
qed

lemma escape_char_first: "escape_char c \<noteq> [] \<and> hd (escape_char c) \<noteq> CHR 0x22"
  using unescape_one_escape [of c] by (cases "escape_char c") (auto split: if_splits)

lemma unescape_escape_loop:
  "length s + i \<le> max_show + 1 \<Longrightarrow> fuel > length s \<Longrightarrow> unescape fuel (escape_loop max_show len i s) = Some s"
proof (induction s arbitrary: i fuel)
  case Nil
  then show ?case by (cases fuel) auto
next
  case (Cons c s)
  obtain f where f: "fuel = Suc f" "f > length s"
    using Cons.prems by (cases fuel) auto
  have ne: "escape_char c @ escape_loop max_show len (Suc i) s \<noteq> [CHR 0x22]"
    using escape_char_first [of c] by (cases "escape_char c") auto
  show ?case
    using Cons ne f unescape_one_append [OF unescape_one_escape] by simp
qed

lemma length_escape_loop: "length s + i \<le> max_show + 1 \<Longrightarrow> length s < length (escape_loop max_show len i s)"
proof (induction s arbitrary: i)
  case (Cons c s)
  then have "length s < length (escape_loop max_show len (Suc i) s)"
    by simp
  then show ?case
    using Cons.prems escape_char_first [of c] by (cases "escape_char c") auto
qed simp

lemma escape_loop_cut:
  "max_show + 1 < i + length s \<Longrightarrow> i \<le> max_show + 1 \<Longrightarrow>
     escape_loop max_show len i s =
       concat (map escape_char (take (max_show + 1 - i) s)) @ [CHR 0x22] @ ''...('' @ decimal (len - (max_show + 1)) @ '' skipped chars)''"
proof (induction s arbitrary: i)
  case (Cons c s)
  then show ?case
    by (cases "i = max_show + 1") (auto simp: Suc_diff_le)
qed simp

text \<open>
  The escaped form of a string reads back as the string, whatever its bytes are, as long as it is not longer than the
  limit allows; a longer string is cut after one character more than the limit, and the count of skipped characters that is
  printed is the number of the others.
\<close>

theorem c_str_literal_reads_back:
  "(length s \<le> max_show + 1 \<longrightarrow> read_literal (c_str_literal max_show s) = Some s)
    \<and> (max_show + 1 < length s \<longrightarrow>
        c_str_literal max_show s =
          [CHR 0x22] @ concat (map escape_char (take (max_show + 1) s)) @ [CHR 0x22] @ ''...('' @
          decimal (length (drop (max_show + 1) s)) @ '' skipped chars)'')"
proof (intro conjI impI)
  assume "length s \<le> max_show + 1"
  then show "read_literal (c_str_literal max_show s) = Some s"
    using unescape_escape_loop [of s 0 max_show "Suc (length (escape_loop max_show (length s) 0 s))" "length s"]
      length_escape_loop [of s 0 max_show "length s"]
    by (simp add: c_str_literal_def read_literal_def)
next
  assume "max_show + 1 < length s"
  then show "c_str_literal max_show s =
      [CHR 0x22] @ concat (map escape_char (take (max_show + 1) s)) @ [CHR 0x22] @ ''...('' @
      decimal (length (drop (max_show + 1) s)) @ '' skipped chars)''"
    using escape_loop_cut [of max_show 0 s "length s"] by (simp add: c_str_literal_def)
qed

theorem c_str_literal_reads_back_witness:
  "read_literal (c_str_literal 2 [CHR ''a'', CHR 0x22, CHR 0x0A]) = Some [CHR ''a'', CHR 0x22, CHR 0x0A] \<and>
     c_str_literal 0 ''abc'' = [CHR 0x22, CHR ''a'', CHR 0x22] @ ''...('' @ decimal 2 @ '' skipped chars)''"
proof -
  have "escape_char (CHR ''a'') = ''a''"
    by code_simp
  with c_str_literal_reads_back [of "[CHR ''a'', CHR 0x22, CHR 0x0A]" 2] c_str_literal_reads_back [of "''abc''" 0] show ?thesis
    by (simp add: numeral_2_eq_2)
qed

subsection \<open>Hexadecimal dumps\<close>

fun hex_number :: "nat \<Rightarrow> string" where
  "hex_number n = (if n < 16 then [xdigit (int n)] else hex_number (n div 16) @ [xdigit (int (n mod 16))])"

declare hex_number.simps [simp del]

definition setw_zero :: "nat \<Rightarrow> string \<Rightarrow> string" where
  "setw_zero w s = replicate (w - length s) (CHR ''0'') @ s"

fun dump_hex_loop :: "nat \<Rightarrow> string \<Rightarrow> string" where
  "dump_hex_loop i [] = []"
| "dump_hex_loop i (b # bytes) =
     (if i mod 16 = 0 then setw_zero 8 (hex_number i) @ '': '' else []) @
     setw_zero 2 (hex_number (and (of_char b) 255)) @
     (if i mod 16 = 15 then [CHR 0x0A] else if i mod 2 = 1 then '' '' else []) @
     dump_hex_loop (i + 1) bytes"

definition dump_hex :: "string \<Rightarrow> string" where
  "dump_hex bytes = [CHR 0x0A] @ dump_hex_loop 0 bytes"

text \<open>A reader of such dumps, and that it gives the bytes back.\<close>

fun undump_loop :: "nat \<Rightarrow> nat \<Rightarrow> string \<Rightarrow> string" where
  "undump_loop 0 i s = []"
| "undump_loop (Suc n) i s =
     (let s = (if i mod 16 = 0 then drop 2 (dropWhile (\<lambda>c. c \<noteq> CHR '':'') s) else s);
          b = char_of (16 * hex_value (s ! 0) + hex_value (s ! 1));
          s = drop (if i mod 16 = 15 \<or> i mod 2 = 1 then 3 else 2) s in
      b # undump_loop n (i + 1) s)"

lemma xdigit_values: "n < 16 \<Longrightarrow> hex_value (xdigit (int n)) = int n \<and> xdigit (int n) \<noteq> CHR '':''"
proof -
  have "list_all (\<lambda>n. hex_value (xdigit n) = n \<and> xdigit n \<noteq> CHR '':'') [0..15::int]"
    by code_simp
  then show "n < 16 \<Longrightarrow> hex_value (xdigit (int n)) = int n \<and> xdigit (int n) \<noteq> CHR '':''"
    by (simp add: list_all_iff)
qed

lemma hex_number_no_colon: "CHR '':'' \<notin> set (hex_number n)"
proof (induction n rule: hex_number.induct)
  case (1 n)
  then show ?case
    using xdigit_values [of n] xdigit_values [of "n mod 16"] by (subst hex_number.simps) (auto dest: sym)
qed

lemma hex_byte: "n < 256 \<Longrightarrow> setw_zero 2 (hex_number n) = [xdigit (int (n div 16)), xdigit (int (n mod 16))]"
  using div_less_iff_less_mult [of 16 n 16]
  by (simp add: hex_number.simps [of n] hex_number.simps [of "n div 16"] setw_zero_def xdigit_def)

lemma hex_byte_reads_back:
  "\<exists>h l. setw_zero 2 (hex_number (and (of_char b) 255)) = [h, l] \<and> char_of (16 * hex_value h + hex_value l) = b"
proof -
  let ?n = "of_char b :: nat"
  have lt: "?n < 256"
    using mod_less_divisor [of 256 ?n] by simp
  have m: "and ?n 255 = ?n"
    using take_bit_eq_mask [of 8 ?n] lt by (simp add: take_bit_nat_eq_self mask_eq_exp_minus_1)
  have "hex_value (xdigit (int (?n div 16))) = int (?n div 16)" "hex_value (xdigit (int (?n mod 16))) = int (?n mod 16)"
    using xdigit_values [of "?n div 16"] xdigit_values [of "?n mod 16"] lt div_less_iff_less_mult [of 16 ?n 16] by auto
  then have "16 * hex_value (xdigit (int (?n div 16))) + hex_value (xdigit (int (?n mod 16))) = int ?n"
    by presburger
  then show ?thesis
    using m hex_byte [OF lt] by (simp add: of_nat_of_char)
qed

lemma undump_dump: "undump_loop (length bytes) i (dump_hex_loop i bytes) = bytes"
proof (induction bytes arbitrary: i)
  case (Cons b bytes)
  obtain h l where "setw_zero 2 (hex_number (and (of_char b) 255)) = [h, l]" "char_of (16 * hex_value h + hex_value l) = b"
    using hex_byte_reads_back by blast
  moreover have "dropWhile (\<lambda>c. c \<noteq> CHR '':'') (setw_zero 8 (hex_number i) @ CHR '':'' # s) = CHR '':'' # s" for s
    using hex_number_no_colon [of i] by (subst dropWhile_append2) (auto simp: setw_zero_def)
  ultimately show ?case
    using Cons [of "Suc i"] by (auto simp: Let_def)
qed simp

subsection \<open>Sizes\<close>

datatype UnitBase = kLog2 | kLog10

record SizeDumper =
  size_value :: nat
  size_exact :: bool

definition size_units :: "UnitBase \<Rightarrow> (nat \<times> string) list" where
  "size_units base = (case base of
       kLog2 \<Rightarrow> [(2 ^ 60, ''EiB''), (2 ^ 50, ''PiB''), (2 ^ 40, ''TiB''), (2 ^ 30, ''GiB''), (2 ^ 20, ''MiB''), (2 ^ 10, ''KiB''), (1, ''B'')]
     | kLog10 \<Rightarrow> [(10 ^ 18, ''EB''), (10 ^ 15, ''PB''), (10 ^ 12, ''TB''), (10 ^ 9, ''GB''), (10 ^ 6, ''MB''), (10 ^ 3, ''KB''), (1, ''B'')])"

text \<open>The loop of \<^verbatim>\<open>format\<close> and its results: the text, the number of parts, the order of the first unit and the remainder that is
  not printed.\<close>

fun format_impl :: "bool \<Rightarrow> (nat \<times> string) list \<Rightarrow> nat \<Rightarrow> bool \<Rightarrow> nat \<Rightarrow> string \<times> nat \<times> nat \<times> nat \<Rightarrow> string \<times> nat \<times> nat \<times> nat" where
  "format_impl exact [] n first_part unit_ord (oss, parts, ord, err) = (oss, parts, ord, err)"
| "format_impl exact ((d, unit_str) # units) n first_part unit_ord (oss, parts, ord, err) =
     (let q = n div d; r = n mod d in
      if q \<noteq> 0 \<or> d = 1 \<and> first_part then
        let ord = (if first_part then unit_ord else ord);
            oss = oss @ (if first_part then [] else ''+'') @ decimal q @ unit_str in
        if \<not> exact then (oss, parts + 1, ord, r)
        else format_impl exact units r False (unit_ord - 1) (oss, parts + 1, ord, err)
      else format_impl exact units r first_part (unit_ord - 1) (oss, parts, ord, err))"

definition SizeDumper_format :: "UnitBase \<Rightarrow> SizeDumper \<Rightarrow> string \<times> nat \<times> nat \<times> nat" where
  "SizeDumper_format base t = format_impl (size_exact t) (size_units base) (size_value t) True 7 ([], 0, 0, 0)"

definition print_size :: "SizeDumper \<Rightarrow> string" where
  "print_size t =
     (let (base2_str, base2_parts, base2_ord, base2_error) = SizeDumper_format kLog2 t;
          (base10_str, base10_parts, base10_ord, base10_error) = SizeDumper_format kLog10 t in
      if base10_parts < base2_parts \<or>
         base10_parts = base2_parts \<and> (base2_ord < base10_ord \<or> base2_ord = base10_ord \<and> base2_error \<noteq> 0 \<and> base10_error = 0)
      then (if base10_error = 0 then [] else ''~'') @ base10_str
      else (if base2_error = 0 then [] else ''~'') @ base2_str)"

definition dump_size :: "nat \<Rightarrow> string" where
  "dump_size n = print_size \<lparr>size_value = n, size_exact = False\<rparr>"

definition dump_size_exact :: "nat \<Rightarrow> string" where
  "dump_size_exact n = print_size \<lparr>size_value = n, size_exact = True\<rparr>"

definition is_letter :: "char \<Rightarrow> bool" where
  "is_letter c \<longleftrightarrow> (97::nat) \<le> of_char c \<and> of_char c \<le> (122::nat) \<or> (65::nat) \<le> of_char c \<and> of_char c \<le> (90::nat)"

definition to_lower :: "char \<Rightarrow> char" where
  "to_lower c = (if (65::nat) \<le> of_char c \<and> of_char c \<le> (90::nat) then char_of (of_char c + 32 :: nat) else c)"

definition unit_value :: "string \<Rightarrow> u64" where
  "unit_value s = (case s of [] \<Rightarrow> 1 | c # _ \<Rightarrow>
     (let l = to_lower c in
      if l = CHR ''b'' then 1
      else if l = CHR ''k'' then 2 ^ 10
      else if l = CHR ''m'' then 2 ^ 20
      else if l = CHR ''g'' then 2 ^ 30
      else if l = CHR ''t'' then 2 ^ 40
      else if l = CHR ''p'' then 2 ^ 50
      else if l = CHR ''e'' then 2 ^ 60
      else 1))"

text \<open>\<^verbatim>\<open>std::from_chars\<close> on a string of digits: an error when there are none and when the number is too large.\<close>

definition from_chars :: "string \<Rightarrow> u64 option" where
  "from_chars ds = (if ds = [] \<or> decimal_value ds \<ge> 2 ^ 64 then None else Some (of_nat (decimal_value ds)))"

lemma length_dropWhile2: "length (dropWhile Q (dropWhile P s)) \<le> length s"
  by (rule order_trans [OF length_dropWhile_le length_dropWhile_le])

text \<open>The loop of \<open>parse_byte_size\<close>; after a minus sign the rest is parsed by a recursive call.\<close>

function parse_size_loop :: "string \<Rightarrow> u64 \<Rightarrow> bool \<Rightarrow> u64 option" where
  "parse_size_loop s result_value have_result =
     (case s of
        [] \<Rightarrow> Some result_value
      | c # rest \<Rightarrow>
          if c = CHR ''+'' then parse_size_loop rest result_value have_result
          else if c = CHR ''-'' then
            (if \<not> have_result then None
             else case (if rest = [] then None else parse_size_loop rest 0 False) of
               None \<Rightarrow> None
             | Some delta \<Rightarrow> Some (result_value - delta))
          else case from_chars (takeWhile is_digit s) of
            None \<Rightarrow> None
          | Some num_value \<Rightarrow>
              let t = dropWhile is_digit s; u = dropWhile is_letter t in
              if u \<noteq> [] \<and> hd u \<noteq> CHR ''+'' \<and> hd u \<noteq> CHR ''-'' then None
              else parse_size_loop u (result_value + num_value * unit_value t) True)"
  by pat_completeness auto

termination
  by (relation "measure (\<lambda>(s, _, _). length s)")
    (auto simp: from_chars_def less_Suc_eq_le length_dropWhile2 split: if_splits)

declare parse_size_loop.simps [simp del]

definition parse_byte_size :: "string \<Rightarrow> u64 option" where
  "parse_byte_size s = (if s = [] then None else parse_size_loop s 0 False)"

lemma digit_char: "n < 10 \<Longrightarrow> is_digit (char_of (48 + n :: nat)) \<and> digit_value (char_of (48 + n :: nat)) = n"
  by (simp add: is_digit_def digit_value_def)

lemma decimal_text_digits: "\<forall>c \<in> set (decimal n). is_digit c" "decimal n \<noteq> []" "decimal_value (decimal n) = n"
proof (induction n rule: decimal.induct)
  case (1 n)
  { case 1
    show ?case using "1.IH" digit_char by (subst decimal.simps) auto }
  { case 2
    show ?case by (subst decimal.simps) auto }
  { case 3
    show ?case using "1.IH" digit_char [of "n mod 10"] digit_char [of n] by (subst decimal.simps) (auto simp: decimal_value_def) }
qed

lemma parse_size_plus: "parse_size_loop (''+'' @ s) v h = parse_size_loop s v h"
  by (subst parse_size_loop.simps) simp

lemma parse_size_term:
  assumes "q < 2 ^ 64" "\<forall>c \<in> set u. is_letter c" "u \<noteq> []" "rest = [] \<or> hd rest = CHR ''+''"
  shows "parse_size_loop (decimal q @ u @ rest) v h = parse_size_loop rest (v + of_nat q * unit_value u) True"
proof -
  have letter: "is_letter c \<Longrightarrow> \<not> is_digit c" for c
    by (auto simp: is_letter_def is_digit_def)
  have nd: "\<not> is_digit (hd (u @ rest))"
    using assms(2,3) letter by (cases u) auto
  have tk: "takeWhile is_digit (decimal q @ u @ rest) = decimal q" "dropWhile is_digit (decimal q @ u @ rest) = u @ rest"
    using decimal_text_digits(1) [of q] nd assms(3) by (cases u; simp)+
  have dr: "dropWhile is_letter (u @ rest) = rest"
    using assms(2,4) by (cases rest) (auto simp: is_letter_def)
  have uv: "unit_value (u @ rest) = unit_value u"
    using assms(3) by (cases u) (simp_all add: unit_value_def)
  obtain c d where d: "decimal q = c # d" "is_digit c"
    using decimal_text_digits(1,2) [of q] by (cases "decimal q") auto
  have c: "c \<noteq> CHR ''+''" "c \<noteq> CHR ''-''"
    using d(2) by (auto simp: is_digit_def)
  have fc: "from_chars (decimal q) = Some (of_nat q)"
    using assms(1) decimal_text_digits(2,3) [of q] by (simp add: from_chars_def)
  show ?thesis
    using tk dr uv fc c d assms(2,4) by (subst parse_size_loop.simps) (auto simp: Let_def)
qed

fun good_units :: "(nat \<times> string) list \<Rightarrow> bool" where
  "good_units [] = True"
| "good_units ((d, u) # us) \<longleftrightarrow> 0 < d \<and> (us = [] \<longrightarrow> d = 1) \<and> u \<noteq> [] \<and> (\<forall>c \<in> set u. is_letter c) \<and> unit_value u = of_nat d \<and> good_units us"

text \<open>The text that the loop appends in exact mode, and what the parser makes of it.\<close>

fun size_text :: "(nat \<times> string) list \<Rightarrow> nat \<Rightarrow> bool \<Rightarrow> string" where
  "size_text [] n first_part = []"
| "size_text ((d, u) # us) n first_part =
     (if n div d \<noteq> 0 \<or> d = 1 \<and> first_part
      then (if first_part then [] else ''+'') @ decimal (n div d) @ u @ size_text us (n mod d) False
      else size_text us (n mod d) first_part)"

lemma format_impl_text: "fst (format_impl True us n f uo (oss, p, o', e)) = oss @ size_text us n f"
  by (induction us n f arbitrary: uo oss p o' e rule: size_text.induct) (simp_all add: Let_def)

lemma size_text_head: "size_text us n False = [] \<or> hd (size_text us n False) = CHR ''+''"
  by (induction us n False rule: size_text.induct) auto

lemma size_text_parses:
  "good_units us \<Longrightarrow> us = [] \<longrightarrow> n = 0 \<Longrightarrow> n < 2 ^ 64 \<Longrightarrow> parse_size_loop (size_text us n f) v h = Some (v + of_nat n)"
proof (induction us n f arbitrary: v h rule: size_text.induct)
  case (1 n f)
  then show ?case
    by (subst parse_size_loop.simps) simp
next
  case (2 d u us n f)
  have d: "0 < d" "us = [] \<longrightarrow> n mod d = 0" "n mod d < 2 ^ 64" "n div d < 2 ^ 64" "good_units us"
    and u: "\<forall>c \<in> set u. is_letter c" "u \<noteq> []" "unit_value u = of_nat d"
    using "2.prems" by (auto intro: order_le_less_trans [OF div_le_dividend] order_le_less_trans [OF mod_less_eq_dividend])
  have sum: "of_nat (n div d) * of_nat d + of_nat (n mod d) = (of_nat n :: u64)"
    by (metis div_mult_mod_eq of_nat_add of_nat_mult)
  show ?case
  proof (cases "n div d \<noteq> 0 \<or> d = 1 \<and> f")
    case True
    then have "parse_size_loop (size_text ((d, u) # us) n f) v h =
        parse_size_loop (decimal (n div d) @ u @ size_text us (n mod d) False) v h"
      using parse_size_plus by simp
    also have "\<dots> = parse_size_loop (size_text us (n mod d) False) (v + of_nat (n div d) * of_nat d) True"
      using parse_size_term [OF d(4) u(1,2) size_text_head] u(3) by simp
    also have "\<dots> = Some (v + of_nat (n div d) * of_nat d + of_nat (n mod d))"
      using "2.IH"(1) [OF True d(5,2,3)] .
    finally show ?thesis
      by (simp add: add.assoc sum)
  next
    case False
    then show ?thesis
      using "2.IH"(2) [OF False d(5,2,3)] sum by auto
  qed
qed

lemma good_binary_units: "good_units (size_units kLog2)"
  by (simp add: size_units_def is_letter_def unit_value_def to_lower_def char_of_def bit_0 Let_def)

lemma size_text_not_empty: "good_units us \<Longrightarrow> us \<noteq> [] \<Longrightarrow> size_text us n True \<noteq> []"
  by (induction us n True rule: size_text.induct) auto

lemmas size_eval = SizeDumper_format_def size_units_def print_size_def dump_size_exact_def decimal.simps char_of_def bit_0 Let_def

text \<open>
  The exact form of every 64-bit size in binary units parses back to the size.
\<close>

theorem size_binary_reads_back:
  assumes "n < 2 ^ 64"
  shows "parse_byte_size (fst (SizeDumper_format kLog2 \<lparr>size_value = n, size_exact = True\<rparr>)) = Some (of_nat n)"
proof -
  have ne: "size_units kLog2 \<noteq> []"
    by (simp add: size_units_def)
  then show ?thesis
    using size_text_parses [OF good_binary_units _ assms, of True 0 False] size_text_not_empty [OF good_binary_units ne]
    by (simp add: SizeDumper_format_def format_impl_text parse_byte_size_def)
qed

theorem size_binary_reads_back_witness:
  "fst (SizeDumper_format kLog2 \<lparr>size_value = 1536, size_exact = True\<rparr>) = ''1KiB+512B'' \<and>
     parse_byte_size ''1KiB+512B'' = Some 1536"
proof -
  have "fst (SizeDumper_format kLog2 \<lparr>size_value = 1536, size_exact = True\<rparr>) = ''1KiB+512B''"
    by (simp add: size_eval)
  with size_binary_reads_back [of 1536] show ?thesis
    by simp
qed

lemmas parse_size_eval = parse_byte_size_def parse_size_loop.simps from_chars_def is_digit_def is_letter_def decimal_value_def
  digit_value_def unit_value_def to_lower_def char_of_def bit_0 Let_def

text \<open>
  Two readings of \<^verbatim>\<open>parse_byte_size\<close> differ from what the comments say. The exact text of 1000 bytes is \<open>1KB\<close>,
  in decimal units, and parses as 1024. And a plus after a minus is subtracted with it: the text \<open>10-3+2\<close> parses as 5.
\<close>

theorem parse_byte_size_misreads:
  "dump_size_exact 1000 = ''1KB'' \<and> parse_byte_size (dump_size_exact 1000) = Some 1024 \<and> parse_byte_size ''10-3+2'' = Some 5"
proof (intro conjI)
  show one: "dump_size_exact 1000 = ''1KB''"
    by (simp add: size_eval)
  show "parse_byte_size (dump_size_exact 1000) = Some 1024"
    unfolding one by (simp add: parse_size_eval)
  show "parse_byte_size ''10-3+2'' = Some 5"
    by (simp add: parse_size_eval)
qed

subsection \<open>Ranges\<close>

text \<open>A value that \<open>dump_item\<close> prints: one with its own printer (its text), a string, a byte, a pair, or a range of such values.
  The two thread-local variables, \<^verbatim>\<open>range_dump_pretty\<close> and \<^verbatim>\<open>range_dump_depth\<close>, are the state.\<close>

datatype Pretty = Pretty_True | Pretty_False | Pretty_Default

datatype dumped =
    D_Text string
  | D_String string
  | D_Byte nat
  | D_Pair dumped dumped
  | D_Range "dumped list"

record dump_state =
  range_dump_pretty :: Pretty
  range_dump_depth :: nat

definition pretty_print_indent :: "dump_state \<Rightarrow> string" where
  "pretty_print_indent st = replicate (range_dump_depth st * 2) (CHR '' '')"

definition is_pretty :: "Pretty \<Rightarrow> dump_state \<Rightarrow> bool" where
  "is_pretty p st = (if p = Pretty_Default then range_dump_pretty st = Pretty_True else p = Pretty_True)"

definition enter_range :: "bool \<Rightarrow> dump_state \<Rightarrow> dump_state" where
  "enter_range pretty st =
     st\<lparr>range_dump_pretty := (if pretty then Pretty_True else Pretty_False), range_dump_depth := range_dump_depth st + 1\<rparr>"

definition leave_range :: "Pretty \<Rightarrow> dump_state \<Rightarrow> dump_state" where
  "leave_range save_pretty st = st\<lparr>range_dump_depth := range_dump_depth st - 1, range_dump_pretty := save_pretty\<rparr>"

fun dump_item :: "nat \<Rightarrow> dumped \<Rightarrow> dump_state \<Rightarrow> string \<times> dump_state"
  and dump_items :: "nat \<Rightarrow> bool \<Rightarrow> string \<Rightarrow> dumped list \<Rightarrow> dump_state \<Rightarrow> string \<times> dump_state"
  and print_range :: "nat \<Rightarrow> Pretty \<Rightarrow> dumped list \<Rightarrow> dump_state \<Rightarrow> string \<times> dump_state" where
  "dump_item m (D_Text t) st = (t, st)"
| "dump_item m (D_String t) st = (c_str_literal m t, st)"
| "dump_item m (D_Byte b) st = (''0x'' @ [xdigit (int b div 16), xdigit (int b mod 16)], st)"
| "dump_item m (D_Pair x y) st =
     (let (a, st) = dump_item m x st; (b, st) = dump_item m y st in (''{'' @ a @ '', '' @ b @ ''}'', st))"
| "dump_item m (D_Range xs) st = print_range m Pretty_Default xs st"
| "dump_items m pretty indent [] st = ([], st)"
| "dump_items m pretty indent (x # xs) st =
     (let (a, st) = dump_item m x st; (b, st) = dump_items m pretty indent xs st in
      ((if pretty then ''  '' else []) @ a @ '', '' @ (if pretty then [CHR 0x0A] @ indent else []) @ b, st))"
| "print_range m p xs st =
     (let (body, st') = dump_items m (is_pretty p st) (pretty_print_indent st) xs (enter_range (is_pretty p st) st) in
      (''{ '' @ (if is_pretty p st \<and> xs \<noteq> [] then [CHR 0x0A] @ pretty_print_indent st else []) @ body @ ''}'',
       leave_range (range_dump_pretty st) st'))"

text \<open>Printing leaves the thread-local state as it was, so that what one statement prints does not depend on the ones before.\<close>

lemma dump_state_restored:
  "snd (dump_item m x st) = st"
  "snd (dump_items m pretty indent xs st) = st"
  "snd (print_range m p xs st) = st"
  by (induction m x st and m pretty indent xs st and m p xs st rule: dump_item_dump_items_print_range.induct)
    (auto simp: Let_def leave_range_def enter_range_def split: prod.splits)

end
