(* ===== verification/Url_Parse.thy ===== *)
theory Url_Parse
  imports Stream_Util
begin

section \<open>URL parser\<close>

text \<open>
  Models \<^verbatim>\<open>src/src/batteries/url_parse.hpp\<close>. A \<^verbatim>\<open>string_view\<close> is the text it shows. The port is what
  \<^term>\<open>from_string\<close> gives: no value, or a number, or the unassigned variable. A failed \<^verbatim>\<open>BATT_PANIC\<close> is \<open>Url_Panic\<close>.
\<close>

record UrlParse =
  url_scheme :: string
  url_user :: string
  url_host :: string
  url_port :: "i64 option option"
  url_path :: string
  url_query :: string
  url_fragment :: string

definition UrlParse_empty :: UrlParse where
  "UrlParse_empty = \<lparr>url_scheme = [], url_user = [], url_host = [], url_port = None, url_path = [], url_query = [], url_fragment = []\<rparr>"

datatype url_result = Url_Ok UrlParse | Url_Status StatusCode | Url_Panic

text \<open>\<^verbatim>\<open>find_first_of\<close>: the text before the first of the delimiters, and the text from it on (empty when there is none).\<close>

definition before :: "string \<Rightarrow> string \<Rightarrow> string" where
  "before delims s = takeWhile (\<lambda>c. c \<notin> set delims) s"

definition from_delim :: "string \<Rightarrow> string \<Rightarrow> string" where
  "from_delim delims s = dropWhile (\<lambda>c. c \<notin> set delims) s"

definition parse_url_query :: "string \<Rightarrow> UrlParse \<Rightarrow> url_result" where
  "parse_url_query url parse = (case from_delim ''#'' url of
       [] \<Rightarrow> Url_Ok (parse\<lparr>url_query := url\<rparr>)
     | _ # rest \<Rightarrow> Url_Ok (parse\<lparr>url_query := before ''#'' url, url_fragment := rest\<rparr>))"

definition parse_url_path :: "string \<Rightarrow> UrlParse \<Rightarrow> url_result" where
  "parse_url_path url parse = (case from_delim ''?#'' url of
       [] \<Rightarrow> Url_Ok (parse\<lparr>url_path := url\<rparr>)
     | c # rest \<Rightarrow>
         let parse = parse\<lparr>url_path := before ''?#'' url\<rparr> in
         if c = CHR ''?'' then parse_url_query rest parse
         else if c = CHR ''#'' then Url_Ok (parse\<lparr>url_fragment := rest\<rparr>)
         else Url_Panic)"

definition parse_url_port :: "string \<Rightarrow> UrlParse \<Rightarrow> url_result" where
  "parse_url_port url parse = (case from_string (before ''/'' url) of
       None \<Rightarrow> Url_Status kInvalidArgument
     | Some n \<Rightarrow> parse_url_path (from_delim ''/'' url) (parse\<lparr>url_port := Some n\<rparr>))"

text \<open>The end of \<open>parse_url_host\<close>: what may follow the host.\<close>

definition parse_after_host :: "string \<Rightarrow> UrlParse \<Rightarrow> url_result" where
  "parse_after_host url parse = (case url of
       [] \<Rightarrow> Url_Ok parse
     | c # rest \<Rightarrow>
         if c = CHR '':'' then parse_url_port rest parse
         else if c = CHR ''/'' then parse_url_path url parse
         else Url_Panic)"

definition parse_url_host :: "string \<Rightarrow> UrlParse \<Rightarrow> url_result" where
  "parse_url_host url parse =
     (if url = [] then Url_Ok parse
      else if hd url = CHR ''['' then
        (case from_delim '']'' (tl url) of
           [] \<Rightarrow> Url_Status kInvalidArgument
         | _ # rest \<Rightarrow> parse_after_host rest (parse\<lparr>url_host := before '']'' (tl url)\<rparr>))
      else
        (case from_delim '':/'' url of
           [] \<Rightarrow> Url_Ok (parse\<lparr>url_host := url\<rparr>)
         | _ \<Rightarrow> parse_after_host (from_delim '':/'' url) (parse\<lparr>url_host := before '':/'' url\<rparr>)))"

definition parse_url_auth :: "string \<Rightarrow> UrlParse \<Rightarrow> url_result" where
  "parse_url_auth url parse =
     (if url \<noteq> [] \<and> hd url = CHR ''['' then parse_url_host url parse
      else case from_delim ''@:/'' url of
        [] \<Rightarrow> Url_Ok (parse\<lparr>url_host := url\<rparr>)
      | c # rest \<Rightarrow>
          if c = CHR ''@'' then parse_url_host rest (parse\<lparr>url_user := before ''@:/'' url\<rparr>)
          else if c = CHR '':'' then parse_url_port rest (parse\<lparr>url_user := [], url_host := before ''@:/'' url\<rparr>)
          else if c = CHR ''/''
          then parse_url_path (c # rest) (parse\<lparr>url_user := [], url_host := before ''@:/'' url, url_port := None\<rparr>)
          else Url_Panic)"

definition parse_url :: "string \<Rightarrow> url_result" where
  "parse_url url =
     (if url = [] then Url_Ok UrlParse_empty
      else if hd url = CHR ''/'' then parse_url_path url UrlParse_empty
      else case from_delim '':'' url of
        [] \<Rightarrow> Url_Ok (UrlParse_empty\<lparr>url_scheme := url\<rparr>)
      | _ # rest \<Rightarrow>
          let parse = UrlParse_empty\<lparr>url_scheme := before '':'' url\<rparr> in
          if length rest > 1 \<and> rest ! 0 = CHR ''/'' \<and> rest ! 1 = CHR ''/''
          then parse_url_auth (drop 2 rest) parse
          else parse_url_path rest parse)"

subsection \<open>Text of a URL\<close>

text \<open>The reference: how the parts of a URL are written one after the other, with brackets around a host that has delimiters in
  it, and which parts can be told apart in the text.\<close>

definition host_text :: "string \<Rightarrow> string" where
  "host_text h = (if \<exists>c \<in> set h. c \<in> set '':/@['' then ''['' @ h @ '']'' else h)"

definition port_text :: "i64 option option \<Rightarrow> string" where
  "port_text p = (case p of Some (Some n) \<Rightarrow> '':'' @ decimal (nat n) | _ \<Rightarrow> [])"

definition tail_text :: "UrlParse \<Rightarrow> string" where
  "tail_text u = url_path u @ (if url_query u = [] then [] else ''?'' @ url_query u) @
     (if url_fragment u = [] then [] else ''#'' @ url_fragment u)"

definition url_text :: "UrlParse \<Rightarrow> string" where
  "url_text u = url_scheme u @ ''://'' @ (if url_user u = [] then [] else url_user u @ ''@'') @ host_text (url_host u) @
     port_text (url_port u) @ tail_text u"

definition url_ok :: "UrlParse \<Rightarrow> bool" where
  "url_ok u \<longleftrightarrow>
     url_scheme u \<noteq> [] \<and> hd (url_scheme u) \<noteq> CHR ''/'' \<and> CHR '':'' \<notin> set (url_scheme u) \<and>
     (\<forall>c \<in> set (url_user u). c \<notin> set ''@:/['') \<and> CHR '']'' \<notin> set (url_host u) \<and>
     (case url_port u of None \<Rightarrow> True | Some None \<Rightarrow> False | Some (Some n) \<Rightarrow> 0 \<le> n \<and> n < 2 ^ 63) \<and>
     (url_path u = [] \<and> url_query u = [] \<and> url_fragment u = [] \<or> url_path u \<noteq> [] \<and> hd (url_path u) = CHR ''/'') \<and>
     (\<forall>c \<in> set (url_path u). c \<notin> set ''?#'') \<and> CHR ''#'' \<notin> set (url_query u)"

lemma before_append:
  "\<forall>c \<in> set s. c \<notin> set delims \<Longrightarrow> t = [] \<or> hd t \<in> set delims \<Longrightarrow> before delims (s @ t) = s \<and> from_delim delims (s @ t) = t"
  unfolding before_def from_delim_def by (cases t) (auto simp: takeWhile_append2 dropWhile_append2)

lemma parse_tail:
  assumes "\<forall>c \<in> set (url_path u). c \<notin> set ''?#''" "CHR ''#'' \<notin> set (url_query u)"
  shows "parse_url_path (tail_text u) (u\<lparr>url_path := [], url_query := [], url_fragment := []\<rparr>) = Url_Ok u"
proof -
  let ?rest = "(if url_query u = [] then [] else ''?'' @ url_query u) @ (if url_fragment u = [] then [] else ''#'' @ url_fragment u)"
  have path: "before ''?#'' (tail_text u) = url_path u \<and> from_delim ''?#'' (tail_text u) = ?rest"
    unfolding tail_text_def by (rule before_append) (use assms in auto)
  have query: "before ''#'' (url_query u @ (if url_fragment u = [] then [] else ''#'' @ url_fragment u)) = url_query u \<and>
      from_delim ''#'' (url_query u @ (if url_fragment u = [] then [] else ''#'' @ url_fragment u)) =
        (if url_fragment u = [] then [] else ''#'' @ url_fragment u)"
    by (rule before_append) (use assms in auto)
  show ?thesis
    using path query by (auto simp: parse_url_path_def parse_url_query_def Let_def tail_text_def)
qed

lemma from_string_decimal:
  assumes "n < 2 ^ 63"
  shows "from_string (decimal n) = Some (Some (int n))"
proof -
  obtain c d where d: "decimal n = c # d"
    using decimal_text_digits(2) [of n] by (cases "decimal n") auto
  have "is_digit c"
    using decimal_text_digits(1) [of n] d by simp
  then have c: "\<not> is_space c" "c \<noteq> CHR ''-''" "c \<noteq> CHR ''+''"
    by (auto simp: is_digit_def is_space_def)
  have all: "takeWhile is_digit (c # d) = c # d" "dropWhile is_digit (c # d) = []"
    using decimal_text_digits(1) [of n] d by (simp_all only: takeWhile_eq_all_conv dropWhile_eq_Nil_conv)
  show ?thesis
    using c all decimal_text_digits(3) [of n] assms unfolding d from_string_def extract_i64_def
    by (auto simp: Let_def)
qed

lemma parse_after_host_text:
  assumes "url_ok u"
  shows "parse_after_host (port_text (url_port u) @ tail_text u)
           (u\<lparr>url_port := None, url_path := [], url_query := [], url_fragment := []\<rparr>) = Url_Ok u"
proof -
  have tail: "parse_url_path (tail_text u) (u\<lparr>url_path := [], url_query := [], url_fragment := []\<rparr>) = Url_Ok u"
    using assms by (intro parse_tail) (auto simp: url_ok_def)
  have head: "tail_text u = [] \<and> url_path u = [] \<and> url_query u = [] \<and> url_fragment u = [] \<or> (\<exists>t. tail_text u = CHR ''/'' # t)"
    using assms by (cases "url_path u") (auto simp: url_ok_def tail_text_def)
  consider (none) "url_port u = None" | (some) n where "url_port u = Some (Some (int n))" "n < 2 ^ 63"
  proof (cases "url_port u")
    case (Some p)
    then obtain m where m: "p = Some m" "0 \<le> m" "m < 2 ^ 63"
      using assms by (cases p) (auto simp: url_ok_def)
    then obtain n where "m = int n" "n < 2 ^ 63"
      by (cases m rule: int_cases) auto
    with m Some that show ?thesis
      by blast
  qed
  then show ?thesis
  proof cases
    case none
    then have eq: "u\<lparr>url_port := None, url_path := [], url_query := [], url_fragment := []\<rparr> =
        u\<lparr>url_path := [], url_query := [], url_fragment := []\<rparr>"
      by simp
    show ?thesis
      unfolding eq using none head tail by (auto simp: parse_after_host_def port_text_def)
  next
    case some
    have "before ''/'' (decimal n @ tail_text u) = decimal n \<and> from_delim ''/'' (decimal n @ tail_text u) = tail_text u"
      using decimal_text_digits(1) [of n] head by (intro before_append) (auto simp: is_digit_def)
    moreover have eq: "u\<lparr>url_path := [], url_query := [], url_fragment := [], url_port := Some (Some (int n))\<rparr> =
        u\<lparr>url_path := [], url_query := [], url_fragment := []\<rparr>"
      using some by simp
    have "parse_url_path (tail_text u)
        (u\<lparr>url_path := [], url_query := [], url_fragment := [], url_port := Some (Some (int n))\<rparr>) = Url_Ok u"
      unfolding eq by (rule tail)
    ultimately show ?thesis
      using some by (simp add: parse_after_host_def port_text_def parse_url_port_def from_string_decimal)
  qed
qed

lemma parse_host_text:
  assumes "CHR '']'' \<notin> set h" "rest = [] \<or> hd rest \<in> set '':/''" "url_host p = []"
  shows "parse_url_host (host_text h @ rest) p = parse_after_host rest (p\<lparr>url_host := h\<rparr>)"
proof (cases "\<exists>c \<in> set h. c \<in> set '':/@[''")
  case True
  then have "before '']'' (h @ '']'' @ rest) = h \<and> from_delim '']'' (h @ '']'' @ rest) = '']'' @ rest"
    using assms(1) by (intro before_append) auto
  then show ?thesis
    using True by (simp add: host_text_def parse_url_host_def)
next
  case False
  then have "before '':/'' (h @ rest) = h \<and> from_delim '':/'' (h @ rest) = rest"
    using assms(2) by (intro before_append) auto
  then show ?thesis
    using False assms(2,3) by (cases h; cases rest) (auto simp: host_text_def parse_url_host_def parse_after_host_def)
qed

lemma parse_auth_text:
  assumes "CHR '']'' \<notin> set h" "rest = [] \<or> hd rest \<in> set '':/''" "url_host p = []" "url_user p = []" "url_port p = None"
  shows "parse_url_auth (host_text h @ rest) p = parse_after_host rest (p\<lparr>url_host := h\<rparr>)"
proof (cases "\<exists>c \<in> set h. c \<in> set '':/@[''")
  case True
  then show ?thesis
    using parse_host_text [OF assms(1-3)] by (simp add: parse_url_auth_def host_text_def)
next
  case False
  then have "before ''@:/'' (h @ rest) = h \<and> from_delim ''@:/'' (h @ rest) = rest"
    using assms(2) by (intro before_append) auto
  moreover have "\<not> (h @ rest \<noteq> [] \<and> hd (h @ rest) = CHR ''['')"
    using False assms(2) by (cases h) auto
  moreover have "p\<lparr>url_user := [], url_host := h\<rparr> = p\<lparr>url_host := h\<rparr>"
    "p\<lparr>url_user := [], url_host := h, url_port := None\<rparr> = p\<lparr>url_host := h\<rparr>"
    using assms(4,5) by simp_all
  moreover have "host_text h = h"
    using False by (auto simp: host_text_def)
  ultimately show ?thesis
    using assms(2) unfolding parse_url_auth_def parse_after_host_def by (cases rest) auto
qed

lemma parse_scheme_text:
  assumes "s \<noteq> []" "hd s \<noteq> CHR ''/''" "CHR '':'' \<notin> set s"
  shows "parse_url (s @ ''://'' @ auth) = parse_url_auth auth (UrlParse_empty\<lparr>url_scheme := s\<rparr>)"
proof -
  have "before '':'' (s @ ''://'' @ auth) = s \<and> from_delim '':'' (s @ ''://'' @ auth) = ''://'' @ auth"
    using assms(3) by (intro before_append) auto
  then show ?thesis
    using assms(1,2) by (simp add: parse_url_def Let_def)
qed

text \<open>
  C18 (roundtrip). Parsing the text of a URL gives back its parts: scheme, user, host (a host with delimiters in brackets), port, path,
  query and fragment. This holds for a scheme that is not empty, does not start with a slash and has no colon; a user without
  the characters at, colon, slash and opening bracket; a host without a closing bracket; no port or one below \<open>2 ^ 63\<close>; a path that
  is empty, and then with neither query nor fragment (the code looks for them only after the slash of a path), or that starts
  with a slash and has no question mark and no hash; and a query without a hash.
\<close>

theorem parse_url_round_trip:
  assumes "url_ok u"
  shows "parse_url (url_text u) = Url_Ok u"
proof -
  let ?rest = "port_text (url_port u) @ tail_text u"
  let ?p = "UrlParse_empty\<lparr>url_scheme := url_scheme u\<rparr>"
  let ?auth = "(if url_user u = [] then [] else url_user u @ ''@'') @ host_text (url_host u) @ ?rest"
  have txt_eq: "url_text u = url_scheme u @ ''://'' @ ?auth"
    by (simp add: url_text_def)
  have rest: "?rest = [] \<or> hd ?rest \<in> set '':/''"
    using assms by (cases "url_path u") (auto simp: url_ok_def port_text_def tail_text_def split: option.splits)
  have host: "CHR '']'' \<notin> set (url_host u)"
    using assms by (simp add: url_ok_def)
  have "parse_url (url_text u) = parse_url_auth ?auth ?p"
    unfolding txt_eq using assms by (intro parse_scheme_text) (simp_all add: url_ok_def)
  also have "\<dots> = parse_after_host ?rest (?p\<lparr>url_user := url_user u, url_host := url_host u\<rparr>)"
  proof (cases "url_user u = []")
    case True
    then show ?thesis
      using parse_auth_text [OF host rest, of ?p] by (simp add: UrlParse_empty_def)
  next
    case False
    have "before ''@:/'' (url_user u @ ''@'' @ host_text (url_host u) @ ?rest) = url_user u \<and>
        from_delim ''@:/'' (url_user u @ ''@'' @ host_text (url_host u) @ ?rest) = ''@'' @ host_text (url_host u) @ ?rest"
      using assms by (intro before_append) (auto simp: url_ok_def)
    moreover have "hd (url_user u) \<noteq> CHR ''[''"
      using assms False by (cases "url_user u") (auto simp: url_ok_def)
    ultimately show ?thesis
      using False parse_host_text [OF host rest, of "?p\<lparr>url_user := url_user u\<rparr>"]
      by (simp add: parse_url_auth_def UrlParse_empty_def)
  qed
  also have "?p\<lparr>url_user := url_user u, url_host := url_host u\<rparr> =
      u\<lparr>url_port := None, url_path := [], url_query := [], url_fragment := []\<rparr>"
    by (simp add: UrlParse_empty_def)
  also have "parse_after_host ?rest \<dots> = Url_Ok u"
    by (rule parse_after_host_text [OF assms])
  finally show ?thesis .
qed

theorem parse_url_round_trip_witness:
  "parse_url ''ldap://me@[2001:db8::7]:389/c=GB?objectClass#one'' =
     Url_Ok \<lparr>url_scheme = ''ldap'', url_user = ''me'', url_host = ''2001:db8::7'', url_port = Some (Some 389), url_path = ''/c=GB'',
       url_query = ''objectClass'', url_fragment = ''one''\<rparr>"
proof -
  let ?u = "\<lparr>url_scheme = ''ldap'', url_user = ''me'', url_host = ''2001:db8::7'', url_port = Some (Some 389), url_path = ''/c=GB'',
       url_query = ''objectClass'', url_fragment = ''one''\<rparr>"
  have "url_text ?u = ''ldap://me@[2001:db8::7]:389/c=GB?objectClass#one''"
    by (simp add: url_text_def host_text_def port_text_def tail_text_def decimal.simps char_of_def bit_0)
  with parse_url_round_trip [of ?u] show ?thesis
    by (simp add: url_ok_def)
qed

text \<open>
  What the parser does with some other texts: a bracketed host that is not followed by a colon, a slash or the end reaches the
  panic that is marked as impossible; a query that follows the host directly becomes part of the host; an empty port gives a value
  that was never assigned; and a port out of the range of its type is accepted.
\<close>

theorem parse_url_unexpected:
  "parse_url ''ldap://[::1]?one'' = Url_Panic
    \<and> parse_url ''http://a?b=c'' = Url_Ok (UrlParse_empty\<lparr>url_scheme := ''http'', url_host := ''a?b=c''\<rparr>)
    \<and> parse_url ''http://a:/b'' = Url_Ok (UrlParse_empty\<lparr>url_scheme := ''http'', url_host := ''a'', url_port := Some None, url_path := ''/b''\<rparr>)
    \<and> parse_url ''http://a:99999999999999999999/b'' =
        Url_Ok (UrlParse_empty\<lparr>url_scheme := ''http'', url_host := ''a'', url_port := Some (Some (2 ^ 63 - 1)), url_path := ''/b''\<rparr>)"
proof (intro conjI)
  show "parse_url ''ldap://[::1]?one'' = Url_Panic"
    by code_simp
  show "parse_url ''http://a?b=c'' = Url_Ok (UrlParse_empty\<lparr>url_scheme := ''http'', url_host := ''a?b=c''\<rparr>)"
    by code_simp
  show "parse_url ''http://a:/b'' =
      Url_Ok (UrlParse_empty\<lparr>url_scheme := ''http'', url_host := ''a'', url_port := Some None, url_path := ''/b''\<rparr>)"
    by code_simp
  have "from_string ''99999999999999999999'' = Some (Some (2 ^ 63 - 1))"
    by (simp add: from_string_def extract_i64_def is_space_def is_digit_def decimal_value_def digit_value_def Let_def)
  then show "parse_url ''http://a:99999999999999999999/b'' =
      Url_Ok (UrlParse_empty\<lparr>url_scheme := ''http'', url_host := ''a'', url_port := Some (Some (2 ^ 63 - 1)), url_path := ''/b''\<rparr>)"
    by (simp add: parse_url_def before_def from_delim_def parse_url_auth_def parse_url_port_def parse_url_path_def Let_def
        UrlParse_empty_def)
qed

end
