(* ===== verification/Batt_Backoff.thy ===== *)
theory Batt_Backoff
  imports Complex_Main Batt_Status
begin

section \<open>Retry with backoff, and the rate limiter\<close>

text \<open>
  Models \<^verbatim>\<open>src/src/batteries/async/backoff.hpp\<close> and \<^verbatim>\<open>rate_limiter.hpp\<close>. The action that is retried is given by the
  status of each of its calls, and the time the loop sleeps between them is recorded. All counts and delays are 64-bit words; a
  division by zero, which traps, is \<open>None\<close>.
\<close>

record RetryState =
  should_retry :: bool
  n_attempts :: u64
  prev_delay_usec :: u64
  next_delay_usec :: u64

record ExponentialBackoff =
  max_attempts :: u64
  initial_delay_usec :: u64
  backoff_factor :: u64
  backoff_divisor :: u64
  max_delay_usec :: u64

definition RetryState_init :: RetryState where
  "RetryState_init = \<lparr>should_retry = False, n_attempts = 0, prev_delay_usec = 0, next_delay_usec = 0\<rparr>"

definition with_default_params :: ExponentialBackoff where
  "with_default_params =
     \<lparr>max_attempts = 40, initial_delay_usec = 10, backoff_factor = 2, backoff_divisor = 1, max_delay_usec = 250 * 1000\<rparr>"

definition update_retry_state :: "ExponentialBackoff \<Rightarrow> RetryState \<Rightarrow> RetryState option" where
  "update_retry_state policy state =
     (if n_attempts state \<ge> max_attempts policy then Some (state\<lparr>should_retry := False\<rparr>)
      else
        let state = state\<lparr>should_retry := True, n_attempts := n_attempts state + 1, prev_delay_usec := next_delay_usec state\<rparr> in
        if n_attempts state = 1 then Some (state\<lparr>next_delay_usec := initial_delay_usec policy\<rparr>)
        else if backoff_divisor policy = 0 then None
        else Some (state\<lparr>next_delay_usec :=
               min (max_delay_usec policy) (prev_delay_usec state * backoff_factor policy div backoff_divisor policy)\<rparr>))"

lemma unat_less_Suc: "n < (m :: u64) \<Longrightarrow> unat (n + 1) = unat n + 1"
  using unat_u64_less [of m] by (simp add: unat_word_ariths word_less_nat_alt)

lemma update_progress:
  assumes "update_retry_state p s = Some s'" and "should_retry s'"
  shows "unat (n_attempts s) < unat (max_attempts p) \<and> unat (n_attempts s') = unat (n_attempts s) + 1"
proof -
  have lt: "n_attempts s < max_attempts p"
    using assms by (auto simp: update_retry_state_def not_le split: if_splits)
  then show ?thesis
    using unat_less_Suc [OF lt] assms(1)
    by (auto simp: update_retry_state_def Let_def word_less_nat_alt word_le_nat_alt split: if_splits)
qed

text \<open>The loop of \<open>with_retry_policy\<close>: \<open>action i\<close> is the status of the call number \<open>i\<close>. The result has the status, the number of
  calls and the delays.\<close>

function retry_loop ::
  "ExponentialBackoff \<Rightarrow> (StatusCode \<Rightarrow> bool) \<Rightarrow> (nat \<Rightarrow> StatusCode) \<Rightarrow> RetryState \<Rightarrow> nat \<Rightarrow> u64 list \<Rightarrow>
     (StatusCode \<times> nat \<times> u64 list) option" where
  "retry_loop policy retryable action state i slept =
     (let result = action i in
      if result \<noteq> kOk \<and> retryable result then
        (case update_retry_state policy state of
           None \<Rightarrow> None
         | Some state \<Rightarrow>
             if should_retry state then retry_loop policy retryable action state (i + 1) (slept @ [next_delay_usec state])
             else Some (result, i + 1, slept))
      else Some (result, i + 1, slept))"
  by pat_completeness auto

termination
  by (relation "measure (\<lambda>(p, _, _, s, _, _). unat (max_attempts p) - unat (n_attempts s))")
    (auto dest!: update_progress)

declare retry_loop.simps [simp del]

definition with_retry_policy ::
    "ExponentialBackoff \<Rightarrow> (StatusCode \<Rightarrow> bool) \<Rightarrow> (nat \<Rightarrow> StatusCode) \<Rightarrow> (StatusCode \<times> nat \<times> u64 list) option" where
  "with_retry_policy policy retryable action = retry_loop policy retryable action RetryState_init 0 []"

text \<open>The delay before the retry number \<open>k\<close>, counted from 0.\<close>

fun delay_at :: "ExponentialBackoff \<Rightarrow> nat \<Rightarrow> u64" where
  "delay_at p 0 = initial_delay_usec p"
| "delay_at p (Suc k) = min (max_delay_usec p) (delay_at p k * backoff_factor p div backoff_divisor p)"

definition retry_state_ok :: "ExponentialBackoff \<Rightarrow> nat \<Rightarrow> RetryState \<Rightarrow> bool" where
  "retry_state_ok p k s \<longleftrightarrow> unat (n_attempts s) = k \<and> (0 < k \<longrightarrow> next_delay_usec s = delay_at p (k - 1))"

lemma update_retry_state_ok:
  assumes "retry_state_ok p k s" and "backoff_divisor p \<noteq> 0"
  shows "k < unat (max_attempts p) \<Longrightarrow> \<exists>s'. update_retry_state p s = Some s' \<and>
      should_retry s' \<and> retry_state_ok p (k + 1) s' \<and> next_delay_usec s' = delay_at p k"
    and "\<not> k < unat (max_attempts p) \<Longrightarrow> update_retry_state p s = Some (s\<lparr>should_retry := False\<rparr>)"
proof -
  assume lt: "k < unat (max_attempts p)"
  then have less: "n_attempts s < max_attempts p"
    using assms by (simp add: retry_state_ok_def word_less_nat_alt)
  have n: "unat (n_attempts s + 1) = k + 1"
    using unat_less_Suc [OF less] assms by (simp add: retry_state_ok_def)
  have one: "n_attempts s + 1 = 1 \<longleftrightarrow> k = 0"
    using n by (metis One_nat_def Suc_eq_plus1 add_is_0 nat.inject unat_1 unsigned_word_eqI)
  show "\<exists>s'. update_retry_state p s = Some s' \<and>
      should_retry s' \<and> retry_state_ok p (k + 1) s' \<and> next_delay_usec s' = delay_at p k"
    using less n one assms by (cases k) (auto simp: update_retry_state_def retry_state_ok_def Let_def not_le)
next
  assume "\<not> k < unat (max_attempts p)"
  then show "update_retry_state p s = Some (s\<lparr>should_retry := False\<rparr>)"
    using assms by (simp add: update_retry_state_def retry_state_ok_def word_le_nat_alt)
qed

lemma retry_loop_outcome:
  assumes "retry_state_ok p k s" "k \<le> unat (max_attempts p)" and div: "backoff_divisor p \<noteq> 0"
  shows "\<exists>j. retry_loop p retryable action s k (map (delay_at p) [0..<k]) = Some (action j, j + 1, map (delay_at p) [0..<j]) \<and>
    k \<le> j \<and> j \<le> unat (max_attempts p) \<and> (\<forall>i. k \<le> i \<and> i < j \<longrightarrow> action i \<noteq> kOk \<and> retryable (action i)) \<and>
    (action j = kOk \<or> \<not> retryable (action j) \<or> j = unat (max_attempts p))"
  using assms(1,2)
proof (induction "unat (max_attempts p) - k" arbitrary: k s)
  case 0
  then have k: "k = unat (max_attempts p)"
    by simp
  then show ?case
    using update_retry_state_ok(2) [OF 0(2) div] by (intro exI [of _ k]) (auto simp: retry_loop.simps [of _ _ _ s] Let_def)
next
  case (Suc m)
  then have lt: "k < unat (max_attempts p)"
    by simp
  from update_retry_state_ok(1) [OF Suc(3) div lt] obtain s' where up: "update_retry_state p s = Some s'"
    "should_retry s'" "retry_state_ok p (k + 1) s'" "next_delay_usec s' = delay_at p k" by blast
  show ?case
  proof (cases "action k \<noteq> kOk \<and> retryable (action k)")
    case True
    then have "retry_loop p retryable action s k (map (delay_at p) [0..<k]) =
        retry_loop p retryable action s' (k + 1) (map (delay_at p) [0..<k + 1])"
      using up by (subst retry_loop.simps) (simp add: Let_def)
    moreover obtain j where j: "retry_loop p retryable action s' (k + 1) (map (delay_at p) [0..<k + 1]) =
        Some (action j, j + 1, map (delay_at p) [0..<j])" "k + 1 \<le> j" "j \<le> unat (max_attempts p)"
      "\<forall>i. k + 1 \<le> i \<and> i < j \<longrightarrow> action i \<noteq> kOk \<and> retryable (action i)"
      "action j = kOk \<or> \<not> retryable (action j) \<or> j = unat (max_attempts p)"
    proof -
      have "m = unat (max_attempts p) - (k + 1)"
        using Suc(2) by simp
      then show ?thesis
        using Suc(1) [of "k + 1" s'] up lt that by auto
    qed
    moreover have "action i \<noteq> kOk \<and> retryable (action i)" if "k \<le> i" "i < j" for i
      using True j(4) that by (cases "i = k") auto
    ultimately show ?thesis
      using j(2,3,5) by (intro exI [of _ j]) auto
  next
    case False
    then show ?thesis
      using lt by (intro exI [of _ k]) (auto simp: retry_loop.simps [of _ _ _ s] Let_def)
  qed
qed

text \<open>
  C35 (functional). What the retry loop returns and how it waits under a policy whose divisor is not 0: it calls the action until a
  call succeeds, fails with a status that is not to be retried, or \<^verbatim>\<open>max_attempts\<close> retries have been made, so that it makes at most
  \<^verbatim>\<open>max_attempts\<close> + 1 calls (just one with \<^verbatim>\<open>max_attempts\<close> 0, which the comment in the code calls no maximum); it returns the
  status of the last call; and between the calls it sleeps for the initial delay, then each time for the previous delay times the
  factor (in 64 bits) over the divisor, at most the maximal delay.
\<close>

theorem with_retry_policy_outcome:
  assumes "backoff_divisor policy \<noteq> 0"
  shows "\<exists>j. with_retry_policy policy retryable action = Some (action j, j + 1, map (delay_at policy) [0..<j])
    \<and> j \<le> unat (max_attempts policy)
    \<and> (\<forall>i < j. action i \<noteq> kOk \<and> retryable (action i))
    \<and> (action j = kOk \<or> \<not> retryable (action j) \<or> j = unat (max_attempts policy))"
  using retry_loop_outcome [of policy 0 RetryState_init retryable action] assms
  by (simp add: with_retry_policy_def retry_state_ok_def RetryState_init_def)

theorem with_retry_policy_outcome_witness:
  "with_retry_policy with_default_params (\<lambda>s. s = kUnavailable) (\<lambda>i. if i < 3 then kUnavailable else kOk) = Some (kOk, 4, [10, 20, 40])"
proof -
  let ?a = "\<lambda>i::nat. if i < 3 then kUnavailable else kOk"
  have "backoff_divisor with_default_params \<noteq> 0" by (simp add: with_default_params_def)
  from with_retry_policy_outcome [OF this, of "\<lambda>s. s = kUnavailable" ?a]
  obtain j where j: "with_retry_policy with_default_params (\<lambda>s. s = kUnavailable) ?a =
      Some (?a j, j + 1, map (delay_at with_default_params) [0..<j])"
    "\<forall>i < j. ?a i \<noteq> kOk" "?a j = kOk \<or> ?a j \<noteq> kUnavailable \<or> j = unat (max_attempts with_default_params)"
    by blast
  have "\<not> 3 < j"
    using j(2) [rule_format, of 3] by auto
  moreover have "3 \<le> j"
    using j(3) \<open>\<not> 3 < j\<close> by (auto simp: with_default_params_def split: if_splits)
  ultimately have "j = 3"
    by simp
  moreover have "[0..<3] = [0, Suc 0, Suc (Suc 0)]"
    by (simp add: upt_rec)
  ultimately show ?thesis
    using j(1) by (simp add: with_default_params_def)
qed

text \<open>The policy says that a maximum of 0 means no maximum; with 0 the loop makes one call. A divisor of 0 traps when the second
  retry computes its delay.\<close>

lemma zero_max_attempts: "max_attempts policy = 0 \<Longrightarrow> with_retry_policy policy retryable action = Some (action 0, 1, [])"
  by (simp add: with_retry_policy_def retry_loop.simps update_retry_state_def RetryState_init_def Let_def)

lemma zero_divisor_traps:
  assumes "backoff_divisor policy = 0" and "1 < max_attempts policy"
    and "\<forall>i < 2. action i \<noteq> kOk \<and> retryable (action i)"
  shows "with_retry_policy policy retryable action = None"
proof -
  have "\<not> max_attempts policy \<le> 0" "\<not> max_attempts policy \<le> 1" using assms(2) by (auto simp: not_le intro: less_trans)
  moreover have "action 0 \<noteq> kOk \<and> retryable (action 0)" "action 1 \<noteq> kOk \<and> retryable (action 1)" using assms(3) by auto
  ultimately show ?thesis
    using assms(1) by (simp add: with_retry_policy_def retry_loop.simps [of _ _ _ _ 0] retry_loop.simps [of _ _ _ _ "Suc 0"]
        update_retry_state_def RetryState_init_def Let_def)
qed

subsection \<open>Rate limiter\<close>

text \<open>\<^verbatim>\<open>BasicRateLimiter\<close> at a time in microseconds since its construction. The code computes with doubles: a double is the
  rational number it stands for, and \<open>rnd\<close> is the rounding of the result of each conversion, division and multiplication. A failed
  check of \<open>poll\<close> is \<open>None\<close>.\<close>

record RateLimiter =
  rl_count :: int
  rl_rate :: rat
  rl_burst :: int

definition RateLimiter_init :: "rat \<Rightarrow> int \<Rightarrow> RateLimiter" where
  "RateLimiter_init rate burst = \<lparr>rl_count = 0, rl_rate = rate, rl_burst = burst\<rparr>"

definition elapsed_usec :: "(rat \<Rightarrow> rat) \<Rightarrow> nat \<Rightarrow> rat" where
  "elapsed_usec rnd now = rnd (of_nat now)"

definition elapsed_sec :: "(rat \<Rightarrow> rat) \<Rightarrow> nat \<Rightarrow> rat" where
  "elapsed_sec rnd now = rnd (elapsed_usec rnd now / (1000 * 1000))"

text \<open>The conversion to \<^verbatim>\<open>i64\<close> cuts off the fraction of a number that is not negative.\<close>

definition get_current_upper_bound :: "(rat \<Rightarrow> rat) \<Rightarrow> nat \<Rightarrow> RateLimiter \<Rightarrow> int" where
  "get_current_upper_bound rnd now rl = \<lfloor>rnd (elapsed_sec rnd now * rl_rate rl)\<rfloor>"

definition rl_poll :: "(rat \<Rightarrow> rat) \<Rightarrow> nat \<Rightarrow> RateLimiter \<Rightarrow> (bool \<times> RateLimiter) option" where
  "rl_poll rnd now rl =
     (let current_upper_bound = get_current_upper_bound rnd now rl;
          rl = (if current_upper_bound - rl_count rl > rl_burst rl then rl\<lparr>rl_count := current_upper_bound - rl_burst rl\<rparr> else rl) in
      if rl_count rl = current_upper_bound then Some (False, rl)
      else
        let rl = rl\<lparr>rl_count := rl_count rl + 1\<rparr> in
        if rl_count rl \<le> current_upper_bound then Some (True, rl) else None)"

definition rl_available :: "(rat \<Rightarrow> rat) \<Rightarrow> nat \<Rightarrow> RateLimiter \<Rightarrow> int" where
  "rl_available rnd now rl = max 0 (min (rl_burst rl) (get_current_upper_bound rnd now rl - rl_count rl))"

definition time_remaining_sec :: "(rat \<Rightarrow> rat) \<Rightarrow> nat \<Rightarrow> RateLimiter \<Rightarrow> rat" where
  "time_remaining_sec rnd now rl = rnd (rnd (rnd (of_int (rl_count rl + 1)) / rl_rate rl) - elapsed_sec rnd now)"

text \<open>A sequence of calls of \<open>poll\<close> at the given times, with the number of those that return true.\<close>

fun rl_polls :: "(rat \<Rightarrow> rat) \<Rightarrow> nat list \<Rightarrow> RateLimiter \<Rightarrow> (nat \<times> RateLimiter) option" where
  "rl_polls rnd [] rl = Some (0, rl)"
| "rl_polls rnd (now # later) rl =
     Option.bind (rl_poll rnd now rl) (\<lambda>(b, rl). Option.bind (rl_polls rnd later rl) (\<lambda>(n, rl). Some ((if b then n + 1 else n), rl)))"

lemma upper_bound_mono:
  assumes "mono rnd" and "s \<le> t" and "0 \<le> rl_rate rl"
  shows "get_current_upper_bound rnd s rl \<le> get_current_upper_bound rnd t rl"
  unfolding get_current_upper_bound_def elapsed_sec_def elapsed_usec_def
  using assms by (intro floor_mono mult_right_mono divide_right_mono monoD [OF assms(1)]) auto

lemma upper_bound_nonneg:
  assumes "mono rnd" and "rnd 0 = 0" and "0 \<le> rl_rate rl"
  shows "0 \<le> get_current_upper_bound rnd t rl"
proof -
  have "get_current_upper_bound rnd 0 rl = 0"
    by (simp add: get_current_upper_bound_def elapsed_sec_def elapsed_usec_def assms(2))
  with upper_bound_mono [OF assms(1) _ assms(3), of 0 t] show ?thesis by simp
qed

text \<open>After a poll the count is at most the upper bound and at least the upper bound less the burst, and the granted operations are
  at most the progress of the count.\<close>

lemma rl_poll_step:
  assumes "rl_count rl \<le> get_current_upper_bound rnd now rl" "0 \<le> rl_burst rl"
  shows "\<exists>b rl'. rl_poll rnd now rl = Some (b, rl') \<and> rl_rate rl' = rl_rate rl \<and> rl_burst rl' = rl_burst rl \<and>
    rl_count rl' \<le> get_current_upper_bound rnd now rl \<and> get_current_upper_bound rnd now rl - rl_burst rl \<le> rl_count rl' \<and>
    max (rl_count rl) (get_current_upper_bound rnd now rl - rl_burst rl) + (if b then 1 else 0) \<le> rl_count rl'"
  using assms unfolding rl_poll_def get_current_upper_bound_def Let_def by auto

lemma upper_bound_cong: "rl_rate rl' = rl_rate rl \<Longrightarrow> get_current_upper_bound rnd t rl' = get_current_upper_bound rnd t rl"
  by (simp add: get_current_upper_bound_def)

lemma rl_polls_bound:
  assumes rnd: "mono rnd" and "sorted (t # ts)" "rl_count rl \<le> get_current_upper_bound rnd t rl" "0 \<le> rl_burst rl" "0 \<le> rl_rate rl"
  shows "\<exists>n rl'. rl_polls rnd (t # ts) rl = Some (n, rl') \<and> rl_rate rl' = rl_rate rl \<and> rl_burst rl' = rl_burst rl \<and>
    rl_count rl' \<le> get_current_upper_bound rnd (last (t # ts)) rl \<and>
    int n \<le> get_current_upper_bound rnd (last (t # ts)) rl - max (rl_count rl) (get_current_upper_bound rnd t rl - rl_burst rl)"
  using assms(2-)
proof (induction ts arbitrary: t rl)
  case Nil
  obtain b rl' where "rl_poll rnd t rl = Some (b, rl')" "rl_rate rl' = rl_rate rl" "rl_burst rl' = rl_burst rl"
    "rl_count rl' \<le> get_current_upper_bound rnd t rl"
    "max (rl_count rl) (get_current_upper_bound rnd t rl - rl_burst rl) + (if b then 1 else 0) \<le> rl_count rl'"
    using rl_poll_step [OF Nil(2,3)] by blast
  then show ?case
    by (auto split: if_splits)
next
  case (Cons u ts)
  obtain b rl1 where p: "rl_poll rnd t rl = Some (b, rl1)" "rl_rate rl1 = rl_rate rl" "rl_burst rl1 = rl_burst rl"
    "rl_count rl1 \<le> get_current_upper_bound rnd t rl"
    "max (rl_count rl) (get_current_upper_bound rnd t rl - rl_burst rl) + (if b then 1 else 0) \<le> rl_count rl1"
    using rl_poll_step [OF Cons.prems(2,3)] by blast
  have "rl_count rl1 \<le> get_current_upper_bound rnd u rl1"
    using p(4) upper_bound_mono [OF rnd, of t u rl] Cons.prems(1,4) by (simp add: upper_bound_cong [OF p(2)])
  then obtain n rl2 where r: "rl_polls rnd (u # ts) rl1 = Some (n, rl2)" "rl_rate rl2 = rl_rate rl1" "rl_burst rl2 = rl_burst rl1"
    "rl_count rl2 \<le> get_current_upper_bound rnd (last (u # ts)) rl1"
    "int n \<le> get_current_upper_bound rnd (last (u # ts)) rl1 - max (rl_count rl1) (get_current_upper_bound rnd u rl1 - rl_burst rl1)"
    using Cons.IH [of u rl1] Cons.prems p(2,3) by auto
  have "rl_polls rnd (t # u # ts) rl = Some (if b then n + 1 else n, rl2)"
    using p(1) r(1) by (subst rl_polls.simps(2)) (simp del: rl_polls.simps)
  moreover have "last (t # u # ts) = last (u # ts)"
    by simp
  ultimately show ?case
    using r(2-5) p(2,3,5) by (auto simp: upper_bound_cong [OF p(2)] simp del: rl_polls.simps split: if_splits)
qed

lemma rl_polls_init:
  assumes "sorted (ts @ [t])" "0 \<le> burst" "0 \<le> rate" and rnd: "mono rnd" "rnd 0 = 0"
  shows "\<exists>n rl. rl_polls rnd ts (RateLimiter_init rate burst) = Some (n, rl) \<and> rl_rate rl = rate \<and> rl_burst rl = burst \<and>
    rl_count rl \<le> get_current_upper_bound rnd t rl"
proof (cases ts)
  case Nil
  then show ?thesis
    using assms upper_bound_nonneg [OF rnd, of "RateLimiter_init rate burst" t] by (simp add: RateLimiter_init_def)
next
  case (Cons u us)
  let ?rl = "RateLimiter_init rate burst"
  have "last (u # us) \<le> t"
    using assms(1) Cons by (auto simp: sorted_append)
  then have mono: "get_current_upper_bound rnd (last (u # us)) ?rl \<le> get_current_upper_bound rnd t ?rl"
    using assms(3) by (intro upper_bound_mono [OF rnd(1)]) (simp_all add: RateLimiter_init_def)
  have "sorted (u # us)" "rl_count ?rl \<le> get_current_upper_bound rnd u ?rl" "0 \<le> rl_burst ?rl" "0 \<le> rl_rate ?rl"
    using assms Cons upper_bound_nonneg [OF rnd, of ?rl u] by (auto simp: RateLimiter_init_def sorted_append)
  from rl_polls_bound [OF rnd(1) this] obtain n rl' where r: "rl_polls rnd (u # us) ?rl = Some (n, rl')" "rl_rate rl' = rl_rate ?rl"
    "rl_burst rl' = rl_burst ?rl" "rl_count rl' \<le> get_current_upper_bound rnd (last (u # us)) ?rl"
    by blast
  then have "rl_count rl' \<le> get_current_upper_bound rnd t rl'"
    using mono by (simp only: upper_bound_cong [OF r(2)])
  then show ?thesis
    unfolding Cons using r(1-3) by (intro exI [of _ n] exI [of _ rl']) (simp add: RateLimiter_init_def)
qed

text \<open>With an error of at most \<open>e\<close> relative to the exact result in each of the three roundings, the upper bound is the product of the
  rate and the time up to a factor between \<open>(1 - e) ^ 3\<close> and \<open>(1 + e) ^ 3\<close>.\<close>

lemma upper_bound_error:
  fixes e rate :: rat
  assumes "0 \<le> e" and "e \<le> 1" and "0 \<le> rl_rate rl"
    and r: "\<And>x. x \<in> {of_nat t, elapsed_usec rnd t / (1000 * 1000), elapsed_sec rnd t * rl_rate rl} \<Longrightarrow>
      x * (1 - e) \<le> rnd x \<and> rnd x \<le> x * (1 + e)"
  shows "\<lfloor>of_nat t / (1000 * 1000) * rl_rate rl * (1 - e) ^ 3\<rfloor> \<le> get_current_upper_bound rnd t rl"
    and "get_current_upper_bound rnd t rl \<le> \<lfloor>of_nat t / (1000 * 1000) * rl_rate rl * (1 + e) ^ 3\<rfloor>"
proof -
  let ?k = "1000 * 1000 :: rat" and ?u = "elapsed_usec rnd t" and ?s = "elapsed_sec rnd t" and ?r = "rl_rate rl"
  have u: "of_nat t * (1 - e) \<le> ?u" "?u \<le> of_nat t * (1 + e)" using r [of "of_nat t"] by (simp_all add: elapsed_usec_def)
  have s: "?u / ?k * (1 - e) \<le> ?s" "?s \<le> ?u / ?k * (1 + e)" using r [of "?u / ?k"] by (simp_all add: elapsed_sec_def)
  have p: "?s * ?r * (1 - e) \<le> rnd (?s * ?r)" "rnd (?s * ?r) \<le> ?s * ?r * (1 + e)" using r [of "?s * ?r"] by simp_all
  have "of_nat t / ?k * ?r * (1 - e) ^ 3 = of_nat t * (1 - e) / ?k * (1 - e) * ?r * (1 - e)" by (simp add: power3_eq_cube)
  also have "\<dots> \<le> ?u / ?k * (1 - e) * ?r * (1 - e)"
    using u(1) assms(1-3) by (intro mult_right_mono divide_right_mono) auto
  also have "\<dots> \<le> ?s * ?r * (1 - e)" using s(1) assms(1-3) by (intro mult_right_mono) auto
  finally have "of_nat t / ?k * ?r * (1 - e) ^ 3 \<le> rnd (?s * ?r)" using p(1) by (rule order_trans)
  then show "\<lfloor>of_nat t / ?k * ?r * (1 - e) ^ 3\<rfloor> \<le> get_current_upper_bound rnd t rl"
    unfolding get_current_upper_bound_def by (rule floor_mono)
  have "?s * ?r * (1 + e) \<le> ?u / ?k * (1 + e) * ?r * (1 + e)" using s(2) assms(1-3) by (intro mult_right_mono) auto
  also have "\<dots> \<le> of_nat t * (1 + e) / ?k * (1 + e) * ?r * (1 + e)"
    using u(2) assms(1-3) by (intro mult_right_mono divide_right_mono) auto
  also have "\<dots> = of_nat t / ?k * ?r * (1 + e) ^ 3" by (simp add: power3_eq_cube)
  finally have "rnd (?s * ?r) \<le> of_nat t / ?k * ?r * (1 + e) ^ 3" using p(2) by (rule order_trans [rotated])
  then show "get_current_upper_bound rnd t rl \<le> \<lfloor>of_nat t / ?k * ?r * (1 + e) ^ 3\<rfloor>"
    unfolding get_current_upper_bound_def by (rule floor_mono)
qed

text \<open>
  C37 (bounds). The rate limiter limits, whatever the rounding of the double arithmetic, as long as it is monotone and keeps 0 (as
  every rounding mode of IEEE 754 does), the rate and the burst are not negative, and the upper bound fits an \<^verbatim>\<open>i64\<close>: for every
  sequence of calls of \<^verbatim>\<open>poll\<close> in the order of time, and every window of it, the number of calls in the window that are allowed is at
  most the burst plus what the upper bound that the code computes, the rounded product of the elapsed time and the rate without its
  fraction, grows from the first to the last call of the window; and the check of the code never fails.
\<close>

theorem RateLimiter_limits:
  assumes "sorted (before @ t # window)" "0 \<le> burst" "0 \<le> rate" and "mono rnd" and "rnd 0 = 0"
    and "burst < 2 ^ 63" and "get_current_upper_bound rnd (last (t # window)) (RateLimiter_init rate burst) < 2 ^ 63"
  shows "\<exists>m n rl rl'. rl_polls rnd before (RateLimiter_init rate burst) = Some (m, rl) \<and>
    rl_polls rnd (t # window) rl = Some (n, rl') \<and>
    int n \<le> burst + (get_current_upper_bound rnd (last (t # window)) (RateLimiter_init rate burst) -
      get_current_upper_bound rnd t (RateLimiter_init rate burst))"
proof -
  let ?rl = "RateLimiter_init rate burst"
  have srt: "sorted (before @ [t])" "sorted (t # window)"
    using assms(1) by (auto simp: sorted_append)
  obtain m rl where rl: "rl_polls rnd before ?rl = Some (m, rl)" "rl_rate rl = rate" "rl_burst rl = burst"
    "rl_count rl \<le> get_current_upper_bound rnd t rl"
    using rl_polls_init [OF srt(1) assms(2-5)] by blast
  have same: "get_current_upper_bound rnd x rl = get_current_upper_bound rnd x ?rl" for x
    by (rule upper_bound_cong) (simp add: rl(2) RateLimiter_init_def)
  obtain n rl' where "rl_polls rnd (t # window) rl = Some (n, rl')"
    "int n \<le> get_current_upper_bound rnd (last (t # window)) rl - max (rl_count rl) (get_current_upper_bound rnd t rl - rl_burst rl)"
    using rl_polls_bound [OF assms(4) srt(2) rl(4)] assms(2,3) rl(2,3) by blast
  moreover from this(2) have "int n \<le> burst + (get_current_upper_bound rnd (last (t # window)) ?rl - get_current_upper_bound rnd t ?rl)"
    unfolding same rl(3) by simp
  ultimately show ?thesis using rl(1) by blast
qed

text \<open>A rounding to the nearest multiple of a power of two. With it, as with doubles, a product can end below the integer it exactly
  is: polls at 0.29 and 0.30 seconds with a rate of 100 allow a call more than the burst and the exact products give.\<close>

definition example_rnd :: "rat \<Rightarrow> rat" where
  "example_rnd x = of_int \<lfloor>x * 2 ^ 40 + 1 / 2\<rfloor> / 2 ^ 40"

lemma mono_example_rnd: "mono example_rnd"
  unfolding example_rnd_def by (intro monoI divide_right_mono) (auto intro!: floor_mono)

lemma example_rnd_eq:
  assumes "of_int k \<le> x * 2 ^ 40 + 1 / 2" and "x * 2 ^ 40 + 1 / 2 < of_int k + 1"
  shows "example_rnd x = of_int k / 2 ^ 40"
  using floor_unique [OF assms] by (simp add: example_rnd_def)

lemma example_upper_bounds:
  assumes "rl_rate rl = 100"
  shows "get_current_upper_bound example_rnd 290000 rl = 28" and "get_current_upper_bound example_rnd 300000 rl = 30"
proof -
  have u: "elapsed_usec example_rnd 290000 = 290000" "elapsed_usec example_rnd 300000 = 300000"
    using example_rnd_eq [of "290000 * 2 ^ 40" 290000] example_rnd_eq [of "300000 * 2 ^ 40" 300000]
    by (simp_all add: elapsed_usec_def)
  have s: "elapsed_sec example_rnd 290000 = 318858372055 / 2 ^ 40" "elapsed_sec example_rnd 300000 = 329853488333 / 2 ^ 40"
    using example_rnd_eq [of 318858372055 "290000 / (1000 * 1000)"] example_rnd_eq [of 329853488333 "300000 / (1000 * 1000)"]
    unfolding elapsed_sec_def u by simp_all
  have "example_rnd (318858372055 / 2 ^ 40 * 100) = 31885837205500 / 2 ^ 40"
    "example_rnd (329853488333 / 2 ^ 40 * 100) = 32985348833300 / 2 ^ 40"
    using example_rnd_eq [of 31885837205500 "318858372055 / 2 ^ 40 * 100"]
      example_rnd_eq [of 32985348833300 "329853488333 / 2 ^ 40 * 100"] by simp_all
  then show "get_current_upper_bound example_rnd 290000 rl = 28" "get_current_upper_bound example_rnd 300000 rl = 30"
    unfolding get_current_upper_bound_def assms s by (simp_all only:) (rule floor_unique, simp, simp)+
qed

theorem RateLimiter_limits_witness:
  "\<exists>m n rl rl'. rl_polls example_rnd [] (RateLimiter_init 100 2) = Some (m, rl) \<and>
     rl_polls example_rnd [290000, 290000, 290000, 300000, 300000, 300000] rl = Some (n, rl') \<and> int n \<le> 4"
proof -
  have "example_rnd 0 = 0" using example_rnd_eq [of 0 0] by simp
  with RateLimiter_limits [of "[]" 290000 "[290000, 290000, 300000, 300000, 300000]" 2 100 example_rnd] mono_example_rnd
  show ?thesis by (simp add: example_upper_bounds RateLimiter_init_def [of 100] del: rl_polls.simps)
qed

lemma rounding_allows_more:
  "\<exists>rl. rl_polls example_rnd [290000, 290000, 290000, 300000, 300000, 300000] (RateLimiter_init 100 2) = Some (4, rl)"
  by (simp add: rl_poll_def Let_def RateLimiter_init_def example_upper_bounds)

end
