(* ===== verification/Status_Registry.thy ===== *)
theory Status_Registry
  imports Batt_Status
begin

section \<open>The registry of status codes\<close>

text \<open>
  Models the registry behind \<^verbatim>\<open>batt::Status\<close> (\<^verbatim>\<open>src/src/batteries/status.hpp\<close>, \<^verbatim>\<open>status_impl.hpp\<close>): groups of codes, one for
  each enumeration type that was registered, their texts, the numbers that statuses are made of, and the conversion of error codes of
  custom categories. A type is identified by a number, the enumerators of a type are integers. A failed check or assertion, and a
  null group, is \<open>None\<close>. The registration of one type is a step: the code runs it once in the initialiser of a static variable.
\<close>

definition kGroupSize :: int where "kGroupSize = 4096"
definition kMaxGroupCount :: nat where "kMaxGroupCount = 256"
definition kMaxCodeNumericRange :: int where "kMaxCodeNumericRange = 0xffff"

record CodeEntry =
  entry_code :: int
  entry_enum_value :: int
  entry_message :: string

record CodeGroup =
  group_index :: nat
  min_enum_value :: int
  enum_value_to_code :: "int list"
  group_entries :: "CodeEntry list"

record registry =
  next_index :: nat
  registered_groups :: "nat \<Rightarrow> CodeGroup option"
  group_of_type :: "nat \<Rightarrow> CodeGroup option"
  done_types :: "nat list"

definition registry_init :: registry where
  "registry_init = \<lparr>next_index = 0, registered_groups = (\<lambda>_. None), group_of_type = (\<lambda>_. None), done_types = []\<rparr>"

definition unknown_enum_value_message :: string where
  "unknown_enum_value_message = ''(Unknown enum value; not registered via batt::Status::register_codes)''"

text \<open>The loop over the codes: entries with consecutive codes, and the extreme values.\<close>

fun make_entries :: "int \<Rightarrow> (int \<times> string) list \<Rightarrow> CodeEntry list" where
  "make_entries next_code [] = []"
| "make_entries next_code ((v, m) # codes) =
     \<lparr>entry_code = next_code, entry_enum_value = v, entry_message = m\<rparr> # make_entries (next_code + 1) codes"

fun min_value :: "(int \<times> string) list \<Rightarrow> int \<Rightarrow> int" where
  "min_value [] m = m"
| "min_value ((v, _) # codes) m = min_value codes (min m v)"

fun max_value :: "(int \<times> string) list \<Rightarrow> int \<Rightarrow> int" where
  "max_value [] m = m"
| "max_value ((v, _) # codes) m = max_value codes (max m v)"

fun fill_table :: "int \<Rightarrow> CodeEntry list \<Rightarrow> int list \<Rightarrow> int list" where
  "fill_table lo [] table = table"
| "fill_table lo (e # es) table = fill_table lo es (table[nat (entry_enum_value e - lo) := entry_code e])"

definition make_group :: "nat \<Rightarrow> (int \<times> string) list \<Rightarrow> CodeGroup option" where
  "make_group index codes =
     (let first = int index * kGroupSize;
          es = make_entries first codes;
          lo = min_value codes (2 ^ 31 - 1);
          hi = max_value codes (- (2 ^ 31));
          next_code = first + int (length codes) in
      if hi - lo > kMaxCodeNumericRange then None
      else Some \<lparr>group_index = index, min_enum_value = lo,
             enum_value_to_code = fill_table lo es (replicate (nat (hi - lo + 1)) next_code),
             group_entries = es @ [\<lparr>entry_code = next_code, entry_enum_value = hi + 1, entry_message = unknown_enum_value_message\<rparr>]\<rparr>)"

definition register_codes :: "nat \<Rightarrow> (int \<times> string) list \<Rightarrow> registry \<Rightarrow> registry option" where
  "register_codes t codes reg =
     (if t \<in> set (done_types reg) then Some reg
      else
        let i = next_index reg; reg = reg\<lparr>next_index := i + 1, done_types := t # done_types reg\<rparr> in
        if \<not> i < kMaxGroupCount then None
        else if codes = [] then Some reg
        else case make_group i codes of
          None \<Rightarrow> None
        | Some g \<Rightarrow>
            if group_of_type reg t \<noteq> None then None
            else Some (reg\<lparr>group_of_type := (group_of_type reg)(t := Some g),
                           registered_groups := (registered_groups reg)(i := Some g)\<rparr>))"

definition get_index_of_group :: "int \<Rightarrow> nat" where
  "get_index_of_group v = nat (v div kGroupSize)"

definition get_index_within_group :: "int \<Rightarrow> nat" where
  "get_index_within_group v = nat (v mod kGroupSize)"

definition get_entry_from_code :: "registry \<Rightarrow> int \<Rightarrow> CodeEntry option" where
  "get_entry_from_code reg v =
     (if get_index_of_group v < kMaxGroupCount then
        (case registered_groups reg (get_index_of_group v) of
           None \<Rightarrow> None
         | Some g \<Rightarrow> if get_index_within_group v < length (group_entries g) then Some (group_entries g ! get_index_within_group v) else None)
      else None)"

definition message_from_code :: "registry \<Rightarrow> int \<Rightarrow> string option" where
  "message_from_code reg v = map_option entry_message (get_entry_from_code reg v)"

text \<open>The constructor of a status from an enumerator of type \<open>t\<close>.\<close>

definition Status_of_enum :: "registry \<Rightarrow> nat \<Rightarrow> int \<Rightarrow> int option" where
  "Status_of_enum reg t e =
     (case group_of_type reg t of
        None \<Rightarrow> None
      | Some g \<Rightarrow>
          if e < min_enum_value g then None
          else if \<not> e - min_enum_value g < int (length (enum_value_to_code g)) then None
          else
            let v = enum_value_to_code g ! nat (e - min_enum_value g) in
            if message_from_code reg v = None then None else Some v)"

definition Status_ok :: "int \<Rightarrow> bool" where
  "Status_ok v \<longleftrightarrow> v mod kGroupSize = 0"

definition Status_eq :: "int \<Rightarrow> int \<Rightarrow> bool" where
  "Status_eq l r \<longleftrightarrow> l = r \<or> Status_ok l \<and> Status_ok r"

subsection \<open>Error categories\<close>

text \<open>\<^verbatim>\<open>register_error_category\<close> and \<^verbatim>\<open>status_from_error_category\<close>: the maps of the categories in the global cache, which a mutex
  protects, and in the cache of the thread. The mutex is not recursive: a thread that locks it while it holds it waits for ever,
  which is \<open>Deadlock\<close>.\<close>

record category_caches =
  thread_cache :: "nat \<rightharpoonup> (int \<rightharpoonup> int)"
  global_cache :: "nat \<rightharpoonup> (int \<rightharpoonup> int)"
  category_types :: "nat list"
  map_mutex_held :: bool

datatype lookup_result = Found int | Deadlock

definition lock_map :: "category_caches \<Rightarrow> category_caches option" where
  "lock_map caches = (if map_mutex_held caches then None else Some (caches\<lparr>map_mutex_held := True\<rparr>))"

definition unlock_map :: "category_caches \<Rightarrow> category_caches" where
  "unlock_map caches = caches\<lparr>map_mutex_held := False\<rparr>"

fun category_map :: "registry \<Rightarrow> nat \<Rightarrow> int list \<Rightarrow> (int \<rightharpoonup> int) option" where
  "category_map reg t [] = Some Map.empty"
| "category_map reg t (c # cs) =
     Option.bind (Status_of_enum reg t c) (\<lambda>v. Option.bind (category_map reg t cs) (\<lambda>m. Some (m(c \<mapsto> v))))"

definition register_error_category ::
  "nat \<Rightarrow> nat \<Rightarrow> (int \<Rightarrow> string) \<Rightarrow> int list \<Rightarrow> registry \<times> category_caches \<Rightarrow> (registry \<times> category_caches) option" where
  "register_error_category category t message codes = (\<lambda>(reg, caches).
     if t \<in> set (category_types caches) then Some (reg, caches)
     else
       let caches = caches\<lparr>category_types := t # category_types caches\<rparr> in
       Option.bind (register_codes t (map (\<lambda>c. (c, message c)) codes) reg) (\<lambda>reg.
       Option.bind (category_map reg t codes) (\<lambda>m.
         Some (reg, if global_cache caches category = None
                    then caches\<lparr>global_cache := (global_cache caches)(category \<mapsto> m)\<rparr> else caches))))"

text \<open>The lock is held until the function returns, so also during the recursive call.\<close>

function status_from_error_category :: "nat \<Rightarrow> int \<Rightarrow> category_caches \<Rightarrow> lookup_result \<times> category_caches" where
  "status_from_error_category category code caches =
     (case Option.bind (thread_cache caches category) (\<lambda>m. m code) of
        Some s \<Rightarrow> (Found s, caches)
      | None \<Rightarrow>
          (case lock_map caches of
             None \<Rightarrow> (Deadlock, caches)
           | Some caches \<Rightarrow>
               (case global_cache caches category of
                  Some m \<Rightarrow>
                    (case status_from_error_category category code
                       (if thread_cache caches category = None
                        then caches\<lparr>thread_cache := (thread_cache caches)(category \<mapsto> m)\<rparr> else caches) of
                       (Deadlock, caches) \<Rightarrow> (Deadlock, caches)
                     | (Found s, caches) \<Rightarrow> (Found s, unlock_map caches))
                | None \<Rightarrow> (Found 2, unlock_map caches))))"
  by pat_completeness auto

termination
  by (relation "measure (\<lambda>(_, _, caches). if map_mutex_held caches then 0 else 1)") (auto simp: lock_map_def split: if_splits)

declare status_from_error_category.simps [simp del]

text \<open>The groups that every program starts with.\<close>

definition status_code_texts :: "(int \<times> string) list" where
  "status_code_texts =
     [(0, ''Ok''), (1, ''Cancelled''), (2, ''Unknown''), (3, ''Invalid Argument''), (4, ''Deadline Exceeded''), (5, ''Not Found''),
      (6, ''Already Exists''), (7, ''Permission Denied''), (8, ''Resource Exhausted''), (9, ''Failed Precondition''),
      (10, ''Aborted''), (11, ''Out of Range''), (12, ''Unimplemented''), (13, ''Internal''), (14, ''Unavailable''),
      (15, ''Data Loss''), (16, ''Unauthenticated''), (100, ''Closed''),
      (101, ''The requested grant count exceeds available count''), (102, ''Loop break''), (103, ''End of stream''),
      (104, ''The stream was closed before the end of data''), (105, ''The Grant was revoked'')]"

definition StatusBase :: "(int \<Rightarrow> string) \<Rightarrow> registry option" where
  "StatusBase strerror =
     Option.bind (register_codes 0 status_code_texts registry_init) (register_codes 1 (map (\<lambda>c. (c, strerror c)) [0..kGroupSize - 1]))"

subsection \<open>Registered codes are found again\<close>

lemma make_entries_nth:
  "length (make_entries n codes) = length codes"
  "j < length codes \<Longrightarrow> make_entries n codes ! j = \<lparr>entry_code = n + int j, entry_enum_value = fst (codes ! j), entry_message = snd (codes ! j)\<rparr>"
proof (induction n codes arbitrary: j rule: make_entries.induct)
  case (2 n v m codes)
  { case 1 show ?case using "2.IH" by simp }
  { case 2 then show ?case using "2.IH"(2) [of "j - 1"] by (cases j) auto }
qed simp_all

lemma map_enum_make_entries: "map entry_enum_value (make_entries n codes) = map fst codes"
  by (induction n codes rule: make_entries.induct) auto

lemma min_value_le: "min_value codes m \<le> m \<and> (\<forall>c \<in> set codes. min_value codes m \<le> fst c)"
proof (induction codes m rule: min_value.induct)
  case (2 v x codes m)
  then show ?case by (auto simp: min_le_iff_disj)
qed simp

lemma max_value_ge: "m \<le> max_value codes m \<and> (\<forall>c \<in> set codes. fst c \<le> max_value codes m)"
proof (induction codes m rule: max_value.induct)
  case (2 v x codes m)
  then show ?case by (auto simp: le_max_iff_disj)
qed simp

lemma min_value_in: "min_value codes m \<in> insert m (fst ` set codes)"
  by (induction codes m rule: min_value.induct) (force simp: min_def)+

lemma max_value_in: "max_value codes m \<in> insert m (fst ` set codes)"
  by (induction codes m rule: max_value.induct) (force simp: max_def)+

lemma length_fill_table [simp]: "length (fill_table lo es table) = length table"
  by (induction lo es table rule: fill_table.induct) auto

lemma fill_table_other:
  "\<forall>e \<in> set es. nat (entry_enum_value e - lo) \<noteq> x \<Longrightarrow> fill_table lo es table ! x = table ! x"
  by (induction lo es table rule: fill_table.induct) auto

lemma fill_table_entry:
  "e \<in> set es \<Longrightarrow> distinct (map entry_enum_value es) \<Longrightarrow> \<forall>e \<in> set es. lo \<le> entry_enum_value e \<Longrightarrow>
     nat (entry_enum_value e - lo) < length table \<Longrightarrow> fill_table lo es table ! nat (entry_enum_value e - lo) = entry_code e"
proof (induction lo es table rule: fill_table.induct)
  case (2 lo f es table)
  show ?case
  proof (cases "e \<in> set es")
    case True
    then show ?thesis
      using 2 by simp
  next
    case False
    then have e: "e = f"
      using 2 by simp
    have "\<forall>d \<in> set es. nat (entry_enum_value d - lo) \<noteq> nat (entry_enum_value e - lo)"
    proof
      fix d
      assume d: "d \<in> set es"
      then have "entry_enum_value d \<noteq> entry_enum_value e"
        using "2.prems"(2) e by (simp, metis imageI)
      moreover have "lo \<le> entry_enum_value d" "lo \<le> entry_enum_value e"
        using "2.prems"(1,3) d by auto
      ultimately show "nat (entry_enum_value d - lo) \<noteq> nat (entry_enum_value e - lo)"
        by (simp add: eq_nat_nat_iff)
    qed
    then show ?thesis
      using "2.prems"(4) e by (simp add: fill_table_other)
  qed
qed simp

text \<open>The lists of codes that can be registered.\<close>

definition codes_ok :: "(int \<times> string) list \<Rightarrow> bool" where
  "codes_ok codes \<longleftrightarrow> codes \<noteq> [] \<and> distinct (map fst codes) \<and>
     (\<forall>c \<in> set codes. - (2 ^ 31) \<le> fst c \<and> fst c < 2 ^ 31) \<and>
     (\<forall>c \<in> set codes. \<forall>d \<in> set codes. fst c - fst d \<le> kMaxCodeNumericRange)"

lemma extremes_in:
  assumes "codes_ok codes"
  shows "min_value codes (2 ^ 31 - 1) \<in> fst ` set codes" "max_value codes (- (2 ^ 31)) \<in> fst ` set codes"
proof -
  obtain c where mem: "c \<in> set codes"
    using assms by (cases codes) (auto simp: codes_ok_def)
  then have c: "c \<in> set codes" "- (2 ^ 31) \<le> fst c" "fst c \<le> 2 ^ 31 - 1"
    using assms by (auto simp: codes_ok_def)
  have "min_value codes (2 ^ 31 - 1) \<le> fst c" "fst c \<le> max_value codes (- (2 ^ 31))"
    using min_value_le max_value_ge c(1) by blast+
  then show "min_value codes (2 ^ 31 - 1) \<in> fst ` set codes" "max_value codes (- (2 ^ 31)) \<in> fst ` set codes"
    using min_value_in [of codes "2 ^ 31 - 1"] max_value_in [of codes "- (2 ^ 31)"] c by force+
qed

definition first_code :: "nat \<Rightarrow> int" where "first_code i = int i * kGroupSize"

lemma make_group_ok:
  assumes "codes_ok codes"
  obtains g where "make_group i codes = Some g" "group_index g = i"
    and "length (group_entries g) = length codes + 1"
    and "\<And>j. j < length codes \<Longrightarrow>
      group_entries g ! j = \<lparr>entry_code = first_code i + int j, entry_enum_value = fst (codes ! j), entry_message = snd (codes ! j)\<rparr>"
    and "entry_message (group_entries g ! length codes) = unknown_enum_value_message"
    and "\<And>j. j < length codes \<Longrightarrow> min_enum_value g \<le> fst (codes ! j) \<and>
      fst (codes ! j) - min_enum_value g < int (length (enum_value_to_code g)) \<and>
      enum_value_to_code g ! nat (fst (codes ! j) - min_enum_value g) = first_code i + int j"
    and "\<And>e. e \<notin> fst ` set codes \<Longrightarrow> \<exists>c \<in> set codes. fst c \<le> e \<Longrightarrow> \<exists>c \<in> set codes. e \<le> fst c \<Longrightarrow>
      min_enum_value g \<le> e \<and> e - min_enum_value g < int (length (enum_value_to_code g)) \<and>
      enum_value_to_code g ! nat (e - min_enum_value g) = first_code i + int (length codes)"
proof -
  define lo hi es where "lo = min_value codes (2 ^ 31 - 1)" and "hi = max_value codes (- (2 ^ 31))"
    and "es = make_entries (first_code i) codes"
  define table where "table = replicate (nat (hi - lo + 1)) (first_code i + int (length codes))"
  define g where "g = \<lparr>group_index = i, min_enum_value = lo, enum_value_to_code = fill_table lo es table,
      group_entries = es @ [\<lparr>entry_code = first_code i + int (length codes), entry_enum_value = hi + 1,
        entry_message = unknown_enum_value_message\<rparr>]\<rparr>"
  have range: "hi - lo \<le> kMaxCodeNumericRange"
  proof -
    obtain c d where "c \<in> set codes" "d \<in> set codes" "hi = fst c" "lo = fst d"
      using extremes_in [OF assms] unfolding lo_def hi_def by (auto simp del: fst_conv)
    then show ?thesis
      using assms by (simp add: codes_ok_def)
  qed
  have bounds: "lo \<le> fst c \<and> fst c \<le> hi" if "c \<in> set codes" for c
    using that min_value_le max_value_ge unfolding lo_def hi_def by blast
  have len: "length es = length codes" and es: "map entry_enum_value es = map fst codes"
    by (simp_all add: es_def make_entries_nth map_enum_make_entries)
  have vals: "set (map entry_enum_value es) = fst ` set codes"
    using es by simp
  show thesis
  proof (rule that)
    show "make_group i codes = Some g"
      using range by (simp add: make_group_def g_def table_def es_def lo_def hi_def first_code_def Let_def)
    show "group_index g = i" "length (group_entries g) = length codes + 1"
      "entry_message (group_entries g ! length codes) = unknown_enum_value_message"
      using len by (simp_all add: g_def nth_append)
    show "group_entries g ! j = \<lparr>entry_code = first_code i + int j, entry_enum_value = fst (codes ! j), entry_message = snd (codes ! j)\<rparr>"
      if "j < length codes" for j
      using that len make_entries_nth(2) [OF that] by (simp add: g_def nth_append es_def)
    show "min_enum_value g \<le> fst (codes ! j) \<and> fst (codes ! j) - min_enum_value g < int (length (enum_value_to_code g)) \<and>
        enum_value_to_code g ! nat (fst (codes ! j) - min_enum_value g) = first_code i + int j"
      if j: "j < length codes" for j
    proof -
      have b: "lo \<le> fst (codes ! j)" "fst (codes ! j) \<le> hi"
        using bounds j nth_mem by blast+
      have "es ! j \<in> set es"
        using j len by simp
      moreover have "entry_enum_value (es ! j) = fst (codes ! j)" "entry_code (es ! j) = first_code i + int j"
        using make_entries_nth(2) [OF j, of "first_code i"] by (simp_all add: es_def)
      ultimately have e: "es ! j \<in> set es" "entry_enum_value (es ! j) = fst (codes ! j)" "entry_code (es ! j) = first_code i + int j"
        by auto
      have "\<forall>e \<in> set es. lo \<le> entry_enum_value e"
        using vals bounds by (metis (no_types, lifting) image_eqI image_iff list.set_map)
      moreover have "distinct (map entry_enum_value es)"
        using assms es by (simp add: codes_ok_def)
      ultimately have "fill_table lo es table ! nat (fst (codes ! j) - lo) = first_code i + int j"
        using fill_table_entry [OF e(1), of lo table] e b by (simp add: table_def)
      then show ?thesis
        using b by (simp add: g_def table_def)
    qed
    show "min_enum_value g \<le> e \<and> e - min_enum_value g < int (length (enum_value_to_code g)) \<and>
        enum_value_to_code g ! nat (e - min_enum_value g) = first_code i + int (length codes)"
      if e: "e \<notin> fst ` set codes" "\<exists>c \<in> set codes. fst c \<le> e" "\<exists>c \<in> set codes. e \<le> fst c" for e
    proof -
      have b: "lo \<le> e" "e \<le> hi"
        using e(2,3) bounds by force+
      have "\<forall>d \<in> set es. nat (entry_enum_value d - lo) \<noteq> nat (e - lo)"
      proof
        fix d
        assume "d \<in> set es"
        then have d: "entry_enum_value d \<in> fst ` set codes"
          using vals by auto
        obtain c where "c \<in> set codes" "entry_enum_value d = fst c"
          using d by blast
        then have "lo \<le> entry_enum_value d" "entry_enum_value d \<noteq> e"
          using bounds [of c] e(1) d by auto
        then show "nat (entry_enum_value d - lo) \<noteq> nat (e - lo)"
          using b by (simp add: eq_nat_nat_iff)
      qed
      then show ?thesis
        using b by (simp add: g_def fill_table_other table_def)
    qed
  qed
qed

definition registry_ok :: "registry \<Rightarrow> bool" where
  "registry_ok reg \<longleftrightarrow>
     (\<forall>i g. registered_groups reg i = Some g \<longrightarrow> i < next_index reg) \<and>
     (\<forall>t. group_of_type reg t \<noteq> None \<longrightarrow> t \<in> set (done_types reg))"

lemma registry_init_ok: "registry_ok registry_init"
  by (simp add: registry_ok_def registry_init_def)

lemma code_index:
  "0 \<le> j \<Longrightarrow> j < kGroupSize \<Longrightarrow> get_index_of_group (first_code i + j) = i \<and> get_index_within_group (first_code i + j) = nat j"
  by (simp add: get_index_of_group_def get_index_within_group_def first_code_def kGroupSize_def)

lemma code_ok_iff: "0 \<le> j \<Longrightarrow> j < kGroupSize \<Longrightarrow> Status_ok (first_code i + j) \<longleftrightarrow> j = 0"
  by (simp add: Status_ok_def first_code_def kGroupSize_def)

text \<open>What the enumerators of a freshly registered type and their texts look up to, and that the others stay.\<close>

lemma register_codes_eq:
  assumes "registry_ok reg" "t \<notin> set (done_types reg)" "next_index reg < kMaxGroupCount" "codes \<noteq> []"
    "make_group (next_index reg) codes = Some g"
  shows "register_codes t codes reg =
    Some \<lparr>next_index = next_index reg + 1, registered_groups = (registered_groups reg)(next_index reg := Some g),
       group_of_type = (group_of_type reg)(t := Some g), done_types = t # done_types reg\<rparr>"
  using assms by (auto simp: register_codes_def Let_def registry_ok_def)

lemma Status_of_enum_entry:
  assumes "group_of_type reg t = Some g" "registered_groups reg i = Some g" "i < kMaxGroupCount"
    "min_enum_value g \<le> e" "e - min_enum_value g < int (length (enum_value_to_code g))"
    "enum_value_to_code g ! nat (e - min_enum_value g) = first_code i + int j" "int j < kGroupSize" "j < length (group_entries g)"
  shows "Status_of_enum reg t e = Some (first_code i + int j) \<and>
    get_entry_from_code reg (first_code i + int j) = Some (group_entries g ! j)"
proof -
  have "get_entry_from_code reg (first_code i + int j) = Some (group_entries g ! j)"
    using assms(2,3,7,8) code_index [of "int j" i] by (simp add: get_entry_from_code_def)
  then show ?thesis
    using assms by (simp add: Status_of_enum_def message_from_code_def Let_def)
qed

lemma get_entry_frame:
  assumes "get_entry_from_code reg v = Some x" "registry_ok reg"
    "registered_groups reg' = (registered_groups reg)(next_index reg := Some g)"
  shows "get_entry_from_code reg' v = Some x"
proof -
  have "get_index_of_group v \<noteq> next_index reg"
    using assms(1,2) by (fastforce simp: get_entry_from_code_def registry_ok_def split: if_splits option.splits)
  then show ?thesis
    using assms(1,3) by (auto simp: get_entry_from_code_def split: if_splits)
qed

lemma register_codes_succeeds:
  assumes "registry_ok reg" "t \<notin> set (done_types reg)" "next_index reg < kMaxGroupCount" "codes_ok codes"
  shows "\<exists>reg'. register_codes t codes reg = Some reg' \<and> registry_ok reg' \<and>
    next_index reg' = next_index reg + 1 \<and> done_types reg' = t # done_types reg"
proof -
  obtain g where "make_group (next_index reg) codes = Some g"
    by (rule make_group_ok [OF assms(4)])
  then show ?thesis
    using register_codes_eq [OF assms(1-3)] assms(1,4) by (auto simp: codes_ok_def registry_ok_def)
qed

lemma StatusBase_succeeds: "\<exists>reg. StatusBase strerror = Some reg \<and> registry_ok reg \<and> next_index reg = 2"
proof -
  have "codes_ok status_code_texts"
    by (simp add: codes_ok_def status_code_texts_def kMaxCodeNumericRange_def)
  then obtain reg where reg: "register_codes 0 status_code_texts registry_init = Some reg" "registry_ok reg" "next_index reg = 1"
    "done_types reg = [0]"
    using register_codes_succeeds [OF registry_init_ok, of 0 status_code_texts]
    by (auto simp: registry_init_def kMaxGroupCount_def)
  have "map fst (map (\<lambda>c. (c, strerror c)) [0..kGroupSize - 1]) = [0..kGroupSize - 1]"
    by (simp add: comp_def)
  then have "codes_ok (map (\<lambda>c. (c, strerror c)) [0..kGroupSize - 1])"
    unfolding codes_ok_def by (auto simp: kGroupSize_def kMaxCodeNumericRange_def)
  then show ?thesis
    using register_codes_succeeds [OF reg(2), of 1] reg by (fastforce simp: StatusBase_def kMaxGroupCount_def numeral_2_eq_2)
qed

text \<open>Registration, in the form that the properties use.\<close>

lemma register_codes_found:
  assumes "registry_ok reg" "t \<notin> set (done_types reg)" "next_index reg < kMaxGroupCount" "codes_ok codes"
    "int (length codes) < kGroupSize"
  shows "\<exists>reg'. register_codes t codes reg = Some reg' \<and> registry_ok reg'
    \<and> (\<forall>j < length codes. \<exists>v x. Status_of_enum reg' t (fst (codes ! j)) = Some v \<and> get_entry_from_code reg' v = Some x \<and>
          entry_enum_value x = fst (codes ! j) \<and> entry_message x = snd (codes ! j) \<and> (Status_ok v \<longleftrightarrow> j = 0))
    \<and> (\<forall>e. e \<notin> fst ` set codes \<and> (\<exists>c \<in> set codes. fst c \<le> e) \<and> (\<exists>c \<in> set codes. e \<le> fst c) \<longrightarrow>
          (\<exists>v. Status_of_enum reg' t e = Some v \<and> message_from_code reg' v = Some unknown_enum_value_message \<and> \<not> Status_ok v))
    \<and> (\<forall>u e v. u \<noteq> t \<and> Status_of_enum reg u e = Some v \<longrightarrow>
          Status_of_enum reg' u e = Some v \<and> get_entry_from_code reg' v = get_entry_from_code reg v)"
proof -
  let ?i = "next_index reg"
  obtain g where g: "make_group ?i codes = Some g" "length (group_entries g) = length codes + 1"
    and ent: "\<And>j. j < length codes \<Longrightarrow>
      group_entries g ! j = \<lparr>entry_code = first_code ?i + int j, entry_enum_value = fst (codes ! j), entry_message = snd (codes ! j)\<rparr>"
    and unk: "entry_message (group_entries g ! length codes) = unknown_enum_value_message"
    and listed: "\<And>j. j < length codes \<Longrightarrow> min_enum_value g \<le> fst (codes ! j) \<and>
      fst (codes ! j) - min_enum_value g < int (length (enum_value_to_code g)) \<and>
      enum_value_to_code g ! nat (fst (codes ! j) - min_enum_value g) = first_code ?i + int j"
    and unlisted: "\<And>e. e \<notin> fst ` set codes \<Longrightarrow> \<exists>c \<in> set codes. fst c \<le> e \<Longrightarrow> \<exists>c \<in> set codes. e \<le> fst c \<Longrightarrow>
      min_enum_value g \<le> e \<and> e - min_enum_value g < int (length (enum_value_to_code g)) \<and>
      enum_value_to_code g ! nat (e - min_enum_value g) = first_code ?i + int (length codes)"
    by (rule make_group_ok [OF assms(4), of ?i]) blast
  define reg' where "reg' = \<lparr>next_index = ?i + 1, registered_groups = (registered_groups reg)(?i := Some g),
       group_of_type = (group_of_type reg)(t := Some g), done_types = t # done_types reg\<rparr>"
  have reg': "group_of_type reg' t = Some g" "registered_groups reg' ?i = Some g"
    by (simp_all add: reg'_def)
  have size: "0 < length codes" "int (length codes) < kGroupSize"
    using assms(4,5) by (auto simp: codes_ok_def)
  have "register_codes t codes reg = Some reg'"
    unfolding reg'_def using register_codes_eq [OF assms(1-3) _ g(1)] size by simp
  moreover have "registry_ok reg'"
    using assms(1) by (auto simp: registry_ok_def reg'_def split: if_splits)
  moreover have "\<exists>v x. Status_of_enum reg' t (fst (codes ! j)) = Some v \<and> get_entry_from_code reg' v = Some x \<and>
      entry_enum_value x = fst (codes ! j) \<and> entry_message x = snd (codes ! j) \<and> (Status_ok v \<longleftrightarrow> j = 0)"
    if "j < length codes" for j
    using Status_of_enum_entry [OF reg' assms(3), of "fst (codes ! j)" j] listed [OF that] ent [OF that] that size g(2)
      code_ok_iff [of "int j" ?i] by simp
  moreover have "\<exists>v. Status_of_enum reg' t e = Some v \<and> message_from_code reg' v = Some unknown_enum_value_message \<and> \<not> Status_ok v"
    if "e \<notin> fst ` set codes" "\<exists>c \<in> set codes. fst c \<le> e" "\<exists>c \<in> set codes. e \<le> fst c" for e
    using Status_of_enum_entry [OF reg' assms(3), of e "length codes"] unlisted [OF that] unk size g(2)
      code_ok_iff [of "int (length codes)" ?i] by (simp add: message_from_code_def)
  moreover have "Status_of_enum reg' u e = Some v \<and> get_entry_from_code reg' v = get_entry_from_code reg v"
    if ut: "u \<noteq> t" and st: "Status_of_enum reg u e = Some v" for u e v
  proof -
    obtain x where x: "get_entry_from_code reg v = Some x"
      using st by (auto simp: Status_of_enum_def Let_def message_from_code_def split: option.splits if_splits)
    have x': "get_entry_from_code reg' v = Some x"
      by (rule get_entry_frame [OF x assms(1)]) (simp add: reg'_def)
    have "group_of_type reg' u = group_of_type reg u"
      using ut by (simp add: reg'_def)
    then show ?thesis
      using st x x' by (auto simp: Status_of_enum_def Let_def message_from_code_def split: option.splits if_splits)
  qed
  ultimately show ?thesis
    by blast
qed

text \<open>
  C24 (roundtrip). A list of codes that is registered for a type that was not registered before is found again, if the list is not
  empty and has fewer than 4096 codes, its enumerators are distinct 32-bit numbers of which no two are more than 65535 apart,
  and one of the code groups is still free: every enumerator of the list becomes a status whose
  entry has this enumerator and its text, and which is ok exactly for the first of the list; an enumerator between them that is not in
  the list becomes a status that is not ok and has the text for unknown values; and the statuses of all types registered before
  and their entries stay as they are.
\<close>

theorem register_codes_round_trip:
  assumes "registry_ok reg" "t \<notin> set (done_types reg)" "next_index reg < kMaxGroupCount" "codes_ok codes"
    "int (length codes) < kGroupSize"
  shows "\<exists>reg'. register_codes t codes reg = Some reg' \<and> registry_ok reg'
    \<and> (\<forall>j < length codes. \<exists>v x. Status_of_enum reg' t (fst (codes ! j)) = Some v \<and> get_entry_from_code reg' v = Some x \<and>
          entry_enum_value x = fst (codes ! j) \<and> entry_message x = snd (codes ! j) \<and> (Status_ok v \<longleftrightarrow> j = 0))
    \<and> (\<forall>e. e \<notin> fst ` set codes \<and> (\<exists>c \<in> set codes. fst c \<le> e) \<and> (\<exists>c \<in> set codes. e \<le> fst c) \<longrightarrow>
          (\<exists>v. Status_of_enum reg' t e = Some v \<and> message_from_code reg' v = Some unknown_enum_value_message \<and> \<not> Status_ok v))
    \<and> (\<forall>u e v. u \<noteq> t \<and> Status_of_enum reg u e = Some v \<longrightarrow>
          Status_of_enum reg' u e = Some v \<and> get_entry_from_code reg' v = get_entry_from_code reg v)"
  using register_codes_found [OF assms] .

theorem register_codes_round_trip_witness:
  "\<exists>reg v. register_codes 7 [(200, ''HTTP Ok''), (100, ''HTTP Continue''), (300, ''HTTP Redirect'')] registry_init = Some reg \<and>
     Status_of_enum reg 7 100 = Some v \<and> \<not> Status_ok v"
proof -
  let ?codes = "[(200, ''HTTP Ok''), (100, ''HTTP Continue''), (300, ''HTTP Redirect'')] :: (int \<times> string) list"
  have "codes_ok ?codes" "int (length ?codes) < kGroupSize"
    by (simp_all add: codes_ok_def kMaxCodeNumericRange_def kGroupSize_def)
  moreover have "7 \<notin> set (done_types registry_init)" "next_index registry_init < kMaxGroupCount"
    by (simp_all add: registry_init_def kMaxGroupCount_def)
  ultimately obtain reg where reg: "register_codes 7 ?codes registry_init = Some reg"
    "\<forall>j < length ?codes. \<exists>v x. Status_of_enum reg 7 (fst (?codes ! j)) = Some v \<and> get_entry_from_code reg v = Some x \<and>
          entry_enum_value x = fst (?codes ! j) \<and> entry_message x = snd (?codes ! j) \<and> (Status_ok v \<longleftrightarrow> j = 0)"
    using register_codes_round_trip [of registry_init 7 ?codes, OF registry_init_ok] by blast
  from reg(2) [rule_format, of 1] reg(1) show ?thesis
    by auto
qed

text \<open>A group that is full has no code of its own left for unknown values: they get the first code of the next group, which is ok.\<close>

lemma full_group_unknown_is_ok:
  assumes "codes_ok codes" "int (length codes) = kGroupSize" "make_group i codes = Some g"
    "e \<notin> fst ` set codes" "\<exists>c \<in> set codes. fst c \<le> e" "\<exists>c \<in> set codes. e \<le> fst c"
  shows "Status_ok (enum_value_to_code g ! nat (e - min_enum_value g))"
proof -
  have "enum_value_to_code g ! nat (e - min_enum_value g) = first_code i + int (length codes)"
    by (rule make_group_ok [OF assms(1), of i]) (use assms(3-6) in auto)
  then show ?thesis
    using assms(2) by (simp add: Status_ok_def first_code_def)
qed

lemma category_map_eq:
  "\<forall>c \<in> set codes. Status_of_enum reg t c \<noteq> None \<Longrightarrow>
     \<exists>m. category_map reg t codes = Some m \<and> (\<forall>c. m c = (if c \<in> set codes then Status_of_enum reg t c else None))"
proof (induction codes)
  case (Cons c codes)
  then obtain m v where "category_map reg t codes = Some m" "\<forall>c. m c = (if c \<in> set codes then Status_of_enum reg t c else None)"
    "Status_of_enum reg t c = Some v" by auto
  then show ?case by auto
qed simp

text \<open>A lookup when the thread has not seen the category, and when it has the map of it.\<close>

lemma lookup_first:
  assumes "\<not> map_mutex_held caches" and "thread_cache caches category = None"
  shows "status_from_error_category category code caches =
    (case global_cache caches category of
       None \<Rightarrow> (Found 2, caches)
     | Some m \<Rightarrow>
         let caches = caches\<lparr>thread_cache := (thread_cache caches)(category \<mapsto> m)\<rparr> in
         (case m code of Some v \<Rightarrow> (Found v, caches) | None \<Rightarrow> (Deadlock, caches\<lparr>map_mutex_held := True\<rparr>)))"
proof -
  have "unlock_map (caches\<lparr>map_mutex_held := True\<rparr>) = caches" "caches\<lparr>map_mutex_held := False\<rparr> = caches"
    using assms(1) by (cases caches; simp add: unlock_map_def)+
  with assms show ?thesis
    by (subst status_from_error_category.simps, subst status_from_error_category.simps)
      (auto simp: lock_map_def unlock_map_def Let_def split: option.splits)
qed

lemma lookup_known:
  "thread_cache caches category = Some m \<Longrightarrow> m code = Some v \<Longrightarrow> status_from_error_category category code caches = (Found v, caches)"
  by (simp add: status_from_error_category.simps)

text \<open>
  C36 (error). A custom error category that is registered for a type that was not registered before (with a list of codes as for
  \<^verbatim>\<open>register_codes\<close>) and was not seen before: an error code of it that is in the list gives, the first time and again, the status
  whose entry has this code and the message of the category for it; a category that is in no cache gives \<^verbatim>\<open>kUnknown\<close>, as the comment
  promises; but an error code of the registered category that is not in the list makes the thread lock the mutex of the global cache
  while it holds it, so that it waits for ever, where the comment promises \<^verbatim>\<open>kUnknown\<close>.
\<close>

theorem error_category_lookup:
  assumes "registry_ok reg" "t \<notin> set (done_types reg)" "next_index reg < kMaxGroupCount"
    "codes_ok (map (\<lambda>c. (c, message c)) codes)" "int (length codes) < kGroupSize"
    and "t \<notin> set (category_types caches)" "global_cache caches category = None" "thread_cache caches category = None"
    "\<not> map_mutex_held caches"
  shows "\<exists>reg' caches'. register_error_category category t message codes (reg, caches) = Some (reg', caches') \<and>
    (\<forall>c \<in> set codes. \<exists>v x known.
       status_from_error_category category c caches' = (Found v, known) \<and> status_from_error_category category c known = (Found v, known) \<and>
       get_entry_from_code reg' v = Some x \<and> entry_enum_value x = c \<and> entry_message x = message c) \<and>
    (\<forall>other c. thread_cache caches other = None \<and> global_cache caches other = None \<and> other \<noteq> category \<longrightarrow>
       status_from_error_category other c caches' = (Found 2, caches')) \<and>
    (\<forall>c. c \<notin> set codes \<longrightarrow> fst (status_from_error_category category c caches') = Deadlock)"
proof -
  let ?codes = "map (\<lambda>c. (c, message c)) codes"
  have "int (length ?codes) < kGroupSize" using assms(5) by simp
  from register_codes_found [OF assms(1-4) this] obtain reg' where reg': "register_codes t ?codes reg = Some reg'"
    and at: "\<forall>j < length ?codes. \<exists>v x. Status_of_enum reg' t (fst (?codes ! j)) = Some v \<and> get_entry_from_code reg' v = Some x \<and>
      entry_enum_value x = fst (?codes ! j) \<and> entry_message x = snd (?codes ! j) \<and> (Status_ok v \<longleftrightarrow> j = 0)" by blast
  have found: "\<exists>v x. Status_of_enum reg' t (codes ! j) = Some v \<and> get_entry_from_code reg' v = Some x \<and>
      entry_enum_value x = codes ! j \<and> entry_message x = message (codes ! j)" if "j < length codes" for j
    using at [rule_format, of j] that by auto
  have entry: "\<exists>v x. Status_of_enum reg' t c = Some v \<and> get_entry_from_code reg' v = Some x \<and> entry_enum_value x = c \<and>
      entry_message x = message c" if "c \<in> set codes" for c
    using that found by (metis in_set_conv_nth)
  then obtain m where m: "category_map reg' t codes = Some m" "\<And>c. m c = (if c \<in> set codes then Status_of_enum reg' t c else None)"
    using category_map_eq [of codes reg' t] by blast
  let ?caches = "caches\<lparr>category_types := t # category_types caches, global_cache := (global_cache caches)(category \<mapsto> m)\<rparr>"
  let ?known = "?caches\<lparr>thread_cache := (thread_cache caches)(category \<mapsto> m)\<rparr>"
  have made: "register_error_category category t message codes (reg, caches) = Some (reg', ?caches)"
    using assms(6,7) reg' m(1) by (simp add: register_error_category_def Let_def)
  have first: "status_from_error_category category c ?caches =
      (case m c of Some v \<Rightarrow> (Found v, ?known) | None \<Rightarrow> (Deadlock, ?known\<lparr>map_mutex_held := True\<rparr>))" for c
    using lookup_first [of ?caches category c] assms(8,9) by (simp add: Let_def)
  have listed: "\<exists>v x known. status_from_error_category category c ?caches = (Found v, known) \<and>
      status_from_error_category category c known = (Found v, known) \<and>
      get_entry_from_code reg' v = Some x \<and> entry_enum_value x = c \<and> entry_message x = message c" if c: "c \<in> set codes" for c
  proof -
    obtain v x where v: "Status_of_enum reg' t c = Some v" "get_entry_from_code reg' v = Some x" "entry_enum_value x = c"
      "entry_message x = message c" using entry [OF c] by blast
    then have mc: "m c = Some v" using m(2) c by simp
    then have "status_from_error_category category c ?caches = (Found v, ?known)" by (simp add: first)
    moreover have "status_from_error_category category c ?known = (Found v, ?known)" using lookup_known [of ?known category m c v] mc by simp
    ultimately show ?thesis using v(2-4) by blast
  qed
  have unseen: "status_from_error_category other c ?caches = (Found 2, ?caches)"
    if "thread_cache caches other = None" "global_cache caches other = None" "other \<noteq> category" for other c
    using lookup_first [of ?caches other c] assms(9) that by simp
  have "fst (status_from_error_category category c ?caches) = Deadlock" if "c \<notin> set codes" for c
    using first [of c] m(2) [of c] that by simp
  with made listed unseen show ?thesis by blast
qed

theorem error_category_lookup_witness:
  "\<exists>reg caches v known. register_error_category 9 7 (\<lambda>c. if c = 1 then ''one'' else ''two'') [1, 2]
       (registry_init, \<lparr>thread_cache = Map.empty, global_cache = Map.empty, category_types = [], map_mutex_held = False\<rparr>) = Some (reg, caches) \<and>
     status_from_error_category 9 2 caches = (Found v, known) \<and> fst (status_from_error_category 9 3 caches) = Deadlock"
proof -
  let ?caches = "\<lparr>thread_cache = Map.empty, global_cache = Map.empty, category_types = [], map_mutex_held = False\<rparr> :: category_caches"
  let ?message = "\<lambda>c :: int. if c = 1 then ''one'' else ''two''"
  have "7 \<notin> set (done_types registry_init)" "next_index registry_init < kMaxGroupCount" "codes_ok (map (\<lambda>c. (c, ?message c)) [1, 2])"
    "int (length [1 :: int, 2]) < kGroupSize"
    by (simp_all add: registry_init_def kMaxGroupCount_def codes_ok_def kMaxCodeNumericRange_def kGroupSize_def)
  from error_category_lookup [OF registry_init_ok this, of ?caches 9] obtain reg caches where
    r: "register_error_category 9 7 ?message [1, 2] (registry_init, ?caches) = Some (reg, caches)"
    "\<forall>c \<in> set [1, 2]. \<exists>v x known.
       status_from_error_category 9 c caches = (Found v, known) \<and> status_from_error_category 9 c known = (Found v, known) \<and>
       get_entry_from_code reg v = Some x \<and> entry_enum_value x = c \<and> entry_message x = ?message c"
    "\<forall>c. c \<notin> set [1, 2] \<longrightarrow> fst (status_from_error_category 9 c caches) = Deadlock" by auto
  from r(2) have "\<exists>v known. status_from_error_category 9 2 caches = (Found v, known)" by auto
  moreover from r(3) have "fst (status_from_error_category 9 3 caches) = Deadlock" by simp
  ultimately show ?thesis using r(1) by blast
qed

end
