(* ===== verification/Raw_Storage.thy ===== *)
theory Raw_Storage
  imports Batt_Status
begin

section \<open>Values in raw storage\<close>

text \<open>
  What \<^verbatim>\<open>StatusOr<T>\<close> and \<^verbatim>\<open>Optional<T>\<close> share: a value that is constructed and destroyed by hand in storage of its own. The
  storage is raw, or holds a value, or a value that was moved from. Using raw storage as a value, constructing a second value in it
  or destroying it is \<open>Storage_misuse\<close>, a failed check is \<open>Check_failed\<close>.
\<close>

datatype 'a storage = Raw | Alive 'a | Moved

datatype 'a outcome = Fine 'a | Check_failed | Storage_misuse

definition outcome_bind :: "'a outcome \<Rightarrow> ('a \<Rightarrow> 'b outcome) \<Rightarrow> 'b outcome" where
  "outcome_bind x f = (case x of Fine a \<Rightarrow> f a | Check_failed \<Rightarrow> Check_failed | Storage_misuse \<Rightarrow> Storage_misuse)"

lemma outcome_bind_simps [simp]: "outcome_bind (Fine a) f = f a" "outcome_bind Check_failed f = Check_failed"
  "outcome_bind Storage_misuse f = Storage_misuse"
  by (simp_all add: outcome_bind_def)

text \<open>The primitives: \<^verbatim>\<open>new (&storage_) T(v)\<close>, the destructor call, the assignment to the value, and what a move leaves behind.\<close>

definition construct :: "'a storage \<Rightarrow> 'a storage \<Rightarrow> 'a storage outcome" where
  "construct v s = (if v = Raw \<or> s \<noteq> Raw then Storage_misuse else Fine v)"

definition destroy :: "'a storage \<Rightarrow> 'a storage outcome" where
  "destroy s = (if s = Raw then Storage_misuse else Fine Raw)"

definition assign :: "'a storage \<Rightarrow> 'a storage \<Rightarrow> 'a storage outcome" where
  "assign v s = (if v = Raw \<or> s = Raw then Storage_misuse else Fine v)"

definition after_move :: "'a storage \<Rightarrow> 'a storage" where
  "after_move s = (if s = Raw then Raw else Moved)"

lemmas storage_prims = construct_def destroy_def assign_def after_move_def

text \<open>Programs over objects: each operation is one that the objects at that moment allow; a failed check ends the program.\<close>

fun run_ops :: "('op \<Rightarrow> 's \<Rightarrow> 's outcome) \<Rightarrow> 'op list \<Rightarrow> 's \<Rightarrow> 's outcome" where
  "run_ops exec [] s = Fine s"
| "run_ops exec (op # ops) s = outcome_bind (exec op s) (run_ops exec ops)"

fun program :: "('op \<Rightarrow> 's \<Rightarrow> 's outcome) \<Rightarrow> ('op \<Rightarrow> 's \<Rightarrow> bool) \<Rightarrow> 'op list \<Rightarrow> 's \<Rightarrow> bool" where
  "program exec legal [] s = True"
| "program exec legal (op # ops) s = (legal op s \<and> (case exec op s of Fine s' \<Rightarrow> program exec legal ops s' | _ \<Rightarrow> True))"

locale storage_class =
  fixes exec :: "'op \<Rightarrow> 's \<Rightarrow> 's outcome" and legal :: "'op \<Rightarrow> 's \<Rightarrow> bool" and inv :: "'s \<Rightarrow> bool"
  assumes exec_safe: "inv s \<Longrightarrow> legal op s \<Longrightarrow> exec op s = Check_failed \<or> (\<exists>s'. exec op s = Fine s' \<and> inv s')"
begin

lemma run_safe: "inv s \<Longrightarrow> program exec legal ops s \<Longrightarrow> run_ops exec ops s = Check_failed \<or> (\<exists>s'. run_ops exec ops s = Fine s' \<and> inv s')"
proof (induction ops arbitrary: s)
  case (Cons op ops)
  then show ?case
    using exec_safe [of s op] by fastforce
qed simp

end

text \<open>A class none of whose checks can fail.\<close>

locale checked_class = storage_class +
  assumes check_holds: "inv s \<Longrightarrow> legal op s \<Longrightarrow> exec op s \<noteq> Check_failed"
begin

lemma run_fine: "inv s \<Longrightarrow> program exec legal ops s \<Longrightarrow> \<exists>s'. run_ops exec ops s = Fine s' \<and> inv s'"
proof (induction ops arbitrary: s)
  case (Cons op ops)
  then show ?case
    using exec_safe [of s op] check_holds [of s op] by fastforce
qed simp

end

text \<open>A class whose operations do to its objects what a specification does to what the objects stand for; then so do programs.\<close>

locale refining_class =
  fixes exec :: "'op \<Rightarrow> 's \<Rightarrow> 's outcome" and legal :: "'op \<Rightarrow> 's \<Rightarrow> bool" and inv :: "'s \<Rightarrow> bool"
    and abs :: "'s \<Rightarrow> 'c" and spec :: "'op \<Rightarrow> 'c \<Rightarrow> 'c"
  assumes refine: "inv s \<Longrightarrow> legal op s \<Longrightarrow> \<exists>s'. exec op s = Fine s' \<and> inv s' \<and> abs s' = spec op (abs s)"
begin

lemma run_refines:
  "inv s \<Longrightarrow> program exec legal ops s \<Longrightarrow> \<exists>s'. run_ops exec ops s = Fine s' \<and> inv s' \<and> abs s' = fold spec ops (abs s)"
proof (induction ops arbitrary: s)
  case (Cons op ops)
  then show ?case
    using refine [of s op] by fastforce
qed simp

end

sublocale refining_class \<subseteq> checked_class exec legal inv
  by unfold_locales (use refine in fastforce)+

text \<open>The objects of a program are the places of a list; a place without an object is \<open>None\<close>. An argument that is a value is fresh, or a
  reference to the value inside one of the objects, whose storage is read when the reference is used.\<close>

datatype 'a source = Fresh 'a | Inside nat

definition look :: "('o \<Rightarrow> 'a storage) \<Rightarrow> 'a source \<Rightarrow> 'o option list \<Rightarrow> 'a storage" where
  "look stored src os = (case src of
       Fresh v \<Rightarrow> Alive v
     | Inside j \<Rightarrow> (case os ! j of None \<Rightarrow> Raw | Some s \<Rightarrow> stored s))"

abbreviation obj :: "'o option list \<Rightarrow> nat \<Rightarrow> 'o" where
  "obj os i \<equiv> the (os ! i)"

abbreviation put :: "'o option list \<Rightarrow> nat \<Rightarrow> 'o \<Rightarrow> 'o option list" where
  "put os i s \<equiv> os[i := Some s]"

definition is_obj :: "'o option list \<Rightarrow> nat \<Rightarrow> bool" where
  "is_obj os i \<longleftrightarrow> i < length os \<and> os ! i \<noteq> None"

definition is_free :: "'o option list \<Rightarrow> nat \<Rightarrow> bool" where
  "is_free os i \<longleftrightarrow> i < length os \<and> os ! i = None"

definition source_ok :: "('o \<Rightarrow> bool) \<Rightarrow> 'a source \<Rightarrow> 'o option list \<Rightarrow> bool" where
  "source_ok valid src os = (case src of Fresh _ \<Rightarrow> True | Inside j \<Rightarrow> is_obj os j \<and> valid (obj os j))"

definition all_objs :: "('o \<Rightarrow> bool) \<Rightarrow> 'o option list \<Rightarrow> bool" where
  "all_objs P os \<longleftrightarrow> (\<forall>s. Some s \<in> set os \<longrightarrow> P s)"

lemma all_objs_obj: "all_objs P os \<Longrightarrow> is_obj os i \<Longrightarrow> P (obj os i)"
  by (force simp: all_objs_def is_obj_def in_set_conv_nth)

lemma all_objs_put [intro]: "all_objs P os \<Longrightarrow> P s \<Longrightarrow> all_objs P (put os i s)"
  using set_update_subset_insert [of os i "Some s"] by (auto simp: all_objs_def)

lemma all_objs_remove [intro]: "all_objs P os \<Longrightarrow> all_objs P (os[i := None])"
  using set_update_subset_insert [of os i None] by (auto simp: all_objs_def)

lemma all_objs_init: "all_objs P (replicate n None)"
  by (simp add: all_objs_def)

lemma look_valid:
  "all_objs (\<lambda>s. valid s \<longleftrightarrow> stored s \<noteq> Raw) os \<Longrightarrow> source_ok valid src os \<Longrightarrow> look stored src os \<noteq> Raw"
  using all_objs_obj [of "\<lambda>s. valid s \<longleftrightarrow> stored s \<noteq> Raw" os]
  by (cases src) (fastforce simp: source_ok_def look_def is_obj_def)+

lemma look_put: "src \<noteq> Inside i \<Longrightarrow> look stored src (put os i s) = look stored src os"
  by (cases src) (simp_all add: look_def)

end
