(* ===== verification/Status_Or.thy ===== *)
theory Status_Or
  imports Raw_Storage
begin

section \<open>StatusOr\<close>

text \<open>
  Models the special members of \<^verbatim>\<open>StatusOr<T>\<close> (\<^verbatim>\<open>src/src/batteries/status.hpp\<close>): which of them construct, assign or destroy the
  value, and when.
\<close>

record 'a status_or =
  so_status :: StatusCode
  so_storage :: "'a storage"

type_synonym 'a objects = "'a status_or option list"

definition so_ok :: "'a status_or \<Rightarrow> bool" where
  "so_ok s \<longleftrightarrow> so_status s = kOk"

text \<open>Lifting of a primitive to the object.\<close>

definition on_value :: "('a storage \<Rightarrow> 'a storage outcome) \<Rightarrow> 'a status_or \<Rightarrow> 'a status_or outcome" where
  "on_value f s = outcome_bind (f (so_storage s)) (\<lambda>v. Fine (s\<lparr>so_storage := v\<rparr>))"

definition destroy_if_ok :: "'a status_or \<Rightarrow> 'a status_or outcome" where
  "destroy_if_ok s = (if so_ok s then on_value destroy s else Fine s)"

datatype 'a so_op =
    Construct_default nat
  | Construct_status nat StatusCode
  | Construct_value nat "'a source"
  | Construct_copy nat nat
  | Construct_move nat nat
  | Assign_value nat "'a source"
  | Assign_copy nat nat
  | Assign_move nat nat
  | Assign_status nat StatusCode
  | Emplace nat "'a source"
  | Emplace_copy nat nat
  | Emplace_move nat nat
  | Destruct nat

definition default_status_or :: "'a status_or" where
  "default_status_or = \<lparr>so_status = kUnknown, so_storage = Raw\<rparr>"

definition moved_from :: "'a status_or \<Rightarrow> 'a status_or" where
  "moved_from s = s\<lparr>so_storage := after_move (so_storage s)\<rparr>"

text \<open>\<^verbatim>\<open>StatusOr(StatusOr&&)\<close>: the value is moved and the other object is left with an unknown status and no value.\<close>

definition construct_move :: "nat \<Rightarrow> nat \<Rightarrow> 'a objects \<Rightarrow> 'a objects outcome" where
  "construct_move i j os =
     (let that = obj os j in
      if so_ok that then
        outcome_bind (on_value (construct (so_storage that)) default_status_or) (\<lambda>s.
        outcome_bind (on_value destroy that) (\<lambda>that.
          Fine (put (put os i (s\<lparr>so_status := kOk\<rparr>)) j (that\<lparr>so_status := kUnknown\<rparr>))))
      else Fine (put os i (default_status_or\<lparr>so_status := so_status that\<rparr>)))"

text \<open>\<^verbatim>\<open>operator=(const StatusOr&)\<close> and \<^verbatim>\<open>operator=(StatusOr&&)\<close>: the second leaves the other value moved from.\<close>

definition assign_status_or :: "'a status_or \<Rightarrow> 'a status_or \<Rightarrow> 'a status_or outcome" where
  "assign_status_or s that =
     outcome_bind
       (if so_ok s then (if so_ok that then on_value (assign (so_storage that)) s else on_value destroy s)
        else if so_ok that then on_value (construct (so_storage that)) s else Fine s)
       (\<lambda>s. Fine (s\<lparr>so_status := so_status that\<rparr>))"

text \<open>\<^verbatim>\<open>emplace\<close> of another \<^verbatim>\<open>StatusOr\<close>: the value is destroyed before the other object is looked at.\<close>

definition emplace_status_or :: "nat \<Rightarrow> nat \<Rightarrow> 'a objects \<Rightarrow> 'a objects outcome" where
  "emplace_status_or i j os =
     outcome_bind
       (if so_ok (obj os i) then outcome_bind (on_value destroy (obj os i)) (\<lambda>s. Fine (s\<lparr>so_status := kUnknown\<rparr>)) else Fine (obj os i))
       (\<lambda>s. let os = put os i s; that = obj os j in
         outcome_bind (if so_ok that then on_value (construct (so_storage that)) s else Fine s)
           (\<lambda>s. Fine (put os i (s\<lparr>so_status := so_status that\<rparr>))))"

fun so_exec :: "'a so_op \<Rightarrow> 'a objects \<Rightarrow> 'a objects outcome" where
  "so_exec (Construct_default i) os = Fine (put os i default_status_or)"
| "so_exec (Construct_status i st) os = (if st = kOk then Check_failed else Fine (put os i \<lparr>so_status = st, so_storage = Raw\<rparr>))"
| "so_exec (Construct_value i src) os =
     outcome_bind (on_value (construct (look so_storage src os)) \<lparr>so_status = kOk, so_storage = Raw\<rparr>) (\<lambda>s. Fine (put os i s))"
| "so_exec (Construct_copy i j) os =
     (let s = \<lparr>so_status = so_status (obj os j), so_storage = Raw\<rparr> in
      outcome_bind (if so_ok s then on_value (construct (so_storage (obj os j))) s else Fine s) (\<lambda>s. Fine (put os i s)))"
| "so_exec (Construct_move i j) os = construct_move i j os"
| "so_exec (Assign_value i src) os =
     outcome_bind (destroy_if_ok (obj os i)) (\<lambda>s.
       let s = s\<lparr>so_status := kOk\<rparr>; os = put os i s in
       outcome_bind (on_value (construct (look so_storage src os)) s) (\<lambda>s. Fine (put os i s)))"
| "so_exec (Assign_copy i j) os =
     (if i = j then Fine os else outcome_bind (assign_status_or (obj os i) (obj os j)) (\<lambda>s. Fine (put os i s)))"
| "so_exec (Assign_move i j) os =
     (if i = j then Fine os
      else outcome_bind (assign_status_or (obj os i) (obj os j)) (\<lambda>s. Fine (put (put os i s) j (moved_from (obj os j)))))"
| "so_exec (Assign_status i st) os =
     (if st = kOk then Check_failed
      else outcome_bind (destroy_if_ok (obj os i)) (\<lambda>s. Fine (put os i (s\<lparr>so_status := st\<rparr>))))"
| "so_exec (Emplace i src) os =
     outcome_bind (destroy_if_ok (obj os i)) (\<lambda>s.
       let os = put os i s in
       outcome_bind (on_value (construct (look so_storage src os)) s) (\<lambda>s. Fine (put os i (s\<lparr>so_status := kOk\<rparr>))))"
| "so_exec (Emplace_copy i j) os = emplace_status_or i j os"
| "so_exec (Emplace_move i j) os =
     outcome_bind (emplace_status_or i j os) (\<lambda>os'. Fine (if i = j then os' else put os' j (moved_from (obj os' j))))"
| "so_exec (Destruct i) os = outcome_bind (destroy_if_ok (obj os i)) (\<lambda>_. Fine (os[i := None]))"

text \<open>Which operations a program may write: constructors on places without an object, the others on objects; the value inside an object can
  only be named while the object is ok.\<close>

fun so_legal :: "'a so_op \<Rightarrow> 'a objects \<Rightarrow> bool" where
  "so_legal (Construct_default i) os = is_free os i"
| "so_legal (Construct_status i st) os = is_free os i"
| "so_legal (Construct_value i src) os = (is_free os i \<and> source_ok so_ok src os)"
| "so_legal (Construct_copy i j) os = (is_free os i \<and> is_obj os j)"
| "so_legal (Construct_move i j) os = (is_free os i \<and> is_obj os j)"
| "so_legal (Assign_value i src) os = (is_obj os i \<and> source_ok so_ok src os \<and> src \<noteq> Inside i)"
| "so_legal (Assign_copy i j) os = (is_obj os i \<and> is_obj os j)"
| "so_legal (Assign_move i j) os = (is_obj os i \<and> is_obj os j)"
| "so_legal (Assign_status i st) os = is_obj os i"
| "so_legal (Emplace i src) os = (is_obj os i \<and> source_ok so_ok src os \<and> src \<noteq> Inside i)"
| "so_legal (Emplace_copy i j) os = (is_obj os i \<and> is_obj os j)"
| "so_legal (Emplace_move i j) os = (is_obj os i \<and> is_obj os j)"
| "so_legal (Destruct i) os = is_obj os i"

abbreviation so_valid :: "'a status_or \<Rightarrow> bool" where
  "so_valid s \<equiv> so_ok s \<longleftrightarrow> so_storage s \<noteq> Raw"

lemmas so_defs = on_value_def storage_prims destroy_if_ok_def so_ok_def default_status_or_def moved_from_def

lemma emplace_status_or_fine:
  assumes "all_objs so_valid os" "is_obj os i" "is_obj os j"
  shows "\<exists>os'. emplace_status_or i j os = Fine os' \<and> all_objs so_valid os' \<and> is_obj os' j"
  using all_objs_obj [OF assms(1,2)] all_objs_obj [OF assms(1,3)] assms
  by (cases "i = j") (auto simp: emplace_status_or_def Let_def so_defs is_obj_def intro!: all_objs_put)

lemma so_exec_safe:
  assumes "all_objs so_valid os" "so_legal op os"
  shows "so_exec op os = Check_failed \<or> (\<exists>os'. so_exec op os = Fine os' \<and> all_objs so_valid os')"
proof (cases op)
  case (Construct_value i src)
  then have "look so_storage src os \<noteq> Raw"
    using assms look_valid [OF assms(1), of src] by simp
  with Construct_value show ?thesis
    using assms by (auto simp: so_defs intro!: all_objs_put)
next
  case (Construct_copy i j)
  then show ?thesis
    using assms all_objs_obj [OF assms(1), of j] by (auto simp: so_defs Let_def intro!: all_objs_put)
next
  case (Construct_move i j)
  then show ?thesis
    using assms all_objs_obj [OF assms(1), of j] by (auto simp: construct_move_def so_defs Let_def intro!: all_objs_put)
next
  case (Assign_value i src)
  then have "look so_storage src os \<noteq> Raw"
    using assms look_valid [OF assms(1), of src] by simp
  with Assign_value show ?thesis
    using assms all_objs_obj [OF assms(1), of i]
    by (auto simp: so_defs Let_def look_put intro!: all_objs_put)
next
  case (Assign_copy i j)
  then show ?thesis
    using assms all_objs_obj [OF assms(1), of i] all_objs_obj [OF assms(1), of j]
    by (auto simp: so_defs assign_status_or_def intro!: all_objs_put)
next
  case (Assign_move i j)
  then show ?thesis
    using assms all_objs_obj [OF assms(1), of i] all_objs_obj [OF assms(1), of j]
    by (auto simp: so_defs assign_status_or_def intro!: all_objs_put)
next
  case (Emplace i src)
  then have "look so_storage src os \<noteq> Raw"
    using assms look_valid [OF assms(1), of src] by simp
  with Emplace show ?thesis
    using assms all_objs_obj [OF assms(1), of i]
    by (auto simp: so_defs Let_def look_put intro!: all_objs_put)
next
  case (Emplace_copy i j)
  then show ?thesis
    using assms emplace_status_or_fine [OF assms(1), of i j] by auto
next
  case (Emplace_move i j)
  then obtain os' where os': "emplace_status_or i j os = Fine os'" "all_objs so_valid os'" "is_obj os' j"
    using assms emplace_status_or_fine [OF assms(1), of i j] by auto
  then show ?thesis
    using Emplace_move all_objs_obj [OF os'(2,3)] by (auto simp: so_defs intro!: all_objs_put)
next
  case (Destruct i)
  then show ?thesis
    using assms all_objs_obj [OF assms(1), of i] by (auto simp: so_defs)
qed (use assms all_objs_obj [OF assms(1)] in \<open>auto simp: so_defs intro!: all_objs_put\<close>)

interpretation status_or: storage_class so_exec so_legal "all_objs so_valid"
  by unfold_locales (rule so_exec_safe)

text \<open>
  C25 (type). The storage of every \<^verbatim>\<open>StatusOr\<close> holds a value exactly when its status is ok, through every sequence of constructions, copies,
  moves, assignments, emplacements and destructions of any number of objects: no value is read, assigned or destroyed that is not
  there, and none is constructed over another. The exception is an object that is assigned, or emplaced from, a reference to its own
  value.
\<close>

theorem StatusOr_storage_safe:
  assumes "program so_exec so_legal ops (replicate n None)"
  shows "run_ops so_exec ops (replicate n None) = Check_failed \<or>
    (\<exists>os. run_ops so_exec ops (replicate n None) = Fine os \<and> all_objs (\<lambda>s. so_status s = kOk \<longleftrightarrow> so_storage s \<noteq> Raw) os)"
  using status_or.run_safe [OF all_objs_init assms] by (simp add: so_ok_def)

theorem StatusOr_storage_safe_witness:
  "\<exists>os. run_ops so_exec
       [Construct_value 0 (Fresh (5::nat)), Construct_move 1 0, Construct_status 2 kClosed, Assign_copy 2 1, Destruct 1]
       (replicate 3 None) = Fine os \<and>
     all_objs (\<lambda>s. so_status s = kOk \<longleftrightarrow> so_storage s \<noteq> Raw) os"
proof -
  let ?ops = "[Construct_value 0 (Fresh (5::nat)), Construct_move 1 0, Construct_status 2 kClosed, Assign_copy 2 1, Destruct 1]"
  note ev = so_defs look_def assign_status_or_def construct_move_def is_free_def is_obj_def source_ok_def numeral_3_eq_3
    numeral_2_eq_2 Let_def
  have "program so_exec so_legal ?ops (replicate 3 None)"
    by (simp add: ev)
  from StatusOr_storage_safe [OF this] show ?thesis
    by (auto simp: ev)
qed

text \<open>Assigning to an object a reference to its own value destroys the value before it is copied.\<close>

lemma self_value_assignment:
  "run_ops so_exec [Construct_value 0 (Fresh v), Assign_value 0 (Inside 0)] [None] = Storage_misuse"
  by (simp add: so_defs look_def Let_def)

end
