(* ===== verification/Batt_Optional.thy ===== *)
theory Batt_Optional
  imports Raw_Storage
begin

section \<open>Optional\<close>

text \<open>
  Models \<^verbatim>\<open>Optional<T>\<close> of \<^verbatim>\<open>src/src/batteries/optional.hpp\<close>, the implementation that the library uses unless it is built with
  the one of Boost: its special members over the objects of a program, and the operations on its value. \<open>abs_opt\<close> reads an object
  as a value of the option type.
\<close>

record 'a opt =
  opt_storage :: "'a storage"
  opt_valid :: bool

type_synonym 'a opts = "'a opt option list"

definition opt_none :: "'a opt" where
  "opt_none = \<lparr>opt_storage = Raw, opt_valid = False\<rparr>"

text \<open>\<^verbatim>\<open>new (&storage_) T(v); valid_ = true\<close>, and \<^verbatim>\<open>valid_ = false; obj().~T()\<close> when there is a value.\<close>

definition opt_fill :: "'a storage \<Rightarrow> 'a opt \<Rightarrow> 'a opt outcome" where
  "opt_fill v x = outcome_bind (construct v (opt_storage x)) (\<lambda>s. Fine \<lparr>opt_storage = s, opt_valid = True\<rparr>)"

definition opt_clear :: "'a opt \<Rightarrow> 'a opt outcome" where
  "opt_clear x = (if opt_valid x then outcome_bind (destroy (opt_storage x)) (\<lambda>s. Fine \<lparr>opt_storage = s, opt_valid = False\<rparr>) else Fine x)"

definition opt_fill_from :: "'a opt \<Rightarrow> 'a opt \<Rightarrow> 'a opt outcome" where
  "opt_fill_from that x = (if opt_valid that then opt_fill (opt_storage that) x else Fine x)"

definition opt_moved :: "'a opt \<Rightarrow> 'a opt" where
  "opt_moved x = x\<lparr>opt_storage := after_move (opt_storage x)\<rparr>"

datatype 'a opt_op =
    O_none nat
  | O_value nat "'a source"
  | O_copy nat nat
  | O_move nat nat
  | O_destruct nat
  | O_assign_copy nat nat
  | O_assign_move nat nat
  | O_assign_none nat
  | O_emplace nat "'a source"

fun opt_exec :: "'a opt_op \<Rightarrow> 'a opts \<Rightarrow> 'a opts outcome" where
  "opt_exec (O_none i) os = Fine (put os i opt_none)"
| "opt_exec (O_value i src) os = outcome_bind (opt_fill (look opt_storage src os) opt_none) (\<lambda>x. Fine (put os i x))"
| "opt_exec (O_copy i j) os = outcome_bind (opt_fill_from (obj os j) opt_none) (\<lambda>x. Fine (put os i x))"
| "opt_exec (O_move i j) os =
     outcome_bind (opt_fill_from (obj os j) opt_none) (\<lambda>x. Fine (put (put os i x) j (opt_moved (obj os j))))"
| "opt_exec (O_destruct i) os = outcome_bind (opt_clear (obj os i)) (\<lambda>_. Fine (os[i := None]))"
| "opt_exec (O_assign_copy i j) os =
     (if i = j then Fine os
      else outcome_bind (opt_clear (obj os i)) (\<lambda>x. outcome_bind (opt_fill_from (obj os j) x) (\<lambda>x. Fine (put os i x))))"
| "opt_exec (O_assign_move i j) os =
     (if i = j then Fine os
      else outcome_bind (opt_clear (obj os i)) (\<lambda>x. outcome_bind (opt_fill_from (obj os j) x) (\<lambda>x.
             Fine (put (put os i x) j (opt_moved (obj os j))))))"
| "opt_exec (O_assign_none i) os = outcome_bind (opt_clear (obj os i)) (\<lambda>x. Fine (put os i x))"
| "opt_exec (O_emplace i src) os =
     outcome_bind (opt_clear (obj os i)) (\<lambda>x.
       let os = put os i x in outcome_bind (opt_fill (look opt_storage src os) x) (\<lambda>x. Fine (put os i x)))"

fun opt_legal :: "'a opt_op \<Rightarrow> 'a opts \<Rightarrow> bool" where
  "opt_legal (O_none i) os = is_free os i"
| "opt_legal (O_value i src) os = (is_free os i \<and> source_ok opt_valid src os)"
| "opt_legal (O_copy i j) os = (is_free os i \<and> is_obj os j)"
| "opt_legal (O_move i j) os = (is_free os i \<and> is_obj os j)"
| "opt_legal (O_destruct i) os = is_obj os i"
| "opt_legal (O_assign_copy i j) os = (is_obj os i \<and> is_obj os j)"
| "opt_legal (O_assign_move i j) os = (is_obj os i \<and> is_obj os j)"
| "opt_legal (O_assign_none i) os = is_obj os i"
| "opt_legal (O_emplace i src) os = (is_obj os i \<and> source_ok opt_valid src os \<and> src \<noteq> Inside i)"

text \<open>The operations on the value.\<close>

definition value_or :: "'a storage \<Rightarrow> 'a opt \<Rightarrow> 'a storage" where
  "value_or else_val x = (if opt_valid x then opt_storage x else else_val)"

definition opt_map :: "('a storage \<Rightarrow> 'b storage) \<Rightarrow> 'a opt \<Rightarrow> 'b opt outcome" where
  "opt_map fn x = (if opt_valid x then opt_fill (fn (opt_storage x)) opt_none else Fine opt_none)"

definition opt_flat_map :: "('a storage \<Rightarrow> 'b opt) \<Rightarrow> 'a opt \<Rightarrow> 'b opt" where
  "opt_flat_map fn x = (if opt_valid x then fn (opt_storage x) else opt_none)"

definition opt_eq :: "('a storage \<Rightarrow> 'b storage \<Rightarrow> bool) \<Rightarrow> 'a opt \<Rightarrow> 'b opt \<Rightarrow> bool" where
  "opt_eq eq v0 v1 \<longleftrightarrow> (opt_valid v0 \<and> opt_valid v1 \<and> eq (opt_storage v0) (opt_storage v1)) \<or> (\<not> opt_valid v0 \<and> \<not> opt_valid v1)"

definition opt_eq_value :: "('a storage \<Rightarrow> 'b \<Rightarrow> bool) \<Rightarrow> 'a opt \<Rightarrow> 'b \<Rightarrow> bool" where
  "opt_eq_value eq v0 v1 \<longleftrightarrow> opt_valid v0 \<and> eq (opt_storage v0) v1"

definition get_or_panic :: "'a opt \<Rightarrow> 'a storage outcome" where
  "get_or_panic x = (if opt_valid x then Fine (opt_storage x) else Check_failed)"

abbreviation opt_ok :: "'a opt \<Rightarrow> bool" where
  "opt_ok x \<equiv> opt_valid x \<longleftrightarrow> opt_storage x \<noteq> Raw"

lemmas opt_defs = opt_fill_def opt_clear_def opt_fill_from_def opt_moved_def opt_none_def storage_prims

lemma opt_exec_safe:
  assumes "all_objs opt_ok os" "opt_legal op os"
  shows "opt_exec op os = Check_failed \<or> (\<exists>os'. opt_exec op os = Fine os' \<and> all_objs opt_ok os')"
proof (cases op)
  case (O_value i src)
  then show ?thesis
    using assms look_valid [OF assms(1), of src] by (auto simp: opt_defs intro!: all_objs_put)
next
  case (O_emplace i src)
  then show ?thesis
    using assms all_objs_obj [OF assms(1), of i] look_valid [OF assms(1), of src]
    by (auto simp: opt_defs Let_def look_put intro!: all_objs_put)
next
  case (O_assign_copy i j)
  then show ?thesis
    using assms all_objs_obj [OF assms(1), of i] all_objs_obj [OF assms(1), of j] by (auto simp: opt_defs intro!: all_objs_put)
next
  case (O_assign_move i j)
  then show ?thesis
    using assms all_objs_obj [OF assms(1), of i] all_objs_obj [OF assms(1), of j] by (auto simp: opt_defs intro!: all_objs_put)
qed (use assms all_objs_obj [OF assms(1)] in \<open>auto simp: opt_defs intro!: all_objs_put\<close>)

interpretation optional: storage_class opt_exec opt_legal "all_objs opt_ok"
  by unfold_locales (rule opt_exec_safe)

text \<open>Programs over optionals, like those over \<^verbatim>\<open>StatusOr\<close>, never misuse the storage.\<close>

lemma Optional_storage_safe:
  "program opt_exec opt_legal ops (replicate n None) \<Longrightarrow> run_ops opt_exec ops (replicate n None) \<noteq> Storage_misuse"
  using optional.run_safe [OF all_objs_init] by fastforce

subsection \<open>Refinement\<close>

text \<open>The specification: an optional is empty, has a value, or has a value that was moved away and is not specified; there is no storage.\<close>

datatype 'a cell = Empty | Full 'a | Unspecified

definition cell_of :: "'a storage \<Rightarrow> 'a cell" where
  "cell_of s = (case s of Raw \<Rightarrow> Empty | Alive v \<Rightarrow> Full v | Moved \<Rightarrow> Unspecified)"

definition abs_opt :: "'a opt \<Rightarrow> 'a cell" where
  "abs_opt x = (if opt_valid x then cell_of (opt_storage x) else Empty)"

definition cell_moved :: "'a cell \<Rightarrow> 'a cell" where
  "cell_moved c = (if c = Empty then Empty else Unspecified)"

definition look_cell :: "'a source \<Rightarrow> 'a cell option list \<Rightarrow> 'a cell" where
  "look_cell src cs = (case src of Fresh v \<Rightarrow> Full v | Inside j \<Rightarrow> obj cs j)"

fun cell_exec :: "'a opt_op \<Rightarrow> 'a cell option list \<Rightarrow> 'a cell option list" where
  "cell_exec (O_none i) cs = put cs i Empty"
| "cell_exec (O_value i src) cs = put cs i (look_cell src cs)"
| "cell_exec (O_copy i j) cs = put cs i (obj cs j)"
| "cell_exec (O_move i j) cs = put (put cs i (obj cs j)) j (cell_moved (obj cs j))"
| "cell_exec (O_destruct i) cs = cs[i := None]"
| "cell_exec (O_assign_copy i j) cs = (if i = j then cs else put cs i (obj cs j))"
| "cell_exec (O_assign_move i j) cs = (if i = j then cs else put (put cs i (obj cs j)) j (cell_moved (obj cs j)))"
| "cell_exec (O_assign_none i) cs = put cs i Empty"
| "cell_exec (O_emplace i src) cs = put cs i (look_cell src cs)"

abbreviation abs_opts :: "'a opts \<Rightarrow> 'a cell option list" where
  "abs_opts os \<equiv> map (map_option abs_opt) os"

lemma abs_obj: "is_obj os i \<Longrightarrow> obj (abs_opts os) i = abs_opt (obj os i)"
  by (auto simp: is_obj_def)

lemma look_abs:
  assumes "all_objs opt_ok os" "source_ok opt_valid src os"
  shows "look_cell src (abs_opts os) = cell_of (look opt_storage src os)"
  using assms all_objs_obj [OF assms(1)]
  by (cases src) (auto simp: look_cell_def look_def cell_of_def source_ok_def abs_opt_def is_obj_def)

lemma abs_simps [simp]:
  "abs_opt opt_none = Empty" "abs_opt \<lparr>opt_storage = s, opt_valid = True\<rparr> = cell_of s"
  "abs_opt \<lparr>opt_storage = s, opt_valid = False\<rparr> = Empty"
  by (simp_all add: abs_opt_def opt_none_def)

lemma abs_moved: "opt_ok x \<Longrightarrow> abs_opt (opt_moved x) = cell_moved (abs_opt x)"
  by (cases "opt_storage x") (auto simp: abs_opt_def opt_moved_def after_move_def cell_moved_def cell_of_def)

lemma clear_none: "opt_ok x \<Longrightarrow> opt_clear x = Fine opt_none"
  by (cases x) (auto simp: opt_defs)

lemma fill_from_none: "opt_ok x \<Longrightarrow> \<exists>y. opt_fill_from x opt_none = Fine y \<and> abs_opt y = abs_opt x"
  by (auto simp: opt_defs abs_opt_def)

text \<open>Every operation does to the optionals what the specification does to the cells. (Programs over optionals, like those over
  \<^verbatim>\<open>StatusOr\<close>, never misuse the storage.)\<close>

theorem Optional_refines:
  assumes "all_objs opt_ok os" "opt_legal op os"
  shows "\<exists>os'. opt_exec op os = Fine os' \<and> abs_opts os' = cell_exec op (abs_opts os)"
proof -
  note ok = all_objs_obj [OF assms(1)]
  show ?thesis
  proof (cases op)
    case (O_value i src)
    then show ?thesis
      using assms look_abs [OF assms(1), of src] look_valid [OF assms(1), of src]
      by (auto simp: opt_fill_def construct_def opt_none_def map_update)
  next
    case (O_emplace i src)
    then show ?thesis
      using assms ok [of i] look_abs [OF assms(1), of src] look_valid [OF assms(1), of src]
      by (auto simp: clear_none Let_def look_put opt_fill_def construct_def opt_none_def map_update)
  next
    case (O_copy i j)
    then show ?thesis
      using assms(2) fill_from_none [OF ok, of j] by (auto simp: map_update abs_obj)
  next
    case (O_move i j)
    then show ?thesis
      using assms(2) fill_from_none [OF ok, of j] ok [of j] by (auto simp: map_update abs_obj abs_moved)
  next
    case (O_assign_copy i j)
    then show ?thesis
      using assms(2) fill_from_none [OF ok, of j] ok [of i] by (auto simp: map_update abs_obj clear_none)
  next
    case (O_assign_move i j)
    then show ?thesis
      using assms(2) fill_from_none [OF ok, of j] ok [of i] ok [of j] by (auto simp: map_update abs_obj abs_moved clear_none)
  qed (use assms(2) ok in \<open>auto simp: map_update clear_none\<close>)
qed

interpretation optional_cells: refining_class opt_exec opt_legal "all_objs opt_ok" abs_opts cell_exec
  by unfold_locales (use opt_exec_safe Optional_refines in fastforce)

text \<open>So a program over optionals never misuses the storage, and computes what the specification computes on the cells.\<close>

lemma Optional_program_refines:
  "program opt_exec opt_legal ops (replicate n None) \<Longrightarrow>
     \<exists>os. run_ops opt_exec ops (replicate n None) = Fine os \<and> abs_opts os = fold cell_exec ops (replicate n None)"
  using optional_cells.run_refines [OF all_objs_init, of ops n] by auto

end
