(* ===== verification/Small_Fn.thy ===== *)
theory Small_Fn
  imports Raw_Storage
begin

section \<open>SmallFn\<close>

text \<open>
  Models \<^verbatim>\<open>src/src/batteries/small_fn.hpp\<close>: a callable object of any type, kept in a buffer inside the \<^verbatim>\<open>SmallFn\<close>. \<open>fn_impl\<close> says
  whether the pointer to the erased interface is set; the size of the buffer and whether the type is move-only are parameters of the
  template, so they never change. \<open>sizeof_impl True f\<close> and \<open>sizeof_impl False f\<close> are the sizes of \<^verbatim>\<open>MoveFnImpl\<close> and \<^verbatim>\<open>CopyFnImpl\<close> for the
  callable \<open>f\<close>.
\<close>

record 'f SmallFn =
  fn_storage :: "'f storage"
  fn_impl :: bool
  fn_max_size :: nat
  fn_move_only :: bool

type_synonym 'f fns = "'f SmallFn option list"

type_synonym 'f sizes = "bool \<Rightarrow> 'f \<Rightarrow> nat"

definition SmallFn_default :: "nat \<Rightarrow> bool \<Rightarrow> 'f SmallFn" where
  "SmallFn_default mx mo = \<lparr>fn_storage = Raw, fn_impl = False, fn_max_size = mx, fn_move_only = mo\<rparr>"

text \<open>\<open>new (memory) FnImpl\<close>: an object that is larger than the buffer is written outside of it.\<close>

definition stored_size :: "'f sizes \<Rightarrow> bool \<Rightarrow> 'f storage \<Rightarrow> nat" where
  "stored_size sizeof_impl mo v = (case v of Alive f \<Rightarrow> sizeof_impl mo f | _ \<Rightarrow> 0)"

definition fn_new :: "'f sizes \<Rightarrow> 'f storage \<Rightarrow> 'f SmallFn \<Rightarrow> 'f SmallFn outcome" where
  "fn_new sizeof_impl v x =
     (if stored_size sizeof_impl (fn_move_only x) v > fn_max_size x then Storage_misuse
      else outcome_bind (construct v (fn_storage x)) (\<lambda>s. Fine (x\<lparr>fn_storage := s, fn_impl := True\<rparr>)))"

definition fn_clear :: "'f SmallFn \<Rightarrow> 'f SmallFn outcome" where
  "fn_clear x = (if fn_impl x then outcome_bind (destroy (fn_storage x)) (\<lambda>s. Fine (x\<lparr>fn_storage := s, fn_impl := False\<rparr>)) else Fine x)"

text \<open>The virtual functions \<^verbatim>\<open>move\<close>, \<^verbatim>\<open>copy\<close> and \<^verbatim>\<open>copy_to_move_only\<close>, called on the object that is stored in \<open>that\<close>.\<close>

definition fn_move :: "'f sizes \<Rightarrow> 'f SmallFn \<Rightarrow> 'f SmallFn \<Rightarrow> ('f SmallFn \<times> 'f SmallFn) outcome" where
  "fn_move sizeof_impl that x =
     (if stored_size sizeof_impl True (fn_storage that) > fn_max_size x then Check_failed
      else outcome_bind (fn_new sizeof_impl (fn_storage that) x) (\<lambda>x. Fine (x, that\<lparr>fn_storage := after_move (fn_storage that)\<rparr>)))"

definition fn_copy :: "'f sizes \<Rightarrow> 'f SmallFn \<Rightarrow> 'f SmallFn \<Rightarrow> 'f SmallFn outcome" where
  "fn_copy sizeof_impl that x =
     (if stored_size sizeof_impl False (fn_storage that) > fn_max_size x then Check_failed
      else fn_new sizeof_impl (fn_storage that) x)"

definition fn_copy_to_move_only :: "'f sizes \<Rightarrow> 'f SmallFn \<Rightarrow> 'f SmallFn \<Rightarrow> 'f SmallFn outcome" where
  "fn_copy_to_move_only sizeof_impl that x =
     (if \<not> fn_impl that then Storage_misuse
      else if stored_size sizeof_impl False (fn_storage that) > fn_max_size x then Check_failed
      else fn_new sizeof_impl (fn_storage that) x)"

text \<open>What the move constructor and the move assignment do once the target is empty; the copies likewise.\<close>

definition fn_take :: "'f sizes \<Rightarrow> 'f SmallFn \<Rightarrow> 'f SmallFn \<Rightarrow> ('f SmallFn \<times> 'f SmallFn) outcome" where
  "fn_take sizeof_impl that x =
     outcome_bind (if fn_impl that then fn_move sizeof_impl that x else Fine (x, that)) (\<lambda>(x, that).
     outcome_bind (fn_clear that) (\<lambda>that. Fine (x, that)))"

definition fn_duplicate :: "'f sizes \<Rightarrow> 'f SmallFn \<Rightarrow> 'f SmallFn \<Rightarrow> 'f SmallFn outcome" where
  "fn_duplicate sizeof_impl that x = (if fn_impl that then fn_copy sizeof_impl that x else Fine x)"

datatype 'f fn_op =
    F_default nat nat bool
  | F_fn nat nat bool 'f
  | F_move nat nat
  | F_copy nat nat
  | F_move_only_from_copy nat nat nat
  | F_destruct nat
  | F_assign_null nat
  | F_assign_fn nat 'f
  | F_assign_move nat nat
  | F_assign_copy nat nat
  | F_assign_move_only_from_copy nat nat

fun fn_exec :: "'f sizes \<Rightarrow> 'f fn_op \<Rightarrow> 'f fns \<Rightarrow> 'f fns outcome" where
  "fn_exec sz (F_default i mx mo) os = Fine (put os i (SmallFn_default mx mo))"
| "fn_exec sz (F_fn i mx mo f) os = outcome_bind (fn_new sz (Alive f) (SmallFn_default mx mo)) (\<lambda>x. Fine (put os i x))"
| "fn_exec sz (F_move i j) os =
     outcome_bind (fn_take sz (obj os j) (SmallFn_default (fn_max_size (obj os j)) (fn_move_only (obj os j)))) (\<lambda>(x, that). Fine (put (put os i x) j that))"
| "fn_exec sz (F_copy i j) os =
     outcome_bind (fn_duplicate sz (obj os j) (SmallFn_default (fn_max_size (obj os j)) False)) (\<lambda>x. Fine (put os i x))"
| "fn_exec sz (F_move_only_from_copy i mx j) os =
     outcome_bind (fn_copy_to_move_only sz (obj os j) (SmallFn_default mx True)) (\<lambda>x. Fine (put os i x))"
| "fn_exec sz (F_destruct i) os = outcome_bind (fn_clear (obj os i)) (\<lambda>_. Fine (os[i := None]))"
| "fn_exec sz (F_assign_null i) os = outcome_bind (fn_clear (obj os i)) (\<lambda>x. Fine (put os i x))"
| "fn_exec sz (F_assign_fn i f) os = outcome_bind (fn_clear (obj os i)) (\<lambda>x. outcome_bind (fn_new sz (Alive f) x) (\<lambda>x. Fine (put os i x)))"
| "fn_exec sz (F_assign_move i j) os =
     (if i = j then Fine os
      else outcome_bind (fn_clear (obj os i)) (\<lambda>x. outcome_bind (fn_take sz (obj os j) x) (\<lambda>(x, that). Fine (put (put os i x) j that))))"
| "fn_exec sz (F_assign_copy i j) os =
     (if i = j then Fine os
      else outcome_bind (fn_clear (obj os i)) (\<lambda>x. outcome_bind (fn_duplicate sz (obj os j) x) (\<lambda>x. Fine (put os i x))))"
| "fn_exec sz (F_assign_move_only_from_copy i j) os =
     outcome_bind (fn_clear (obj os i)) (\<lambda>x. outcome_bind (fn_copy_to_move_only sz (obj os j) x) (\<lambda>x. Fine (put os i x)))"

text \<open>
  What the types allow: copies only of copyable ones, moves and copies between objects of the same type, conversions from copyable to
  move-only into a buffer at least as large, and a constructor argument that fits (\<^verbatim>\<open>check_fn_size\<close>). Not checked by the code: that an
  assigned callable fits, and that the source of a conversion is not empty.
\<close>

definition same_type :: "'f SmallFn \<Rightarrow> 'f SmallFn \<Rightarrow> bool" where
  "same_type x y \<longleftrightarrow> fn_max_size x = fn_max_size y \<and> fn_move_only x = fn_move_only y"

fun fn_legal :: "'f sizes \<Rightarrow> 'f fn_op \<Rightarrow> 'f fns \<Rightarrow> bool" where
  "fn_legal sz (F_default i mx mo) os = is_free os i"
| "fn_legal sz (F_fn i mx mo f) os = (is_free os i \<and> sz mo f \<le> mx)"
| "fn_legal sz (F_move i j) os = (is_free os i \<and> is_obj os j)"
| "fn_legal sz (F_copy i j) os = (is_free os i \<and> is_obj os j \<and> \<not> fn_move_only (obj os j))"
| "fn_legal sz (F_move_only_from_copy i mx j) os =
     (is_free os i \<and> is_obj os j \<and> \<not> fn_move_only (obj os j) \<and> fn_max_size (obj os j) \<le> mx \<and> fn_impl (obj os j))"
| "fn_legal sz (F_destruct i) os = is_obj os i"
| "fn_legal sz (F_assign_null i) os = is_obj os i"
| "fn_legal sz (F_assign_fn i f) os = (is_obj os i \<and> sz (fn_move_only (obj os i)) f \<le> fn_max_size (obj os i))"
| "fn_legal sz (F_assign_move i j) os = (is_obj os i \<and> is_obj os j \<and> same_type (obj os i) (obj os j))"
| "fn_legal sz (F_assign_copy i j) os = (is_obj os i \<and> is_obj os j \<and> same_type (obj os i) (obj os j) \<and> \<not> fn_move_only (obj os j))"
| "fn_legal sz (F_assign_move_only_from_copy i j) os =
     (is_obj os i \<and> is_obj os j \<and> fn_move_only (obj os i) \<and> \<not> fn_move_only (obj os j) \<and> fn_max_size (obj os j) \<le> fn_max_size (obj os i) \<and>
      fn_impl (obj os j))"

text \<open>A call: the assertion that the pointer is set, then the callable, which may change its own state.\<close>

definition fn_call :: "('f \<Rightarrow> 'a \<Rightarrow> 'r \<times> 'f) \<Rightarrow> 'a \<Rightarrow> 'f SmallFn \<Rightarrow> ('r \<times> 'f SmallFn) outcome" where
  "fn_call invoke a x =
     (if \<not> fn_impl x then Check_failed
      else case fn_storage x of Alive f \<Rightarrow> (case invoke f a of (r, f') \<Rightarrow> Fine (r, x\<lparr>fn_storage := Alive f'\<rparr>)) | _ \<Rightarrow> Storage_misuse)"

subsection \<open>Refinement of an optional callable\<close>

definition fn_ok :: "'f sizes \<Rightarrow> 'f SmallFn \<Rightarrow> bool" where
  "fn_ok sz x \<longleftrightarrow> (if fn_impl x then \<exists>f. fn_storage x = Alive f \<and> sz (fn_move_only x) f \<le> fn_max_size x else fn_storage x = Raw)"

text \<open>\<^verbatim>\<open>CopyFnImpl\<close> is derived from \<^verbatim>\<open>MoveFnImpl\<close>.\<close>

definition sizes_law :: "'f sizes \<Rightarrow> bool" where
  "sizes_law sz \<longleftrightarrow> (\<forall>f. sz True f \<le> sz False f)"

definition abs_fn :: "'f SmallFn \<Rightarrow> 'f option" where
  "abs_fn x = (if fn_impl x then case fn_storage x of Alive f \<Rightarrow> Some f | _ \<Rightarrow> None else None)"

fun fn_spec :: "'f fn_op \<Rightarrow> 'f option option list \<Rightarrow> 'f option option list" where
  "fn_spec (F_default i _ _) cs = put cs i None"
| "fn_spec (F_fn i _ _ f) cs = put cs i (Some f)"
| "fn_spec (F_move i j) cs = put (put cs i (obj cs j)) j None"
| "fn_spec (F_copy i j) cs = put cs i (obj cs j)"
| "fn_spec (F_move_only_from_copy i _ j) cs = put cs i (obj cs j)"
| "fn_spec (F_destruct i) cs = cs[i := None]"
| "fn_spec (F_assign_null i) cs = put cs i None"
| "fn_spec (F_assign_fn i f) cs = put cs i (Some f)"
| "fn_spec (F_assign_move i j) cs = (if i = j then cs else put (put cs i (obj cs j)) j None)"
| "fn_spec (F_assign_copy i j) cs = (if i = j then cs else put cs i (obj cs j))"
| "fn_spec (F_assign_move_only_from_copy i j) cs = put cs i (obj cs j)"

abbreviation abs_fns :: "'f fns \<Rightarrow> 'f option option list" where
  "abs_fns os \<equiv> map (map_option abs_fn) os"

lemma fn_default_ok [simp]:
  "fn_ok sz (SmallFn_default mx mo)" "abs_fn (SmallFn_default mx mo) = None" "fn_max_size (SmallFn_default mx mo) = mx"
  "fn_move_only (SmallFn_default mx mo) = mo" "fn_impl (SmallFn_default mx mo) = False"
  by (simp_all add: fn_ok_def abs_fn_def SmallFn_default_def)

lemma fn_clear_ok:
  "fn_ok sz x \<Longrightarrow> fn_clear x = Fine (SmallFn_default (fn_max_size x) (fn_move_only x))"
  by (cases x, cases "fn_impl x") (auto simp: fn_ok_def fn_clear_def destroy_def SmallFn_default_def)

lemma fn_new_ok:
  "sz mo f \<le> mx \<Longrightarrow> \<exists>y. fn_new sz (Alive f) (SmallFn_default mx mo) = Fine y \<and> fn_ok sz y \<and> abs_fn y = Some f"
  by (simp add: fn_new_def stored_size_def construct_def SmallFn_default_def fn_ok_def abs_fn_def)

lemma fn_ok_stored: "fn_ok sz x \<Longrightarrow> fn_impl x \<Longrightarrow> \<exists>f. fn_storage x = Alive f \<and> sz (fn_move_only x) f \<le> fn_max_size x \<and> abs_fn x = Some f"
  by (auto simp: fn_ok_def abs_fn_def)

lemma fn_take_ok:
  assumes "sizes_law sz" "fn_ok sz that"
  shows "\<exists>y. fn_take sz that (SmallFn_default (fn_max_size that) (fn_move_only that)) = Fine (y, SmallFn_default (fn_max_size that) (fn_move_only that)) \<and>
    fn_ok sz y \<and> abs_fn y = abs_fn that"
proof (cases "fn_impl that")
  case True
  then obtain f where f: "fn_storage that = Alive f" "sz (fn_move_only that) f \<le> fn_max_size that" "abs_fn that = Some f"
    using fn_ok_stored [OF assms(2)] by blast
  have "sz True f \<le> fn_max_size that"
    using f(2) assms(1) by (cases "fn_move_only that") (auto simp: sizes_law_def intro: order_trans)
  moreover obtain y where "fn_new sz (Alive f) (SmallFn_default (fn_max_size that) (fn_move_only that)) = Fine y" "fn_ok sz y" "abs_fn y = Some f"
    using fn_new_ok [of sz, OF f(2)] by blast
  moreover have "fn_clear (that\<lparr>fn_storage := Moved\<rparr>) = Fine (SmallFn_default (fn_max_size that) (fn_move_only that))"
    using True by (cases that) (simp add: fn_clear_def destroy_def SmallFn_default_def)
  ultimately show ?thesis
    using True f by (simp add: fn_take_def fn_move_def stored_size_def after_move_def)
next
  case False
  then show ?thesis
    using assms fn_clear_ok [OF assms(2)] by (simp add: fn_take_def abs_fn_def)
qed

lemma fn_duplicate_ok:
  assumes "fn_ok sz that" "\<not> fn_move_only that"
  shows "\<exists>y. fn_duplicate sz that (SmallFn_default (fn_max_size that) False) = Fine y \<and> fn_ok sz y \<and> abs_fn y = abs_fn that"
proof (cases "fn_impl that")
  case True
  then obtain f where f: "fn_storage that = Alive f" "sz False f \<le> fn_max_size that" "abs_fn that = Some f"
    using fn_ok_stored [OF assms(1)] assms(2) by auto
  then show ?thesis
    using True fn_new_ok [of sz, OF f(2)] by (simp add: fn_duplicate_def fn_copy_def stored_size_def)
next
  case False
  then show ?thesis
    by (simp add: fn_duplicate_def abs_fn_def)
qed

lemma fn_copy_to_move_only_ok:
  assumes "sizes_law sz" "fn_ok sz that" "fn_max_size that \<le> mx" "\<not> fn_move_only that" "fn_impl that"
  shows "\<exists>y. fn_copy_to_move_only sz that (SmallFn_default mx True) = Fine y \<and> fn_ok sz y \<and> abs_fn y = abs_fn that"
proof -
  obtain f where f: "fn_storage that = Alive f" "sz False f \<le> mx" "abs_fn that = Some f"
    using fn_ok_stored [OF assms(2,5)] assms(3,4) by auto
  have "sz True f \<le> mx"
    using f(2) assms(1) by (auto simp: sizes_law_def intro: order_trans)
  then show ?thesis
    using fn_new_ok [of sz True f mx] f assms(5) by (simp add: fn_copy_to_move_only_def stored_size_def)
qed

lemma abs_fns_obj: "is_obj os i \<Longrightarrow> obj (abs_fns os) i = abs_fn (obj os i)"
  by (auto simp: is_obj_def)

lemma fn_exec_refines:
  assumes "sizes_law sz" "all_objs (fn_ok sz) os" "fn_legal sz op os"
  shows "\<exists>os'. fn_exec sz op os = Fine os' \<and> all_objs (fn_ok sz) os' \<and> abs_fns os' = fn_spec op (abs_fns os)"
proof -
  note ok = all_objs_obj [OF assms(2)]
  show ?thesis
  proof (cases op)
    case (F_fn i mx mo f)
    then show ?thesis
      using assms(2,3) fn_new_ok [of sz mo f mx] by (auto simp: map_update intro!: all_objs_put)
  next
    case (F_move i j)
    then show ?thesis
      using assms(2,3) fn_take_ok [OF assms(1) ok, of j] by (auto simp: map_update abs_fns_obj intro!: all_objs_put)
  next
    case (F_copy i j)
    then show ?thesis
      using assms(2,3) fn_duplicate_ok [OF ok, of j] by (auto simp: map_update abs_fns_obj intro!: all_objs_put)
  next
    case (F_move_only_from_copy i mx j)
    then show ?thesis
      using assms(2,3) fn_copy_to_move_only_ok [OF assms(1) ok, of j mx] by (auto simp: map_update abs_fns_obj intro!: all_objs_put)
  next
    case (F_assign_fn i f)
    then show ?thesis
      using assms(2,3) fn_clear_ok [OF ok, of i] fn_new_ok [of sz "fn_move_only (obj os i)" f "fn_max_size (obj os i)"] by (auto simp: map_update intro!: all_objs_put)
  next
    case (F_assign_move i j)
    then show ?thesis
      using assms(2,3) fn_clear_ok [OF ok, of i] fn_take_ok [OF assms(1) ok, of j] by (cases "i = j") (auto simp: map_update abs_fns_obj same_type_def intro!: all_objs_put)
  next
    case (F_assign_copy i j)
    then show ?thesis
      using assms(2,3) fn_clear_ok [OF ok, of i] fn_duplicate_ok [OF ok, of j] by (cases "i = j") (auto simp: map_update abs_fns_obj same_type_def intro!: all_objs_put)
  next
    case (F_assign_move_only_from_copy i j)
    then show ?thesis
      using assms(2,3) fn_clear_ok [OF ok, of i] fn_copy_to_move_only_ok [OF assms(1) ok, of j "fn_max_size (obj os i)"]
      by (auto simp: map_update abs_fns_obj intro!: all_objs_put)
  next
    case (F_default i mx mo)
    then show ?thesis
      using assms(2) by (auto simp: map_update intro!: all_objs_put)
  next
    case (F_destruct i)
    then show ?thesis
      using assms(2,3) fn_clear_ok [OF ok, of i] by (auto simp: map_update intro!: all_objs_put)
  next
    case (F_assign_null i)
    then show ?thesis
      using assms(2,3) fn_clear_ok [OF ok, of i] by (auto simp: map_update intro!: all_objs_put)
  qed
qed

interpretation small_fn: refining_class "fn_exec sz" "fn_legal sz" "\<lambda>os. sizes_law sz \<and> all_objs (fn_ok sz) os" abs_fns fn_spec for sz
  by unfold_locales (use fn_exec_refines in blast)

text \<open>
  C29 (refinement). A program over \<^verbatim>\<open>SmallFn\<close> objects of any types, copyable and move-only and with buffers of any sizes, that assigns only
  callables that fit and converts only functions that are not empty: no operation uses the storage of a function wrongly and no check
  of the code fails, and the objects are at each point what an optional callable would be, a function that was moved from being empty.
\<close>

theorem SmallFn_refines:
  assumes "sizes_law sz" and "program (fn_exec sz) (fn_legal sz) ops (replicate n None)"
  shows "\<exists>os. run_ops (fn_exec sz) ops (replicate n None) = Fine os \<and> abs_fns os = fold fn_spec ops (replicate n None)"
  using small_fn.run_refines [of sz "replicate n None" ops] assms all_objs_init by fastforce

theorem SmallFn_refines_witness:
  "\<exists>os. run_ops (fn_exec (\<lambda>_ f. f)) [F_fn 0 56 False (8 :: nat), F_copy 1 0, F_move 2 0] (replicate 3 None) = Fine os \<and>
     abs_fns os = [Some None, Some (Some 8), Some (Some 8)]"
proof -
  let ?ops = "[F_fn 0 56 False (8 :: nat), F_copy 1 0, F_move 2 0]"
  have "sizes_law (\<lambda>_ (f :: nat). f)"
    by (simp add: sizes_law_def)
  moreover have "program (fn_exec (\<lambda>_ f. f)) (fn_legal (\<lambda>_ f. f)) ?ops (replicate 3 None)"
    by (simp add: is_free_def is_obj_def fn_new_def fn_duplicate_def fn_copy_def stored_size_def construct_def SmallFn_default_def fn_take_def fn_move_def
      after_move_def fn_clear_def destroy_def eval_nat_numeral)
  ultimately obtain os where "run_ops (fn_exec (\<lambda>_ f. f)) ?ops (replicate 3 None) = Fine os" "abs_fns os = fold fn_spec ?ops (replicate 3 None)"
    using SmallFn_refines [of "\<lambda>_ f. f" ?ops 3] by blast
  then show ?thesis
    by (intro exI [of _ os]) (simp add: eval_nat_numeral)
qed

lemma fn_call_spec:
  "fn_ok sz x \<Longrightarrow> fn_call invoke a x =
     (case abs_fn x of None \<Rightarrow> Check_failed | Some f \<Rightarrow> Fine (fst (invoke f a), x\<lparr>fn_storage := Alive (snd (invoke f a))\<rparr>))"
  by (auto simp: fn_call_def fn_ok_def abs_fn_def split: prod.splits)

text \<open>The two uses that the code does not check: an assigned callable that is too large is written outside the buffer, and a conversion
  from an empty function calls a virtual function through a null pointer.\<close>

lemma assign_large_overruns: "sz mo f > mx \<Longrightarrow> run_ops (fn_exec sz) [F_default 0 mx mo, F_assign_fn 0 f] [None] = Storage_misuse"
  by (simp add: fn_clear_def SmallFn_default_def fn_new_def stored_size_def)

lemma convert_empty_misuses: "run_ops (fn_exec sz) [F_default 0 mx False, F_move_only_from_copy 1 mx 0] [None, None] = Storage_misuse"
  by (simp add: fn_copy_to_move_only_def SmallFn_default_def)

end
