(* ===== verification/Std_Heap.thy ===== *)
theory Std_Heap
  imports Batt_Prelude
begin

section \<open>Heaps in vectors\<close>

text \<open>
  \<^verbatim>\<open>std::push_heap\<close> and \<^verbatim>\<open>std::pop_heap\<close>, the way the standard library writes them, for the k-way merge: the value to be placed moves up
  from a hole; the hole of the front moves down to a leaf first. \<open>lt\<close> is the order given to them. The locale \<open>heap_order\<close> asks it to
  be a strict weak order, and the lemmas inside it are what the standard promises of the two functions.
\<close>

definition parent :: "nat \<Rightarrow> nat" where
  "parent i = (i - 1) div 2"

lemma parent_less [simp]: "0 < i \<Longrightarrow> parent i < i"
  by (simp add: parent_def)

lemma parent_iff: "0 < i \<Longrightarrow> parent i = j \<longleftrightarrow> i = 2 * j + 1 \<or> i = 2 * j + 2"
  by (auto simp: parent_def)

function sift_up :: "('a \<Rightarrow> 'a \<Rightarrow> bool) \<Rightarrow> 'a list \<Rightarrow> nat \<Rightarrow> 'a \<Rightarrow> 'a list" where
  "sift_up lt xs hole v =
     (if 0 < hole \<and> lt (xs ! parent hole) v then sift_up lt (xs[hole := xs ! parent hole]) (parent hole) v
      else xs[hole := v])"
  by pat_completeness auto

termination
  by (relation "measure (\<lambda>(_, _, hole, _). hole)") auto

definition larger_child :: "('a \<Rightarrow> 'a \<Rightarrow> bool) \<Rightarrow> 'a list \<Rightarrow> nat \<Rightarrow> nat" where
  "larger_child lt xs hole = (if lt (xs ! (2 * hole + 2)) (xs ! (2 * hole + 1)) then 2 * hole + 1 else 2 * hole + 2)"

lemma larger_child_cases: "larger_child lt xs hole = 2 * hole + 1 \<or> larger_child lt xs hole = 2 * hole + 2"
  by (simp add: larger_child_def)

function sift_down :: "('a \<Rightarrow> 'a \<Rightarrow> bool) \<Rightarrow> 'a list \<Rightarrow> nat \<Rightarrow> 'a list \<times> nat" where
  "sift_down lt xs hole =
     (if 2 * hole + 2 < length xs then sift_down lt (xs[hole := xs ! larger_child lt xs hole]) (larger_child lt xs hole)
      else if 2 * hole + 1 < length xs then (xs[hole := xs ! (2 * hole + 1)], 2 * hole + 1)
      else (xs, hole))"
  by pat_completeness auto

termination
  by (relation "measure (\<lambda>(_, xs, hole). length xs - hole)") (auto simp: larger_child_def)

declare sift_up.simps [simp del] sift_down.simps [simp del]

definition push_heap :: "('a \<Rightarrow> 'a \<Rightarrow> bool) \<Rightarrow> 'a list \<Rightarrow> 'a list" where
  "push_heap lt xs = sift_up lt xs (length xs - 1) (last xs)"

definition pop_heap :: "('a \<Rightarrow> 'a \<Rightarrow> bool) \<Rightarrow> 'a list \<Rightarrow> 'a list" where
  "pop_heap lt xs =
     (if length xs \<le> 1 then xs
      else let (ys, hole) = sift_down lt (butlast xs) 0 in sift_up lt ys hole (last xs) @ [hd xs])"

definition is_heap :: "('a \<Rightarrow> 'a \<Rightarrow> bool) \<Rightarrow> 'a list \<Rightarrow> bool" where
  "is_heap lt xs \<longleftrightarrow> (\<forall>i. 0 < i \<longrightarrow> i < length xs \<longrightarrow> \<not> lt (xs ! parent i) (xs ! i))"

text \<open>A heap except for the value at the place \<open>hole\<close>, and a value for this place that the places below allow.\<close>

definition holed :: "('a \<Rightarrow> 'a \<Rightarrow> bool) \<Rightarrow> 'a list \<Rightarrow> nat \<Rightarrow> bool" where
  "holed lt xs hole \<longleftrightarrow> hole < length xs \<and>
     (\<forall>i. 0 < i \<longrightarrow> i < length xs \<longrightarrow> i \<noteq> hole \<longrightarrow> parent i \<noteq> hole \<longrightarrow> \<not> lt (xs ! parent i) (xs ! i)) \<and>
     (0 < hole \<longrightarrow> (\<forall>i. 0 < i \<longrightarrow> i < length xs \<longrightarrow> parent i = hole \<longrightarrow> \<not> lt (xs ! parent hole) (xs ! i)))"

definition covers :: "('a \<Rightarrow> 'a \<Rightarrow> bool) \<Rightarrow> 'a list \<Rightarrow> nat \<Rightarrow> 'a \<Rightarrow> bool" where
  "covers lt xs hole v \<longleftrightarrow> (\<forall>i. 0 < i \<longrightarrow> i < length xs \<longrightarrow> parent i = hole \<longrightarrow> \<not> lt v (xs ! i))"

lemma mset_move_hole:
  assumes "i < length xs" "j < length xs" "i \<noteq> j"
  shows "mset ((xs[i := xs ! j])[j := v]) = mset (xs[i := v])"
proof -
  have "(xs[i := xs ! j])[j := v] = (xs[i := v])[i := xs[i := v] ! j, j := xs[i := v] ! i]"
    using assms by (simp add: list_update_swap)
  then show ?thesis
    using assms by (metis length_list_update mset_swap)
qed

lemma sift_up_mset: "hole < length xs \<Longrightarrow> mset (sift_up lt xs hole v) = mset (xs[hole := v])"
proof (induction lt xs hole v rule: sift_up.induct)
  case (1 lt xs hole v)
  show ?case
  proof (cases "0 < hole \<and> lt (xs ! parent hole) v")
    case True
    then have p: "parent hole < hole" "parent hole < length xs"
      using "1.prems" parent_less [of hole] by linarith+
    have "sift_up lt xs hole v = sift_up lt (xs[hole := xs ! parent hole]) (parent hole) v"
      using True by (subst sift_up.simps) simp
    then show ?thesis
      using "1.IH" [OF True] "1.prems" p mset_move_hole [of hole xs "parent hole" v] by simp
  next
    case False
    then show ?thesis by (subst sift_up.simps) auto
  qed
qed

lemma length_sift_up [simp]: "hole < length xs \<Longrightarrow> length (sift_up lt xs hole v) = length xs"
  using sift_up_mset [of hole xs lt v] by (metis length_list_update size_mset)

lemma sift_down_mset:
  "hole < length xs \<Longrightarrow> sift_down lt xs hole = (ys, h) \<Longrightarrow>
     h < length ys \<and> length ys = length xs \<and> length ys \<le> 2 * h + 1 \<and> mset (ys[h := v]) = mset (xs[hole := v])"
proof (induction lt xs hole rule: sift_down.induct)
  case (1 lt xs hole)
  let ?c = "larger_child lt xs hole"
  show ?case
  proof (cases "2 * hole + 2 < length xs")
    case True
    then have c: "?c < length xs" "hole \<noteq> ?c"
      using larger_child_cases [of lt xs hole] by auto
    have "sift_down lt (xs[hole := xs ! ?c]) ?c = (ys, h)"
      using "1.prems"(2) True by (subst (asm) sift_down.simps) simp
    then show ?thesis
      using "1.IH" [OF True] c "1.prems"(1) mset_move_hole [of hole xs ?c v] by simp
  next
    case False
    then show ?thesis
      using "1.prems" mset_move_hole [of hole xs "2 * hole + 1" v]
      by (subst (asm) sift_down.simps) (auto split: if_splits)
  qed
qed

locale heap_order =
  fixes lt :: "'a \<Rightarrow> 'a \<Rightarrow> bool"
  assumes lt_asym: "lt x y \<Longrightarrow> \<not> lt y x"
    and lt_neg_trans: "\<not> lt x y \<Longrightarrow> \<not> lt y z \<Longrightarrow> \<not> lt x z"
begin

lemma is_heap_front:
  assumes "is_heap lt xs"
  shows "i < length xs \<Longrightarrow> \<not> lt (xs ! 0) (xs ! i)"
proof (induction i rule: less_induct)
  case (less i)
  show ?case
  proof (cases "i = 0")
    case True
    then show ?thesis using lt_asym by blast
  next
    case False
    then have "\<not> lt (xs ! 0) (xs ! parent i)" "\<not> lt (xs ! parent i) (xs ! i)"
      using less assms parent_less [of i] by (auto simp: is_heap_def)
    then show ?thesis using lt_neg_trans by blast
  qed
qed

lemma hole_moves_up:
  assumes "holed lt xs hole" "0 < hole" "lt (xs ! parent hole) v" "covers lt xs hole v"
  shows "holed lt (xs[hole := xs ! parent hole]) (parent hole) \<and> covers lt (xs[hole := xs ! parent hole]) (parent hole) v"
proof -
  let ?p = "parent hole"
  have p: "?p < hole" "hole < length xs"
    using assms parent_less by (auto simp: holed_def)
  have edge: "\<not> lt (xs ! parent i) (xs ! i)" if "0 < i" "i < length xs" "i \<noteq> hole" "parent i \<noteq> hole" for i
    using assms(1) that by (simp add: holed_def)
  have below: "\<not> lt (xs ! ?p) (xs ! i)" if "0 < i" "i < length xs" "parent i = hole" for i
    using assms(1,2) that by (simp add: holed_def)
  have "holed lt (xs[hole := xs ! ?p]) ?p"
    unfolding holed_def
  proof (intro conjI allI impI)
    fix i
    assume i: "0 < i" "i < length (xs[hole := xs ! ?p])" "i \<noteq> ?p" "parent i \<noteq> ?p"
    then have "i \<noteq> hole"
      by auto
    then show "\<not> lt (xs[hole := xs ! ?p] ! parent i) (xs[hole := xs ! ?p] ! i)"
      using i p edge [of i] below [of i] by (cases "parent i = hole") auto
  next
    fix i
    assume i: "0 < ?p" "0 < i" "i < length (xs[hole := xs ! ?p])" "parent i = ?p"
    have up: "\<not> lt (xs ! parent ?p) (xs ! ?p)" "parent ?p < hole"
      using p edge [of ?p] parent_less [OF i(1)] i(1) by linarith+
    have "\<not> lt (xs ! ?p) (xs ! i)" if "i \<noteq> hole"
      using i p edge [of i] that by auto
    then show "\<not> lt (xs[hole := xs ! ?p] ! parent ?p) (xs[hole := xs ! ?p] ! i)"
      using i p up lt_neg_trans by (cases "i = hole") auto
  qed (use p in auto)
  moreover have "covers lt (xs[hole := xs ! ?p]) ?p v"
    unfolding covers_def
  proof (intro allI impI)
    fix i
    assume i: "0 < i" "i < length (xs[hole := xs ! ?p])" "parent i = ?p"
    have "\<not> lt v (xs ! ?p)"
      using assms(3) lt_asym by blast
    moreover have "\<not> lt (xs ! ?p) (xs ! i)" if "i \<noteq> hole"
      using i p edge [of i] that by auto
    ultimately show "\<not> lt v (xs[hole := xs ! ?p] ! i)"
      using i p lt_neg_trans by (cases "i = hole") auto
  qed
  ultimately show ?thesis by simp
qed

lemma hole_filled:
  assumes "holed lt xs hole" "covers lt xs hole v" "0 < hole \<longrightarrow> \<not> lt (xs ! parent hole) v"
  shows "is_heap lt (xs[hole := v])"
  unfolding is_heap_def
proof (intro allI impI)
  fix i
  assume i: "0 < i" "i < length (xs[hole := v])"
  then have "parent i < i"
    by simp
  then show "\<not> lt (xs[hole := v] ! parent i) (xs[hole := v] ! i)"
    using assms i by (cases "i = hole"; cases "parent i = hole") (auto simp: holed_def covers_def)
qed

lemma sift_up_heap:
  "holed lt xs hole \<Longrightarrow> covers lt xs hole v \<Longrightarrow> is_heap lt (sift_up lt xs hole v)"
proof (induction hole arbitrary: xs rule: less_induct)
  case (less hole)
  show ?case
  proof (cases "0 < hole \<and> lt (xs ! parent hole) v")
    case True
    then have "sift_up lt xs hole v = sift_up lt (xs[hole := xs ! parent hole]) (parent hole) v"
      by (subst sift_up.simps) simp
    then show ?thesis
      using less.IH [of "parent hole"] hole_moves_up [of xs hole v] less.prems True by simp
  next
    case False
    then have "sift_up lt xs hole v = xs[hole := v]"
      by (subst sift_up.simps) auto
    then show ?thesis
      using hole_filled [OF less.prems] False by auto
  qed
qed

lemma hole_moves_down:
  assumes "holed lt xs hole" "0 < c" "c < length xs" "parent c = hole"
    and "\<And>i. 0 < i \<Longrightarrow> i < length xs \<Longrightarrow> parent i = hole \<Longrightarrow> \<not> lt (xs ! c) (xs ! i)"
  shows "holed lt (xs[hole := xs ! c]) c"
proof -
  have hole: "hole < c" "hole < length xs"
    using assms(1,2,4) parent_less [of c] by (auto simp: holed_def)
  have edge: "\<not> lt (xs ! parent i) (xs ! i)" if "0 < i" "i < length xs" "i \<noteq> hole" "parent i \<noteq> hole" for i
    using assms(1) that by (simp add: holed_def)
  have above: "\<not> lt (xs ! parent hole) (xs ! i)" if "0 < hole" "0 < i" "i < length xs" "parent i = hole" for i
    using assms(1) that by (simp add: holed_def)
  show ?thesis
    unfolding holed_def
  proof (intro conjI allI impI)
    fix i
    assume i: "0 < i" "i < length (xs[hole := xs ! c])" "i \<noteq> c" "parent i \<noteq> c"
    then have "parent i < i"
      by simp
    then show "\<not> lt (xs[hole := xs ! c] ! parent i) (xs[hole := xs ! c] ! i)"
      using i hole edge [of i] above [of c] assms(2-5) by (cases "i = hole"; cases "parent i = hole") auto
  next
    fix i
    assume i: "0 < c" "0 < i" "i < length (xs[hole := xs ! c])" "parent i = c"
    then have "c < i"
      using parent_less by metis
    then show "\<not> lt (xs[hole := xs ! c] ! parent c) (xs[hole := xs ! c] ! i)"
      using i hole edge [of i] assms(4) by auto
  qed (use assms(3) in auto)
qed

lemma larger_child_max:
  assumes "2 * hole + 2 < length xs" "0 < i" "parent i = hole"
  shows "\<not> lt (xs ! larger_child lt xs hole) (xs ! i)"
  using assms(2,3) lt_asym by (auto simp: larger_child_def parent_iff)

lemma sift_down_holed: "holed lt xs hole \<Longrightarrow> sift_down lt xs hole = (ys, h) \<Longrightarrow> holed lt ys h"
proof (induction "length xs - hole" arbitrary: xs hole rule: less_induct)
  case less
  let ?c = "larger_child lt xs hole"
  show ?case
  proof (cases "2 * hole + 2 < length xs")
    case True
    then have c: "0 < ?c" "?c < length xs" "parent ?c = hole" "hole < ?c"
      using larger_child_cases [of lt xs hole] by (auto simp: parent_def)
    have "sift_down lt (xs[hole := xs ! ?c]) ?c = (ys, h)"
      using less.prems(2) True by (subst (asm) sift_down.simps) simp
    then show ?thesis
      using less.hyps [of "xs[hole := xs ! ?c]" ?c] c hole_moves_down [OF less.prems(1) c(1-3)] larger_child_max [OF True] by auto
  next
    case False
    have last: "\<not> lt (xs ! (2 * hole + 1)) (xs ! i)" if "0 < i" "i < length xs" "parent i = hole" for i
      using that False lt_asym by (auto simp: parent_iff)
    show ?thesis
    proof (cases "2 * hole + 1 < length xs")
      case True
      then have "holed lt (xs[hole := xs ! (2 * hole + 1)]) (2 * hole + 1)"
        using hole_moves_down [OF less.prems(1), of "2 * hole + 1"] last by (simp add: parent_iff)
      then show ?thesis
        using less.prems(2) False True by (subst (asm) sift_down.simps) (auto simp: not_less)
    next
      case False
      then show ?thesis
        using less.prems by (subst (asm) sift_down.simps) auto
    qed
  qed
qed

lemma butlast_edge:
  assumes "0 < i" "i < length (butlast xs)"
  shows "butlast xs ! parent i = xs ! parent i" "butlast xs ! i = xs ! i"
proof -
  have "parent i < length (butlast xs)"
    using assms parent_less [of i] by linarith
  then show "butlast xs ! parent i = xs ! parent i" "butlast xs ! i = xs ! i"
    using assms(2) nth_butlast by blast+
qed

lemma is_heap_butlast: "is_heap lt (butlast xs) \<Longrightarrow> 0 < i \<Longrightarrow> i < length (butlast xs) \<Longrightarrow> \<not> lt (xs ! parent i) (xs ! i)"
  unfolding is_heap_def by (metis butlast_edge)

lemma is_heap_prefix: "is_heap lt xs \<Longrightarrow> is_heap lt (butlast xs)"
  unfolding is_heap_def by (metis butlast_edge length_butlast less_imp_diff_less less_diff_conv add_lessD1)

text \<open>What the standard promises.\<close>

lemma push_heap_heap:
  assumes "is_heap lt (butlast xs)" "xs \<noteq> []"
  shows "is_heap lt (push_heap lt xs) \<and> mset (push_heap lt xs) = mset xs"
proof -
  have len: "length xs - 1 < length xs"
    using assms(2) by simp
  have "holed lt xs (length xs - 1)"
    unfolding holed_def
  proof (intro conjI allI impI)
    fix i
    assume i: "0 < i" "i < length xs" "i \<noteq> length xs - 1" "parent i \<noteq> length xs - 1"
    then have "parent i < i" "i < length (butlast xs)"
      by auto
    then show "\<not> lt (xs ! parent i) (xs ! i)"
      using is_heap_butlast [OF assms(1) i(1)] by simp
  next
    fix i
    assume "0 < i" "i < length xs" "parent i = length xs - 1"
    then show "\<not> lt (xs ! parent (length xs - 1)) (xs ! i)"
      using parent_less [of i] by simp
  qed (rule len)
  moreover have "covers lt xs (length xs - 1) (last xs)"
    unfolding covers_def
  proof (intro allI impI)
    fix i
    assume "0 < i" "i < length xs" "parent i = length xs - 1"
    then show "\<not> lt (last xs) (xs ! i)"
      using parent_less [of i] by simp
  qed
  moreover have "xs[length xs - 1 := last xs] = xs"
    using assms(2) by (simp add: last_conv_nth)
  ultimately show ?thesis
    using sift_up_heap sift_up_mset [OF len, of lt "last xs"] by (simp add: push_heap_def)
qed

lemma pop_heap_heap:
  assumes "is_heap lt xs" "xs \<noteq> []"
  shows "is_heap lt (butlast (pop_heap lt xs)) \<and> last (pop_heap lt xs) = hd xs \<and> mset (pop_heap lt xs) = mset xs"
proof (cases "length xs \<le> 1")
  case True
  then show ?thesis
    using assms(2) by (cases xs) (auto simp: pop_heap_def is_heap_def)
next
  case False
  obtain ys h where d: "sift_down lt (butlast xs) 0 = (ys, h)"
    by fastforce
  have len: "0 < length (butlast xs)"
    using False by simp
  have "is_heap lt (butlast xs)"
    using assms(1) is_heap_prefix by blast
  then have "holed lt (butlast xs) 0"
    using len by (auto simp: holed_def is_heap_def)
  then have h: "holed lt ys h"
    using sift_down_holed d by blast
  have m: "h < length ys" "length ys \<le> 2 * h + 1" "mset (ys[h := last xs]) = mset ((butlast xs)[0 := last xs])"
    using sift_down_mset [OF len d, of "last xs"] by (blast, blast, blast)
  have "covers lt ys h (last xs)"
    using m(2) by (auto simp: covers_def parent_iff)
  then have "is_heap lt (sift_up lt ys h (last xs))"
    using sift_up_heap h by blast
  moreover have "add_mset (hd xs) (mset ((butlast xs)[0 := last xs])) = mset xs"
  proof -
    obtain x b l where "xs = x # b @ [l]"
      using False by (cases xs; cases "tl xs" rule: rev_cases) auto
    then show ?thesis by simp
  qed
  ultimately show ?thesis
    using False d m sift_up_mset [OF m(1), of lt "last xs"] by (simp add: pop_heap_def)
qed

end

end
