(* ===== verification/Seq_KMerge.thy ===== *)
theory Seq_KMerge
  imports Seq_Stateful Std_Heap
begin

section \<open>Merging any number of sequences\<close>

text \<open>
  Models \<^verbatim>\<open>KMergeBy\<close> of \<^verbatim>\<open>src/src/batteries/seq/kmerge.hpp\<close>. The pointers in its heap are indices into the vector of the merged
  sequences, each of which is wrapped by \<^verbatim>\<open>cache_next\<close>; the sequences that are in the heap hold a cached item, so that
  comparing two of them, which peeks at both, changes nothing.
\<close>

record ('s, 'a) KMergeBy =
  KMergeBy_compare :: "'a \<Rightarrow> 'a \<Rightarrow> bool"
  KMergeBy_k_seqs :: "('s, 'a) CacheNext list"
  KMergeBy_heap :: "nat list"

definition peeked :: "('s, 'a) seq_fn \<Rightarrow> ('s, 'a) CacheNext list \<Rightarrow> nat \<Rightarrow> 'a" where
  "peeked nxt ks i = the (fst (the (CacheNext_peek nxt (ks ! i))))"

definition HeapOrder :: "('s, 'a) seq_fn \<Rightarrow> ('a \<Rightarrow> 'a \<Rightarrow> bool) \<Rightarrow> ('s, 'a) CacheNext list \<Rightarrow> nat \<Rightarrow> nat \<Rightarrow> bool" where
  "HeapOrder nxt compare ks l r \<longleftrightarrow> compare (peeked nxt ks r) (peeked nxt ks l)"

text \<open>The loop of the constructor over the sequences.\<close>

fun kmerge_loop :: "('s, 'a) seq_fn \<Rightarrow> nat list \<Rightarrow> ('s, 'a) KMergeBy \<Rightarrow> ('s, 'a) KMergeBy option" where
  "kmerge_loop nxt [] m = Some m"
| "kmerge_loop nxt (i # is) m =
     Option.bind (CacheNext_peek nxt (KMergeBy_k_seqs m ! i)) (\<lambda>(p, c).
       let ks = (KMergeBy_k_seqs m)[i := c] in
       kmerge_loop nxt is
         (if p = None then m\<lparr>KMergeBy_k_seqs := ks\<rparr>
          else m\<lparr>KMergeBy_k_seqs := ks,
                 KMergeBy_heap := push_heap (HeapOrder nxt (KMergeBy_compare m) ks) (KMergeBy_heap m @ [i])\<rparr>))"

definition kmerge_by :: "('s, 'a) seq_fn \<Rightarrow> ('a \<Rightarrow> 'a \<Rightarrow> bool) \<Rightarrow> 's list \<Rightarrow> ('s, 'a) KMergeBy option" where
  "kmerge_by nxt compare seqs =
     kmerge_loop nxt [0..<length seqs]
       \<lparr>KMergeBy_compare = compare, KMergeBy_k_seqs = map cache_next seqs, KMergeBy_heap = []\<rparr>"

definition KMergeBy_next :: "('s, 'a) seq_fn \<Rightarrow> (('s, 'a) KMergeBy, 'a) seq_fn" where
  "KMergeBy_next nxt m =
     (if KMergeBy_heap m = [] then Some (None, m)
      else
        let heap = pop_heap (HeapOrder nxt (KMergeBy_compare m) (KMergeBy_k_seqs m)) (KMergeBy_heap m);
            next_seq = last heap in
        Option.bind (CacheNext_next nxt (KMergeBy_k_seqs m ! next_seq)) (\<lambda>(next_item, c).
          if next_item = None then None
          else
            Option.bind (CacheNext_peek nxt c) (\<lambda>(p, c).
              let ks = (KMergeBy_k_seqs m)[next_seq := c] in
              Some (next_item, m\<lparr>KMergeBy_k_seqs := ks,
                KMergeBy_heap := (if p = None then butlast heap else push_heap (HeapOrder nxt (KMergeBy_compare m) ks) heap)\<rparr>))))"

definition KMergeBy_peek :: "('s, 'a) seq_fn \<Rightarrow> (('s, 'a) KMergeBy, 'a) seq_fn" where
  "KMergeBy_peek nxt m =
     (case KMergeBy_heap m of
        [] \<Rightarrow> Some (None, m)
      | i # _ \<Rightarrow> Option.bind (CacheNext_peek nxt (KMergeBy_k_seqs m ! i))
          (\<lambda>(p, c). Some (p, m\<lparr>KMergeBy_k_seqs := (KMergeBy_k_seqs m)[i := c]\<rparr>)))"

text \<open>The order that is given must be a strict weak order; the heap order is then one, too.\<close>

definition strict_weak :: "('a \<Rightarrow> 'a \<Rightarrow> bool) \<Rightarrow> bool" where
  "strict_weak lt \<longleftrightarrow> (\<forall>x y. lt x y \<longrightarrow> \<not> lt y x) \<and> (\<forall>x y z. \<not> lt x y \<longrightarrow> \<not> lt y z \<longrightarrow> \<not> lt x z)"

lemma strict_weak_irrefl: "strict_weak lt \<Longrightarrow> \<not> lt x x"
  unfolding strict_weak_def by blast

lemma HeapOrder_heap_order: "strict_weak compare \<Longrightarrow> heap_order (HeapOrder nxt compare ks)"
  unfolding heap_order_def HeapOrder_def strict_weak_def by blast

interpretation natural_heap: heap_order "HeapOrder nxt (\<lambda>x y :: 'a::linorder. x < y) ks"
  for nxt :: "('s, 'a::linorder) seq_fn" and ks
  by (rule HeapOrder_heap_order) (auto simp: strict_weak_def)

definition cached_item :: "('s, 'a) CacheNext \<Rightarrow> bool" where
  "cached_item c \<longleftrightarrow> (\<exists>x. CacheNext_cached c = Some (Some x))"

definition KMergeBy_inv :: "('s, 'a) seq_fn \<Rightarrow> ('s \<Rightarrow> 'a list) \<Rightarrow> ('s \<Rightarrow> bool) \<Rightarrow> nat set \<Rightarrow> ('s, 'a) KMergeBy \<Rightarrow> bool" where
  "KMergeBy_inv nxt items invar done m \<longleftrightarrow>
     strict_weak (KMergeBy_compare m) \<and>
     (\<forall>c \<in> set (KMergeBy_k_seqs m). CacheNext_inv items invar c) \<and>
     distinct (KMergeBy_heap m) \<and>
     set (KMergeBy_heap m) = {i \<in> done. i < length (KMergeBy_k_seqs m) \<and> CacheNext_items items (KMergeBy_k_seqs m ! i) \<noteq> []} \<and>
     (\<forall>i \<in> set (KMergeBy_heap m). cached_item (KMergeBy_k_seqs m ! i)) \<and>
     is_heap (HeapOrder nxt (KMergeBy_compare m) (KMergeBy_k_seqs m)) (KMergeBy_heap m)"

definition remaining :: "('s \<Rightarrow> 'a list) \<Rightarrow> ('s, 'a) KMergeBy \<Rightarrow> 'a multiset" where
  "remaining items m = sum_list (map mset (map (CacheNext_items items) (KMergeBy_k_seqs m)))"

text \<open>What a merge delivers, as a list.\<close>

fun kmerge_run :: "('s, 'a) seq_fn \<Rightarrow> nat \<Rightarrow> ('s, 'a) KMergeBy \<Rightarrow> 'a list" where
  "kmerge_run nxt 0 m = []"
| "kmerge_run nxt (Suc n) m =
     (case KMergeBy_next nxt m of Some (Some x, m') \<Rightarrow> x # kmerge_run nxt n m' | _ \<Rightarrow> [])"

definition KMergeBy_items :: "('s, 'a) seq_fn \<Rightarrow> ('s \<Rightarrow> 'a list) \<Rightarrow> ('s, 'a) KMergeBy \<Rightarrow> 'a list" where
  "KMergeBy_items nxt items m = kmerge_run nxt (size (remaining items m)) m"

lemma cached_peek: "cached_item c \<Longrightarrow> CacheNext_peek nxt c = Some (head_opt (CacheNext_items items c), c) \<and> CacheNext_items items c \<noteq> []"
  by (auto simp: cached_item_def CacheNext_peek_def CacheNext_items_def)

lemma is_heap_order_cong:
  assumes "\<And>i. i \<in> set h \<Longrightarrow> ks' ! i = ks ! i"
  shows "is_heap (HeapOrder nxt compare ks') h = is_heap (HeapOrder nxt compare ks) h"
proof -
  have "parent i < length h" if "0 < i" "i < length h" for i
    using that parent_less [of i] by linarith
  then show ?thesis
    using assms unfolding is_heap_def HeapOrder_def peeked_def by (metis nth_mem)
qed

lemma sum_mset_update:
  "i < length xs \<Longrightarrow> f (xs ! i) = add_mset x (f y) \<Longrightarrow> sum_list (map f xs) = add_mset x (sum_list (map f (xs[i := y])))"
proof (induction xs arbitrary: i)
  case (Cons z xs)
  show ?case
  proof (cases i)
    case 0
    then show ?thesis using Cons.prems by simp
  next
    case (Suc j)
    then show ?thesis using Cons.IH [of j] Cons.prems by simp
  qed
qed simp

lemma in_sum_mset: "y \<in># sum_list (map mset xss) \<longleftrightarrow> (\<exists>xs \<in> set xss. y \<in> set xs)"
  by (induction xss) auto

lemma sum_mset_Nils: "\<forall>xs \<in> set xss. xs = [] \<Longrightarrow> sum_list (map mset xss) = {#}"
  by (induction xss) auto

context seq_next
begin

lemma cache_peek:
  assumes "CacheNext_inv items invar c"
  obtains c' where "CacheNext_peek nxt c = Some (head_opt (CacheNext_items items c), c')" "CacheNext_inv items invar c'"
    "CacheNext_items items c' = CacheNext_items items c" "CacheNext_items items c \<noteq> [] \<Longrightarrow> cached_item c'"
proof -
  obtain c' where c: "CacheNext_peek nxt c = Some (head_opt (CacheNext_items items c), c')" "CacheNext_inv items invar c'"
    "CacheNext_items items c' = CacheNext_items items c"
    using seq_laws.peek_law [OF CacheNext_laws assms] by blast
  moreover have "CacheNext_cached c' = Some (head_opt (CacheNext_items items c))"
    using c(1) by (auto simp: CacheNext_peek_def split: option.splits Option.bind_splits)
  then have "CacheNext_items items c \<noteq> [] \<Longrightarrow> cached_item c'"
    by (cases "CacheNext_items items c") (auto simp: cached_item_def)
  ultimately show thesis
    using that by blast
qed

lemma kmerge_loop_inv:
  assumes "KMergeBy_inv nxt items invar {..<n} m" "n + k = length (KMergeBy_k_seqs m)"
  shows "\<exists>m'. kmerge_loop nxt [n..<n + k] m = Some m' \<and> KMergeBy_inv nxt items invar {..<n + k} m' \<and>
    map (CacheNext_items items) (KMergeBy_k_seqs m') = map (CacheNext_items items) (KMergeBy_k_seqs m) \<and>
    KMergeBy_compare m' = KMergeBy_compare m"
  using assms
proof (induction k arbitrary: n m)
  case 0
  then show ?case by simp
next
  case (Suc k)
  let ?ks = "KMergeBy_k_seqs m" and ?h = "KMergeBy_heap m"
  have n: "n < length ?ks" "CacheNext_inv items invar (?ks ! n)" and sw: "strict_weak (KMergeBy_compare m)"
    using Suc.prems by (auto simp: KMergeBy_inv_def)
  obtain c where c: "CacheNext_peek nxt (?ks ! n) = Some (head_opt (CacheNext_items items (?ks ! n)), c)" "CacheNext_inv items invar c"
    "CacheNext_items items c = CacheNext_items items (?ks ! n)" "CacheNext_items items (?ks ! n) \<noteq> [] \<Longrightarrow> cached_item c"
    using cache_peek [OF n(2)] by blast
  define ks where "ks = ?ks[n := c]"
  define m1 where "m1 = (if CacheNext_items items (?ks ! n) = [] then m\<lparr>KMergeBy_k_seqs := ks\<rparr>
     else m\<lparr>KMergeBy_k_seqs := ks, KMergeBy_heap := push_heap (HeapOrder nxt (KMergeBy_compare m) ks) (?h @ [n])\<rparr>)"
  have loop: "kmerge_loop nxt [n..<n + Suc k] m = kmerge_loop nxt [Suc n..<Suc n + k] m1"
    using c(1) by (subst upt_conv_Cons) (auto simp: m1_def ks_def Let_def)
  have items: "map (CacheNext_items items) ks = map (CacheNext_items items) ?ks"
    using c(3) n(1) by (simp add: ks_def map_update list_update_same_conv)
  have at: "CacheNext_items items (ks ! i) = CacheNext_items items (?ks ! i)" if "i < length ?ks" for i
    using that c(3) by (cases "i = n") (simp_all add: ks_def)
  have len: "length ks = length ?ks"
    by (simp add: ks_def)
  have hset: "i \<in> set ?h \<longleftrightarrow> i < n \<and> i < length ?ks \<and> CacheNext_items items (?ks ! i) \<noteq> []" for i
    using Suc.prems(1) by (simp add: KMergeBy_inv_def)
  then have notin: "n \<notin> set ?h"
    by simp
  have same: "ks ! i = ?ks ! i" if "i \<in> set ?h" for i
    using that notin by (cases "i = n") (auto simp: ks_def)
  have heap: "is_heap (HeapOrder nxt (KMergeBy_compare m) ks) ?h"
    using Suc.prems(1) is_heap_order_cong [of ?h ks ?ks] same by (simp add: KMergeBy_inv_def)
  have push: "is_heap (HeapOrder nxt (KMergeBy_compare m) ks) (push_heap (HeapOrder nxt (KMergeBy_compare m) ks) (?h @ [n])) \<and>
      mset (push_heap (HeapOrder nxt (KMergeBy_compare m) ks) (?h @ [n])) = mset (?h @ [n])"
    using heap_order.push_heap_heap [OF HeapOrder_heap_order [OF sw], of nxt ks "?h @ [n]"] heap by simp
  have dist: "distinct ?h" and cached: "\<forall>i \<in> set ?h. cached_item (ks ! i)"
    using Suc.prems(1) same unfolding KMergeBy_inv_def by metis+
  have cs: "\<forall>c \<in> set ks. CacheNext_inv items invar c"
    using Suc.prems(1) c(2) set_update_subset_insert [of ?ks n c] by (auto simp: KMergeBy_inv_def ks_def)
  have "KMergeBy_inv nxt items invar {..<Suc n} m1"
  proof (cases "CacheNext_items items (?ks ! n) = []")
    case True
    then have "set ?h = {i \<in> {..<Suc n}. i < length ks \<and> CacheNext_items items (ks ! i) \<noteq> []}"
      using at n(1) len hset True by (intro set_eqI) (simp add: less_Suc_eq, metis)
    then show ?thesis
      using sw heap dist cached cs True by (simp add: KMergeBy_inv_def m1_def)
  next
    case False
    let ?h' = "push_heap (HeapOrder nxt (KMergeBy_compare m) ks) (?h @ [n])"
    have mem: "set ?h' = insert n (set ?h)" "distinct ?h'"
      using notin dist mset_eq_setD [OF conjunct2 [OF push]] mset_eq_imp_distinct_iff [OF conjunct2 [OF push]] by auto
    then have "set ?h' = {i \<in> {..<Suc n}. i < length ks \<and> CacheNext_items items (ks ! i) \<noteq> []}"
      using at n(1) False len hset by (auto simp: less_Suc_eq)
    moreover have "\<forall>i \<in> set ?h'. cached_item (ks ! i)"
      using mem(1) cached c(4) n(1) False by (simp add: ks_def)
    ultimately show ?thesis
      using sw push mem(2) cs False by (simp add: KMergeBy_inv_def m1_def)
  qed
  moreover have "Suc n + k = length (KMergeBy_k_seqs m1)"
    using Suc.prems(2) by (simp add: m1_def ks_def)
  ultimately show ?case
    using Suc.IH [of "Suc n" m1] loop items by (auto simp: m1_def)
qed

text \<open>One call of \<^verbatim>\<open>next()\<close>.\<close>

lemma kmerge_next_step:
  assumes "KMergeBy_inv nxt items invar UNIV m" "KMergeBy_heap m = i # h"
  shows "\<exists>m'. KMergeBy_next nxt m = Some (Some (hd (CacheNext_items items (KMergeBy_k_seqs m ! i))), m') \<and>
    KMergeBy_inv nxt items invar UNIV m' \<and> KMergeBy_compare m' = KMergeBy_compare m \<and>
    map (CacheNext_items items) (KMergeBy_k_seqs m') =
      (map (CacheNext_items items) (KMergeBy_k_seqs m))[i := tl (CacheNext_items items (KMergeBy_k_seqs m ! i))]"
proof -
  let ?ks = "KMergeBy_k_seqs m" and ?ord = "\<lambda>ks. HeapOrder nxt (KMergeBy_compare m) ks"
  let ?its = "CacheNext_items items (?ks ! i)"
  have heap: "set (i # h) = {j. j < length ?ks \<and> CacheNext_items items (?ks ! j) \<noteq> []}" "distinct (i # h)"
    and cached: "\<forall>j \<in> set (i # h). cached_item (?ks ! j)" and all: "\<forall>c \<in> set ?ks. CacheNext_inv items invar c"
    and sw: "strict_weak (KMergeBy_compare m)"
    using assms by (auto simp: KMergeBy_inv_def)
  have i: "i < length ?ks" "?its \<noteq> []"
    using heap(1) by auto
  then have inv_i: "CacheNext_inv items invar (?ks ! i)"
    using all by simp
  define g where "g = pop_heap (?ord ?ks) (i # h)"
  define b where "b = butlast g"
  have pop: "is_heap (?ord ?ks) b" "last g = i" "mset g = mset (i # h)"
    using heap_order.pop_heap_heap [OF HeapOrder_heap_order [OF sw], of nxt ?ks "i # h"] assms
    by (auto simp: KMergeBy_inv_def g_def b_def)
  have "g \<noteq> []"
    using pop(3) by auto
  then have g: "g = b @ [i]"
    using pop(2) append_butlast_last_id by (metis b_def)
  have b: "distinct (b @ [i])" "set (b @ [i]) = set (i # h)"
    using heap(2) mset_eq_imp_distinct_iff [OF pop(3)] mset_eq_setD [OF pop(3)] g by auto
  obtain c1 where c1: "CacheNext_next nxt (?ks ! i) = Some (head_opt ?its, c1)" "CacheNext_inv items invar c1"
    "CacheNext_items items c1 = tl ?its"
    using seq_next.next_law [OF seq_laws.axioms(1) [OF CacheNext_laws] inv_i] by blast
  obtain c where c: "CacheNext_peek nxt c1 = Some (head_opt (tl ?its), c)" "CacheNext_inv items invar c"
    "CacheNext_items items c = tl ?its" "tl ?its \<noteq> [] \<Longrightarrow> cached_item c"
    using cache_peek [OF c1(2)] c1(3) by metis
  define ks where "ks = ?ks[i := c]"
  have same: "ks ! j = ?ks ! j" if "j \<noteq> i" for j
    using that by (simp add: ks_def)
  have at_i: "ks ! i = c"
    using i(1) by (simp add: ks_def)
  have hb: "is_heap (?ord ks) b"
  proof -
    have "ks ! j = ?ks ! j" if "j \<in> set b" for j
      using that b(1) same [of j] by auto
    then show ?thesis
      using pop(1) is_heap_order_cong [of b ks ?ks nxt "KMergeBy_compare m"] by blast
  qed
  define h' where "h' = (if tl ?its = [] then b else push_heap (?ord ks) g)"
  define m' where "m' = m\<lparr>KMergeBy_k_seqs := ks, KMergeBy_heap := h'\<rparr>"
  have nextm: "KMergeBy_next nxt m = Some (Some (hd ?its), m')"
  proof -
    have nil: "head_opt (tl ?its) = None \<longleftrightarrow> tl ?its = []"
      by (simp add: head_opt_None_iff)
    show ?thesis
      using assms(2) c1(1) c(1) i(2) nil
      by (simp add: KMergeBy_next_def g_def [symmetric] pop(2) b_def [symmetric] ks_def [symmetric] m'_def h'_def head_opt_hd Let_def)
  qed
  have h': "is_heap (?ord ks) h'" "distinct h'" "set h' = {j. j < length ks \<and> CacheNext_items items (ks ! j) \<noteq> []}"
    "\<forall>j \<in> set h'. cached_item (ks ! j)"
  proof -
    have push: "is_heap (?ord ks) (push_heap (?ord ks) g)" "mset (push_heap (?ord ks) g) = mset g"
      using heap_order.push_heap_heap [OF HeapOrder_heap_order [OF sw], of nxt ks g] hb g by auto
    show "is_heap (?ord ks) h'"
      using hb push by (simp add: h'_def)
    show "distinct h'"
      using b(1) g mset_eq_imp_distinct_iff [OF push(2)] by (simp add: h'_def)
    have "set h' = (if tl ?its = [] then set b else insert i (set b))"
      using g mset_eq_setD [OF push(2)] by (simp add: h'_def)
    then have mem: "j \<in> set h' \<longleftrightarrow> (if j = i then tl ?its \<noteq> [] else j \<in> set h)" for j
      using b by auto
    have "j \<in> set h' \<longleftrightarrow> j < length ks \<and> CacheNext_items items (ks ! j) \<noteq> []" for j
    proof (cases "j = i")
      case True
      then show ?thesis
        using mem [of j] at_i c(3) i(1) by (simp add: ks_def)
    next
      case False
      then show ?thesis
        using mem [of j] same [of j] heap(1) by (auto simp: ks_def)
    qed
    then show "set h' = {j. j < length ks \<and> CacheNext_items items (ks ! j) \<noteq> []}"
      by blast
    show "\<forall>j \<in> set h'. cached_item (ks ! j)"
      using mem at_i c(4) same cached by (metis list.set_intros(2))
  qed
  have "KMergeBy_inv nxt items invar UNIV m'"
    using sw h' all c(2) set_update_subset_insert [of ?ks i c] by (auto simp: KMergeBy_inv_def m'_def ks_def [symmetric])
  moreover have "map (CacheNext_items items) ks = (map (CacheNext_items items) ?ks)[i := tl ?its]"
    by (simp add: ks_def map_update c(3))
  ultimately show ?thesis
    using nextm by (simp add: m'_def)
qed

lemma remaining_step:
  assumes "i < length (KMergeBy_k_seqs m)" "CacheNext_items items (KMergeBy_k_seqs m ! i) = x # xs"
    and "map (CacheNext_items items) (KMergeBy_k_seqs m') = (map (CacheNext_items items) (KMergeBy_k_seqs m))[i := xs]"
  shows "remaining items m = add_mset x (remaining items m')"
proof -
  let ?its = "map (CacheNext_items items) (KMergeBy_k_seqs m)"
  have "remaining items m = sum_list (map mset ?its)" "remaining items m' = sum_list (map mset (?its[i := xs]))"
    unfolding remaining_def assms(3) by (rule refl)+
  then show ?thesis
    using sum_mset_update [of i ?its mset x xs] assms(1,2) by simp
qed

lemma kmerge_finished:
  assumes "KMergeBy_inv nxt items invar UNIV m" "KMergeBy_heap m = []"
  shows "remaining items m = {#}"
proof -
  have "\<forall>xs \<in> set (map (CacheNext_items items) (KMergeBy_k_seqs m)). xs = []"
    using assms by (fastforce simp: KMergeBy_inv_def in_set_conv_nth)
  then show ?thesis
    unfolding remaining_def by (rule sum_mset_Nils)
qed

lemma KMergeBy_laws:
  "seq_laws (KMergeBy_next nxt) (KMergeBy_items nxt items) (KMergeBy_inv nxt items invar UNIV) (KMergeBy_peek nxt)"
proof (unfold_locales, goal_cases)
  case (1 m)
  show ?case
  proof (cases "KMergeBy_heap m")
    case Nil
    then show ?thesis
      using 1 kmerge_finished [OF 1] by (simp add: KMergeBy_next_def KMergeBy_items_def)
  next
    case (Cons i h)
    obtain m' where m': "KMergeBy_next nxt m = Some (Some (hd (CacheNext_items items (KMergeBy_k_seqs m ! i))), m')"
      "KMergeBy_inv nxt items invar UNIV m'" "map (CacheNext_items items) (KMergeBy_k_seqs m') =
      (map (CacheNext_items items) (KMergeBy_k_seqs m))[i := tl (CacheNext_items items (KMergeBy_k_seqs m ! i))]"
      using kmerge_next_step [OF 1 Cons] by blast
    have i: "i < length (KMergeBy_k_seqs m)" "CacheNext_items items (KMergeBy_k_seqs m ! i) \<noteq> []"
      using 1 Cons by (auto simp: KMergeBy_inv_def)
    have "remaining items m = add_mset (hd (CacheNext_items items (KMergeBy_k_seqs m ! i))) (remaining items m')"
      by (rule remaining_step [OF i(1) hd_Cons_tl [OF i(2), symmetric] m'(3)])
    then have "KMergeBy_items nxt items m = hd (CacheNext_items items (KMergeBy_k_seqs m ! i)) # KMergeBy_items nxt items m'"
      by (simp add: KMergeBy_items_def m'(1))
    then show ?thesis
      using m' by simp
  qed
next
  case (2 m)
  show ?case
  proof (cases "KMergeBy_heap m")
    case Nil
    then show ?thesis
      using 2 kmerge_finished [OF 2] by (simp add: KMergeBy_peek_def KMergeBy_items_def)
  next
    case (Cons i h)
    have i: "i < length (KMergeBy_k_seqs m)" "CacheNext_items items (KMergeBy_k_seqs m ! i) \<noteq> []" "cached_item (KMergeBy_k_seqs m ! i)"
      using 2 Cons by (auto simp: KMergeBy_inv_def)
    obtain m' where "KMergeBy_next nxt m = Some (Some (hd (CacheNext_items items (KMergeBy_k_seqs m ! i))), m')"
      "map (CacheNext_items items) (KMergeBy_k_seqs m') =
      (map (CacheNext_items items) (KMergeBy_k_seqs m))[i := tl (CacheNext_items items (KMergeBy_k_seqs m ! i))]"
      using kmerge_next_step [OF 2 Cons] by blast
    moreover have "size (remaining items m) = Suc (size (remaining items m'))"
      using remaining_step [OF i(1) hd_Cons_tl [OF i(2), symmetric] calculation(2)] by simp
    ultimately show ?thesis
      using 2 Cons cached_peek [OF i(3), of nxt items] i(2) by (simp add: KMergeBy_peek_def KMergeBy_items_def head_opt_hd)
  qed
qed

lemma kmerge_front_least:
  assumes "KMergeBy_inv nxt items invar UNIV m" "KMergeBy_heap m = i # h" "y \<in># remaining items m"
    and "\<And>c. c \<in> set (KMergeBy_k_seqs m) \<Longrightarrow> sorted_wrt (\<lambda>a b. \<not> KMergeBy_compare m b a) (CacheNext_items items c)"
  shows "\<not> KMergeBy_compare m y (hd (CacheNext_items items (KMergeBy_k_seqs m ! i)))"
proof -
  let ?ks = "KMergeBy_k_seqs m" and ?its = "\<lambda>j. CacheNext_items items (KMergeBy_k_seqs m ! j)"
  have sw: "strict_weak (KMergeBy_compare m)" and heap: "is_heap (HeapOrder nxt (KMergeBy_compare m) ?ks) (i # h)"
    and set: "\<And>j. j \<in> set (i # h) \<longleftrightarrow> j < length ?ks \<and> ?its j \<noteq> []" and cached: "\<forall>j \<in> set (i # h). cached_item (?ks ! j)"
    using assms(1,2) by (auto simp: KMergeBy_inv_def)
  obtain c where "c \<in> set ?ks" "y \<in> set (CacheNext_items items c)"
    using assms(3) unfolding remaining_def in_sum_mset by auto
  then obtain j where j: "j < length ?ks" "y \<in> set (?its j)"
    by (metis in_set_conv_nth)
  then have "j \<in> set (i # h)"
    using set by fastforce
  then obtain k where k: "k < length (i # h)" "(i # h) ! k = j"
    by (metis in_set_conv_nth)
  have front: "peeked nxt ?ks l = hd (?its l)" if "l \<in> set (i # h)" for l
    using cached_peek [of "?ks ! l" nxt items] cached that by (auto simp: peeked_def head_opt_hd)
  have "\<not> HeapOrder nxt (KMergeBy_compare m) ?ks ((i # h) ! 0) ((i # h) ! k)"
    by (rule heap_order.is_heap_front [OF HeapOrder_heap_order [OF sw] heap k(1)])
  then have "\<not> KMergeBy_compare m (hd (?its j)) (hd (?its i))"
    using k(2) front \<open>j \<in> set (i # h)\<close> by (simp add: HeapOrder_def)
  moreover have "\<not> KMergeBy_compare m y (hd (?its j))"
  proof (cases "?its j")
    case (Cons z zs)
    then show ?thesis
      using assms(4) [OF nth_mem [OF j(1)]] j(2) strict_weak_irrefl [OF sw, of z] by auto
  qed (use j in simp)
  ultimately show ?thesis
    using sw unfolding strict_weak_def by blast
qed

lemma KMergeBy_items_sorted:
  assumes "KMergeBy_inv nxt items invar UNIV m"
    and "\<And>c. c \<in> set (KMergeBy_k_seqs m) \<Longrightarrow> sorted_wrt (\<lambda>a b. \<not> KMergeBy_compare m b a) (CacheNext_items items c)"
  shows "mset (KMergeBy_items nxt items m) = remaining items m \<and>
    sorted_wrt (\<lambda>a b. \<not> KMergeBy_compare m b a) (KMergeBy_items nxt items m)"
  using assms
proof (induction "size (remaining items m)" arbitrary: m)
  case 0
  then show ?case by (simp add: KMergeBy_items_def)
next
  case (Suc n)
  let ?its = "\<lambda>m. map (CacheNext_items items) (KMergeBy_k_seqs m)"
  obtain i h where h: "KMergeBy_heap m = i # h"
    using Suc.hyps(2) kmerge_finished [OF Suc.prems(1)] by (cases "KMergeBy_heap m") auto
  define x where "x = hd (CacheNext_items items (KMergeBy_k_seqs m ! i))"
  obtain m' where m': "KMergeBy_next nxt m = Some (Some x, m')"
    "KMergeBy_inv nxt items invar UNIV m'" "KMergeBy_compare m' = KMergeBy_compare m"
    "?its m' = (?its m)[i := tl (CacheNext_items items (KMergeBy_k_seqs m ! i))]"
    using kmerge_next_step [OF Suc.prems(1) h] unfolding x_def by blast
  have "i < length (KMergeBy_k_seqs m)" "CacheNext_items items (KMergeBy_k_seqs m ! i) \<noteq> []"
    using Suc.prems(1) h by (auto simp: KMergeBy_inv_def)
  then have i: "i < length (KMergeBy_k_seqs m)"
    "CacheNext_items items (KMergeBy_k_seqs m ! i) = x # tl (CacheNext_items items (KMergeBy_k_seqs m ! i))"
    by (simp_all add: x_def)
  have rem: "remaining items m = add_mset x (remaining items m')"
    by (rule remaining_step [OF i m'(4)])
  have its: "KMergeBy_items nxt items m = x # KMergeBy_items nxt items m'"
    by (simp add: KMergeBy_items_def rem m'(1))
  have "sorted_wrt (\<lambda>a b. \<not> KMergeBy_compare m b a) xs" if "xs \<in> set (?its m')" for xs
  proof -
    have "xs \<in> insert (tl (CacheNext_items items (KMergeBy_k_seqs m ! i))) (set (?its m))"
      using that set_update_subset_insert [of "?its m" i] unfolding m'(4) by blast
    moreover have "sorted_wrt (\<lambda>a b. \<not> KMergeBy_compare m b a) (tl (CacheNext_items items (KMergeBy_k_seqs m ! i)))"
      using Suc.prems(2) [OF nth_mem [OF i(1)]] by (cases "CacheNext_items items (KMergeBy_k_seqs m ! i)") auto
    moreover have "\<forall>ys \<in> set (?its m). sorted_wrt (\<lambda>a b. \<not> KMergeBy_compare m b a) ys"
      using Suc.prems(2) by simp
    ultimately show ?thesis
      by blast
  qed
  then have IH: "mset (KMergeBy_items nxt items m') = remaining items m' \<and>
      sorted_wrt (\<lambda>a b. \<not> KMergeBy_compare m b a) (KMergeBy_items nxt items m')"
    using Suc.hyps(1) [of m'] Suc.hyps(2) rem m'(2,3) by simp
  have "\<not> KMergeBy_compare m y x" if "y \<in> set (KMergeBy_items nxt items m')" for y
  proof -
    have "y \<in># remaining items m"
      using that IH rem by (metis insert_iff set_mset_add_mset_insert set_mset_mset)
    then show ?thesis
      using kmerge_front_least [OF Suc.prems(1) h] Suc.prems(2) unfolding x_def by blast
  qed
  then show ?case
    using IH rem its by simp
qed

lemma kmerge_by_started:
  assumes "\<forall>s \<in> set seqs. invar s" "strict_weak compare"
  shows "\<exists>m. kmerge_by nxt compare seqs = Some m \<and> KMergeBy_inv nxt items invar UNIV m \<and> KMergeBy_compare m = compare \<and>
    map (CacheNext_items items) (KMergeBy_k_seqs m) = map items seqs"
proof -
  let ?m = "\<lparr>KMergeBy_compare = compare, KMergeBy_k_seqs = map cache_next seqs, KMergeBy_heap = []\<rparr>"
  have start: "KMergeBy_inv nxt items invar {..<0} ?m"
    using assms by (auto simp: KMergeBy_inv_def is_heap_def CacheNext_inv_def cache_next_def)
  have its: "map (CacheNext_items items) (map cache_next seqs) = map items seqs"
    by (simp add: CacheNext_items_def cache_next_def)
  obtain m where m: "kmerge_loop nxt [0..<0 + length seqs] ?m = Some m" "KMergeBy_inv nxt items invar {..<0 + length seqs} m"
    "map (CacheNext_items items) (KMergeBy_k_seqs m) = map (CacheNext_items items) (KMergeBy_k_seqs ?m)" "KMergeBy_compare m = compare"
    using kmerge_loop_inv [OF start, of "length seqs"] by auto
  then have "length (KMergeBy_k_seqs m) = length seqs"
    by (metis KMergeBy.select_convs(2) length_map)
  then have "KMergeBy_inv nxt items invar UNIV m"
    using m(2) by (auto simp: KMergeBy_inv_def)
  then show ?thesis
    using m its by (simp add: kmerge_by_def)
qed

end

text \<open>
  C32 (functional). A merge of any number of sorted sequences delivers every item of every sequence, as often as they hold it, in sorted
  order, for every strict weak order; the construction and every call return, and the assertion that a sequence of the heap still has an
  item holds.
\<close>

theorem KMergeBy_sorted_merge:
  fixes nxt :: "('s, 'a) seq_fn"
  assumes "seq_next nxt items invar" and "\<forall>s \<in> set seqs. invar s" and "strict_weak compare"
    and "\<forall>s \<in> set seqs. sorted_wrt (\<lambda>a b. \<not> compare b a) (items s)"
  shows "\<exists>m v. kmerge_by nxt compare seqs = Some m \<and> collect_vec (KMergeBy_next nxt) m = Some v \<and>
     sorted_wrt (\<lambda>a b. \<not> compare b a) v \<and> mset v = sum_list (map mset (map items seqs))"
proof -
  obtain m where m: "kmerge_by nxt compare seqs = Some m" "KMergeBy_inv nxt items invar UNIV m" "KMergeBy_compare m = compare"
    "map (CacheNext_items items) (KMergeBy_k_seqs m) = map items seqs"
    using seq_next.kmerge_by_started [OF assms(1-3)] by blast
  have "sorted_wrt (\<lambda>a b. \<not> compare b a) (CacheNext_items items c)" if "c \<in> set (KMergeBy_k_seqs m)" for c
  proof -
    have "CacheNext_items items c \<in> set (map items seqs)"
      using that m(4) by (metis image_eqI list.set_map)
    then show ?thesis
      using assms(4) by auto
  qed
  then have "mset (KMergeBy_items nxt items m) = remaining items m \<and> sorted_wrt (\<lambda>a b. \<not> compare b a) (KMergeBy_items nxt items m)"
    using seq_next.KMergeBy_items_sorted [OF assms(1) m(2)] m(3) by blast
  moreover have "remaining items m = sum_list (map mset (map items seqs))"
    by (simp only: remaining_def m(4))
  ultimately show ?thesis
    using m(1) collect_adapter [OF seq_next.KMergeBy_laws [OF assms(1)] m(2)] by auto
qed

theorem KMergeBy_sorted_merge_witness:
  "\<exists>m v. kmerge_by range_next (<) [as_seq [2, 4], as_seq [], as_seq [1, 2, 7], as_seq [3 :: nat]] = Some m \<and>
     collect_vec (KMergeBy_next range_next) m = Some v \<and> v = [1, 2, 2, 3, 4, 7]"
proof -
  have "\<exists>m v. kmerge_by range_next (<) [as_seq [2, 4], as_seq [], as_seq [1, 2, 7], as_seq [3 :: nat]] = Some m \<and>
     collect_vec (KMergeBy_next range_next) m = Some v \<and> sorted_wrt (\<lambda>a b. \<not> b < a) v \<and>
     mset v = sum_list (map mset (map SubRangeSeq_range [as_seq [2, 4], as_seq [], as_seq [1, 2, 7], as_seq [3 :: nat]]))"
    by (rule KMergeBy_sorted_merge [OF vec_seq.seq_next_axioms]) (auto simp: strict_weak_def)
  moreover have "v = [1, 2, 2, 3, 4, 7]" if "sorted_wrt (\<lambda>a b. \<not> b < a) v" "mset v = mset [1, 2, 2, 3, 4, 7 :: nat]" for v
    using that properties_for_sort [OF that(2)] by (simp add: not_less sorted_sort_id)
  ultimately show ?thesis
    by (fastforce simp: add_mset_commute)
qed

end
