(* ===== verification/Handler_Memory.thy ===== *)
theory Handler_Memory
  imports Raw_Storage
begin

section \<open>Handlers and their memory\<close>

text \<open>
  Models the ownership of completion handlers in \<^verbatim>\<open>src/src/batteries/async/handler.hpp\<close>: \<^verbatim>\<open>HandlerImpl\<close>, which is allocated by the allocator that
  is associated with its function and frees itself before it calls the function, \<^verbatim>\<open>UniqueHandler\<close>, and \<^verbatim>\<open>HandlerMemory\<close> with its allocator.
  The allocator of a function is \<^verbatim>\<open>std::allocator\<close> or that of one of any number of handler memories, which have numbers here.
  \<open>hs_calls\<close> records the calls of functions and \<open>hs_dropped\<close> the functions that were destroyed without a call.
\<close>

datatype ptr = Inline nat | Block nat

datatype allocator = Std_alloc | Memory_alloc nat

record 'f HandlerImpl =
  hi_fn :: 'f
  hi_alloc :: allocator
  hi_ptr :: ptr

text \<open>The memory: the sizes of the handler memories and which of them are in use, and the blocks that were allocated outside of them,
  with their length.\<close>

record memory =
  hm_size :: "nat \<Rightarrow> nat"
  hm_in_use :: "nat set"
  hm_blocks :: "nat \<rightharpoonup> nat"
  hm_next :: nat

record ('f, 'a) handler_state =
  hs_mem :: memory
  hs_objs :: "'f HandlerImpl option option list"
  hs_calls :: "('f \<times> 'a) list"
  hs_dropped :: "'f list"

definition memory_init :: "(nat \<Rightarrow> nat) \<Rightarrow> memory" where
  "memory_init sizes = \<lparr>hm_size = sizes, hm_in_use = {}, hm_blocks = Map.empty, hm_next = 0\<rparr>"

definition new_block :: "nat \<Rightarrow> memory \<Rightarrow> ptr \<times> memory" where
  "new_block n m = (Block (hm_next m), m\<lparr>hm_blocks := (hm_blocks m)(hm_next m \<mapsto> n), hm_next := hm_next m + 1\<rparr>)"

definition HandlerMemory_allocate :: "nat \<Rightarrow> nat \<Rightarrow> memory \<Rightarrow> ptr \<times> memory" where
  "HandlerMemory_allocate i n m =
     (if i \<notin> hm_in_use m \<and> n < hm_size m i then (Inline i, m\<lparr>hm_in_use := insert i (hm_in_use m)\<rparr>) else new_block n m)"

definition delete_block :: "ptr \<Rightarrow> memory \<Rightarrow> memory outcome" where
  "delete_block p m =
     (case p of
        Inline j \<Rightarrow> Storage_misuse
      | Block k \<Rightarrow> if hm_blocks m k = None then Storage_misuse else Fine (m\<lparr>hm_blocks := (hm_blocks m)(k := None)\<rparr>))"

definition HandlerMemory_deallocate :: "nat \<Rightarrow> ptr \<Rightarrow> memory \<Rightarrow> memory outcome" where
  "HandlerMemory_deallocate i p m =
     (if p = Inline i then Fine (m\<lparr>hm_in_use := hm_in_use m - {i}\<rparr>) else delete_block p m)"

text \<open>\<^verbatim>\<open>std::allocator\<close>: a block of \<open>n\<close> objects is deallocated with the same \<open>n\<close>.\<close>

definition std_deallocate :: "ptr \<Rightarrow> nat \<Rightarrow> memory \<Rightarrow> memory outcome" where
  "std_deallocate p n m =
     (case p of
        Inline i \<Rightarrow> Storage_misuse
      | Block k \<Rightarrow> if hm_blocks m k \<noteq> Some n then Storage_misuse else Fine (m\<lparr>hm_blocks := (hm_blocks m)(k := None)\<rparr>))"

definition allocate :: "allocator \<Rightarrow> nat \<Rightarrow> nat \<Rightarrow> memory \<Rightarrow> ptr \<times> memory" where
  "allocate al sizeof_T n m = (case al of Std_alloc \<Rightarrow> new_block n m | Memory_alloc i \<Rightarrow> HandlerMemory_allocate i (sizeof_T * n) m)"

definition deallocate :: "allocator \<Rightarrow> ptr \<Rightarrow> nat \<Rightarrow> memory \<Rightarrow> memory outcome" where
  "deallocate al p n m = (case al of Std_alloc \<Rightarrow> std_deallocate p n m | Memory_alloc i \<Rightarrow> HandlerMemory_deallocate i p m)"

definition make_new :: "'f \<Rightarrow> allocator \<Rightarrow> nat \<Rightarrow> memory \<Rightarrow> 'f HandlerImpl \<times> memory" where
  "make_new f al sizeof_impl m =
     (case allocate al sizeof_impl 1 m of (p, m) \<Rightarrow> (\<lparr>hi_fn = f, hi_alloc = al, hi_ptr = p\<rparr>, m))"

text \<open>The second overload, which no class of the library calls.\<close>

definition make_new_extra :: "'f \<Rightarrow> allocator \<Rightarrow> nat \<Rightarrow> nat \<Rightarrow> memory \<Rightarrow> 'f HandlerImpl \<times> memory" where
  "make_new_extra f al sizeof_impl extra_bytes m =
     (case allocate al sizeof_impl (1 + (extra_bytes + sizeof_impl - 1) div sizeof_impl) m of
        (p, m) \<Rightarrow> (\<lparr>hi_fn = f, hi_alloc = al, hi_ptr = p\<rparr>, m))"

definition consume_impl :: "'f HandlerImpl \<Rightarrow> memory \<Rightarrow> ('f \<times> memory) outcome" where
  "consume_impl h m = outcome_bind (deallocate (hi_alloc h) (hi_ptr h) 1 m) (\<lambda>m. Fine (hi_fn h, m))"

text \<open>\<^verbatim>\<open>notify\<close> and \<^verbatim>\<open>destroy\<close>, the latter as the deleter of the unique pointer.\<close>

definition notify :: "'a \<Rightarrow> 'f HandlerImpl \<Rightarrow> ('f, 'a) handler_state \<Rightarrow> ('f, 'a) handler_state outcome" where
  "notify a h s = outcome_bind (consume_impl h (hs_mem s)) (\<lambda>(f, m). Fine (s\<lparr>hs_mem := m, hs_calls := hs_calls s @ [(f, a)]\<rparr>))"

definition destroy_handler :: "'f HandlerImpl option \<Rightarrow> ('f, 'a) handler_state \<Rightarrow> ('f, 'a) handler_state outcome" where
  "destroy_handler h s =
     (case h of
        None \<Rightarrow> Fine s
      | Some h \<Rightarrow> outcome_bind (consume_impl h (hs_mem s)) (\<lambda>(f, m). Fine (s\<lparr>hs_mem := m, hs_dropped := hs_dropped s @ [f]\<rparr>)))"

abbreviation set_obj :: "nat \<Rightarrow> 'f HandlerImpl option option \<Rightarrow> ('f, 'a) handler_state \<Rightarrow> ('f, 'a) handler_state" where
  "set_obj i x s \<equiv> s\<lparr>hs_objs := (hs_objs s)[i := x]\<rparr>"

datatype ('f, 'a) handler_op =
    H_empty nat
  | H_make nat 'f allocator nat
  | H_move nat nat
  | H_assign_move nat nat
  | H_call nat 'a
  | H_destruct nat

fun handler_exec :: "('f, 'a) handler_op \<Rightarrow> ('f, 'a) handler_state \<Rightarrow> ('f, 'a) handler_state outcome" where
  "handler_exec (H_empty i) s = Fine (set_obj i (Some None) s)"
| "handler_exec (H_make i f al sizeof_impl) s =
     (case make_new f al sizeof_impl (hs_mem s) of (h, m) \<Rightarrow> Fine (set_obj i (Some (Some h)) (s\<lparr>hs_mem := m\<rparr>)))"
| "handler_exec (H_move i j) s = Fine (set_obj i (Some (obj (hs_objs s) j)) (set_obj j (Some None) s))"
| "handler_exec (H_assign_move i j) s =
     (let that = obj (hs_objs s) j; s = set_obj j (Some None) s; old = obj (hs_objs s) i in
      destroy_handler old (set_obj i (Some that) s))"
| "handler_exec (H_call i a) s =
     (case obj (hs_objs s) i of None \<Rightarrow> Fine s | Some h \<Rightarrow> notify a h (set_obj i (Some None) s))"
| "handler_exec (H_destruct i) s = destroy_handler (obj (hs_objs s) i) (set_obj i None s)"

fun handler_legal :: "('f, 'a) handler_op \<Rightarrow> ('f, 'a) handler_state \<Rightarrow> bool" where
  "handler_legal (H_empty i) s = is_free (hs_objs s) i"
| "handler_legal (H_make i f al sizeof_impl) s = is_free (hs_objs s) i"
| "handler_legal (H_move i j) s = (is_free (hs_objs s) i \<and> is_obj (hs_objs s) j)"
| "handler_legal (H_assign_move i j) s = (is_obj (hs_objs s) i \<and> is_obj (hs_objs s) j)"
| "handler_legal (H_call i a) s = is_obj (hs_objs s) i"
| "handler_legal (H_destruct i) s = is_obj (hs_objs s) i"

definition handler_init :: "(nat \<Rightarrow> nat) \<Rightarrow> nat \<Rightarrow> ('f, 'a) handler_state" where
  "handler_init sizes n = \<lparr>hs_mem = memory_init sizes, hs_objs = replicate n None, hs_calls = [], hs_dropped = []\<rparr>"

subsection \<open>Every handler is called or destroyed once\<close>

definition held :: "'f HandlerImpl option option \<Rightarrow> 'f HandlerImpl multiset" where
  "held x = (case x of Some (Some h) \<Rightarrow> {#h#} | _ \<Rightarrow> {#})"

definition live :: "'f HandlerImpl option option list \<Rightarrow> 'f HandlerImpl multiset" where
  "live os = sum_list (map held os)"

definition in_memory :: "memory \<Rightarrow> ptr set" where
  "in_memory m = Inline ` hm_in_use m \<union> Block ` dom (hm_blocks m)"

definition placed :: "memory \<Rightarrow> 'f HandlerImpl \<Rightarrow> bool" where
  "placed m h = (case hi_alloc h of
       Std_alloc \<Rightarrow> \<exists>k. hi_ptr h = Block k \<and> hm_blocks m k = Some 1
     | Memory_alloc i \<Rightarrow> hi_ptr h = Inline i \<or> (\<exists>k. hi_ptr h = Block k))"

definition memory_holds :: "memory \<Rightarrow> 'f HandlerImpl multiset \<Rightarrow> bool" where
  "memory_holds m L \<longleftrightarrow>
     finite (hm_in_use m) \<and> finite (dom (hm_blocks m)) \<and> (\<forall>k \<in> dom (hm_blocks m). k < hm_next m) \<and>
     image_mset hi_ptr L = mset_set (in_memory m) \<and> (\<forall>h \<in># L. placed m h)"

definition handler_inv :: "('f, 'a) handler_state \<Rightarrow> bool" where
  "handler_inv s \<longleftrightarrow> memory_holds (hs_mem s) (live (hs_objs s))"

lemma live_update: "i < length os \<Longrightarrow> live (os[i := x]) + held (os ! i) = live os + held x"
proof (induction os arbitrary: i)
  case (Cons y os)
  then show ?case
    by (cases i) (auto simp: live_def ac_simps)
qed simp

lemma in_memory_simps:
  "in_memory (m\<lparr>hm_in_use := insert i (hm_in_use m)\<rparr>) = insert (Inline i) (in_memory m)"
  "in_memory (m\<lparr>hm_in_use := hm_in_use m - {i}\<rparr>) = in_memory m - {Inline i}"
  "in_memory (m\<lparr>hm_blocks := (hm_blocks m)(k \<mapsto> n), hm_next := j\<rparr>) = insert (Block k) (in_memory m)"
  "in_memory (m\<lparr>hm_blocks := (hm_blocks m)(k := None)\<rparr>) = in_memory m - {Block k}"
  by (auto simp: in_memory_def)

lemma in_memory_iff [simp]: "Inline i \<in> in_memory m \<longleftrightarrow> i \<in> hm_in_use m" "Block k \<in> in_memory m \<longleftrightarrow> k \<in> dom (hm_blocks m)"
  by (auto simp: in_memory_def)

lemma in_memory_finite: "finite (hm_in_use m) \<Longrightarrow> finite (dom (hm_blocks m)) \<Longrightarrow> finite (in_memory m)"
  by (simp add: in_memory_def)

text \<open>A handler stays where it is when the memory changes elsewhere.\<close>

lemma placed_other:
  "placed (m\<lparr>hm_in_use := u\<rparr>) h = placed m h"
  "placed m h \<Longrightarrow> hi_ptr h \<noteq> Block k \<Longrightarrow> placed (m\<lparr>hm_blocks := (hm_blocks m)(k := b), hm_next := j\<rparr>) h"
  "placed m h \<Longrightarrow> hi_ptr h \<noteq> Block k \<Longrightarrow> placed (m\<lparr>hm_blocks := (hm_blocks m)(k := b)\<rparr>) h"
  by (auto simp: placed_def split: allocator.splits)

lemma memory_ptrs:
  assumes "memory_holds m L" and "h \<in># L"
  shows "hi_ptr h \<in> in_memory m"
proof -
  have "hi_ptr h \<in># mset_set (in_memory m)" using assms unfolding memory_holds_def by (metis image_eqI set_image_mset)
  then show ?thesis using assms(1) in_memory_finite by (auto simp: memory_holds_def)
qed

lemma new_block_holds:
  assumes "memory_holds m L" "new_block n m = (p, m')" "hi_ptr h = p" "hi_alloc h = Std_alloc \<Longrightarrow> n = 1"
  shows "memory_holds m' (add_mset h L)"
proof -
  have fin: "finite (hm_in_use m)" "finite (dom (hm_blocks m))" and fresh: "hm_next m \<notin> dom (hm_blocks m)"
    and bound: "\<And>k. k \<in> dom (hm_blocks m) \<Longrightarrow> k < hm_next m"
    and ptrs: "image_mset hi_ptr L = mset_set (in_memory m)" and pl: "\<forall>h \<in># L. placed m h"
    using assms(1) unfolding memory_holds_def by blast+
  have m': "p = Block (hm_next m)" "m' = m\<lparr>hm_blocks := (hm_blocks m)(hm_next m \<mapsto> n), hm_next := hm_next m + 1\<rparr>"
    using assms(2) by (auto simp: new_block_def)
  have "image_mset hi_ptr (add_mset h L) = mset_set (in_memory m')"
    using ptrs fresh in_memory_finite [OF fin] assms(3) by (simp add: m' in_memory_simps)
  moreover have "placed m' h" using assms(3,4) by (auto simp: placed_def m' split: allocator.splits)
  moreover have "placed m' h'" if "h' \<in># L" for h'
  proof -
    have "hi_ptr h' \<noteq> Block (hm_next m)" using memory_ptrs [OF assms(1) that] fresh by (metis in_memory_iff(2))
    with pl that show ?thesis unfolding m'(2) by (intro placed_other(2)) auto
  qed
  moreover have "finite (hm_in_use m')" "finite (dom (hm_blocks m'))" "\<forall>k \<in> dom (hm_blocks m'). k < hm_next m'"
    using fin bound by (auto simp: m' less_Suc_eq)
  ultimately show ?thesis
    unfolding memory_holds_def by auto
qed

lemma make_new_holds:
  assumes "memory_holds m L" "make_new f al sizeof_impl m = (h, m')"
  shows "memory_holds m' (add_mset h L) \<and> hi_fn h = f"
proof -
  consider i where "al = Memory_alloc i" "i \<notin> hm_in_use m" "sizeof_impl < hm_size m i"
    | n p where "new_block n m = (p, m')" "h = \<lparr>hi_fn = f, hi_alloc = al, hi_ptr = p\<rparr>" "al = Std_alloc \<Longrightarrow> n = 1"
    using assms(2) by (cases al) (auto simp: make_new_def allocate_def HandlerMemory_allocate_def split: prod.splits if_splits)
  then show ?thesis
  proof cases
    case (1 i)
    then have "h = \<lparr>hi_fn = f, hi_alloc = Memory_alloc i, hi_ptr = Inline i\<rparr>" "m' = m\<lparr>hm_in_use := insert i (hm_in_use m)\<rparr>"
      using assms(2) by (auto simp: make_new_def allocate_def HandlerMemory_allocate_def)
    then show ?thesis
      using assms(1) 1 by (auto simp: memory_holds_def in_memory_simps in_memory_finite placed_other placed_def [of m "_\<lparr>hi_ptr := _\<rparr>"])
        (simp add: placed_def)
  next
    case (2 n p)
    then show ?thesis
      using new_block_holds [OF assms(1), of n p m' h] by simp
  qed
qed

lemma consume_holds:
  assumes "memory_holds m (add_mset h L)"
  shows "\<exists>m'. consume_impl h m = Fine (hi_fn h, m') \<and> memory_holds m' L"
proof -
  have fin: "finite (hm_in_use m)" "finite (dom (hm_blocks m))" and bound: "\<forall>k \<in> dom (hm_blocks m). k < hm_next m"
    and ptrs: "add_mset (hi_ptr h) (image_mset hi_ptr L) = mset_set (in_memory m)"
    and pl: "placed m h" "\<forall>h \<in># L. placed m h"
    using assms unfolding memory_holds_def by simp_all
  have finite: "finite (in_memory m)"
    using fin by (rule in_memory_finite)
  have mem: "hi_ptr h \<in> in_memory m"
    using memory_ptrs [OF assms] by simp
  then have rest: "image_mset hi_ptr L = mset_set (in_memory m - {hi_ptr h})"
    using ptrs mset_set.remove [OF finite mem] by simp
  then have other: "hi_ptr h' \<noteq> hi_ptr h" if "h' \<in># L" for h'
    using that finite by (metis Diff_iff elem_mset_set finite_Diff image_eqI insertI1 set_image_mset)
  show ?thesis
  proof (cases "hi_ptr h")
    case (Inline i)
    then have "deallocate (hi_alloc h) (hi_ptr h) 1 m = Fine (m\<lparr>hm_in_use := hm_in_use m - {i}\<rparr>)"
      using pl(1) by (cases "hi_alloc h") (auto simp: deallocate_def HandlerMemory_deallocate_def placed_def)
    then show ?thesis
      using fin bound rest pl(2) Inline by (auto simp: consume_impl_def memory_holds_def in_memory_simps placed_other)
  next
    case (Block k)
    let ?m = "m\<lparr>hm_blocks := (hm_blocks m)(k := None)\<rparr>"
    have "deallocate (hi_alloc h) (hi_ptr h) 1 m = Fine ?m"
      using pl(1) mem Block
      by (cases "hi_alloc h") (auto simp: deallocate_def HandlerMemory_deallocate_def std_deallocate_def delete_block_def placed_def)
    moreover have "placed ?m h'" if "h' \<in># L" for h'
      using pl(2) that other [OF that(1)] Block by (intro placed_other(3)) auto
    ultimately show ?thesis
      using fin bound rest Block by (auto simp: consume_impl_def memory_holds_def in_memory_simps)
  qed
qed

text \<open>All functions that a state accounts for, and what an operation adds to them.\<close>

definition all_fns :: "('f, 'a) handler_state \<Rightarrow> 'f multiset" where
  "all_fns s = image_mset hi_fn (live (hs_objs s)) + mset (map fst (hs_calls s)) + mset (hs_dropped s)"

definition made :: "('f, 'a) handler_op \<Rightarrow> 'f multiset \<Rightarrow> 'f multiset" where
  "made op M = (case op of H_make _ f _ _ \<Rightarrow> add_mset f M | _ \<Rightarrow> M)"

lemma held_simps [simp]: "held None = {#}" "held (Some None) = {#}" "held (Some (Some h)) = {#h#}"
  by (simp_all add: held_def)

lemma live_fill: "i < length os \<Longrightarrow> held (os ! i) = {#} \<Longrightarrow> live (os[i := x]) = live os + held x"
  using live_update [of i os x] by simp

lemma live_take: "i < length os \<Longrightarrow> held x = {#} \<Longrightarrow> live os = live (os[i := x]) + held (os ! i)"
  using live_update [of i os x] by simp

lemma obj_held: "is_obj os i \<Longrightarrow> held (os ! i) = held (Some (obj os i))"
  by (auto simp: is_obj_def)

lemma destroy_handler_ok:
  assumes "memory_holds (hs_mem s) (live (hs_objs s) + held (Some h))"
  shows "\<exists>s'. destroy_handler h s = Fine s' \<and> handler_inv s' \<and> all_fns s' = all_fns s + image_mset hi_fn (held (Some h))"
proof (cases h)
  case (Some x)
  then show ?thesis
    using consume_holds [of "hs_mem s" x "live (hs_objs s)"] assms by (auto simp: destroy_handler_def handler_inv_def all_fns_def)
qed (use assms in \<open>simp_all add: destroy_handler_def handler_inv_def\<close>)

lemma handler_exec_ok:
  assumes "handler_inv s" "handler_legal op s"
  shows "\<exists>s'. handler_exec op s = Fine s' \<and> handler_inv s' \<and> all_fns s' = made op (all_fns s)"
proof -
  have free: "i < length (hs_objs s)" "held (hs_objs s ! i) = {#}" if "is_free (hs_objs s) i" for i
    using that by (auto simp: is_free_def)
  have there: "i < length (hs_objs s)" if "is_obj (hs_objs s) i" for i
    using that by (simp add: is_obj_def)
  show ?thesis
  proof (cases op)
    case (H_empty i)
    then show ?thesis
      using assms free [of i] by (auto simp: handler_inv_def all_fns_def made_def live_fill)
  next
    case (H_make i f al sz)
    obtain h m where m: "make_new f al sz (hs_mem s) = (h, m)"
      by fastforce
    then show ?thesis
      using assms H_make free [of i] make_new_holds [of "hs_mem s" "live (hs_objs s)" f al sz h m]
      by (auto simp: handler_inv_def all_fns_def made_def live_fill)
  next
    case (H_move i j)
    then have ij: "is_free (hs_objs s) i" "is_obj (hs_objs s) j" "i \<noteq> j"
      using assms(2) by (auto simp: is_free_def is_obj_def)
    then have "live ((hs_objs s)[j := Some None, i := Some (obj (hs_objs s) j)]) = live (hs_objs s)"
      using live_take [OF there [OF ij(2)], of "Some None"] obj_held [OF ij(2)] free [OF ij(1)] by (simp add: live_fill)
    then show ?thesis
      using H_move assms(1) by (simp add: handler_inv_def all_fns_def made_def)
  next
    case (H_assign_move i j)
    then have ij: "is_obj (hs_objs s) i" "is_obj (hs_objs s) j"
      using assms(2) by auto
    let ?os = "(hs_objs s)[j := Some None]" and ?that = "obj (hs_objs s) j"
    have i: "is_obj ?os i" "i < length ?os"
      using ij by (cases "i = j"; auto simp: is_obj_def)+
    have "live (hs_objs s) = live ?os + held (Some ?that)"
      using live_take [OF there [OF ij(2)], of "Some None"] obj_held [OF ij(2)] by simp
    then have eq: "live (?os[i := Some ?that]) + held (Some (obj ?os i)) = live (hs_objs s)"
      using live_update [OF i(2), of "Some ?that"] obj_held [OF i(1)] by simp
    have "\<exists>s'. destroy_handler (obj ?os i) (set_obj i (Some ?that) (set_obj j (Some None) s)) = Fine s' \<and> handler_inv s' \<and>
        all_fns s' = all_fns (set_obj i (Some ?that) (set_obj j (Some None) s)) + image_mset hi_fn (held (Some (obj ?os i)))"
      using assms(1) eq by (intro destroy_handler_ok) (simp add: handler_inv_def)
    moreover have "all_fns (set_obj i (Some ?that) (set_obj j (Some None) s)) + image_mset hi_fn (held (Some (obj ?os i))) = all_fns s"
      by (simp add: all_fns_def ac_simps flip: eq)
    ultimately show ?thesis
      using H_assign_move by (simp add: made_def Let_def)
  next
    case (H_call i a)
    then have i: "is_obj (hs_objs s) i"
      using assms(2) by simp
    show ?thesis
    proof (cases "obj (hs_objs s) i")
      case None
      then show ?thesis
        using H_call assms(1) by (simp add: made_def)
    next
      case (Some h)
      have "live (hs_objs s) = add_mset h (live ((hs_objs s)[i := Some None]))"
        using live_take [OF there [OF i], of "Some None"] obj_held [OF i] Some by simp
      then show ?thesis
        using consume_holds [of "hs_mem s" h "live ((hs_objs s)[i := Some None])"] H_call Some assms(1)
        by (auto simp: notify_def handler_inv_def all_fns_def made_def)
    qed
  next
    case (H_destruct i)
    then have i: "is_obj (hs_objs s) i"
      using assms(2) by simp
    have "live (hs_objs s) = live ((hs_objs s)[i := None]) + held (Some (obj (hs_objs s) i))"
      using live_take [OF there [OF i], of None] obj_held [OF i] by simp
    then show ?thesis
      using destroy_handler_ok [of "set_obj i None s" "obj (hs_objs s) i"] H_destruct assms(1)
      by (auto simp: handler_inv_def all_fns_def made_def)
  qed
qed

interpretation handlers: refining_class handler_exec handler_legal handler_inv all_fns made
  by unfold_locales (rule handler_exec_ok)

lemma handler_init_inv: "handler_inv (handler_init sizes n)" "all_fns (handler_init sizes n) = {#}"
  by (induction n) (simp_all add: handler_init_def handler_inv_def memory_holds_def memory_init_def live_def in_memory_def all_fns_def)

text \<open>
  C26 (safety). A program that makes, moves, calls and destroys \<^verbatim>\<open>UniqueHandler\<close>s in any order, with functions whose allocator is \<^verbatim>\<open>std::allocator\<close>
  or that of any of several handler memories: no memory is freed that is not allocated or by another allocator, at each point the memory in use is exactly that of the handlers that exist, each in memory of its own, and
  every function that was made into a handler is still held, or was called once, or was destroyed without a call once. So when no
  handler is left, all memory is free and every function was called or destroyed exactly once.
\<close>

theorem UniqueHandler_once:
  assumes "program handler_exec handler_legal ops (handler_init sizes n)"
  shows "\<exists>s. run_ops handler_exec ops (handler_init sizes n) = Fine s \<and>
    image_mset hi_ptr (live (hs_objs s)) = mset_set (in_memory (hs_mem s)) \<and> finite (in_memory (hs_mem s)) \<and>
    fold made ops {#} = image_mset hi_fn (live (hs_objs s)) + mset (map fst (hs_calls s)) + mset (hs_dropped s) \<and>
    (live (hs_objs s) = {#} \<longrightarrow> in_memory (hs_mem s) = {} \<and> fold made ops {#} = mset (map fst (hs_calls s)) + mset (hs_dropped s))"
proof -
  obtain s where s: "run_ops handler_exec ops (handler_init sizes n) = Fine s" "handler_inv s" "all_fns s = fold made ops {#}"
    using handlers.run_refines [OF handler_init_inv(1) assms] handler_init_inv(2) by metis
  then have ptrs: "image_mset hi_ptr (live (hs_objs s)) = mset_set (in_memory (hs_mem s))" "finite (in_memory (hs_mem s))"
    by (simp_all add: handler_inv_def memory_holds_def in_memory_finite)
  moreover have "in_memory (hs_mem s) = {}" if "live (hs_objs s) = {#}"
    using ptrs that by (simp add: mset_set_empty_iff)
  ultimately show ?thesis
    using s(1,3) by (auto simp: all_fns_def)
qed

theorem UniqueHandler_once_witness:
  "\<exists>s. run_ops handler_exec [H_make 0 ''f'' (Memory_alloc 0) 1, H_make 1 ''g'' Std_alloc 1, H_make 3 ''h'' (Memory_alloc 1) 1, H_move 2 0,
      H_call 2 True, H_destruct 1] (handler_init (\<lambda>_. 2) 4) = Fine s \<and>
    image_mset hi_ptr (live (hs_objs s)) = mset_set (in_memory (hs_mem s))"
proof -
  let ?ops = "[H_make 0 ''f'' (Memory_alloc 0) 1, H_make 1 ''g'' Std_alloc 1, H_make 3 ''h'' (Memory_alloc 1) 1, H_move 2 0,
      H_call 2 True, H_destruct 1]"
  have "program handler_exec handler_legal ?ops (handler_init (\<lambda>_. 2) 4)"
    by (simp add: handler_init_def memory_init_def make_new_def allocate_def HandlerMemory_allocate_def new_block_def is_free_def is_obj_def
      notify_def consume_impl_def deallocate_def HandlerMemory_deallocate_def delete_block_def std_deallocate_def destroy_handler_def
      eval_nat_numeral)
  then show ?thesis
    using UniqueHandler_once by blast
qed

text \<open>A handler with extra bytes whose function has the standard allocator is allocated as several objects and deallocated as one.\<close>

lemma extra_bytes_mismatch:
  "0 < extra_bytes \<Longrightarrow> 0 < sizeof_impl \<Longrightarrow>
   (case make_new_extra f Std_alloc sizeof_impl extra_bytes m of (h, m) \<Rightarrow> consume_impl h m) = Storage_misuse"
  by (simp add: make_new_extra_def allocate_def new_block_def consume_impl_def deallocate_def std_deallocate_def div_eq_0_iff)

text \<open>A handler that has exactly the size of the memory is not placed in it.\<close>

lemma exact_size_not_inline: "HandlerMemory_allocate i (hm_size m i) m = new_block (hm_size m i) m"
  by (simp add: HandlerMemory_allocate_def)

end
