(* ===== verification/Batt_Pin.thy ===== *)
theory Batt_Pin
  imports Batt_Prelude
begin

section \<open>Pins\<close>

text \<open>
  Models \<^verbatim>\<open>Pinnable\<close> and \<^verbatim>\<open>Pin<T>\<close> of \<^verbatim>\<open>src/src/batteries/async/pin.hpp\<close>: one pinnable object, whose owner destroys it, and any number of
  \<^verbatim>\<open>Pin\<close> objects. A place of \<open>pins\<close> is \<open>None\<close> where there is no \<^verbatim>\<open>Pin\<close> object; a \<^verbatim>\<open>Pin\<close> has a null pointer, or holds the object, or is
  in the middle of \<^verbatim>\<open>release\<close>, after the decrement of the counter and before its pointer is set to null. Every step makes at most one
  access to the counter; the destructor of a \<^verbatim>\<open>Pin\<close> and the assignment operators are sequences of steps. The accesses to the
  counter are taken as sequentially consistent, though the code asks for weaker orders, and a \<^verbatim>\<open>Pin\<close> object is not shared: nobody uses
  it while its constructor or \<^verbatim>\<open>release\<close> runs.
\<close>

datatype dtor_pc = D_Alive | D_Waiting | D_Checking | D_Destroyed | D_Panic

datatype pin_ptr = P_Null | P_Held | P_Releasing

record pin_sys =
  pin_count :: int
  pins :: "pin_ptr option list"
  pin_dtor :: dtor_pc

definition pin_init :: "nat \<Rightarrow> pin_sys" where
  "pin_init n = \<lparr>pin_count = 1, pins = replicate n None, pin_dtor = D_Alive\<rparr>"

definition Pinnable_pin :: "pin_sys \<Rightarrow> pin_sys" where
  "Pinnable_pin s = s\<lparr>pin_count := pin_count s + 1\<rparr>"

definition Pinnable_unpin :: "pin_sys \<Rightarrow> pin_sys" where
  "Pinnable_unpin s = s\<lparr>pin_count := pin_count s - 1\<rparr>"

text \<open>\<^verbatim>\<open>~Pinnable\<close>, one access to the counter after the other; while the count is positive the task yields and looks again.\<close>

definition Pinnable_dtor :: "pin_sys \<Rightarrow> pin_sys" where
  "Pinnable_dtor s =
     (case pin_dtor s of
        D_Alive \<Rightarrow> (Pinnable_unpin s)\<lparr>pin_dtor := D_Waiting\<rparr>
      | D_Waiting \<Rightarrow> if pin_count s > 0 then s else s\<lparr>pin_dtor := D_Checking\<rparr>
      | D_Checking \<Rightarrow> if pin_count s = 0 then s\<lparr>pin_dtor := D_Destroyed\<rparr> else s\<lparr>pin_dtor := D_Panic\<rparr>
      | _ \<Rightarrow> s)"

definition set_pin :: "nat \<Rightarrow> pin_ptr option \<Rightarrow> pin_sys \<Rightarrow> pin_sys" where
  "set_pin i p s = s\<lparr>pins := (pins s)[i := p]\<rparr>"

definition Pin_of_ptr :: "nat \<Rightarrow> bool \<Rightarrow> pin_sys \<Rightarrow> pin_sys" where
  "Pin_of_ptr i object s =
     (if object then Pinnable_pin (set_pin i (Some P_Held) s) else set_pin i (Some P_Null) s)"

definition Pin_copy :: "nat \<Rightarrow> nat \<Rightarrow> pin_sys \<Rightarrow> pin_sys" where
  "Pin_copy i j s = Pin_of_ptr i (pins s ! j = Some P_Held) s"

definition Pin_move :: "nat \<Rightarrow> nat \<Rightarrow> pin_sys \<Rightarrow> pin_sys" where
  "Pin_move i j s = set_pin j (Some P_Null) (set_pin i (pins s ! j) s)"

definition Pin_swap :: "nat \<Rightarrow> nat \<Rightarrow> pin_sys \<Rightarrow> pin_sys" where
  "Pin_swap i j s = set_pin j (pins s ! i) (set_pin i (pins s ! j) s)"

text \<open>The two steps of \<^verbatim>\<open>release\<close>.\<close>

definition Pin_release_unpin :: "nat \<Rightarrow> pin_sys \<Rightarrow> pin_sys" where
  "Pin_release_unpin i s = (if pins s ! i = Some P_Held then set_pin i (Some P_Releasing) (Pinnable_unpin s) else s)"

definition Pin_release_clear :: "nat \<Rightarrow> pin_sys \<Rightarrow> pin_sys" where
  "Pin_release_clear i s = (if pins s ! i = Some P_Releasing then set_pin i (Some P_Null) s else s)"

datatype pin_op =
    Op_of_ptr nat bool
  | Op_copy nat nat
  | Op_move nat nat
  | Op_swap nat nat
  | Op_release_unpin nat
  | Op_release_clear nat
  | Op_end nat
  | Op_destroy_object

fun pin_exec :: "pin_op \<Rightarrow> pin_sys \<Rightarrow> pin_sys" where
  "pin_exec (Op_of_ptr i object) s = Pin_of_ptr i object s"
| "pin_exec (Op_copy i j) s = Pin_copy i j s"
| "pin_exec (Op_move i j) s = Pin_move i j s"
| "pin_exec (Op_swap i j) s = Pin_swap i j s"
| "pin_exec (Op_release_unpin i) s = Pin_release_unpin i s"
| "pin_exec (Op_release_clear i) s = Pin_release_clear i s"
| "pin_exec (Op_end i) s = set_pin i None s"
| "pin_exec Op_destroy_object s = Pinnable_dtor s"

definition Pin_release :: "nat \<Rightarrow> pin_op list" where
  "Pin_release i = [Op_release_unpin i, Op_release_clear i]"

definition Pin_dtor :: "nat \<Rightarrow> pin_op list" where
  "Pin_dtor i = Pin_release i @ [Op_end i]"

text \<open>\<^verbatim>\<open>operator=(const Pin&)\<close> and \<^verbatim>\<open>operator=(Pin&&)\<close> with the temporary at the place \<open>t\<close>.\<close>

definition Pin_assign_copy :: "nat \<Rightarrow> nat \<Rightarrow> nat \<Rightarrow> pin_op list" where
  "Pin_assign_copy t i j = [Op_copy t j, Op_swap i t] @ Pin_dtor t"

definition Pin_assign_move :: "nat \<Rightarrow> nat \<Rightarrow> nat \<Rightarrow> pin_op list" where
  "Pin_assign_move t i j = [Op_move t j, Op_swap i t] @ Pin_dtor t"

text \<open>Constructors need a free place, the others an object that is not in the middle of \<^verbatim>\<open>release\<close>; a \<^verbatim>\<open>Pin\<close> ends when its pointer is null;
  a pin is made from the address of the object only until its owner begins to destroy it.\<close>

definition has_pin :: "pin_sys \<Rightarrow> nat \<Rightarrow> bool" where
  "has_pin s i \<longleftrightarrow> i < length (pins s) \<and> (pins s ! i = Some P_Null \<or> pins s ! i = Some P_Held)"

definition no_pin :: "pin_sys \<Rightarrow> nat \<Rightarrow> bool" where
  "no_pin s i \<longleftrightarrow> i < length (pins s) \<and> pins s ! i = None"

fun pin_legal :: "pin_op \<Rightarrow> pin_sys \<Rightarrow> bool" where
  "pin_legal (Op_of_ptr i object) s = (no_pin s i \<and> (object \<longrightarrow> pin_dtor s = D_Alive))"
| "pin_legal (Op_copy i j) s = (no_pin s i \<and> has_pin s j)"
| "pin_legal (Op_move i j) s = (no_pin s i \<and> has_pin s j)"
| "pin_legal (Op_swap i j) s = (has_pin s i \<and> has_pin s j)"
| "pin_legal (Op_release_unpin i) s = has_pin s i"
| "pin_legal (Op_release_clear i) s = (i < length (pins s) \<and> pins s ! i \<noteq> None)"
| "pin_legal (Op_end i) s = (i < length (pins s) \<and> pins s ! i = Some P_Null)"
| "pin_legal Op_destroy_object s = True"

inductive pin_step :: "pin_sys \<Rightarrow> pin_sys \<Rightarrow> bool" where
  "pin_legal op s \<Longrightarrow> pin_step s (pin_exec op s)"

fun pin_program :: "pin_op list \<Rightarrow> pin_sys \<Rightarrow> bool" where
  "pin_program [] s = True"
| "pin_program (op # ops) s = (pin_legal op s \<and> pin_program ops (pin_exec op s))"

subsection \<open>The object outlives its pins\<close>

definition held_pins :: "pin_sys \<Rightarrow> int" where
  "held_pins s = int (length (filter (\<lambda>p. p = Some P_Held) (pins s)))"

definition pin_inv :: "pin_sys \<Rightarrow> bool" where
  "pin_inv s \<longleftrightarrow> pin_count s = held_pins s + (if pin_dtor s = D_Alive then 1 else 0) \<and>
     pin_dtor s \<noteq> D_Panic \<and> (pin_dtor s \<in> {D_Checking, D_Destroyed} \<longrightarrow> held_pins s = 0)"

lemma held_none: "held_pins s = 0 \<longleftrightarrow> Some P_Held \<notin> set (pins s)"
  by (auto simp: held_pins_def filter_empty_conv)

lemma held_nonneg: "0 \<le> held_pins s"
  by (simp add: held_pins_def)

lemma held_pos: "Some P_Held \<in> set (pins s) \<longleftrightarrow> 0 < held_pins s"
  using held_none [of s] held_nonneg [of s] by linarith

lemma held_at: "i < length (pins s) \<Longrightarrow> pins s ! i = Some P_Held \<Longrightarrow> 0 < held_pins s"
  using held_pos [of s] nth_mem [of i "pins s"] by simp

lemma held_set_pin:
  assumes "i < length (pins s)"
  shows "held_pins (set_pin i p s) = held_pins s + (if p = Some P_Held then 1 else 0) - (if pins s ! i = Some P_Held then 1 else 0)"
  using length_filter_update [OF assms, of "\<lambda>p. p = Some P_Held" p] by (simp add: held_pins_def set_pin_def)

lemma set_pin_simps [simp]:
  "pin_count (set_pin i p s) = pin_count s" "pin_dtor (set_pin i p s) = pin_dtor s" "pins (set_pin i p s) = (pins s)[i := p]"
  by (simp_all add: set_pin_def)

lemma count_simps [simp]:
  "pin_count (Pinnable_pin s) = pin_count s + 1" "pin_count (Pinnable_unpin s) = pin_count s - 1"
  "pin_dtor (Pinnable_pin s) = pin_dtor s" "pin_dtor (Pinnable_unpin s) = pin_dtor s"
  "pins (Pinnable_pin s) = pins s" "pins (Pinnable_unpin s) = pins s"
  "held_pins (Pinnable_pin s) = held_pins s" "held_pins (Pinnable_unpin s) = held_pins s"
  "held_pins (s\<lparr>pin_dtor := d\<rparr>) = held_pins s"
  by (simp_all add: Pinnable_pin_def Pinnable_unpin_def held_pins_def)

lemma pin_step_inv:
  assumes "pin_inv s" "pin_legal op s"
  shows "pin_inv (pin_exec op s)"
proof (cases op)
  case (Op_destroy_object)
  then show ?thesis
    using assms held_nonneg [of s] by (cases "pin_dtor s") (auto simp: Pinnable_dtor_def pin_inv_def)
next
  case (Op_of_ptr i object)
  then show ?thesis
    using assms by (auto simp: Pin_of_ptr_def pin_inv_def no_pin_def held_set_pin)
next
  case (Op_copy i j)
  then show ?thesis
    using assms held_at [of j s] by (auto simp: Pin_copy_def Pin_of_ptr_def pin_inv_def no_pin_def has_pin_def held_set_pin)
next
  case (Op_move i j)
  then have "i \<noteq> j"
    using assms(2) by (auto simp: no_pin_def has_pin_def)
  then show ?thesis
    using assms Op_move by (auto simp: Pin_move_def pin_inv_def no_pin_def has_pin_def held_set_pin)
next
  case (Op_swap i j)
  then show ?thesis
    using assms by (cases "i = j") (auto simp: Pin_swap_def pin_inv_def has_pin_def held_set_pin)
next
  case (Op_release_unpin i)
  then show ?thesis
    using assms held_at [of i s] by (auto simp: Pin_release_unpin_def pin_inv_def has_pin_def held_set_pin)
qed (use assms in \<open>auto simp: Pin_release_clear_def pin_inv_def held_set_pin\<close>)

interpretation pin: invariant_system "pin_init n" pin_step pin_inv for n
proof
  show "pin_inv (pin_init n)"
    by (simp add: pin_inv_def pin_init_def held_pins_def)
qed (auto elim!: pin_step.cases intro: pin_step_inv)

lemma pin_program_steps: "pin_program ops s \<Longrightarrow> pin_step\<^sup>*\<^sup>* s (fold pin_exec ops s)"
  by (induction ops arbitrary: s) (auto intro: pin_step.intros converse_rtranclp_into_rtranclp)

text \<open>What an assignment leaves, whatever the temporary: the counter and the pins as after a copy or a move.\<close>

lemma Pin_assign_copy_result:
  assumes "no_pin s t" "has_pin s i" "has_pin s j"
  shows "pin_program (Pin_assign_copy t i j) s \<and>
    fold pin_exec (Pin_assign_copy t i j) s = s\<lparr>pins := (pins s)[i := pins s ! j],
      pin_count := pin_count s + (if pins s ! j = Some P_Held then 1 else 0) - (if pins s ! i = Some P_Held then 1 else 0)\<rparr>"
proof -
  have "t \<noteq> i" "t \<noteq> j" "t < length (pins s)" "i < length (pins s)" "j < length (pins s)" "pins s ! t = None"
    "pins s ! i = Some P_Null \<or> pins s ! i = Some P_Held" "pins s ! j = Some P_Null \<or> pins s ! j = Some P_Held"
    using assms by (auto simp: no_pin_def has_pin_def)
  moreover from this have "(pins s)[t := v, i := w, t := None] = (pins s)[i := w]" "(pins s)[t := None] = pins s" for v w
    by (metis list_update_id list_update_overwrite list_update_swap)+
  ultimately show ?thesis
    by (auto simp: Pin_assign_copy_def Pin_copy_def Pin_of_ptr_def Pin_swap_def Pin_dtor_def Pin_release_def Pin_release_unpin_def
      Pin_release_clear_def set_pin_def Pinnable_pin_def Pinnable_unpin_def no_pin_def has_pin_def list_update_swap)
qed

text \<open>
  C33 (safety). In every order of steps of the users of a pinnable object, with sequentially consistent accesses to its counter and no
  pin made from its address after its owner began to destroy it, the check in its destructor never fails. As long as a pin holds the
  object, the destructor has not begun or waits; so when it has returned, the only pins that still have the address are in the middle
  of \<^verbatim>\<open>release\<close>, after their last access to the object. Once no pin holds the object, a waiting destructor returns after two more steps.
\<close>

theorem Pinnable_outlives_pins:
  assumes "pin_step\<^sup>*\<^sup>* (pin_init n) s"
  shows "pin_dtor s \<noteq> D_Panic \<and>
    (Some P_Held \<in> set (pins s) \<longrightarrow> pin_dtor s \<in> {D_Alive, D_Waiting} \<and> pin_count s > 0) \<and>
    (pin_dtor s = D_Destroyed \<longrightarrow> (\<forall>p \<in> set (pins s). p \<in> {None, Some P_Null, Some P_Releasing})) \<and>
    (pin_dtor s = D_Waiting \<longrightarrow> Some P_Held \<notin> set (pins s) \<longrightarrow> pin_dtor (Pinnable_dtor (Pinnable_dtor s)) = D_Destroyed)"
proof -
  have inv: "pin_inv s"
    by (rule pin.execution_invar [OF assms])
  have "p \<in> {None, Some P_Null, Some P_Releasing}" if "pin_dtor s = D_Destroyed" "p \<in> set (pins s)" for p
  proof -
    have "Some P_Held \<notin> set (pins s)" using inv that(1) held_none [of s] by (simp add: pin_inv_def)
    with that(2) have "p \<noteq> Some P_Held" by blast
    then show ?thesis by (cases p) (auto intro: pin_ptr.exhaust)
  qed
  then show ?thesis
    using inv held_nonneg [of s] unfolding held_pos by (cases "pin_dtor s") (auto simp: pin_inv_def Pinnable_dtor_def)
qed

theorem Pinnable_outlives_pins_witness:
  "pin_dtor (fold pin_exec ([Op_of_ptr 0 True, Op_copy 1 0, Op_destroy_object] @ Pin_dtor 0 @ [Op_destroy_object, Op_move 2 1]) (pin_init 3)) =
     D_Waiting \<and>
   pin_count (fold pin_exec ([Op_of_ptr 0 True, Op_copy 1 0, Op_destroy_object] @ Pin_dtor 0 @ [Op_destroy_object, Op_move 2 1]) (pin_init 3)) > 0"
proof -
  let ?ops = "[Op_of_ptr 0 True, Op_copy 1 0, Op_destroy_object] @ Pin_dtor 0 @ [Op_destroy_object, Op_move 2 1]"
  have run: "pin_program ?ops (pin_init 3)" "Some P_Held \<in> set (pins (fold pin_exec ?ops (pin_init 3)))"
    "pin_dtor (fold pin_exec ?ops (pin_init 3)) = D_Waiting"
    by code_simp+
  then show ?thesis
    using Pinnable_outlives_pins [OF pin_program_steps [OF run(1)]] by blast
qed

text \<open>The destructor can return while a pin still has the address.\<close>

lemma address_after_destruction:
  "\<exists>s. pin_step\<^sup>*\<^sup>* (pin_init 1) s \<and> pin_dtor s = D_Destroyed \<and> pins s = [Some P_Releasing]"
proof -
  let ?ops = "[Op_of_ptr 0 True, Op_destroy_object, Op_release_unpin 0, Op_destroy_object, Op_destroy_object]"
  have "pin_program ?ops (pin_init 1)" "pin_dtor (fold pin_exec ?ops (pin_init 1)) = D_Destroyed"
    "pins (fold pin_exec ?ops (pin_init 1)) = [Some P_Releasing]" by code_simp+
  then show ?thesis using pin_program_steps by blast
qed

end
