(* ===== verification/Batt_Fetch.thy ===== *)
theory Batt_Fetch
  imports Buffer_Source
begin

section \<open>Fetching chunks\<close>

text \<open>
  Models \<^verbatim>\<open>src/src/batteries/async/fetch.hpp\<close>: a chunk of data that is consumed from its stream when it goes out of scope, \<^verbatim>\<open>fetch_chunk\<close>,
  which copies the data into the chunk when the stream has it in several buffers, and \<^verbatim>\<open>transfer_chunked_data\<close>. The stream and the
  destination are template arguments, so parameters here; the contract of a stream is the locale of buffer sources. \<open>None\<close> is a failed
  check; \<open>Blocked\<close> is a wait for the stream.
\<close>

record chunk =
  ck_source :: bool
  ck_local_storage :: "u8 list"
  ck_buffer :: "u8 list"

definition chunk_init :: chunk where
  "chunk_init = \<lparr>ck_source = False, ck_local_storage = [], ck_buffer = []\<rparr>"

definition chunk_of_buffer :: "u8 list \<Rightarrow> chunk" where
  "chunk_of_buffer buffer = \<lparr>ck_source = True, ck_local_storage = [], ck_buffer = buffer\<rparr>"

definition chunk_of_storage :: "u8 list \<Rightarrow> chunk" where
  "chunk_of_storage storage = \<lparr>ck_source = True, ck_local_storage = storage, ck_buffer = storage\<rparr>"

text \<open>The move constructor and the move assignment: the new chunk, and what is left in the old one.\<close>

definition chunk_move :: "chunk \<Rightarrow> chunk \<times> chunk" where
  "chunk_move c =
     (c\<lparr>ck_buffer := (if ck_local_storage c = [] then ck_buffer c else ck_local_storage c)\<rparr>,
      \<lparr>ck_source = False, ck_local_storage = [], ck_buffer = []\<rparr>)"

definition chunk_move_assign :: "chunk \<Rightarrow> chunk \<Rightarrow> chunk \<times> chunk" where
  "chunk_move_assign this c = chunk_move c"

definition chunk_empty :: "chunk \<Rightarrow> bool" where
  "chunk_empty c \<longleftrightarrow> \<not> ck_source c \<or> ck_buffer c = []"

definition back_up :: "nat \<Rightarrow> chunk \<Rightarrow> chunk" where
  "back_up n c = (let n = min n (length (ck_buffer c)) in c\<lparr>ck_buffer := take (length (ck_buffer c) - n) (ck_buffer c)\<rparr>)"

text \<open>\<^verbatim>\<open>consume()\<close>, which the destructor calls.\<close>

definition chunk_consume :: "(i64 \<Rightarrow> 's \<Rightarrow> 's option) \<Rightarrow> chunk \<Rightarrow> 's \<Rightarrow> (chunk \<times> 's) option" where
  "chunk_consume src_consume c s =
     (if ck_source c then map_option (\<lambda>s. (c\<lparr>ck_source := False, ck_buffer := []\<rparr>, s)) (src_consume (int (length (ck_buffer c))) s)
      else Some (c, s))"

fun gather :: "nat \<Rightarrow> u8 list list \<Rightarrow> u8 list \<Rightarrow> nat \<times> u8 list" where
  "gather bytes_remaining [] storage = (bytes_remaining, storage)"
| "gather bytes_remaining (b # bs) storage =
     (if bytes_remaining > 0
      then let bytes_to_copy = min bytes_remaining (length b) in gather (bytes_remaining - bytes_to_copy) bs (storage @ take bytes_to_copy b)
      else (bytes_remaining, storage))"

definition fetch_chunk :: "(i64 \<Rightarrow> 's \<Rightarrow> 's \<times> fetched) \<Rightarrow> nat \<Rightarrow> 's \<Rightarrow> 's \<times> chunk awaited option" where
  "fetch_chunk src_fetch min_size s =
     (if min_size = 0 then (s, Some (Ready (Inl kInvalidArgument)))
      else case src_fetch (int min_size) s of
        (s', None) \<Rightarrow> (s', None)
      | (s', Some Blocked) \<Rightarrow> (s', Some Blocked)
      | (s', Some (Ready (Inl st))) \<Rightarrow> (s', Some (Ready (Inl st)))
      | (s', Some (Ready (Inr buffers))) \<Rightarrow>
          (s', case buffers of
                 [] \<Rightarrow> None
               | b # _ \<Rightarrow>
                   if length b \<ge> min_size then Some (Ready (Inr (chunk_of_buffer b)))
                   else case gather min_size buffers [] of (bytes_remaining, storage) \<Rightarrow>
                     if bytes_remaining = 0 then Some (Ready (Inr (chunk_of_storage storage))) else None))"

text \<open>
  The loop of \<^verbatim>\<open>transfer_chunked_data\<close>: \<open>wr\<close> is the write of the destination, \<open>frm\<close> is \<^verbatim>\<open>from.fetch_chunk()\<close>; the end of the stream is the
  code that the error \<^verbatim>\<open>eof\<close> is converted to. The chunk of a round is destroyed at its end, also when the function returns: \<open>leave\<close>.
\<close>

definition unwritten :: "nat \<Rightarrow> nat \<Rightarrow> nat" where
  "unwritten n n_written = (if n_written \<le> n then n - n_written else 2 ^ 64 + n - n_written)"

partial_function (option) transfer_chunked_data ::
    "('s \<Rightarrow> 's \<times> chunk awaited option) \<Rightarrow> (i64 \<Rightarrow> 's \<Rightarrow> 's option) \<Rightarrow> ('d \<Rightarrow> u8 list \<Rightarrow> 'd \<times> nat StatusOr) \<Rightarrow>
       's \<Rightarrow> 'd \<Rightarrow> nat \<Rightarrow> ('s \<times> 'd \<times> nat awaited) option" where
  "transfer_chunked_data frm src_consume wr s dst bytes_transferred =
     (case frm s of
        (s1, None) \<Rightarrow> None
      | (s1, Some Blocked) \<Rightarrow> Some (s1, dst, Blocked)
      | (s1, Some (Ready (Inl st))) \<Rightarrow> Some (s1, dst, Ready (if st \<noteq> kEndOfStream then Inl st else Inr bytes_transferred))
      | (s1, Some (Ready (Inr chunk))) \<Rightarrow>
          (case wr dst (ck_buffer chunk) of
             (dst1, Inl st) \<Rightarrow> Option.bind (chunk_consume src_consume chunk s1) (\<lambda>(_, s2). Some (s2, dst1, Ready (Inl st)))
           | (dst1, Inr n_written) \<Rightarrow>
               if n_written = 0
               then Option.bind (chunk_consume src_consume chunk s1) (\<lambda>(_, s2). Some (s2, dst1, Ready (Inl kClosedBeforeEndOfStream)))
               else Option.bind (chunk_consume src_consume (back_up (unwritten (length (ck_buffer chunk)) n_written) chunk) s1)
                      (\<lambda>(_, s2). transfer_chunked_data frm src_consume wr s2 dst1 (bytes_transferred + n_written))))"

subsection \<open>Chunks\<close>

lemma gather_concat: "n \<le> length (concat bs) \<Longrightarrow> gather n bs st = (0, st @ take n (concat bs))"
proof (induction n bs st rule: gather.induct)
  case (2 n b bs st)
  then show ?case
    by (cases "n \<le> length b") (auto simp: Let_def min_def)
qed simp

text \<open>A chunk that was not backed up is unchanged by moves.\<close>

definition chunk_whole :: "chunk \<Rightarrow> bool" where
  "chunk_whole c \<longleftrightarrow> ck_local_storage c = [] \<or> ck_buffer c = ck_local_storage c"

lemma chunk_moves: "chunk_whole c \<Longrightarrow> ((fst \<circ> chunk_move) ^^ k) c = c"
  by (induction k) (auto simp: chunk_move_def chunk_whole_def)

lemma back_up_buffer: "ck_buffer (back_up n c) = take (length (ck_buffer c) - n) (ck_buffer c)" "ck_source (back_up n c) = ck_source c"
  by (auto simp: back_up_def Let_def min_def)

context buffer_source
begin

lemma fetch_chunk_ok:
  assumes "src_ok s" "0 < n" "n \<le> length (remaining s)" "n \<le> fetch_max s"
  shows "\<exists>s' c bs rest. src_fetch (int n) s = (s', Some (Ready (Inr bs))) \<and> fetch_chunk src_fetch n s = (s', Some (Ready (Inr c))) \<and>
    src_ok s' \<and> remaining s' = remaining s \<and> remaining s = ck_buffer c @ rest \<and> n \<le> length (ck_buffer c) \<and>
    length (ck_buffer c) \<le> length (concat bs) \<and> ck_source c \<and> chunk_whole c"
proof -
  obtain s' bs rest where f: "src_fetch (int n) s = (s', Some (Ready (Inr bs)))" "src_ok s'" "remaining s' = remaining s"
    "remaining s = concat bs @ rest" "n \<le> length (concat bs)"
    using fetch_some [OF assms] by blast
  then obtain b bs' where b: "bs = b # bs'"
    using assms(2) by (cases bs) auto
  let ?c = "if length b \<ge> n then chunk_of_buffer b else chunk_of_storage (take n (concat bs))"
  have "fetch_chunk src_fetch n s = (s', Some (Ready (Inr ?c)))"
    using f(1,5) assms(2) b gather_concat [OF f(5), of "[]"] by (auto simp: fetch_chunk_def)
  moreover have "\<exists>rest. remaining s = ck_buffer ?c @ rest"
    using f(4) b by (auto simp: chunk_of_buffer_def chunk_of_storage_def) (metis append.assoc append_take_drop_id)
  moreover have "n \<le> length (ck_buffer ?c)" "length (ck_buffer ?c) \<le> length (concat bs)" "ck_source ?c" "chunk_whole ?c"
    using f(5) b by (auto simp: chunk_of_buffer_def chunk_of_storage_def chunk_whole_def)
  ultimately show ?thesis
    using f by blast
qed

lemma chunk_consumed:
  assumes "src_ok s" "src_fetch (int n) s = (s', Some (Ready (Inr bs)))" "ck_source c" "length (ck_buffer c) \<le> length (concat bs)"
  shows "\<exists>s'' c'. chunk_consume src_consume c s' = Some (c', s'') \<and> chunk_empty c' \<and> src_ok s'' \<and> remaining s'' = drop (length (ck_buffer c)) (remaining s)"
  using consume_fetched [OF assms(1,2,4)] assms(3) by (auto simp: chunk_consume_def chunk_empty_def)

end

context finite_source
begin

lemma transfer_all:
  assumes "src_ok s"
    and wr: "\<And>dst data. data \<noteq> [] \<Longrightarrow> \<exists>dst' n. wr dst data = (dst', Inr n) \<and> 0 < n \<and> n \<le> length data \<and>
      sent dst' = sent dst @ take n data"
  shows "\<exists>s' dst'. transfer_chunked_data (fetch_chunk src_fetch 1) src_consume wr s dst n =
      Some (s', dst', Ready (Inr (n + length (remaining s)))) \<and> sent dst' = sent dst @ remaining s \<and> src_ok s' \<and> remaining s' = []"
  using assms(1)
proof (induction "length (remaining s)" arbitrary: s dst n rule: less_induct)
  case less
  note unfold = transfer_chunked_data.simps [of "fetch_chunk src_fetch 1" src_consume wr s dst n]
  show ?case
  proof (cases "remaining s = []")
    case True
    then show ?thesis
      using fetch_eos [OF less.prems True] unfolding unfold by (auto simp: fetch_chunk_def)
  next
    case False
    then have "1 \<le> length (remaining s)" "1 \<le> fetch_max s"
      using fetch_max_pos [OF less.prems] by (auto simp: Suc_le_eq)
    then obtain s1 c bs rest where f: "src_fetch (int 1) s = (s1, Some (Ready (Inr bs)))" "fetch_chunk src_fetch 1 s = (s1, Some (Ready (Inr c)))"
      "remaining s = ck_buffer c @ rest" "1 \<le> length (ck_buffer c)" "length (ck_buffer c) \<le> length (concat bs)" "ck_source c"
      using fetch_chunk_ok [OF less.prems zero_less_one] by blast
    then have "ck_buffer c \<noteq> []"
      by auto
    then obtain dst1 k where w: "wr dst (ck_buffer c) = (dst1, Inr k)" "0 < k" "k \<le> length (ck_buffer c)"
      "sent dst1 = sent dst @ take k (ck_buffer c)"
      using wr by blast
    let ?c = "back_up (unwritten (length (ck_buffer c)) k) c"
    have len: "length (ck_buffer ?c) = k"
      using w(3) by (simp add: back_up_buffer unwritten_def)
    have "length (ck_buffer ?c) \<le> length (concat bs)" "ck_source ?c"
      using len w(3) f(5,6) by (simp_all add: back_up_buffer)
    then obtain s2 c' where 2: "chunk_consume src_consume ?c s1 = Some (c', s2)" "src_ok s2" "remaining s2 = drop k (remaining s)"
      using chunk_consumed [OF less.prems f(1), of ?c] unfolding len by blast
    have "length (remaining s2) < length (remaining s)"
      using 2(3) w(2) False by simp
    then obtain s' dst' where IH: "transfer_chunked_data (fetch_chunk src_fetch 1) src_consume wr s2 dst1 (n + k) =
        Some (s', dst', Ready (Inr (n + k + length (remaining s2))))" "sent dst' = sent dst1 @ remaining s2" "src_ok s'" "remaining s' = []"
      using less.hyps [OF _ 2(2), of dst1 "n + k"] by blast
    have "take k (ck_buffer c) @ remaining s2 = remaining s" "k + length (remaining s2) = length (remaining s)"
      using 2(3) w(3) f(3) by simp_all
    then show ?thesis
      using f(2) w 2(1) IH unfolding unfold by (simp add: add.assoc)
  qed
qed

end

subsection \<open>Properties\<close>

text \<open>
  C28 (functional). \<^verbatim>\<open>fetch_chunk\<close> on a stream that has the requested number of bytes delivers a chunk with at least as many of its next bytes, also
  when they are spread over several buffers; when the chunk, moved any number of times, then backed up by some bytes and destroyed, the
  stream has lost exactly the bytes of the chunk that were not backed up, and no others.
\<close>

theorem fetch_chunk_consumes_exactly:
  assumes "buffer_source src_ok remaining fetch_max src_fetch src_consume" and "src_ok s"
    and "0 < min_size" "min_size \<le> length (remaining s)" "min_size \<le> fetch_max s"
  shows "\<exists>s' c rest. fetch_chunk src_fetch min_size s = (s', Some (Ready (Inr c))) \<and> remaining s = ck_buffer c @ rest \<and>
    min_size \<le> length (ck_buffer c) \<and>
    (\<forall>k n. \<exists>c' s''. chunk_consume src_consume (back_up n (((fst \<circ> chunk_move) ^^ k) c)) s' = Some (c', s'') \<and> chunk_empty c' \<and>
       src_ok s'' \<and> remaining s'' = drop (length (ck_buffer c) - n) (ck_buffer c) @ rest)"
proof -
  obtain s' c bs rest where f: "src_fetch (int min_size) s = (s', Some (Ready (Inr bs)))" "fetch_chunk src_fetch min_size s = (s', Some (Ready (Inr c)))"
    "remaining s = ck_buffer c @ rest" "min_size \<le> length (ck_buffer c)" "length (ck_buffer c) \<le> length (concat bs)" "ck_source c" "chunk_whole c"
    using buffer_source.fetch_chunk_ok [OF assms] by blast
  have "\<exists>c' s''. chunk_consume src_consume (back_up n (((fst \<circ> chunk_move) ^^ k) c)) s' = Some (c', s'') \<and> chunk_empty c' \<and>
       src_ok s'' \<and> remaining s'' = drop (length (ck_buffer c) - n) (ck_buffer c) @ rest" for k n
    using le_trans [OF diff_le_self f(5), of n] buffer_source.chunk_consumed [OF assms(1,2) f(1), of "back_up n c"] f(3,5,6) by (auto simp: chunk_moves [OF f(7)] back_up_buffer)
  then show ?thesis
    using f(2-4) by blast
qed

theorem fetch_chunk_consumes_exactly_witness:
  "\<exists>s' c rest. fetch_chunk sb_fetch 3 example_closed_buffer = (s', Some (Ready (Inr c))) \<and> [3, 4, 5, 6] = ck_buffer c @ rest \<and> 3 \<le> length (ck_buffer c)"
proof -
  have "(3 :: nat) \<le> length (contents example_closed_buffer)" "3 \<le> nat (sb_capacity example_closed_buffer)"
    using example_closed_buffer_props by (simp_all add: example_closed_buffer_def)
  then show ?thesis
    using fetch_chunk_consumes_exactly [OF sb_source.buffer_source_axioms example_closed_buffer_props(1), of 3] example_closed_buffer_props(2) by auto
qed

text \<open>A gathered chunk that is backed up and then moved has its whole data again.\<close>

lemma move_undoes_back_up: "st \<noteq> [] \<Longrightarrow> fst (chunk_move (back_up n (chunk_of_storage st))) = chunk_of_storage st"
  by (simp add: chunk_move_def back_up_def Let_def chunk_of_storage_def)

text \<open>
  \<^verbatim>\<open>transfer_chunked_data\<close> from a stream whose data ends to a destination that accepts at least one byte of every write ends, and has
  written every byte of the stream, in order and once, however the data is spread over buffers and however little a write accepts; the
  result is the number of the bytes.
\<close>

theorem transfer_chunked_data_sends_all:
  assumes "finite_source src_ok remaining fetch_max src_fetch src_consume" and "src_ok s"
    and "\<And>dst data. data \<noteq> [] \<Longrightarrow> \<exists>dst' n. wr dst data = (dst', Inr n) \<and> 0 < n \<and> n \<le> length data \<and> sent dst' = sent dst @ take n data"
  shows "\<exists>s' dst'. transfer_chunked_data (fetch_chunk src_fetch 1) src_consume wr s dst 0 =
    Some (s', dst', Ready (Inr (length (remaining s)))) \<and> sent dst' = sent dst @ remaining s \<and> remaining s' = []"
  using finite_source.transfer_all [OF assms(1,2), of wr sent dst 0] assms(3) by auto

theorem transfer_chunked_data_sends_all_witness:
  "\<exists>s. transfer_chunked_data (fetch_chunk sb_fetch 1) sb_consume example_wr example_closed_buffer [9] 0 = Some (s, [9, 3, 4, 5, 6], Ready (Inr 4))"
proof -
  have "data \<noteq> [] \<Longrightarrow> \<exists>dst' n. example_wr dst data = (dst', Inr n) \<and> 0 < n \<and> n \<le> length data \<and> id dst' = id dst @ take n data" for dst data
    by (cases data) (auto simp: example_wr_def min_def)
  from transfer_chunked_data_sends_all [OF sb_source.finite_source_axioms example_closed_buffer_props(1) this, of "[9]"] show ?thesis
    by (auto simp: example_closed_buffer_props(2))
qed

text \<open>When the write fails, the chunk is still consumed when it is destroyed: the bytes are gone although none of them was written.\<close>

lemma failed_write_loses_chunk:
  "frm s = (s1, Some (Ready (Inr c))) \<Longrightarrow> wr dst (ck_buffer c) = (dst1, Inl st) \<Longrightarrow> ck_source c \<Longrightarrow>
   src_consume (int (length (ck_buffer c))) s1 = Some s2 \<Longrightarrow> transfer_chunked_data frm src_consume wr s dst n = Some (s2, dst1, Ready (Inl st))"
  by (subst transfer_chunked_data.simps) (simp add: chunk_consume_def)

end
