(* ===== verification/Protobuf_Stream.thy ===== *)
theory Protobuf_Stream
  imports Buffer_Source
begin

section \<open>Zero-copy streams for protocol buffers\<close>

text \<open>
  Models \<^verbatim>\<open>src/src/batteries/protobuf/\<close>: the input and the output stream of the protobuf library over a stream buffer. \<^verbatim>\<open>Next\<close> hands out a buffer of
  the ring, \<^verbatim>\<open>BackUp\<close> gives back its end, and the bytes are consumed or committed by the next call or by the destructor. \<open>None\<close> is a
  failed check, \<open>Blocked\<close> a wait for the other side.
\<close>

definition checked_int :: "nat \<Rightarrow> int option" where
  "checked_int n = (if int n < 2 ^ 31 then Some (int n) else None)"

record InputStream =
  in_buffer :: StreamBuffer
  in_byte_count :: i64
  in_n_to_consume :: i64

definition InputStream_init :: "StreamBuffer \<Rightarrow> InputStream" where
  "InputStream_init sb = \<lparr>in_buffer = sb, in_byte_count = 0, in_n_to_consume = 0\<rparr>"

definition consume_data :: "InputStream \<Rightarrow> InputStream" where
  "consume_data s =
     (if in_n_to_consume s > 0 then s\<lparr>in_n_to_consume := 0, in_buffer := consume_bytes (in_n_to_consume s) (in_buffer s)\<rparr> else s)"

text \<open>The destructor.\<close>

definition InputStream_destruct :: "InputStream \<Rightarrow> StreamBuffer" where
  "InputStream_destruct s = in_buffer (consume_data s)"

datatype 'a next_result = Next_blocked | Next_end | Next_data 'a

definition fetch_next :: "InputStream \<Rightarrow> (u8 list next_result \<times> InputStream) option" where
  "fetch_next s =
     (let s = consume_data s in
      case fetch_at_least 1 (in_buffer s) of
        None \<Rightarrow> None
      | Some Blocked \<Rightarrow> Some (Next_blocked, s)
      | Some (Ready (Inl _)) \<Rightarrow> Some (Next_end, s)
      | Some (Ready (Inr [])) \<Rightarrow> None
      | Some (Ready (Inr (b # _))) \<Rightarrow>
          Some (Next_data b, s\<lparr>in_n_to_consume := int (length b), in_byte_count := in_byte_count s + int (length b)\<rparr>))"

definition InputStream_Next :: "InputStream \<Rightarrow> (u8 list next_result \<times> InputStream) option" where
  "InputStream_Next s =
     do {
       (r, s) \<leftarrow> fetch_next s;
       (case r of Next_data b \<Rightarrow> map_option (\<lambda>_. (r, s)) (checked_int (length b)) | _ \<Rightarrow> Some (r, s))
     }"

definition InputStream_BackUp :: "int \<Rightarrow> InputStream \<Rightarrow> InputStream option" where
  "InputStream_BackUp n s =
     (if n \<le> in_n_to_consume s
      then Some (s\<lparr>in_n_to_consume := in_n_to_consume s - n, in_byte_count := in_byte_count s - n\<rparr>) else None)"

text \<open>\<^verbatim>\<open>Skip\<close>: \<open>Next_data b\<close> is the result \<open>b\<close>.\<close>

partial_function (option) InputStream_Skip :: "int \<Rightarrow> InputStream \<Rightarrow> (bool next_result \<times> InputStream) option" where
  "InputStream_Skip n s =
     (if n > 0 then
        (case InputStream_Next s of
           None \<Rightarrow> None
         | Some (Next_blocked, s) \<Rightarrow> Some (Next_blocked, s)
         | Some (Next_end, s) \<Rightarrow> Some (Next_data False, s)
         | Some (Next_data b, s) \<Rightarrow>
             if b = [] then Some (Next_data False, s)
             else if int (length b) > n
             then (case InputStream_BackUp (int (length b) - n) s of None \<Rightarrow> None | Some s \<Rightarrow> Some (Next_data True, s))
             else InputStream_Skip (n - int (length b)) s)
      else Some (Next_data True, s))"

record OutputStream =
  out_buffer :: StreamBuffer
  out_byte_count :: i64
  out_n_to_commit :: i64

definition OutputStream_init :: "StreamBuffer \<Rightarrow> OutputStream" where
  "OutputStream_init sb = \<lparr>out_buffer = sb, out_byte_count = 0, out_n_to_commit = 0\<rparr>"

definition commit_data :: "OutputStream \<Rightarrow> OutputStream" where
  "commit_data s = (if out_n_to_commit s > 0 then s\<lparr>out_n_to_commit := 0, out_buffer := commit (out_n_to_commit s) (out_buffer s)\<rparr> else s)"

definition OutputStream_destruct :: "OutputStream \<Rightarrow> StreamBuffer" where
  "OutputStream_destruct s = out_buffer (commit_data s)"

definition prepare_next :: "OutputStream \<Rightarrow> (region next_result \<times> OutputStream) option" where
  "prepare_next s =
     (let s = commit_data s in
      case prepare_at_least 1 (out_buffer s) of
        None \<Rightarrow> None
      | Some Blocked \<Rightarrow> Some (Next_blocked, s)
      | Some (Ready (Inl _)) \<Rightarrow> Some (Next_end, s)
      | Some (Ready (Inr [])) \<Rightarrow> None
      | Some (Ready (Inr (r # _))) \<Rightarrow>
          Some (Next_data r, s\<lparr>out_n_to_commit := int (snd r), out_byte_count := out_byte_count s + int (snd r)\<rparr>))"

definition OutputStream_Next :: "OutputStream \<Rightarrow> (region next_result \<times> OutputStream) option" where
  "OutputStream_Next s =
     do {
       (x, s) \<leftarrow> prepare_next s;
       (case x of Next_data r \<Rightarrow> map_option (\<lambda>_. (x, s)) (checked_int (snd r)) | _ \<Rightarrow> Some (x, s))
     }"

definition OutputStream_BackUp :: "int \<Rightarrow> OutputStream \<Rightarrow> OutputStream option" where
  "OutputStream_BackUp n s =
     (if n \<le> out_n_to_commit s
      then Some (s\<lparr>out_n_to_commit := out_n_to_commit s - n, out_byte_count := out_byte_count s - n\<rparr>) else None)"

text \<open>The client stores \<open>data\<close> at the start of the region that it was given.\<close>

definition client_stores :: "region \<Rightarrow> u8 list \<Rightarrow> OutputStream \<Rightarrow> OutputStream" where
  "client_stores r data s = s\<lparr>out_buffer := (out_buffer s)\<lparr>sb_buffer := snd (buffer_copy [r] data (sb_buffer (out_buffer s)))\<rparr>\<rparr>"

subsection \<open>The input stream\<close>

text \<open>What the stream still delivers when \<open>xs\<close> was the data at the beginning; the writer has closed the buffer.\<close>

definition in_rest :: "InputStream \<Rightarrow> u8 list" where
  "in_rest s = drop (nat (in_n_to_consume s)) (contents (in_buffer s))"

definition in_inv :: "u8 list \<Rightarrow> InputStream \<Rightarrow> bool" where
  "in_inv xs s \<longleftrightarrow> sb_source_ok (in_buffer s) \<and> sb_capacity (in_buffer s) < 2 ^ 31 \<and>
     0 \<le> in_n_to_consume s \<and> in_n_to_consume s \<le> in_byte_count s \<and> nat (in_byte_count s) \<le> length xs \<and>
     contents (in_buffer s) = drop (nat (in_byte_count s - in_n_to_consume s)) xs"

lemma in_inv_rest:
  assumes "in_inv xs s"
  shows "in_rest s = drop (nat (in_byte_count s)) xs" "nat (in_n_to_consume s) \<le> sb_len (in_buffer s)"
proof -
  have le: "nat (in_n_to_consume s) \<le> nat (in_byte_count s)" "nat (in_byte_count s) \<le> length xs"
    "nat (in_byte_count s - in_n_to_consume s) = nat (in_byte_count s) - nat (in_n_to_consume s)"
    and c: "contents (in_buffer s) = drop (nat (in_byte_count s - in_n_to_consume s)) xs"
    using assms by (auto simp: in_inv_def nat_diff_distrib)
  show "in_rest s = drop (nat (in_byte_count s)) xs"
    using le(1) by (simp add: in_rest_def c le(3))
  have "length (contents (in_buffer s)) = length xs - (nat (in_byte_count s) - nat (in_n_to_consume s))"
    by (simp only: c le(3) length_drop)
  then show "nat (in_n_to_consume s) \<le> sb_len (in_buffer s)"
    using le(1,2) unfolding length_contents by linarith
qed

lemma consume_data_inv:
  assumes "in_inv xs s"
  shows "in_inv xs (consume_data s)" "in_n_to_consume (consume_data s) = 0" "contents (in_buffer (consume_data s)) = in_rest s"
    "in_byte_count (consume_data s) = in_byte_count s"
proof -
  let ?n = "nat (in_n_to_consume s)"
  have ok: "sb_inv (in_buffer s)" "?n \<le> sb_len (in_buffer s)" "int ?n = in_n_to_consume s"
    using assms in_inv_rest(2) [OF assms] by (auto simp: in_inv_def sb_source_ok_def)
  then have c: "contents (consume_bytes (in_n_to_consume s) (in_buffer s)) = in_rest s" "sb_inv (consume_bytes (in_n_to_consume s) (in_buffer s))"
    using contents_consume [OF ok(1,2)] by (simp_all add: in_rest_def)
  show n: "in_n_to_consume (consume_data s) = 0" and bc: "in_byte_count (consume_data s) = in_byte_count s"
    and cc: "contents (in_buffer (consume_data s)) = in_rest s"
    using assms c(1) by (auto simp: consume_data_def in_inv_def in_rest_def)
  have "sb_source_ok (in_buffer (consume_data s))" "sb_capacity (in_buffer (consume_data s)) < 2 ^ 31"
    using assms c(2) by (auto simp: consume_data_def in_inv_def sb_source_ok_def consume_bytes_def)
  then show "in_inv xs (consume_data s)"
    using assms n bc cc in_inv_rest(1) [OF assms] by (simp add: in_inv_def)
qed

lemma InputStream_Next_spec:
  assumes "in_inv xs s"
  shows "if in_rest s = [] then \<exists>s'. InputStream_Next s = Some (Next_end, s') \<and> in_inv xs s' \<and> in_byte_count s' = in_byte_count s \<and> in_rest s' = []
    else \<exists>b s'. InputStream_Next s = Some (Next_data b, s') \<and> in_inv xs s' \<and> b \<noteq> [] \<and> in_rest s = b @ in_rest s' \<and>
      in_byte_count s' = in_byte_count s + int (length b) \<and> in_n_to_consume s' = int (length b)"
proof -
  let ?s = "consume_data s"
  note c = consume_data_inv [OF assms]
  have sb: "sb_inv (in_buffer ?s)" "sb_commit_closed (in_buffer ?s) = Some kEndOfStream"
    and cap: "1 \<le> sb_capacity (in_buffer ?s)" "sb_capacity (in_buffer ?s) < 2 ^ 31" "int (sb_len (in_buffer ?s)) \<le> sb_capacity (in_buffer ?s)"
    using c(1) by (auto simp: in_inv_def sb_source_ok_def sb_inv_def)
  have len: "length (in_rest s) = sb_len (in_buffer ?s)"
    using c(3) by (metis length_contents)
  show ?thesis
  proof (cases "in_rest s = []")
    case True
    then have "fetch_at_least 1 (in_buffer ?s) = Some (Ready (Inl kEndOfStream))"
      using fetch_short [OF sb(1), of 1] sb(2) len cap(1) by simp
    moreover have "in_rest ?s = in_rest s"
      by (simp add: in_rest_def [of ?s] c(2,3))
    ultimately show ?thesis
      using True c(1,4) by (simp add: InputStream_Next_def fetch_next_def Let_def)
  next
    case False
    then have "1 \<le> sb_len (in_buffer ?s)"
      using len by (simp add: Suc_le_eq flip: length_greater_0_conv)
    then obtain bs where bs: "fetch_at_least 1 (in_buffer ?s) = Some (Ready (Inr bs))" "concat bs = contents (in_buffer ?s)" "bs \<noteq> []" "1 \<le> length (hd bs)"
      using fetch_spec [OF sb(1), of 1] by auto
    then obtain b bs' where b: "bs = b # bs'"
      by (cases bs) auto
    let ?t = "?s\<lparr>in_n_to_consume := int (length b), in_byte_count := in_byte_count ?s + int (length b)\<rparr>"
    have rest: "in_rest s = b @ concat bs'"
      using bs(2) b c(3) by simp
    have "length (in_rest s) = length b + length (concat bs')"
      by (simp only: rest length_append)
    moreover have "length (in_rest s) = length (drop (nat (in_byte_count s)) xs)"
      by (simp only: in_inv_rest(1) [OF assms])
    ultimately have small: "int (length b) < 2 ^ 31" "length b \<le> length (drop (nat (in_byte_count s)) xs)"
      using len cap(2,3) by linarith+
    have bc: "0 \<le> in_byte_count s" "nat (in_byte_count s) \<le> length xs"
      using assms by (auto simp: in_inv_def)
    have "in_inv xs ?t"
      using c small(2) bc in_inv_rest(1) [OF assms] by (simp add: in_inv_def nat_add_distrib)
    moreover have "in_rest ?t = concat bs'"
      using c(3) rest by (simp add: in_rest_def)
    moreover have "InputStream_Next s = Some (Next_data b, ?t)"
      using bs(1) b small(1) by (simp add: InputStream_Next_def fetch_next_def Let_def checked_int_def)
    ultimately show ?thesis
      using False rest bs(4) b c(4) by auto
  qed
qed

lemma InputStream_BackUp_spec:
  assumes "in_inv xs s" "0 \<le> n" "n \<le> in_n_to_consume s"
  shows "\<exists>s'. InputStream_BackUp n s = Some s' \<and> in_inv xs s' \<and> in_byte_count s' = in_byte_count s - n \<and>
    in_n_to_consume s' = in_n_to_consume s - n"
  using assms by (auto simp: InputStream_BackUp_def in_inv_def)

lemma InputStream_Skip_spec:
  assumes "in_inv xs s" "0 \<le> n"
  shows "\<exists>s'. InputStream_Skip n s = Some (Next_data (nat n \<le> length (in_rest s)), s') \<and> in_inv xs s' \<and>
    in_byte_count s' = in_byte_count s + min n (int (length (in_rest s)))"
  using assms
proof (induction "nat n" arbitrary: n s rule: less_induct)
  case less
  note unfold = InputStream_Skip.simps [of n s]
  show ?case
  proof (cases "n = 0")
    case True
    then show ?thesis
      using less(2) unfold by simp
  next
    case n: False
    show ?thesis
    proof (cases "in_rest s = []")
      case True
      then obtain s' where "InputStream_Next s = Some (Next_end, s')" "in_inv xs s'" "in_byte_count s' = in_byte_count s"
        using InputStream_Next_spec [OF less(2)] by auto
      then show ?thesis
        using unfold n less(3) True by simp
    next
      case False
      then obtain b s1 where s1: "InputStream_Next s = Some (Next_data b, s1)" "in_inv xs s1" "b \<noteq> []" "in_rest s = b @ in_rest s1"
        "in_byte_count s1 = in_byte_count s + int (length b)" "in_n_to_consume s1 = int (length b)"
        using InputStream_Next_spec [OF less(2)] by auto
      have len: "length (in_rest s) = length b + length (in_rest s1)" "0 < length b"
        using s1(4) s1(3) by (metis length_append, blast)
      show ?thesis
      proof (cases "int (length b) > n")
        case True
        then obtain s2 where "InputStream_BackUp (int (length b) - n) s1 = Some s2" "in_inv xs s2"
          "in_byte_count s2 = in_byte_count s1 - (int (length b) - n)"
          using InputStream_BackUp_spec [OF s1(2), of "int (length b) - n"] s1(6) less(3) by auto
        moreover have "nat n \<le> length (in_rest s)" "min n (int (length (in_rest s))) = n"
          using len True less(3) by linarith+
        ultimately show ?thesis
          using unfold s1(1,3,5) True n less(3) by simp
      next
        case le: False
        let ?m = "n - int (length b)"
        have m: "nat ?m < nat n" "0 \<le> ?m"
          using le less(3) len(2) n by linarith+
        obtain s2 where s2: "InputStream_Skip ?m s1 = Some (Next_data (nat ?m \<le> length (in_rest s1)), s2)" "in_inv xs s2"
          "in_byte_count s2 = in_byte_count s1 + min ?m (int (length (in_rest s1)))"
          using less(1) [OF m(1) s1(2) m(2)] by blast
        have "nat ?m \<le> length (in_rest s1) \<longleftrightarrow> nat n \<le> length (in_rest s)"
          "in_byte_count s2 = in_byte_count s + min n (int (length (in_rest s)))"
          using len le s2(3) s1(5) less(3) by linarith+
        moreover have "InputStream_Skip n s = InputStream_Skip ?m s1"
          using unfold s1(1,3) le n less(3) by simp
        ultimately show ?thesis
          using s2(1,2) by auto
      qed
    qed
  qed
qed

subsection \<open>The output stream\<close>

lemma contents_commit_less:
  assumes "sb_inv sb" "j \<le> k"
  shows "contents (commit (int j) sb) = take (sb_len sb + j) (contents (commit (int k) sb))"
proof -
  have "nat (sb_commit_pos sb + int i - sb_consume_pos sb) = sb_len sb + i" for i
    using assms(1) by (auto simp: sb_inv_def)
  then show ?thesis
    using assms(2) by (intro nth_equalityI) (auto simp: contents_def commit_def)
qed

lemma prepare_front:
  assumes inv: "sb_inv sb" and free: "0 < sb_free sb"
  shows "\<exists>b n rs. prepare_at_least 1 sb = Some (Ready (Inr ((b, n) # rs))) \<and> 0 < n \<and> n \<le> sb_free sb \<and>
    region_indices ((b, n) # rs) = ring (nat (sb_capacity sb)) (nat (sb_commit_pos sb)) (sb_free sb)"
proof -
  have sp: "sb_space sb = Some (int (sb_free sb))"
    using inv by (auto simp: sb_space_def sb_size_def sb_inv_def Let_def)
  obtain rs where rs: "get_buffers sb (sb_commit_pos sb) (int (sb_free sb)) = Some rs" "rs \<noteq> []"
    "region_indices rs = ring (nat (sb_capacity sb)) (nat (sb_commit_pos sb)) (sb_free sb)"
    using get_buffers_indices [OF inv, of "sb_commit_pos sb" "int (sb_free sb)"] inv by (auto simp: sb_inv_def)
  have "\<not> 1 > sb_capacity sb" "sb_consume_pos sb \<ge> sb_commit_pos sb + (1 - sb_capacity sb)"
    using free inv by (auto simp: sb_inv_def)
  then have p: "prepare_at_least 1 sb = Some (Ready (Inr rs))"
    using sp rs(1) by (simp add: prepare_at_least_def pre_transfer_def await_pos_def Let_def)
  obtain b n rs' where r: "rs = (b, n) # rs'"
    using rs(2) by (cases rs) auto
  have "0 < sb_capacity sb - sb_commit_pos sb mod sb_capacity sb"
    using inv by (simp add: sb_inv_def)
  then have "0 < n" "n \<le> sb_free sb"
    using rs(1) r free by (auto simp: get_buffers_def Let_def split: if_splits)
  then show ?thesis
    using p r rs(3) by blast
qed

lemma buffer_copy_Nil: "buffer_copy rs [] mem = (0, mem)"
  by (induction rs "[] :: u8 list" mem rule: buffer_copy.induct) (auto simp: Let_def)

lemma buffer_copy_first:
  "length src \<le> n \<Longrightarrow> buffer_copy ((b, n) # rs) src mem = (length src, snd (buffer_copy [(b, n)] src mem))"
  by (simp add: Let_def buffer_copy_Nil)

text \<open>\<open>xs\<close> is what the buffer holds once the pending bytes are committed.\<close>

definition out_inv :: "u8 list \<Rightarrow> OutputStream \<Rightarrow> bool" where
  "out_inv xs s \<longleftrightarrow> sb_inv (out_buffer s) \<and> sb_capacity (out_buffer s) < 2 ^ 31 \<and> 0 \<le> out_n_to_commit s \<and>
     sb_inv (OutputStream_destruct s) \<and> contents (OutputStream_destruct s) = xs"

lemma OutputStream_destruct_commit: "0 \<le> out_n_to_commit s \<Longrightarrow> OutputStream_destruct s = commit (out_n_to_commit s) (out_buffer s)"
  by (auto simp: OutputStream_destruct_def commit_data_def commit_def)

lemma commit_data_inv:
  assumes "out_inv xs s"
  shows "sb_inv (out_buffer (commit_data s))" "contents (out_buffer (commit_data s)) = xs" "out_n_to_commit (commit_data s) = 0"
    "sb_capacity (out_buffer (commit_data s)) < 2 ^ 31" "out_byte_count (commit_data s) = out_byte_count s"
  using assms by (auto simp: out_inv_def OutputStream_destruct_def commit_data_def commit_def)

text \<open>
  What the client stores in a region becomes part of the stream, less what it backs up. When the ring is full, \<^verbatim>\<open>Next\<close> waits for the
  reader, or fails once it has closed.
\<close>

theorem OutputStream_writes:
  assumes "out_inv xs s"
  shows "if sb_free (OutputStream_destruct s) = 0
    then \<exists>s'. OutputStream_Next s =
        Some (case sb_consume_closed (OutputStream_destruct s) of None \<Rightarrow> Next_blocked | Some _ \<Rightarrow> Next_end, s') \<and> out_inv xs s' \<and> out_byte_count s' = out_byte_count s
    else \<exists>r s'. OutputStream_Next s = Some (Next_data r, s') \<and> 0 < snd r \<and>
      (\<forall>data k. length data = snd r \<longrightarrow> k \<le> snd r \<longrightarrow>
        (\<exists>s''. OutputStream_BackUp (int k) (client_stores r data s') = Some s'' \<and> out_inv (xs @ take (snd r - k) data) s'' \<and>
           out_byte_count s'' = out_byte_count s + int (snd r - k)))"
proof -
  let ?s = "commit_data s"
  let ?sb = "out_buffer ?s"
  note c = commit_data_inv [OF assms]
  have d: "OutputStream_destruct s = ?sb"
    by (simp add: OutputStream_destruct_def)
  show ?thesis
  proof (cases "sb_free ?sb = 0")
    case True
    then have "prepare_at_least 1 ?sb = Some (case sb_consume_closed ?sb of None \<Rightarrow> Blocked | Some st \<Rightarrow> Ready (Inl st))"
      using c(1) by (auto simp: prepare_at_least_def pre_transfer_def await_pos_def sb_inv_def Let_def split: option.splits)
    moreover have "out_inv xs ?s"
      using c by (simp add: out_inv_def OutputStream_destruct_def commit_data_def [of ?s])
    ultimately show ?thesis
      using True c(5) unfolding d by (auto simp: OutputStream_Next_def prepare_next_def Let_def split: option.splits)
  next
    case False
    then obtain b n rs where p: "prepare_at_least 1 ?sb = Some (Ready (Inr ((b, n) # rs)))" "0 < n" "n \<le> sb_free ?sb"
      "region_indices ((b, n) # rs) = ring (nat (sb_capacity ?sb)) (nat (sb_commit_pos ?sb)) (sb_free ?sb)"
      using prepare_front [OF c(1)] by auto
    let ?t = "?s\<lparr>out_n_to_commit := int n, out_byte_count := out_byte_count ?s + int n\<rparr>"
    have small: "int n < 2 ^ 31"
      using p(3) c(1,4) by (auto simp: sb_inv_def)
    have "\<exists>s''. OutputStream_BackUp (int k) (client_stores (b, n) data ?t) = Some s'' \<and> out_inv (xs @ take (n - k) data) s'' \<and>
        out_byte_count s'' = out_byte_count s + int (n - k)" if data: "length data = n" "k \<le> n" for data k
    proof -
      let ?mem = "snd (buffer_copy [(b, n)] data (sb_buffer ?sb))"
      let ?sb' = "?sb\<lparr>sb_buffer := ?mem\<rparr>"
      let ?u = "(client_stores (b, n) data ?t)\<lparr>out_n_to_commit := int n - int k, out_byte_count := out_byte_count ?s + int n - int k\<rparr>"
      have "buffer_copy ((b, n) # rs) data (sb_buffer ?sb) = (n, ?mem)"
        using buffer_copy_first [of data n b rs] data(1) by simp
      note w = contents_write [OF c(1) this p(4)]
      have inv': "sb_inv ?sb'"
        using c(1) w(3) by (auto simp: sb_inv_def commit_def)
      have u: "out_buffer ?u = ?sb'" "OutputStream_destruct ?u = commit (int (n - k)) ?sb'"
        using data(2) by (simp_all add: client_stores_def OutputStream_destruct_commit of_nat_diff)
      have len: "sb_len ?sb' = length xs"
        using c(2) by (metis length_contents StreamBuffer.select_convs(3,4) StreamBuffer.simps(2) StreamBuffer.surjective StreamBuffer.update_convs(2))
      have "contents (commit (int (n - k)) ?sb') = xs @ take (n - k) data"
        using contents_commit_less [OF inv', of "n - k" n] w(2) data c(2) len by simp
      moreover have "sb_inv (commit (int (n - k)) ?sb')"
        using inv' w(3) by (auto simp: sb_inv_def commit_def)
      ultimately have "out_inv (xs @ take (n - k) data) ?u"
        using u inv' c(4) data(2) by (simp add: out_inv_def)
      moreover have "OutputStream_BackUp (int k) (client_stores (b, n) data ?t) = Some ?u"
        using data(2) by (simp add: OutputStream_BackUp_def client_stores_def)
      ultimately show ?thesis
        using c(5) data(2) by (simp add: of_nat_diff)
    qed
    moreover have "OutputStream_Next s = Some (Next_data (b, n), ?t)"
      using p(1) small by (simp add: OutputStream_Next_def prepare_next_def Let_def checked_int_def)
    ultimately show ?thesis
      using False p(2) unfolding d by (intro iffD2 [OF if_not_P]) (auto intro!: exI [of _ b] exI [of _ n])
  qed
qed

text \<open>
  C27 (refinement). A protobuf input stream over a stream buffer whose writer has closed is a position in the data, its byte count: \<^verbatim>\<open>Next\<close> delivers
  the bytes that follow and moves past them, and fails exactly at the end; \<^verbatim>\<open>BackUp\<close> by at most the size of the last buffer moves back;
  \<^verbatim>\<open>Skip\<close> ends, moves forward and fails exactly when there are fewer bytes, which are then all skipped. No check fails, and after the
  destructor the stream buffer holds exactly the bytes after the position.
\<close>

theorem InputStream_is_position:
  assumes "in_inv xs s"
  shows "nat (in_byte_count s) \<le> length xs \<and> contents (InputStream_destruct s) = drop (nat (in_byte_count s)) xs \<and>
    (if nat (in_byte_count s) = length xs
     then \<exists>s'. InputStream_Next s = Some (Next_end, s') \<and> in_inv xs s' \<and> in_byte_count s' = in_byte_count s
     else \<exists>b s'. InputStream_Next s = Some (Next_data b, s') \<and> in_inv xs s' \<and> b \<noteq> [] \<and>
       b = take (length b) (drop (nat (in_byte_count s)) xs) \<and> in_byte_count s' = in_byte_count s + int (length b) \<and> in_n_to_consume s' = int (length b)) \<and>
    (\<forall>n. 0 \<le> n \<longrightarrow> n \<le> in_n_to_consume s \<longrightarrow> (\<exists>s'. InputStream_BackUp n s = Some s' \<and> in_inv xs s' \<and> in_byte_count s' = in_byte_count s - n)) \<and>
    (\<forall>n. 0 \<le> n \<longrightarrow> (\<exists>s'. InputStream_Skip n s = Some (Next_data (nat (in_byte_count s) + nat n \<le> length xs), s') \<and> in_inv xs s' \<and>
       nat (in_byte_count s') = min (nat (in_byte_count s) + nat n) (length xs)))"
proof -
  have bc: "nat (in_byte_count s) \<le> length xs" "0 \<le> in_byte_count s"
    using assms by (auto simp: in_inv_def)
  note rest = in_inv_rest(1) [OF assms]
  then have len: "length (in_rest s) = length xs - nat (in_byte_count s)"
    by simp
  have skip: "\<exists>s'. InputStream_Skip n s = Some (Next_data (nat (in_byte_count s) + nat n \<le> length xs), s') \<and> in_inv xs s' \<and>
       nat (in_byte_count s') = min (nat (in_byte_count s) + nat n) (length xs)" if n: "0 \<le> n" for n
  proof -
    obtain s' where s': "InputStream_Skip n s = Some (Next_data (nat n \<le> length (in_rest s)), s')" "in_inv xs s'"
      "in_byte_count s' = in_byte_count s + min n (int (length (in_rest s)))"
      using InputStream_Skip_spec [OF assms n] by blast
    moreover have "nat n \<le> length (in_rest s) \<longleftrightarrow> nat (in_byte_count s) + nat n \<le> length xs"
      "nat (in_byte_count s') = min (nat (in_byte_count s) + nat n) (length xs)"
      using len bc n s'(3) by linarith+
    ultimately show ?thesis
      by auto
  qed
  have "in_rest s = [] \<longleftrightarrow> nat (in_byte_count s) = length xs"
    using bc rest by auto
  then have nxt: "if nat (in_byte_count s) = length xs
     then \<exists>s'. InputStream_Next s = Some (Next_end, s') \<and> in_inv xs s' \<and> in_byte_count s' = in_byte_count s
     else \<exists>b s'. InputStream_Next s = Some (Next_data b, s') \<and> in_inv xs s' \<and> b \<noteq> [] \<and>
       b = take (length b) (drop (nat (in_byte_count s)) xs) \<and> in_byte_count s' = in_byte_count s + int (length b) \<and> in_n_to_consume s' = int (length b)"
    using InputStream_Next_spec [OF assms] rest by (auto split: if_splits)
  show ?thesis
    using bc(1) consume_data_inv(3) [OF assms] rest nxt skip InputStream_BackUp_spec [OF assms]
    by (auto simp: InputStream_destruct_def)
qed

lemma InputStream_init_inv: "sb_source_ok sb \<Longrightarrow> sb_capacity sb < 2 ^ 31 \<Longrightarrow> in_inv (contents sb) (InputStream_init sb)"
  by (simp add: in_inv_def InputStream_init_def)

theorem InputStream_is_position_witness:
  "\<exists>s'. InputStream_Skip 3 (InputStream_init example_closed_buffer) = Some (Next_data True, s') \<and> nat (in_byte_count s') = 3"
proof -
  have "in_inv [3, 4, 5, 6] (InputStream_init example_closed_buffer)"
    using InputStream_init_inv [OF example_closed_buffer_props(1)] example_closed_buffer_props(2) by (simp add: example_closed_buffer_def)
  note InputStream_is_position [OF this, THEN conjunct2, THEN conjunct2, THEN conjunct2, THEN conjunct2, THEN spec, of 3]
  then show ?thesis
    by (auto simp: InputStream_init_def)
qed

end
