(* ===== verification/Fake_Context.thy ===== *)
theory Fake_Context
  imports Raw_Storage
begin

section \<open>The fake execution context\<close>

text \<open>
  Models \<^verbatim>\<open>FakeExecutionContext\<close>, \<^verbatim>\<open>BasicFakeExecutor\<close> and \<^verbatim>\<open>FakeTimeService\<close> (\<^verbatim>\<open>src/src/batteries/async/fake_execution_context_impl.hpp\<close>,
  \<^verbatim>\<open>fake_executor_decl.hpp\<close>, \<^verbatim>\<open>fake_executor_impl.hpp\<close>, \<^verbatim>\<open>fake_time_service_impl.hpp\<close>): the stand-ins for an executor and for the passage of
  time with which tests run tasks deterministically. A handler is a value of type \<open>'h\<close>; what it does is user code.
\<close>

record 'h FakeContext =
  work_count :: int
  push_ready_count :: int
  pop_ready_count :: int
  ready_to_run :: "'h list"

definition FakeContext_init :: "'h FakeContext" where
  "FakeContext_init = \<lparr>work_count = 0, push_ready_count = 0, pop_ready_count = 0, ready_to_run = []\<rparr>"

definition push_ready_handler :: "'h option \<Rightarrow> 'h FakeContext \<Rightarrow> 'h FakeContext" where
  "push_ready_handler handler ctx =
     (case handler of
        None \<Rightarrow> ctx
      | Some h \<Rightarrow> ctx\<lparr>ready_to_run := ready_to_run ctx @ [h], push_ready_count := push_ready_count ctx + 1\<rparr>)"

text \<open>The handler that is taken is replaced by the last one.\<close>

definition pop_ready_handler :: "(nat \<Rightarrow> nat) \<Rightarrow> 'h FakeContext \<Rightarrow> ('h option \<times> 'h FakeContext) option" where
  "pop_ready_handler picker ctx =
     (let hs = ready_to_run ctx; next_i = picker (length hs) in
      if hs = [] then Some (None, ctx)
      else if \<not> next_i < length hs then None
      else
        let rest = (if next_i \<noteq> length hs - 1 then hs[next_i := last hs] else hs) in
        Some (Some (hs ! next_i), ctx\<lparr>ready_to_run := butlast rest, pop_ready_count := pop_ready_count ctx + 1\<rparr>))"

text \<open>Running a handler changes the rest of the world and gives handlers to the context.\<close>

definition poll_one :: "('h \<Rightarrow> 'w \<Rightarrow> 'w \<times> 'h list) \<Rightarrow> 'h FakeContext \<times> 'w \<Rightarrow> (bool \<times> 'h FakeContext \<times> 'w) option" where
  "poll_one run = (\<lambda>(ctx, w).
     Option.bind (pop_ready_handler (\<lambda>_. 0) ctx) (\<lambda>(handler, ctx).
       case handler of
         None \<Rightarrow> Some (False, ctx, w)
       | Some h \<Rightarrow> let (w, hs) = run h w in Some (True, fold (\<lambda>h. push_ready_handler (Some h)) hs ctx, w)))"

partial_function (option) poll_loop ::
  "('h \<Rightarrow> 'w \<Rightarrow> 'w \<times> 'h list) \<Rightarrow> nat \<Rightarrow> 'h FakeContext \<times> 'w \<Rightarrow> (nat \<times> 'h FakeContext \<times> 'w) option" where
  "poll_loop run cnt s =
     Option.bind (poll_one run s) (\<lambda>(more, s'). if more then poll_loop run (cnt + 1) s' else Some (cnt, s'))"

definition poll :: "('h \<Rightarrow> 'w \<Rightarrow> 'w \<times> 'h list) \<Rightarrow> 'h FakeContext \<times> 'w \<Rightarrow> (nat \<times> 'h FakeContext \<times> 'w) option" where
  "poll run s = poll_loop run 0 s"

lemma ready_push: "ready_to_run (fold (\<lambda>h. push_ready_handler (Some h)) hs ctx) = ready_to_run ctx @ hs"
  by (induction hs arbitrary: ctx) (simp_all add: push_ready_handler_def)

lemma counts_push:
  "push_ready_count (fold (\<lambda>h. push_ready_handler (Some h)) hs ctx) = push_ready_count ctx + int (length hs)"
  "pop_ready_count (fold (\<lambda>h. push_ready_handler (Some h)) hs ctx) = pop_ready_count ctx"
  "work_count (fold (\<lambda>h. push_ready_handler (Some h)) hs ctx) = work_count ctx"
  by (induction hs arbitrary: ctx) (simp_all add: push_ready_handler_def)

text \<open>A handler is taken out of the list, whichever the picker chooses, and the others stay.\<close>

lemma pop_ready_handler_takes:
  assumes "ready_to_run ctx \<noteq> []" "picker (length (ready_to_run ctx)) < length (ready_to_run ctx)"
  obtains h ctx' where "pop_ready_handler picker ctx = Some (Some h, ctx')" "h = ready_to_run ctx ! picker (length (ready_to_run ctx))"
    "mset (ready_to_run ctx) = add_mset h (mset (ready_to_run ctx'))" "pop_ready_count ctx' = pop_ready_count ctx + 1"
    "push_ready_count ctx' = push_ready_count ctx" "work_count ctx' = work_count ctx"
proof -
  let ?hs = "ready_to_run ctx" and ?i = "picker (length (ready_to_run ctx))"
  define rest where "rest = (if ?i \<noteq> length ?hs - 1 then ?hs[?i := last ?hs] else ?hs)"
  have "mset ?hs = add_mset (?hs ! ?i) (mset (butlast rest))"
  proof (cases "?i = length ?hs - 1")
    case True
    then have "mset ?hs = mset (butlast ?hs @ [?hs ! ?i])"
      using assms(1) by (metis append_butlast_last_id last_conv_nth)
    then show ?thesis
      using True by (simp add: rest_def)
  next
    case False
    obtain b l where bl: "?hs = b @ [l]"
      using assms(1) by (cases ?hs rule: rev_cases) auto
    then have "?i < length b"
      using assms(2) False by simp
    then have "butlast rest = b[?i := l]" "?hs ! ?i = b ! ?i"
      using bl False by (simp_all add: rest_def list_update_append nth_append)
    then show ?thesis
      using bl mset_update [OF \<open>?i < length b\<close>, of l] nth_mem_mset [OF \<open>?i < length b\<close>] by simp
  qed
  then show thesis
    using assms that [of "?hs ! ?i" "ctx\<lparr>ready_to_run := butlast rest, pop_ready_count := pop_ready_count ctx + 1\<rparr>"]
    by (simp add: pop_ready_handler_def Let_def rest_def)
qed

definition context_ok :: "'h FakeContext \<Rightarrow> bool" where
  "context_ok ctx \<longleftrightarrow> push_ready_count ctx - pop_ready_count ctx = int (length (ready_to_run ctx))"

lemma poll_one_step:
  assumes "ready_to_run ctx \<noteq> []" "context_ok ctx"
  shows "\<exists>h ctx'. poll_one run (ctx, w) = Some (True, ctx', fst (run h w)) \<and> h \<in># mset (ready_to_run ctx) \<and>
    mset (ready_to_run ctx') = mset (ready_to_run ctx) - {#h#} + mset (snd (run h w)) \<and>
    pop_ready_count ctx' = pop_ready_count ctx + 1 \<and> context_ok ctx' \<and> push_ready_count ctx \<le> push_ready_count ctx'"
proof -
  obtain h c where h: "pop_ready_handler (\<lambda>_. 0) ctx = Some (Some h, c)"
    "mset (ready_to_run ctx) = add_mset h (mset (ready_to_run c))" "pop_ready_count c = pop_ready_count ctx + 1"
    "push_ready_count c = push_ready_count ctx" "work_count c = work_count ctx"
    using pop_ready_handler_takes [OF assms(1), of "\<lambda>_. 0"] assms(1) by (metis length_greater_0_conv)
  have "length (ready_to_run ctx) = Suc (length (ready_to_run c))"
    using h(2) by (metis size_add_mset size_mset)
  then show ?thesis
    using assms(2) h
    by (intro exI [of _ h] exI [of _ "fold (\<lambda>h. push_ready_handler (Some h)) (snd (run h w)) c"])
      (simp add: poll_one_def ready_push counts_push context_ok_def split: prod.splits)
qed

lemma poll_loop_returns:
  assumes "\<And>h w h'. h' \<in> set (snd (run h w)) \<Longrightarrow> rank h' < (rank h :: nat)"
  shows "context_ok ctx \<Longrightarrow> \<exists>n ctx' w'. poll_loop run cnt (ctx, w) = Some (cnt + n, ctx', w') \<and> ready_to_run ctx' = [] \<and>
    context_ok ctx' \<and> pop_ready_count ctx' = pop_ready_count ctx + int n \<and> push_ready_count ctx \<le> push_ready_count ctx'"
proof (induction "image_mset rank (mset (ready_to_run ctx))" arbitrary: ctx w cnt
    rule: wf_induct_rule [OF wf_mult [OF wf_less_than]])
  case 1
  show ?case
  proof (cases "ready_to_run ctx = []")
    case True
    then show ?thesis
      using 1(2) poll_loop.simps [of run cnt "(ctx, w)"] by (simp add: poll_one_def pop_ready_handler_def)
  next
    case False
    obtain h c where h: "poll_one run (ctx, w) = Some (True, c, fst (run h w))" "h \<in># mset (ready_to_run ctx)"
      "mset (ready_to_run c) = mset (ready_to_run ctx) - {#h#} + mset (snd (run h w))"
      "pop_ready_count c = pop_ready_count ctx + 1" "context_ok c" "push_ready_count ctx \<le> push_ready_count c"
      using poll_one_step [OF False 1(2), of run w] by (elim exE conjE) (rule that)
    let ?rest = "image_mset rank (mset (ready_to_run ctx) - {#h#})"
    have eq: "image_mset rank (mset (ready_to_run ctx)) = ?rest + {#rank h#}"
      "image_mset rank (mset (ready_to_run c)) = ?rest + image_mset rank (mset (snd (run h w)))"
      using h(2) by (metis image_mset_single image_mset_union insert_DiffM2) (simp only: h(3) image_mset_union mset_map)
    have "(?rest + image_mset rank (mset (snd (run h w))), ?rest + {#rank h#}) \<in> mult less_than"
      by (rule one_step_implies_mult) (use assms in auto)
    then have less: "(image_mset rank (mset (ready_to_run c)), image_mset rank (mset (ready_to_run ctx))) \<in> mult less_than"
      unfolding eq .
    obtain n ctx' w' where "poll_loop run (cnt + 1) (c, fst (run h w)) = Some (cnt + 1 + n, ctx', w')" "ready_to_run ctx' = []"
      "context_ok ctx'" "pop_ready_count ctx' = pop_ready_count c + int n" "push_ready_count c \<le> push_ready_count ctx'"
      using 1(1) [OF less h(5), of "cnt + 1" "fst (run h w)"] by blast
    then show ?thesis
      using h poll_loop.simps [of run cnt "(ctx, w)"] by (intro exI [of _ "n + 1"]) auto
  qed
qed

subsection \<open>Executors and the count of outstanding work\<close>

text \<open>The executors are objects: tracked or not, with or without a context.\<close>

record fake_executor =
  fe_tracked :: bool
  fe_context :: bool

type_synonym 'h exec_sys = "fake_executor option list \<times> 'h FakeContext"

definition on_work_started :: "fake_executor \<Rightarrow> 'h FakeContext \<Rightarrow> 'h FakeContext outcome" where
  "on_work_started e ctx =
     (if \<not> fe_context e then Fine ctx
      else if work_count ctx + 1 = 0 then Check_failed
      else Fine (ctx\<lparr>work_count := work_count ctx + 1\<rparr>))"

definition on_work_finished :: "fake_executor \<Rightarrow> 'h FakeContext \<Rightarrow> 'h FakeContext outcome" where
  "on_work_finished e ctx =
     (if \<not> fe_context e then Fine ctx
      else if \<not> work_count ctx > 0 then Check_failed
      else Fine (ctx\<lparr>work_count := work_count ctx - 1\<rparr>))"

text \<open>The constructor from a context pointer, and the destructor.\<close>

definition make_executor :: "fake_executor \<Rightarrow> 'h FakeContext \<Rightarrow> (fake_executor \<times> 'h FakeContext) outcome" where
  "make_executor e ctx =
     outcome_bind (if fe_tracked e then on_work_started e ctx else Fine ctx) (\<lambda>ctx. Fine (e, ctx))"

definition destroy_executor :: "fake_executor \<Rightarrow> 'h FakeContext \<Rightarrow> 'h FakeContext outcome" where
  "destroy_executor e ctx = (if fe_tracked e then on_work_finished e ctx else Fine ctx)"

datatype exec_op =
    E_default nat bool
  | E_context nat bool
  | E_copy nat nat
  | E_move nat nat
  | E_require nat nat bool
  | E_assign_copy nat nat
  | E_assign_move nat nat
  | E_destroy nat

fun fake_exec :: "exec_op \<Rightarrow> 'h exec_sys \<Rightarrow> 'h exec_sys outcome" where
  "fake_exec (E_default i tracked) (es, ctx) = Fine (put es i \<lparr>fe_tracked = tracked, fe_context = False\<rparr>, ctx)"
| "fake_exec (E_context i tracked) (es, ctx) =
     outcome_bind (make_executor \<lparr>fe_tracked = tracked, fe_context = True\<rparr> ctx) (\<lambda>(e, ctx). Fine (put es i e, ctx))"
| "fake_exec (E_copy i j) (es, ctx) = outcome_bind (make_executor (obj es j) ctx) (\<lambda>(e, ctx). Fine (put es i e, ctx))"
| "fake_exec (E_move i j) (es, ctx) = Fine (put (put es i (obj es j)) j ((obj es j)\<lparr>fe_context := False\<rparr>), ctx)"
| "fake_exec (E_require i j tracked) (es, ctx) =
     outcome_bind (make_executor ((obj es j)\<lparr>fe_tracked := tracked\<rparr>) ctx) (\<lambda>(e, ctx). Fine (put es i e, ctx))"
| "fake_exec (E_assign_copy i j) (es, ctx) =
     outcome_bind (make_executor (obj es j) ctx) (\<lambda>(tmp, ctx).
       let old = obj es i; es = put es i (old\<lparr>fe_context := fe_context tmp\<rparr>) in
       outcome_bind (destroy_executor (tmp\<lparr>fe_context := fe_context old\<rparr>) ctx) (\<lambda>ctx. Fine (es, ctx)))"
| "fake_exec (E_assign_move i j) (es, ctx) =
     (let tmp = obj es j;
          es = put es j (tmp\<lparr>fe_context := False\<rparr>);
          old = obj es i;
          es = put es i (old\<lparr>fe_context := fe_context tmp\<rparr>) in
      outcome_bind (destroy_executor (tmp\<lparr>fe_context := fe_context old\<rparr>) ctx) (\<lambda>ctx. Fine (es, ctx)))"
| "fake_exec (E_destroy i) (es, ctx) = outcome_bind (destroy_executor (obj es i) ctx) (\<lambda>ctx. Fine (es[i := None], ctx))"

fun fake_legal :: "exec_op \<Rightarrow> 'h exec_sys \<Rightarrow> bool" where
  "fake_legal (E_default i tracked) (es, ctx) = is_free es i"
| "fake_legal (E_context i tracked) (es, ctx) = is_free es i"
| "fake_legal (E_copy i j) (es, ctx) = (is_free es i \<and> is_obj es j)"
| "fake_legal (E_move i j) (es, ctx) = (is_free es i \<and> is_obj es j)"
| "fake_legal (E_require i j tracked) (es, ctx) = (is_free es i \<and> is_obj es j)"
| "fake_legal (E_assign_copy i j) (es, ctx) = (is_obj es i \<and> is_obj es j \<and> fe_tracked (obj es i) = fe_tracked (obj es j))"
| "fake_legal (E_assign_move i j) (es, ctx) = (is_obj es i \<and> is_obj es j \<and> fe_tracked (obj es i) = fe_tracked (obj es j))"
| "fake_legal (E_destroy i) (es, ctx) = is_obj es i"

abbreviation tracks :: "fake_executor option \<Rightarrow> bool" where
  "tracks e \<equiv> \<exists>x. e = Some x \<and> fe_tracked x \<and> fe_context x"

definition tracked_work :: "fake_executor option list \<Rightarrow> int" where
  "tracked_work es = int (length (filter tracks es))"

definition work_ok :: "'h exec_sys \<Rightarrow> bool" where
  "work_ok = (\<lambda>(es, ctx). work_count ctx = tracked_work es)"

lemma tracked_work_update:
  "i < length es \<Longrightarrow> tracked_work (es[i := e]) = tracked_work es + (if tracks e then 1 else 0) - (if tracks (es ! i) then 1 else 0)"
  using length_filter_update [of i es tracks e] by (simp add: tracked_work_def)

lemma tracked_work_pos: "i < length es \<Longrightarrow> tracks (es ! i) \<Longrightarrow> 0 < tracked_work es"
proof -
  assume "i < length es" "tracks (es ! i)"
  then have "es ! i \<in> set (filter tracks es)"
    by simp
  then show ?thesis
    unfolding tracked_work_def by (cases "filter tracks es") auto
qed

lemmas exec_defs = make_executor_def destroy_executor_def on_work_started_def on_work_finished_def is_free_def is_obj_def tracked_work_update

lemma fake_exec_fine:
  assumes "work_ok s" "fake_legal op s"
  shows "\<exists>s'. fake_exec op s = Fine s' \<and> work_ok s'"
proof -
  obtain es ctx where s: "s = (es, ctx)"
    by (cases s)
  have nonneg: "0 \<le> tracked_work es"
    by (simp add: tracked_work_def)
  have cnt: "work_count ctx = tracked_work es"
    using assms(1) by (simp add: work_ok_def s)
  show ?thesis
  proof (cases op)
    case (E_default i t)
    then show ?thesis
      using assms s by (auto simp: work_ok_def exec_defs)
  next
    case (E_context i t)
    then show ?thesis
      using assms s nonneg cnt by (auto simp: work_ok_def exec_defs)
  next
    case (E_copy i j)
    then show ?thesis
      using assms s nonneg cnt by (auto simp: work_ok_def exec_defs)
  next
    case (E_move i j)
    then show ?thesis
      using assms s by (cases "i = j") (auto simp: work_ok_def exec_defs)
  next
    case (E_require i j t)
    then show ?thesis
      using assms s nonneg cnt by (auto simp: work_ok_def exec_defs)
  next
    case (E_assign_copy i j)
    then show ?thesis
      using assms s nonneg cnt tracked_work_pos [of i es] by (auto simp: work_ok_def exec_defs Let_def)
  next
    case (E_assign_move i j)
    then show ?thesis
      using assms s nonneg cnt tracked_work_pos [of i es] tracked_work_pos [of j es]
      by (cases "i = j") (auto simp: work_ok_def exec_defs Let_def)
  next
    case (E_destroy i)
    then show ?thesis
      using assms s nonneg cnt tracked_work_pos [of i es] by (auto simp: work_ok_def exec_defs)
  qed
qed

interpretation fake_executors: checked_class fake_exec fake_legal work_ok
  by unfold_locales (metis fake_exec_fine, metis fake_exec_fine outcome.distinct(1))

text \<open>
  In every program that constructs, copies, moves, assigns and destroys executors of a fake context, the two checks of the
  count of outstanding work hold, and the count is the number of tracked executors that have the context; so it is zero when they
  are all gone.
\<close>

theorem FakeExecutor_work_count:
  assumes "program fake_exec fake_legal ops (replicate n None, FakeContext_init :: 'h FakeContext)"
  shows "\<exists>es ctx. run_ops fake_exec ops (replicate n None, FakeContext_init :: 'h FakeContext) = Fine (es, ctx) \<and>
    work_count ctx = int (length (filter tracks es)) \<and> (set es \<subseteq> {None} \<longrightarrow> work_count ctx = 0)"
proof -
  have start: "work_ok (replicate n None, FakeContext_init :: 'h FakeContext)"
    by (simp add: work_ok_def tracked_work_def FakeContext_init_def)
  obtain es ctx where r: "run_ops fake_exec ops (replicate n None, FakeContext_init :: 'h FakeContext) = Fine (es, ctx)" "work_ok (es, ctx)"
    using fake_executors.run_fine [OF start assms] by (metis surj_pair)
  have "work_count ctx = int (length (filter tracks es))"
    using r(2) by (simp add: work_ok_def tracked_work_def)
  moreover have "set es \<subseteq> {None} \<Longrightarrow> filter tracks es = []"
    by (auto simp: filter_empty_conv)
  ultimately show ?thesis
    using r(1) by auto
qed

theorem FakeExecutor_work_count_witness:
  "\<exists>es ctx. run_ops fake_exec [E_context 0 True, E_copy 1 0, E_move 2 1, E_require 3 2 False, E_assign_copy 1 0, E_destroy 0]
       (replicate 4 None, FakeContext_init :: nat FakeContext) = Fine (es, ctx) \<and> work_count ctx = 2"
proof -
  let ?ops = "[E_context 0 True, E_copy 1 0, E_move 2 1, E_require 3 2 False, E_assign_copy 1 0, E_destroy 0]"
  let ?s = "(replicate 4 None, FakeContext_init :: nat FakeContext)"
  have "program fake_exec fake_legal ?ops ?s"
    by code_simp
  then obtain es ctx where r: "run_ops fake_exec ?ops ?s = Fine (es, ctx)" "work_count ctx = int (length (filter tracks es))"
    using FakeExecutor_work_count [of ?ops 4] by blast
  have "run_ops fake_exec ?ops ?s = Fine ([None, Some \<lparr>fe_tracked = True, fe_context = True\<rparr>, Some \<lparr>fe_tracked = True, fe_context = True\<rparr>,
      Some \<lparr>fe_tracked = False, fe_context = True\<rparr>], (FakeContext_init :: nat FakeContext)\<lparr>work_count := 2\<rparr>)"
    by code_simp
  then show ?thesis
    using r by auto
qed

subsection \<open>The time service\<close>

text \<open>
  The timers wait in a heap of Boost, of which the model uses that it gives one of the earliest timers first: \<open>earliest\<close> is the place of that
  timer. \<^verbatim>\<open>schedule_timer\<close> compares with the time and inserts in two critical sections, which are two steps here; the timers of the
  calls that are between the two are in \<open>ts_between\<close>. The result of a step is the list of the handlers that it posts, in order.
\<close>

record 'h timer =
  expires_at :: int
  timer_handler :: 'h

record 'h FakeTimeService =
  fake_time :: int
  timer_queue :: "'h timer list"

definition top_law :: "('h timer list \<Rightarrow> nat) \<Rightarrow> bool" where
  "top_law earliest \<longleftrightarrow> (\<forall>q. q \<noteq> [] \<longrightarrow> earliest q < length q \<and> (\<forall>t \<in> set q. expires_at (q ! earliest q) \<le> expires_at t))"

definition schedule_check :: "'h timer \<Rightarrow> 'h FakeTimeService \<Rightarrow> bool" where
  "schedule_check t s \<longleftrightarrow> expires_at t \<le> fake_time s"

definition schedule_insert :: "'h timer \<Rightarrow> 'h FakeTimeService \<Rightarrow> 'h FakeTimeService" where
  "schedule_insert t s = s\<lparr>timer_queue := timer_queue s @ [t]\<rparr>"

definition remove_nth :: "nat \<Rightarrow> 'a list \<Rightarrow> 'a list" where
  "remove_nth i xs = take i xs @ drop (Suc i) xs"

function expire_loop :: "('h timer list \<Rightarrow> nat) \<Rightarrow> int \<Rightarrow> 'h timer list \<Rightarrow> 'h timer list \<times> 'h timer list" where
  "expire_loop earliest now q =
     (if q \<noteq> [] \<and> earliest q < length q \<and> expires_at (q ! earliest q) \<le> now
      then let (expired, rest) = expire_loop earliest now (remove_nth (earliest q) q) in (q ! earliest q # expired, rest)
      else ([], q))"
  by pat_completeness auto

termination
  by (relation "measure (\<lambda>(_, _, q). length q)") (auto simp: remove_nth_def)

declare expire_loop.simps [simp del]

definition advance_time :: "('h timer list \<Rightarrow> nat) \<Rightarrow> int \<Rightarrow> 'h FakeTimeService \<Rightarrow> 'h list \<times> 'h FakeTimeService" where
  "advance_time earliest delta s =
     (let now = fake_time s + delta; (expired, rest) = expire_loop earliest now (timer_queue s) in
      (map timer_handler expired, s\<lparr>fake_time := now, timer_queue := rest\<rparr>))"

lemma mset_remove_nth: "i < length xs \<Longrightarrow> mset xs = add_mset (xs ! i) (mset (remove_nth i xs))"
  by (metis add_mset_add_single append_take_drop_id Cons_nth_drop_Suc mset.simps(2) mset_append remove_nth_def union_mset_add_mset_right)

lemma expire_loop_spec:
  assumes "top_law earliest"
  shows "expire_loop earliest now q = (expired, rest) \<Longrightarrow>
    mset q = mset expired + mset rest \<and> (\<forall>t \<in> set expired. expires_at t \<le> now) \<and> (\<forall>t \<in> set rest. now < expires_at t) \<and>
    sorted (map expires_at expired)"
proof (induction "length q" arbitrary: q expired rest rule: less_induct)
  case less
  show ?case
  proof (cases "q \<noteq> [] \<and> expires_at (q ! earliest q) \<le> now")
    case True
    then have ear: "earliest q < length q" "\<And>t. t \<in> set q \<Longrightarrow> expires_at (q ! earliest q) \<le> expires_at t"
      using assms by (auto simp: top_law_def)
    let ?r = "remove_nth (earliest q) q"
    obtain e where e: "expire_loop earliest now ?r = (e, rest)" "expired = q ! earliest q # e"
      using less.prems True ear(1) by (subst (asm) expire_loop.simps) (auto split: prod.splits)
    have m: "mset q = add_mset (q ! earliest q) (mset ?r)"
      by (rule mset_remove_nth [OF ear(1)])
    then have len: "length ?r < length q"
      by (metis lessI size_add_mset size_mset)
    have IH: "mset ?r = mset e + mset rest" "\<forall>t \<in> set e. expires_at t \<le> now" "\<forall>t \<in> set rest. now < expires_at t"
      "sorted (map expires_at e)"
      using less.hyps [OF len e(1)] by auto
    have "expires_at (q ! earliest q) \<le> expires_at t" if "t \<in> set e" for t
    proof (rule ear(2))
      have "t \<in># mset q"
        using that m IH(1) by simp
      then show "t \<in> set q"
        by simp
    qed
    then show ?thesis
      using m IH True e(2) by simp
  next
    case False
    have "now < expires_at t" if "t \<in> set q" for t
    proof -
      have "q \<noteq> []"
        using that by auto
      then show ?thesis
        using False assms that unfolding top_law_def by fastforce
    qed
    moreover have "expired = []" "rest = q"
      using less.prems False by (subst (asm) expire_loop.simps, auto)+
    ultimately show ?thesis
      by simp
  qed
qed

text \<open>Histories of the critical sections of any number of threads: the timers given to the service, and the posts with the time at
  which the timer was found to have expired.\<close>

datatype 'h ts_op = T_schedule "'h timer" | T_insert nat | T_advance int

record 'h ts_sys =
  ts_service :: "'h FakeTimeService"
  ts_between :: "'h timer list"

definition ts_init :: "int \<Rightarrow> 'h ts_sys" where
  "ts_init now = \<lparr>ts_service = \<lparr>fake_time = now, timer_queue = []\<rparr>, ts_between = []\<rparr>"

definition ts_exec :: "('h timer list \<Rightarrow> nat) \<Rightarrow> 'h ts_op \<Rightarrow> 'h ts_sys \<Rightarrow> 'h list \<times> 'h ts_sys" where
  "ts_exec earliest op s =
     (case op of
        T_schedule t \<Rightarrow>
          if schedule_check t (ts_service s) then ([timer_handler t], s) else ([], s\<lparr>ts_between := ts_between s @ [t]\<rparr>)
      | T_insert i \<Rightarrow>
          if i < length (ts_between s)
          then ([], s\<lparr>ts_service := schedule_insert (ts_between s ! i) (ts_service s), ts_between := remove_nth i (ts_between s)\<rparr>)
          else ([], s)
      | T_advance delta \<Rightarrow>
          (case advance_time earliest delta (ts_service s) of (posted, service) \<Rightarrow> (posted, s\<lparr>ts_service := service\<rparr>)))"

fun ts_run :: "('h timer list \<Rightarrow> nat) \<Rightarrow> 'h ts_op list \<Rightarrow> 'h ts_sys \<Rightarrow> (int \<times> 'h) list \<times> 'h ts_sys" where
  "ts_run earliest [] s = ([], s)"
| "ts_run earliest (op # ops) s =
     (let (posted, s) = ts_exec earliest op s; (log, s') = ts_run earliest ops s in
      (map (Pair (fake_time (ts_service s))) posted @ log, s'))"

definition scheduled :: "'h ts_op list \<Rightarrow> 'h timer list" where
  "scheduled ops = concat (map (\<lambda>op. case op of T_schedule t \<Rightarrow> [t] | _ \<Rightarrow> []) ops)"

abbreviation all_pending :: "'h ts_sys \<Rightarrow> bool" where
  "all_pending s \<equiv> \<forall>t \<in> set (timer_queue (ts_service s)). fake_time (ts_service s) < expires_at t"

abbreviation waiting :: "'h ts_sys \<Rightarrow> 'h timer multiset" where
  "waiting s \<equiv> mset (timer_queue (ts_service s)) + mset (ts_between s)"

abbreviation due :: "int \<times> 'h \<Rightarrow> 'h timer \<Rightarrow> bool" where
  "due p t \<equiv> snd p = timer_handler t \<and> expires_at t \<le> fst p"

lemma ts_advance_spec:
  assumes "top_law earliest" "ts_exec earliest (T_advance delta) s = (posted, s')"
  shows "all_pending s' \<and> (\<exists>ts. list_all2 due (map (Pair (fake_time (ts_service s'))) posted) ts \<and> waiting s = mset ts + waiting s')"
proof -
  obtain ts rest where l: "expire_loop earliest (fake_time (ts_service s) + delta) (timer_queue (ts_service s)) = (ts, rest)"
    by fastforce
  note spec = expire_loop_spec [OF assms(1) l]
  have "list_all2 due (map (Pair (fake_time (ts_service s) + delta)) (map timer_handler ts)) ts"
    using spec by (simp add: list_all2_conv_all_nth)
  then show ?thesis
    using spec assms(2) l by (auto simp: ts_exec_def advance_time_def Let_def intro!: exI [of _ ts])
qed

lemma ts_exec_spec:
  assumes "top_law earliest" "ts_exec earliest op s = (posted, s')"
  shows "\<exists>ts. list_all2 due (map (Pair (fake_time (ts_service s'))) posted) ts \<and>
    mset (scheduled [op]) + waiting s = mset ts + waiting s'"
proof (cases op)
  case (T_schedule t)
  then show ?thesis
    using assms(2)
    by (cases "schedule_check t (ts_service s)")
      (auto simp: ts_exec_def schedule_check_def scheduled_def intro!: exI [of _ "[]"] exI [of _ "[t]"])
next
  case (T_insert i)
  show ?thesis
  proof (cases "i < length (ts_between s)")
    case True
    then show ?thesis
      using assms(2) T_insert mset_remove_nth [OF True]
      by (auto simp: ts_exec_def schedule_insert_def scheduled_def)
  qed (use assms(2) T_insert in \<open>auto simp: ts_exec_def scheduled_def\<close>)
next
  case (T_advance delta)
  then show ?thesis using ts_advance_spec [OF assms(1)] assms(2) by (simp add: scheduled_def)
qed

lemma ts_run_spec:
  assumes "top_law earliest"
  shows "ts_run earliest ops s = (log, s') \<Longrightarrow>
    \<exists>ts. list_all2 due log ts \<and> mset (scheduled ops) + waiting s = mset ts + waiting s'"
proof (induction ops arbitrary: s log)
  case Nil
  then show ?case by (auto simp: scheduled_def)
next
  case (Cons op ops)
  obtain posted s1 log1 where e: "ts_exec earliest op s = (posted, s1)" "ts_run earliest ops s1 = (log1, s')"
    "log = map (Pair (fake_time (ts_service s1))) posted @ log1"
    using Cons.prems by (auto split: prod.splits)
  obtain ts where ts: "list_all2 due (map (Pair (fake_time (ts_service s1))) posted) ts"
    "mset (scheduled [op]) + waiting s = mset ts + waiting s1"
    using ts_exec_spec [OF assms e(1)] by blast
  obtain us where us: "list_all2 due log1 us" "mset (scheduled ops) + waiting s1 = mset us + waiting s'"
    using Cons.IH [OF e(2)] by blast
  have "mset (scheduled (op # ops)) + waiting s = mset (scheduled ops) + (mset (scheduled [op]) + waiting s)"
    by (simp add: scheduled_def ac_simps)
  also have "\<dots> = mset ts + (mset (scheduled ops) + waiting s1)"
    unfolding ts(2) by (simp add: ac_simps)
  also have "\<dots> = mset (ts @ us) + waiting s'"
    unfolding us(2) by (simp add: ac_simps)
  finally show ?case
    using us(1) ts(1) e(3) by (blast intro: list_all2_appendI)
qed

lemma ts_run_snoc: "ts_run earliest (ops @ [op]) s = (log, s') \<Longrightarrow>
    \<exists>log1 s1 posted. ts_run earliest ops s = (log1, s1) \<and> ts_exec earliest op s1 = (posted, s')"
proof (induction ops arbitrary: s log)
  case (Cons a ops)
  obtain posted s1 log1 where "ts_exec earliest a s = (posted, s1)" "ts_run earliest (ops @ [op]) s1 = (log1, s')"
    using Cons.prems by (auto split: prod.splits)
  with Cons.IH [of s1 log1] show ?case by auto
qed (auto split: prod.splits)

text \<open>
  C34 (functional). Over every interleaving of the critical sections of threads that give timers to the fake time service and advance its
  time, from a service without timers: each timer has been posted once, after it was found to have expired, or it is in the queue, or its
  \<^verbatim>\<open>schedule_timer\<close> has yet to insert it, and nothing else is posted; and after each advance of the time, no timer in the queue has
  expired (one that is inserted later may have, until the next advance). This holds whatever earliest timer the heap gives first.
\<close>

theorem FakeTimeService_posts_timers:
  assumes "top_law earliest" and "ts_run earliest ops (ts_init now) = (log, s)"
  shows "(\<exists>ts. list_all2 (\<lambda>p t. snd p = timer_handler t \<and> expires_at t \<le> fst p) log ts \<and>
      mset (scheduled ops) = mset ts + mset (timer_queue (ts_service s)) + mset (ts_between s)) \<and>
    (\<forall>earlier delta. ops = earlier @ [T_advance delta] \<longrightarrow>
      (\<forall>t \<in> set (timer_queue (ts_service s)). fake_time (ts_service s) < expires_at t))"
proof (intro conjI allI impI)
  show "\<exists>ts. list_all2 due log ts \<and> mset (scheduled ops) = mset ts + mset (timer_queue (ts_service s)) + mset (ts_between s)"
    using ts_run_spec [OF assms] by (simp add: ts_init_def add.assoc)
next
  fix earlier delta
  assume "ops = earlier @ [T_advance delta]"
  with ts_run_snoc assms(2) obtain s1 posted where "ts_exec earliest (T_advance delta) s1 = (posted, s)" by blast
  from ts_advance_spec [OF assms(1) this] show "all_pending s" by blast
qed

text \<open>A call of \<^verbatim>\<open>schedule_timer\<close> that is not interrupted leaves no expired timer in the queue.\<close>

lemma schedule_uninterrupted:
  assumes "all_pending s" and "ts_run earliest [T_schedule t, T_insert (length (ts_between s))] s = (log, s')"
  shows "all_pending s'"
  using assms
  by (cases "schedule_check t (ts_service s)") (auto simp: ts_exec_def schedule_insert_def schedule_check_def Let_def)

definition first_earliest :: "'h timer list \<Rightarrow> nat" where
  "first_earliest q = length (takeWhile (\<lambda>t. \<exists>u \<in> set q. expires_at u < expires_at t) q)"

lemma takeWhile_shorter: "x \<in> set xs \<Longrightarrow> \<not> P x \<Longrightarrow> length (takeWhile P xs) < length xs"
  by (induction xs) auto

lemma first_earliest_law: "top_law first_earliest"
  unfolding top_law_def
proof (intro allI impI conjI)
  fix q :: "'h timer list"
  assume q: "q \<noteq> []"
  let ?P = "\<lambda>t. \<exists>u \<in> set q. expires_at u < expires_at t"
  have "Min (expires_at ` set q) \<in> expires_at ` set q"
    using q by (intro Min_in) auto
  then obtain m where "m \<in> set q" "expires_at m = Min (expires_at ` set q)"
    by auto
  then have "m \<in> set q" "\<not> ?P m"
    by (auto simp: not_less)
  then show less: "first_earliest q < length q"
    unfolding first_earliest_def by (intro takeWhile_shorter) blast+
  then have "\<not> ?P (q ! first_earliest q)"
    unfolding first_earliest_def by (rule nth_length_takeWhile)
  then show "\<forall>t \<in> set q. expires_at (q ! first_earliest q) \<le> expires_at t"
    by (auto simp: not_less)
qed

theorem FakeTimeService_posts_timers_witness:
  "\<exists>ts. list_all2 (\<lambda>p t. snd p = timer_handler t \<and> expires_at t \<le> fst p) [(1, ''b''), (7, ''c''), (7, ''a'')] ts \<and>
     mset [\<lparr>expires_at = 6, timer_handler = ''a''\<rparr>, \<lparr>expires_at = 1, timer_handler = ''b''\<rparr>,
       \<lparr>expires_at = 4, timer_handler = ''c''\<rparr>, \<lparr>expires_at = 9, timer_handler = ''d''\<rparr>] =
     mset ts + mset [] + mset [\<lparr>expires_at = 9, timer_handler = ''d''\<rparr>]"
proof -
  let ?ops = "[T_schedule \<lparr>expires_at = 6, timer_handler = ''a''\<rparr>, T_schedule \<lparr>expires_at = 1, timer_handler = ''b''\<rparr>,
     T_schedule \<lparr>expires_at = 4, timer_handler = ''c''\<rparr>, T_insert 0, T_insert 0, T_schedule \<lparr>expires_at = 9, timer_handler = ''d''\<rparr>,
     T_advance 6]"
  have "ts_run first_earliest ?ops (ts_init 1) =
      ([(1, ''b''), (7, ''c''), (7, ''a'')],
       \<lparr>ts_service = \<lparr>fake_time = 7, timer_queue = []\<rparr>, ts_between = [\<lparr>expires_at = 9, timer_handler = ''d''\<rparr>]\<rparr>)"
    by code_simp
  from FakeTimeService_posts_timers [OF first_earliest_law this] show ?thesis
    by (simp add: scheduled_def)
qed

text \<open>The time is read and the timer inserted in two critical sections: when the time advances between them, the timer has expired but
  waits for the next advance.\<close>

lemma schedule_race_late:
  "ts_run first_earliest [T_schedule \<lparr>expires_at = 3, timer_handler = ''a''\<rparr>, T_advance 5, T_insert 0] (ts_init 0) =
     ([], \<lparr>ts_service = \<lparr>fake_time = 5, timer_queue = [\<lparr>expires_at = 3, timer_handler = ''a''\<rparr>]\<rparr>, ts_between = []\<rparr>)"
  by code_simp

text \<open>
  \<^verbatim>\<open>poll()\<close> of the fake context returns when every handler gives the context only handlers of a lower rank: no handler is ready
  any more, the result is the number of handlers that ran, and each handler that was ever pushed has been popped.
\<close>

theorem FakeContext_poll_returns:
  assumes "\<And>h w h'. h' \<in> set (snd (run h w)) \<Longrightarrow> rank h' < (rank h :: nat)"
    and "push_ready_count ctx - pop_ready_count ctx = int (length (ready_to_run ctx))"
  shows "\<exists>n ctx' w'. poll run (ctx, w) = Some (n, ctx', w') \<and> ready_to_run ctx' = [] \<and>
    push_ready_count ctx' = pop_ready_count ctx' \<and> pop_ready_count ctx' = pop_ready_count ctx + int n \<and> length (ready_to_run ctx) \<le> n"
proof -
  obtain n ctx' w' where p: "poll_loop run 0 (ctx, w) = Some (0 + n, ctx', w')" "ready_to_run ctx' = []" "context_ok ctx'"
    "pop_ready_count ctx' = pop_ready_count ctx + int n" "push_ready_count ctx \<le> push_ready_count ctx'"
    using poll_loop_returns [where run = run and rank = rank and ctx = ctx and cnt = 0 and w = w] assms(1)
      assms(2) [folded context_ok_def] by blast
  then show ?thesis
    using assms(2) by (auto simp: poll_def context_ok_def)
qed

definition countdown :: "nat \<Rightarrow> nat list \<Rightarrow> nat list \<times> nat list" where
  "countdown h w = (w @ [h], if h = 0 then [] else [h - 1, h div 2])"

theorem FakeContext_poll_returns_witness:
  "\<exists>n ctx' w'. poll countdown (push_ready_handler (Some 1) (push_ready_handler (Some 1) FakeContext_init), []) = Some (n, ctx', w') \<and>
     ready_to_run ctx' = [] \<and> push_ready_count ctx' = pop_ready_count ctx' \<and> 2 \<le> n"
proof -
  have run: "h' < h" if "h' \<in> set (snd (countdown h w))" for h w h'
    using that by (auto simp: countdown_def split: if_splits)
  show ?thesis
    using FakeContext_poll_returns [of countdown "\<lambda>h. h" "push_ready_handler (Some 1) (push_ready_handler (Some 1) FakeContext_init)" "[]"] run
    by (force simp: push_ready_handler_def FakeContext_init_def)
qed

end
