(* ===== verification/Batt_Metrics.thy ===== *)
theory Batt_Metrics
  imports Batt_Prelude
begin

unbundle bit_operations_syntax

section \<open>Metrics\<close>

text \<open>
  Models \<^verbatim>\<open>src/src/batteries/metrics/\<close>: the collectors at \<^verbatim>\<open>u64\<close>, whose updates by several threads interleave at every access to an
  atomic variable, the registry of exporters with its labels, and the columns of the CSV formatter. The clock is the environment.
\<close>

subsection \<open>StatsMetric\<close>

record StatsMetric =
  stats_count :: u64
  stats_total :: u64
  stats_max :: u64
  stats_min :: u64

definition StatsMetric_init :: StatsMetric where
  "StatsMetric_init = \<lparr>stats_count = 0, stats_total = 0, stats_max = 0, stats_min = - 1\<rparr>"

definition StatsMetric_of :: "u64 \<Rightarrow> StatsMetric" where
  "StatsMetric_of v = \<lparr>stats_count = 1, stats_total = v, stats_max = v, stats_min = v\<rparr>"

definition StatsMetric_reset :: "StatsMetric \<Rightarrow> StatsMetric" where
  "StatsMetric_reset m = m\<lparr>stats_count := 0, stats_total := 0, stats_max := 0, stats_min := - 1\<rparr>"

text \<open>The place of a thread in \<^verbatim>\<open>update(sample)\<close>, with the loops of \<^verbatim>\<open>clamp_min\<close> on the maximum and of \<^verbatim>\<open>clamp_max\<close> on the minimum.\<close>

datatype stats_pc =
    U_Count u64
  | U_Total u64
  | U_Max_load u64
  | U_Max_cas u64 u64
  | U_Min_load u64
  | U_Min_cas u64 u64
  | U_Done u64

definition clamp_min_test :: "u64 \<Rightarrow> u64 \<Rightarrow> stats_pc" where
  "clamp_min_test observed x = (if observed < x then U_Max_cas x observed else U_Min_load x)"

definition clamp_max_test :: "u64 \<Rightarrow> u64 \<Rightarrow> stats_pc" where
  "clamp_max_test observed x = (if observed > x then U_Min_cas x observed else U_Done x)"

text \<open>A weak compare-and-exchange may fail although the values are equal (\<open>spurious\<close>); when it fails it reads the value.\<close>

definition stats_step :: "bool \<Rightarrow> stats_pc \<Rightarrow> StatsMetric \<Rightarrow> stats_pc \<times> StatsMetric" where
  "stats_step spurious pc m =
     (case pc of
        U_Count x \<Rightarrow> (U_Total x, m\<lparr>stats_count := stats_count m + 1\<rparr>)
      | U_Total x \<Rightarrow> (U_Max_load x, m\<lparr>stats_total := stats_total m + x\<rparr>)
      | U_Max_load x \<Rightarrow> (clamp_min_test (stats_max m) x, m)
      | U_Max_cas x observed \<Rightarrow>
          if stats_max m = observed \<and> \<not> spurious then (U_Min_load x, m\<lparr>stats_max := x\<rparr>)
          else (clamp_min_test (stats_max m) x, m)
      | U_Min_load x \<Rightarrow> (clamp_max_test (stats_min m) x, m)
      | U_Min_cas x observed \<Rightarrow>
          if stats_min m = observed \<and> \<not> spurious then (U_Done x, m\<lparr>stats_min := x\<rparr>)
          else (clamp_max_test (stats_min m) x, m)
      | U_Done x \<Rightarrow> (U_Done x, m))"

fun is_U_Done :: "stats_pc \<Rightarrow> bool" where
  "is_U_Done (U_Done _) = True"
| "is_U_Done _ = False"

inductive stats_move :: "stats_pc list \<times> StatsMetric \<Rightarrow> stats_pc list \<times> StatsMetric \<Rightarrow> bool" where
  "i < length pcs \<Longrightarrow> \<not> is_U_Done (pcs ! i) \<Longrightarrow> stats_step spurious (pcs ! i) m = (pc, m') \<Longrightarrow>
     stats_move (pcs, m) (pcs[i := pc], m')"

subsection \<open>Concurrent updates\<close>

fun sample_of :: "stats_pc \<Rightarrow> u64" where
  "sample_of (U_Count x) = x"
| "sample_of (U_Total x) = x"
| "sample_of (U_Max_load x) = x"
| "sample_of (U_Max_cas x _) = x"
| "sample_of (U_Min_load x) = x"
| "sample_of (U_Min_cas x _) = x"
| "sample_of (U_Done x) = x"

fun counted :: "stats_pc \<Rightarrow> bool" where
  "counted (U_Count _) = False"
| "counted _ = True"

fun totalled :: "stats_pc \<Rightarrow> bool" where
  "totalled (U_Count _) = False"
| "totalled (U_Total _) = False"
| "totalled _ = True"

fun maxed :: "stats_pc \<Rightarrow> bool" where
  "maxed (U_Min_load _) = True"
| "maxed (U_Min_cas _ _) = True"
| "maxed (U_Done _) = True"
| "maxed _ = False"

definition sum_over :: "(stats_pc \<Rightarrow> bool) \<Rightarrow> (stats_pc \<Rightarrow> u64) \<Rightarrow> stats_pc list \<Rightarrow> u64" where
  "sum_over P f pcs = sum_list (map (\<lambda>pc. if P pc then f pc else 0) pcs)"

text \<open>The maximum is the largest sample that has reached it, and no thread has observed more; the minimum likewise.\<close>

definition pc_bound :: "StatsMetric \<Rightarrow> stats_pc \<Rightarrow> bool" where
  "pc_bound m pc \<longleftrightarrow> (maxed pc \<longrightarrow> sample_of pc \<le> stats_max m) \<and> (is_U_Done pc \<longrightarrow> stats_min m \<le> sample_of pc) \<and>
     (\<forall>x obs. pc = U_Max_cas x obs \<longrightarrow> obs < x) \<and> (\<forall>x obs. pc = U_Min_cas x obs \<longrightarrow> x < obs)"

definition stats_inv :: "stats_pc list \<times> StatsMetric \<Rightarrow> bool" where
  "stats_inv = (\<lambda>(pcs, m).
     stats_count m = sum_over counted (\<lambda>_. 1) pcs \<and> stats_total m = sum_over totalled sample_of pcs \<and>
     (\<forall>pc \<in> set pcs. pc_bound m pc) \<and>
     (stats_max m = 0 \<or> (\<exists>pc \<in> set pcs. maxed pc \<and> sample_of pc = stats_max m)) \<and>
     (stats_min m = - 1 \<or> (\<exists>pc \<in> set pcs. is_U_Done pc \<and> sample_of pc = stats_min m)))"

lemma sum_over_update:
  "i < length pcs \<Longrightarrow> sum_over P f (pcs[i := pc]) = sum_over P f pcs + (if P pc then f pc else 0) - (if P (pcs ! i) then f (pcs ! i) else 0)"
proof (induction pcs arbitrary: i)
  case (Cons p pcs)
  then show ?case
    by (cases i) (auto simp: sum_over_def)
qed simp

lemma stats_step_mono:
  assumes "stats_step spurious pc m = (pc', m')" "pc_bound m pc"
  shows "stats_max m \<le> stats_max m' \<and> stats_min m' \<le> stats_min m \<and> pc_bound m' pc' \<and> sample_of pc' = sample_of pc \<and>
    (maxed pc \<longrightarrow> maxed pc') \<and> (\<not> is_U_Done pc \<longrightarrow> 
    stats_count m' = stats_count m + (if counted pc' then 1 else 0) - (if counted pc then 1 else 0) \<and>
    stats_total m' = stats_total m + (if totalled pc' then sample_of pc' else 0) - (if totalled pc then sample_of pc else 0)) \<and>
    (stats_max m' = stats_max m \<or> maxed pc' \<and> stats_max m' = sample_of pc') \<and>
    (stats_min m' = stats_min m \<or> is_U_Done pc' \<and> stats_min m' = sample_of pc')"
  using assms
  by (cases pc) (auto simp: stats_step_def pc_bound_def clamp_min_test_def clamp_max_test_def not_less split: if_splits)

lemma pc_bound_mono:
  "pc_bound m pc \<Longrightarrow> stats_max m \<le> stats_max m' \<Longrightarrow> stats_min m' \<le> stats_min m \<Longrightarrow> pc_bound m' pc"
  by (auto simp: pc_bound_def)

lemma exists_update:
  assumes "\<exists>p \<in> set ps. Q p" "i < length ps" "Q (ps ! i) \<Longrightarrow> Q p'"
  shows "\<exists>p \<in> set (ps[i := p']). Q p"
proof -
  obtain j where "j < length ps" "Q (ps ! j)"
    using assms(1) by (metis in_set_conv_nth)
  then have "Q (ps[i := p'] ! j)"
    using assms(2,3) by (cases "i = j") auto
  then show ?thesis
    using \<open>j < length ps\<close> by (metis length_list_update nth_mem)
qed

lemma stats_move_inv:
  assumes "stats_inv (pcs, m)" "i < length pcs" "\<not> is_U_Done (pcs ! i)" "stats_step spurious (pcs ! i) m = (pc, m')"
  shows "stats_inv (pcs[i := pc], m')"
proof -
  have b: "\<forall>pc \<in> set pcs. pc_bound m pc" and cnt: "stats_count m = sum_over counted (\<lambda>_. 1) pcs"
    and tot: "stats_total m = sum_over totalled sample_of pcs"
    and mx: "stats_max m = 0 \<or> (\<exists>pc \<in> set pcs. maxed pc \<and> sample_of pc = stats_max m)"
    and mn: "stats_min m = - 1 \<or> (\<exists>pc \<in> set pcs. is_U_Done pc \<and> sample_of pc = stats_min m)"
    using assms(1) by (auto simp: stats_inv_def)
  note st = stats_step_mono [OF assms(4) bspec [OF b nth_mem [OF assms(2)]]]
  have "\<forall>p \<in> set (pcs[i := pc]). pc_bound m' p"
    using b st pc_bound_mono [of m _ m'] set_update_subset_insert [of pcs i pc] by blast
  moreover have "stats_count m' = sum_over counted (\<lambda>_. 1) (pcs[i := pc])" "stats_total m' = sum_over totalled sample_of (pcs[i := pc])"
    using st assms(2,3) cnt tot by (simp_all add: sum_over_update)
  moreover have "pc \<in> set (pcs[i := pc])"
    using assms(2) by (simp add: set_update_memI)
  moreover have "stats_max m' = 0 \<or> (\<exists>pc \<in> set (pcs[i := pc]). maxed pc \<and> sample_of pc = stats_max m')"
  proof (cases "stats_max m' = stats_max m")
    case True
    then show ?thesis
      using mx exists_update [OF _ assms(2), of "\<lambda>p. maxed p \<and> sample_of p = stats_max m" pc] st by auto
  next
    case False
    then show ?thesis
      using st calculation(4) by metis
  qed
  moreover have "stats_min m' = - 1 \<or> (\<exists>pc \<in> set (pcs[i := pc]). is_U_Done pc \<and> sample_of pc = stats_min m')"
  proof (cases "stats_min m' = stats_min m")
    case True
    then show ?thesis
      using mn exists_update [OF _ assms(2), of "\<lambda>p. is_U_Done p \<and> sample_of p = stats_min m" pc] assms(3) by auto
  next
    case False
    then show ?thesis
      using st calculation(4) by metis
  qed
  ultimately show ?thesis
    by (simp add: stats_inv_def)
qed

lemma stats_start_inv: "stats_inv (map U_Count xs, StatsMetric_init)"
  by (auto simp: stats_inv_def StatsMetric_init_def sum_over_def pc_bound_def comp_def)

interpretation stats: invariant_system "(map U_Count xs, StatsMetric_init)" stats_move
  "\<lambda>s. stats_inv s \<and> map sample_of (fst s) = xs" for xs
proof
  show "stats_inv (map U_Count xs, StatsMetric_init) \<and> map sample_of (fst (map U_Count xs, StatsMetric_init)) = xs"
    by (simp add: stats_start_inv comp_def)
next
  fix s s'
  assume s: "stats_inv s \<and> map sample_of (fst s) = xs" "stats_move s s'"
  from s(2) show "stats_inv s' \<and> map sample_of (fst s') = xs"
  proof cases
    case (1 i pcs spurious m pc m')
    have "sample_of pc = sample_of (pcs ! i)"
      using 1 by (cases "pcs ! i") (auto simp: stats_step_def clamp_min_test_def clamp_max_test_def split: if_splits)
    then have "map sample_of (pcs[i := pc]) = map sample_of pcs"
      using 1(3) by (simp add: map_update list_update_same_conv)
    then show ?thesis
      using s(1) 1 stats_move_inv by auto
  qed
qed

text \<open>
  C30 (functional). When any number of threads update a metric at once, in every interleaving and with any spurious failures of the
  compare-and-exchange: once all of them are done, the metric has the number of the samples, their sum, the largest and the smallest of
  them (count and sum in 64-bit arithmetic); and before that its maximum is always a sample or the initial value, and no less than any
  sample whose update is done.
\<close>

theorem StatsMetric_concurrent:
  assumes "stats_move\<^sup>*\<^sup>* (map U_Count xs, StatsMetric_init) (pcs, m)" and "xs \<noteq> []"
  shows "stats_max m \<in> insert 0 (set xs) \<and> stats_min m \<in> insert (- 1) (set xs) \<and>
    (\<forall>pc \<in> set pcs. is_U_Done pc \<longrightarrow> stats_min m \<le> sample_of pc \<and> sample_of pc \<le> stats_max m) \<and>
    ((\<forall>pc \<in> set pcs. is_U_Done pc) \<longrightarrow>
      m = \<lparr>stats_count = of_nat (length xs), stats_total = sum_list xs, stats_max = Max (set xs), stats_min = Min (set xs)\<rparr>)"
proof -
  have inv: "stats_inv (pcs, m)" and xs: "map sample_of pcs = xs"
    using stats.execution_invar [OF assms(1)] by auto
  have set: "set xs = sample_of ` set pcs" and len: "length pcs = length xs"
    using xs by auto
  have mx: "stats_max m \<in> insert 0 (set xs)" and mn: "stats_min m \<in> insert (- 1) (set xs)"
    using inv unfolding set stats_inv_def by (simp, metis image_eqI)+
  have b: "pc_bound m pc" if "pc \<in> set pcs" for pc
    using inv that by (auto simp: stats_inv_def)
  have maxed: "maxed pc" if "is_U_Done pc" for pc
    using that by (cases pc) auto
  have done1: "stats_min m \<le> sample_of pc \<and> sample_of pc \<le> stats_max m" if "pc \<in> set pcs" "is_U_Done pc" for pc
    using b [OF that(1)] that(2) maxed by (simp add: pc_bound_def)
  moreover have "m = \<lparr>stats_count = of_nat (length xs), stats_total = sum_list xs, stats_max = Max (set xs), stats_min = Min (set xs)\<rparr>"
    if all: "\<forall>pc \<in> set pcs. is_U_Done pc"
  proof -
    have bounds: "stats_min m \<le> x \<and> x \<le> stats_max m" if "x \<in> set xs" for x
      using that done1 all unfolding set by auto
    obtain x where x: "x \<in> set xs"
      using assms(2) by (cases xs) auto
    have "stats_max m \<in> set xs" "stats_min m \<in> set xs"
      using mx mn x bounds [OF x] by (auto simp: word_order.extremum_unique)
    then have "stats_max m = Max (set xs)" "stats_min m = Min (set xs)"
      using bounds by (auto intro!: Max_eqI [symmetric] Min_eqI [symmetric])
    moreover have "counted pc" "totalled pc" if "pc \<in> set pcs" for pc
      using all that by (cases pc; force)+
    then have "stats_count m = of_nat (length xs)" "stats_total m = sum_list xs"
      using inv len xs by (auto simp: stats_inv_def sum_over_def sum_list_triv cong: map_cong)
    ultimately show ?thesis
      by simp
  qed
  ultimately show ?thesis
    using mx mn by blast
qed

theorem StatsMetric_concurrent_witness:
  "stats_move\<^sup>*\<^sup>* (map U_Count [7], StatsMetric_init) ([U_Done 7], \<lparr>stats_count = 1, stats_total = 7, stats_max = 7, stats_min = 7\<rparr>) \<and>
   Max (set [7 :: u64]) = 7"
proof -
  let ?m = "\<lambda>c t x n. \<lparr>stats_count = c, stats_total = t, stats_max = x, stats_min = n\<rparr> :: StatsMetric"
  have step: "stats_move ([pc], m) ([pc'], m')" if "\<not> is_U_Done pc" "stats_step False pc m = (pc', m')" for pc m pc' m'
    using stats_move.intros [of 0 "[pc]" False m pc' m'] that by simp
  note rr = converse_rtranclp_into_rtranclp [where r = stats_move]
  have 1: "stats_move ([U_Count 7], StatsMetric_init) ([U_Total 7], ?m 1 0 0 (- 1))"
    by (rule step) (simp_all add: stats_step_def StatsMetric_init_def)
  have 2: "stats_move ([U_Total 7], ?m 1 0 0 (- 1)) ([U_Max_load 7], ?m 1 7 0 (- 1))"
    by (rule step) (simp_all add: stats_step_def)
  have 3: "stats_move ([U_Max_load 7], ?m 1 7 0 (- 1)) ([U_Max_cas 7 0], ?m 1 7 0 (- 1))"
    by (rule step) (simp_all add: stats_step_def clamp_min_test_def)
  have 4: "stats_move ([U_Max_cas 7 0], ?m 1 7 0 (- 1)) ([U_Min_load 7], ?m 1 7 7 (- 1))"
    by (rule step) (simp_all add: stats_step_def)
  have 5: "stats_move ([U_Min_load 7], ?m 1 7 7 (- 1)) ([U_Min_cas 7 (- 1)], ?m 1 7 7 (- 1))"
    by (rule step) (simp_all add: stats_step_def clamp_max_test_def)
  have 6: "stats_move ([U_Min_cas 7 (- 1)], ?m 1 7 7 (- 1)) ([U_Done 7], ?m 1 7 7 7)"
    by (rule step) (simp_all add: stats_step_def)
  have run: "stats_move\<^sup>*\<^sup>* (map U_Count [7], StatsMetric_init) ([U_Done 7], ?m 1 7 7 7)"
    unfolding list.map(1) list.map(2)
    by (rule rr, rule 1, rule rr, rule 2, rule rr, rule 3, rule rr, rule 4, rule rr, rule 5, rule rr, rule 6, rule rtranclp.rtrancl_refl)
  have "?m 1 7 7 7 = ?m (of_nat (length [7 :: u64])) (sum_list [7]) (Max (set [7])) (Min (set [7]))"
    by (rule StatsMetric_concurrent [OF run, THEN conjunct2, THEN conjunct2, THEN conjunct2, THEN mp]) simp_all
  then show ?thesis
    using run by (simp only: StatsMetric.ext_inject)
qed

subsection \<open>The registry\<close>

text \<open>
  An exporter has a name, reads the value of its metric, and carries labels. \<open>srt\<close> is \<^verbatim>\<open>std::sort\<close> by key, which may order equal keys
  in any way. The vector of labels is moved into the first exporter that gets it, and is empty from then on.
\<close>

type_synonym ('k, 'l) labels = "('k \<times> 'l) list"

record ('n, 'k, 'l, 'w, 'v) exporter =
  ex_name :: 'n
  ex_value :: "'w \<Rightarrow> 'v"
  ex_labels :: "('k, 'l) labels"

type_synonym ('o, 'n, 'k, 'l, 'w, 'v) metric_registry = "('o \<times> ('n, 'k, 'l, 'w, 'v) exporter) list"

lemma dropWhile_shorter [termination_simp]: "length (dropWhile P xs) < Suc (length xs)"
  by (simp add: less_Suc_eq_le length_dropWhile_le)

fun unique_by :: "('a \<Rightarrow> 'a \<Rightarrow> bool) \<Rightarrow> 'a list \<Rightarrow> 'a list" where
  "unique_by eq [] = []"
| "unique_by eq (x # xs) = x # unique_by eq (dropWhile (eq x) xs)"

definition same_key :: "'k \<times> 'l \<Rightarrow> 'k \<times> 'l \<Rightarrow> bool" where
  "same_key a b \<longleftrightarrow> fst a = fst b"

definition normalize_labels :: "(('k, 'l) labels \<Rightarrow> ('k, 'l) labels) \<Rightarrow> ('k, 'l) labels \<Rightarrow> ('k, 'l) labels" where
  "normalize_labels srt labels = unique_by same_key (srt labels)"

definition add_exporter ::
  "(('k, 'l) labels \<Rightarrow> ('k, 'l) labels) \<Rightarrow> 'o \<Rightarrow> 'n \<Rightarrow> ('w \<Rightarrow> 'v) \<Rightarrow>
   ('k, 'l) labels \<times> ('o, 'n, 'k, 'l, 'w, 'v) metric_registry \<Rightarrow> ('k, 'l) labels \<times> ('o, 'n, 'k, 'l, 'w, 'v) metric_registry" where
  "add_exporter srt x name get = (\<lambda>(labels, reg).
     ([], reg @ [(x, \<lparr>ex_name = name, ex_value = get, ex_labels = normalize_labels srt labels\<rparr>)]))"

text \<open>\<^verbatim>\<open>add\<close> of a counter or gauge, of a latency metric and of statistics: \<open>parts\<close> are the names and values that the overload exports, in
  order.\<close>

fun add_parts where
  "add_parts srt x [] s = s"
| "add_parts srt x ((name, get) # parts) s = add_parts srt x parts (add_exporter srt x name get s)"

definition registry_add where
  "registry_add srt x parts labels reg = snd (add_parts srt x parts (labels, reg))"

definition CountMetric_parts :: "string \<Rightarrow> ('w \<Rightarrow> 'v) \<Rightarrow> (string \<times> ('w \<Rightarrow> 'v)) list" where
  "CountMetric_parts name get = [(name, get)]"

definition LatencyMetric_parts :: "string \<Rightarrow> ('w \<Rightarrow> 'v) \<Rightarrow> ('w \<Rightarrow> 'v) \<Rightarrow> (string \<times> ('w \<Rightarrow> 'v)) list" where
  "LatencyMetric_parts name total_usec cnt = [(name @ ''_total_usec'', total_usec), (name @ ''_count'', cnt)]"

definition GaugeMetric_parts :: "string \<Rightarrow> ('w \<Rightarrow> 'v) \<Rightarrow> (string \<times> ('w \<Rightarrow> 'v)) list" where
  "GaugeMetric_parts name get = [(name @ ''_gauge'', get)]"

definition StatsMetric_parts :: "string \<Rightarrow> ('w \<Rightarrow> 'v) \<Rightarrow> ('w \<Rightarrow> 'v) \<Rightarrow> ('w \<Rightarrow> 'v) \<Rightarrow> ('w \<Rightarrow> 'v) \<Rightarrow> (string \<times> ('w \<Rightarrow> 'v)) list" where
  "StatsMetric_parts name cnt tot mx mn = [(name @ ''_count'', cnt), (name @ ''_total'', tot), (name @ ''_max'', mx), (name @ ''_min'', mn)]"

definition Watch_parts :: "string \<Rightarrow> ('w \<Rightarrow> 'v) \<Rightarrow> (string \<times> ('w \<Rightarrow> 'v)) list" where
  "Watch_parts name get = [(name, get)]"

definition QueueBase_parts :: "string \<Rightarrow> ('w \<Rightarrow> 'v) \<Rightarrow> (string \<times> ('w \<Rightarrow> 'v)) list" where
  "QueueBase_parts name depth = [(name @ ''_queue_depth'', depth)]"

definition DerivedMetric_parts :: "string \<Rightarrow> ('w \<Rightarrow> 'v) \<Rightarrow> (string \<times> ('w \<Rightarrow> 'v)) list" where
  "DerivedMetric_parts name get = [(name, get)]"

definition variable_parts :: "string \<Rightarrow> ('w \<Rightarrow> 'v) \<Rightarrow> (string \<times> ('w \<Rightarrow> 'v)) list" where
  "variable_parts name get = [(name, get)]"

definition registry_remove :: "'o \<Rightarrow> ('o, 'n, 'k, 'l, 'w, 'v) metric_registry \<Rightarrow> ('o, 'n, 'k, 'l, 'w, 'v) metric_registry" where
  "registry_remove x reg = filter (\<lambda>(y, _). y \<noteq> x) reg"

text \<open>The multimap is visited in any order: \<open>ord\<close> is the order of the iteration.\<close>

definition read_all ::
  "(('o, 'n, 'k, 'l, 'w, 'v) metric_registry \<Rightarrow> ('o, 'n, 'k, 'l, 'w, 'v) metric_registry) \<Rightarrow> 'w \<Rightarrow>
   ('o, 'n, 'k, 'l, 'w, 'v) metric_registry \<Rightarrow> ('n \<times> 'v \<times> ('k, 'l) labels) list" where
  "read_all ord w reg = map (\<lambda>(_, e). (ex_name e, ex_value e w, ex_labels e)) (ord reg)"

definition order_law :: "('a list \<Rightarrow> 'a list) \<Rightarrow> bool" where
  "order_law ord \<longleftrightarrow> (\<forall>xs. mset (ord xs) = mset xs)"

definition sort_law :: "(('k :: linorder, 'l) labels \<Rightarrow> ('k, 'l) labels) \<Rightarrow> bool" where
  "sort_law srt \<longleftrightarrow> (\<forall>xs. mset (srt xs) = mset xs \<and> sorted (map fst (srt xs)))"

lemma unique_by_sorted:
  "sorted (map fst xs) \<Longrightarrow> sorted_wrt (<) (map fst (unique_by same_key xs)) \<and>
     set (unique_by same_key xs) \<subseteq> set xs \<and> fst ` set (unique_by same_key xs) = fst ` set xs"
  for xs :: "('k :: linorder \<times> 'l) list"
proof (induction "same_key :: 'k \<times> 'l \<Rightarrow> 'k \<times> 'l \<Rightarrow> bool" xs rule: unique_by.induct)
  case (2 x xs)
  let ?d = "dropWhile (same_key x) xs"
  have d: "sorted (map fst ?d)" "set ?d \<subseteq> set xs"
    using 2(2) sorted_dropWhile [of "map fst xs" "\<lambda>k. fst x = k"] by (auto simp: dropWhile_map comp_def same_key_def [abs_def] dest: set_dropWhileD)
  note IH = 2(1) [OF d(1)]
  have lt: "fst x < fst y" if "y \<in> set ?d" for y
  proof -
    have "?d \<noteq> []"
      using that by (metis empty_iff list.set(1))
    then have "fst x \<noteq> fst (hd ?d)" "hd ?d \<in> set xs"
      using hd_dropWhile [of "same_key x" xs] subsetD [OF d(2) hd_in_set] unfolding same_key_def by blast+
    moreover have "fst (hd ?d) \<le> fst y"
      using that d(1) by (cases ?d) auto
    moreover have "fst x \<le> fst (hd ?d)"
      using 2(2) calculation(2) by auto
    ultimately show ?thesis
      by order
  qed
  have "fst ` set xs \<subseteq> insert (fst x) (fst ` set ?d)"
  proof
    fix k
    assume "k \<in> fst ` set xs"
    then obtain y where y: "y \<in> set xs" "k = fst y"
      by auto
    then have "y \<in> set (takeWhile (same_key x) xs) \<or> y \<in> set ?d"
      by (metis Un_iff set_append takeWhile_dropWhile_id)
    then show "k \<in> insert (fst x) (fst ` set ?d)"
      using y by (auto simp: same_key_def dest: set_takeWhileD)
  qed
  moreover have sub: "fst ` set (unique_by same_key ?d) = fst ` set ?d" "set (unique_by same_key ?d) \<subseteq> set ?d"
    "fst ` set ?d \<subseteq> fst ` set xs"
    using IH d(2) by blast+
  ultimately have "fst ` set (unique_by same_key (x # xs)) = fst ` set (x # xs)"
    unfolding unique_by.simps list.set image_insert by blast
  moreover have "set (unique_by same_key (x # xs)) \<subseteq> set (x # xs)"
    using sub(2) d(2) unfolding unique_by.simps list.set by blast
  moreover have "sorted_wrt (<) (map fst (unique_by same_key (x # xs)))"
    using IH lt sub(1) unfolding unique_by.simps list.map sorted_wrt.simps set_map by blast
  ultimately show ?case
    by blast
qed simp

lemma normalize_labels_spec:
  "sort_law srt \<Longrightarrow> sorted_wrt (<) (map fst (normalize_labels srt ls)) \<and>
     set (normalize_labels srt ls) \<subseteq> set ls \<and> fst ` set (normalize_labels srt ls) = fst ` set ls"
  unfolding normalize_labels_def sort_law_def using unique_by_sorted [of "srt ls"] by (metis mset_eq_setD)

lemma add_parts_eq:
  "add_parts srt x ps ([], reg) = ([], reg @ map (\<lambda>(n, g). (x, \<lparr>ex_name = n, ex_value = g, ex_labels = normalize_labels srt []\<rparr>)) ps)"
  by (induction ps arbitrary: reg) (auto simp: add_exporter_def)

text \<open>
  \<^verbatim>\<open>add\<close> of a metric to the registry registers one exporter for each of its parts, in order. The first one has the labels, normalised: in
  strictly increasing order of their keys, no label invented and no key lost, however the sorting algorithm orders equal keys. The other
  parts have no labels, because the vector was moved into the first.
\<close>

theorem registry_add_exporters:
  assumes "sort_law srt"
  shows "\<exists>ls. registry_add srt x ((n, g) # ps) labels reg =
      reg @ (x, \<lparr>ex_name = n, ex_value = g, ex_labels = ls\<rparr>) # map (\<lambda>(n, g). (x, \<lparr>ex_name = n, ex_value = g, ex_labels = []\<rparr>)) ps \<and>
    sorted_wrt (<) (map fst ls) \<and> set ls \<subseteq> set labels \<and> fst ` set ls = fst ` set labels"
proof -
  have "normalize_labels srt [] = []"
    using normalize_labels_spec [OF assms, of "[]"] by simp
  then have "registry_add srt x ((n, g) # ps) labels reg =
      reg @ (x, \<lparr>ex_name = n, ex_value = g, ex_labels = normalize_labels srt labels\<rparr>) #
        map (\<lambda>(n, g). (x, \<lparr>ex_name = n, ex_value = g, ex_labels = []\<rparr>)) ps"
    by (simp add: registry_add_def add_exporter_def add_parts_eq)
  then show ?thesis
    using normalize_labels_spec [OF assms, of labels] by blast
qed

lemma sort_key_law: "sort_law (sort_key fst)"
  by (simp add: sort_law_def)

theorem registry_add_exporters_witness:
  "\<exists>ls. registry_add (sort_key fst) (1 :: nat) (LatencyMetric_parts ''x'' (fst :: nat \<times> nat \<Rightarrow> nat) snd) [(2 :: nat, ''b''), (1, ''a''), (2, ''c'')] [] =
     [(1, \<lparr>ex_name = ''x_total_usec'', ex_value = fst, ex_labels = ls\<rparr>), (1, \<lparr>ex_name = ''x_count'', ex_value = snd, ex_labels = []\<rparr>)] \<and>
     fst ` set ls = {2, 1}"
proof -
  obtain ls where ls: "registry_add (sort_key fst) (1 :: nat) (LatencyMetric_parts ''x'' (fst :: nat \<times> nat \<Rightarrow> nat) snd) [(2 :: nat, ''b''), (1, ''a''), (2, ''c'')] [] =
     [(1, \<lparr>ex_name = ''x_total_usec'', ex_value = fst, ex_labels = ls\<rparr>), (1, \<lparr>ex_name = ''x_count'', ex_value = snd, ex_labels = []\<rparr>)]"
    "fst ` set ls = fst ` set [(2 :: nat, ''b''), (1, ''a''), (2, ''c'')]"
    using registry_add_exporters [OF sort_key_law, of 1 "''x_total_usec''" "fst :: nat \<times> nat \<Rightarrow> nat" "[(''x_count'', snd)]" "[(2 :: nat, ''b''), (1, ''a''), (2, ''c'')]" "[]"]
    unfolding LatencyMetric_parts_def append.simps list.map prod.case by blast
  then show ?thesis
    unfolding list.set image_insert image_empty fst_conv insert_commute [of 1 2] insert_absorb2 by blast
qed

lemma registry_remove_add:
  "registry_remove x (registry_add srt x ps labels reg) = registry_remove x reg"
proof -
  have "registry_remove x (snd (add_parts srt x ps (ls, reg))) = registry_remove x reg" for ls
    by (induction ps arbitrary: ls reg) (auto simp: add_exporter_def registry_remove_def)
  then show ?thesis
    by (simp add: registry_add_def)
qed

subsection \<open>The CSV formatter\<close>

record ('n, 'v) MetricCsvFormatter =
  csv_id :: nat
  csv_index_of :: "'n \<rightharpoonup> nat"
  csv_values :: "'v list"

definition csv_init :: "('n, 'v) MetricCsvFormatter" where
  "csv_init = \<lparr>csv_id = 0, csv_index_of = Map.empty, csv_values = []\<rparr>"

fun index_names :: "nat \<Rightarrow> 'n list \<Rightarrow> ('n \<rightharpoonup> nat) \<Rightarrow> ('n \<rightharpoonup> nat)" where
  "index_names i [] m = m"
| "index_names i (n # ns) m = index_names (i + 1) ns (m(n \<mapsto> i))"

text \<open>The first result of \<^verbatim>\<open>initialize\<close> is the header line, after the three columns for the row itself. The map of columns is not cleared.\<close>

definition csv_initialize ::
  "('n :: linorder \<times> 'v \<times> ('k, 'l) labels) list \<Rightarrow> ('n, 'v :: zero) MetricCsvFormatter \<Rightarrow> 'n list \<times> ('n, 'v) MetricCsvFormatter" where
  "csv_initialize snapshot c =
     (let all_names = sort (map fst snapshot) in
      (all_names, c\<lparr>csv_id := 0, csv_index_of := index_names 0 all_names (csv_index_of c),
         csv_values := take (length all_names) (csv_values c @ replicate (length all_names) 0)\<rparr>))"

text \<open>Writing the values of a row: \<open>None\<close> when the column is outside \<^verbatim>\<open>values_\<close>, which is undefined behaviour.\<close>

fun csv_store :: "('n \<rightharpoonup> nat) \<Rightarrow> ('n \<times> 'v \<times> ('k, 'l) labels) list \<Rightarrow> 'v list \<Rightarrow> 'v list option" where
  "csv_store idx [] vs = Some vs"
| "csv_store idx ((name, v, labels) # es) vs =
     (case idx name of
        None \<Rightarrow> csv_store idx es vs
      | Some i \<Rightarrow> if i < length vs then csv_store idx es (vs[i := v]) else None)"

text \<open>\<open>prnt\<close> is the text of a double on the stream, with ten digits of precision. The two columns for the time are left out.\<close>

definition csv_format_values ::
  "('v \<Rightarrow> 't) \<Rightarrow> ('n \<times> 'v \<times> ('k, 'l) labels) list \<Rightarrow> ('n, 'v) MetricCsvFormatter \<Rightarrow>
     ((nat \<times> 't list) \<times> ('n, 'v) MetricCsvFormatter) option" where
  "csv_format_values prnt snapshot c =
     (case csv_store (csv_index_of c) snapshot (csv_values c) of
        None \<Rightarrow> None
      | Some vs \<Rightarrow> Some ((csv_id c + 1, map prnt vs), c\<lparr>csv_id := csv_id c + 1, csv_values := vs\<rparr>))"

text \<open>The thread of a \<^verbatim>\<open>MetricDumper\<close> with this formatter: a header, and a row whenever the timer elapses and once more when it is stopped.
  The list has what is read from the registry at each of these moments.\<close>

fun dumper_rows where
  "dumper_rows prnt [] c = Some []"
| "dumper_rows prnt (snapshot # snapshots) c =
     (case csv_format_values prnt snapshot c of
        None \<Rightarrow> None
      | Some (row, c') \<Rightarrow> (case dumper_rows prnt snapshots c' of None \<Rightarrow> None | Some rows \<Rightarrow> Some (row # rows)))"

definition dumper_thread where
  "dumper_thread prnt first snapshots =
     (case csv_initialize first csv_init of (header, c) \<Rightarrow>
        (case dumper_rows prnt snapshots c of None \<Rightarrow> None | Some rows \<Rightarrow> Some (header, rows)))"

text \<open>The rows as values, which the proofs are about, and as text.\<close>

lemma dumper_rows_print:
  "dumper_rows prnt snapshots c = map_option (map (map_prod id (map prnt))) (dumper_rows id snapshots c)"
  by (induction snapshots arbitrary: c) (auto simp: csv_format_values_def split: option.splits)

lemma dumper_thread_print:
  "dumper_thread prnt first snapshots = map_option (map_prod id (map (map_prod id (map prnt)))) (dumper_thread id first snapshots)"
  by (auto simp: dumper_thread_def dumper_rows_print [of prnt] split: prod.splits option.splits)

lemma index_names_other: "n \<notin> set ns \<Longrightarrow> index_names i ns m n = m n"
  by (induction ns arbitrary: i m) auto

lemma index_names_at: "distinct ns \<Longrightarrow> j < length ns \<Longrightarrow> index_names i ns m (ns ! j) = Some (i + j)"
proof (induction ns arbitrary: i j m)
  case (Cons a ns)
  then show ?case
    by (cases j) (auto simp: index_names_other)
qed simp

lemma index_names_bound: "index_names i ns m n = Some j \<Longrightarrow> m n = Some j \<or> i \<le> j \<and> j < i + length ns"
proof (induction ns arbitrary: i m)
  case (Cons a ns)
  then show ?case
    by (fastforce split: if_splits)
qed simp

text \<open>Every column is inside the row.\<close>

definition csv_ok :: "('n, 'v) MetricCsvFormatter \<Rightarrow> bool" where
  "csv_ok c \<longleftrightarrow> ran (csv_index_of c) \<subseteq> {..< length (csv_values c)}"

lemma csv_initialize_ok:
  "csv_ok (snd (csv_initialize snapshot csv_init))"
  by (auto simp: csv_ok_def csv_initialize_def csv_init_def Let_def ran_def dest: index_names_bound)

lemma csv_store_total:
  "ran idx \<subseteq> {..< length vs} \<Longrightarrow> \<exists>vs'. csv_store idx es vs = Some vs' \<and> length vs' = length vs"
proof (induction idx es vs rule: csv_store.induct)
  case (2 idx name v labels es vs)
  show ?case
  proof (cases "idx name")
    case (Some i)
    then have "i < length vs"
      using 2(3) by (auto simp: ran_def)
    then show ?thesis
      using 2 Some by auto
  qed (use 2 in auto)
qed simp

lemma csv_store_keeps:
  "csv_store idx es vs = Some vs' \<Longrightarrow> (\<forall>(n, v, l) \<in> set es. idx n \<noteq> Some j) \<Longrightarrow> vs' ! j = vs ! j \<and> length vs' = length vs"
proof (induction idx es vs rule: csv_store.induct)
  case (2 idx name v labels es vs)
  then show ?case
    by (auto split: option.splits if_splits)
qed simp

lemma csv_store_at:
  assumes "csv_store idx es vs = Some vs'" and "\<And>n n'. idx n = Some j \<Longrightarrow> idx n' = Some j \<Longrightarrow> n = n'"
    and "distinct (map fst es)" and "(n, v, l) \<in> set es" and "idx n = Some j"
  shows "vs' ! j = v"
  using assms
proof (induction idx es vs rule: csv_store.induct)
  case (2 idx name w labels es vs)
  show ?case
  proof (cases "name = n")
    case True
    have "n \<notin> fst ` set es"
      using 2(5) True by simp
    then have w: "w = v" and rest: "\<forall>(n', v', l') \<in> set es. idx n' \<noteq> Some j"
      using 2(6) True 2(4) [OF 2(7)] by force+
    have "j < length vs" "csv_store idx es (vs[j := v]) = Some vs'"
      using 2(3,7) True w by (auto split: if_splits)
    then show ?thesis
      using csv_store_keeps [OF _ rest] by simp
  next
    case False
    then show ?thesis
      using 2 by (auto split: option.splits if_splits)
  qed
qed simp

lemma csv_format_ok:
  assumes "csv_ok c"
  shows "\<exists>row c'. csv_format_values id snapshot c = Some (row, c') \<and> csv_ok c' \<and> csv_index_of c' = csv_index_of c \<and> csv_id c' = csv_id c + 1 \<and>
    fst row = csv_id c' \<and> snd row = csv_values c' \<and> length (csv_values c') = length (csv_values c) \<and>
    csv_store (csv_index_of c) snapshot (csv_values c) = Some (csv_values c')"
proof -
  obtain vs where "csv_store (csv_index_of c) snapshot (csv_values c) = Some vs" "length vs = length (csv_values c)"
    using csv_store_total assms unfolding csv_ok_def by blast
  then show ?thesis
    using assms by (simp add: csv_format_values_def csv_ok_def)
qed

definition row_before :: "'v list \<Rightarrow> (nat \<times> 'v list) list \<Rightarrow> nat \<Rightarrow> 'v list" where
  "row_before vs rows i = (case i of 0 \<Rightarrow> vs | Suc k \<Rightarrow> snd (rows ! k))"

lemma dumper_rows_total:
  assumes "csv_ok c"
  shows "\<exists>rows. dumper_rows id snapshots c = Some rows \<and> length rows = length snapshots \<and>
    (\<forall>i < length rows. fst (rows ! i) = csv_id c + i + 1 \<and> length (snd (rows ! i)) = length (csv_values c) \<and>
      csv_store (csv_index_of c) (snapshots ! i) (row_before (csv_values c) rows i) = Some (snd (rows ! i)))"
  using assms
proof (induction snapshots arbitrary: c)
  case (Cons snapshot snapshots)
  obtain row c' where f: "csv_format_values id snapshot c = Some (row, c')" "csv_ok c'" "csv_index_of c' = csv_index_of c"
    "csv_id c' = csv_id c + 1" "fst row = csv_id c'" "snd row = csv_values c'" "length (csv_values c') = length (csv_values c)"
    "csv_store (csv_index_of c) snapshot (csv_values c) = Some (csv_values c')"
    using csv_format_ok [OF Cons(2)] by blast
  obtain rows where r: "dumper_rows id snapshots c' = Some rows" "length rows = length snapshots"
    and at: "\<And>i. i < length rows \<Longrightarrow> fst (rows ! i) = csv_id c' + i + 1 \<and> length (snd (rows ! i)) = length (csv_values c') \<and>
      csv_store (csv_index_of c') (snapshots ! i) (row_before (csv_values c') rows i) = Some (snd (rows ! i))"
    using Cons(1) [OF f(2)] by blast
  have before: "row_before (csv_values c) (row # rows) (Suc k) = row_before (csv_values c') rows k" for k
    using f(6) by (simp add: row_before_def split: nat.splits)
  have "fst ((row # rows) ! i) = csv_id c + i + 1 \<and> length (snd ((row # rows) ! i)) = length (csv_values c) \<and>
      csv_store (csv_index_of c) ((snapshot # snapshots) ! i) (row_before (csv_values c) (row # rows) i) = Some (snd ((row # rows) ! i))"
    if "i < length (row # rows)" for i
  proof (cases i)
    case 0
    then show ?thesis
      using f by (simp add: row_before_def)
  next
    case (Suc k)
    then show ?thesis
      using at [of k] that f by (simp add: before)
  qed
  moreover have "dumper_rows id (snapshot # snapshots) c = Some (row # rows)"
    using f(1) r(1) by simp
  ultimately show ?case
    using r(2) by (intro exI [of _ "row # rows"]) (metis length_Cons)
qed simp

lemma dumper_rows_structure:
  fixes first :: "('n :: linorder \<times> 'v :: zero \<times> ('k, 'l) labels) list"
  shows "\<exists>rows. dumper_thread id first snapshots = Some (sort (map fst first), rows) \<and> length rows = length snapshots \<and>
    (\<forall>i < length rows. fst (rows ! i) = i + 1 \<and> length (snd (rows ! i)) = length first)"
proof -
  let ?c = "snd (csv_initialize first (csv_init :: ('n, 'v) MetricCsvFormatter))"
  have c: "csv_id ?c = 0" "csv_values ?c = replicate (length first) 0"
    by (simp_all add: csv_initialize_def csv_init_def Let_def)
  obtain rows where rows: "dumper_rows id snapshots ?c = Some rows" "length rows = length snapshots"
    and at_row: "\<And>i. i < length rows \<Longrightarrow> fst (rows ! i) = csv_id ?c + i + 1 \<and> length (snd (rows ! i)) = length (csv_values ?c)"
    using dumper_rows_total [OF csv_initialize_ok] by blast
  have "fst (csv_initialize first (csv_init :: ('n, 'v) MetricCsvFormatter)) = sort (map fst first)"
    by (simp add: csv_initialize_def Let_def)
  then have "dumper_thread id first snapshots = Some (sort (map fst first), rows)"
    using rows(1) by (simp add: dumper_thread_def case_prod_beta)
  with rows(2) at_row c show ?thesis by simp
qed

lemma dumper_rows_columns:
  fixes first :: "('n :: linorder \<times> 'v :: zero \<times> ('k, 'l) labels) list"
  assumes "distinct (map fst first)" and "\<forall>snapshot \<in> set snapshots. distinct (map fst snapshot)"
  shows "\<exists>rows. dumper_thread id first snapshots = Some (sort (map fst first), rows) \<and> length rows = length snapshots \<and>
    (\<forall>i < length rows. fst (rows ! i) = i + 1 \<and> length (snd (rows ! i)) = length first \<and>
      (\<forall>j < length first.
        (\<forall>v l. (sort (map fst first) ! j, v, l) \<in> set (snapshots ! i) \<longrightarrow> snd (rows ! i) ! j = v) \<and>
        (sort (map fst first) ! j \<notin> fst ` set (snapshots ! i) \<longrightarrow>
           snd (rows ! i) ! j = (if i = 0 then 0 else snd (rows ! (i - 1)) ! j))))"
proof -
  let ?names = "sort (map fst first)"
  let ?c = "snd (csv_initialize first (csv_init :: ('n, 'v) MetricCsvFormatter))"
  have c: "csv_id ?c = 0" "csv_index_of ?c = index_names 0 ?names Map.empty" "csv_values ?c = replicate (length first) 0"
    by (simp_all add: csv_initialize_def csv_init_def Let_def)
  have at: "csv_index_of ?c (?names ! j) = Some j" if "j < length first" for j
    using index_names_at [of ?names j 0] assms(1) that by (simp add: c(2))
  have inj: "n = ?names ! j" if "csv_index_of ?c n = Some j" for n j
  proof -
    have "n \<in> set ?names"
      using that index_names_other [of n ?names 0 Map.empty] unfolding c(2) by (cases "n \<in> set ?names") auto
    then obtain k where "k < length first" "n = ?names ! k"
      by (metis in_set_conv_nth length_map length_sort)
    then show ?thesis
      using at that by auto
  qed
  obtain rows where rows: "dumper_rows id snapshots ?c = Some rows" "length rows = length snapshots"
    and at_row: "\<And>i. i < length rows \<Longrightarrow> fst (rows ! i) = csv_id ?c + i + 1 \<and> length (snd (rows ! i)) = length (csv_values ?c) \<and>
      csv_store (csv_index_of ?c) (snapshots ! i) (row_before (csv_values ?c) rows i) = Some (snd (rows ! i))"
    using dumper_rows_total [OF csv_initialize_ok] by blast
  have row: "(\<forall>v l. (?names ! j, v, l) \<in> set (snapshots ! i) \<longrightarrow> snd (rows ! i) ! j = v) \<and>
      (?names ! j \<notin> fst ` set (snapshots ! i) \<longrightarrow> snd (rows ! i) ! j = (if i = 0 then 0 else snd (rows ! (i - 1)) ! j))"
    if i: "i < length rows" and j: "j < length first" for i j
  proof -
    note vs = at_row [OF i, THEN conjunct2, THEN conjunct2]
    have "distinct (map fst (snapshots ! i))"
      using assms(2) i rows(2) by simp
    then have "snd (rows ! i) ! j = v" if "(?names ! j, v, l) \<in> set (snapshots ! i)" for v l
      using csv_store_at [OF vs _ _ that at [OF j]] inj by blast
    moreover have "snd (rows ! i) ! j = row_before (csv_values ?c) rows i ! j" if "?names ! j \<notin> fst ` set (snapshots ! i)"
    proof (rule csv_store_keeps [OF vs, THEN conjunct1], clarify)
      fix n v l
      assume n: "(n, v, l) \<in> set (snapshots ! i)" "csv_index_of ?c n = Some j"
      then show False
        using that inj [OF n(2)] by force
    qed
    ultimately show ?thesis
      using c(3) j by (auto simp: row_before_def split: nat.splits)
  qed
  have "fst (csv_initialize first (csv_init :: ('n, 'v) MetricCsvFormatter)) = ?names"
    by (simp add: csv_initialize_def Let_def)
  then have "dumper_thread id first snapshots = Some (?names, rows)"
    using rows(1) by (simp add: dumper_thread_def case_prod_beta)
  moreover have "fst (rows ! i) = i + 1 \<and> length (snd (rows ! i)) = length first" if "i < length rows" for i
    using at_row [OF that] c by simp
  ultimately show ?thesis
    using rows(2) row by blast
qed

definition metric_names :: "('o, 'n, 'k, 'l, 'w, 'v) metric_registry \<Rightarrow> 'n list" where
  "metric_names reg = map (\<lambda>(_, e). ex_name e) reg"

lemma read_all_names:
  assumes "order_law ord"
  shows "mset (map fst (read_all ord w reg)) = mset (metric_names reg)"
proof -
  have "map fst (read_all ord w reg) = metric_names (ord reg)"
    by (simp add: read_all_def metric_names_def comp_def case_prod_beta)
  then show ?thesis
    using assms by (simp add: metric_names_def order_law_def)
qed

lemma read_all_mem:
  "order_law ord \<Longrightarrow> (x, e) \<in> set reg \<Longrightarrow> (ex_name e, ex_value e w, ex_labels e) \<in> set (read_all ord w reg)"
  unfolding read_all_def order_law_def by (metis (no_types, lifting) case_prod_conv image_eqI list.set_map mset_eq_setD)

text \<open>
  C31 (roundtrip). The output of a metric dumper with the CSV formatter: the header has the names registered when it starts, in ascending
  order, and for every moment it writes, whatever is registered by then, there is exactly one row, numbered from 1, with as many values
  as the header has names; no value is written outside the row. When moreover the registered names are distinct, at the start and at
  every moment, the text under a name is the text, with the precision of the formatter, of the double that the metric of that name
  exports at that moment; when no such metric is registered any more, it is the text of the row before (of 0 in the first row).
\<close>

theorem dumper_rows_match_header:
  fixes reg :: "('o, 'n :: linorder, 'k, 'l, 'w, 'v :: zero) metric_registry"
  assumes "order_law ord"
  shows "\<exists>rows. dumper_thread prnt (read_all ord w reg) (map (\<lambda>(w, r). read_all ord w r) moments) = Some (sort (metric_names reg), rows) \<and>
    length rows = length moments \<and> (\<forall>i < length rows. fst (rows ! i) = i + 1 \<and> length (snd (rows ! i)) = length reg) \<and>
    (distinct (metric_names reg) \<and> (\<forall>(w, r) \<in> set moments. distinct (metric_names r)) \<longrightarrow>
      (\<forall>i < length rows. \<forall>j < length reg.
        (\<forall>(x, e) \<in> set (snd (moments ! i)). ex_name e = sort (metric_names reg) ! j \<longrightarrow>
           snd (rows ! i) ! j = prnt (ex_value e (fst (moments ! i)))) \<and>
        (sort (metric_names reg) ! j \<notin> set (metric_names (snd (moments ! i))) \<longrightarrow>
           snd (rows ! i) ! j = (if i = 0 then prnt 0 else snd (rows ! (i - 1)) ! j))))"
proof -
  let ?first = "read_all ord w reg" and ?snaps = "map (\<lambda>(w, r). read_all ord w r) moments"
  note names = read_all_names [OF assms]
  have "sort (map fst ?first) = sort (metric_names reg)"
    by (rule properties_for_sort) (simp_all only: names mset_sort sorted_sort)
  moreover have "length ?first = length reg"
    using mset_eq_length [OF names [of w reg]] by (simp add: metric_names_def)
  ultimately have header: "sort (map fst ?first) = sort (metric_names reg)" "length ?first = length reg"
    by blast+
  obtain rows where rows: "dumper_thread id ?first ?snaps = Some (sort (metric_names reg), rows)" "length rows = length moments"
    and at: "\<And>i. i < length rows \<Longrightarrow> fst (rows ! i) = i + 1 \<and> length (snd (rows ! i)) = length reg"
    using dumper_rows_structure [of ?first ?snaps] unfolding header by auto
  let ?rows = "map (map_prod id (map prnt)) rows"
  have print: "dumper_thread prnt ?first ?snaps = Some (sort (metric_names reg), ?rows)"
    using rows(1) by (simp add: dumper_thread_print [of prnt])
  have cell: "snd (?rows ! i) ! j = prnt (snd (rows ! i) ! j)" if "i < length rows" "j < length reg" for i j
    using that at [OF that(1)] by simp
  have columns: "(\<forall>(x, e) \<in> set (snd (moments ! i)). ex_name e = sort (metric_names reg) ! j \<longrightarrow>
         snd (?rows ! i) ! j = prnt (ex_value e (fst (moments ! i)))) \<and>
      (sort (metric_names reg) ! j \<notin> set (metric_names (snd (moments ! i))) \<longrightarrow>
         snd (?rows ! i) ! j = (if i = 0 then prnt 0 else snd (?rows ! (i - 1)) ! j))"
    if dist: "distinct (metric_names reg)" "\<forall>(w, r) \<in> set moments. distinct (metric_names r)"
      and i: "i < length rows" and j: "j < length reg" for i j
  proof -
    have "distinct (map fst (read_all ord w r)) \<longleftrightarrow> distinct (metric_names r)" for w r
      using mset_eq_imp_distinct_iff [OF names] .
    then have "distinct (map fst ?first)" "\<forall>snapshot \<in> set ?snaps. distinct (map fst snapshot)"
      using dist by auto
    from dumper_rows_columns [OF this, unfolded header] obtain rows' where
      r': "dumper_thread id ?first ?snaps = Some (sort (metric_names reg), rows')"
      and cols: "\<forall>i < length rows'. fst (rows' ! i) = i + 1 \<and> length (snd (rows' ! i)) = length reg \<and>
        (\<forall>j < length reg. (\<forall>v l. (sort (metric_names reg) ! j, v, l) \<in> set (?snaps ! i) \<longrightarrow> snd (rows' ! i) ! j = v) \<and>
          (sort (metric_names reg) ! j \<notin> fst ` set (?snaps ! i) \<longrightarrow>
             snd (rows' ! i) ! j = (if i = 0 then 0 else snd (rows' ! (i - 1)) ! j)))" by blast
    have "rows' = rows" using r' rows(1) by simp
    with cols i j have val: "\<And>v l. (sort (metric_names reg) ! j, v, l) \<in> set (?snaps ! i) \<Longrightarrow> snd (rows ! i) ! j = v"
      and keep: "sort (metric_names reg) ! j \<notin> fst ` set (?snaps ! i) \<Longrightarrow>
        snd (rows ! i) ! j = (if i = 0 then 0 else snd (rows ! (i - 1)) ! j)" by blast+
    have snap: "?snaps ! i = read_all ord (fst (moments ! i)) (snd (moments ! i))"
      using i rows(2) by (simp add: case_prod_beta)
    have "snd (rows ! i) ! j = ex_value e (fst (moments ! i))"
      if "(x, e) \<in> set (snd (moments ! i))" "ex_name e = sort (metric_names reg) ! j" for x e
      using val read_all_mem [OF assms that(1)] that(2) unfolding snap by metis
    moreover have "fst ` set (?snaps ! i) = set (metric_names (snd (moments ! i)))"
      using mset_eq_setD [OF names [of "fst (moments ! i)" "snd (moments ! i)"]] unfolding snap set_map .
    ultimately show ?thesis
      using keep cell [OF i j] cell [of "i - 1" j] i j by auto
  qed
  from print rows(2) at columns show ?thesis by (intro exI [of _ ?rows]) auto
qed

theorem dumper_rows_match_header_witness:
  "dumper_thread (\<lambda>v. v div 10) (read_all id 50 [(1 :: nat, \<lparr>ex_name = 2 :: nat, ex_value = \<lambda>t :: int. t, ex_labels = [] :: (nat, nat) labels\<rparr>),
       (2, \<lparr>ex_name = 1, ex_value = \<lambda>t. t + 10, ex_labels = []\<rparr>)])
     (map (\<lambda>(w, r). read_all id w r) [(60, [(1, \<lparr>ex_name = 2, ex_value = \<lambda>t. t, ex_labels = []\<rparr>), (2, \<lparr>ex_name = 1, ex_value = \<lambda>t. t + 10, ex_labels = []\<rparr>)]),
       (70, [(1, \<lparr>ex_name = 2, ex_value = \<lambda>t. t, ex_labels = []\<rparr>)])]) =
     Some ([1, 2], [(1, [7, 6]), (2, [7, 7])])"
proof -
  let ?a = "(1 :: nat, \<lparr>ex_name = 2 :: nat, ex_value = \<lambda>t :: int. t, ex_labels = [] :: (nat, nat) labels\<rparr>)"
  let ?b = "(2 :: nat, \<lparr>ex_name = 1 :: nat, ex_value = \<lambda>t :: int. t + 10, ex_labels = [] :: (nat, nat) labels\<rparr>)"
  have "order_law id"
    by (simp add: order_law_def)
  from dumper_rows_match_header [OF this, of "\<lambda>v. v div 10" 50 "[?a, ?b]" "[(60, [?a, ?b]), (70, [?a])]"]
  have "\<exists>rows. dumper_thread (\<lambda>v. v div 10) (read_all id 50 [?a, ?b]) (map (\<lambda>(w, r). read_all id w r) [(60, [?a, ?b]), (70, [?a])]) =
      Some (sort (metric_names [?a, ?b]), rows)"
    by blast
  then show ?thesis
    by (simp add: dumper_thread_def csv_initialize_def csv_init_def csv_format_values_def Let_def eval_nat_numeral read_all_def metric_names_def)
qed

text \<open>A formatter that is initialised again keeps the columns of the metrics that are gone, and writes their values outside the row.\<close>

lemma csv_initialize_again_overflows:
  "csv_format_values id [(1 :: nat, 1 :: int, [] :: (nat, nat) labels), (2, 2, [])]
     (snd (csv_initialize [(1, 1, [] :: (nat, nat) labels)] (snd (csv_initialize [(1, 1, [] :: (nat, nat) labels), (2, 2, [])] csv_init)))) = None"
  by (simp add: csv_format_values_def csv_initialize_def csv_init_def Let_def)

subsection \<open>Stopping a dumper\<close>

text \<open>The promise of a \<^verbatim>\<open>MetricDumper\<close> and whether its thread has not been joined. \<open>None\<close>: \<^verbatim>\<open>set_value\<close> throws, the promise has a value.\<close>

record MetricDumper =
  dumper_done :: bool
  dumper_joinable :: bool

definition dumper_init :: MetricDumper where
  "dumper_init = \<lparr>dumper_done = False, dumper_joinable = True\<rparr>"

definition dumper_halt :: "MetricDumper \<Rightarrow> MetricDumper option" where
  "dumper_halt d = (if dumper_done d then None else Some (d\<lparr>dumper_done := True\<rparr>))"

text \<open>\<^verbatim>\<open>join\<close> returns because the thread stops once the promise has a value; without it, it waits (\<open>None\<close>).\<close>

definition dumper_join :: "MetricDumper \<Rightarrow> MetricDumper option" where
  "dumper_join d = (if dumper_joinable d then if dumper_done d then Some (d\<lparr>dumper_joinable := False\<rparr>) else None else Some d)"

definition dumper_stop :: "MetricDumper \<Rightarrow> MetricDumper option" where
  "dumper_stop d = (case dumper_halt d of None \<Rightarrow> None | Some d \<Rightarrow> dumper_join d)"

text \<open>A dumper that was never stopped is stopped by its destructor; one that was is stopped a second time and throws.\<close>

lemma dumper_dtor:
  "dumper_stop dumper_init = Some \<lparr>dumper_done = True, dumper_joinable = False\<rparr>"
  "dumper_stop d = Some d' \<Longrightarrow> dumper_stop d' = None"
  by (auto simp: dumper_stop_def dumper_halt_def dumper_join_def dumper_init_def split: if_splits option.splits)

end
