(* ===== verification/Spec2Isabelle.thy ===== *)
theory Spec2Isabelle
  imports Seq_Group Watch_Atomic Batt_Grant Stream_Buffer Radix_Queue Batt_Queue Http_Chunk Batt_Task Http_Client Model_Checker Running_Total Parallel_Merge Batt_Interval Batt_Latch Batt_Channel Url_Parse Batt_Backoff Status_Registry Status_Or Batt_Optional Small_Fn Seq_KMerge Handler_Memory Batt_Pin Batt_Fetch Protobuf_Stream Fake_Context Batt_Metrics
begin

text \<open>
  A verification development of \<^verbatim>\<open>batteries\<close>, a C++ library of sequences (\<^verbatim>\<open>src/src/batteries/seq/\<close>), tasks and
  synchronisation for asynchronous programs (\<^verbatim>\<open>async/\<close>), HTTP (\<^verbatim>\<open>http/\<close>, \<^verbatim>\<open>pico_http/\<close>) and model checking
  (\<^verbatim>\<open>state_machine_model/\<close>).

  \<^bold>\<open>The parts and how they interact.\<close> A sequence is an object with \<^verbatim>\<open>next\<close> and \<^verbatim>\<open>peek\<close>; adapters wrap sequences
  and consumers drain them. The asynchronous part rests on \<^verbatim>\<open>Watch\<close>, an observable value: \<^verbatim>\<open>Mutex\<close>, \<^verbatim>\<open>Queue\<close>, \<^verbatim>\<open>Grant\<close> and
  \<^verbatim>\<open>StreamBuffer\<close> wait by watching a counter, and a \<^verbatim>\<open>Task\<close> is suspended until the handler it left in a watch is
  called. A \<^verbatim>\<open>StreamBuffer\<close> connects a producer and a consumer of bytes and is the main buffer source; the HTTP client
  parses heads out of a stream buffer, decodes chunked bodies from it and hands the body on as another buffer source.
  The exhaustive model checker explores user-supplied machines; it stores the choices of a run in a \<^verbatim>\<open>RadixQueue\<close> and
  passes batches of branches through a \<^verbatim>\<open>Queue\<close>.

  \<^bold>\<open>The theories.\<close>

\<^item> \<open>Batt_Prelude\<close>: machine integers, the option monad, lists, rings of indices, and the stable merge over a strict weak order (locale
  \<open>strict_weak\<close>), which \<open>Seq_Merge\<close> and \<open>Parallel_Merge\<close> rest on.
\<^item> \<open>Batt_Status\<close>: \<^verbatim>\<open>status.hpp\<close>, the codes, \<^verbatim>\<open>StatusOr\<close> as a sum, \<^verbatim>\<open>Status::Update\<close>. \<open>Status_Registry\<close>: the groups of codes
  that are registered at run time, their texts, and the error categories. \<open>Raw_Storage\<close>, \<open>Status_Or\<close>, \<open>Batt_Optional\<close>:
  values that are constructed and destroyed by hand; the locale \<open>storage_class\<close> takes the safety of every special
  member to that of all programs over objects, \<open>checked_class\<close> adds that no check fails and \<open>refining_class\<close> that programs
  do what a specification does. They are interpreted on \<^verbatim>\<open>StatusOr\<close>, on \<^verbatim>\<open>Optional\<close>, which refines the option type, on
  \<^verbatim>\<open>SmallFn\<close> (\<open>Small_Fn\<close>), which refines an optional callable, on \<^verbatim>\<open>UniqueHandler\<close> with the memory of handlers
  (\<open>Handler_Memory\<close>), where every function is called or destroyed once and no memory is lost, and on the executors
  of \<open>Fake_Context\<close>. \<open>Batt_Pin\<close>: \<^verbatim>\<open>Pin\<close> and \<^verbatim>\<open>Pinnable\<close> for all interleavings of the threads that hold pins; the object
  outlives the pins that hold it.
\<^item> \<open>Seq_Core\<close>: \<^verbatim>\<open>seq/requirements.hpp\<close>, sources and consumers. The locale \<open>seq_laws\<close> is the contract of a sequence
  (\<open>items s\<close> is what it still delivers); every consumer is shown once, inside the locale, to compute the corresponding
  list function. \<open>Seq_Adapters\<close>, \<open>Seq_Stateful\<close>, \<open>Seq_Merge\<close>, \<open>Seq_Group\<close>: one record and one group of functions
  per adapter; a lemma \<open>X_laws\<close> takes the contract of the adapted sequence to that of the adapter, with its items
  given by a list function (refinement); where the code does not meet the contract (\<^verbatim>\<open>Chain::peek\<close>, \<^verbatim>\<open>SkipN\<close>) that is
  stated. \<open>Seq_KMerge\<close>: the k-way merge over the heap algorithms of the standard library, which \<open>Std_Heap\<close> has with their
  contract (locale \<open>heap_order\<close>).
\<^item> \<open>Batt_Watch\<close>: \<^verbatim>\<open>Watch<T>\<close>, whose methods have one critical section each, over histories of calls. \<open>Watch_Atomic\<close>:
  \<^verbatim>\<open>WatchAtomic<T>\<close>, any number of threads, one step per access to an atomic variable; invariants by rule induction over
  the reachable states: no lost wake-up, every handler is invoked once, closing is final.
\<^item> \<open>Batt_Grant\<close>, \<open>Batt_Mutex\<close>, \<open>Batt_Queue\<close>: the primitives on top of a watch, again over all interleavings:
  conservation of the amount of a pool, mutual exclusion and progress of the ticket lock, FIFO order of the queue and
  that its check never fails.
\<^item> \<open>Batt_Task\<close>: the state word of a task and every thread that touches it. One owner of the suspended context, no
  lost wake-up but for a task that is preempted inside the function given to \<^verbatim>\<open>await\<close>, no lost completion handler; two
  executions in which a task is lost.
\<^item> \<open>Batt_Latch\<close>, \<open>Batt_Channel\<close>: \<^verbatim>\<open>async/latch.hpp\<close> for any number of threads, and \<^verbatim>\<open>async/channel.hpp\<close> for one producer and
  one consumer: a value is written once, and a channel hands over every value in order; because its watches
  notify late, some checks of the channel can fail.
\<^item> \<open>Work_Slice\<close>, \<open>Running_Total\<close>, \<open>Parallel_Merge\<close>: \<^verbatim>\<open>async/slice_work.hpp\<close> and the algorithms of \<^verbatim>\<open>algo/\<close>, for every order
  of the stores of their concurrent tasks; each computes what its sequential counterpart does.
\<^item> \<open>Batt_Interval\<close>: \<^verbatim>\<open>interval.hpp\<close> as sets of integers. \<open>Stream_Util\<close>, \<open>Url_Parse\<close>: text to values and back,
  \<^verbatim>\<open>parse_url\<close> as the inverse of printing. \<open>Batt_Backoff\<close>: retry policies and the rate limiter over time.
\<^item> \<open>Stream_Buffer\<close>: the ring of bytes and its two positions; refinement of a list of bytes.
\<^item> \<open>Buffer_Source\<close>: \<^verbatim>\<open>buffer.hpp\<close>, \<^verbatim>\<open>async/buffer_source.hpp\<close>; the locales \<open>buffer_source\<close> and \<open>finite_source\<close> are the
  contract of a source, interpreted on the stream buffer, \<^verbatim>\<open>HttpData\<close> and the adapters; the consumers
  (\<^verbatim>\<open>for_each\<close>, \<^verbatim>\<open>collect_vec\<close>, \<^verbatim>\<open>write_to\<close>) are proved against the contract. \<open>Batt_Fetch\<close>: the scoped chunks of
  \<^verbatim>\<open>async/fetch.hpp\<close>, whose streams are parameters with that contract. \<open>Protobuf_Stream\<close>: \<^verbatim>\<open>protobuf/\<close>, the zero-copy streams
  over a stream buffer as positions in its data.
\<^item> \<open>Pico_Chunked\<close>, \<open>Pico_Parser\<close>: \<^verbatim>\<open>pico_http/parser_impl.hpp\<close>, the incremental decoder of chunked bodies against a
  machine that reads one byte at a time, and the parsers of heads (SSE and portable), with bounds, resumption and
  round trips through the locale \<open>head_parser\<close>.
\<^item> \<open>Http_Chunk\<close>, \<open>Http_Decoder\<close>, \<open>Http_Client\<close>: the chunk encoder, the chunk decoder as a buffer source, and the
  client's \<^verbatim>\<open>read_next_response\<close> and \<^verbatim>\<open>get_data\<close>; round trips of bodies through encoder, ring buffer and decoder.
\<^item> \<open>Radix_Queue\<close>: \<^verbatim>\<open>radix_queue.hpp\<close>, packed digits refine a list of digits. \<open>Model_Checker\<close>: the exhaustive checker
  on one shard; it terminates and is sound and complete for finite machines.
\<^item> \<open>Fake_Context\<close>: the fake execution context and time service of the tests: handlers run in turn, work is counted, and
  every timer is posted once, when it is due; the two critical sections of \<^verbatim>\<open>schedule_timer\<close> are two steps. The heap of timers is one of Boost, a parameter with the law
  \<open>top_law\<close>. \<open>Batt_Metrics\<close>: concurrent updates of \<^verbatim>\<open>StatsMetric\<close>, the registry of exporters and the rows that a dumper writes
  as CSV; the order in which a hash map is visited and \<^verbatim>\<open>std::sort\<close> on equal keys are parameters (\<open>order_law\<close>,
  \<open>sort_law\<close>).

  \<^bold>\<open>Conventions.\<close> A class is a record with the data members of the class, a method a function on it. \<open>None\<close> is a call
  that does not return normally: a failed \<^verbatim>\<open>BATT_CHECK\<close>, a dereference of an empty optional, a loop that never ends.
  A call that waits for another party is a value of its own (\<open>Blocked\<close>) or a thread that has no step. Template
  parameters that are sequences, sources or destinations are the functions that model their methods. User callbacks are
  parameters. Threads interleave under sequential consistency, the default ordering of the atomics of the code; where the code
  asks for weaker orders (\<^verbatim>\<open>Pinnable\<close>, metrics) that is an assumption. \<^verbatim>\<open>BATT_ASSERT\<close> is a check as in debug builds.

  \<^bold>\<open>Bounds.\<close> Words are words where the code relies on their width (the state word of a watch, grant counters,
  radix queues, chunk sizes, \<^verbatim>\<open>pick_int\<close>). Stream positions (\<^verbatim>\<open>i64\<close>), tickets and item counts are unbounded numbers: a
  stream of \<^verbatim>\<open>2^63\<close> bytes or \<^verbatim>\<open>2^64\<close> acquisitions of one lock are out of reach. The counts of a channel are 32-bit words that
  wrap; a radix queue of the checker has 256 bits, four words. The size of an interval wraps to 64 bits. The state word of a task is a set of its
  nine flags. Buffers given to the parsers are shorter than 2 GiB, because the code keeps a token length in an
  \<^verbatim>\<open>int\<close>. Loops that may run for ever are partial functions into \<open>option\<close>; that they return is part of the theorem. The
  fuel in \<open>run_alone\<close> (progress of the ticket lock) is the number of steps that a thread needs, two or three. A \<^verbatim>\<open>double\<close> of the
  rate limiter is the rational number it stands for, and the rounding of each operation is a parameter with laws; the text of a
  \<^verbatim>\<open>double\<close> in a row of metrics is a parameter.

  \<^bold>\<open>Not modelled.\<close> What is code of Boost or of the operating system: sockets, timers, stack switching, threads; the
  client tasks, host contexts and server of \<^verbatim>\<open>http/\<close> are loops over these. Worker pools, schedulers and the trampoline's
  priorities; latency timers, clocks and debug output; type erasure and other template plumbing without state;
  \<^verbatim>\<open>bind_handler\<close> and the other wrappers that only forward calls; futures, which are glue over the latch. Of the modelled
  classes, what the components of the manifest name: printing, most of \<^verbatim>\<open>buffer.hpp\<close> (views and slices of buffers), the
  lock objects of a mutex, asynchronous completion of stream buffer calls that wait, the stochastic checker and model
  checking on several shards.
\<close>

end
